(* ===== verification/Prelude.thy ===== *)
theory Prelude
  imports Main "HOL-Library.Word" "HOL-Library.Sublist" "HOL-Library.Multiset"
begin

text \<open>
  Shared vocabulary of the development: the machine types of the daemon, its error
  codes, the string and path primitives that several components of
  \<^verbatim>\<open>src/src/anoubisd\<close> use (hash step, trailing slash handling, prefix match), and the
  generic lemmas on lists the component proofs rest on.

  C strings are \<^typ>\<open>string\<close> values without their terminating NUL byte; a pointer that may
  be NULL is an \<^typ>\<open>'a option\<close>. Memory allocation always succeeds in the model: the
  daemon terminates (\<^verbatim>\<open>master_terminate\<close>) or returns \<^verbatim>\<open>-ENOMEM\<close> when it does not.
\<close>

unbundle bit_operations_syntax

named_theorems pe_defs \<open>definitions of the policy engine that proofs unfold\<close>
named_theorems pe_frame \<open>fields an operation leaves alone\<close>

type_synonym u8 = "8 word"
type_synonym u16 = "16 word"
type_synonym u32 = "32 word"
type_synonym u64 = "64 word"
type_synonym uid = "32 word"
type_synonym cookie = "64 word"

text \<open>The error codes that modelled functions return (as \<^verbatim>\<open>-E...\<close>).\<close>

datatype errno = ENOENT | ENOMEM | EINVAL | EPERM | EXDEV | EFAULT | EIO
  | E2BIG | EEXIST | ENOTDIR | ENOSPC | ENAMETOOLONG | ENOSYS | EMSGSIZE | EOPNOTSUPP
  | A_EPERM_NO_CERTIFICATE | A_EPERM_UID_MISMATCH

text \<open>
  \<^verbatim>\<open>uid_t\<close> is unsigned; \<^verbatim>\<open>(uid_t)-1\<close> stands for ``no user''.
\<close>

abbreviation no_uid :: uid where
  "no_uid \<equiv> -1"

subsection \<open>Characters and the rolling hash\<close>

text \<open>
  \<^verbatim>\<open>char\<close> is signed on the supported platforms: \<^verbatim>\<open>ret ^= *data\<close> sign-extends the byte to
  \<^verbatim>\<open>unsigned long\<close>.
\<close>

definition sext_char :: "char \<Rightarrow> u64" where
  "sext_char c = scast (of_char c :: u8)"

text \<open>One round of the path hashes: shift, mix in a byte, fold the overflow back, mask.\<close>

definition hash_step :: "nat \<Rightarrow> char \<Rightarrow> u64 \<Rightarrow> u64" where
  "hash_step sh c ret =
     (let r = push_bit 1 ret XOR sext_char c
      in (r XOR drop_bit sh r) AND mask sh)"

lemma unat_and_mask_less:
  "unat ((w :: u64) AND mask n) < 2 ^ n"
  by (simp add: unsigned_take_bit_eq flip: take_bit_eq_mask)

subsection \<open>Path prefixes\<close>

text \<open>
  The loop \<^verbatim>\<open>while (len && prefix[len-1] == '/') len--;\<close> drops trailing slashes from a
  rule's path prefix.
\<close>

definition trim_slashes :: "string \<Rightarrow> string" where
  "trim_slashes s = rev (dropWhile (\<lambda>c. c = CHR ''/'') (rev s))"

text \<open>\<^verbatim>\<open>strncmp(a, b, n) == 0\<close> for strings without embedded NUL and \<open>n \<le> strlen(b)\<close>.\<close>

definition strncmp_eq :: "string \<Rightarrow> string \<Rightarrow> nat \<Rightarrow> bool" where
  "strncmp_eq a b n \<longleftrightarrow> take n a = take n b"

text \<open>
  The prefix test that \<^verbatim>\<open>pe_sfs_match_one\<close>, \<^verbatim>\<open>pe_sb_evaluate\<close> and \<^verbatim>\<open>pe_compare_path\<close>
  share: compare the first \<open>len\<close> bytes, then require the path to end or to continue with a
  slash.
\<close>

definition prefix_match :: "string \<Rightarrow> string \<Rightarrow> bool" where
  "prefix_match pre path =
     (let len = length (trim_slashes pre)
      in strncmp_eq path pre len \<and>
         (case drop len path of [] \<Rightarrow> True | c # _ \<Rightarrow> c = CHR ''/''))"

lemma trim_slashes_prefix: "\<exists>n. pre = trim_slashes pre @ replicate n (CHR ''/'')"
proof -
  let ?P = "\<lambda>c. c = CHR ''/''"
  have "rev pre = takeWhile ?P (rev pre) @ dropWhile ?P (rev pre)" by simp
  moreover have "takeWhile ?P (rev pre) = replicate (length (takeWhile ?P (rev pre))) (CHR ''/'')"
    by (rule replicate_eqI) (auto dest: set_takeWhileD)
  ultimately have "rev (rev pre) = rev (dropWhile ?P (rev pre)) @
      replicate (length (takeWhile ?P (rev pre))) (CHR ''/'')"
    by (metis rev_append rev_replicate)
  then show ?thesis by (auto simp: trim_slashes_def)
qed

lemma take_trim_slashes [simp]: "take (length (trim_slashes pre)) pre = trim_slashes pre"
  using trim_slashes_prefix [of pre] by (metis append_eq_conv_conj)

lemma length_trim_slashes: "length (trim_slashes pre) \<le> length pre"
  using trim_slashes_prefix [of pre] by (metis le_add1 length_append)

lemma trim_slashes_no_trailing: "s \<noteq> [] \<Longrightarrow> last s \<noteq> CHR ''/'' \<Longrightarrow> trim_slashes s = s"
  unfolding trim_slashes_def by (cases s rule: rev_cases) auto

lemma trim_slashes_root [simp]: "trim_slashes ''/'' = []"
  by (simp add: trim_slashes_def)

text \<open>What the byte comparison means: the path is the trimmed prefix, or lies below it.\<close>

lemma prefix_match_iff:
  "prefix_match pre path \<longleftrightarrow>
     path = trim_slashes pre \<or> (\<exists>rest. path = trim_slashes pre @ CHR ''/'' # rest)"
proof -
  let ?t = "trim_slashes pre" and ?l = "length (trim_slashes pre)"
  have "prefix_match pre path \<longleftrightarrow>
      take ?l path = ?t \<and> (case drop ?l path of [] \<Rightarrow> True | c # _ \<Rightarrow> c = CHR ''/'')"
    by (simp add: prefix_match_def Let_def strncmp_eq_def)
  also have "\<dots> \<longleftrightarrow> path = ?t \<or> (\<exists>rest. path = ?t @ CHR ''/'' # rest)"
    by (auto split: list.splits) (metis append_take_drop_id)+
  finally show ?thesis .
qed

subsection \<open>Lists ordered by an index\<close>

lemma sorted_key_unique:
  assumes "sorted_wrt (\<lambda>a b. f a < (f b :: 'k :: linorder)) xs"
    and "sorted_wrt (\<lambda>a b. f a < f b) ys" and "set xs = set ys"
  shows "xs = ys"
proof -
  have s: "sorted (map f zs) \<and> distinct (map f zs)"
    if "sorted_wrt (\<lambda>a b. f a < f b) zs" for zs
    using that by (induction zs) (auto simp: less_imp_le)
  have inj: "inj_on f (set xs)"
    using s [OF assms(1)] by (simp add: distinct_map)
  have "map f xs = map f ys"
    using s [OF assms(1)] s [OF assms(2)] assms(3)
    by (metis sorted_distinct_set_unique list.set_map)
  with inj assms(3) show ?thesis
    by (metis inj_on_map_eq_map sup.idem)
qed

lemma remove1_filter_distinct: "distinct xs \<Longrightarrow> remove1 a xs = filter (\<lambda>x. x \<noteq> a) xs"
  by (simp add: distinct_remove1_removeAll removeAll_filter_not_eq eq_commute)

lemma find_filter_mono:
  "(\<And>x. x \<in> set xs \<Longrightarrow> P x \<Longrightarrow> Q x) \<Longrightarrow> find P (filter Q xs) = find P xs"
  by (induction xs) auto

end
