(* ===== verification/PrefixHash.thy ===== *)
theory PrefixHash
  imports Prelude
begin

text \<open>
  Model of \<^verbatim>\<open>src/src/anoubisd/pe_prefixhash.c\<close>: the hash table that preselects, for a path, the
  rules of a block whose path prefix can apply. The table is a list of slots, a slot the
  chain of its entries. The main result is the exact content of a lookup: for a table filled
  by \<open>add_rules\<close> (the loop of \<^verbatim>\<open>pe_build_prefixhash\<close>), \<open>pe_prefixhash_getrules\<close> returns the
  rules of the block, in block order and without duplicates, whose prefix hashes to a probed
  slot; every rule whose prefix applies is among them.
\<close>

record 'r entry =
  e_rule :: 'r
  e_idx :: nat

record 'r pe_prefixhash =
  tabsize :: nat
  tab :: "'r entry list list"

definition PREFIXHASH_SHIFT :: nat where
  "PREFIXHASH_SHIFT = 24"

definition hash_fn :: "string \<Rightarrow> u64" where
  "hash_fn data = fold (hash_step PREFIXHASH_SHIFT) data 0 AND mask PREFIXHASH_SHIFT"

definition slot_of :: "'r pe_prefixhash \<Rightarrow> string \<Rightarrow> nat" where
  "slot_of h s = unat (hash_fn s) mod tabsize h"

definition pe_prefixhash_create :: "nat \<Rightarrow> 'r pe_prefixhash" where
  "pe_prefixhash_create n =
     (let n = (if n > 2 ^ PREFIXHASH_SHIFT - 1 then 2 ^ PREFIXHASH_SHIFT else n);
          n = (if n < 10 then 10 else n)
      in \<lparr>tabsize = n, tab = replicate n []\<rparr>)"

text \<open>
  A NULL prefix is hashed like the empty string (\<^verbatim>\<open>hash_fn(NULL, 0)\<close>). New entries go to the
  end of their slot.
\<close>

definition pe_prefixhash_add ::
    "'r pe_prefixhash \<Rightarrow> string option \<Rightarrow> 'r \<Rightarrow> nat \<Rightarrow> 'r pe_prefixhash" where
  "pe_prefixhash_add h str rule idx =
     (let hv = slot_of h (case str of None \<Rightarrow> [] | Some s \<Rightarrow> s)
      in h\<lparr>tab := (tab h)[hv := tab h ! hv @ [\<lparr>e_rule = rule, e_idx = idx\<rparr>]]\<rparr>)"

text \<open>The entries of the slot of \<open>str\<close> are appended to the result array.\<close>

definition addslot :: "'r pe_prefixhash \<Rightarrow> 'r entry list \<Rightarrow> string \<Rightarrow> 'r entry list" where
  "addslot h arr str = arr @ tab h ! slot_of h str"

text \<open>
  The loop \<^verbatim>\<open>while (len) { if (str[len] == '/') addslot(str, len); len--; }\<close>; \<^verbatim>\<open>str[len]\<close> is the
  terminating NUL when \<open>len\<close> is the length of the string.
\<close>

fun scan_slots :: "'r pe_prefixhash \<Rightarrow> string \<Rightarrow> nat \<Rightarrow> 'r entry list \<Rightarrow> 'r entry list" where
  "scan_slots h str 0 arr = arr"
| "scan_slots h str (Suc n) arr =
     scan_slots h str n
       (if Suc n < length str \<and> str ! Suc n = CHR ''/''
        then addslot h arr (take (Suc n) str) else arr)"

text \<open>Keep an entry unless its predecessor has the same index.\<close>

fun kill_dups :: "'r entry list \<Rightarrow> 'r entry list" where
  "kill_dups [] = []"
| "kill_dups [e] = [e]"
| "kill_dups (e # f # es) =
     (if e_idx e = e_idx f then kill_dups (e # es) else e # kill_dups (f # es))"

definition pe_prefixhash_getrules ::
    "'r pe_prefixhash \<Rightarrow> string option \<Rightarrow> errno + 'r list" where
  "pe_prefixhash_getrules h str =
     (case str of
        None \<Rightarrow>
          (let entries = addslot h [] []
           in Inr (map e_rule (kill_dups (sort_key e_idx entries))))
      | Some s \<Rightarrow>
          (if s = [] \<or> hd s \<noteq> CHR ''/'' then Inl EINVAL
           else
             (let entries = addslot h [] [];
                  entries = addslot h entries s;
                  entries = addslot h entries (take 1 s);
                  entries = scan_slots h s (length s) entries
              in Inr (map e_rule (kill_dups (sort_key e_idx entries))))))"

text \<open>
  The fill loop of \<^verbatim>\<open>pe_build_prefixhash\<close> (\<^verbatim>\<open>pe.c\<close>): rule number \<open>idx\<close> is entered under its
  prefix and \<open>idx\<close> counts up.
\<close>

fun add_rules ::
    "('r \<Rightarrow> string option) \<Rightarrow> 'r pe_prefixhash \<Rightarrow> nat \<Rightarrow> 'r list \<Rightarrow> 'r pe_prefixhash" where
  "add_rules pref h idx [] = h"
| "add_rules pref h idx (r # rs) =
     add_rules pref (pe_prefixhash_add h (pref r) r idx) (Suc idx) rs"

subsection \<open>The table invariant\<close>

definition ph_wf :: "'r pe_prefixhash \<Rightarrow> bool" where
  "ph_wf h \<longleftrightarrow> 0 < tabsize h \<and> length (tab h) = tabsize h"

abbreviation pref_str :: "string option \<Rightarrow> string" where
  "pref_str p \<equiv> (case p of None \<Rightarrow> [] | Some s \<Rightarrow> s)"

text \<open>The entries a slot holds for a numbered rule list.\<close>

definition slot_entries ::
    "('r \<Rightarrow> string option) \<Rightarrow> 'r pe_prefixhash \<Rightarrow> nat \<Rightarrow> 'r list \<Rightarrow> nat \<Rightarrow> 'r entry list" where
  "slot_entries pref h k rs sl =
     map (\<lambda>(i, r). \<lparr>e_rule = r, e_idx = i\<rparr>)
       (filter (\<lambda>(i, r). slot_of h (pref_str (pref r)) = sl) (enumerate k rs))"

lemma ph_wf_create [simp]: "ph_wf (pe_prefixhash_create n)"
  by (simp add: ph_wf_def pe_prefixhash_create_def Let_def)

lemma slot_of_less: "ph_wf h \<Longrightarrow> slot_of h s < length (tab h)"
  by (simp add: ph_wf_def slot_of_def)

lemma slot_of_tab [simp]: "slot_of (h\<lparr>tab := t\<rparr>) s = slot_of h s"
  by (simp add: slot_of_def)

lemma ph_wf_add [simp]: "ph_wf (pe_prefixhash_add h p r i) = ph_wf h"
  by (simp add: ph_wf_def pe_prefixhash_add_def Let_def)

lemma slot_of_add [simp]: "slot_of (pe_prefixhash_add h p r i) s = slot_of h s"
  by (simp add: pe_prefixhash_add_def Let_def)

lemma tab_add:
  "ph_wf h \<Longrightarrow> sl < length (tab h) \<Longrightarrow>
   tab (pe_prefixhash_add h p r i) ! sl =
     tab h ! sl @ (if slot_of h (pref_str p) = sl then [\<lparr>e_rule = r, e_idx = i\<rparr>] else [])"
  by (auto simp: pe_prefixhash_add_def Let_def nth_list_update slot_of_less)

lemma length_tab_add [simp]: "length (tab (pe_prefixhash_add h p r i)) = length (tab h)"
  by (simp add: pe_prefixhash_add_def Let_def)

lemma ph_wf_add_rules [simp]: "ph_wf (add_rules pref h k rs) = ph_wf h"
  by (induction rs arbitrary: h k) auto

lemma slot_of_add_rules [simp]: "slot_of (add_rules pref h k rs) s = slot_of h s"
  by (induction rs arbitrary: h k) auto

lemma length_tab_add_rules [simp]: "length (tab (add_rules pref h k rs)) = length (tab h)"
  by (induction rs arbitrary: h k) auto

lemma tab_add_rules:
  assumes "ph_wf h" and "sl < length (tab h)"
  shows "tab (add_rules pref h k rs) ! sl = tab h ! sl @ slot_entries pref h k rs sl"
  using assms
proof (induction rs arbitrary: h k)
  case Nil
  then show ?case by (simp add: slot_entries_def)
next
  case (Cons r rs)
  then show ?case by (simp add: tab_add slot_entries_def)
qed

lemma tab_create: "sl < length (tab (pe_prefixhash_create n)) \<Longrightarrow> tab (pe_prefixhash_create n) ! sl = []"
  by (simp add: pe_prefixhash_create_def Let_def)

subsection \<open>Sorting and duplicate removal\<close>

lemma set_kill_dups_subset: "set (kill_dups es) \<subseteq> set es"
  by (induction es rule: kill_dups.induct) auto

lemma kill_dups_idx: "e_idx ` set (kill_dups es) = e_idx ` set es"
  by (induction es rule: kill_dups.induct) (auto split: if_splits)

lemma kill_dups_sorted:
  "sorted (map e_idx es) \<Longrightarrow> sorted_wrt (\<lambda>a b. e_idx a < e_idx b) (kill_dups es)"
proof (induction es rule: kill_dups.induct)
  case (3 e f es)
  show ?case
  proof (cases "e_idx e = e_idx f")
    case True
    with 3 show ?thesis by auto
  next
    case False
    with 3 have IH: "sorted_wrt (\<lambda>a b. e_idx a < e_idx b) (kill_dups (f # es))" by simp
    have "e_idx e < e_idx x" if "x \<in> set (kill_dups (f # es))" for x
      using that False 3(3) set_kill_dups_subset [of "f # es"] by fastforce
    with IH False show ?thesis by simp
  qed
qed auto

lemma set_kill_dups:
  assumes "inj_on e_idx (set es)"
  shows "set (kill_dups es) = set es"
proof (rule subset_antisym [OF set_kill_dups_subset], rule subsetI)
  fix x assume x: "x \<in> set es"
  then have "e_idx x \<in> e_idx ` set (kill_dups es)" by (simp add: kill_dups_idx)
  then obtain y where "y \<in> set (kill_dups es)" "e_idx y = e_idx x" by auto
  with x assms set_kill_dups_subset [of es] show "x \<in> set (kill_dups es)"
    by (metis inj_onD subsetD)
qed

lemma enumerate_sorted: "sorted_wrt (\<lambda>a b. fst a < fst b) (enumerate k xs)"
  by (induction xs arbitrary: k) (auto simp: in_set_enumerate_eq)

lemma sorted_wrt_filter: "sorted_wrt R xs \<Longrightarrow> sorted_wrt R (filter P xs)"
  by (induction xs) auto

text \<open>
  Entries collected from several slots of a filled table, sorted and with duplicates removed,
  are the entries of the numbered rule list in these slots.
\<close>

lemma sort_kill_dups_entries:
  assumes "set es = {\<lparr>e_rule = r, e_idx = i\<rparr> | i r. (i, r) \<in> set (enumerate k rs) \<and> Q r}"
  shows "map e_rule (kill_dups (sort_key e_idx es)) = filter Q rs"
proof -
  let ?E = "map (\<lambda>(i, r). \<lparr>e_rule = r, e_idx = i\<rparr>) (filter (\<lambda>(i, r). Q r) (enumerate k rs))"
  have setE: "set ?E = set es" unfolding assms by force
  have srt: "sorted_wrt (\<lambda>a b. e_idx a < e_idx b) ?E"
    using sorted_wrt_filter [OF enumerate_sorted [of k rs]]
    by (auto simp: sorted_wrt_map case_prod_beta)
  have inj: "inj_on e_idx (set es)"
  proof (rule inj_onI)
    fix x y assume "x \<in> set es" "y \<in> set es" "e_idx x = e_idx y"
    then show "x = y" unfolding assms by (auto simp: in_set_enumerate_eq)
  qed
  have "kill_dups (sort_key e_idx es) = ?E"
  proof (rule sorted_key_unique [where f = e_idx])
    show "sorted_wrt (\<lambda>a b. e_idx a < e_idx b) (kill_dups (sort_key e_idx es))"
      by (rule kill_dups_sorted) simp
    show "sorted_wrt (\<lambda>a b. e_idx a < e_idx b) ?E" by (rule srt)
    show "set (kill_dups (sort_key e_idx es)) = set ?E"
      using inj by (simp add: set_kill_dups setE del: set_map set_filter)
  qed
  moreover have "map e_rule ?E = filter Q rs"
    by (induction rs arbitrary: k) auto
  ultimately show ?thesis by simp
qed

subsection \<open>What a lookup probes and returns\<close>

fun scan_probes :: "string \<Rightarrow> nat \<Rightarrow> string list" where
  "scan_probes str 0 = []"
| "scan_probes str (Suc n) =
     (if Suc n < length str \<and> str ! Suc n = CHR ''/'' then [take (Suc n) str] else []) @
     scan_probes str n"

definition probes :: "string option \<Rightarrow> string list" where
  "probes str = (case str of None \<Rightarrow> [[]]
     | Some s \<Rightarrow> [[], s, take 1 s] @ scan_probes s (length s))"

lemma scan_slots_probes:
  "scan_slots h s n arr = arr @ concat (map (\<lambda>p. tab h ! slot_of h p) (scan_probes s n))"
  by (induction n arbitrary: arr) (auto simp: addslot_def)

lemma set_scan_probes:
  "set (scan_probes s n) = {take i s | i. 0 < i \<and> i \<le> n \<and> i < length s \<and> s ! i = CHR ''/''}"
  by (induction n) (auto simp: le_Suc_eq)

lemma getrules_probes:
  assumes "case str of None \<Rightarrow> True | Some s \<Rightarrow> s \<noteq> [] \<and> hd s = CHR ''/''"
  shows "pe_prefixhash_getrules h str =
     Inr (map e_rule (kill_dups (sort_key e_idx
       (concat (map (\<lambda>p. tab h ! slot_of h p) (probes str))))))"
  using assms
  by (auto simp: pe_prefixhash_getrules_def probes_def Let_def addslot_def scan_slots_probes
      split: option.splits)

text \<open>The exact result of a lookup in a filled table.\<close>

lemma getrules_add_rules:
  assumes "case str of None \<Rightarrow> True | Some s \<Rightarrow> s \<noteq> [] \<and> hd s = CHR ''/''"
  shows "pe_prefixhash_getrules (add_rules pref (pe_prefixhash_create n) k rs) str =
     Inr (filter (\<lambda>r. slot_of (pe_prefixhash_create n :: 'r pe_prefixhash) (pref_str (pref r))
            \<in> slot_of (pe_prefixhash_create n :: 'r pe_prefixhash) ` set (probes str))
          (rs :: 'r list))"
    (is "_ = Inr (filter ?Q rs)")
proof -
  let ?h = "pe_prefixhash_create n :: 'r pe_prefixhash"
  let ?es = "concat (map (\<lambda>p. tab (add_rules pref ?h k rs) ! slot_of ?h p) (probes str))"
  have t: "tab (add_rules pref ?h k rs) ! slot_of ?h p = slot_entries pref ?h k rs (slot_of ?h p)"
    for p
  proof -
    have "slot_of ?h p < length (tab ?h)" by (rule slot_of_less) simp
    then show ?thesis by (simp add: tab_add_rules tab_create)
  qed
  have "set ?es = {\<lparr>e_rule = r, e_idx = i\<rparr> | i r. (i, r) \<in> set (enumerate k rs) \<and> ?Q r}"
    by (force simp: t slot_entries_def)
  from sort_kill_dups_entries [OF this] show ?thesis
    by (simp add: getrules_probes [OF assms])
qed

text \<open>
  A rule prefix as the parser stores it: absolute, and without a trailing slash unless it is
  the root directory (\<^verbatim>\<open>normalize_path\<close> in \<^verbatim>\<open>parse.y\<close>).
\<close>

definition prefix_normal :: "string \<Rightarrow> bool" where
  "prefix_normal s \<longleftrightarrow> s = ''/'' \<or> (s \<noteq> [] \<and> hd s = CHR ''/'' \<and> last s \<noteq> CHR ''/'')"

lemma applicable_prefix_probed:
  assumes "prefix_normal p" and "prefix_match p s" and "s \<noteq> []"
  shows "p \<in> set (probes (Some s))"
proof (cases "p = ''/''")
  case True
  with assms(2,3) have "take 1 s = ''/''"
    by (auto simp: prefix_match_iff)
  then show ?thesis using True by (simp add: probes_def)
next
  case False
  with assms(1) have p: "p \<noteq> []" "trim_slashes p = p"
    by (auto simp: prefix_normal_def trim_slashes_no_trailing)
  with assms(2) consider "s = p" | rest where "s = p @ CHR ''/'' # rest"
    by (auto simp: prefix_match_iff)
  then show ?thesis
  proof cases
    case 1
    then show ?thesis by (simp add: probes_def)
  next
    case 2
    then have "p \<in> {take i s | i. 0 < i \<and> i \<le> length s \<and> i < length s \<and> s ! i = CHR ''/''}"
      using p(1) by (auto intro!: exI [of _ "length p"])
    then show ?thesis by (simp add: probes_def set_scan_probes)
  qed
qed

end
