(* ===== verification/Rules.thy ===== *)
theory Rules
  imports PrefixHash
begin

text \<open>
  The data model of APN rules (\<^verbatim>\<open>src/src/libanoubis/include/apn.h\<close>), the scope test
  \<^verbatim>\<open>pe_in_scope\<close> and the rule index \<^verbatim>\<open>pe_build_prefixhash\<close> of \<^verbatim>\<open>src/src/anoubisd/pe.c\<close>.

  A \<^verbatim>\<open>struct apn_rule\<close> is used on two levels: application blocks (types \<^verbatim>\<open>APN_ALF\<close>, \<^verbatim>\<open>APN_SFS\<close>,
  \<^verbatim>\<open>APN_SB\<close>, \<^verbatim>\<open>APN_CTX\<close>, which hold a chain) are \<open>apn_block\<close> here, the rules in the chains are
  \<open>apn_rule\<close>. The tag \<^verbatim>\<open>apn_type\<close> and the union are one datatype. Blocks and rulesets carry
  their address, since the code compares pointers to them. Negative integers that stand for
  ``no decision'' are \<open>None\<close>.
\<close>

datatype apn_action_type =
  APN_ACTION_ALLOW | APN_ACTION_DENY | APN_ACTION_ASK | APN_ACTION_CONTINUE

datatype apn_log_level = APN_LOG_NONE | APN_LOG_NORMAL | APN_LOG_ALERT

fun log_num :: "apn_log_level \<Rightarrow> nat" where
  "log_num APN_LOG_NONE = 0"
| "log_num APN_LOG_NORMAL = 1"
| "log_num APN_LOG_ALERT = 2"

instantiation apn_log_level :: linorder
begin

definition less_eq_apn_log_level :: "apn_log_level \<Rightarrow> apn_log_level \<Rightarrow> bool" where
  "a \<le> b \<longleftrightarrow> log_num a \<le> log_num b"

definition less_apn_log_level :: "apn_log_level \<Rightarrow> apn_log_level \<Rightarrow> bool" where
  "a < b \<longleftrightarrow> log_num a < log_num b"

instance
proof
  fix x y z :: apn_log_level
  show "x < y \<longleftrightarrow> x \<le> y \<and> \<not> y \<le> x"
    by (auto simp: less_eq_apn_log_level_def less_apn_log_level_def)
  show "x \<le> x" by (simp add: less_eq_apn_log_level_def)
  show "x \<le> y \<Longrightarrow> y \<le> z \<Longrightarrow> x \<le> z" by (simp add: less_eq_apn_log_level_def)
  show "x \<le> y \<or> y \<le> x" by (auto simp: less_eq_apn_log_level_def)
  show "x \<le> y \<Longrightarrow> y \<le> x \<Longrightarrow> x = y"
    by (cases x; cases y) (auto simp: less_eq_apn_log_level_def)
qed

end

lemma log_none_least [simp]: "APN_LOG_NONE \<le> l"
  by (simp add: less_eq_apn_log_level_def)

datatype apn_subject =
  APN_CS_NONE | APN_CS_UID uid | APN_CS_KEY string | APN_CS_UID_SELF | APN_CS_KEY_SELF

record apn_app =
  app_name :: "string option"
  app_subject :: apn_subject

text \<open>Addresses are kept as the code stores them, in network byte order.\<close>

record apn_addr =
  addr_af :: nat
  addr_len :: nat
  addr_v4 :: u32
  addr_v6 :: "u32 list"

record apn_host =
  host_addr :: apn_addr
  host_negate :: bool

record apn_port =
  port_lo :: u16
  port_hi :: u16

datatype apn_direction = APN_CONNECT | APN_ACCEPT | APN_SEND | APN_RECEIVE | APN_BOTH

record apn_afiltspec =
  flog :: apn_log_level
  fproto :: nat
  netaccess :: apn_direction
  fromhost :: "apn_host list"
  fromport :: "apn_port list"
  tohost :: "apn_host list"
  toport :: "apn_port list"

record apn_afiltrule =
  afilt_action :: apn_action_type
  filtspec :: apn_afiltspec

datatype apn_capability = APN_ALF_CAPRAW | APN_ALF_CAPOTHER | APN_ALF_CAPALL

record apn_acaprule =
  acap_action :: apn_action_type
  acap_log :: apn_log_level
  capability :: apn_capability

record apn_default =
  d_action :: apn_action_type
  d_log :: apn_log_level

datatype apn_ctx_type = APN_CTX_NEW | APN_CTX_OPEN | APN_CTX_BORROW

record apn_context =
  application :: "apn_app list"
  ctx_type :: apn_ctx_type

record apn_sbaccess =
  sb_path :: "string option"
  sb_cs :: apn_subject
  sb_amask :: u32
  sb_log :: apn_log_level
  sb_action :: apn_action_type

record apn_sfsaccess =
  sfs_path :: "string option"
  sfs_subject :: apn_subject
  valid :: apn_default
  invalid :: apn_default
  unknown :: apn_default

record apn_sfsdefault =
  sfsd_path :: "string option"
  sfsd_log :: apn_log_level
  sfsd_action :: apn_action_type

datatype apn_body =
    APN_ALF_FILTER apn_afiltrule
  | APN_ALF_CAPABILITY apn_acaprule
  | APN_DEFAULT apn_default
  | APN_CTX_RULE apn_context
  | APN_SFS_ACCESS apn_sfsaccess
  | APN_SFS_DEFAULT apn_sfsdefault
  | APN_SB_ACCESS apn_sbaccess

record apn_scope =
  timeout :: int
  task :: cookie

record apn_rule =
  apn_id :: nat
  scope :: "apn_scope option"
  body :: apn_body

definition APN_RULE_NOSFS :: u32 where "APN_RULE_NOSFS = 1"
definition APN_RULE_PGFORCE :: u32 where "APN_RULE_PGFORCE = 2"
definition APN_RULE_PGONLY :: u32 where "APN_RULE_PGONLY = 4"

definition APN_SBA_READ :: u32 where "APN_SBA_READ = 1"
definition APN_SBA_WRITE :: u32 where "APN_SBA_WRITE = 2"
definition APN_SBA_EXEC :: u32 where "APN_SBA_EXEC = 4"

record apn_block =
  blk_addr :: nat
  blk_id :: nat
  app :: "apn_app list"
  flags :: u32
  chain :: "apn_rule list"

record apn_ruleset =
  rs_addr :: nat
  alf_queue :: "apn_block list"
  sfs_queue :: "apn_block list"
  sb_queue :: "apn_block list"
  ctx_queue :: "apn_block list"

definition has_flag :: "u32 \<Rightarrow> u32 \<Rightarrow> bool" where
  "has_flag fl f \<longleftrightarrow> fl AND f \<noteq> 0"

text \<open>\<^verbatim>\<open>pe_in_scope\<close>: a timeout or task of zero does not restrict the rule.\<close>

definition pe_in_scope :: "apn_scope option \<Rightarrow> cookie \<Rightarrow> int \<Rightarrow> bool" where
  "pe_in_scope sc t now =
     (case sc of
        None \<Rightarrow> True
      | Some s \<Rightarrow>
          (if timeout s \<noteq> 0 \<and> now > timeout s then False
           else if task s \<noteq> 0 \<and> t \<noteq> task s then False
           else True))"

subsection \<open>The rule index of a block\<close>

text \<open>The prefix under which a rule is entered; other rule types make the build fail.\<close>

fun rule_prefix :: "apn_rule \<Rightarrow> errno + string option" where
  "rule_prefix r =
     (case body r of
        APN_SFS_ACCESS a \<Rightarrow> Inr (sfs_path a)
      | APN_SFS_DEFAULT d \<Rightarrow> Inr (sfsd_path d)
      | APN_DEFAULT d \<Rightarrow> Inr None
      | APN_SB_ACCESS a \<Rightarrow> Inr (sb_path a)
      | _ \<Rightarrow> Inl EINVAL)"

fun build_loop :: "apn_rule pe_prefixhash \<Rightarrow> nat \<Rightarrow> apn_rule list \<Rightarrow>
    errno + apn_rule pe_prefixhash" where
  "build_loop h idx [] = Inr h"
| "build_loop h idx (r # rs) =
     (case rule_prefix r of
        Inl e \<Rightarrow> Inl e
      | Inr p \<Rightarrow> build_loop (pe_prefixhash_add h p r idx) (Suc idx) rs)"

definition pe_build_prefixhash :: "apn_block \<Rightarrow> errno + apn_rule pe_prefixhash" where
  "pe_build_prefixhash b =
     build_loop (pe_prefixhash_create (length (chain b))) 1 (chain b)"

text \<open>
  Candidate rules of a block for a path: the index is built on demand (the code caches it in
  \<^verbatim>\<open>userdata\<close>; it is a function of the chain) and then searched.
\<close>

definition block_getrules :: "apn_block \<Rightarrow> string option \<Rightarrow> errno + apn_rule list" where
  "block_getrules b path =
     (case pe_build_prefixhash b of
        Inl e \<Rightarrow> Inl e
      | Inr h \<Rightarrow> pe_prefixhash_getrules h path)"

text \<open>The rule types that may stand in an SFS or sandbox block.\<close>

definition path_rule :: "apn_rule \<Rightarrow> bool" where
  "path_rule r \<longleftrightarrow> (case rule_prefix r of Inl _ \<Rightarrow> False | Inr _ \<Rightarrow> True)"

definition rule_pref :: "apn_rule \<Rightarrow> string option" where
  "rule_pref r = (case rule_prefix r of Inl _ \<Rightarrow> None | Inr p \<Rightarrow> p)"

text \<open>The prefix of a rule applies to the path of an event (which may be unknown).\<close>

definition prefix_applies :: "string option \<Rightarrow> string option \<Rightarrow> bool" where
  "prefix_applies pre path =
     (case pre of None \<Rightarrow> True
      | Some p \<Rightarrow> (case path of None \<Rightarrow> False | Some s \<Rightarrow> prefix_match p s))"

definition chain_normal :: "apn_rule list \<Rightarrow> bool" where
  "chain_normal rs \<longleftrightarrow>
     list_all (\<lambda>r. path_rule r \<and> (case rule_pref r of None \<Rightarrow> True | Some p \<Rightarrow> prefix_normal p)) rs"

definition event_path_ok :: "string option \<Rightarrow> bool" where
  "event_path_ok path = (case path of None \<Rightarrow> True | Some s \<Rightarrow> s \<noteq> [] \<and> hd s = CHR ''/'')"

lemma build_loop_ok:
  "list_all path_rule rs \<Longrightarrow> build_loop h k rs = Inr (add_rules rule_pref h k rs)"
  by (induction rs arbitrary: h k)
    (auto simp: path_rule_def rule_pref_def simp del: rule_prefix.simps split: sum.splits)

lemma build_loop_bad:
  "\<not> list_all path_rule rs \<Longrightarrow> build_loop h k rs = Inl EINVAL"
proof (induction rs arbitrary: h k)
  case (Cons r rs)
  show ?case
  proof (cases "rule_prefix r")
    case (Inl e)
    then have "e = EINVAL" by (auto split: apn_body.splits)
    with Inl show ?thesis by simp
  next
    case (Inr p)
    with Cons show ?thesis by (simp add: path_rule_def del: rule_prefix.simps)
  qed
qed simp

lemma chain_normal_path_rules: "chain_normal rs \<Longrightarrow> list_all path_rule rs"
  by (auto simp: chain_normal_def list_all_iff)

text \<open>Candidates keep the block order and leave out no rule whose prefix applies.\<close>

lemma block_getrules_filter:
  assumes "list_all path_rule (chain b)" and "event_path_ok path"
  obtains Q where "block_getrules b path = Inr (filter Q (chain b))"
    and "\<And>r. rule_pref r = None \<Longrightarrow> Q r"
    and "\<And>r p s. rule_pref r = Some p \<Longrightarrow> path = Some s \<Longrightarrow> prefix_normal p \<Longrightarrow>
           prefix_match p s \<Longrightarrow> Q r"
proof -
  let ?h = "pe_prefixhash_create (length (chain b)) :: apn_rule pe_prefixhash"
  let ?Q = "\<lambda>r. slot_of ?h (pref_str (rule_pref r)) \<in> slot_of ?h ` set (probes path)"
  have ok: "case path of None \<Rightarrow> True | Some s \<Rightarrow> s \<noteq> [] \<and> hd s = CHR ''/''"
    using assms(2) by (simp add: event_path_ok_def)
  have "block_getrules b path = Inr (filter ?Q (chain b))"
    using getrules_add_rules [OF ok, of rule_pref "length (chain b)" 1 "chain b"]
    by (simp add: block_getrules_def pe_build_prefixhash_def build_loop_ok [OF assms(1)])
  moreover have "?Q r" if "rule_pref r = None" for r
    using that by (auto simp: probes_def split: option.splits)
  moreover have "?Q r" if "rule_pref r = Some p" "path = Some s" "prefix_normal p"
    "prefix_match p s" for r p s
  proof -
    have "s \<noteq> []" using ok that(2) by simp
    with that have "p \<in> set (probes path)" by (simp add: applicable_prefix_probed)
    with that(1) show ?thesis by simp
  qed
  ultimately show ?thesis by (rule that)
qed

text \<open>
  The interface that the SFS and sandbox evaluation rely on: searching the candidates for the
  first rule with some property gives what a search of the whole block gives, provided the
  property implies that the rule's prefix applies.
\<close>

locale rule_index =
  fixes getrules :: "'b \<Rightarrow> 'p \<Rightarrow> errno + 'r list"
    and all_rules :: "'b \<Rightarrow> 'r list"
    and good :: "'b \<Rightarrow> bool"
    and path_ok :: "'p \<Rightarrow> bool"
    and applies :: "'r \<Rightarrow> 'p \<Rightarrow> bool"
  assumes candidates: "good b \<Longrightarrow> path_ok p \<Longrightarrow>
      \<exists>Q. getrules b p = Inr (filter Q (all_rules b)) \<and>
          (\<forall>r\<in>set (all_rules b). applies r p \<longrightarrow> Q r)"
begin

lemma candidates_subseq:
  assumes "good b" "path_ok p" "getrules b p = Inr rs"
  shows "subseq rs (all_rules b)"
  using candidates [OF assms(1,2)] assms(3) by auto

lemma candidates_find:
  assumes "good b" "path_ok p" "getrules b p = Inr rs"
    and "\<And>r. r \<in> set (all_rules b) \<Longrightarrow> P r \<Longrightarrow> applies r p"
  shows "find P rs = find P (all_rules b)"
proof -
  obtain Q where "rs = filter Q (all_rules b)"
    and Q: "\<forall>r\<in>set (all_rules b). applies r p \<longrightarrow> Q r"
    using candidates [OF assms(1,2)] assms(3) by auto
  with assms(4) show ?thesis by (simp add: find_filter_mono)
qed

lemma candidates_total: "good b \<Longrightarrow> path_ok p \<Longrightarrow> \<exists>rs. getrules b p = Inr rs"
  using candidates by blast

text \<open>Any left fold that skips rules whose prefix does not apply sees no difference.\<close>

lemma candidates_fold:
  assumes "good b" "path_ok p" "getrules b p = Inr rs"
    and "\<And>r s. r \<in> set (all_rules b) \<Longrightarrow> \<not> applies r p \<Longrightarrow> f r s = s"
  shows "fold f rs s = fold f (all_rules b) s"
proof -
  obtain Q where rs: "rs = filter Q (all_rules b)"
    and Q: "\<forall>r\<in>set (all_rules b). applies r p \<longrightarrow> Q r"
    using candidates [OF assms(1,2)] assms(3) by auto
  have "fold f (filter Q xs) s = fold f xs s" if "set xs \<subseteq> set (all_rules b)" for xs s
    using that
  proof (induction xs arbitrary: s)
    case (Cons x xs)
    then show ?case using Q assms(4) by (cases "Q x") auto
  qed simp
  then show ?thesis by (simp add: rs)
qed

end

interpretation blk: rule_index block_getrules chain "\<lambda>b. chain_normal (chain b)" event_path_ok
  "\<lambda>r p. prefix_applies (rule_pref r) p"
proof
  fix b :: apn_block and path
  assume n: "chain_normal (chain b)" and p: "event_path_ok path"
  obtain Q where Q: "block_getrules b path = Inr (filter Q (chain b))"
      "\<And>r. rule_pref r = None \<Longrightarrow> Q r"
      "\<And>r p s. rule_pref r = Some p \<Longrightarrow> path = Some s \<Longrightarrow> prefix_normal p \<Longrightarrow>
           prefix_match p s \<Longrightarrow> Q r"
    using block_getrules_filter [OF chain_normal_path_rules [OF n] p] by blast
  have "Q r" if "r \<in> set (chain b)" "prefix_applies (rule_pref r) path" for r
    using that n Q(2,3)
    by (auto simp: prefix_applies_def chain_normal_def list_all_iff split: option.splits)
  with Q(1) show "\<exists>Q. block_getrules b path = Inr (filter Q (chain b)) \<and>
      (\<forall>r\<in>set (chain b). prefix_applies (rule_pref r) path \<longrightarrow> Q r)"
    by blast
qed

end
