(* ===== verification/SfsCache.thy ===== *)
theory SfsCache
  imports Prelude
begin

text \<open>
  Model of \<^verbatim>\<open>src/src/anoubisd/pe_sfscache.c\<close>: the LRU cache of file checksums. Entries are
  objects with an address that are linked into a hash chain and into the LRU list at the same
  time, so the state holds the entries by address and both kinds of lists as address lists.

  Reading the on-disk SFS tree (\<^verbatim>\<open>sfs_checksumop_chroot\<close>, \<^verbatim>\<open>sfs.c\<close>) is a parameter
  \<open>disk\<close> of the functions that use it: the data stored for a path and a user or for a path and
  a key-ID, or an error.

  Shown here: the two list structures stay consistent, the cache holds at most
  \<open>SFSHASH_MAX\<close> entries and no key twice, and a coherent cache answers every lookup with what
  a read from disk returns.
\<close>

definition SFSHASH_SHIFT :: nat where "SFSHASH_SHIFT = 13"
definition SFSHASH_NRENTRY :: nat where "SFSHASH_NRENTRY = 2 ^ 13"
definition SFSHASH_MAX :: nat where "SFSHASH_MAX = 4 * SFSHASH_NRENTRY"
definition ANOUBIS_CS_LEN :: nat where "ANOUBIS_CS_LEN = 32"

type_synonym bytes = "u8 list"

text \<open>The union \<^verbatim>\<open>u\<close> of an entry with its tag (\<^verbatim>\<open>cstype & CSTYPE_MASK\<close>).\<close>

datatype cskey = CSTYPE_UID uid | CSTYPE_KEY string

record sfshash_entry =
  cskey :: cskey
  negative :: bool
  slot :: nat
  epath :: string
  csum :: bytes

record sfshash =
  ents :: "nat \<Rightarrow> sfshash_entry"
  next_addr :: nat
  sfshash_tab :: "nat \<Rightarrow> nat list"
  sfshash_lru :: "nat list"
  sfshash_entries :: int

datatype sfs_request = SFS_GET2 string uid | SFS_GETSIG2 string bytes

type_synonym sfs_disk = "sfs_request \<Rightarrow> errno + bytes"

subsection \<open>Characters\<close>

definition tolower :: "char \<Rightarrow> char" where
  "tolower c =
     (let n = (of_char c :: nat) in if 65 \<le> n \<and> n \<le> 90 then char_of (n + 32) else c)"

definition strcasecmp_eq :: "string \<Rightarrow> string \<Rightarrow> bool" where
  "strcasecmp_eq a b \<longleftrightarrow> map tolower a = map tolower b"

definition chartohex :: "char \<Rightarrow> nat option" where
  "chartohex c =
     (let n = (of_char c :: nat)
      in if 48 \<le> n \<and> n \<le> 57 then Some (n - 48)
         else if 65 \<le> n \<and> n \<le> 70 then Some (10 + n - 65)
         else if 97 \<le> n \<and> n \<le> 102 then Some (10 + n - 97)
         else None)"

subsection \<open>The hash table\<close>

definition sfshash_init :: "sfshash" where
  "sfshash_init = \<lparr>ents = (\<lambda>_. \<lparr>cskey = CSTYPE_UID 0, negative = False, slot = 0, epath = [], csum = []\<rparr>),
     next_addr = 0, sfshash_tab = (\<lambda>_. []), sfshash_lru = [], sfshash_entries = 0\<rparr>"

definition sfshash_fn :: "string \<Rightarrow> cskey \<Rightarrow> nat" where
  "sfshash_fn path k =
     (let ret = (case k of CSTYPE_UID u \<Rightarrow> ucast u AND mask SFSHASH_SHIFT
                 | CSTYPE_KEY _ \<Rightarrow> ucast no_uid AND mask SFSHASH_SHIFT);
          ret = fold (hash_step SFSHASH_SHIFT) (map tolower path) ret;
          ret = (case k of CSTYPE_UID _ \<Rightarrow> ret
                 | CSTYPE_KEY key \<Rightarrow> fold (hash_step SFSHASH_SHIFT) (map tolower key) ret)
      in unat (ret AND mask SFSHASH_SHIFT))"

definition sfshash_remove_entry :: "nat \<Rightarrow> sfshash \<Rightarrow> sfshash" where
  "sfshash_remove_entry e c =
     (let sl = slot (ents c e)
      in c\<lparr>sfshash_tab := (sfshash_tab c)(sl := remove1 e (sfshash_tab c sl)),
           sfshash_lru := remove1 e (sfshash_lru c),
           sfshash_entries := sfshash_entries c - 1\<rparr>)"

text \<open>
  \<^verbatim>\<open>while (sfshash_entries > SFSHASH_MAX) sfshash_remove_entry(TAILQ_FIRST(&sfshash_lru));\<close>
\<close>

function sfshash_evict :: "sfshash \<Rightarrow> sfshash" where
  "sfshash_evict c =
     (if sfshash_entries c > int SFSHASH_MAX
      then (case sfshash_lru c of
              [] \<Rightarrow> c
            | e # es \<Rightarrow> sfshash_evict (sfshash_remove_entry e c))
      else c)"
  by pat_completeness auto
termination
  by (relation "measure (\<lambda>c. length (sfshash_lru c))")
    (auto simp: sfshash_remove_entry_def Let_def)

declare sfshash_evict.simps [simp del]

definition sfshash_insert_entry :: "nat \<Rightarrow> sfshash_entry \<Rightarrow> sfshash \<Rightarrow> sfshash" where
  "sfshash_insert_entry sl entry c =
     (let e = next_addr c
      in sfshash_evict
           (c\<lparr>ents := (ents c)(e := entry\<lparr>slot := sl\<rparr>),
              next_addr := Suc e,
              sfshash_tab := (sfshash_tab c)(sl := e # sfshash_tab c sl),
              sfshash_lru := sfshash_lru c @ [e],
              sfshash_entries := sfshash_entries c + 1\<rparr>))"

definition sfshash_touch :: "nat \<Rightarrow> sfshash \<Rightarrow> sfshash" where
  "sfshash_touch e c =
     (let sl = slot (ents c e)
      in c\<lparr>sfshash_tab := (sfshash_tab c)(sl := e # remove1 e (sfshash_tab c sl)),
           sfshash_lru := remove1 e (sfshash_lru c) @ [e]\<rparr>)"

function sfshash_flush :: "sfshash \<Rightarrow> sfshash" where
  "sfshash_flush c =
     (case sfshash_lru c of
        [] \<Rightarrow> c
      | e # es \<Rightarrow> sfshash_flush (sfshash_remove_entry e c))"
  by pat_completeness auto
termination
  by (relation "measure (\<lambda>c. length (sfshash_lru c))")
    (auto simp: sfshash_remove_entry_def Let_def)

declare sfshash_flush.simps [simp del]

definition sfshash_insert_common :: "string \<Rightarrow> bytes \<Rightarrow> cskey \<Rightarrow> bool \<Rightarrow> sfshash \<Rightarrow> sfshash" where
  "sfshash_insert_common path cs k neg c =
     sfshash_insert_entry (sfshash_fn path k)
       \<lparr>cskey = k, negative = neg, slot = 0, epath = path, csum = cs\<rparr> c"

definition sfshash_insert_uid :: "string \<Rightarrow> uid \<Rightarrow> bytes \<Rightarrow> sfshash \<Rightarrow> sfshash" where
  "sfshash_insert_uid path u cs c = sfshash_insert_common path cs (CSTYPE_UID u) False c"

definition sfshash_insert_uid_negative :: "string \<Rightarrow> uid \<Rightarrow> sfshash \<Rightarrow> sfshash" where
  "sfshash_insert_uid_negative path u c = sfshash_insert_common path [] (CSTYPE_UID u) True c"

definition sfshash_insert_key :: "string \<Rightarrow> string \<Rightarrow> bytes \<Rightarrow> sfshash \<Rightarrow> sfshash" where
  "sfshash_insert_key path key cs c = sfshash_insert_common path cs (CSTYPE_KEY key) False c"

definition sfshash_insert_key_negative :: "string \<Rightarrow> string \<Rightarrow> sfshash \<Rightarrow> sfshash" where
  "sfshash_insert_key_negative path key c = sfshash_insert_common path [] (CSTYPE_KEY key) True c"

subsection \<open>Lookup\<close>

fun uid_entry :: "string \<Rightarrow> uid \<Rightarrow> sfshash_entry \<Rightarrow> bool" where
  "uid_entry path u en =
     (case cskey en of CSTYPE_UID v \<Rightarrow> v = u \<and> path = epath en | CSTYPE_KEY _ \<Rightarrow> False)"

fun key_entry :: "string \<Rightarrow> string \<Rightarrow> sfshash_entry \<Rightarrow> bool" where
  "key_entry path key en =
     (case cskey en of CSTYPE_UID _ \<Rightarrow> False
      | CSTYPE_KEY k \<Rightarrow> strcasecmp_eq k key \<and> path = epath en)"

definition sfshash_find_uid :: "string \<Rightarrow> uid \<Rightarrow> sfshash \<Rightarrow> nat option \<times> sfshash" where
  "sfshash_find_uid path u c =
     (let sl = sfshash_fn path (CSTYPE_UID u)
      in case find (\<lambda>e. uid_entry path u (ents c e)) (sfshash_tab c sl) of
           None \<Rightarrow> (None, c)
         | Some e \<Rightarrow> (Some e, sfshash_touch e c))"

definition sfshash_find_key :: "string \<Rightarrow> string \<Rightarrow> sfshash \<Rightarrow> nat option \<times> sfshash" where
  "sfshash_find_key path key c =
     (let sl = sfshash_fn path (CSTYPE_KEY key)
      in case find (\<lambda>e. key_entry path key (ents c e)) (sfshash_tab c sl) of
           None \<Rightarrow> (None, c)
         | Some e \<Rightarrow> (Some e, sfshash_touch e c))"

text \<open>
  The key-ID, a string of hex digits, as bytes. An empty key-ID makes the allocation of the
  zero length buffer fail (\<^verbatim>\<open>-ENOMEM\<close>).
\<close>

fun hex_bytes :: "string \<Rightarrow> errno + bytes" where
  "hex_bytes [] = Inr []"
| "hex_bytes [c] = Inl ENOENT"
| "hex_bytes (a # b # cs) =
     (case (chartohex a, chartohex b) of
        (Some x, Some y) \<Rightarrow>
          (case hex_bytes cs of
             Inl e \<Rightarrow> Inl e
           | Inr bs \<Rightarrow> Inr (of_nat (16 * x + y) # bs))
      | _ \<Rightarrow> Inl ENOENT)"

definition sfshash_readsum :: "sfs_disk \<Rightarrow> string \<Rightarrow> cskey \<Rightarrow> errno + bytes" where
  "sfshash_readsum disk path k =
     (let res = (case k of
            CSTYPE_UID u \<Rightarrow> disk (SFS_GET2 path u)
          | CSTYPE_KEY key \<Rightarrow>
              (if key = [] then Inl ENOMEM
               else case hex_bytes key of Inl e \<Rightarrow> Inl e | Inr kb \<Rightarrow> disk (SFS_GETSIG2 path kb)))
      in case res of
           Inl e \<Rightarrow> Inl e
         | Inr buf \<Rightarrow>
             (if length buf < ANOUBIS_CS_LEN then Inl ENOENT
              else Inr (take ANOUBIS_CS_LEN buf)))"

definition sfshash_get_uid :: "sfs_disk \<Rightarrow> string \<Rightarrow> uid \<Rightarrow> sfshash \<Rightarrow> (errno + bytes) \<times> sfshash" where
  "sfshash_get_uid disk path u c =
     (case sfshash_find_uid path u c of
        (Some e, c') \<Rightarrow>
          (if negative (ents c' e) then (Inl ENOENT, c') else (Inr (csum (ents c' e)), c'))
      | (None, c') \<Rightarrow>
          (case sfshash_readsum disk path (CSTYPE_UID u) of
             Inl r \<Rightarrow>
               (Inl r, if r = ENOENT then sfshash_insert_uid_negative path u c' else c')
           | Inr buf \<Rightarrow> (Inr buf, sfshash_insert_uid path u buf c')))"

definition sfshash_get_key :: "sfs_disk \<Rightarrow> string \<Rightarrow> string \<Rightarrow> sfshash \<Rightarrow> (errno + bytes) \<times> sfshash" where
  "sfshash_get_key disk path key c =
     (case sfshash_find_key path key c of
        (Some e, c') \<Rightarrow>
          (if negative (ents c' e) then (Inl ENOENT, c') else (Inr (csum (ents c' e)), c'))
      | (None, c') \<Rightarrow>
          (case sfshash_readsum disk path (CSTYPE_KEY key) of
             Inl r \<Rightarrow>
               (Inl r, if r = ENOENT then sfshash_insert_key_negative path key c' else c')
           | Inr buf \<Rightarrow> (Inr buf, sfshash_insert_key path key buf c')))"

definition sfshash_invalidate_uid :: "string \<Rightarrow> uid \<Rightarrow> sfshash \<Rightarrow> sfshash" where
  "sfshash_invalidate_uid path u c =
     (case sfshash_find_uid path u c of
        (Some e, c') \<Rightarrow> sfshash_remove_entry e c'
      | (None, c') \<Rightarrow> c')"

definition sfshash_invalidate_key :: "string \<Rightarrow> string \<Rightarrow> sfshash \<Rightarrow> sfshash" where
  "sfshash_invalidate_key path key c =
     (case sfshash_find_key path key c of
        (Some e, c') \<Rightarrow> sfshash_remove_entry e c'
      | (None, c') \<Rightarrow> c')"

subsection \<open>Same key\<close>

text \<open>Two keys name the same cached object: key-IDs are compared without regard to case.\<close>

fun same_key :: "cskey \<Rightarrow> cskey \<Rightarrow> bool" where
  "same_key (CSTYPE_UID u) (CSTYPE_UID v) = (u = v)"
| "same_key (CSTYPE_KEY k) (CSTYPE_KEY l) = strcasecmp_eq k l"
| "same_key _ _ = False"

lemma same_key_refl [simp]: "same_key k k"
  by (cases k) (auto simp: strcasecmp_eq_def)

lemma same_key_sym: "same_key k l \<Longrightarrow> same_key l k"
  by (cases k; cases l) (auto simp: strcasecmp_eq_def)

lemma same_key_trans: "same_key k l \<Longrightarrow> same_key l m \<Longrightarrow> same_key k m"
  by (cases k; cases l; cases m) (auto simp: strcasecmp_eq_def)

lemma same_key_slot: "same_key k l \<Longrightarrow> sfshash_fn p k = sfshash_fn p l"
  by (cases k; cases l) (auto simp: sfshash_fn_def strcasecmp_eq_def)

lemma uid_entry_same: "uid_entry path u en \<longleftrightarrow> same_key (cskey en) (CSTYPE_UID u) \<and> epath en = path"
  by (cases "cskey en") auto

lemma key_entry_same: "key_entry path k en \<longleftrightarrow> same_key (cskey en) (CSTYPE_KEY k) \<and> epath en = path"
  by (cases "cskey en") auto

lemma of_char_tolower:
  "(of_char (tolower c) :: nat) =
     (if 65 \<le> (of_char c :: nat) \<and> (of_char c :: nat) \<le> 90 then of_char c + 32 else of_char c)"
  by (auto simp: tolower_def Let_def)

lemma chartohex_tolower: "chartohex (tolower c) = chartohex c"
  unfolding chartohex_def Let_def of_char_tolower by auto

lemma hex_bytes_tolower: "hex_bytes (map tolower k) = hex_bytes k"
  by (induction k rule: hex_bytes.induct) (auto simp: chartohex_tolower split: option.splits sum.splits)

lemma same_key_readsum:
  assumes "same_key k l"
  shows "sfshash_readsum d p k = sfshash_readsum d p l"
proof (cases k)
  case (CSTYPE_KEY a)
  with assms obtain b where b: "l = CSTYPE_KEY b" "map tolower a = map tolower b"
    by (cases l) (auto simp: strcasecmp_eq_def)
  then have "hex_bytes a = hex_bytes b" by (metis hex_bytes_tolower)
  moreover have "a = [] \<longleftrightarrow> b = []" using b(2) by (metis map_is_Nil_conv)
  ultimately show ?thesis using CSTYPE_KEY b by (simp add: sfshash_readsum_def)
qed (use assms in \<open>cases l, auto\<close>)

subsection \<open>Well-formed caches\<close>

definition cache_wf :: "sfshash \<Rightarrow> bool" where
  "cache_wf c \<longleftrightarrow>
     distinct (sfshash_lru c) \<and> sfshash_entries c = int (length (sfshash_lru c)) \<and>
     (\<forall>s. distinct (sfshash_tab c s) \<and>
          set (sfshash_tab c s) = {e \<in> set (sfshash_lru c). slot (ents c e) = s}) \<and>
     (\<forall>e\<in>set (sfshash_lru c). e < next_addr c \<and>
          slot (ents c e) = sfshash_fn (epath (ents c e)) (cskey (ents c e)))"

text \<open>No path and key is cached twice.\<close>

definition cache_uniq :: "sfshash \<Rightarrow> bool" where
  "cache_uniq c \<longleftrightarrow>
     (\<forall>e\<in>set (sfshash_lru c). \<forall>f\<in>set (sfshash_lru c).
        epath (ents c e) = epath (ents c f) \<and> same_key (cskey (ents c e)) (cskey (ents c f)) \<longrightarrow> e = f)"

text \<open>Every entry holds what the disk holds.\<close>

definition entry_ok :: "sfs_disk \<Rightarrow> sfshash_entry \<Rightarrow> bool" where
  "entry_ok d en \<longleftrightarrow>
     sfshash_readsum d (epath en) (cskey en) = (if negative en then Inl ENOENT else Inr (csum en))"

definition coherent :: "sfs_disk \<Rightarrow> sfshash \<Rightarrow> bool" where
  "coherent d c \<longleftrightarrow>
     cache_wf c \<and> cache_uniq c \<and> length (sfshash_lru c) \<le> SFSHASH_MAX \<and>
     (\<forall>e\<in>set (sfshash_lru c). entry_ok d (ents c e))"

lemma cache_wf_distinct: "cache_wf c \<Longrightarrow> distinct (sfshash_lru c)"
  by (simp add: cache_wf_def)

lemma cache_wf_entries: "cache_wf c \<Longrightarrow> sfshash_entries c = int (length (sfshash_lru c))"
  by (simp add: cache_wf_def)

lemma cache_wf_tab:
  "cache_wf c \<Longrightarrow> e \<in> set (sfshash_tab c s) \<longleftrightarrow> e \<in> set (sfshash_lru c) \<and> slot (ents c e) = s"
  by (auto simp: cache_wf_def)

lemma coherent_init: "coherent d sfshash_init"
  by (simp add: coherent_def cache_wf_def cache_uniq_def sfshash_init_def)

text \<open>Removing a cached entry takes it out of both lists and leaves everything else.\<close>

lemma lru_remove [simp]: "sfshash_lru (sfshash_remove_entry e c) = remove1 e (sfshash_lru c)"
  by (simp add: sfshash_remove_entry_def Let_def)

lemma ents_remove [simp]: "ents (sfshash_remove_entry e c) = ents c"
  by (simp add: sfshash_remove_entry_def Let_def)

lemma cache_wf_remove:
  assumes "cache_wf c" and "e \<in> set (sfshash_lru c)"
  shows "cache_wf (sfshash_remove_entry e c)"
proof -
  have "0 < length (sfshash_lru c)" using assms(2) by (rule length_pos_if_in_set)
  with assms show ?thesis
    by (auto simp: cache_wf_def sfshash_remove_entry_def Let_def length_remove1 of_nat_diff Suc_leI)
qed

lemma coherent_remove:
  assumes "coherent d c" and "e \<in> set (sfshash_lru c)"
  shows "coherent d (sfshash_remove_entry e c)"
  using assms cache_wf_remove [of c e]
  by (auto simp: coherent_def cache_uniq_def length_remove1 dest: notin_set_remove1 set_remove1_subset [THEN subsetD])

lemma cache_wf_touch:
  assumes "cache_wf c" and "e \<in> set (sfshash_lru c)"
  shows "cache_wf (sfshash_touch e c)"
proof -
  have "0 < length (sfshash_lru c)" using assms(2) by (cases "sfshash_lru c") auto
  with assms show ?thesis
    by (auto simp: cache_wf_def sfshash_touch_def Let_def length_remove1)
qed

lemma set_lru_touch:
  "cache_wf c \<Longrightarrow> e \<in> set (sfshash_lru c) \<Longrightarrow> set (sfshash_lru (sfshash_touch e c)) = set (sfshash_lru c)"
  by (auto simp: sfshash_touch_def Let_def cache_wf_def)

lemma ents_touch [simp]: "ents (sfshash_touch e c) = ents c"
  by (simp add: sfshash_touch_def Let_def)

lemma coherent_touch:
  assumes "coherent d c" and "e \<in> set (sfshash_lru c)"
  shows "coherent d (sfshash_touch e c)"
proof -
  from assms(1) have wf: "cache_wf c" by (simp add: coherent_def)
  have "length (sfshash_lru (sfshash_touch e c)) = length (sfshash_lru c)"
    using assms(2) by (auto simp: sfshash_touch_def Let_def length_remove1 intro!: Suc_pred length_pos_if_in_set)
  with assms cache_wf_touch [OF wf assms(2)] set_lru_touch [OF wf assms(2)] show ?thesis
    by (simp add: coherent_def cache_uniq_def)
qed

subsection \<open>Lookups on a well-formed cache\<close>

lemma find_in_slot:
  assumes "cache_wf c"
    and "find P (sfshash_tab c s) = Some e"
  shows "e \<in> set (sfshash_lru c) \<and> P e"
  using assms by (auto simp: find_Some_iff cache_wf_tab dest!: nth_mem)

lemma find_uid_Some:
  "cache_wf c \<Longrightarrow> sfshash_find_uid path u c = (Some e, c') \<Longrightarrow>
   e \<in> set (sfshash_lru c) \<and> same_key (cskey (ents c e)) (CSTYPE_UID u) \<and>
   epath (ents c e) = path \<and> c' = sfshash_touch e c"
  by (auto simp: sfshash_find_uid_def Let_def uid_entry_same dest: find_in_slot
      simp del: uid_entry.simps split: option.splits)

lemma find_key_Some:
  "cache_wf c \<Longrightarrow> sfshash_find_key path k c = (Some e, c') \<Longrightarrow>
   e \<in> set (sfshash_lru c) \<and> same_key (cskey (ents c e)) (CSTYPE_KEY k) \<and>
   epath (ents c e) = path \<and> c' = sfshash_touch e c"
  by (auto simp: sfshash_find_key_def Let_def key_entry_same dest: find_in_slot
      simp del: key_entry.simps split: option.splits)

text \<open>A lookup that finds nothing: no entry of the whole cache matches, not only of the slot.\<close>

lemma find_uid_None:
  assumes "cache_wf c" and "sfshash_find_uid path u c = (None, c')"
  shows "c' = c \<and> (\<forall>e\<in>set (sfshash_lru c).
    \<not> (same_key (cskey (ents c e)) (CSTYPE_UID u) \<and> epath (ents c e) = path))"
proof -
  from assms(2) have c': "c' = c"
    and n: "find (\<lambda>e. uid_entry path u (ents c e)) (sfshash_tab c (sfshash_fn path (CSTYPE_UID u))) = None"
    by (auto simp: sfshash_find_uid_def Let_def split: option.splits)
  have "\<not> (same_key (cskey (ents c e)) (CSTYPE_UID u) \<and> epath (ents c e) = path)"
    if e: "e \<in> set (sfshash_lru c)" for e
  proof
    assume m: "same_key (cskey (ents c e)) (CSTYPE_UID u) \<and> epath (ents c e) = path"
    with assms(1) e have "slot (ents c e) = sfshash_fn path (CSTYPE_UID u)"
      by (auto simp: cache_wf_def same_key_slot)
    with assms(1) e n m show False
      by (auto simp: find_None_iff cache_wf_tab uid_entry_same simp del: uid_entry.simps)
  qed
  with c' show ?thesis by blast
qed

lemma find_key_None:
  assumes "cache_wf c" and "sfshash_find_key path k c = (None, c')"
  shows "c' = c \<and> (\<forall>e\<in>set (sfshash_lru c).
    \<not> (same_key (cskey (ents c e)) (CSTYPE_KEY k) \<and> epath (ents c e) = path))"
proof -
  from assms(2) have c': "c' = c"
    and n: "find (\<lambda>e. key_entry path k (ents c e)) (sfshash_tab c (sfshash_fn path (CSTYPE_KEY k))) = None"
    by (auto simp: sfshash_find_key_def Let_def split: option.splits)
  have "\<not> (same_key (cskey (ents c e)) (CSTYPE_KEY k) \<and> epath (ents c e) = path)"
    if e: "e \<in> set (sfshash_lru c)" for e
  proof
    assume m: "same_key (cskey (ents c e)) (CSTYPE_KEY k) \<and> epath (ents c e) = path"
    with assms(1) e have "slot (ents c e) = sfshash_fn path (CSTYPE_KEY k)"
      by (metis cache_wf_def same_key_slot)
    with assms(1) e n m show False
      by (auto simp: find_None_iff cache_wf_tab key_entry_same simp del: key_entry.simps)
  qed
  with c' show ?thesis by blast
qed

subsection \<open>Insertion and eviction\<close>

text \<open>Coherence but for the bound, which the eviction loop establishes.\<close>

definition coherent_entries :: "sfs_disk \<Rightarrow> sfshash \<Rightarrow> bool" where
  "coherent_entries d c \<longleftrightarrow>
     cache_wf c \<and> cache_uniq c \<and> (\<forall>e\<in>set (sfshash_lru c). entry_ok d (ents c e))"

lemma coherent_iff: "coherent d c \<longleftrightarrow> coherent_entries d c \<and> length (sfshash_lru c) \<le> SFSHASH_MAX"
  by (auto simp: coherent_def coherent_entries_def)

lemma coherent_entries_remove:
  assumes "coherent_entries d c" and "e \<in> set (sfshash_lru c)"
  shows "coherent_entries d (sfshash_remove_entry e c)"
  using assms cache_wf_remove [of c e]
  by (auto simp: coherent_entries_def cache_uniq_def dest: set_remove1_subset [THEN subsetD])

lemma evict_coherent: "coherent_entries d c \<Longrightarrow> coherent d (sfshash_evict c)"
proof (induction c rule: sfshash_evict.induct)
  case (1 c)
  then have wf: "cache_wf c" by (simp add: coherent_entries_def)
  show ?case
  proof (cases "length (sfshash_lru c) > SFSHASH_MAX")
    case True
    then obtain e es where l: "sfshash_lru c = e # es" by (cases "sfshash_lru c") auto
    have "coherent_entries d (sfshash_remove_entry e c)"
      using "1.prems" l by (simp add: coherent_entries_remove)
    with "1.IH" l wf True show ?thesis
      by (subst sfshash_evict.simps) (simp add: cache_wf_entries)
  next
    case False
    with "1.prems" wf show ?thesis
      by (subst sfshash_evict.simps) (simp add: cache_wf_entries coherent_iff)
  qed
qed

text \<open>What the loop evicts: the entries at the front of the LRU list, no more than needed.\<close>

lemma evict_lru:
  "cache_wf c \<Longrightarrow>
   sfshash_lru (sfshash_evict c) = drop (length (sfshash_lru c) - SFSHASH_MAX) (sfshash_lru c)"
proof (induction c rule: sfshash_evict.induct)
  case (1 c)
  show ?case
  proof (cases "length (sfshash_lru c) > SFSHASH_MAX")
    case True
    then obtain e es where l: "sfshash_lru c = e # es" by (cases "sfshash_lru c") auto
    have "cache_wf (sfshash_remove_entry e c)" using "1.prems" l by (simp add: cache_wf_remove)
    with "1.IH" "1.prems" l True
    have "sfshash_lru (sfshash_evict c) = drop (length es - SFSHASH_MAX) es"
      by (subst sfshash_evict.simps) (simp add: cache_wf_entries)
    with l True show ?thesis by (simp add: Suc_diff_le)
  next
    case False
    with "1.prems" show ?thesis by (subst sfshash_evict.simps) (simp add: cache_wf_entries)
  qed
qed

lemma ents_evict [simp]: "ents (sfshash_evict c) = ents c"
  by (induction c rule: sfshash_evict.induct)
    (subst sfshash_evict.simps, auto split: list.splits)

text \<open>The cache after a new entry is linked in, before the eviction loop runs.\<close>

definition linked :: "string \<Rightarrow> bytes \<Rightarrow> cskey \<Rightarrow> bool \<Rightarrow> sfshash \<Rightarrow> sfshash" where
  "linked path cs k neg c =
     (let e = next_addr c; sl = sfshash_fn path k
      in c\<lparr>ents := (ents c)(e := \<lparr>cskey = k, negative = neg, slot = sl, epath = path, csum = cs\<rparr>),
           next_addr := Suc e, sfshash_tab := (sfshash_tab c)(sl := e # sfshash_tab c sl),
           sfshash_lru := sfshash_lru c @ [e], sfshash_entries := sfshash_entries c + 1\<rparr>)"

lemma insert_common_linked:
  "sfshash_insert_common path cs k neg c = sfshash_evict (linked path cs k neg c)"
  by (simp add: sfshash_insert_common_def sfshash_insert_entry_def linked_def Let_def)

lemma linked_fields:
  "sfshash_lru (linked path cs k neg c) = sfshash_lru c @ [next_addr c]"
  "ents (linked path cs k neg c) = (ents c)(next_addr c :=
     \<lparr>cskey = k, negative = neg, slot = sfshash_fn path k, epath = path, csum = cs\<rparr>)"
  by (simp_all add: linked_def Let_def)

lemma next_addr_fresh: "cache_wf c \<Longrightarrow> next_addr c \<notin> set (sfshash_lru c)"
  by (auto simp: cache_wf_def)

lemma cache_wf_linked: "cache_wf c \<Longrightarrow> cache_wf (linked path cs k neg c)"
  using next_addr_fresh [of c] by (auto simp: cache_wf_def linked_def Let_def less_Suc_eq)

lemma insert_common_coherent:
  assumes "coherent d c"
    and new: "\<forall>e\<in>set (sfshash_lru c). \<not> (same_key (cskey (ents c e)) k \<and> epath (ents c e) = path)"
    and ok: "sfshash_readsum d path k = (if neg then Inl ENOENT else Inr cs)"
  shows "coherent d (sfshash_insert_common path cs k neg c)"
proof -
  let ?c = "linked path cs k neg c"
  from assms(1) have wf: "cache_wf c" and un: "cache_uniq c"
    and oks: "\<forall>e\<in>set (sfshash_lru c). entry_ok d (ents c e)" by (auto simp: coherent_def)
  note fresh = next_addr_fresh [OF wf]
  have "cache_uniq ?c"
    using un new fresh by (auto simp: cache_uniq_def linked_fields dest: same_key_sym)
  moreover have "\<forall>e\<in>set (sfshash_lru ?c). entry_ok d (ents ?c e)"
    using oks ok fresh by (auto simp: entry_ok_def linked_fields)
  ultimately have "coherent_entries d ?c"
    using cache_wf_linked [OF wf] by (simp add: coherent_entries_def)
  then show ?thesis unfolding insert_common_linked by (rule evict_coherent)
qed

lemma flush_lru: "cache_wf c \<Longrightarrow> sfshash_lru (sfshash_flush c) = [] \<and> cache_wf (sfshash_flush c)"
proof (induction c rule: sfshash_flush.induct)
  case (1 c)
  then show ?case
    by (subst (1 2) sfshash_flush.simps) (auto split: list.splits simp: cache_wf_remove)
qed

lemma flush_coherent: "cache_wf c \<Longrightarrow> coherent d (sfshash_flush c)"
  using flush_lru [of c] by (auto simp: coherent_def cache_uniq_def)

subsection \<open>Refinement: the cache answers as the disk\<close>

lemma hit_result:
  assumes "coherent d c" and "e \<in> set (sfshash_lru c)"
    and "same_key (cskey (ents c e)) k" and "epath (ents c e) = path"
  shows "sfshash_readsum d path k =
    (if negative (ents c e) then Inl ENOENT else Inr (csum (ents c e)))"
  using assms same_key_readsum [OF assms(3), of d path]
  by (auto simp: coherent_def entry_ok_def)

lemma get_uid_refines:
  assumes "coherent d c"
  shows "fst (sfshash_get_uid d path u c) = sfshash_readsum d path (CSTYPE_UID u) \<and>
    coherent d (snd (sfshash_get_uid d path u c))"
proof (cases "sfshash_find_uid path u c")
  case (Pair r c')
  from assms have wf: "cache_wf c" by (simp add: coherent_def)
  show ?thesis
  proof (cases r)
    case (Some e)
    with find_uid_Some [OF wf Pair [unfolded Some]] Pair assms show ?thesis
      using hit_result [OF assms, of e "CSTYPE_UID u" path]
      by (auto simp: sfshash_get_uid_def coherent_touch)
  next
    case None
    from find_uid_None [OF wf Pair [unfolded None]] insert_common_coherent [OF assms]
    show ?thesis using None Pair assms
      by (auto simp: sfshash_get_uid_def sfshash_insert_uid_def sfshash_insert_uid_negative_def
          split: sum.splits)
  qed
qed

lemma get_key_refines:
  assumes "coherent d c"
  shows "fst (sfshash_get_key d path k c) = sfshash_readsum d path (CSTYPE_KEY k) \<and>
    coherent d (snd (sfshash_get_key d path k c))"
proof (cases "sfshash_find_key path k c")
  case (Pair r c')
  from assms have wf: "cache_wf c" by (simp add: coherent_def)
  show ?thesis
  proof (cases r)
    case (Some e)
    with find_key_Some [OF wf Pair [unfolded Some]] Pair assms show ?thesis
      using hit_result [OF assms, of e "CSTYPE_KEY k" path]
      by (auto simp: sfshash_get_key_def coherent_touch)
  next
    case None
    from find_key_None [OF wf Pair [unfolded None]] insert_common_coherent [OF assms]
    show ?thesis using None Pair assms
      by (auto simp: sfshash_get_key_def sfshash_insert_key_def sfshash_insert_key_negative_def
          split: sum.splits)
  qed
qed

text \<open>The two lookup functions as one, indexed by the kind of key.\<close>

definition sfshash_get :: "sfs_disk \<Rightarrow> string \<times> cskey \<Rightarrow> sfshash \<Rightarrow> (errno + bytes) \<times> sfshash" where
  "sfshash_get d q c = (case snd q of
     CSTYPE_UID u \<Rightarrow> sfshash_get_uid d (fst q) u c
   | CSTYPE_KEY k \<Rightarrow> sfshash_get_key d (fst q) k c)"

text \<open>
  The contract a client of the cache relies on: a query returns what the backing store holds
  and keeps the cache usable. Clients may then ignore the cache.
\<close>

locale checksum_source =
  fixes get :: "'q \<Rightarrow> 'c \<Rightarrow> 'v \<times> 'c"
    and stored :: "'q \<Rightarrow> 'v"
    and good :: "'c \<Rightarrow> bool"
  assumes get_stored: "good c \<Longrightarrow> fst (get q c) = stored q"
    and get_good: "good c \<Longrightarrow> good (snd (get q c))"
begin

fun gets :: "'q list \<Rightarrow> 'c \<Rightarrow> 'v list \<times> 'c" where
  "gets [] c = ([], c)"
| "gets (q # qs) c = (let (v, c') = get q c; (vs, c'') = gets qs c' in (v # vs, c''))"

lemma gets_stored: "good c \<Longrightarrow> fst (gets qs c) = map stored qs \<and> good (snd (gets qs c))"
proof (induction qs arbitrary: c)
  case (Cons q qs)
  then show ?case
    using get_stored [of c q] get_good [of c q]
    by (auto simp: case_prod_beta Let_def)
qed simp

lemma get_pair: "good c \<Longrightarrow> get q c = (v, c') \<Longrightarrow> v = stored q \<and> good c'"
  using get_stored [of c q] get_good [of c q] by simp

end

interpretation cache: checksum_source "sfshash_get d" "\<lambda>q. sfshash_readsum d (fst q) (snd q)" "coherent d"
  for d
  by unfold_locales
    (auto simp: sfshash_get_def get_uid_refines get_key_refines split: cskey.splits)

subsection \<open>Invalidation\<close>

text \<open>
  The stored checksum of one path and key changes; every other one stays. Invalidating the
  cached object of that key makes the cache coherent with the new contents.
\<close>

definition disk_changes_at :: "sfs_disk \<Rightarrow> sfs_disk \<Rightarrow> string \<Rightarrow> cskey \<Rightarrow> bool" where
  "disk_changes_at d d' path k \<longleftrightarrow>
     (\<forall>p l. p \<noteq> path \<or> \<not> same_key l k \<longrightarrow> sfshash_readsum d' p l = sfshash_readsum d p l)"

lemma coherent_disk_change:
  assumes "coherent d c" and "disk_changes_at d d' path k"
    and "\<forall>e\<in>set (sfshash_lru c). \<not> (same_key (cskey (ents c e)) k \<and> epath (ents c e) = path)"
  shows "coherent d' c"
  using assms by (auto simp: coherent_def disk_changes_at_def entry_ok_def)

lemma invalidate_found:
  assumes "coherent d c" and "disk_changes_at d d' path k"
    and "e \<in> set (sfshash_lru c)" and "same_key (cskey (ents c e)) k" and "epath (ents c e) = path"
  shows "coherent d' (sfshash_remove_entry e (sfshash_touch e c))"
proof -
  have t: "coherent d (sfshash_touch e c)" by (rule coherent_touch [OF assms(1,3)])
  then have wf: "cache_wf (sfshash_touch e c)" by (simp add: coherent_def)
  have s: "set (sfshash_lru (sfshash_touch e c)) = set (sfshash_lru c)"
    using assms(1,3) by (simp add: set_lru_touch coherent_def)
  have r: "coherent d (sfshash_remove_entry e (sfshash_touch e c))"
    using t assms(3) s by (simp add: coherent_remove)
  have "\<not> (same_key (cskey (ents c f)) k \<and> epath (ents c f) = path)"
    if f: "f \<in> set (remove1 e (sfshash_lru (sfshash_touch e c)))" for f
  proof
    assume m: "same_key (cskey (ents c f)) k \<and> epath (ents c f) = path"
    have fe: "f \<noteq> e" and fl: "f \<in> set (sfshash_lru c)"
      using f wf s by (auto simp: cache_wf_def)
    have "same_key (cskey (ents c f)) (cskey (ents c e))"
      using m assms(4) by (meson same_key_sym same_key_trans)
    with assms(1,3,5) m fl fe show False
      unfolding coherent_def cache_uniq_def by metis
  qed
  with coherent_disk_change [OF r assms(2)] show ?thesis by simp
qed

lemma invalidate_uid_coherent:
  assumes "coherent d c" and "disk_changes_at d d' path (CSTYPE_UID u)"
  shows "coherent d' (sfshash_invalidate_uid path u c)"
proof (cases "sfshash_find_uid path u c")
  case (Pair r c')
  from assms(1) have wf: "cache_wf c" by (simp add: coherent_def)
  show ?thesis
  proof (cases r)
    case (Some e)
    with find_uid_Some [OF wf Pair [unfolded Some]] invalidate_found [OF assms, of e] Pair
    show ?thesis by (simp add: sfshash_invalidate_uid_def)
  next
    case None
    with find_uid_None [OF wf Pair [unfolded None]] coherent_disk_change [OF assms] Pair
    show ?thesis by (simp add: sfshash_invalidate_uid_def)
  qed
qed

lemma invalidate_key_coherent:
  assumes "coherent d c" and "disk_changes_at d d' path (CSTYPE_KEY k)"
  shows "coherent d' (sfshash_invalidate_key path k c)"
proof (cases "sfshash_find_key path k c")
  case (Pair r c')
  from assms(1) have wf: "cache_wf c" by (simp add: coherent_def)
  show ?thesis
  proof (cases r)
    case (Some e)
    with find_key_Some [OF wf Pair [unfolded Some]] invalidate_found [OF assms, of e] Pair
    show ?thesis by (simp add: sfshash_invalidate_key_def)
  next
    case None
    with find_key_None [OF wf Pair [unfolded None]] coherent_disk_change [OF assms] Pair
    show ?thesis by (simp add: sfshash_invalidate_key_def)
  qed
qed

subsection \<open>Runs of the cache\<close>

text \<open>
  Every way the daemon uses the cache: lookups, a checksum update on disk followed by the
  invalidation of that object, and a flush after a change of any number of checksums (end of
  an upgrade, reconfiguration). A run pairs the disk contents with the cache.
\<close>

inductive cache_run :: "sfs_disk \<Rightarrow> sfshash \<Rightarrow> bool" where
  run_init: "cache_run d sfshash_init"
| run_get_uid: "cache_run d c \<Longrightarrow> cache_run d (snd (sfshash_get_uid d path u c))"
| run_get_key: "cache_run d c \<Longrightarrow> cache_run d (snd (sfshash_get_key d path k c))"
| run_update_uid: "cache_run d c \<Longrightarrow> disk_changes_at d d' path (CSTYPE_UID u) \<Longrightarrow>
    cache_run d' (sfshash_invalidate_uid path u c)"
| run_update_key: "cache_run d c \<Longrightarrow> disk_changes_at d d' path (CSTYPE_KEY k) \<Longrightarrow>
    cache_run d' (sfshash_invalidate_key path k c)"
| run_flush: "cache_run d c \<Longrightarrow> cache_run d' (sfshash_flush c)"

lemma cache_run_coherent: "cache_run d c \<Longrightarrow> coherent d c"
proof (induction rule: cache_run.induct)
  case (run_flush d c d')
  then have "cache_wf c" by (simp add: coherent_def)
  then show ?case by (rule flush_coherent)
qed (simp_all add: coherent_init get_uid_refines get_key_refines invalidate_uid_coherent
      invalidate_key_coherent)

text \<open>A disk with one checksum, for the witnesses.\<close>

definition demo_disk :: sfs_disk where
  "demo_disk q = (if q = SFS_GET2 ''/bin/ls'' 5 then Inr (replicate 32 7) else Inl ENOENT)"

subsection \<open>Properties\<close>

text \<open>
  C15. In every run of the checksum cache (any sequence of lookups, checksum updates with their
  invalidation, and flushes) a lookup by user or by key returns exactly what reading the SFS
  tree on disk at that moment returns, positive and negative entries alike. Key-IDs are
  matched without regard to case and the answer does not depend on the spelling.
\<close>

theorem sfshash_transparent:
  assumes "cache_run d c"
  shows "fst (sfshash_get_uid d path u c) = sfshash_readsum d path (CSTYPE_UID u) \<and>
    fst (sfshash_get_key d path k c) = sfshash_readsum d path (CSTYPE_KEY k)"
  using get_uid_refines get_key_refines cache_run_coherent [OF assms] by blast

theorem sfshash_transparent_witness:
  "fst (sfshash_get_uid demo_disk ''/bin/ls'' 5
       (snd (sfshash_get_uid demo_disk ''/bin/ls'' 5 sfshash_init))) = Inr (replicate 32 7)"
proof -
  have "cache_run demo_disk (snd (sfshash_get_uid demo_disk ''/bin/ls'' 5 sfshash_init))"
    by (intro cache_run.intros)
  from sfshash_transparent [OF this, of "''/bin/ls''" 5]
  show ?thesis
    by (simp add: sfshash_readsum_def demo_disk_def ANOUBIS_CS_LEN_def)
qed

text \<open>
  C29. In every run the LRU list and the hash chains hold the same entries, each entry once and
  in the chain of its hash value, the entry counter is their number, it never exceeds
  \<open>SFSHASH_MAX\<close>, and no path is cached twice for the same user or key.
\<close>

theorem sfshash_consistent:
  assumes "cache_run d c"
  shows "distinct (sfshash_lru c) \<and> sfshash_entries c = int (length (sfshash_lru c)) \<and>
    sfshash_entries c \<le> int SFSHASH_MAX \<and> cache_uniq c \<and>
    (\<forall>e s. e \<in> set (sfshash_tab c s) \<longleftrightarrow>
       e \<in> set (sfshash_lru c) \<and> s = sfshash_fn (epath (ents c e)) (cskey (ents c e)))"
  using cache_run_coherent [OF assms] by (auto simp: coherent_def cache_wf_def)

theorem sfshash_consistent_witness:
  "sfshash_entries (snd (sfshash_get_uid demo_disk ''/bin/ls'' 5 sfshash_init)) \<le> int SFSHASH_MAX"
proof -
  have "cache_run demo_disk (snd (sfshash_get_uid demo_disk ''/bin/ls'' 5 sfshash_init))"
    by (intro cache_run.intros)
  from sfshash_consistent [OF this] show ?thesis by blast
qed

text \<open>
  Eviction is least recently used: a found entry moves to the end of the LRU list, a new
  entry is appended there, and an insertion drops exactly the entries at the front that exceed
  \<open>SFSHASH_MAX\<close>.
\<close>

lemma sfshash_lru_order:
  assumes "cache_run d c"
  shows "(\<forall>path k cs neg.
      sfshash_lru (sfshash_insert_common path cs k neg c) =
        drop (length (sfshash_lru c) + 1 - SFSHASH_MAX) (sfshash_lru c @ [next_addr c])) \<and>
    (\<forall>path u e. fst (sfshash_find_uid path u c) = Some e \<longrightarrow>
      sfshash_lru (snd (sfshash_find_uid path u c)) = remove1 e (sfshash_lru c) @ [e])"
proof -
  have wf: "cache_wf c" using cache_run_coherent [OF assms] by (simp add: coherent_def)
  have "sfshash_lru (sfshash_insert_common path cs k neg c) =
        drop (length (sfshash_lru c) + 1 - SFSHASH_MAX) (sfshash_lru c @ [next_addr c])"
    for path k cs neg
    using evict_lru [OF cache_wf_linked [OF wf]] by (simp add: insert_common_linked linked_fields)
  moreover have "sfshash_lru (snd (sfshash_find_uid path u c)) = remove1 e (sfshash_lru c) @ [e]"
    if f: "fst (sfshash_find_uid path u c) = Some e" for path u e
  proof -
    obtain c' where "sfshash_find_uid path u c = (Some e, c')"
      using f by (cases "sfshash_find_uid path u c") simp
    with find_uid_Some [OF wf this] show ?thesis
      by (simp add: sfshash_touch_def Let_def)
  qed
  ultimately show ?thesis by blast
qed

lemma sfshash_lru_order_witness:
  "sfshash_lru (sfshash_insert_common ''/bin/ls'' [] (CSTYPE_UID 5) True sfshash_init) = [0]"
proof -
  have "cache_run demo_disk sfshash_init" by (rule cache_run.intros)
  from sfshash_lru_order [OF this] show ?thesis
    by (simp add: sfshash_init_def SFSHASH_MAX_def SFSHASH_NRENTRY_def)
qed

end
