(* ===== verification/State.thy ===== *)
theory State
  imports Rules SfsCache
begin

text \<open>
  The data structures that the components of the policy engine share: process identifiers
  (\<^verbatim>\<open>src/src/anoubisd/pe.h\<close>), rule contexts (\<^verbatim>\<open>struct pe_context\<close>, \<^verbatim>\<open>pe_context.c\<close>) and tracked
  processes (\<^verbatim>\<open>struct pe_proc\<close>, \<^verbatim>\<open>pe_proc_internals.h\<close>).

  Contexts and processes are heap objects with reference counts, so pointers to them are
  addresses (natural numbers) into explicit stores; a NULL pointer is \<open>None\<close>. The arrays
  indexed by priority (\<^verbatim>\<open>PE_PRIO_MAX\<close> entries) are functions on natural numbers of which only
  the arguments below \<open>PE_PRIO_MAX\<close> are used. A rule pointer is the block itself (with its
  address in \<open>blk_addr\<close>), a ruleset pointer the address of the ruleset.
\<close>

definition PE_PRIO_ADMIN :: nat where "PE_PRIO_ADMIN = 0"
definition PE_PRIO_USER1 :: nat where "PE_PRIO_USER1 = 1"
definition PE_PRIO_MAX :: nat where "PE_PRIO_MAX = 2"

text \<open>An empty checksum buffer is \<open>[]\<close>.\<close>

record pe_proc_ident =
  id_csum :: bytes
  pathhint :: "string option"

record pe_context =
  refcount :: int
  alfrule :: "apn_block option"
  sbrule :: "apn_block option"
  ctxrule :: "apn_block option"
  ruleset :: "nat option"
  ident :: pe_proc_ident

record pe_proc =
  p_refcount :: int
  instances :: int
  threads :: int
  pid :: int
  p_uid :: uid
  p_flags :: u32
  p_ident :: pe_proc_ident
  task_cookie :: cookie
  pgid :: cookie
  borrow_cookie :: "nat \<Rightarrow> cookie"
  p_context :: "nat \<Rightarrow> nat option"
  saved_ctx :: "nat \<Rightarrow> nat option"

definition PE_PROC_FLAGS_UPGRADE :: u32 where "PE_PROC_FLAGS_UPGRADE = 1"
definition PE_PROC_FLAGS_UPGRADE_PARENT :: u32 where "PE_PROC_FLAGS_UPGRADE_PARENT = 2"
definition PE_PROC_FLAGS_HOLD :: u32 where "PE_PROC_FLAGS_HOLD = 4"
definition PE_PROC_FLAGS_SECUREEXEC :: u32 where "PE_PROC_FLAGS_SECUREEXEC = 8"

definition no_ident :: pe_proc_ident where
  "no_ident = \<lparr>id_csum = [], pathhint = None\<rparr>"

text \<open>
  \<^verbatim>\<open>pe_proc_ident_set\<close> replaces both parts of an identifier by copies. Checksum buffers are
  either empty or have \<^verbatim>\<open>ANOUBIS_SFS_CS_LEN\<close> bytes, and \<^verbatim>\<open>abuf_copy\<close> copies at most that many.
\<close>

definition pe_proc_ident_set :: "bytes \<Rightarrow> string option \<Rightarrow> pe_proc_ident" where
  "pe_proc_ident_set cs path = \<lparr>id_csum = take ANOUBIS_CS_LEN cs, pathhint = path\<rparr>"

definition pe_proc_ident_put :: "pe_proc_ident \<Rightarrow> pe_proc_ident" where
  "pe_proc_ident_put i = no_ident"

end
