(* ===== verification/Playground.thy ===== *)
theory Playground
  imports State
begin

text \<open>
  Model of the playground management of the policy engine,
  \<^verbatim>\<open>src/src/anoubisd/pe_playground.c\<close>, and of \<^verbatim>\<open>send_pgchange\<close> (\<^verbatim>\<open>policy.c\<close>).

  Every playground has a directory below \<^verbatim>\<open>ANOUBISD_PGCHROOT\<close> with the files \<^verbatim>\<open>UID\<close>,
  \<^verbatim>\<open>STARTTIME\<close>, \<^verbatim>\<open>CMD\<close>, \<^verbatim>\<open>NAME\<close> and one file per instantiated inode that lists its path names,
  each terminated by a NUL byte. \<open>pgdisk\<close> holds these directories; operations on files of an
  existing directory succeed, operations through a descriptor that could not be opened
  (\<open>dirfd_ok\<close> false) fail and are only logged, as in the code. Directory entries are given by
  what their name stands for instead of its printed form.

  \<open>pg_crash\<close> records that the code dereferenced a NULL pointer.
\<close>

datatype pg_file = PG_UID | PG_STARTTIME | PG_CMD | PG_NAME | PG_DEVINO u64 u64

type_synonym pg_dir = "pg_file \<rightharpoonup> string"

record playground =
  pg_id :: cookie
  founder :: cookie
  namefounder :: cookie
  starttime :: u64
  scandev :: u64
  scanino :: u64
  scantok :: u64
  nrprocs :: int
  nrfiles :: int
  realcmd :: "string option"
  namecmd :: "string option"
  fullname :: "string option"
  pg_uid :: uid
  did_exec :: bool
  dirfd_ok :: bool

datatype pgop = ANOUBIS_PGCHANGE_CREATE | ANOUBIS_PGCHANGE_TERMINATE

datatype pgchange = PgChange uid cookie pgop string

record pg_state =
  playgrounds :: "playground list"
  pgdisk :: "cookie \<rightharpoonup> pg_dir"
  pg_sent :: "pgchange list"
  last_pgid :: cookie
  pg_crash :: bool

subsection \<open>Numbers in files\<close>

text \<open>\<^verbatim>\<open>printf\<close> and \<^verbatim>\<open>scanf\<close> of a decimal number.\<close>

fun digit :: "nat \<Rightarrow> char" where
  "digit n = char_of (48 + n)"

fun print_nat :: "nat \<Rightarrow> string" where
  "print_nat n = (if n < 10 then [digit n] else print_nat (n div 10) @ [digit (n mod 10)])"

declare print_nat.simps [simp del]

definition print_int :: "int \<Rightarrow> string" where
  "print_int i = (if i < 0 then CHR ''-'' # print_nat (nat (- i)) else print_nat (nat i))"

definition is_digit :: "char \<Rightarrow> bool" where
  "is_digit c \<longleftrightarrow> 48 \<le> (of_char c :: nat) \<and> (of_char c :: nat) \<le> 57"

definition scan_nat :: "string \<Rightarrow> nat option" where
  "scan_nat s =
     (let ds = takeWhile is_digit s
      in if ds = [] then None else Some (foldl (\<lambda>n c. 10 * n + (of_char c - 48)) 0 ds))"

definition scan_int :: "string \<Rightarrow> int option" where
  "scan_int s =
     (case dropWhile (\<lambda>c. c = CHR '' '' \<or> (9 \<le> (of_char c :: nat) \<and> (of_char c :: nat) \<le> 13)) s of
        [] \<Rightarrow> None
      | c # cs \<Rightarrow>
          (if c = CHR ''-'' then map_option (\<lambda>n. - int n) (scan_nat cs)
           else if c = CHR ''+'' then map_option int (scan_nat cs)
           else map_option int (scan_nat (c # cs))))"

subsection \<open>Playgrounds\<close>

definition pe_playground_find :: "cookie \<Rightarrow> pg_state \<Rightarrow> playground option" where
  "pe_playground_find g s = find (\<lambda>pg. pg_id pg = g) (playgrounds s)"

text \<open>
  Functions of the code that take a \<^verbatim>\<open>struct playground *\<close> change the first playground with
  that ID, which is the one \<^verbatim>\<open>pe_playground_find\<close> returned.
\<close>

fun upd_first :: "cookie \<Rightarrow> (playground \<Rightarrow> playground) \<Rightarrow> playground list \<Rightarrow> playground list" where
  "upd_first g f [] = []"
| "upd_first g f (pg # pgs) = (if pg_id pg = g then f pg # pgs else pg # upd_first g f pgs)"

definition upd_pg :: "cookie \<Rightarrow> (playground \<Rightarrow> playground) \<Rightarrow> pg_state \<Rightarrow> pg_state" where
  "upd_pg g f s = s\<lparr>playgrounds := upd_first g f (playgrounds s)\<rparr>"

definition new_playground :: "cookie \<Rightarrow> bool \<Rightarrow> playground" where
  "new_playground g ok =
     \<lparr>pg_id = g, founder = 0, namefounder = 0, starttime = 0, scandev = 0, scanino = 0, scantok = 0,
      nrprocs = 0, nrfiles = 0, realcmd = None, namecmd = None, fullname = None, pg_uid = no_uid,
      did_exec = False, dirfd_ok = ok\<rparr>"

definition pe_playground_create :: "cookie \<Rightarrow> bool \<Rightarrow> pg_state \<Rightarrow> pg_state" where
  "pe_playground_create g do_mkdir s =
     (case pe_playground_find g s of
        Some pg \<Rightarrow> s
      | None \<Rightarrow>
          (let disk = (if do_mkdir \<and> pgdisk s g = None then (pgdisk s)(g \<mapsto> Map.empty) else pgdisk s)
           in s\<lparr>pgdisk := disk, playgrounds := new_playground g (disk g \<noteq> None) # playgrounds s\<rparr>))"

definition pe_playground_trykill :: "cookie \<Rightarrow> pg_state \<Rightarrow> pg_state" where
  "pe_playground_trykill g s =
     (case pe_playground_find g s of
        None \<Rightarrow> s
      | Some pg \<Rightarrow>
          (if nrprocs pg \<noteq> 0 \<or> nrfiles pg \<noteq> 0 then s
           else if \<not> dirfd_ok pg then s
           else s\<lparr>pgdisk := (pgdisk s)(g := None), playgrounds := remove1 pg (playgrounds s)\<rparr>))"

text \<open>\<^verbatim>\<open>bufsize\<close> is the size of the caller's buffer; one byte of it is for the terminating NUL.\<close>

definition pe_playground_readfile :: "playground \<Rightarrow> pg_file \<Rightarrow> nat \<Rightarrow> pg_state \<Rightarrow> string option" where
  "pe_playground_readfile pg f bufsize s =
     (if dirfd_ok pg
      then (case pgdisk s (pg_id pg) of
              None \<Rightarrow> None
            | Some d \<Rightarrow> map_option (\<lambda>c. takeWhile (\<lambda>x. x \<noteq> char_of (0::nat)) (take (bufsize - 1) c)) (d f))
      else None)"

definition pe_playground_writefile :: "playground \<Rightarrow> pg_file \<Rightarrow> string option \<Rightarrow> pg_state \<Rightarrow> pg_state" where
  "pe_playground_writefile pg f str s =
     (if dirfd_ok pg
      then (case pgdisk s (pg_id pg) of
              None \<Rightarrow> s
            | Some d \<Rightarrow> s\<lparr>pgdisk := (pgdisk s)(pg_id pg \<mapsto> d(f \<mapsto> case str of None \<Rightarrow> [] | Some c \<Rightarrow> c))\<rparr>)
      else s)"

definition pe_playground_buildname :: "playground \<Rightarrow> playground" where
  "pe_playground_buildname pg =
     pg\<lparr>fullname := (case (namecmd pg, realcmd pg) of
          (Some n, Some r) \<Rightarrow> Some (n @ '' ('' @ r @ '')'')
        | (None, Some r) \<Rightarrow> Some r
        | _ \<Rightarrow> None)\<rparr>"

text \<open>
  \<^verbatim>\<open>send_pgchange\<close> computes the length of a NULL command as zero but then copies the command
  with \<^verbatim>\<open>strcpy\<close> all the same.
\<close>

definition send_pgchange :: "uid \<Rightarrow> cookie \<Rightarrow> pgop \<Rightarrow> string option \<Rightarrow> pg_state \<Rightarrow> pg_state" where
  "send_pgchange u g oper cmd s =
     (case cmd of
        None \<Rightarrow> s\<lparr>pg_crash := True\<rparr>
      | Some c \<Rightarrow> s\<lparr>pg_sent := pg_sent s @ [PgChange u g oper c]\<rparr>)"

definition pe_playground_save_last_pgid :: "cookie \<Rightarrow> pg_state \<Rightarrow> pg_state" where
  "pe_playground_save_last_pgid g s = s\<lparr>last_pgid := g\<rparr>"

text \<open>\<open>now\<close> is the result of \<^verbatim>\<open>time(NULL)\<close>. The boolean tells whether the process is the founder.\<close>

definition pe_playground_initproc ::
    "cookie \<Rightarrow> pe_proc \<Rightarrow> u64 \<Rightarrow> pg_state \<Rightarrow> bool \<times> pg_state" where
  "pe_playground_initproc g proc now s =
     (case pe_playground_find g s of
        None \<Rightarrow> (False, s)
      | Some pg \<Rightarrow>
          (if did_exec pg then (False, s)
           else if founder pg \<noteq> 0 \<and> founder pg \<noteq> task_cookie proc then (False, s)
           else
             (let pg1 = pg\<lparr>founder := task_cookie proc, pg_uid := p_uid proc, starttime := now,
                           realcmd := pathhint (p_ident proc)\<rparr>;
                  s1 = upd_pg g (\<lambda>_. pe_playground_buildname pg1) s;
                  s2 = pe_playground_writefile pg1 PG_UID (Some (print_int (sint (pg_uid pg1)))) s1;
                  s3 = pe_playground_writefile pg1 PG_STARTTIME (Some (print_int (sint now))) s2
              in (True, pe_playground_writefile pg1 PG_CMD (realcmd pg1) s3))))"

definition postexec_name :: "cookie \<Rightarrow> pe_proc \<Rightarrow> pg_state \<Rightarrow> pg_state" where
  "postexec_name g proc s =
     (case pe_playground_find g s of
        None \<Rightarrow> s
      | Some pg \<Rightarrow>
          (if namefounder pg = task_cookie proc then
             (let pg1 = pe_playground_buildname
                          (pg\<lparr>namefounder := 0, namecmd := pathhint (p_ident proc)\<rparr>);
                  s1 = upd_pg g (\<lambda>_. pg1) s;
                  s2 = pe_playground_writefile pg1 PG_NAME (namecmd pg1) s1
              in send_pgchange (pg_uid pg1) (pg_id pg1) ANOUBIS_PGCHANGE_CREATE (fullname pg1) s2)
           else s))"

definition pe_playground_postexec :: "cookie \<Rightarrow> pe_proc \<Rightarrow> u64 \<Rightarrow> pg_state \<Rightarrow> pg_state" where
  "pe_playground_postexec g proc now s =
     (case pe_playground_find g s of
        None \<Rightarrow> s
      | Some _ \<Rightarrow>
          (case pe_playground_initproc g proc now s of
             (False, s1) \<Rightarrow> postexec_name g proc s1
           | (True, s1) \<Rightarrow>
               (let s2 = upd_pg g (\<lambda>pg. pg\<lparr>did_exec := True\<rparr>) s1;
                    pg = the (pe_playground_find g s2);
                    s3 = send_pgchange (pg_uid pg) (pg_id pg) ANOUBIS_PGCHANGE_CREATE (fullname pg) s2
                in postexec_name g proc (pe_playground_save_last_pgid (pg_id pg) s3))))"

definition pe_playground_add :: "cookie \<Rightarrow> pe_proc \<Rightarrow> u64 \<Rightarrow> pg_state \<Rightarrow> pg_state" where
  "pe_playground_add g proc now s =
     (let s1 = pe_playground_create g True s;
          s2 = snd (pe_playground_initproc g proc now s1)
      in upd_pg g (\<lambda>pg. pg\<lparr>nrprocs := nrprocs pg + 1\<rparr>) s2)"

definition pe_playground_rename :: "cookie \<Rightarrow> pe_proc \<Rightarrow> pg_state \<Rightarrow> pg_state" where
  "pe_playground_rename g proc s =
     upd_pg g (\<lambda>pg. pg\<lparr>namefounder := task_cookie proc\<rparr>) (pe_playground_create g False s)"

definition pe_playground_delete :: "cookie \<Rightarrow> pg_state \<Rightarrow> pg_state" where
  "pe_playground_delete g s =
     (case pe_playground_find g s of
        None \<Rightarrow> s
      | Some pg \<Rightarrow>
          (if nrprocs pg > 0 then
             (let s1 = upd_pg g (\<lambda>_. pg\<lparr>nrprocs := nrprocs pg - 1\<rparr>) s;
                  s2 = (if nrprocs pg - 1 = 0
                        then send_pgchange (pg_uid pg) g ANOUBIS_PGCHANGE_TERMINATE (fullname pg) s1
                        else s1)
              in pe_playground_trykill g s2)
           else s))"

subsection \<open>Files of a playground\<close>

text \<open>
  The scan over the contents of the file of an inode. The state \<^verbatim>\<open>pathoff\<close> is the number of
  characters of the path matched in the current name, or \<open>None\<close> (\<^verbatim>\<open>-1\<close> in the code) if the
  name is already known to differ. \<open>Inl ()\<close>: the path was found (\<^verbatim>\<open>goto done\<close>).
\<close>

definition path_char :: "string \<Rightarrow> nat \<Rightarrow> char" where
  "path_char path i = (if i < length path then path ! i else char_of (0::nat))"

fun scan_names :: "string \<Rightarrow> string \<Rightarrow> nat option \<Rightarrow> unit + nat option" where
  "scan_names path [] off = Inr off"
| "scan_names path (c # cs) None =
     scan_names path cs (if c = char_of (0::nat) then Some 0 else None)"
| "scan_names path (c # cs) (Some off) =
     (if c = path_char path off
      then (if c = char_of (0::nat) then Inl () else scan_names path cs (Some (Suc off)))
      else scan_names path cs (if c = char_of (0::nat) then Some 0 else None))"

text \<open>
  The first component is the return value: \<open>Some True\<close> for 1 (new file), \<open>Some False\<close> for 0
  (file exists, name added), \<open>None\<close> for -1 (error, or the name is already there).
\<close>

definition pe_playground_file_add :: "playground \<Rightarrow> pg_file \<Rightarrow> string \<Rightarrow> pg_state \<Rightarrow> bool option \<times> pg_state" where
  "pe_playground_file_add pg name path s =
     (case (if dirfd_ok pg then pgdisk s (pg_id pg) else None) of
        None \<Rightarrow> (None, s)
      | Some d \<Rightarrow>
          (let old = (case d name of None \<Rightarrow> [] | Some c \<Rightarrow> c);
               put = (\<lambda>c. s\<lparr>pgdisk := (pgdisk s)(pg_id pg \<mapsto> d(name \<mapsto> c))\<rparr>)
           in case scan_names path old (Some 0) of
                Inl _ \<Rightarrow> (None, put old)
              | Inr off \<Rightarrow>
                  (let fill = (if off \<noteq> Some 0 then [char_of (0::nat)] else [])
                   in (Some (old = []), put (old @ fill @ path @ [char_of (0::nat)])))))"

text \<open>The names in the contents of a file: maximal runs up to a NUL byte.\<close>

fun names :: "string \<Rightarrow> string \<Rightarrow> string list" where
  "names acc [] = []"
| "names acc (c # cs) = (if c = char_of (0::nat) then rev acc # names [] cs else names (c # acc) cs)"

text \<open>
  How \<^verbatim>\<open>pe_playground_rename_dir_one_file\<close> reads the names of an inode file, through a buffer of
  \<^verbatim>\<open>PATH_MAX\<close> bytes: \<open>b\<close> are the bytes from \<^verbatim>\<open>buf\<close> to \<^verbatim>\<open>endp\<close> and \<open>p\<close> is the offset of \<^verbatim>\<open>p\<close> in the
  buffer. \<open>scan_buf\<close> is the inner loop: it stops at the end of the data or at a name without
  terminator, which is moved to the start of the buffer (without adjusting \<^verbatim>\<open>p\<close>). The last component
  is the early return for a name that fills the buffer.
\<close>

definition PATH_MAX :: nat where "PATH_MAX = 4096"

function scan_buf :: "string \<Rightarrow> nat \<Rightarrow> string \<times> nat \<times> string list \<times> bool" where
  "scan_buf b p =
     (if p \<ge> length b then (b, p, [], False)
      else if char_of (0::nat) \<notin> set (drop p b)
      then (if p = 0 then (b, p, [], True) else (drop p b, p, [], False))
      else
        (let n = takeWhile (\<lambda>c. c \<noteq> char_of (0::nat)) (drop p b);
             (b', p', ns, ab) = scan_buf b (p + length n + 1)
         in (b', p', n # ns, ab)))"
  by pat_completeness auto
termination by (relation "measure (\<lambda>(b, p). length b - p)") auto

declare scan_buf.simps [simp del]

text \<open>The outer loop: \<open>rest\<close> is what has not been read; no result after an early return.\<close>

function read_names :: "string \<Rightarrow> string \<Rightarrow> nat \<Rightarrow> string list option" where
  "read_names rest b p =
     (let cnt = min (PATH_MAX - length b) (length rest)
      in if cnt = 0 then Some []
         else case scan_buf (b @ take cnt rest) p of
           (b', p', ns, ab) \<Rightarrow>
             (if ab then None else map_option ((@) ns) (read_names (drop cnt rest) b' p')))"
  by pat_completeness auto
termination by (relation "measure (\<lambda>(rest, b, p). length rest)") auto

declare read_names.simps [simp del]

text \<open>For every name below the old directory, the name below the new one is added.\<close>

definition renamed_names :: "string \<Rightarrow> string \<Rightarrow> string list \<Rightarrow> string list" where
  "renamed_names new_path old_path ns =
     map (\<lambda>n. new_path @ ''/'' @ drop (length old_path) n)
       (filter (\<lambda>n. length n > length old_path \<and> take (length old_path) n = old_path) ns)"

definition pe_playground_rename_dir_one_file ::
    "playground \<Rightarrow> pg_file \<Rightarrow> string \<Rightarrow> string \<Rightarrow> pg_state \<Rightarrow> pg_state" where
  "pe_playground_rename_dir_one_file pg name new_path old_path s =
     (case (if dirfd_ok pg then pgdisk s (pg_id pg) else None) of
        None \<Rightarrow> s
      | Some d \<Rightarrow>
          (case d name of
             None \<Rightarrow> s
           | Some c \<Rightarrow>
               (case read_names c [] 0 of
                  None \<Rightarrow> s
                | Some ns \<Rightarrow>
                    fold (\<lambda>n s. snd (pe_playground_file_add pg name n s))
                      (renamed_names new_path old_path ns) s)))"

text \<open>\<open>entries\<close> is the order in which \<^verbatim>\<open>readdir\<close> returns the inode files of the directory.\<close>

definition pe_playground_dir_rename ::
    "playground \<Rightarrow> u64 \<Rightarrow> u64 \<Rightarrow> string \<Rightarrow> string \<Rightarrow> (u64 \<times> u64) list \<Rightarrow> pg_state \<Rightarrow> pg_state" where
  "pe_playground_dir_rename pg dir_dev dir_ino path old_path_no_slash entries s =
     fold (\<lambda>(dev, ino) s.
         if dev = dir_dev \<and> ino \<noteq> dir_ino
         then pe_playground_rename_dir_one_file pg (PG_DEVINO dev ino) path (old_path_no_slash @ ''/'') s
         else s)
       (if dirfd_ok pg then entries else []) s"

definition pe_playground_file_instantiate ::
    "cookie \<Rightarrow> u64 \<Rightarrow> u64 \<Rightarrow> string \<Rightarrow> string option \<Rightarrow> (u64 \<times> u64) list \<Rightarrow> pg_state \<Rightarrow> pg_state" where
  "pe_playground_file_instantiate g dev ino path old_path entries s =
     (if path = [] then s
      else
        (let s1 = (case pe_playground_find g s of None \<Rightarrow> pe_playground_create g True s | Some _ \<Rightarrow> s);
             pg = the (pe_playground_find g s1);
             (newfile, s2) = pe_playground_file_add pg (PG_DEVINO dev ino) path s1
         in if newfile = Some True then upd_pg g (\<lambda>pg. pg\<lparr>nrfiles := nrfiles pg + 1\<rparr>) s2
            else case old_path of
                   None \<Rightarrow> s2
                 | Some old \<Rightarrow> pe_playground_dir_rename pg dev ino path old entries s2))"

definition pe_playground_file_delete :: "cookie \<Rightarrow> u64 \<Rightarrow> u64 \<Rightarrow> pg_state \<Rightarrow> pg_state" where
  "pe_playground_file_delete g dev ino s =
     (case pe_playground_find g s of
        None \<Rightarrow> s
      | Some pg \<Rightarrow>
          (case (if dirfd_ok pg then pgdisk s g else None) of
             None \<Rightarrow> s
           | Some d \<Rightarrow>
               (if d (PG_DEVINO dev ino) = None then s
                else pe_playground_trykill g
                       (upd_pg g (\<lambda>pg. pg\<lparr>nrfiles := nrfiles pg - 1\<rparr>)
                         (s\<lparr>pgdisk := (pgdisk s)(g \<mapsto> d(PG_DEVINO dev ino := None))\<rparr>)))))"

datatype pg_error = PG_EINVAL | PG_ESRCH | PG_EPERM | PG_EBUSY

definition pe_playground_file_scanrequest ::
    "cookie \<Rightarrow> u64 \<Rightarrow> u64 \<Rightarrow> string \<Rightarrow> uid \<Rightarrow> pg_state \<Rightarrow> pg_error option \<times> pg_state" where
  "pe_playground_file_scanrequest g dev ino path u s =
     (if path = [] then (Some PG_EINVAL, s)
      else
        (let s1 = pe_playground_file_instantiate g dev ino path None [] s
         in case pe_playground_find g s1 of
              None \<Rightarrow> (Some PG_ESRCH, s1)
            | Some pg \<Rightarrow>
                (if u \<noteq> 0 \<and> (pg_uid pg \<noteq> u \<or> pg_uid pg = no_uid) then (Some PG_EPERM, s1)
                 else (None, upd_pg g (\<lambda>pg. pg\<lparr>scandev := dev, scanino := ino\<rparr>) s1))))"

text \<open>The search for empty, \<^verbatim>\<open>.\<close> and \<^verbatim>\<open>..\<close> components with the pattern \<^verbatim>\<open>/..\<close>.\<close>

definition badcomp :: "nat \<Rightarrow> char option" where
  "badcomp i = (if i = 0 then Some (CHR ''/'') else if i = 1 \<or> i = 2 then Some (CHR ''.'') else None)"

fun commit_path_scan :: "string \<Rightarrow> nat \<Rightarrow> bool" where
  "commit_path_scan [] match = (match = 0)"
| "commit_path_scan (c # cs) match =
     (if c = CHR ''/'' \<and> match \<noteq> 0 then False
      else commit_path_scan cs (if badcomp match = Some c then match + 1 else 0))"

definition commit_path_ok :: "string \<Rightarrow> bool" where
  "commit_path_ok path \<longleftrightarrow> path \<noteq> [] \<and> hd path = CHR ''/'' \<and> commit_path_scan path 0"

record pgcommit =
  c_token :: u64
  c_pgid :: cookie
  c_auth_uid :: uid
  c_dev :: u64
  c_ino :: u64
  c_path :: string

text \<open>
  A commit request is answered with an error (sent to the session engine) or forwarded to the
  master process with the device and inode of the scanned file filled in.
\<close>

definition pe_playground_dispatch_commit :: "pgcommit \<Rightarrow> pg_state \<Rightarrow> (pg_error + pgcommit) \<times> pg_state" where
  "pe_playground_dispatch_commit m s =
     (case pe_playground_find (c_pgid m) s of
        None \<Rightarrow> (Inl PG_ESRCH, s)
      | Some pg \<Rightarrow>
          (if c_auth_uid m \<noteq> 0 \<and> pg_uid pg \<noteq> c_auth_uid m then (Inl PG_EPERM, s)
           else if c_dev m \<noteq> 0 \<or> c_ino m \<noteq> 0 \<or> scandev pg = 0 \<or> scanino pg = 0 then (Inl PG_EINVAL, s)
           else if list_ex (\<lambda>pg2. pg_uid pg2 = pg_uid pg \<and> scantok pg2 \<noteq> 0) (playgrounds s)
           then (Inl PG_EBUSY, s)
           else if \<not> commit_path_ok (c_path m) then (Inl PG_EBUSY, s)
           else (Inr (m\<lparr>c_dev := scandev pg, c_ino := scanino pg\<rparr>),
                 upd_pg (c_pgid m) (\<lambda>pg. pg\<lparr>scantok := c_token m\<rparr>) s)))"

text \<open>The reply of the master: the first playground with this scan token is released.\<close>

definition pe_playground_dispatch_commitreply :: "u64 \<Rightarrow> pg_state \<Rightarrow> pg_state" where
  "pe_playground_dispatch_commitreply token s =
     (case find (\<lambda>pg. scantok pg = token) (playgrounds s) of
        None \<Rightarrow> s
      | Some pg \<Rightarrow> upd_pg (pg_id pg) (\<lambda>pg. pg\<lparr>scandev := 0, scanino := 0, scantok := 0\<rparr>) s)"

definition pe_playground_dispatch_unlink ::
    "cookie \<Rightarrow> uid \<Rightarrow> u64 \<Rightarrow> u64 \<Rightarrow> pg_state \<Rightarrow> pg_error option \<times> pg_state" where
  "pe_playground_dispatch_unlink g auth_uid dev ino s =
     (case pe_playground_find g s of
        None \<Rightarrow> (Some PG_ESRCH, s)
      | Some pg \<Rightarrow>
          (if auth_uid \<noteq> 0 \<and> pg_uid pg \<noteq> auth_uid then (Some PG_EPERM, s)
           else (None, pe_playground_file_delete g dev ino s)))"

subsection \<open>Restart\<close>

text \<open>
  \<^verbatim>\<open>pe_playground_read\<close> restores a playground from its directory; \<open>entries\<close> are the inode files
  \<^verbatim>\<open>readdir\<close> returns. The buffers of the code have 512 bytes.
\<close>

definition read_uid :: "string option \<Rightarrow> uid" where
  "read_uid b = (case b of None \<Rightarrow> no_uid
     | Some c \<Rightarrow> (case scan_int c of None \<Rightarrow> no_uid | Some i \<Rightarrow> word_of_int i))"

definition read_starttime :: "string option \<Rightarrow> u64 \<Rightarrow> u64" where
  "read_starttime b old = (case b of None \<Rightarrow> old
     | Some c \<Rightarrow> (case scan_int c of None \<Rightarrow> 0 | Some i \<Rightarrow> word_of_int i))"

definition pe_playground_read :: "cookie \<Rightarrow> (u64 \<times> u64) list \<Rightarrow> pg_state \<Rightarrow> pg_state" where
  "pe_playground_read g entries s =
     (let s1 = (case pe_playground_find g s of
            Some _ \<Rightarrow> s
          | None \<Rightarrow> upd_pg g (\<lambda>pg. pg\<lparr>did_exec := True\<rparr>) (pe_playground_create g False s));
          rd = (\<lambda>pg f. pe_playground_readfile pg f 512 s1);
          load = (\<lambda>pg. pe_playground_buildname
             (pg\<lparr>pg_uid := read_uid (rd pg PG_UID),
                 starttime := read_starttime (rd pg PG_STARTTIME) (starttime pg),
                 realcmd := rd pg PG_CMD, namecmd := rd pg PG_NAME\<rparr>));
          s2 = upd_pg g load s1
      in case pe_playground_find g s2 of
           None \<Rightarrow> s2
         | Some pg \<Rightarrow>
             (if dirfd_ok pg
              then pe_playground_trykill g
                     (upd_pg g (\<lambda>pg. pg\<lparr>nrfiles := nrfiles pg + int (length entries)\<rparr>) s2)
              else s2))"

subsection \<open>Lookup and update\<close>

lemma find_id: "pe_playground_find g s = Some pg \<Longrightarrow> pg_id pg = g"
  by (auto simp: pe_playground_find_def find_Some_iff)

lemma find_upd_first:
  assumes "\<And>pg. pg_id pg = g \<Longrightarrow> pg_id (f pg) = g"
  shows "find (\<lambda>pg. pg_id pg = h) (upd_first g f l) =
    (if h = g then map_option f (find (\<lambda>pg. pg_id pg = h) l) else find (\<lambda>pg. pg_id pg = h) l)"
  using assms by (induction l) auto

lemma find_upd_pg:
  assumes "\<And>pg. pg_id pg = g \<Longrightarrow> pg_id (f pg) = g"
  shows "pe_playground_find h (upd_pg g f s) =
    (if h = g then map_option f (pe_playground_find h s) else pe_playground_find h s)"
  using find_upd_first [of g f h] assms by (simp add: pe_playground_find_def upd_pg_def)

lemma ids_upd_first:
  assumes "\<And>pg. pg_id pg = g \<Longrightarrow> pg_id (f pg) = g"
  shows "map pg_id (upd_first g f l) = map pg_id l"
  using assms by (induction l) auto

lemma ids_upd_pg:
  "(\<And>pg. pg_id pg = g \<Longrightarrow> pg_id (f pg) = g) \<Longrightarrow>
    map pg_id (playgrounds (upd_pg g f s)) = map pg_id (playgrounds s)"
  by (simp add: upd_pg_def ids_upd_first)

lemma disk_upd_pg [simp]: "pgdisk (upd_pg g f s) = pgdisk s"
  by (simp add: upd_pg_def)

lemma find_None_iff_id: "pe_playground_find g s = None \<longleftrightarrow> g \<notin> pg_id ` set (playgrounds s)"
  by (auto simp: pe_playground_find_def find_None_iff)

lemma find_remove1:
  assumes "distinct (map pg_id l)" and "pg \<in> set l"
  shows "find (\<lambda>x. pg_id x = h) (remove1 pg l) =
    (if h = pg_id pg then None else find (\<lambda>x. pg_id x = h) l)"
  using assms by (induction l) (auto simp: find_None_iff image_iff)

lemma distinct_remove1: "distinct (map pg_id l) \<Longrightarrow> distinct (map pg_id (remove1 pg l))"
  by (induction l) (auto dest: in_set_remove1 notin_set_remove1 simp: image_iff)

subsection \<open>File contents\<close>

abbreviation NUL :: char where "NUL \<equiv> char_of (0::nat)"

definition encode :: "string list \<Rightarrow> string" where
  "encode ns = concat (map (\<lambda>n. n @ [NUL]) ns)"

definition no_nul :: "string \<Rightarrow> bool" where
  "no_nul s \<longleftrightarrow> NUL \<notin> set s"

lemma scan_skip: "no_nul n \<Longrightarrow> scan_names path (n @ NUL # rest) None = scan_names path rest (Some 0)"
  by (induction n) (auto simp: no_nul_def)

lemma scan_one:
  assumes "no_nul n" and "no_nul path" and "k \<le> length path"
  shows "scan_names path (n @ NUL # rest) (Some k) =
    (if drop k path = n then Inl () else scan_names path rest (Some 0))"
  using assms
proof (induction n arbitrary: k)
  case Nil
  then show ?case by (auto simp: path_char_def no_nul_def)
next
  case (Cons c n)
  have nul: "c \<noteq> NUL" "no_nul n" using Cons.prems(1) by (auto simp: no_nul_def)
  show ?case
  proof (cases "k < length path")
    case True
    then have "drop k path = path ! k # drop (Suc k) path" by (simp add: Cons_nth_drop_Suc)
    with True Cons nul show ?thesis by (auto simp: path_char_def scan_skip)
  next
    case False
    with Cons nul show ?thesis by (auto simp: path_char_def scan_skip)
  qed
qed

lemma scan_encode:
  assumes "list_all no_nul ns" and "no_nul path"
  shows "scan_names path (encode ns) (Some 0) = (if path \<in> set ns then Inl () else Inr (Some 0))"
  using assms
proof (induction ns)
  case (Cons n ns)
  then show ?case using scan_one [of n path 0 "encode ns"] by (simp add: encode_def)
qed (simp add: encode_def)

lemma names_append: "no_nul n \<Longrightarrow> names acc (n @ NUL # rest) = (rev acc @ n) # names [] rest"
  by (induction n arbitrary: acc) (auto simp: no_nul_def)

lemma names_encode: "list_all no_nul ns \<Longrightarrow> names [] (encode ns) = ns"
  by (induction ns) (auto simp: encode_def names_append)

lemma encode_Nil_iff [simp]: "encode ns = [] \<longleftrightarrow> ns = []"
  by (cases ns) (auto simp: encode_def)

lemma encode_snoc: "encode (ns @ [n]) = encode ns @ n @ [NUL]"
  by (simp add: encode_def)

subsection \<open>Well-formed playgrounds\<close>

definition inodes :: "pg_dir \<Rightarrow> (u64 \<times> u64) set" where
  "inodes d = {(dev, ino). d (PG_DEVINO dev ino) \<noteq> None}"

text \<open>Every inode file lists at least one name, no name twice.\<close>

definition dir_ok :: "pg_dir \<Rightarrow> bool" where
  "dir_ok d \<longleftrightarrow> finite (inodes d) \<and>
     (\<forall>dev ino c. d (PG_DEVINO dev ino) = Some c \<longrightarrow>
        (\<exists>ns. ns \<noteq> [] \<and> distinct ns \<and> list_all no_nul ns \<and> c = encode ns))"

fun pg_ok :: "playground option \<Rightarrow> pg_dir option \<Rightarrow> bool" where
  "pg_ok None od \<longleftrightarrow> od = None"
| "pg_ok (Some pg) od \<longleftrightarrow> nrprocs pg \<ge> 0 \<and> (dirfd_ok pg \<longleftrightarrow> od \<noteq> None) \<and>
     (case od of None \<Rightarrow> nrfiles pg = 0 | Some d \<Rightarrow> dir_ok d \<and> nrfiles pg = int (card (inodes d)))"

definition pg_wf :: "pg_state \<Rightarrow> bool" where
  "pg_wf s \<longleftrightarrow> distinct (map pg_id (playgrounds s)) \<and>
     (\<forall>g. pg_ok (pe_playground_find g s) (pgdisk s g))"

text \<open>All operations work on one playground: it is enough to look at that one.\<close>

lemma pg_wf_local:
  assumes "pg_wf s" and "distinct (map pg_id (playgrounds s'))"
    and "\<And>h. h \<noteq> g \<Longrightarrow> pe_playground_find h s' = pe_playground_find h s \<and> pgdisk s' h = pgdisk s h"
    and "pg_ok (pe_playground_find g s') (pgdisk s' g)"
  shows "pg_wf s'"
  using assms unfolding pg_wf_def by metis

lemma pg_wf_ok: "pg_wf s \<Longrightarrow> pg_ok (pe_playground_find g s) (pgdisk s g)"
  by (simp add: pg_wf_def)

lemma pg_wf_distinct: "pg_wf s \<Longrightarrow> distinct (map pg_id (playgrounds s))"
  by (simp add: pg_wf_def)

lemma pg_wf_cong:
  "pg_wf s \<Longrightarrow> playgrounds s' = playgrounds s \<Longrightarrow> pgdisk s' = pgdisk s \<Longrightarrow> pg_wf s'"
  by (simp add: pg_wf_def pe_playground_find_def)

text \<open>One playground and its directory change.\<close>

lemma pg_wf_step:
  assumes "pg_wf s" and id: "\<And>pg. pg_id pg = g \<Longrightarrow> pg_id (f pg) = g"
    and pgs: "playgrounds s' = upd_first g f (playgrounds s)" and disk: "pgdisk s' = (pgdisk s)(g := od)"
    and ok: "pg_ok (map_option f (pe_playground_find g s)) od"
  shows "pg_wf s'"
proof -
  have f: "pe_playground_find h s' = pe_playground_find h (upd_pg g f s)" for h
    by (simp add: pe_playground_find_def pgs upd_pg_def)
  show ?thesis
  proof (rule pg_wf_local [OF assms(1), of _ g])
    show "distinct (map pg_id (playgrounds s'))"
      using pg_wf_distinct [OF assms(1)] ids_upd_first [of g f] id by (simp add: pgs)
  qed (use disk ok in \<open>simp_all add: f find_upd_pg [OF id]\<close>)
qed

lemma pg_wf_upd:
  assumes "pg_wf s" and "\<And>pg. pg_id pg = g \<Longrightarrow> pg_id (f pg) = g"
    and "\<And>pg. pe_playground_find g s = Some pg \<Longrightarrow> nrprocs (f pg) \<ge> 0 \<and>
      nrfiles (f pg) = nrfiles pg \<and> dirfd_ok (f pg) = dirfd_ok pg"
  shows "pg_wf (upd_pg g f s)"
proof (rule pg_wf_step [OF assms(1), of g f _ "pgdisk s g"])
  show "pg_ok (map_option f (pe_playground_find g s)) (pgdisk s g)"
    using pg_wf_ok [OF assms(1), of g] assms(3)
    by (cases "pe_playground_find g s") (auto split: option.splits)
qed (use assms(2) in \<open>auto simp: upd_pg_def\<close>)

lemma pg_wf_nrprocs: "pg_wf s \<Longrightarrow> pe_playground_find g s = Some pg \<Longrightarrow> nrprocs pg \<ge> 0"
  using pg_wf_ok [of s g] by simp

fun is_meta :: "pg_file \<Rightarrow> bool" where
  "is_meta (PG_DEVINO _ _) = False"
| "is_meta _ = True"

lemma dir_ok_meta: "dir_ok d \<Longrightarrow> is_meta f \<Longrightarrow> dir_ok (d(f := c)) \<and> inodes (d(f := c)) = inodes d"
  by (cases f) (auto simp: dir_ok_def inodes_def)

lemma pg_wf_writefile:
  assumes "pg_wf s" and "is_meta f"
  shows "pg_wf (pe_playground_writefile pg f str s)"
proof (cases "pgdisk s (pg_id pg)")
  case (Some d)
  let ?d = "d(f \<mapsto> case str of None \<Rightarrow> [] | Some c \<Rightarrow> c)"
  have "pg_ok (pe_playground_find (pg_id pg) s) (Some ?d)"
    using pg_wf_ok [OF assms(1), of "pg_id pg"] dir_ok_meta [of d f] assms(2) Some
    by (cases "pe_playground_find (pg_id pg) s") auto
  moreover have "upd_first g id l = l" for g l by (induction l) auto
  ultimately have "pg_wf (s\<lparr>pgdisk := (pgdisk s)(pg_id pg \<mapsto> ?d)\<rparr>)"
    by (intro pg_wf_step [OF assms(1), of "pg_id pg" id]) (auto simp: option.map_id)
  with Some assms(1) show ?thesis by (simp add: pe_playground_writefile_def)
qed (use assms(1) in \<open>simp add: pe_playground_writefile_def\<close>)

lemma find_writefile [simp]:
  "pe_playground_find g (pe_playground_writefile pg f str s) = pe_playground_find g s"
  by (simp add: pe_playground_find_def pe_playground_writefile_def split: option.split)

lemma pg_wf_send: "pg_wf s \<Longrightarrow> pg_wf (send_pgchange u g oper c s)"
  by (erule pg_wf_cong) (simp_all add: send_pgchange_def split: option.split)

lemma pg_wf_save: "pg_wf s \<Longrightarrow> pg_wf (pe_playground_save_last_pgid g s)"
  by (erule pg_wf_cong) (simp_all add: pe_playground_save_last_pgid_def)

lemma find_create:
  "pe_playground_find h (pe_playground_create g mk s) =
    (if h = g \<and> pe_playground_find g s = None then Some (new_playground g (mk \<or> pgdisk s g \<noteq> None))
     else pe_playground_find h s)"
  by (cases "pe_playground_find g s")
    (auto simp: pe_playground_create_def Let_def pe_playground_find_def new_playground_def)

lemma disk_create:
  "pgdisk (pe_playground_create g mk s) h =
    (if h = g \<and> pe_playground_find g s = None \<and> mk \<and> pgdisk s g = None then Some Map.empty else pgdisk s h)"
  by (cases "pe_playground_find g s") (auto simp: pe_playground_create_def Let_def)

lemma pg_wf_create:
  assumes "pg_wf s"
  shows "pg_wf (pe_playground_create g mk s)"
proof (cases "pe_playground_find g s")
  case None
  show ?thesis
  proof (rule pg_wf_local [OF assms, of _ g])
    show "distinct (map pg_id (playgrounds (pe_playground_create g mk s)))"
      using None None [unfolded find_None_iff_id] pg_wf_distinct [OF assms]
      by (simp add: pe_playground_create_def Let_def new_playground_def)
    have "pgdisk s g = None" using pg_wf_ok [OF assms, of g] None by simp
    then show "pg_ok (pe_playground_find g (pe_playground_create g mk s)) (pgdisk (pe_playground_create g mk s) g)"
      using None
      by (auto simp: find_create new_playground_def disk_create dir_ok_def inodes_def)
  qed (use None in \<open>auto simp: find_create disk_create\<close>)
qed (use assms in \<open>simp add: pe_playground_create_def\<close>)

lemma find_trykill:
  assumes "distinct (map pg_id (playgrounds s))"
  shows "pe_playground_find h (pe_playground_trykill g s) =
    (case pe_playground_find g s of
       Some pg \<Rightarrow> (if h = g \<and> nrprocs pg = 0 \<and> nrfiles pg = 0 \<and> dirfd_ok pg then None else pe_playground_find h s)
     | None \<Rightarrow> pe_playground_find h s)"
proof (cases "pe_playground_find g s")
  case (Some pg)
  then have "pg \<in> set (playgrounds s)" and "pg_id pg = g"
    by (auto simp: pe_playground_find_def find_Some_iff)
  with find_remove1 [OF assms, of pg h] Some show ?thesis
    by (auto simp: pe_playground_trykill_def pe_playground_find_def)
qed (simp add: pe_playground_trykill_def)

lemma disk_trykill:
  "pgdisk (pe_playground_trykill g s) h =
    (case pe_playground_find g s of
       Some pg \<Rightarrow> (if h = g \<and> nrprocs pg = 0 \<and> nrfiles pg = 0 \<and> dirfd_ok pg then None else pgdisk s h)
     | None \<Rightarrow> pgdisk s h)"
  by (auto simp: pe_playground_trykill_def split: option.split)

lemma pg_wf_trykill:
  assumes "pg_wf s"
  shows "pg_wf (pe_playground_trykill g s)"
proof (rule pg_wf_local [OF assms, of _ g])
  note d = pg_wf_distinct [OF assms]
  show "distinct (map pg_id (playgrounds (pe_playground_trykill g s)))"
    using d by (auto simp: pe_playground_trykill_def distinct_remove1 split: option.split)
  show "pe_playground_find h (pe_playground_trykill g s) = pe_playground_find h s \<and>
      pgdisk (pe_playground_trykill g s) h = pgdisk s h" if "h \<noteq> g" for h
    using that by (auto simp: find_trykill [OF d] disk_trykill split: option.split)
  show "pg_ok (pe_playground_find g (pe_playground_trykill g s)) (pgdisk (pe_playground_trykill g s) g)"
    using pg_wf_ok [OF assms, of g]
    by (auto simp: find_trykill [OF d] disk_trykill split: option.split)
qed

lemma id_buildname [simp]:
  "pg_id (pe_playground_buildname pg) = pg_id pg" "nrprocs (pe_playground_buildname pg) = nrprocs pg"
  "nrfiles (pe_playground_buildname pg) = nrfiles pg" "dirfd_ok (pe_playground_buildname pg) = dirfd_ok pg"
  by (simp_all add: pe_playground_buildname_def)

lemma pg_wf_initproc:
  assumes "pg_wf s"
  shows "pg_wf (snd (pe_playground_initproc g proc now s))"
  using assms find_id [of g s] pg_wf_nrprocs [OF assms, of g]
  by (auto simp: pe_playground_initproc_def Let_def intro!: pg_wf_writefile pg_wf_upd split: option.split)

lemma pg_wf_postexec_name: "pg_wf s \<Longrightarrow> pg_wf (postexec_name g proc s)"
  using find_id [of g s] pg_wf_nrprocs [of s g]
  by (auto simp: postexec_name_def Let_def intro!: pg_wf_send pg_wf_writefile pg_wf_upd split: option.split)

lemma pg_wf_postexec: "pg_wf s \<Longrightarrow> pg_wf (pe_playground_postexec g proc now s)"
  using pg_wf_initproc [of s g proc now] pg_wf_nrprocs
  by (auto simp: pe_playground_postexec_def Let_def split: option.split prod.split bool.split
      intro!: pg_wf_postexec_name pg_wf_save pg_wf_send pg_wf_upd)

lemma pg_wf_add: "pg_wf s \<Longrightarrow> pg_wf (pe_playground_add g proc now s)"
  unfolding pe_playground_add_def Let_def
  using pg_wf_nrprocs [OF pg_wf_initproc [OF pg_wf_create]]
  by (intro pg_wf_upd pg_wf_initproc pg_wf_create) (auto simp: add_increasing2)

lemma pg_wf_rename: "pg_wf s \<Longrightarrow> pg_wf (pe_playground_rename g proc s)"
  unfolding pe_playground_rename_def using pg_wf_nrprocs [OF pg_wf_create]
  by (intro pg_wf_upd pg_wf_create) auto

lemma pg_wf_delete: "pg_wf s \<Longrightarrow> pg_wf (pe_playground_delete g s)"
  using find_id [of g s]
  by (auto simp: pe_playground_delete_def Let_def intro!: pg_wf_trykill pg_wf_send pg_wf_upd
      split: option.split)

subsection \<open>Files\<close>

definition file_names :: "pg_dir \<Rightarrow> u64 \<Rightarrow> u64 \<Rightarrow> string list" where
  "file_names d dev ino = (case d (PG_DEVINO dev ino) of None \<Rightarrow> [] | Some c \<Rightarrow> names [] c)"

lemma dir_ok_names:
  assumes "dir_ok d"
  shows "distinct (file_names d dev ino) \<and> list_all no_nul (file_names d dev ino) \<and>
    (d (PG_DEVINO dev ino) = None \<longleftrightarrow> file_names d dev ino = []) \<and>
    (case d (PG_DEVINO dev ino) of None \<Rightarrow> [] | Some c \<Rightarrow> c) = encode (file_names d dev ino)"
proof (cases "d (PG_DEVINO dev ino)")
  case None
  then show ?thesis by (simp add: file_names_def encode_def)
next
  case (Some c)
  with assms obtain ns where "ns \<noteq> []" "distinct ns" "list_all no_nul ns" "c = encode ns"
    unfolding dir_ok_def by blast
  with Some show ?thesis by (simp add: file_names_def names_encode)
qed

lemma file_add_eq:
  assumes "dirfd_ok pg" and "pgdisk s (pg_id pg) = Some d" and "dir_ok d" and "no_nul path"
  shows "pe_playground_file_add pg (PG_DEVINO dev ino) path s =
    (if path \<in> set (file_names d dev ino) then (None, s)
     else (Some (file_names d dev ino = []),
           s\<lparr>pgdisk := (pgdisk s)(pg_id pg \<mapsto>
               d(PG_DEVINO dev ino \<mapsto> encode (file_names d dev ino @ [path])))\<rparr>))"
proof -
  note ns = dir_ok_names [OF assms(3), of dev ino]
  have "d(PG_DEVINO dev ino \<mapsto> encode (file_names d dev ino)) = d" if "path \<in> set (file_names d dev ino)"
    using ns that by (auto simp: fun_eq_iff split: option.splits)
  then show ?thesis
    using ns assms scan_encode [of "file_names d dev ino" path]
    by (auto simp: pe_playground_file_add_def Let_def encode_snoc fun_upd_idem)
qed

lemma dir_ok_add:
  assumes "dir_ok d" and "no_nul path" and "path \<notin> set (file_names d dev ino)"
  shows "dir_ok (d(PG_DEVINO dev ino \<mapsto> encode (file_names d dev ino @ [path])))"
    and "inodes (d(PG_DEVINO dev ino \<mapsto> c)) = insert (dev, ino) (inodes d)"
proof -
  show i: "inodes (d(PG_DEVINO dev ino \<mapsto> c)) = insert (dev, ino) (inodes d)" for c
    by (auto simp: inodes_def)
  have "\<exists>ns. ns \<noteq> [] \<and> distinct ns \<and> list_all no_nul ns \<and>
      encode (file_names d dev ino @ [path]) = encode ns"
    using assms dir_ok_names [OF assms(1), of dev ino]
    by (intro exI [of _ "file_names d dev ino @ [path]"]) auto
  with assms(1) i show "dir_ok (d(PG_DEVINO dev ino \<mapsto> encode (file_names d dev ino @ [path])))"
    by (auto simp: dir_ok_def)
qed

text \<open>Adding a name to an inode file that exists keeps the number of files.\<close>

lemma pg_wf_file_add_existing:
  assumes "pg_wf s" and "pe_playground_find (pg_id pg) s = Some pg'" and "dirfd_ok pg = dirfd_ok pg'"
    and "no_nul path" and "\<And>d. pgdisk s (pg_id pg) = Some d \<Longrightarrow> d (PG_DEVINO dev ino) \<noteq> None"
  shows "pg_wf (snd (pe_playground_file_add pg (PG_DEVINO dev ino) path s))"
proof (cases "dirfd_ok pg")
  case True
  from pg_wf_ok [OF assms(1), of "pg_id pg"] assms(2,3) True
  obtain d where d: "pgdisk s (pg_id pg) = Some d" "dir_ok d" "nrfiles pg' = int (card (inodes d))"
    by auto
  let ?d = "d(PG_DEVINO dev ino \<mapsto> encode (file_names d dev ino @ [path]))"
  show ?thesis
  proof (cases "path \<in> set (file_names d dev ino)")
    case False
    have "(dev, ino) \<in> inodes d" using assms(5) [OF d(1)] by (auto simp: inodes_def)
    then have "inodes ?d = inodes d" using dir_ok_add(2) [OF d(2) assms(4) False] by auto
    moreover have "dir_ok ?d" by (rule dir_ok_add(1) [OF d(2) assms(4) False])
    moreover have "upd_first g id l = l" for g l by (induction l) auto
    moreover have "nrprocs pg' \<ge> 0" by (rule pg_wf_nrprocs [OF assms(1,2)])
    ultimately have "pg_wf (s\<lparr>pgdisk := (pgdisk s)(pg_id pg \<mapsto> ?d)\<rparr>)"
      using assms(2,3) d True
      by (intro pg_wf_step [OF assms(1), of "pg_id pg" id]) (auto simp: option.map_id)
    with False show ?thesis by (simp add: file_add_eq [OF True d(1,2) assms(4)])
  qed (simp add: file_add_eq [OF True d(1,2) assms(4)] assms(1))
qed (simp add: pe_playground_file_add_def assms(1))

definition has_file :: "pg_state \<Rightarrow> cookie \<Rightarrow> pg_file \<Rightarrow> bool" where
  "has_file s g f \<longleftrightarrow> (case pgdisk s g of None \<Rightarrow> False | Some d \<Rightarrow> d f \<noteq> None)"

lemma file_add_frame:
  "playgrounds (snd (pe_playground_file_add pg f path s)) = playgrounds s"
  "has_file s g h \<Longrightarrow> has_file (snd (pe_playground_file_add pg f path s)) g h"
  by (auto simp: pe_playground_file_add_def Let_def has_file_def split: option.splits sum.splits if_splits)

lemma find_file_add [simp]:
  "pe_playground_find g (snd (pe_playground_file_add pg f path s)) = pe_playground_find g s"
  by (simp add: pe_playground_find_def file_add_frame)

lemma pg_wf_file_adds:
  assumes "pg_wf s" and "pe_playground_find (pg_id pg) s = Some pg'" and "dirfd_ok pg = dirfd_ok pg'"
    and "list_all no_nul ps" and "has_file s (pg_id pg) (PG_DEVINO dev ino)"
  shows "pg_wf (fold (\<lambda>n s. snd (pe_playground_file_add pg (PG_DEVINO dev ino) n s)) ps s) \<and>
    playgrounds (fold (\<lambda>n s. snd (pe_playground_file_add pg (PG_DEVINO dev ino) n s)) ps s) = playgrounds s"
  using assms
proof (induction ps arbitrary: s)
  case (Cons p ps)
  let ?s = "snd (pe_playground_file_add pg (PG_DEVINO dev ino) p s)"
  have "pg_wf ?s"
    using Cons.prems by (intro pg_wf_file_add_existing [OF Cons.prems(1,2,3)]) (auto simp: has_file_def)
  moreover have "has_file ?s (pg_id pg) (PG_DEVINO dev ino)"
    using Cons.prems(5) by (rule file_add_frame(2))
  ultimately show ?case using Cons.IH [of ?s] Cons.prems by (simp add: file_add_frame(1))
qed simp

lemma NUL_slash: "NUL \<noteq> CHR ''/''"
proof
  assume "NUL = CHR ''/''"
  then have "(of_char NUL :: nat) = of_char (CHR ''/'')" by simp
  then show False by simp
qed

lemma renamed_no_nul:
  "no_nul new \<Longrightarrow> list_all no_nul ns \<Longrightarrow> list_all no_nul (renamed_names new old ns)"
  by (auto simp: renamed_names_def list_all_iff no_nul_def NUL_slash dest: in_set_dropD)

lemma scan_buf_no_nul: "scan_buf b p = (b', p', ns, ab) \<Longrightarrow> list_all no_nul ns"
proof (induction b p arbitrary: b' p' ns ab rule: scan_buf.induct)
  case (1 b p)
  show ?case
  proof (cases "p \<ge> length b \<or> NUL \<notin> set (drop p b)")
    case True
    with 1(2) show ?thesis by (subst (asm) scan_buf.simps) (auto split: if_splits)
  next
    case False
    let ?n = "takeWhile (\<lambda>c. c \<noteq> NUL) (drop p b)"
    obtain b2 p2 ns2 ab2 where r: "scan_buf b (p + length ?n + 1) = (b2, p2, ns2, ab2)"
      by (cases "scan_buf b (p + length ?n + 1)") auto
    have "ns = ?n # ns2" using 1(2) False r by (subst (asm) scan_buf.simps) (auto simp: Let_def)
    moreover have "list_all no_nul ns2" using 1(1) [OF _ _ refl r] False by auto
    moreover have "no_nul ?n" by (auto simp: no_nul_def dest: set_takeWhileD)
    ultimately show ?thesis by simp
  qed
qed

lemma read_names_no_nul: "read_names rest b p = Some ns \<Longrightarrow> list_all no_nul ns"
proof (induction rest b p arbitrary: ns rule: read_names.induct)
  case (1 rest b p)
  let ?cnt = "min (PATH_MAX - length b) (length rest)"
  show ?case
  proof (cases "?cnt = 0")
    case True
    with 1(2) show ?thesis by (subst (asm) read_names.simps) (simp add: Let_def)
  next
    case False
    obtain b' p' ns' ab where sc: "scan_buf (b @ take ?cnt rest) p = (b', p', ns', ab)"
      by (cases "scan_buf (b @ take ?cnt rest) p") auto
    with 1(2) False obtain ms where ms: "\<not> ab" "ns = ns' @ ms" "read_names (drop ?cnt rest) b' p' = Some ms"
      by (subst (asm) read_names.simps) (auto simp: Let_def split: if_splits)
    have "list_all no_nul ms" by (rule 1(1) [OF refl False sc [symmetric] refl refl ms(1,3)])
    then show ?thesis using ms(2) scan_buf_no_nul [OF sc] by simp
  qed
qed

text \<open>A file that fits into the buffer is read completely.\<close>

lemma scan_buf_encode:
  "list_all no_nul ns \<Longrightarrow>
   scan_buf (pre @ encode ns) (length pre) = (pre @ encode ns, length (pre @ encode ns), ns, False)"
proof (induction ns arbitrary: pre)
  case Nil
  then show ?case by (subst scan_buf.simps) (simp add: encode_def)
next
  case (Cons n ns)
  have n: "takeWhile (\<lambda>c. c \<noteq> NUL) (encode (n # ns)) = n" "NUL \<in> set (encode (n # ns))"
    using Cons.prems by (auto simp: encode_def no_nul_def takeWhile_tail)
  have e: "pre @ encode (n # ns) = (pre @ n @ [NUL]) @ encode ns" by (simp add: encode_def)
  have "scan_buf (pre @ encode (n # ns)) (length pre + length n + 1) =
      (pre @ encode (n # ns), length (pre @ encode (n # ns)), ns, False)"
    using Cons.IH [of "pre @ n @ [NUL]"] Cons.prems unfolding e by simp
  then show ?case using n by (subst scan_buf.simps) (auto simp: Let_def)
qed

lemma read_names_small:
  assumes "list_all no_nul ns" and "length (encode ns) \<le> PATH_MAX"
  shows "read_names (encode ns) [] 0 = Some ns"
proof (cases "ns = []")
  case True
  then show ?thesis by (subst read_names.simps) (simp add: encode_def)
next
  case False
  then have "encode ns \<noteq> []" by (cases ns) (auto simp: encode_def)
  moreover have "read_names [] b q = Some []" for b q by (subst read_names.simps) simp
  ultimately show ?thesis
    using scan_buf_encode [OF assms(1), of "[]"] assms(2) by (subst read_names.simps) (auto simp: Let_def min_def PATH_MAX_def)
qed

text \<open>
  A second name that reaches beyond the first buffer is lost if it is not longer than the first
  one: it is moved to the start of the buffer, where the scan does not look any more.
\<close>

lemma read_names_loses:
  assumes "no_nul n1" and "no_nul n2" and "length n1 + 1 < PATH_MAX"
    and "PATH_MAX < length (encode [n1, n2])" and "length n2 \<le> length n1"
  shows "read_names (encode [n1, n2]) [] 0 = Some [n1]"
proof -
  let ?c = "encode [n1, n2]"
  have c: "?c = n1 @ NUL # n2 @ [NUL]" by (simp add: encode_def)
  define k where "k = PATH_MAX - length n1 - 1"
  then have k: "0 < k" "k \<le> length n2" and pm: "PATH_MAX = Suc (length n1 + k)"
    using assms(3,4) by (auto simp: c)
  have t: "take PATH_MAX ?c = n1 @ NUL # take k n2" using k(2) by (simp add: pm c)
  have nn: "NUL \<notin> set (take k n2)" using assms(2) by (auto simp: no_nul_def dest: in_set_takeD)
  have "takeWhile (\<lambda>c. c \<noteq> NUL) (n1 @ NUL # take k n2) = n1"
    using assms(1) by (auto simp: no_nul_def takeWhile_tail)
  moreover have "scan_buf (n1 @ NUL # take k n2) (length n1 + 1) = (take k n2, length n1 + 1, [], False)"
    using nn k by (subst scan_buf.simps) auto
  ultimately have s: "scan_buf (n1 @ NUL # take k n2) 0 = (take k n2, length n1 + 1, [n1], False)"
    by (subst scan_buf.simps) (auto simp: Let_def)
  have d: "drop PATH_MAX ?c = drop k n2 @ [NUL]"
    using k(2) by (simp add: pm c)
  have e: "read_names [] b q = Some []" for b q by (subst read_names.simps) simp
  have "read_names (drop k n2 @ [NUL]) (take k n2) (length n1 + 1) = Some []"
  proof -
    have "length n2 + 1 \<le> PATH_MAX" using assms(3,5) by simp
    then have cnt: "min (PATH_MAX - length (take k n2)) (length (drop k n2 @ [NUL])) = Suc (length n2 - k)"
      using k(2) by (auto simp: min_def)
    have "scan_buf (n2 @ [NUL]) (length n1 + 1) = (n2 @ [NUL], length n1 + 1, [], False)"
      using assms(5) by (subst scan_buf.simps) simp
    moreover have "take k n2 @ take (Suc (length n2 - k)) (drop k n2 @ [NUL]) = n2 @ [NUL]"
      and "drop (Suc (length n2 - k)) (drop k n2 @ [NUL]) = []" by simp_all
    ultimately show ?thesis using e by (subst read_names.simps) (simp only: cnt Let_def, simp)
  qed
  then show ?thesis
    using assms(4) s by (subst read_names.simps) (simp add: Let_def min_def t d, simp add: PATH_MAX_def)
qed

lemma pg_wf_rename_one:
  assumes "pg_wf s" and "pe_playground_find (pg_id pg) s = Some pg'" and "dirfd_ok pg = dirfd_ok pg'"
    and "no_nul new"
  shows "pg_wf (pe_playground_rename_dir_one_file pg (PG_DEVINO dev ino) new old s) \<and>
    playgrounds (pe_playground_rename_dir_one_file pg (PG_DEVINO dev ino) new old s) = playgrounds s"
proof (cases "(case (if dirfd_ok pg then pgdisk s (pg_id pg) else None) of
    None \<Rightarrow> None | Some d \<Rightarrow> d (PG_DEVINO dev ino))")
  case (Some c)
  then obtain d where d: "dirfd_ok pg" "pgdisk s (pg_id pg) = Some d" "d (PG_DEVINO dev ino) = Some c"
    by (auto split: if_splits option.splits)
  show ?thesis
  proof (cases "read_names c [] 0")
    case (Some ns)
    then have "list_all no_nul ns" by (rule read_names_no_nul)
    with pg_wf_file_adds [OF assms(1-3), of "renamed_names new old ns" dev ino] assms(4) d Some
    show ?thesis by (simp add: pe_playground_rename_dir_one_file_def renamed_no_nul has_file_def)
  qed (use assms(1) d in \<open>simp add: pe_playground_rename_dir_one_file_def\<close>)
qed (use assms(1) in \<open>auto simp: pe_playground_rename_dir_one_file_def split: option.splits\<close>)

lemma pg_wf_dir_rename:
  assumes "pg_wf s" and "pe_playground_find (pg_id pg) s = Some pg'" and "dirfd_ok pg = dirfd_ok pg'"
    and "no_nul path"
  shows "pg_wf (pe_playground_dir_rename pg dev ino path old entries s)"
proof -
  let ?f = "\<lambda>(d, i) s. if d = dev \<and> i \<noteq> ino
    then pe_playground_rename_dir_one_file pg (PG_DEVINO d i) path (old @ ''/'') s else s"
  have "pg_wf (fold ?f es s)"
    if "pg_wf s" "pe_playground_find (pg_id pg) s = Some pg'" for es s
    using that
  proof (induction es arbitrary: s)
    case (Cons e es)
    obtain d i where e: "e = (d, i)" by (cases e)
    let ?s = "pe_playground_rename_dir_one_file pg (PG_DEVINO d i) path (old @ ''/'') s"
    have "pg_wf ?s" "playgrounds ?s = playgrounds s"
      using pg_wf_rename_one [OF Cons.prems assms(3,4)] by auto
    moreover from this have "pe_playground_find (pg_id pg) ?s = Some pg'"
      using Cons.prems by (simp add: pe_playground_find_def)
    ultimately show ?case using Cons e by auto
  qed simp
  with assms(1,2) show ?thesis by (simp add: pe_playground_dir_rename_def)
qed

lemma pg_wf_file_instantiate:
  assumes "pg_wf s" and "no_nul path"
  shows "pg_wf (pe_playground_file_instantiate g dev ino path old entries s)"
proof (cases "path = []")
  case False
  define s1 where "s1 = (case pe_playground_find g s of None \<Rightarrow> pe_playground_create g True s | Some _ \<Rightarrow> s)"
  have wf: "pg_wf s1" using assms(1) by (auto simp: s1_def pg_wf_create split: option.split)
  obtain pg where pg: "pe_playground_find g s1 = Some pg"
    by (cases "pe_playground_find g s") (auto simp: s1_def find_create)
  have id: "pg_id pg = g" using pg by (rule find_id)
  obtain r s2 where r: "pe_playground_file_add pg (PG_DEVINO dev ino) path s1 = (r, s2)"
    by (cases "pe_playground_file_add pg (PG_DEVINO dev ino) path s1")
  have s2: "pe_playground_find g s2 = Some pg" using find_file_add [of g pg _ path s1] r pg by (metis snd_conv)
  have res: "pe_playground_file_instantiate g dev ino path old entries s =
      (if r = Some True then upd_pg g (\<lambda>pg. pg\<lparr>nrfiles := nrfiles pg + 1\<rparr>) s2
       else case old of None \<Rightarrow> s2 | Some ol \<Rightarrow> pe_playground_dir_rename pg dev ino path ol entries s2)"
    using False pg r by (simp add: pe_playground_file_instantiate_def s1_def)
  show ?thesis
  proof (cases "r = Some True")
    case True
    with r have ok: "dirfd_ok pg"
      by (auto simp: pe_playground_file_add_def split: if_splits)
    with pg_wf_ok [OF wf, of g] pg
    obtain d where d: "pgdisk s1 (pg_id pg) = Some d" "dir_ok d" "nrfiles pg = int (card (inodes d))"
      by (auto simp: id)
    note eq = file_add_eq [OF ok d(1,2) assms(2), of dev ino]
    have e: "file_names d dev ino = []" and new: "path \<notin> set (file_names d dev ino)"
      and s2e: "s2 = s1\<lparr>pgdisk := (pgdisk s1)(pg_id pg \<mapsto> d(PG_DEVINO dev ino \<mapsto> encode (file_names d dev ino @ [path])))\<rparr>"
      using eq r True by (auto split: if_splits)
    have "(dev, ino) \<notin> inodes d" using dir_ok_names [OF d(2), of dev ino] e by (simp add: inodes_def)
    with dir_ok_add [OF d(2) assms(2) new] d(2,3) pg_wf_nrprocs [OF wf pg]
    have "pg_wf (upd_pg g (\<lambda>pg. pg\<lparr>nrfiles := nrfiles pg + 1\<rparr>) s2)"
      by (intro pg_wf_step [OF wf, of g "\<lambda>pg. pg\<lparr>nrfiles := nrfiles pg + 1\<rparr>"])
        (auto simp: s2e upd_pg_def pg id ok dir_ok_def)
    with True res show ?thesis by simp
  next
    case False
    have "pg_wf s2"
    proof (cases "r = None \<or> \<not> dirfd_ok pg")
      case True
      with r wf pg_wf_ok [OF wf, of g] pg file_add_eq [of pg s1 _ path dev ino] assms(2) show ?thesis
        by (cases "dirfd_ok pg") (auto simp: id pe_playground_file_add_def split: if_splits)
    next
      case nn: False
      with pg_wf_ok [OF wf, of g] pg
      obtain d where d: "pgdisk s1 (pg_id pg) = Some d" "dir_ok d" by (auto simp: id)
      from nn have ok: "dirfd_ok pg" by simp
      have "file_names d dev ino \<noteq> []"
        using file_add_eq [OF ok d assms(2), of dev ino] r False nn by (auto split: if_splits)
      then have "d (PG_DEVINO dev ino) \<noteq> None" using dir_ok_names [OF d(2), of dev ino] by simp
      with pg_wf_file_add_existing [OF wf _ _ assms(2), of pg pg dev ino] pg id d r show ?thesis by simp
    qed
    with False res pg_wf_dir_rename [of s2 pg pg path] s2 id assms(2) show ?thesis
      by (simp split: option.split)
  qed
qed (simp add: pe_playground_file_instantiate_def assms(1))

lemma pg_wf_file_delete:
  assumes "pg_wf s"
  shows "pg_wf (pe_playground_file_delete g dev ino s)"
proof (cases "has_file s g (PG_DEVINO dev ino) \<and> pe_playground_find g s \<noteq> None")
  case True
  then obtain d pg where d: "pgdisk s g = Some d" "d (PG_DEVINO dev ino) \<noteq> None"
    and pg: "pe_playground_find g s = Some pg" by (auto simp: has_file_def split: option.splits)
  let ?d = "d(PG_DEVINO dev ino := None)"
  let ?s = "upd_pg g (\<lambda>pg. pg\<lparr>nrfiles := nrfiles pg - 1\<rparr>) (s\<lparr>pgdisk := (pgdisk s)(g \<mapsto> ?d)\<rparr>)"
  from pg_wf_ok [OF assms, of g] pg d
  have ok: "dirfd_ok pg" "dir_ok d" "nrfiles pg = int (card (inodes d))" "nrprocs pg \<ge> 0" by auto
  have i: "inodes ?d = inodes d - {(dev, ino)}" and m: "(dev, ino) \<in> inodes d"
    using d(2) by (auto simp: inodes_def)
  then have "int (card (inodes ?d)) = int (card (inodes d)) - 1"
    using ok(2) card_gt_0_iff [of "inodes d"] by (simp add: dir_ok_def of_nat_diff) auto
  moreover have "dir_ok ?d" using ok(2) i by (auto simp: dir_ok_def)
  ultimately have "pg_wf ?s"
    using ok pg
    by (intro pg_wf_step [OF assms, of g "\<lambda>pg. pg\<lparr>nrfiles := nrfiles pg - 1\<rparr>"]) (auto simp: upd_pg_def)
  with pg d ok show ?thesis by (auto simp: pe_playground_file_delete_def pg_wf_trykill)
next
  case False
  with assms show ?thesis
    by (auto simp: pe_playground_file_delete_def has_file_def split: option.splits)
qed

lemma pg_wf_scanrequest:
  assumes "pg_wf s" and "no_nul path"
  shows "pg_wf (snd (pe_playground_file_scanrequest g dev ino path u s))"
  using pg_wf_file_instantiate [OF assms, of g dev ino None "[]"]
    pg_wf_nrprocs [OF pg_wf_file_instantiate [OF assms, of g dev ino None "[]"], of g] assms(1)
  by (auto simp: pe_playground_file_scanrequest_def Let_def split: option.split intro!: pg_wf_upd)

lemma pg_wf_commit: "pg_wf s \<Longrightarrow> pg_wf (snd (pe_playground_dispatch_commit m s))"
  using pg_wf_nrprocs [of s]
  by (auto simp: pe_playground_dispatch_commit_def split: option.split intro!: pg_wf_upd)

lemma pg_wf_commitreply: "pg_wf s \<Longrightarrow> pg_wf (pe_playground_dispatch_commitreply tok s)"
  using pg_wf_nrprocs [of s]
  by (auto simp: pe_playground_dispatch_commitreply_def split: option.split intro!: pg_wf_upd)

lemma pg_wf_unlink: "pg_wf s \<Longrightarrow> pg_wf (snd (pe_playground_dispatch_unlink g u dev ino s))"
  by (auto simp: pe_playground_dispatch_unlink_def pg_wf_file_delete split: option.split)

subsection \<open>Runs\<close>

definition pg_init :: pg_state where
  "pg_init = \<lparr>playgrounds = [], pgdisk = Map.empty, pg_sent = [], last_pgid = 0, pg_crash = False\<rparr>"

text \<open>Everything the daemon does with its playgrounds between two restarts.\<close>

inductive pg_run :: "pg_state \<Rightarrow> bool" where
  run_init: "pg_run pg_init"
| run_add: "pg_run s \<Longrightarrow> pg_run (pe_playground_add g proc now s)"
| run_rename: "pg_run s \<Longrightarrow> pg_run (pe_playground_rename g proc s)"
| run_delete: "pg_run s \<Longrightarrow> pg_run (pe_playground_delete g s)"
| run_postexec: "pg_run s \<Longrightarrow> pg_run (pe_playground_postexec g proc now s)"
| run_instantiate: "pg_run s \<Longrightarrow> no_nul path \<Longrightarrow>
    pg_run (pe_playground_file_instantiate g dev ino path old entries s)"
| run_file_delete: "pg_run s \<Longrightarrow> pg_run (pe_playground_file_delete g dev ino s)"
| run_scan: "pg_run s \<Longrightarrow> no_nul path \<Longrightarrow> pg_run (snd (pe_playground_file_scanrequest g dev ino path u s))"
| run_commit: "pg_run s \<Longrightarrow> pg_run (snd (pe_playground_dispatch_commit m s))"
| run_commitreply: "pg_run s \<Longrightarrow> pg_run (pe_playground_dispatch_commitreply tok s)"
| run_unlink: "pg_run s \<Longrightarrow> pg_run (snd (pe_playground_dispatch_unlink g u dev ino s))"

lemma pg_wf_init: "pg_wf pg_init"
  by (simp add: pg_wf_def pg_init_def pe_playground_find_def)

lemma pg_run_wf: "pg_run s \<Longrightarrow> pg_wf s"
  by (induction rule: pg_run.induct)
    (simp_all add: pg_wf_init pg_wf_add pg_wf_rename pg_wf_delete pg_wf_postexec
      pg_wf_file_instantiate pg_wf_file_delete pg_wf_scanrequest pg_wf_commit pg_wf_commitreply
      pg_wf_unlink)

subsection \<open>Path components\<close>

fun components :: "string \<Rightarrow> string \<Rightarrow> string list" where
  "components acc [] = [rev acc]"
| "components acc (c # cs) =
     (if c = CHR ''/'' then rev acc # components [] cs else components (c # acc) cs)"

definition hidden :: "string \<Rightarrow> bool" where
  "hidden c \<longleftrightarrow> c = [] \<or> c = ''.'' \<or> c = ''..''"

definition comp_state :: "string \<Rightarrow> nat" where
  "comp_state acc = (if acc = [] then 1 else if acc = ''.'' then 2 else if acc = ''..'' then 3 else 0)"

lemma commit_path_scan_components:
  "commit_path_scan cs (comp_state acc) \<longleftrightarrow> (\<forall>c\<in>set (components acc cs). \<not> hidden c)"
proof (induction acc cs rule: components.induct)
  case (1 acc)
  have "rev acc = ''..'' \<longleftrightarrow> acc = ''..''" by (metis rev.simps append.simps rev_rev_ident)
  then show ?case by (auto simp: comp_state_def hidden_def rev_singleton_conv)
next
  case (2 acc c cs)
  have r: "rev acc = ''..'' \<longleftrightarrow> acc = ''..''" by (metis rev.simps append.simps rev_rev_ident)
  show ?case
  proof (cases "c = CHR ''/''")
    case True
    then show ?thesis using 2(1) r
      by (auto simp: comp_state_def hidden_def badcomp_def rev_singleton_conv)
  next
    case False
    then have "(if badcomp (comp_state acc) = Some c then comp_state acc + 1 else 0) = comp_state (c # acc)"
      by (auto simp: comp_state_def badcomp_def)
    with False 2(2) show ?thesis by simp
  qed
qed

subsection \<open>Printed numbers\<close>

lemma of_char_digit: "d < 10 \<Longrightarrow> (of_char (digit d) :: nat) = 48 + d"
  by (simp add: of_char_of)

lemma print_nat_digits: "print_nat n \<noteq> [] \<and> (\<forall>c\<in>set (print_nat n). is_digit c)"
proof (induction n rule: print_nat.induct)
  case (1 n)
  have d: "is_digit (digit k)" if "k < 10" for k
    using of_char_digit [OF that] that by (simp add: is_digit_def del: digit.simps)
  show ?case
    using 1 d [of n] d [of "n mod 10"] by (subst (1 2) print_nat.simps) (auto simp del: digit.simps)
qed

lemma print_nat_value: "foldl (\<lambda>n c. 10 * n + (of_char c - 48)) 0 (print_nat n) = n"
proof (induction n rule: print_nat.induct)
  case (1 n)
  show ?case
  proof (cases "n < 10")
    case True
    then show ?thesis by (subst print_nat.simps) (simp add: of_char_digit del: digit.simps)
  next
    case False
    then show ?thesis using 1
      by (subst print_nat.simps) (simp add: of_char_digit del: digit.simps)
  qed
qed

lemma scan_print_nat: "scan_nat (print_nat n) = Some n"
proof -
  have tw: "takeWhile is_digit (print_nat n) = print_nat n"
    using print_nat_digits by (simp add: takeWhile_eq_all_conv)
  show ?thesis unfolding scan_nat_def Let_def tw using print_nat_digits [of n] print_nat_value [of n] by simp
qed

lemma scan_print_int: "scan_int (print_int i) = Some i"
proof (cases "i < 0")
  case True
  have "(of_char (CHR ''-'') :: nat) = 45" by simp
  with True show ?thesis by (simp add: scan_int_def print_int_def scan_print_nat)
next
  case False
  obtain c cs where p: "print_nat (nat i) = c # cs" using print_nat_digits by (cases "print_nat (nat i)") auto
  then have d: "is_digit c" using print_nat_digits [of "nat i"] by simp
  then have "48 \<le> (of_char c :: nat)" by (simp add: is_digit_def)
  then have "c \<noteq> CHR '' ''" "\<not> (of_char c :: nat) \<le> 13" "c \<noteq> CHR ''-''" "c \<noteq> CHR ''+''" by auto
  with False p scan_print_nat [of "nat i"] show ?thesis by (simp add: scan_int_def print_int_def)
qed

lemma print_nat_length: "n < 10 ^ k \<Longrightarrow> k > 0 \<Longrightarrow> length (print_nat n) \<le> k"
proof (induction n arbitrary: k rule: print_nat.induct)
  case (1 n)
  show ?case
  proof (cases "n < 10")
    case True
    then show ?thesis using "1.prems" by (subst print_nat.simps) simp
  next
    case False
    then obtain j where k: "k = Suc j" "j > 0" using "1.prems" by (cases k; cases "k - 1") auto
    then have "n div 10 < 10 ^ j" using "1.prems" by (simp add: less_mult_imp_div_less mult.commute)
    with 1 False k show ?thesis by (subst print_nat.simps) simp
  qed
qed

lemma print_int_length: "- (10 ^ 20) < i \<Longrightarrow> i < 10 ^ 20 \<Longrightarrow> length (print_int i) \<le> 21"
  using print_nat_length [of "nat i" 20] print_nat_length [of "nat (- i)" 20]
  by (auto simp: print_int_def nat_less_iff)

lemma print_int_no_nul: "no_nul (print_int i)"
proof -
  have "c \<noteq> NUL" if "is_digit c" for c
    using that by (metis is_digit_def of_char_of mod_0 not_numeral_le_zero)
  moreover have "CHR ''-'' \<noteq> NUL"
  proof
    assume "CHR ''-'' = NUL"
    then have "(of_char (CHR ''-'') :: nat) = of_char NUL" by (rule arg_cong)
    then show False by simp
  qed
  ultimately show ?thesis
    using print_nat_digits by (auto simp: print_int_def no_nul_def)
qed

text \<open>What a reader with a buffer of 512 bytes gets of a file.\<close>

lemma readfile_exact:
  assumes "dirfd_ok pg" and "pgdisk s (pg_id pg) = Some d" and "d f = Some c"
    and "no_nul c" and "length c < 512"
  shows "pe_playground_readfile pg f 512 s = Some c"
proof -
  have "takeWhile (\<lambda>x. x \<noteq> NUL) c = c" using assms(4) by (auto simp: takeWhile_eq_all_conv no_nul_def)
  with assms show ?thesis by (simp add: pe_playground_readfile_def)
qed

lemma sint_bounds_32: "- (10 ^ 20) < sint (w :: u32) \<and> sint w < 10 ^ 20"
  using sint_greater_eq [of w] sint_less [of w] by simp

lemma sint_bounds_64: "- (10 ^ 20) < sint (w :: u64) \<and> sint w < 10 ^ 20"
  using sint_greater_eq [of w] sint_less [of w] by simp

text \<open>The state of a daemon that starts: only the disk is left.\<close>

definition after_restart :: "pg_state \<Rightarrow> pg_state" where
  "after_restart s = pg_init\<lparr>pgdisk := pgdisk s, last_pgid := last_pgid s\<rparr>"

lemma initproc_disk:
  assumes "pe_playground_initproc g proc now s = (True, s1)" and "pe_playground_find g s = Some pg"
    and "dirfd_ok pg" and "pgdisk s g = Some d"
  shows "pgdisk s1 g = Some (d(PG_UID \<mapsto> print_int (sint (p_uid proc)),
      PG_STARTTIME \<mapsto> print_int (sint now),
      PG_CMD \<mapsto> case pathhint (p_ident proc) of None \<Rightarrow> [] | Some c \<Rightarrow> c))"
  using assms find_id [OF assms(2)]
  by (auto simp: pe_playground_initproc_def Let_def pe_playground_writefile_def split: if_splits)

lemma read_after_restart:
  assumes "pgdisk s g = Some d" and "entries \<noteq> []"
    and u: "d PG_UID = Some (print_int (sint u))" and t: "d PG_STARTTIME = Some (print_int (sint t0))"
    and c: "d PG_CMD = Some c" "no_nul c" "length c < 512"
  shows "\<exists>pg. pe_playground_find g (pe_playground_read g entries (after_restart s)) = Some pg \<and>
    pg_uid pg = u \<and> starttime pg = t0 \<and> realcmd pg = Some c \<and> nrfiles pg = int (length entries) \<and>
    nrprocs pg = 0"
proof -
  let ?r = "after_restart s"
  define s1 where "s1 = upd_pg g (\<lambda>pg. pg\<lparr>did_exec := True\<rparr>) (pe_playground_create g False ?r)"
  define n where "n = (new_playground g True)\<lparr>did_exec := True\<rparr>"
  have none: "pe_playground_find g ?r = None" by (simp add: after_restart_def pg_init_def pe_playground_find_def)
  have disk: "pgdisk s1 g = Some d" using assms(1) by (simp add: s1_def disk_create after_restart_def)
  have f1: "pe_playground_find g s1 = Some n"
    using none assms(1) by (simp add: s1_def n_def find_upd_pg find_create after_restart_def)
  have nn: "pg_id n = g" "dirfd_ok n" by (simp_all add: n_def new_playground_def)
  have "length (print_int (sint u)) < 512" "length (print_int (sint t0)) < 512"
    using print_int_length [of "sint u"] print_int_length [of "sint t0"] sint_bounds_32 [of u]
      sint_bounds_64 [of t0] by auto
  then have rd: "pe_playground_readfile n PG_UID 512 s1 = Some (print_int (sint u))"
    "pe_playground_readfile n PG_STARTTIME 512 s1 = Some (print_int (sint t0))"
    "pe_playground_readfile n PG_CMD 512 s1 = Some c"
    using nn disk u t c print_int_no_nul by (auto intro!: readfile_exact [of n s1 d])
  have k: "nrfiles n = 0" "nrprocs n = 0" "length entries > 0"
    using assms(2) by (simp_all add: n_def new_playground_def)
  show ?thesis
    unfolding pe_playground_read_def none option.case Let_def s1_def [symmetric]
    using nn rd k f1
    by (simp add: find_upd_pg pe_playground_trykill_def read_uid_def read_starttime_def
        scan_print_int pe_playground_buildname_def)
qed

lemma delete_find:
  assumes "pg_wf s" and "pe_playground_find g s = Some pg" and "nrprocs pg > 0"
  shows "pe_playground_find g (pe_playground_delete g s) =
    (if nrprocs pg = 1 \<and> nrfiles pg = 0 \<and> dirfd_ok pg then None
     else Some (pg\<lparr>nrprocs := nrprocs pg - 1\<rparr>))"
proof -
  define s1 where "s1 = upd_pg g (\<lambda>_. pg\<lparr>nrprocs := nrprocs pg - 1\<rparr>) s"
  define s2 where "s2 = (if nrprocs pg - 1 = 0
      then send_pgchange (pg_uid pg) g ANOUBIS_PGCHANGE_TERMINATE (fullname pg) s1 else s1)"
  have same: "playgrounds s2 = playgrounds s1" by (simp add: s2_def send_pgchange_def split: option.split)
  have id: "pg_id pg = g" by (rule find_id [OF assms(2)])
  have "pe_playground_find g s2 = Some (pg\<lparr>nrprocs := nrprocs pg - 1\<rparr>)"
    using assms(2) id same by (simp add: pe_playground_find_def s1_def upd_pg_def find_upd_first)
  moreover have "distinct (map pg_id (playgrounds s2))"
    using pg_wf_distinct [OF assms(1)] ids_upd_pg [of g "\<lambda>_. pg\<lparr>nrprocs := nrprocs pg - 1\<rparr>" s] id
    by (simp add: same s1_def)
  ultimately have "pe_playground_find g (pe_playground_trykill g s2) =
      (if nrprocs pg = 1 \<and> nrfiles pg = 0 \<and> dirfd_ok pg then None
       else Some (pg\<lparr>nrprocs := nrprocs pg - 1\<rparr>))"
    by (simp add: find_trykill)
  moreover have "pe_playground_delete g s = pe_playground_trykill g s2"
    using assms by (simp add: pe_playground_delete_def s1_def s2_def Let_def)
  ultimately show ?thesis by simp
qed

text \<open>Objects for the witnesses.\<close>

definition demo_proc :: pe_proc where
  "demo_proc = \<lparr>p_refcount = 2, instances = 1, threads = 1, pid = 7, p_uid = 1000, p_flags = 0,
     p_ident = \<lparr>id_csum = [], pathhint = Some ''/bin/sh''\<rparr>, task_cookie = 42, pgid = 5,
     borrow_cookie = (\<lambda>_. 0), p_context = (\<lambda>_. None), saved_ctx = (\<lambda>_. None)\<rparr>"

definition demo_pgs :: pg_state where
  "demo_pgs = pe_playground_add 5 demo_proc 1234 pg_init"

lemma demo_pgs_run: "pg_run demo_pgs"
  unfolding demo_pgs_def by (intro pg_run.intros)

subsection \<open>Properties\<close>



text \<open>
  Instantiating a file records its path name exactly once: the inode file of the playground
  then lists the path, after the names it had before, and no other inode file changes.
\<close>

theorem instantiate_records_name:
  assumes "pg_run s" and "no_nul path" and "path \<noteq> []"
    and "pe_playground_find g s = Some pg" and "pgdisk s g = Some d"
  shows "\<exists>d'. pgdisk (pe_playground_file_instantiate g dev ino path None entries s) g = Some d' \<and>
    file_names d' dev ino = (if path \<in> set (file_names d dev ino) then file_names d dev ino
                             else file_names d dev ino @ [path]) \<and>
    (\<forall>v i. (v, i) \<noteq> (dev, ino) \<longrightarrow> file_names d' v i = file_names d v i)"
proof -
  note ok = pg_wf_ok [OF pg_run_wf [OF assms(1)], of g]
  have d: "dirfd_ok pg" "dir_ok d" "pgdisk s (pg_id pg) = Some d"
    using ok assms(4,5) find_id [OF assms(4)] by auto
  have "list_all no_nul (file_names d dev ino @ [path])"
    using dir_ok_names [OF d(2), of dev ino] assms(2) by simp
  then have "names [] (encode (file_names d dev ino @ [path])) = file_names d dev ino @ [path]"
    by (rule names_encode)
  then show ?thesis
    using assms(3,4,5) file_add_eq [OF d(1,3,2) assms(2), of dev ino] find_id [OF assms(4)]
    by (auto simp: pe_playground_file_instantiate_def file_names_def)
qed

theorem instantiate_records_name_witness:
  "\<exists>d'. pgdisk (pe_playground_file_instantiate 5 1 2 ''/tmp/a'' None [] demo_pgs) 5 = Some d' \<and>
     file_names d' 1 2 = [''/tmp/a'']"
proof -
  have n: "no_nul ''/tmp/a''" by (simp add: no_nul_def) code_simp
  have "pe_playground_find 5 demo_pgs \<noteq> None" by code_simp
  then obtain pg where pg: "pe_playground_find 5 demo_pgs = Some pg" by blast
  have "map_option (\<lambda>d. file_names d 1 2) (pgdisk demo_pgs 5) = Some []" by code_simp
  then obtain d where d: "pgdisk demo_pgs 5 = Some d" "file_names d 1 2 = []" by auto
  from instantiate_records_name [OF demo_pgs_run n _ pg d(1), of 1 2 "[]"] d(2) show ?thesis by auto
qed

lemma file_adds_names:
  assumes "dirfd_ok pg" and "pgdisk s (pg_id pg) = Some d" and "dir_ok d" and "list_all no_nul ps"
  shows "\<exists>d'. pgdisk (fold (\<lambda>n s. snd (pe_playground_file_add pg (PG_DEVINO dev ino) n s)) ps s) (pg_id pg) = Some d' \<and>
    set (file_names d' dev ino) = set (file_names d dev ino) \<union> set ps"
  using assms(2-4)
proof (induction ps arbitrary: s d)
  case (Cons p ps)
  let ?s = "snd (pe_playground_file_add pg (PG_DEVINO dev ino) p s)"
  have p: "no_nul p" using Cons.prems(3) by simp
  note eq = file_add_eq [OF assms(1) Cons.prems(1,2) p, of dev ino]
  show ?case
  proof (cases "p \<in> set (file_names d dev ino)")
    case True
    then have "insert p (set (file_names d dev ino) \<union> set ps) = set (file_names d dev ino) \<union> set ps" by blast
    then show ?thesis using True Cons.IH [of s d] Cons.prems eq by simp
  next
    case False
    let ?d = "d(PG_DEVINO dev ino \<mapsto> encode (file_names d dev ino @ [p]))"
    have ns: "list_all no_nul (file_names d dev ino @ [p])" "distinct (file_names d dev ino @ [p])"
      using dir_ok_names [OF Cons.prems(2), of dev ino] p False by auto
    then have fn: "file_names ?d dev ino = file_names d dev ino @ [p]" by (simp add: file_names_def names_encode)
    have ok: "dir_ok ?d" by (rule dir_ok_add(1) [OF Cons.prems(2) p False])
    have dk: "pgdisk ?s (pg_id pg) = Some ?d" using eq False by simp
    have l: "list_all no_nul ps" using Cons.prems(3) by simp
    show ?thesis using Cons.IH [OF dk ok l] unfolding fn by simp
  qed
qed auto

text \<open>
  Renaming a directory updates the names of the playground files below it completely as long
  as the names of an inode fit into the read buffer of \<^verbatim>\<open>PATH_MAX\<close> bytes: afterwards the inode
  file lists its old names and, for each name below the old directory, the one below the new
  directory.
\<close>

theorem rename_dir_complete:
  assumes "pg_run s" and "pe_playground_find g s = Some pg" and "pgdisk s g = Some d"
    and "d (PG_DEVINO dev ino) = Some c" and "length c \<le> PATH_MAX" and "no_nul new"
  shows "\<exists>d'. pgdisk (pe_playground_rename_dir_one_file pg (PG_DEVINO dev ino) new old s) g = Some d' \<and>
    set (file_names d' dev ino) =
      set (file_names d dev ino) \<union> set (renamed_names new old (file_names d dev ino))"
proof -
  have d: "dirfd_ok pg" "dir_ok d" "pgdisk s (pg_id pg) = Some d" "pg_id pg = g"
    using pg_wf_ok [OF pg_run_wf [OF assms(1)], of g] assms(2,3) find_id [OF assms(2)] by auto
  note ns = dir_ok_names [OF d(2), of dev ino]
  then have "read_names c [] 0 = Some (file_names d dev ino)"
    using read_names_small [of "file_names d dev ino"] assms(4,5) by simp
  then have "pe_playground_rename_dir_one_file pg (PG_DEVINO dev ino) new old s =
      fold (\<lambda>n s. snd (pe_playground_file_add pg (PG_DEVINO dev ino) n s))
        (renamed_names new old (file_names d dev ino)) s"
    using d assms(4) by (simp add: pe_playground_rename_dir_one_file_def)
  moreover have "list_all no_nul (renamed_names new old (file_names d dev ino))"
    using renamed_no_nul [OF assms(6)] ns by blast
  ultimately show ?thesis using file_adds_names [OF d(1,3,2), of _ dev ino] d(4) by simp
qed

theorem rename_dir_complete_witness:
  "\<exists>d'. pgdisk (pe_playground_rename_dir_one_file
      (the (pe_playground_find 5 (pe_playground_file_instantiate 5 1 2 ''/tmp/a'' None [] demo_pgs)))
      (PG_DEVINO 1 2) ''/new'' ''/tmp/'' (pe_playground_file_instantiate 5 1 2 ''/tmp/a'' None [] demo_pgs)) 5 = Some d' \<and>
     set (file_names d' 1 2) = {''/tmp/a'', ''/new/a''}"
proof -
  let ?s = "pe_playground_file_instantiate 5 1 2 ''/tmp/a'' None [] demo_pgs"
  have n: "no_nul ''/tmp/a''" "no_nul ''/new''" by (simp_all add: no_nul_def) code_simp+
  then have r: "pg_run ?s" using demo_pgs_run by (intro pg_run.intros)
  have "pe_playground_find 5 ?s \<noteq> None" by code_simp
  then obtain pg where pg: "pe_playground_find 5 ?s = Some pg" by blast
  have "map_option (\<lambda>d. (file_names d 1 2, d (PG_DEVINO 1 2))) (pgdisk ?s 5) =
      Some ([''/tmp/a''], Some (''/tmp/a'' @ [char_of (0::nat)]))" by code_simp
  then obtain d where d: "pgdisk ?s 5 = Some d" "file_names d 1 2 = [''/tmp/a'']"
    "d (PG_DEVINO 1 2) = Some (''/tmp/a'' @ [char_of (0::nat)])" by auto
  have l: "length (''/tmp/a'' @ [char_of (0::nat)]) \<le> PATH_MAX" by (simp add: PATH_MAX_def)
  from rename_dir_complete [OF r pg d(1,3) l n(2), of "''/tmp/''"] d(2) pg show ?thesis
    by (auto simp: renamed_names_def)
qed

text \<open>
  Beyond the read buffer names get lost: if an inode has two names of which the second
  crosses the end of the buffer and is not longer than the first, the second name is not seen
  and keeps its old directory when the directory is renamed.
\<close>

theorem rename_dir_loses_names:
  assumes "dirfd_ok pg" and "pgdisk s (pg_id pg) = Some d" and "d (PG_DEVINO dev ino) = Some (encode [nm, nm'])"
    and "no_nul nm" and "no_nul nm'" and "length nm + 1 < PATH_MAX"
    and "PATH_MAX < length (encode [nm, nm'])" and "length nm' \<le> length nm"
    and "renamed_names new old [nm] = []"
  shows "pe_playground_rename_dir_one_file pg (PG_DEVINO dev ino) new old s = s"
  using assms(1-3,9) read_names_loses [OF assms(4-8)]
  by (simp add: pe_playground_rename_dir_one_file_def)

definition demo_long :: "string \<times> string" where
  "demo_long = (replicate 4000 (CHR ''a''), ''/b/'' @ replicate 200 (CHR ''c''))"

theorem rename_dir_loses_names_witness:
  "pe_playground_rename_dir_one_file (new_playground 5 True) (PG_DEVINO 1 2) ''/new'' ''/b/''
     (pg_init\<lparr>pgdisk := [5 \<mapsto> [PG_DEVINO 1 2 \<mapsto> encode [fst demo_long, snd demo_long]]]\<rparr>) =
   pg_init\<lparr>pgdisk := [5 \<mapsto> [PG_DEVINO 1 2 \<mapsto> encode [fst demo_long, snd demo_long]]]\<rparr> \<and>
   renamed_names ''/new'' ''/b/'' [snd demo_long] \<noteq> []"
proof
  have c: "CHR ''a'' \<noteq> NUL" "CHR ''b'' \<noteq> NUL" "CHR ''c'' \<noteq> NUL" "CHR ''/'' \<noteq> NUL" by code_simp+
  show "pe_playground_rename_dir_one_file (new_playground 5 True) (PG_DEVINO 1 2) ''/new'' ''/b/''
     (pg_init\<lparr>pgdisk := [5 \<mapsto> [PG_DEVINO 1 2 \<mapsto> encode [fst demo_long, snd demo_long]]]\<rparr>) =
     pg_init\<lparr>pgdisk := [5 \<mapsto> [PG_DEVINO 1 2 \<mapsto> encode [fst demo_long, snd demo_long]]]\<rparr>"
    by (rule rename_dir_loses_names [where nm = "fst demo_long" and nm' = "snd demo_long" and
          d = "[PG_DEVINO 1 2 \<mapsto> encode [fst demo_long, snd demo_long]]"])
      (use c in \<open>simp_all add: new_playground_def demo_long_def no_nul_def encode_def PATH_MAX_def
        renamed_names_def numeral_eq_Suc\<close>)
qed (simp add: demo_long_def renamed_names_def)

text \<open>
  C34. A commit request is forwarded to the master process exactly if the playground exists, the
  requester is root or owns it, a scan of a file was requested before, no other scan of this
  user is under way, and the path is absolute without empty, \<^verbatim>\<open>.\<close> or \<^verbatim>\<open>..\<close> components. The
  forwarded request names the device and inode recorded by the scan request.
\<close>

theorem commit_forwarded_iff:
  "fst (pe_playground_dispatch_commit m s) = Inr m' \<longleftrightarrow>
    (case pe_playground_find (c_pgid m) s of
       None \<Rightarrow> False
     | Some pg \<Rightarrow>
         (c_auth_uid m = 0 \<or> c_auth_uid m = pg_uid pg) \<and>
         c_dev m = 0 \<and> c_ino m = 0 \<and> scandev pg \<noteq> 0 \<and> scanino pg \<noteq> 0 \<and>
         list_all (\<lambda>pg2. pg_uid pg2 = pg_uid pg \<longrightarrow> scantok pg2 = 0) (playgrounds s) \<and>
         take 1 (c_path m) = ''/'' \<and> list_all (\<lambda>c. \<not> hidden c) (components [] (tl (c_path m))) \<and>
         m' = m\<lparr>c_dev := scandev pg, c_ino := scanino pg\<rparr>)"
proof -
  have path: "commit_path_ok (c_path m) \<longleftrightarrow>
      take 1 (c_path m) = ''/'' \<and> list_all (\<lambda>c. \<not> hidden c) (components [] (tl (c_path m)))"
  proof (cases "c_path m")
    case (Cons c cs)
    then show ?thesis using commit_path_scan_components [of cs "[]"]
      by (auto simp: commit_path_ok_def badcomp_def comp_state_def list_all_iff)
  qed (simp add: commit_path_ok_def)
  show ?thesis
    by (auto simp: pe_playground_dispatch_commit_def path list_all_iff list_ex_iff split: option.split)
qed

definition demo_commit :: pgcommit where
  "demo_commit = \<lparr>c_token = 9, c_pgid = 5, c_auth_uid = 1000, c_dev = 0, c_ino = 0, c_path = ''/tmp/a''\<rparr>"

theorem commit_forwarded_iff_witness:
  "fst (pe_playground_dispatch_commit demo_commit
      (snd (pe_playground_file_scanrequest 5 1 2 ''/tmp/a'' 1000 demo_pgs))) =
   Inr (demo_commit\<lparr>c_dev := 1, c_ino := 2\<rparr>)"
  unfolding commit_forwarded_iff by code_simp

text \<open>
  When a process leaves its playground, the playground is removed if this was its last process
  and it has no files; otherwise it stays and only its process counter changes.
\<close>

theorem playground_removed_when_unused:
  assumes "pg_run s" and "pe_playground_find g s = Some pg" and "nrprocs pg > 0"
  shows "pe_playground_find g (pe_playground_delete g s) =
    (if nrprocs pg = 1 \<and> nrfiles pg = 0 \<and> dirfd_ok pg then None
     else Some (pg\<lparr>nrprocs := nrprocs pg - 1\<rparr>))"
  by (rule delete_find [OF pg_run_wf [OF assms(1)] assms(2,3)])

theorem playground_removed_when_unused_witness:
  "pe_playground_find 5 (pe_playground_delete 5 demo_pgs) = None"
proof -
  have "map_option (\<lambda>pg. (nrprocs pg, nrfiles pg, dirfd_ok pg)) (pe_playground_find 5 demo_pgs) = Some (1, 0, True)"
    by code_simp
  then obtain pg where "pe_playground_find 5 demo_pgs = Some pg" "nrprocs pg = 1" "nrfiles pg = 0" "dirfd_ok pg"
    by auto
  with playground_removed_when_unused [OF demo_pgs_run, of 5 pg] show ?thesis by simp
qed

text \<open>
  C35. Playgrounds survive a restart: what the founder process of a playground wrote to its
  directory (user, start time, command) is read back unchanged by the next daemon as long as the
  command fits the 512 byte buffer and the playground has files.
\<close>

theorem playground_survives_restart:
  assumes "pg_run s" and "pe_playground_find g s = Some pg" and "dirfd_ok pg"
    and "pe_playground_initproc g proc now s = (True, s1)"
    and "pathhint (p_ident proc) = Some cmd" and "no_nul cmd" and "length cmd < 512" and "entries \<noteq> []"
  shows "\<exists>pg'. pe_playground_find g (pe_playground_read g entries (after_restart s1)) = Some pg' \<and>
    pg_uid pg' = p_uid proc \<and> starttime pg' = now \<and> realcmd pg' = Some cmd \<and>
    nrfiles pg' = int (length entries) \<and> nrprocs pg' = 0"
proof -
  obtain d where "pgdisk s g = Some d"
    using pg_wf_ok [OF pg_run_wf [OF assms(1)], of g] assms(2,3) by auto
  from read_after_restart [OF initproc_disk [OF assms(4,2,3) this] assms(8), of "p_uid proc" now cmd]
    assms(5-7) show ?thesis by simp
qed

theorem playground_survives_restart_witness:
  "\<exists>pg'. pe_playground_find 5 (pe_playground_read 5 [(1, 2)]
       (after_restart (snd (pe_playground_initproc 5 demo_proc 99 demo_pgs)))) = Some pg' \<and>
     pg_uid pg' = 1000 \<and> realcmd pg' = Some ''/bin/sh''"
proof -
  have "map_option dirfd_ok (pe_playground_find 5 demo_pgs) = Some True" by code_simp
  then obtain pg where pg: "pe_playground_find 5 demo_pgs = Some pg" "dirfd_ok pg" by auto
  have "fst (pe_playground_initproc 5 demo_proc 99 demo_pgs)" by code_simp
  then have i: "pe_playground_initproc 5 demo_proc 99 demo_pgs =
      (True, snd (pe_playground_initproc 5 demo_proc 99 demo_pgs))"
    by (cases "pe_playground_initproc 5 demo_proc 99 demo_pgs") auto
  have n: "no_nul ''/bin/sh''" by (simp add: no_nul_def) code_simp
  have p: "pathhint (p_ident demo_proc) = Some ''/bin/sh''" "p_uid demo_proc = 1000"
    by (simp_all add: demo_proc_def)
  from playground_survives_restart [OF demo_pgs_run pg i p(1) n, of "[(1, 2)]"] p(2) show ?thesis by auto
qed

text \<open>
  If a playground process has no known program path, telling the user interface about the
  end of the playground dereferences a NULL pointer: \<^verbatim>\<open>send_pgchange\<close> copies the missing command
  name.
\<close>

theorem pgchange_without_command_crashes:
  "pg_crash (pe_playground_delete 5
     (pe_playground_add 5 (demo_proc\<lparr>p_ident := no_ident\<rparr>) 1234 pg_init))"
  by code_simp

end
