(* ===== verification/FileTree.thy ===== *)
theory FileTree
  imports Prelude
begin

text \<open>
  Model of the tree of upgraded files, \<^verbatim>\<open>src/src/anoubisd/pe_filetree.c\<close>. The red-black tree
  of \<^verbatim>\<open>sys/tree.h\<close> keeps its nodes in the order of the comparison function; it is modelled as the
  list of its nodes in that order, on which insertion and search walk with the same comparison
  function. A tree has at most one node per path, so a node pointer is given by the path.
\<close>

definition FT_HASH_SHIFT :: nat where "FT_HASH_SHIFT = 24"

record pe_filetree_node =
  ft_path :: string
  ft_cookie :: cookie
  ft_idx :: u64

type_synonym pe_file_tree = "pe_filetree_node list"

text \<open>\<^verbatim>\<open>strcmp\<close> up to the size of its result: only the sign is used.\<close>

fun strcmp :: "string \<Rightarrow> string \<Rightarrow> int" where
  "strcmp [] [] = 0"
| "strcmp [] (_ # _) = -1"
| "strcmp (_ # _) [] = 1"
| "strcmp (c # cs) (d # ds) =
     (if c = d then strcmp cs ds else int (of_char c) - int (of_char d))"

text \<open>The difference of the indices is computed on \<^verbatim>\<open>unsigned long\<close> and returned as an \<^verbatim>\<open>int\<close>.\<close>

definition hashcmp :: "pe_filetree_node \<Rightarrow> pe_filetree_node \<Rightarrow> int" where
  "hashcmp e1 e2 =
     (if ft_idx e1 = ft_idx e2 then strcmp (ft_path e1) (ft_path e2)
      else sint (ucast (ft_idx e1 - ft_idx e2) :: u32))"

definition ft_hash_fn :: "string \<Rightarrow> u64" where
  "ft_hash_fn str = fold (hash_step FT_HASH_SHIFT) str 0 AND mask FT_HASH_SHIFT"

definition pe_filetree_create :: pe_file_tree where
  "pe_filetree_create = []"

text \<open>\<^verbatim>\<open>RB_INSERT\<close>: the node that is already there, if any, and the tree.\<close>

fun rb_insert :: "pe_filetree_node \<Rightarrow> pe_file_tree \<Rightarrow> pe_filetree_node option \<times> pe_file_tree" where
  "rb_insert n [] = (None, [n])"
| "rb_insert n (m # ms) =
     (if hashcmp n m = 0 then (Some m, m # ms)
      else if hashcmp n m < 0 then (None, n # m # ms)
      else case rb_insert n ms of (other, ms') \<Rightarrow> (other, m # ms'))"

fun rb_find :: "pe_filetree_node \<Rightarrow> pe_file_tree \<Rightarrow> pe_filetree_node option" where
  "rb_find n [] = None"
| "rb_find n (m # ms) =
     (if hashcmp n m = 0 then Some m
      else if hashcmp n m < 0 then None
      else rb_find n ms)"

definition ft_node :: "string \<Rightarrow> cookie \<Rightarrow> pe_filetree_node" where
  "ft_node path ck = \<lparr>ft_path = path, ft_cookie = ck, ft_idx = ft_hash_fn path\<rparr>"

text \<open>
  \<^verbatim>\<open>pe_filetree_insert\<close>: if the path is already there the result is \<^verbatim>\<open>-EINVAL\<close>, and a zero
  cookie replaces the cookie of the existing node.
\<close>

definition pe_filetree_insert ::
    "pe_file_tree option \<Rightarrow> string option \<Rightarrow> cookie \<Rightarrow> (errno + unit) \<times> pe_file_tree option" where
  "pe_filetree_insert f path ck =
     (case (f, path) of
        (Some t, Some p) \<Rightarrow>
          (case rb_insert (ft_node p ck) t of
             (None, t') \<Rightarrow> (Inr (), Some t')
           | (Some other, t') \<Rightarrow>
               (Inl EINVAL,
                Some (if ck = 0
                      then map (\<lambda>m. if ft_path m = ft_path other then m\<lparr>ft_cookie := 0\<rparr> else m) t'
                      else t')))
      | _ \<Rightarrow> (Inl EINVAL, f))"

definition pe_filetree_remove :: "pe_file_tree option \<Rightarrow> string \<Rightarrow> pe_file_tree option" where
  "pe_filetree_remove f p =
     (case f of None \<Rightarrow> None | Some t \<Rightarrow> Some (filter (\<lambda>m. ft_path m \<noteq> p) t))"

definition pe_filetree_find :: "pe_file_tree option \<Rightarrow> string option \<Rightarrow> pe_filetree_node option" where
  "pe_filetree_find f path =
     (case (f, path) of
        (Some t, Some p) \<Rightarrow> rb_find (ft_node p 0) t
      | _ \<Rightarrow> None)"

definition pe_filetree_start :: "pe_file_tree option \<Rightarrow> pe_filetree_node option" where
  "pe_filetree_start f = (case f of Some (n # _) \<Rightarrow> Some n | _ \<Rightarrow> None)"

text \<open>\<^verbatim>\<open>RB_NEXT\<close>: the successor of the node with the given path.\<close>

fun rb_next :: "pe_file_tree \<Rightarrow> string \<Rightarrow> pe_filetree_node option" where
  "rb_next [] p = None"
| "rb_next (m # ms) p =
     (if ft_path m = p then (case ms of [] \<Rightarrow> None | n # _ \<Rightarrow> Some n) else rb_next ms p)"

definition pe_filetree_next :: "pe_file_tree option \<Rightarrow> pe_filetree_node option \<Rightarrow> pe_filetree_node option" where
  "pe_filetree_next f prev =
     (case (f, prev) of (Some t, Some n) \<Rightarrow> rb_next t (ft_path n) | _ \<Rightarrow> None)"

definition pe_filetree_destroy :: "pe_file_tree option \<Rightarrow> pe_file_tree option" where
  "pe_filetree_destroy f = None"

subsection \<open>The order\<close>

lemma strcmp_0_iff: "strcmp a b = 0 \<longleftrightarrow> a = b"
  by (induction a b rule: strcmp.induct) auto

lemma strcmp_neg: "strcmp a b < 0 \<longleftrightarrow> 0 < strcmp b a"
  by (induction a b rule: strcmp.induct) auto

lemma strcmp_trans: "strcmp a b < 0 \<Longrightarrow> strcmp b c < 0 \<Longrightarrow> strcmp a c < 0"
proof (induction a b arbitrary: c rule: strcmp.induct)
  case (2 d ds)
  then show ?case by (cases c) auto
next
  case (4 x xs y ys)
  then show ?case by (cases c) (auto split: if_splits)
qed auto

definition hashed :: "pe_filetree_node \<Rightarrow> bool" where
  "hashed n \<longleftrightarrow> ft_idx n = ft_hash_fn (ft_path n)"

lemma ft_hash_bound: "unat (ft_hash_fn p) < 2 ^ 24"
  unfolding ft_hash_fn_def FT_HASH_SHIFT_def by (rule unat_and_mask_less)

text \<open>Indices have 24 bits, so the truncated difference has the right sign and no overflow.\<close>

lemma idx_diff:
  fixes a b :: u64
  assumes "unat a < 2 ^ 24" and "unat b < 2 ^ 24"
  shows "sint (ucast (a - b) :: u32) = uint a - uint b"
proof -
  let ?d = "uint a - uint b"
  have "uint (a - b) = take_bit 64 ?d" by (simp add: uint_word_ariths take_bit_eq_mod)
  then have u: "uint (ucast (a - b) :: u32) = take_bit 32 (take_bit 64 ?d)"
    by (simp add: unsigned_ucast_eq)
  have "sint (ucast (a - b) :: u32) = signed_take_bit 31 ?d"
    unfolding sint_uint u by (simp add: take_bit_take_bit signed_take_bit_take_bit)
  moreover have "signed_take_bit 31 ?d = ?d"
  proof (rule signed_take_bit_int_eq_self)
    have "unat a < 16777216" "unat b < 16777216" using assms by simp_all
    then have "int (unat a) < 16777216" "int (unat b) < 16777216" by linarith+
    then have "uint a < 16777216" "uint b < 16777216" by simp_all
    moreover have "uint a \<ge> 0" "uint b \<ge> 0" by (rule uint_ge_0)+
    ultimately have "- 16777216 < ?d" "?d < 16777216" by linarith+
    then show "- (2 ^ 31) \<le> ?d" "?d < 2 ^ 31" by simp_all
  qed
  ultimately show ?thesis by simp
qed

lemma hashcmp_hashed:
  assumes "hashed m" and "hashed n"
  shows "hashcmp m n = (if ft_idx m = ft_idx n then strcmp (ft_path m) (ft_path n)
    else uint (ft_idx m) - uint (ft_idx n))"
  using assms idx_diff ft_hash_bound by (simp add: hashcmp_def hashed_def)

lemma hashcmp_0_iff: "hashed m \<Longrightarrow> hashed n \<Longrightarrow> hashcmp m n = 0 \<longleftrightarrow> ft_path m = ft_path n"
  by (auto simp: hashcmp_hashed strcmp_0_iff hashed_def word_uint_eq_iff)

lemma hashcmp_neg: "hashed m \<Longrightarrow> hashed n \<Longrightarrow> hashcmp m n < 0 \<longleftrightarrow> 0 < hashcmp n m"
  by (auto simp: hashcmp_hashed strcmp_neg)

lemma hashcmp_trans:
  assumes "hashed l" "hashed m" "hashed n" "hashcmp l m < 0" "hashcmp m n < 0"
  shows "hashcmp l n < 0"
proof -
  have "uint (ft_idx l) \<le> uint (ft_idx m)" "uint (ft_idx m) \<le> uint (ft_idx n)"
    using assms by (auto simp: hashcmp_hashed split: if_splits)
  with assms show ?thesis
    by (auto simp: hashcmp_hashed split: if_splits intro: strcmp_trans)
qed

subsection \<open>The tree invariant\<close>

text \<open>Nodes in strictly increasing order, every node with the hash of its path.\<close>

definition tree_ok :: "pe_file_tree \<Rightarrow> bool" where
  "tree_ok t \<longleftrightarrow> list_all hashed t \<and> sorted_wrt (\<lambda>m n. hashcmp m n < 0) t"

text \<open>The contents of a tree as a map from paths to cookies.\<close>

definition ft_map :: "pe_file_tree \<Rightarrow> string \<rightharpoonup> cookie" where
  "ft_map t p = map_option ft_cookie (find (\<lambda>m. ft_path m = p) t)"

lemma hashed_node [simp]: "hashed (ft_node p c)" "ft_path (ft_node p c) = p" "ft_cookie (ft_node p c) = c"
  by (simp_all add: hashed_def ft_node_def)

lemma tree_ok_Cons:
  "tree_ok (m # ms) \<longleftrightarrow> hashed m \<and> (\<forall>n\<in>set ms. hashcmp m n < 0) \<and> tree_ok ms"
  by (auto simp: tree_ok_def)

lemma tree_ok_distinct: "tree_ok t \<Longrightarrow> distinct (map ft_path t)"
proof (induction t)
  case (Cons m ms)
  have "ft_path m \<noteq> ft_path n" if "n \<in> set ms" for n
  proof -
    have "hashed m" "hashed n" "hashcmp m n < 0"
      using Cons.prems that by (auto simp: tree_ok_def list_all_iff)
    then show ?thesis using hashcmp_0_iff [of m n] by auto
  qed
  with Cons show ?case by (auto simp: tree_ok_Cons)
qed simp

lemma rb_find_eq:
  assumes "tree_ok t" and "hashed n"
  shows "rb_find n t = find (\<lambda>m. ft_path m = ft_path n) t"
  using assms
proof (induction t)
  case (Cons m ms)
  have h: "hashed m" "tree_ok ms" using Cons.prems by (auto simp: tree_ok_Cons)
  have "find (\<lambda>m. ft_path m = ft_path n) ms = None" if "hashcmp n m < 0"
  proof -
    have "hashcmp n k < 0" "hashed k" if "k \<in> set ms" for k
      using that Cons.prems \<open>hashcmp n m < 0\<close> hashcmp_trans [of n m k] h
      by (auto simp: tree_ok_Cons tree_ok_def list_all_iff)
    then show ?thesis using hashcmp_0_iff [of n] Cons.prems(2) by (fastforce simp: find_None_iff)
  qed
  with Cons h hashcmp_0_iff [of n m] show ?case by auto
qed simp

lemma rb_insert_result:
  assumes "tree_ok t" and "hashed n"
  shows "fst (rb_insert n t) = find (\<lambda>m. ft_path m = ft_path n) t \<and>
    tree_ok (snd (rb_insert n t)) \<and>
    set (snd (rb_insert n t)) = (case find (\<lambda>m. ft_path m = ft_path n) t of
        Some _ \<Rightarrow> set t | None \<Rightarrow> insert n (set t))"
  using assms
proof (induction t)
  case (Cons m ms)
  have h: "hashed m" "tree_ok ms" using Cons.prems by (auto simp: tree_ok_Cons)
  note IH = Cons.IH [OF h(2) Cons.prems(2)]
  consider "hashcmp n m = 0" | "hashcmp n m < 0" | "hashcmp n m > 0" by linarith
  then show ?case
  proof cases
    case 1
    with Cons.prems h hashcmp_0_iff [of n m] show ?thesis by auto
  next
    case 2
    have all: "hashcmp n k < 0" if "k \<in> set (m # ms)" for k
      using that Cons.prems 2 hashcmp_trans [of n m k] h
      by (auto simp: tree_ok_Cons tree_ok_def list_all_iff)
    then have "find (\<lambda>m. ft_path m = ft_path n) (m # ms) = None"
      using hashcmp_0_iff [of n] Cons.prems
      by (simp only: find_None_iff tree_ok_def list_all_iff) (metis less_irrefl)
    with 2 all Cons.prems show ?thesis by (simp add: tree_ok_Cons less_imp_neq)
  next
    case 3
    obtain o' ms' where r: "rb_insert n ms = (o', ms')" by (cases "rb_insert n ms")
    have mn: "hashcmp m n < 0" using 3 h Cons.prems(2) hashcmp_neg [of m n] by simp
    have "ft_path m \<noteq> ft_path n" using mn hashcmp_0_iff [of m n] h Cons.prems(2) by auto
    moreover have "\<forall>k\<in>set ms'. hashcmp m k < 0"
      using IH r mn Cons.prems by (auto simp: tree_ok_Cons split: option.splits)
    ultimately show ?thesis using 3 IH r h by (auto simp: tree_ok_Cons split: option.splits)
  qed
qed (simp add: tree_ok_def)

subsection \<open>The tree as a map\<close>

lemma find_path_unique:
  "tree_ok t \<Longrightarrow> m \<in> set t \<Longrightarrow> find (\<lambda>n. ft_path n = ft_path m) t = Some m"
proof (induction t)
  case (Cons n t)
  then show ?case using tree_ok_distinct [OF Cons.prems(1)] by (auto simp: tree_ok_Cons image_iff)
qed simp

lemma ft_map_Some: "tree_ok t \<Longrightarrow> ft_map t p = Some c \<longleftrightarrow> (\<exists>m\<in>set t. ft_path m = p \<and> ft_cookie m = c)"
  using find_path_unique [of t] by (auto simp: ft_map_def find_Some_iff) (metis find_path_unique nth_mem)+

lemma ft_map_cong:
  assumes "tree_ok t" "tree_ok u" "\<And>p c. (\<exists>m\<in>set t. ft_path m = p \<and> ft_cookie m = c) \<longleftrightarrow>
    (\<exists>m\<in>set u. ft_path m = p \<and> ft_cookie m = c)"
  shows "ft_map t = ft_map u"
proof
  fix p
  show "ft_map t p = ft_map u p"
    using assms(3) [of p] ft_map_Some [OF assms(1), of p] ft_map_Some [OF assms(2), of p]
    by (metis not_None_eq)
qed

lemma hashcmp_cookie [simp]:
  "hashcmp (m\<lparr>ft_cookie := c\<rparr>) n = hashcmp m n" "hashcmp m (n\<lparr>ft_cookie := c\<rparr>) = hashcmp m n"
  "hashed (m\<lparr>ft_cookie := c\<rparr>) = hashed m"
  by (simp_all add: hashcmp_def hashed_def)

lemma tree_ok_zero:
  "tree_ok t \<Longrightarrow> tree_ok (map (\<lambda>m. if ft_path m = p then m\<lparr>ft_cookie := 0\<rparr> else m) t)"
  by (induction t) (auto simp: tree_ok_Cons)

lemma tree_ok_filter: "tree_ok t \<Longrightarrow> tree_ok (filter P t)"
  by (auto simp: tree_ok_def list_all_iff intro: sorted_wrt_filter)

text \<open>What inserting a path means: a new path is entered, a known one keeps its cookie unless the
  new cookie is zero.\<close>

definition map_insert :: "string \<Rightarrow> cookie \<Rightarrow> (string \<rightharpoonup> cookie) \<Rightarrow> (string \<rightharpoonup> cookie)" where
  "map_insert p ck m = (case m p of None \<Rightarrow> m(p \<mapsto> ck) | Some _ \<Rightarrow> if ck = 0 then m(p \<mapsto> 0) else m)"

lemma ft_map_new:
  assumes "tree_ok t" "tree_ok t'" "set t' = insert n (set t)" "ft_map t (ft_path n) = None"
  shows "ft_map t' = (ft_map t)(ft_path n \<mapsto> ft_cookie n)"
proof
  fix q
  have "ft_map t' (ft_path n) = Some (ft_cookie n)"
    using ft_map_Some [OF assms(2), of "ft_path n" "ft_cookie n"] assms(3) by simp
  moreover have "ft_map t' q = Some c \<longleftrightarrow> ft_map t q = Some c" if "q \<noteq> ft_path n" for c
    unfolding ft_map_Some [OF assms(1)] ft_map_Some [OF assms(2)] assms(3) using that by simp
  ultimately show "ft_map t' q = ((ft_map t)(ft_path n \<mapsto> ft_cookie n)) q"
    by (cases "ft_map t q"; cases "ft_map t' q") (simp_all, fastforce+)
qed

lemma ft_map_zero:
  assumes "ft_map t p \<noteq> None"
  shows "ft_map (map (\<lambda>m. if ft_path m = p then m\<lparr>ft_cookie := 0\<rparr> else m) t) = (ft_map t)(p \<mapsto> 0)"
proof
  fix q
  have eq: "find (\<lambda>m. ft_path m = q) (map (\<lambda>m. if ft_path m = p then m\<lparr>ft_cookie := 0\<rparr> else m) t) =
      map_option (\<lambda>m. if q = p then m\<lparr>ft_cookie := 0\<rparr> else m) (find (\<lambda>m. ft_path m = q) t)"
    by (induction t) auto
  show "ft_map (map (\<lambda>m. if ft_path m = p then m\<lparr>ft_cookie := 0\<rparr> else m) t) q = ((ft_map t)(p \<mapsto> 0)) q"
    unfolding ft_map_def eq using assms by (cases "q = p") (auto simp: ft_map_def option.map_comp o_def)
qed

lemma insert_refines:
  assumes "tree_ok t"
  shows "\<exists>t'. pe_filetree_insert (Some t) (Some p) ck =
      ((if ft_map t p = None then Inr () else Inl EINVAL), Some t') \<and>
    tree_ok t' \<and> ft_map t' = map_insert p ck (ft_map t)"
proof -
  let ?n = "ft_node p ck"
  obtain other t1 where r: "rb_insert ?n t = (other, t1)" by (cases "rb_insert ?n t")
  from rb_insert_result [OF assms, of ?n] r
  have other: "other = find (\<lambda>m. ft_path m = p) t" and ok: "tree_ok t1"
    and st: "set t1 = (case other of Some _ \<Rightarrow> set t | None \<Rightarrow> insert ?n (set t))" by auto
  show ?thesis
  proof (cases other)
    case None
    then have no: "ft_map t p = None" using other by (simp add: ft_map_def)
    have "ft_map t1 = (ft_map t)(p \<mapsto> ck)"
      using ft_map_new [OF assms ok, of ?n] st None no by simp
    moreover have "pe_filetree_insert (Some t) (Some p) ck = (Inr (), Some t1)"
      using r None by (simp add: pe_filetree_insert_def)
    ultimately show ?thesis
      using ok no by (intro exI [of _ t1]) (simp add: map_insert_def)
  next
    case (Some m)
    let ?t = "if ck = 0 then map (\<lambda>m. if ft_path m = p then m\<lparr>ft_cookie := 0\<rparr> else m) t1 else t1"
    have "ft_path m = p" using Some other by (auto simp: find_Some_iff)
    then have "pe_filetree_insert (Some t) (Some p) ck = (Inl EINVAL, Some ?t)"
      using r Some by (simp add: pe_filetree_insert_def)
    moreover have e: "ft_map t1 = ft_map t" using st Some by (intro ft_map_cong [OF ok assms]) simp
    moreover have y: "ft_map t p = Some (ft_cookie m)" using Some other [symmetric] by (simp add: ft_map_def)
    moreover have "ck = 0 \<Longrightarrow> ft_map ?t = (ft_map t1)(p \<mapsto> 0)" using ft_map_zero [of t1 p] e y by simp
    ultimately show ?thesis
      using ok tree_ok_zero [OF ok, of p] by (intro exI [of _ ?t]) (simp add: map_insert_def)
  qed
qed

lemma find_refines:
  assumes "tree_ok t"
  shows "map_option ft_cookie (pe_filetree_find (Some t) (Some p)) = ft_map t p"
  using rb_find_eq [OF assms, of "ft_node p 0"] by (simp add: pe_filetree_find_def ft_map_def)

lemma remove_refines:
  assumes "tree_ok t"
  shows "pe_filetree_remove (Some t) p = Some (filter (\<lambda>m. ft_path m \<noteq> p) t) \<and>
    ft_map (filter (\<lambda>m. ft_path m \<noteq> p) t) = (ft_map t)(p := None)"
proof -
  have "find (\<lambda>m. ft_path m = q) (filter (\<lambda>m. ft_path m \<noteq> p) t) =
      (if q = p then None else find (\<lambda>m. ft_path m = q) t)" for q
    by (induction t) auto
  then show ?thesis by (auto simp: pe_filetree_remove_def ft_map_def fun_eq_iff)
qed

text \<open>
  The contract of the tree: a map that is looked up, extended and restricted. The clients (the
  upgrade handling) need no more than that.
\<close>

locale file_set =
  fixes contents :: "'t \<Rightarrow> string \<rightharpoonup> cookie"
    and ins :: "string \<Rightarrow> cookie \<Rightarrow> 't \<Rightarrow> 't"
    and del :: "string \<Rightarrow> 't \<Rightarrow> 't"
    and good :: "'t \<Rightarrow> bool"
  assumes ins_good: "good t \<Longrightarrow> good (ins p c t)"
    and ins_contents: "good t \<Longrightarrow> contents (ins p c t) = map_insert p c (contents t)"
    and del_good: "good t \<Longrightarrow> good (del p t)"
    and del_contents: "good t \<Longrightarrow> contents (del p t) = (contents t)(p := None)"
begin

lemma ins_dom: "good t \<Longrightarrow> dom (contents (ins p c t)) = insert p (dom (contents t))"
  by (auto simp: ins_contents map_insert_def split: option.splits if_splits)

lemma inserts_dom:
  "good t \<Longrightarrow> good (fold (\<lambda>(p, c). ins p c) pcs t) \<and>
    dom (contents (fold (\<lambda>(p, c). ins p c) pcs t)) = fst ` set pcs \<union> dom (contents t)"
proof (induction pcs arbitrary: t)
  case (Cons pc pcs)
  obtain p c where "pc = (p, c)" by (cases pc)
  with Cons ins_good [of t p c] ins_dom [of t p c] show ?case by auto
qed simp

text \<open>Once a path was inserted with a zero cookie it keeps it.\<close>

lemma ins_zero: "good t \<Longrightarrow> contents t p = Some 0 \<Longrightarrow> contents (ins q c t) p = Some 0"
  by (auto simp: ins_contents map_insert_def split: option.splits)

lemma inserts_zero:
  "good t \<Longrightarrow> contents t p = Some 0 \<or> (p, 0) \<in> set pcs \<Longrightarrow>
    contents (fold (\<lambda>(p, c). ins p c) pcs t) p = Some 0"
proof (induction pcs arbitrary: t)
  case (Cons pc pcs)
  obtain q c where pc: "pc = (q, c)" by (cases pc)
  have "contents (ins q c t) p = Some 0 \<or> (p, 0) \<in> set pcs"
    using Cons.prems pc ins_zero [of t p q c]
    by (auto simp: ins_contents map_insert_def split: option.splits)
  with Cons pc ins_good [of t q c] show ?case by simp
qed auto

end

definition ft_insert :: "string \<Rightarrow> cookie \<Rightarrow> pe_file_tree \<Rightarrow> pe_file_tree" where
  "ft_insert p c t = the (snd (pe_filetree_insert (Some t) (Some p) c))"

definition ft_remove :: "string \<Rightarrow> pe_file_tree \<Rightarrow> pe_file_tree" where
  "ft_remove p t = the (pe_filetree_remove (Some t) p)"

interpretation tree: file_set ft_map ft_insert ft_remove tree_ok
proof
  fix t p c
  assume ok: "tree_ok t"
  from insert_refines [OF ok, of p c]
  show "tree_ok (ft_insert p c t)" and "ft_map (ft_insert p c t) = map_insert p c (ft_map t)"
    by (auto simp: ft_insert_def)
  from remove_refines [OF ok, of p] tree_ok_filter [OF ok]
  show "tree_ok (ft_remove p t)" and "ft_map (ft_remove p t) = (ft_map t)(p := None)"
    by (auto simp: ft_remove_def)
qed

subsection \<open>Iteration\<close>

lemma rb_next_split:
  assumes "distinct (map ft_path (xs @ n # ys))"
  shows "rb_next (xs @ n # ys) (ft_path n) = (case ys of [] \<Rightarrow> None | m # _ \<Rightarrow> Some m)"
  using assms by (induction xs) auto

text \<open>The nodes visited from a node on, with at most \<open>k\<close> steps.\<close>

fun visit :: "nat \<Rightarrow> pe_file_tree option \<Rightarrow> pe_filetree_node option \<Rightarrow> pe_filetree_node list" where
  "visit 0 f it = []"
| "visit (Suc k) f it = (case it of None \<Rightarrow> [] | Some n \<Rightarrow> n # visit k f (pe_filetree_next f it))"

lemma visit_suffix:
  assumes "distinct (map ft_path (xs @ ys))" and "length ys \<le> k"
  shows "visit k (Some (xs @ ys)) (case ys of [] \<Rightarrow> None | m # _ \<Rightarrow> Some m) = ys"
  using assms
proof (induction ys arbitrary: xs k)
  case Nil
  then show ?case by (cases k) auto
next
  case (Cons y ys)
  then obtain j where k: "k = Suc j" by (cases k) auto
  from Cons.IH [of "xs @ [y]" j] Cons.prems k rb_next_split [of xs y ys]
  show ?case by (simp add: pe_filetree_next_def)
qed

subsection \<open>Properties\<close>

text \<open>
  C33. The comparison function of the file tree is a total order on nodes with the hash of their
  path: it is antisymmetric and transitive, the truncation of the index difference to \<^verbatim>\<open>int\<close>
  included, and yields zero exactly for equal paths.
\<close>

theorem hashcmp_total_order:
  assumes "hashed l" and "hashed m" and "hashed n"
  shows "(hashcmp l m = 0 \<longleftrightarrow> ft_path l = ft_path m) \<and> (hashcmp l m < 0 \<longleftrightarrow> hashcmp m l > 0) \<and>
    (hashcmp l m < 0 \<and> hashcmp m n < 0 \<longrightarrow> hashcmp l n < 0)"
  using assms hashcmp_0_iff hashcmp_neg hashcmp_trans by blast

theorem hashcmp_total_order_witness:
  "hashcmp (ft_node ''/a'' 1) (ft_node ''/b'' 2) < 0 \<longleftrightarrow> hashcmp (ft_node ''/b'' 2) (ft_node ''/a'' 1) > 0"
  using hashcmp_total_order [of "ft_node ''/a'' 1" "ft_node ''/b'' 2" "ft_node ''/a'' 1"] by simp



text \<open>
  Iterating with \<^verbatim>\<open>pe_filetree_start\<close> and \<^verbatim>\<open>pe_filetree_next\<close> ends and visits every node of
  the tree exactly once, in the order of the tree.
\<close>

theorem filetree_iteration:
  assumes "tree_ok t" and "length t \<le> k"
  shows "visit k (Some t) (pe_filetree_start (Some t)) = t \<and> distinct (map ft_path t)"
  using visit_suffix [of "[]" t k] tree_ok_distinct [OF assms(1)] assms(2)
  by (simp add: pe_filetree_start_def)

theorem filetree_iteration_witness:
  "visit 5 (Some [ft_node ''/a'' 1]) (pe_filetree_start (Some [ft_node ''/a'' 1])) = [ft_node ''/a'' 1]"
  using filetree_iteration [of "[ft_node ''/a'' 1]" 5] by (simp add: tree_ok_def)

end
