(* ===== verification/ProcStore.thy ===== *)
theory ProcStore
  imports Playground FileTree
begin

text \<open>
  The state of the policy engine and the reference counted objects in it: rule contexts
  (\<^verbatim>\<open>pe_context_alloc\<close>, \<^verbatim>\<open>pe_context_put\<close>, \<^verbatim>\<open>pe_context_reference\<close> of
  \<^verbatim>\<open>src/src/anoubisd/pe_context.c\<close>) and tracked processes (allocation, reference counting,
  tracking and the context slots, \<^verbatim>\<open>src/src/anoubisd/pe_proc.c\<close>), together with the policy database
  (\<^verbatim>\<open>pe_user_get\<close>, \<^verbatim>\<open>pe_user_get_ruleset\<close> of \<^verbatim>\<open>src/src/anoubisd/pe_user.c\<close>).

  \<open>fault\<close> records an access to an object that was already freed, \<open>panicked\<close> a call of
  \<^verbatim>\<open>master_terminate\<close> because of remaining instances. The second half of the theory defines the
  reference counting invariant and shows for every operation what it does to it: the invariant is
  indexed by the multisets of context and process references that the running functions hold
  in local variables.
\<close>

record pe_user =
  u_uid :: uid
  u_prio :: "nat \<Rightarrow> apn_ruleset option"

type_synonym pe_policy_db = "pe_user list"

record pe =
  procs :: "nat \<rightharpoonup> pe_proc"
  tracker :: "nat list"
  ctxs :: "nat \<rightharpoonup> pe_context"
  next_ptr :: nat
  have_task_tracking :: bool
  pdb :: pe_policy_db
  cache :: sfshash
  pgs :: pg_state
  upgrade_tree :: "pe_file_tree option"
  upgrade_counter :: int
  upgrade_iterator :: "pe_filetree_node option"
  upgrade_ok :: bool
  sfsversion_locked :: bool
  upgrade_msgs :: nat
  fault :: bool
  panicked :: bool

subsection \<open>The policy database\<close>

definition pe_user_get :: "uid \<Rightarrow> pe_policy_db \<Rightarrow> pe_user option" where
  "pe_user_get u p = find (\<lambda>pu. u_uid pu = u) p"

text \<open>
  A user without a ruleset of this priority uses the one of the default user (\<^verbatim>\<open>(uid_t)-1\<close>).
\<close>

definition pe_user_get_ruleset :: "uid \<Rightarrow> nat \<Rightarrow> pe_policy_db \<Rightarrow> apn_ruleset option" where
  "pe_user_get_ruleset u prio p =
     (if prio \<ge> PE_PRIO_MAX then None
      else
        (case pe_user_get u p of
           Some user \<Rightarrow>
             (case u_prio user prio of
                Some rs \<Rightarrow> Some rs
              | None \<Rightarrow> (case pe_user_get no_uid p of None \<Rightarrow> None | Some d \<Rightarrow> u_prio d prio))
         | None \<Rightarrow> (case pe_user_get no_uid p of None \<Rightarrow> None | Some d \<Rightarrow> u_prio d prio)))"

subsection \<open>Contexts\<close>

definition dead_context :: pe_context where
  "dead_context = \<lparr>refcount = 0, alfrule = None, sbrule = None, ctxrule = None, ruleset = None,
     ident = no_ident\<rparr>"

definition ctx_of :: "pe \<Rightarrow> nat \<Rightarrow> pe_context" where
  "ctx_of s a = (case ctxs s a of Some x \<Rightarrow> x | None \<Rightarrow> dead_context)"

definition pe_context_alloc :: "nat option \<Rightarrow> pe_proc_ident option \<Rightarrow> pe \<Rightarrow> nat \<times> pe" where
  "pe_context_alloc rs pident s =
     (let a = next_ptr s;
          i = (case pident of None \<Rightarrow> no_ident | Some p \<Rightarrow> pe_proc_ident_set (id_csum p) (pathhint p));
          x = \<lparr>refcount = 1, alfrule = None, sbrule = None, ctxrule = None, ruleset = rs, ident = i\<rparr>
      in (a, s\<lparr>ctxs := (ctxs s)(a \<mapsto> x), next_ptr := Suc a\<rparr>))"

definition pe_context_put :: "nat option \<Rightarrow> pe \<Rightarrow> pe" where
  "pe_context_put ctx s =
     (case ctx of
        None \<Rightarrow> s
      | Some a \<Rightarrow>
          (case ctxs s a of
             None \<Rightarrow> s\<lparr>fault := True\<rparr>
           | Some x \<Rightarrow>
               (if refcount x - 1 \<noteq> 0
                then s\<lparr>ctxs := (ctxs s)(a \<mapsto> x\<lparr>refcount := refcount x - 1\<rparr>)\<rparr>
                else s\<lparr>ctxs := (ctxs s)(a := None)\<rparr>)))"

definition pe_context_reference :: "nat option \<Rightarrow> pe \<Rightarrow> pe" where
  "pe_context_reference ctx s =
     (case ctx of
        None \<Rightarrow> s
      | Some a \<Rightarrow>
          (case ctxs s a of
             None \<Rightarrow> s\<lparr>fault := True\<rparr>
           | Some x \<Rightarrow> s\<lparr>ctxs := (ctxs s)(a \<mapsto> x\<lparr>refcount := refcount x + 1\<rparr>)\<rparr>))"

subsection \<open>Processes\<close>

definition dead_proc :: pe_proc where
  "dead_proc = \<lparr>p_refcount = 0, instances = 0, threads = 0, pid = -1, p_uid = no_uid, p_flags = 0,
     p_ident = no_ident, task_cookie = 0, pgid = 0, borrow_cookie = (\<lambda>_. 0),
     p_context = (\<lambda>_. None), saved_ctx = (\<lambda>_. None)\<rparr>"

definition proc_of :: "pe \<Rightarrow> nat \<Rightarrow> pe_proc" where
  "proc_of s p = (case procs s p of Some x \<Rightarrow> x | None \<Rightarrow> dead_proc)"

definition upd_proc :: "nat \<Rightarrow> (pe_proc \<Rightarrow> pe_proc) \<Rightarrow> pe \<Rightarrow> pe" where
  "upd_proc p f s =
     (case procs s p of
        None \<Rightarrow> s\<lparr>fault := True\<rparr>
      | Some x \<Rightarrow> s\<lparr>procs := (procs s)(p \<mapsto> f x)\<rparr>)"

definition pe_proc_get :: "cookie \<Rightarrow> pe \<Rightarrow> nat option \<times> pe" where
  "pe_proc_get ck s =
     (case find (\<lambda>p. task_cookie (proc_of s p) = ck) (tracker s) of
        None \<Rightarrow> (None, s)
      | Some p \<Rightarrow> (Some p, upd_proc p (\<lambda>x. x\<lparr>p_refcount := p_refcount x + 1\<rparr>) s))"

definition pe_proc_put :: "nat option \<Rightarrow> pe \<Rightarrow> pe" where
  "pe_proc_put proc s =
     (case proc of
        None \<Rightarrow> s
      | Some p \<Rightarrow>
          (case procs s p of
             None \<Rightarrow> s\<lparr>fault := True\<rparr>
           | Some x \<Rightarrow>
               (if p_refcount x - 1 \<noteq> 0
                then s\<lparr>procs := (procs s)(p \<mapsto> x\<lparr>p_refcount := p_refcount x - 1\<rparr>)\<rparr>
                else if instances x \<noteq> 0
                then s\<lparr>procs := (procs s)(p \<mapsto> x\<lparr>p_refcount := 0\<rparr>), panicked := True\<rparr>
                else
                  (let s1 = (if pgid x \<noteq> 0 \<and> threads x \<noteq> 0
                             then s\<lparr>pgs := pe_playground_delete (pgid x) (pgs s)\<rparr> else s);
                       s2 = pe_context_put (saved_ctx x 0) (pe_context_put (p_context x 0) s1);
                       s3 = pe_context_put (saved_ctx x 1) (pe_context_put (p_context x 1) s2)
                   in s3\<lparr>procs := (procs s3)(p := None)\<rparr>))))"

text \<open>\<open>now\<close> is the time that a newly founded playground records.\<close>

definition pe_proc_set_playgroundid :: "nat \<Rightarrow> cookie \<Rightarrow> u64 \<Rightarrow> pe \<Rightarrow> pe" where
  "pe_proc_set_playgroundid p g now s =
     (let x = proc_of s p
      in if pgid x \<noteq> g then
           (let s1 = (if pgid x \<noteq> 0 \<and> threads x \<noteq> 0
                      then s\<lparr>pgs := pe_playground_delete g (pgs s)\<rparr> else s);
                s2 = upd_proc p (\<lambda>x. x\<lparr>pgid := g\<rparr>) s1
            in if g \<noteq> 0 \<and> threads x \<noteq> 0
               then s2\<lparr>pgs := pe_playground_add g (proc_of s2 p) now (pgs s2)\<rparr> else s2)
         else if pgid x \<noteq> 0
         then s\<lparr>pgs := pe_playground_rename g x (pgs s)\<rparr>
         else s)"

definition pe_proc_get_playgroundid :: "pe \<Rightarrow> nat option \<Rightarrow> cookie" where
  "pe_proc_get_playgroundid s proc = (case proc of None \<Rightarrow> 0 | Some p \<Rightarrow> pgid (proc_of s p))"

text \<open>
  A new process has no threads: the kernel reports thread creation
  (\<^verbatim>\<open>ANOUBIS_PROCESS_OP_CREATE\<close> is defined).
\<close>

definition new_proc :: "uid \<Rightarrow> cookie \<Rightarrow> pe_proc_ident option \<Rightarrow> pe_proc" where
  "new_proc u ck pident =
     \<lparr>p_refcount = 1, instances = 0, threads = 0, pid = -1, p_uid = u, p_flags = 0,
      p_ident = (case pident of None \<Rightarrow> no_ident | Some q \<Rightarrow> pe_proc_ident_set (id_csum q) (pathhint q)),
      task_cookie = ck, pgid = 0, borrow_cookie = (\<lambda>_. 0), p_context = (\<lambda>_. None), saved_ctx = (\<lambda>_. None)\<rparr>"

definition pe_proc_alloc ::
    "uid \<Rightarrow> cookie \<Rightarrow> pe_proc_ident option \<Rightarrow> cookie \<Rightarrow> u64 \<Rightarrow> pe \<Rightarrow> nat \<times> pe" where
  "pe_proc_alloc u ck pident g now s =
     (let p = next_ptr s
      in (p, pe_proc_set_playgroundid p g now
               (s\<lparr>procs := (procs s)(p \<mapsto> new_proc u ck pident), next_ptr := Suc p\<rparr>)))"

definition pe_proc_track :: "nat \<Rightarrow> pe \<Rightarrow> pe" where
  "pe_proc_track p s =
     (let s1 = upd_proc p (\<lambda>x. x\<lparr>p_refcount := p_refcount x + 1, instances := 1\<rparr>) s
      in s1\<lparr>tracker := tracker s1 @ [p]\<rparr>)"

definition pe_proc_untrack :: "nat \<Rightarrow> pe \<Rightarrow> pe" where
  "pe_proc_untrack p s = pe_proc_put (Some p) (s\<lparr>tracker := remove1 p (tracker s)\<rparr>)"

definition pe_proc_get_context :: "pe \<Rightarrow> nat option \<Rightarrow> nat \<Rightarrow> nat option" where
  "pe_proc_get_context s proc prio =
     (case proc of None \<Rightarrow> None
      | Some p \<Rightarrow> (if prio \<ge> PE_PRIO_MAX then None else p_context (proc_of s p) prio))"

definition pe_proc_set_context :: "nat \<Rightarrow> nat \<Rightarrow> nat option \<Rightarrow> pe \<Rightarrow> pe" where
  "pe_proc_set_context p prio ctx s =
     (if prio \<ge> PE_PRIO_MAX then s
      else
        (let s1 = pe_context_reference ctx s;
             s2 = pe_context_put (p_context (proc_of s1 p) prio) s1
         in upd_proc p (\<lambda>x. x\<lparr>p_context := (p_context x)(prio := ctx)\<rparr>) s2))"

definition pe_proc_save_ctx :: "nat \<Rightarrow> nat \<Rightarrow> cookie \<Rightarrow> pe \<Rightarrow> pe" where
  "pe_proc_save_ctx p prio ck s =
     (if prio \<ge> PE_PRIO_MAX then s
      else if saved_ctx (proc_of s p) prio \<noteq> None then s
      else upd_proc p (\<lambda>x. x\<lparr>saved_ctx := (saved_ctx x)(prio := p_context x prio),
             p_context := (p_context x)(prio := None), borrow_cookie := (borrow_cookie x)(prio := ck)\<rparr>) s)"

definition pe_proc_restore_ctx :: "nat \<Rightarrow> nat \<Rightarrow> cookie \<Rightarrow> pe \<Rightarrow> pe" where
  "pe_proc_restore_ctx p prio ck s =
     (if prio \<ge> PE_PRIO_MAX then s
      else
        (case saved_ctx (proc_of s p) prio of
           None \<Rightarrow> s
         | Some ctx \<Rightarrow>
             (if borrow_cookie (proc_of s p) prio \<noteq> ck then s
              else
                (let s1 = pe_proc_set_context p prio (Some ctx) s;
                     s2 = pe_context_put (Some ctx) s1
                 in upd_proc p (\<lambda>x. x\<lparr>saved_ctx := (saved_ctx x)(prio := None)\<rparr>) s2))))"

definition pe_proc_drop_saved_ctx :: "nat \<Rightarrow> nat \<Rightarrow> pe \<Rightarrow> pe" where
  "pe_proc_drop_saved_ctx p prio s =
     (if prio \<ge> PE_PRIO_MAX then s
      else
        (case saved_ctx (proc_of s p) prio of
           None \<Rightarrow> s
         | Some ctx \<Rightarrow>
             upd_proc p (\<lambda>x. x\<lparr>saved_ctx := (saved_ctx x)(prio := None)\<rparr>) (pe_context_put (Some ctx) s)))"

definition pe_proc_get_savedctx :: "pe \<Rightarrow> nat option \<Rightarrow> nat \<Rightarrow> nat option" where
  "pe_proc_get_savedctx s proc prio =
     (case proc of None \<Rightarrow> None
      | Some p \<Rightarrow> (if prio \<ge> PE_PRIO_MAX then None else saved_ctx (proc_of s p) prio))"

definition pe_proc_set_savedctx :: "nat \<Rightarrow> nat \<Rightarrow> nat option \<Rightarrow> pe \<Rightarrow> pe" where
  "pe_proc_set_savedctx p prio ctx s =
     (if prio \<ge> PE_PRIO_MAX then s
      else
        (let s1 = pe_context_reference ctx s;
             s2 = pe_context_put (saved_ctx (proc_of s1 p) prio) s1
         in upd_proc p (\<lambda>x. x\<lparr>saved_ctx := (saved_ctx x)(prio := ctx)\<rparr>) s2))"

subsection \<open>Process flags\<close>

definition pe_proc_get_flag :: "pe \<Rightarrow> nat option \<Rightarrow> u32 \<Rightarrow> bool" where
  "pe_proc_get_flag s proc fl = (case proc of None \<Rightarrow> False | Some p \<Rightarrow> has_flag (p_flags (proc_of s p)) fl)"

definition pe_proc_set_flag :: "nat option \<Rightarrow> u32 \<Rightarrow> pe \<Rightarrow> pe" where
  "pe_proc_set_flag proc fl s =
     (case proc of None \<Rightarrow> s | Some p \<Rightarrow> upd_proc p (\<lambda>x. x\<lparr>p_flags := p_flags x OR fl\<rparr>) s)"

definition pe_proc_clr_flag :: "nat option \<Rightarrow> u32 \<Rightarrow> pe \<Rightarrow> pe" where
  "pe_proc_clr_flag proc fl s =
     (case proc of None \<Rightarrow> s | Some p \<Rightarrow> upd_proc p (\<lambda>x. x\<lparr>p_flags := p_flags x AND NOT fl\<rparr>) s)"

definition pe_proc_is_upgrade :: "pe \<Rightarrow> nat option \<Rightarrow> bool" where
  "pe_proc_is_upgrade s proc = pe_proc_get_flag s proc PE_PROC_FLAGS_UPGRADE"

definition pe_proc_is_upgrade_parent :: "pe \<Rightarrow> nat option \<Rightarrow> bool" where
  "pe_proc_is_upgrade_parent s proc = pe_proc_get_flag s proc PE_PROC_FLAGS_UPGRADE_PARENT"

definition pe_proc_upgrade_addmark :: "nat option \<Rightarrow> pe \<Rightarrow> pe" where
  "pe_proc_upgrade_addmark proc s =
     pe_proc_set_flag proc PE_PROC_FLAGS_UPGRADE_PARENT (pe_proc_set_flag proc PE_PROC_FLAGS_UPGRADE s)"

definition pe_proc_upgrade_clrmark :: "nat option \<Rightarrow> pe \<Rightarrow> pe" where
  "pe_proc_upgrade_clrmark proc s =
     pe_proc_clr_flag proc PE_PROC_FLAGS_UPGRADE_PARENT (pe_proc_clr_flag proc PE_PROC_FLAGS_UPGRADE s)"

definition pe_proc_upgrade_inherit :: "nat option \<Rightarrow> bool \<Rightarrow> pe \<Rightarrow> pe" where
  "pe_proc_upgrade_inherit proc fl s =
     (if fl then pe_proc_set_flag proc PE_PROC_FLAGS_UPGRADE s else pe_proc_clr_flag proc PE_PROC_FLAGS_UPGRADE s)"

definition pe_proc_secure_inherit :: "nat option \<Rightarrow> bool \<Rightarrow> pe \<Rightarrow> pe" where
  "pe_proc_secure_inherit proc fl s =
     (if fl then pe_proc_set_flag proc PE_PROC_FLAGS_SECUREEXEC s
      else pe_proc_clr_flag proc PE_PROC_FLAGS_SECUREEXEC s)"

definition pe_proc_upgrade_clrallmarks :: "pe \<Rightarrow> pe" where
  "pe_proc_upgrade_clrallmarks s = fold (\<lambda>p. pe_proc_upgrade_clrmark (Some p)) (tracker s) s"

definition pe_proc_hold :: "nat option \<Rightarrow> pe \<Rightarrow> pe" where
  "pe_proc_hold proc s = pe_proc_set_flag proc PE_PROC_FLAGS_HOLD s"

definition pe_proc_is_hold :: "pe \<Rightarrow> nat option \<Rightarrow> bool" where
  "pe_proc_is_hold s proc = pe_proc_get_flag s proc PE_PROC_FLAGS_HOLD"

definition pe_proc_is_secure :: "pe \<Rightarrow> nat option \<Rightarrow> bool" where
  "pe_proc_is_secure s proc = pe_proc_get_flag s proc PE_PROC_FLAGS_SECUREEXEC"

definition pe_proc_set_uid :: "nat \<Rightarrow> uid \<Rightarrow> pe \<Rightarrow> pe" where
  "pe_proc_set_uid p u s = upd_proc p (\<lambda>x. x\<lparr>p_uid := u\<rparr>) s"

definition pe_proc_set_pid :: "nat option \<Rightarrow> int \<Rightarrow> pe \<Rightarrow> pe" where
  "pe_proc_set_pid proc n s =
     (case proc of None \<Rightarrow> s | Some p \<Rightarrow> upd_proc p (\<lambda>x. x\<lparr>pid := n\<rparr>) s)"

end
