(* ===== verification/RefCount.thy ===== *)
theory RefCount
  imports ProcStore
begin

text \<open>
  Reference counting of contexts and processes: the invariant and what each primitive operation
  of \<open>ProcStore\<close> does to it.

  \<open>pe_inv s E F\<close>: the reference count of every live context is the number of process slots that
  point to it plus the number of references in \<open>E\<close>, the count of every live process is its
  occurrences in the tracker plus those in \<open>F\<close>; no count is zero, nothing refers to a freed
  object, a process is tracked iff it has instances, and neither \<open>fault\<close> nor \<open>panicked\<close> is set.
  \<open>E\<close> and \<open>F\<close> are the references that running functions hold; between two events both are empty.
\<close>

definition opt_ms :: "'a option \<Rightarrow> 'a multiset" where
  "opt_ms x = (case x of None \<Rightarrow> {#} | Some a \<Rightarrow> {#a#})"

lemma opt_ms_simps [simp]: "opt_ms None = {#}" "opt_ms (Some a) = {#a#}"
  by (simp_all add: opt_ms_def)

definition held :: "pe_proc \<Rightarrow> nat multiset" where
  "held x = opt_ms (p_context x 0) + opt_ms (saved_ctx x 0) + opt_ms (p_context x 1) + opt_ms (saved_ctx x 1)"

definition refs :: "(nat \<rightharpoonup> pe_proc) \<Rightarrow> nat multiset" where
  "refs m = (\<Sum>p\<in>dom m. held (the (m p)))"

text \<open>What the invariant says of one address: \<open>n\<close> references, below the allocation limit \<open>lim\<close>.\<close>

fun ctx_cell :: "pe_context option \<Rightarrow> nat \<Rightarrow> nat \<Rightarrow> nat \<Rightarrow> bool" where
  "ctx_cell None lim n a \<longleftrightarrow> n = 0"
| "ctx_cell (Some x) lim n a \<longleftrightarrow> refcount x = int n \<and> n > 0 \<and> a < lim"

fun proc_cell :: "pe_proc option \<Rightarrow> nat \<Rightarrow> nat \<Rightarrow> bool \<Rightarrow> nat \<Rightarrow> bool" where
  "proc_cell None lim n t p \<longleftrightarrow> n = 0 \<and> \<not> t"
| "proc_cell (Some x) lim n t p \<longleftrightarrow> p_refcount x = int n \<and> n > 0 \<and> p < lim \<and>
     (if t then instances x \<ge> 1 else instances x = 0)"

definition ctx_ok :: "(nat \<rightharpoonup> pe_context) \<Rightarrow> nat \<Rightarrow> nat multiset \<Rightarrow> bool" where
  "ctx_ok cs lim R \<longleftrightarrow> (\<forall>c. ctx_cell (cs c) lim (count R c) c)"

definition proc_ok :: "(nat \<rightharpoonup> pe_proc) \<Rightarrow> nat \<Rightarrow> nat list \<Rightarrow> nat multiset \<Rightarrow> bool" where
  "proc_ok ps lim tr F \<longleftrightarrow> distinct tr \<and>
     (\<forall>p. proc_cell (ps p) lim (count (mset tr + F) p) (p \<in> set tr) p)"

definition pe_inv :: "pe \<Rightarrow> nat multiset \<Rightarrow> nat multiset \<Rightarrow> bool" where
  "pe_inv s E F \<longleftrightarrow> finite (dom (procs s)) \<and> ctx_ok (ctxs s) (next_ptr s) (refs (procs s) + E) \<and>
     proc_ok (procs s) (next_ptr s) (tracker s) F \<and> \<not> fault s \<and> \<not> panicked s"

lemma pe_inv_cong:
  assumes "pe_inv s E F" "procs s' = procs s" "ctxs s' = ctxs s" "next_ptr s' = next_ptr s"
    "tracker s' = tracker s" "fault s' = fault s" "panicked s' = panicked s"
  shows "pe_inv s' E F"
  using assms by (simp add: pe_inv_def)

subsection \<open>Sums of references\<close>

lemma refs_upd:
  assumes "finite (dom m)" and "m p = Some x"
  shows "refs (m(p \<mapsto> y)) + held x = refs m + held y"
proof -
  have p: "p \<in> dom m" using assms(2) by auto
  have "(\<Sum>q\<in>dom m - {p}. held (the ((m(p \<mapsto> y)) q))) = (\<Sum>q\<in>dom m - {p}. held (the (m q)))"
    by (intro sum.cong) auto
  moreover have "dom (m(p \<mapsto> y)) = dom m" using p by auto
  ultimately show ?thesis
    using sum.remove [OF assms(1) p, of "\<lambda>q. held (the (m q))"]
      sum.remove [OF assms(1) p, of "\<lambda>q. held (the ((m(p \<mapsto> y)) q))"] assms(2)
    by (simp add: refs_def ac_simps)
qed

lemma refs_new:
  assumes "finite (dom m)" and "m p = None"
  shows "refs (m(p \<mapsto> y)) = refs m + held y"
proof -
  have "(\<Sum>q\<in>dom m. held (the ((m(p \<mapsto> y)) q))) = (\<Sum>q\<in>dom m. held (the (m q)))"
    using assms(2) by (intro sum.cong) auto
  moreover have "p \<notin> dom m" using assms(2) by auto
  ultimately show ?thesis using assms(1) by (simp add: refs_def ac_simps)
qed

lemma refs_del:
  assumes "finite (dom m)" and "m p = Some x"
  shows "refs (m(p := None)) + held x = refs m"
proof -
  have e: "m = (m(p := None))(p \<mapsto> x)" using assms(2) by auto
  have "refs ((m(p := None))(p \<mapsto> x)) = refs (m(p := None)) + held x"
    using assms(1) by (intro refs_new) auto
  with e show ?thesis by metis
qed

lemma held_in_refs: "finite (dom m) \<Longrightarrow> m p = Some x \<Longrightarrow> held x \<subseteq># refs m"
  using refs_del [of m p x] by (metis mset_subset_eq_add_right)

subsection \<open>Contexts\<close>

lemma ctx_ok_cell: "ctx_ok cs lim R \<Longrightarrow> ctx_cell (cs c) lim (count R c) c"
  by (simp add: ctx_ok_def)

lemma ctx_cell_mono: "ctx_cell x lim n c \<Longrightarrow> lim \<le> lim' \<Longrightarrow> ctx_cell x lim' n c"
  by (cases x) auto

lemma ctx_ok_upd:
  assumes "ctx_ok cs lim R" and "\<And>d. d \<noteq> c \<Longrightarrow> count R' d = count R d"
    and "ctx_cell x lim' (count R' c) c" and "lim \<le> lim'"
  shows "ctx_ok (cs(c := x)) lim' R'"
  unfolding ctx_ok_def
proof
  fix d
  show "ctx_cell ((cs(c := x)) d) lim' (count R' d) d"
    using assms(2-4) ctx_cell_mono [OF ctx_ok_cell [OF assms(1)], of lim' d] by (cases "d = c") auto
qed

lemma ctx_ok_live: "ctx_ok cs lim R \<Longrightarrow> c \<in># R \<Longrightarrow> \<exists>x. cs c = Some x"
  using ctx_ok_cell [of cs lim R c] by (cases "cs c") (simp_all add: count_inI, metis not_in_iff)

lemma ctx_ok_put:
  assumes "ctx_ok cs lim (add_mset a R)"
  obtains x where "cs a = Some x"
    and "ctx_ok (if refcount x - 1 \<noteq> 0 then cs(a \<mapsto> x\<lparr>refcount := refcount x - 1\<rparr>) else cs(a := None)) lim R"
proof -
  obtain x where x: "cs a = Some x" using ctx_ok_live [OF assms, of a] by auto
  then have c: "refcount x = int (count R a) + 1" "a < lim"
    using ctx_ok_cell [OF assms, of a] by simp_all
  show ?thesis
  proof (rule that [OF x])
    show "ctx_ok (if refcount x - 1 \<noteq> 0 then cs(a \<mapsto> x\<lparr>refcount := refcount x - 1\<rparr>) else cs(a := None)) lim R"
      using c ctx_ok_upd [OF assms, of a R] by (cases "count R a") (simp_all add: not_in_iff)
  qed
qed

lemma pe_inv_ctx_put:
  assumes "pe_inv s (E + opt_ms c) F"
  shows "pe_inv (pe_context_put c s) E F"
proof (cases c)
  case (Some a)
  with assms have "ctx_ok (ctxs s) (next_ptr s) (add_mset a (refs (procs s) + E))"
    by (simp add: pe_inv_def)
  from ctx_ok_put [OF this] obtain x where x: "ctxs s a = Some x"
    "ctx_ok (if refcount x - 1 \<noteq> 0 then (ctxs s)(a \<mapsto> x\<lparr>refcount := refcount x - 1\<rparr>)
       else (ctxs s)(a := None)) (next_ptr s) (refs (procs s) + E)" .
  with assms Some show ?thesis by (auto simp: pe_context_put_def pe_inv_def split: if_splits)
qed (use assms in \<open>simp add: pe_context_put_def\<close>)

lemma pe_inv_ctx_ref:
  assumes "pe_inv s E F" and "\<And>a. c = Some a \<Longrightarrow> ctxs s a \<noteq> None"
  shows "pe_inv (pe_context_reference c s) (E + opt_ms c) F"
proof (cases c)
  case (Some a)
  with assms(2) obtain x where x: "ctxs s a = Some x" by auto
  have "ctx_ok ((ctxs s)(a \<mapsto> x\<lparr>refcount := refcount x + 1\<rparr>)) (next_ptr s) (add_mset a (refs (procs s) + E))"
    using assms(1) x ctx_ok_cell [of "ctxs s" "next_ptr s" "refs (procs s) + E" a]
    by (intro ctx_ok_upd [where R = "refs (procs s) + E"]) (auto simp: pe_inv_def)
  with assms(1) Some x show ?thesis by (simp add: pe_context_reference_def pe_inv_def)
qed (use assms in \<open>simp add: pe_context_reference_def\<close>)

lemma ctx_ok_fresh: "ctx_ok cs lim R \<Longrightarrow> lim \<le> c \<Longrightarrow> cs c = None \<and> count R c = 0"
  using ctx_ok_cell [of cs lim R c] by (cases "cs c") auto

lemma ctx_ok_mono: "ctx_ok cs lim R \<Longrightarrow> lim \<le> lim' \<Longrightarrow> ctx_ok cs lim' R"
  unfolding ctx_ok_def by (blast intro: ctx_cell_mono)

lemma ctx_ok_alloc:
  assumes "ctx_ok cs lim R" and "refcount x = 1"
  shows "ctx_ok (cs(lim \<mapsto> x)) (Suc lim) (add_mset lim R)"
  using assms ctx_ok_fresh [OF assms(1), of lim] by (intro ctx_ok_upd [OF assms(1)]) auto

lemma proc_ok_cell: "proc_ok ps lim tr F \<Longrightarrow> proc_cell (ps p) lim (count (mset tr + F) p) (p \<in> set tr) p"
  by (simp add: proc_ok_def)

lemma proc_cell_mono: "proc_cell x lim n t p \<Longrightarrow> lim \<le> lim' \<Longrightarrow> proc_cell x lim' n t p"
  by (cases x) auto

lemma proc_ok_upd:
  assumes "proc_ok ps lim tr F" and "distinct tr'"
    and "\<And>q. q \<noteq> p \<Longrightarrow> count (mset tr' + F') q = count (mset tr + F) q \<and> (q \<in> set tr' \<longleftrightarrow> q \<in> set tr)"
    and "proc_cell y lim' (count (mset tr' + F') p) (p \<in> set tr') p" and "lim \<le> lim'"
  shows "proc_ok (ps(p := y)) lim' tr' F'"
proof -
  have "proc_cell ((ps(p := y)) q) lim' (count (mset tr' + F') q) (q \<in> set tr') q" for q
    using assms(3-5) proc_cell_mono [OF proc_ok_cell [OF assms(1), of q], of lim'] by (cases "q = p") auto
  with assms(2) show ?thesis by (simp add: proc_ok_def)
qed

lemma proc_ok_distinct: "proc_ok ps lim tr F \<Longrightarrow> distinct tr"
  by (simp add: proc_ok_def)

lemma proc_ok_fresh: "proc_ok ps lim tr F \<Longrightarrow> lim \<le> p \<Longrightarrow> ps p = None \<and> p \<notin> set tr \<and> count F p = 0"
  using proc_ok_cell [of ps lim tr F p] by (cases "ps p") auto

lemma proc_ok_mono: "proc_ok ps lim tr F \<Longrightarrow> lim \<le> lim' \<Longrightarrow> proc_ok ps lim' tr F"
  unfolding proc_ok_def by (blast intro: proc_cell_mono)

lemma pe_inv_ctx_alloc:
  assumes "pe_inv s E F" and "pe_context_alloc rs i s = (a, s')"
  shows "pe_inv s' (add_mset a E) F" and "ctxs s' a \<noteq> None"
  using assms ctx_ok_alloc proc_ok_mono
  by (auto simp: pe_context_alloc_def Let_def pe_inv_def)

text \<open>Changing the rules of a context.\<close>

definition upd_ctx :: "nat \<Rightarrow> (pe_context \<Rightarrow> pe_context) \<Rightarrow> pe \<Rightarrow> pe" where
  "upd_ctx a f s =
     (case ctxs s a of
        None \<Rightarrow> s\<lparr>fault := True\<rparr>
      | Some x \<Rightarrow> s\<lparr>ctxs := (ctxs s)(a \<mapsto> f x)\<rparr>)"

lemma pe_inv_upd_ctx:
  assumes "pe_inv s E F" and "ctxs s a = Some x" and "refcount (f x) = refcount x"
  shows "pe_inv (upd_ctx a f s) E F"
  using assms ctx_ok_cell [of "ctxs s" "next_ptr s" "refs (procs s) + E" a]
  by (auto simp: upd_ctx_def pe_inv_def intro!: ctx_ok_upd [where R = "refs (procs s) + E"])

subsection \<open>Processes\<close>

lemma proc_ok_live: "proc_ok ps lim tr F \<Longrightarrow> p \<in> set tr \<or> p \<in># F \<Longrightarrow> \<exists>x. ps p = Some x"
  using proc_ok_cell [of ps lim tr F p] by (cases "ps p") (auto, metis not_in_iff)

lemma pe_inv_live: "pe_inv s E F \<Longrightarrow> p \<in> set (tracker s) \<or> p \<in># F \<Longrightarrow> \<exists>x. procs s p = Some x"
  using proc_ok_live by (auto simp: pe_inv_def)

lemma pe_inv_slot_live:
  assumes "pe_inv s E F" and "procs s p = Some x" and "c \<in># held x"
  shows "ctxs s c \<noteq> None"
proof -
  have "c \<in># refs (procs s)" using assms held_in_refs by (auto simp: pe_inv_def dest: mset_subset_eqD)
  then have "c \<in># refs (procs s) + E" by simp
  with assms(1) ctx_ok_live show ?thesis unfolding pe_inv_def by blast
qed

lemma slot_held:
  "i < PE_PRIO_MAX \<Longrightarrow> p_context x i = Some c \<Longrightarrow> c \<in># held x"
  "i < PE_PRIO_MAX \<Longrightarrow> saved_ctx x i = Some c \<Longrightarrow> c \<in># held x"
  by (auto simp: PE_PRIO_MAX_def held_def less_2_cases_iff)

lemma pe_inv_upd_proc:
  assumes "pe_inv s E F" and "procs s p = Some x" and "E' + held (f x) = E + held x"
    and "p_refcount (f x) = p_refcount x" and "instances (f x) = instances x"
  shows "pe_inv (upd_proc p f s) E' F"
proof -
  let ?m = "(procs s)(p \<mapsto> f x)"
  have fin: "finite (dom (procs s))" using assms(1) by (simp add: pe_inv_def)
  have "refs ?m + E' + (held x + held (f x)) = (refs ?m + held x) + (E' + held (f x))" by (simp add: ac_simps)
  also have "\<dots> = (refs (procs s) + held (f x)) + (E + held x)"
    unfolding refs_upd [OF fin assms(2)] assms(3) ..
  also have "\<dots> = refs (procs s) + E + (held x + held (f x))" by (simp add: ac_simps)
  finally have "refs ?m + E' = refs (procs s) + E" by (rule add_right_imp_eq)
  moreover have "proc_ok ?m (next_ptr s) (tracker s) F"
    using assms proc_ok_cell [of "procs s" "next_ptr s" "tracker s" F p]
    by (intro proc_ok_upd [where tr = "tracker s" and F = F]) (auto simp: pe_inv_def dest: proc_ok_distinct)
  moreover have "finite (dom ?m)" using fin by simp
  ultimately show ?thesis using assms(1,2) by (simp add: upd_proc_def pe_inv_def)
qed

text \<open>Updates that touch neither slots nor counters.\<close>

lemma pe_inv_upd_plain:
  assumes "pe_inv s E F" and "procs s p \<noteq> None"
    and "\<And>x. held (f x) = held x \<and> p_refcount (f x) = p_refcount x \<and> instances (f x) = instances x"
  shows "pe_inv (upd_proc p f s) E F"
  using assms by (auto intro: pe_inv_upd_proc)

lemma pe_inv_get:
  assumes "pe_inv s E F" and "pe_proc_get ck s = (r, s')"
  shows "pe_inv s' E (F + opt_ms r)"
    and "\<And>p. r = Some p \<Longrightarrow> p \<in> set (tracker s') \<and> procs s' p \<noteq> None \<and> task_cookie (proc_of s' p) = ck"
proof -
  have "pe_inv s' E (F + opt_ms r) \<and>
      (\<forall>p. r = Some p \<longrightarrow> p \<in> set (tracker s') \<and> procs s' p \<noteq> None \<and> task_cookie (proc_of s' p) = ck)"
  proof (cases "find (\<lambda>p. task_cookie (proc_of s p) = ck) (tracker s)")
    case None
    with assms show ?thesis by (auto simp: pe_proc_get_def)
  next
    case (Some p)
    then have t: "p \<in> set (tracker s)" "task_cookie (proc_of s p) = ck" by (auto simp: find_Some_iff)
    with assms(1) obtain x where x: "procs s p = Some x" using pe_inv_live by blast
    let ?y = "x\<lparr>p_refcount := p_refcount x + 1\<rparr>"
    have "refs ((procs s)(p \<mapsto> ?y)) = refs (procs s)"
      using refs_upd [of "procs s" p x ?y] assms(1) x by (simp add: pe_inv_def held_def)
    moreover have "proc_ok ((procs s)(p \<mapsto> ?y)) (next_ptr s) (tracker s) (add_mset p F)"
      using assms(1) x proc_ok_cell [of "procs s" "next_ptr s" "tracker s" F p]
      by (intro proc_ok_upd [where tr = "tracker s" and F = F]) (auto simp: pe_inv_def dest: proc_ok_distinct)
    moreover have "r = Some p" "s' = s\<lparr>procs := (procs s)(p \<mapsto> ?y)\<rparr>"
      using assms(2) Some x by (simp_all add: pe_proc_get_def upd_proc_def)
    ultimately show ?thesis using assms(1) t x by (simp add: pe_inv_def proc_of_def)
  qed
  then show "pe_inv s' E (F + opt_ms r)"
    and "\<And>p. r = Some p \<Longrightarrow> p \<in> set (tracker s') \<and> procs s' p \<noteq> None \<and> task_cookie (proc_of s' p) = ck"
    by blast+
qed

text \<open>Operations on contexts leave processes alone and the other way round.\<close>

lemma ctx_put_frame [pe_frame, simp]:
  "procs (pe_context_put c s) = procs s" "tracker (pe_context_put c s) = tracker s"
  "next_ptr (pe_context_put c s) = next_ptr s" "pdb (pe_context_put c s) = pdb s"
  "cache (pe_context_put c s) = cache s" "pgs (pe_context_put c s) = pgs s"
  "proc_of (pe_context_put c s) p = proc_of s p"
  by (auto simp: pe_context_put_def proc_of_def split: option.split)

lemma ctx_ref_frame [pe_frame, simp]:
  "procs (pe_context_reference c s) = procs s" "tracker (pe_context_reference c s) = tracker s"
  "next_ptr (pe_context_reference c s) = next_ptr s" "pdb (pe_context_reference c s) = pdb s"
  "cache (pe_context_reference c s) = cache s" "pgs (pe_context_reference c s) = pgs s"
  "proc_of (pe_context_reference c s) p = proc_of s p"
  by (auto simp: pe_context_reference_def proc_of_def split: option.split)

lemma upd_proc_frame [pe_frame, simp]:
  "ctxs (upd_proc p f s) = ctxs s" "tracker (upd_proc p f s) = tracker s"
  "next_ptr (upd_proc p f s) = next_ptr s" "pdb (upd_proc p f s) = pdb s"
  "cache (upd_proc p f s) = cache s" "pgs (upd_proc p f s) = pgs s"
  "procs (upd_proc p f s) q = (if q = p then map_option f (procs s p) else procs s q)"
  by (auto simp: upd_proc_def split: option.split)

lemma ctx_put_procs: "pe_context_put c (s\<lparr>procs := m\<rparr>) = (pe_context_put c s)\<lparr>procs := m\<rparr>"
  by (simp add: pe_context_put_def split: option.split)

lemma ctx_put_upd_proc: "pe_context_put c (upd_proc p f s) = upd_proc p f (pe_context_put c s)"
  by (auto simp: pe_context_put_def upd_proc_def split: option.split)

lemma pe_inv_put:
  assumes "pe_inv s E (F + opt_ms r)"
  shows "pe_inv (pe_proc_put r s) E F"
proof (cases r)
  case (Some p)
  have inv: "pe_inv s E (add_mset p F)" using assms Some by simp
  then obtain x where x: "procs s p = Some x" using pe_inv_live by (metis union_single_eq_member)
  have ok: "proc_ok (procs s) (next_ptr s) (tracker s) (add_mset p F)" using inv by (simp add: pe_inv_def)
  have rc: "p_refcount x = int (count (mset (tracker s) + F) p) + 1" "p < next_ptr s"
    "if p \<in> set (tracker s) then instances x \<ge> 1 else instances x = 0"
    using proc_ok_cell [OF ok, of p] x by simp_all
  have fin: "finite (dom (procs s))" and dist: "distinct (tracker s)"
    using inv ok by (auto simp: pe_inv_def dest: proc_ok_distinct)
  show ?thesis
  proof (cases "p_refcount x - 1 \<noteq> 0")
    case True
    let ?y = "x\<lparr>p_refcount := p_refcount x - 1\<rparr>"
    have "refs ((procs s)(p \<mapsto> ?y)) = refs (procs s)"
      using refs_upd [OF fin x, of ?y] by (simp add: held_def)
    moreover have "proc_ok ((procs s)(p \<mapsto> ?y)) (next_ptr s) (tracker s) F"
    proof (rule proc_ok_upd [OF ok dist])
      have "count (mset (tracker s) + F) p \<noteq> 0" using rc True by linarith
      with rc show "proc_cell (Some ?y) (next_ptr s) (count (mset (tracker s) + F) p) (p \<in> set (tracker s)) p"
        by (simp del: count_union)
    qed simp_all
    ultimately show ?thesis
      using Some x True inv by (simp add: pe_proc_put_def pe_inv_def)
  next
    case False
    then have c0: "count (mset (tracker s) + F) p = 0" using rc by linarith
    then have nt: "p \<notin> set (tracker s)" by simp
    let ?m = "(procs s)(p := None)"
    let ?s1 = "if pgid x \<noteq> 0 \<and> threads x \<noteq> 0 then s\<lparr>pgs := pe_playground_delete (pgid x) (pgs s)\<rparr> else s"
    have r: "refs ?m + (E + held x) = refs (procs s) + E"
      using refs_del [OF fin x] by (simp add: ac_simps)
    have "ctx_ok (ctxs s) (next_ptr s) (refs ?m + (E + held x))"
      using inv unfolding r pe_inv_def by blast
    moreover have "proc_ok ?m (next_ptr s) (tracker s) F"
      using c0 nt dist by (intro proc_ok_upd [OF ok]) auto
    moreover have "finite (dom ?m)" using fin by simp
    ultimately have "pe_inv (?s1\<lparr>procs := ?m\<rparr>) (E + held x) F"
      using inv by (simp add: pe_inv_def)
    then have "pe_inv (pe_context_put (saved_ctx x 1) (pe_context_put (p_context x 1)
        (pe_context_put (saved_ctx x 0) (pe_context_put (p_context x 0) (?s1\<lparr>procs := ?m\<rparr>))))) E F"
      by (intro pe_inv_ctx_put) (simp add: held_def ac_simps)
    then show ?thesis
      using Some x False rc(3) nt by (auto simp: pe_proc_put_def Let_def ctx_put_procs split: if_splits)
  qed
qed (use assms in \<open>simp add: pe_proc_put_def\<close>)

lemma pe_inv_set_playgroundid:
  assumes "pe_inv s E F" and "procs s p \<noteq> None"
  shows "pe_inv (pe_proc_set_playgroundid p g now s) E F \<and> procs (pe_proc_set_playgroundid p g now s) p \<noteq> None \<and>
    tracker (pe_proc_set_playgroundid p g now s) = tracker s"
proof -
  obtain x where x: "procs s p = Some x" using assms(2) by auto
  have h: "pe_inv (upd_proc p (\<lambda>x. x\<lparr>pgid := g\<rparr>) (s\<lparr>pgs := q\<rparr>)) E F" for q
    by (rule pe_inv_upd_plain) (use assms in \<open>auto simp: held_def intro: pe_inv_cong\<close>)
  have "pe_inv (upd_proc p (\<lambda>x. x\<lparr>pgid := g\<rparr>) s) E F"
    by (rule pe_inv_upd_plain [OF assms]) (simp add: held_def)
  then have h2: "pe_inv ((upd_proc p (\<lambda>x. x\<lparr>pgid := g\<rparr>) s)\<lparr>pgs := q\<rparr>) E F" for q
    by (rule pe_inv_cong) simp_all
  have h3: "pe_inv ((upd_proc p (\<lambda>x. x\<lparr>pgid := g\<rparr>) (s\<lparr>pgs := r\<rparr>))\<lparr>pgs := q\<rparr>) E F" for q r
    by (rule pe_inv_cong [OF h]) simp_all
  have "pe_inv (s\<lparr>pgs := q\<rparr>) E F" for q by (rule pe_inv_cong [OF assms(1)]) simp_all
  with assms h h2 h3 x \<open>pe_inv (upd_proc p (\<lambda>x. x\<lparr>pgid := g\<rparr>) s) E F\<close> show ?thesis
    by (auto simp: pe_proc_set_playgroundid_def Let_def)
qed

lemma pe_inv_alloc:
  assumes "pe_inv s E F" and "pe_proc_alloc u ck i g now s = (p, s')"
  shows "pe_inv s' E (add_mset p F)" and "procs s' p \<noteq> None" and "p \<notin> set (tracker s')"
proof -
  define x where "x = new_proc u ck i"
  have p: "p = next_ptr s" and
    s': "s' = pe_proc_set_playgroundid p g now (s\<lparr>procs := (procs s)(p \<mapsto> x), next_ptr := Suc p\<rparr>)"
    using assms(2) by (auto simp: pe_proc_alloc_def x_def Let_def)
  have x: "p_refcount x = 1" "instances x = 0" "held x = {#}"
    by (simp_all add: x_def new_proc_def held_def)
  let ?s = "s\<lparr>procs := (procs s)(p \<mapsto> x), next_ptr := Suc p\<rparr>"
  have ok: "proc_ok (procs s) (next_ptr s) (tracker s) F" using assms(1) by (simp add: pe_inv_def)
  note f = proc_ok_fresh [OF ok, of p]
  have "proc_ok ((procs s)(p \<mapsto> x)) (Suc p) (tracker s) (add_mset p F)"
    using f x p proc_ok_distinct [OF ok] by (intro proc_ok_upd [OF ok]) auto
  moreover have "refs ((procs s)(p \<mapsto> x)) = refs (procs s)"
    using refs_new [of "procs s" p x] f p x assms(1) by (simp add: pe_inv_def)
  ultimately have "pe_inv ?s E (add_mset p F)"
    using assms(1) p ctx_ok_mono [of "ctxs s" "next_ptr s" _ "Suc p"] by (simp add: pe_inv_def)
  from pe_inv_set_playgroundid [OF this, of p g now] f p
  show "pe_inv s' E (add_mset p F)" "procs s' p \<noteq> None" "p \<notin> set (tracker s')" by (simp_all add: s')
qed

lemma pe_inv_track:
  assumes "pe_inv s E F" and "p \<in># F" and "p \<notin> set (tracker s)"
  shows "pe_inv (pe_proc_track p s) E F" and "procs (pe_proc_track p s) p \<noteq> None"
proof -
  obtain x where x: "procs s p = Some x" using pe_inv_live assms by blast
  let ?y = "x\<lparr>p_refcount := p_refcount x + 1, instances := 1\<rparr>"
  have ok: "proc_ok (procs s) (next_ptr s) (tracker s) F" using assms(1) by (simp add: pe_inv_def)
  have "proc_ok ((procs s)(p \<mapsto> ?y)) (next_ptr s) (tracker s @ [p]) F"
    using proc_ok_cell [OF ok, of p] x assms(3) proc_ok_distinct [OF ok]
    by (intro proc_ok_upd [OF ok]) auto
  moreover have "refs ((procs s)(p \<mapsto> ?y)) = refs (procs s)"
    using refs_upd [of "procs s" p x ?y] x assms(1) by (simp add: pe_inv_def held_def)
  ultimately show "pe_inv (pe_proc_track p s) E F" "procs (pe_proc_track p s) p \<noteq> None"
    using assms(1) x by (simp_all add: pe_proc_track_def Let_def upd_proc_def pe_inv_def)
qed

text \<open>The last instance of a process goes away: it leaves the tracker.\<close>

lemma pe_inv_untrack:
  assumes "pe_inv s E F" and "p \<in> set (tracker s)"
  shows "pe_inv (pe_proc_untrack p (upd_proc p (\<lambda>x. x\<lparr>instances := 0\<rparr>) s)) E F"
proof -
  obtain x where x: "procs s p = Some x" using pe_inv_live assms by blast
  let ?y = "x\<lparr>instances := 0\<rparr>"
  have ok: "proc_ok (procs s) (next_ptr s) (tracker s) F" using assms(1) by (simp add: pe_inv_def)
  have d: "distinct (tracker s)" by (rule proc_ok_distinct [OF ok])
  then have c: "count (mset (tracker s)) p = 1" using assms(2) by (simp add: distinct_count_atmost_1)
  have "proc_ok ((procs s)(p \<mapsto> ?y)) (next_ptr s) (remove1 p (tracker s)) (add_mset p F)"
    using proc_ok_cell [OF ok, of p] x c d assms(2)
    by (intro proc_ok_upd [OF ok]) (auto simp: count_eq_zero_iff)
  moreover have "refs ((procs s)(p \<mapsto> ?y)) = refs (procs s)"
    using refs_upd [of "procs s" p x ?y] x assms(1) by (simp add: pe_inv_def held_def)
  ultimately have "pe_inv ((upd_proc p (\<lambda>x. x\<lparr>instances := 0\<rparr>) s)\<lparr>tracker := remove1 p (tracker s)\<rparr>) E (F + opt_ms (Some p))"
    using assms(1) x by (simp add: upd_proc_def pe_inv_def)
  from pe_inv_put [OF this] show ?thesis by (simp add: pe_proc_untrack_def)
qed

subsection \<open>Context slots\<close>

lemma held_context:
  "i < PE_PRIO_MAX \<Longrightarrow> held (x\<lparr>p_context := (p_context x)(i := c)\<rparr>) + opt_ms (p_context x i) = held x + opt_ms c"
  by (auto simp: PE_PRIO_MAX_def held_def less_2_cases_iff ac_simps)

lemma held_saved:
  "i < PE_PRIO_MAX \<Longrightarrow> held (x\<lparr>saved_ctx := (saved_ctx x)(i := c)\<rparr>) + opt_ms (saved_ctx x i) = held x + opt_ms c"
  by (auto simp: PE_PRIO_MAX_def held_def less_2_cases_iff ac_simps)

lemma pe_inv_set_context:
  assumes "pe_inv s E F" and "procs s p \<noteq> None" and "\<And>a. c = Some a \<Longrightarrow> ctxs s a \<noteq> None"
  shows "pe_inv (pe_proc_set_context p i c s) E F"
proof (cases "i \<ge> PE_PRIO_MAX")
  case False
  obtain x where x: "procs s p = Some x" using assms(2) by auto
  let ?f = "\<lambda>x. x\<lparr>p_context := (p_context x)(i := c)\<rparr>"
  let ?s = "pe_context_reference c s"
  have "E + opt_ms (p_context x i) + held (?f x) = E + opt_ms c + held x"
    using held_context [of i x c] False by (simp add: ac_simps)
  then have "pe_inv (upd_proc p ?f ?s) (E + opt_ms (p_context x i)) F"
    using x by (intro pe_inv_upd_proc [OF pe_inv_ctx_ref [OF assms(1,3)]]) simp_all
  from pe_inv_ctx_put [OF this] x False show ?thesis
    by (simp add: pe_proc_set_context_def Let_def ctx_put_upd_proc proc_of_def)
qed (use assms in \<open>simp add: pe_proc_set_context_def\<close>)

lemma pe_inv_set_savedctx:
  assumes "pe_inv s E F" and "procs s p \<noteq> None" and "\<And>a. c = Some a \<Longrightarrow> ctxs s a \<noteq> None"
  shows "pe_inv (pe_proc_set_savedctx p i c s) E F"
proof (cases "i \<ge> PE_PRIO_MAX")
  case False
  obtain x where x: "procs s p = Some x" using assms(2) by auto
  let ?f = "\<lambda>x. x\<lparr>saved_ctx := (saved_ctx x)(i := c)\<rparr>"
  let ?s = "pe_context_reference c s"
  have "E + opt_ms (saved_ctx x i) + held (?f x) = E + opt_ms c + held x"
    using held_saved [of i x c] False by (simp add: ac_simps)
  then have "pe_inv (upd_proc p ?f ?s) (E + opt_ms (saved_ctx x i)) F"
    using x by (intro pe_inv_upd_proc [OF pe_inv_ctx_ref [OF assms(1,3)]]) simp_all
  from pe_inv_ctx_put [OF this] x False show ?thesis
    by (simp add: pe_proc_set_savedctx_def Let_def ctx_put_upd_proc proc_of_def)
qed (use assms in \<open>simp add: pe_proc_set_savedctx_def\<close>)

lemma pe_inv_save_ctx:
  assumes "pe_inv s E F" and "procs s p \<noteq> None"
  shows "pe_inv (pe_proc_save_ctx p i ck s) E F"
proof -
  obtain x where x: "procs s p = Some x" using assms(2) by auto
  have "held (x\<lparr>saved_ctx := (saved_ctx x)(i := p_context x i), p_context := (p_context x)(i := None),
      borrow_cookie := (borrow_cookie x)(i := ck)\<rparr>) = held x"
    if "i < PE_PRIO_MAX" "saved_ctx x i = None"
    using that by (auto simp: PE_PRIO_MAX_def held_def less_2_cases_iff ac_simps)
  with assms(1) x show ?thesis
    by (auto simp: pe_proc_save_ctx_def proc_of_def intro!: pe_inv_upd_proc [OF assms(1) x])
qed

lemma pe_inv_drop_saved_ctx:
  assumes "pe_inv s E F" and "procs s p \<noteq> None"
  shows "pe_inv (pe_proc_drop_saved_ctx p i s) E F"
proof (cases "i < PE_PRIO_MAX \<and> saved_ctx (proc_of s p) i \<noteq> None")
  case True
  obtain x where x: "procs s p = Some x" using assms(2) by auto
  with True obtain c where c: "saved_ctx x i = Some c" by (auto simp: proc_of_def)
  let ?f = "\<lambda>x. x\<lparr>saved_ctx := (saved_ctx x)(i := None)\<rparr>"
  have "E + opt_ms (Some c) + held (?f x) = E + held x"
    using held_saved [of i x None] True c by (simp add: ac_simps)
  then have "pe_inv (upd_proc p ?f s) (E + opt_ms (Some c)) F"
    using x by (intro pe_inv_upd_proc [OF assms(1)]) simp_all
  from pe_inv_ctx_put [OF this] x c True show ?thesis
    by (simp add: pe_proc_drop_saved_ctx_def ctx_put_upd_proc proc_of_def)
qed (use assms in \<open>auto simp: pe_proc_drop_saved_ctx_def\<close>)

lemma procs_set_context:
  "procs (pe_proc_set_context p i c s) q =
    (if q = p \<and> i < PE_PRIO_MAX then map_option (\<lambda>x. x\<lparr>p_context := (p_context x)(i := c)\<rparr>) (procs s p)
     else procs s q)"
  by (auto simp: pe_proc_set_context_def Let_def)

lemma pe_inv_restore_ctx:
  assumes "pe_inv s E F" and "procs s p \<noteq> None"
  shows "pe_inv (pe_proc_restore_ctx p i ck s) E F"
proof (cases "i < PE_PRIO_MAX \<and> saved_ctx (proc_of s p) i \<noteq> None \<and> borrow_cookie (proc_of s p) i = ck")
  case True
  obtain x where x: "procs s p = Some x" using assms(2) by auto
  with True obtain c where c: "saved_ctx x i = Some c" by (auto simp: proc_of_def)
  have live: "ctxs s c \<noteq> None" using pe_inv_slot_live [OF assms(1) x slot_held(2)] True c by blast
  let ?s = "pe_proc_set_context p i (Some c) s"
  let ?f = "\<lambda>x. x\<lparr>saved_ctx := (saved_ctx x)(i := None)\<rparr>"
  let ?y = "x\<lparr>p_context := (p_context x)(i := Some c)\<rparr>"
  have inv: "pe_inv ?s E F" using pe_inv_set_context [OF assms, of "Some c"] live by simp
  have y: "procs ?s p = Some ?y" using x True by (simp add: procs_set_context)
  have "E + opt_ms (Some c) + held (?f ?y) = E + held ?y"
    using held_saved [of i ?y None] True c by (simp add: ac_simps)
  then have "pe_inv (upd_proc p ?f ?s) (E + opt_ms (Some c)) F"
    by (intro pe_inv_upd_proc [OF inv y]) simp_all
  from pe_inv_ctx_put [OF this] x c True show ?thesis
    by (simp add: pe_proc_restore_ctx_def Let_def ctx_put_upd_proc proc_of_def)
qed (use assms in \<open>auto simp: pe_proc_restore_ctx_def split: option.split\<close>)

end
