(* ===== verification/Context.thy ===== *)
theory Context
  imports RefCount
begin

text \<open>
  Model of the rule contexts of processes, \<^verbatim>\<open>src/src/anoubisd/pe_context.c\<close>: matching of
  applications, search of the rule blocks for a process, the decision whether a process may
  switch its context, and the context changes on fork, exec, open, borrow, restore and rule
  reload.

  \<open>pe_env\<close> collects what lies outside of the policy engine: the SFS tree on disk, the map from
  users to the key ID of their certificate (\<^verbatim>\<open>cert_keyid_for_uid\<close>) and the configuration.
\<close>

datatype upgrade_mode =
    ANOUBISD_UPGRADE_MODE_OFF | ANOUBISD_UPGRADE_MODE_STRICT_LOCK
  | ANOUBISD_UPGRADE_MODE_LOOSE_LOCK | ANOUBISD_UPGRADE_MODE_PROCESS

record pe_env =
  disk :: sfs_disk
  cert_keyid_for_uid :: "uid \<Rightarrow> string option"
  upgrade_mode :: upgrade_mode
  upgrade_trigger :: "string list"
  sfs_haschecksum :: "string \<Rightarrow> bool"
  version :: nat

subsection \<open>Matching of applications\<close>

definition csum_matches :: "errno + bytes \<Rightarrow> pe_proc_ident \<Rightarrow> bool" where
  "csum_matches r pident =
     (case r of Inl _ \<Rightarrow> False | Inr cs \<Rightarrow> cs \<noteq> [] \<and> id_csum pident \<noteq> [] \<and> cs = id_csum pident)"

text \<open>The branches for subjects given by a user and by a key.\<close>

definition subject_uid :: "pe_env \<Rightarrow> apn_app \<Rightarrow> pe_proc_ident \<Rightarrow> uid \<Rightarrow> sfshash \<Rightarrow> bool \<times> sfshash" where
  "subject_uid en ap pident u c =
     (if u = no_uid then (False, c)
      else case app_name ap of
             None \<Rightarrow> (False, c)
           | Some name \<Rightarrow>
               (case sfshash_get_uid (disk en) name u c of
                  (r, c') \<Rightarrow> (csum_matches r pident, c')))"

definition subject_key :: "pe_env \<Rightarrow> apn_app \<Rightarrow> pe_proc_ident \<Rightarrow> string \<Rightarrow> sfshash \<Rightarrow> bool \<times> sfshash" where
  "subject_key en ap pident k c =
     (case app_name ap of
        None \<Rightarrow> (False, c)
      | Some name \<Rightarrow>
          (case sfshash_get_key (disk en) name k c of
             (r, c') \<Rightarrow> (csum_matches r pident, c')))"

definition pe_context_subject_match ::
    "pe_env \<Rightarrow> apn_app \<Rightarrow> pe_proc_ident \<Rightarrow> uid \<Rightarrow> sfshash \<Rightarrow> bool \<times> sfshash" where
  "pe_context_subject_match en ap pident u c =
     (if u = no_uid \<and> (app_subject ap = APN_CS_UID_SELF \<or> app_subject ap = APN_CS_KEY_SELF) then (False, c)
      else case app_subject ap of
        APN_CS_NONE \<Rightarrow> (True, c)
      | APN_CS_UID v \<Rightarrow> subject_uid en ap pident v c
      | APN_CS_UID_SELF \<Rightarrow> subject_uid en ap pident u c
      | APN_CS_KEY k \<Rightarrow> subject_key en ap pident k c
      | APN_CS_KEY_SELF \<Rightarrow>
          (case cert_keyid_for_uid en u of
             None \<Rightarrow> (False, c)
           | Some k \<Rightarrow> subject_key en ap pident k c))"

definition pe_context_app_match ::
    "pe_env \<Rightarrow> apn_app \<Rightarrow> pe_proc_ident \<Rightarrow> uid \<Rightarrow> sfshash \<Rightarrow> bool \<times> sfshash" where
  "pe_context_app_match en ap pident u c =
     (case app_name ap of
        None \<Rightarrow> (True, c)
      | Some name \<Rightarrow>
          (if app_subject ap = APN_CS_NONE \<and> pathhint pident \<noteq> Some name then (False, c)
           else pe_context_subject_match en ap pident u c))"

text \<open>The loops over a list of applications.\<close>

fun app_loop :: "pe_env \<Rightarrow> apn_app list \<Rightarrow> pe_proc_ident \<Rightarrow> uid \<Rightarrow> sfshash \<Rightarrow> bool \<times> sfshash" where
  "app_loop en [] pident u c = (False, c)"
| "app_loop en (hp # hps) pident u c =
     (case pe_context_app_match en hp pident u c of
        (True, c') \<Rightarrow> (True, c')
      | (False, c') \<Rightarrow> app_loop en hps pident u c')"

fun pe_context_search_chain ::
    "pe_env \<Rightarrow> apn_block list \<Rightarrow> pe_proc_ident option \<Rightarrow> uid \<Rightarrow> bool \<Rightarrow> sfshash \<Rightarrow> apn_block option \<times> sfshash" where
  "pe_context_search_chain en [] pident u ispg c = (None, c)"
| "pe_context_search_chain en (r # rs) pident u ispg c =
     (if \<not> ispg \<and> has_flag (flags r) APN_RULE_PGONLY then pe_context_search_chain en rs pident u ispg c
      else if app r = [] then (Some r, c)
      else case pident of
        None \<Rightarrow> pe_context_search_chain en rs pident u ispg c
      | Some i \<Rightarrow>
          (case app_loop en (app r) i u c of
             (True, c') \<Rightarrow> (Some r, c')
           | (False, c') \<Rightarrow> pe_context_search_chain en rs pident u ispg c'))"

definition pe_context_search ::
    "pe_env \<Rightarrow> apn_ruleset option \<Rightarrow> pe_proc_ident option \<Rightarrow> uid \<Rightarrow> bool \<Rightarrow> pe \<Rightarrow> nat option \<times> pe" where
  "pe_context_search en rs pident u ispg s =
     (case rs of
        None \<Rightarrow> (None, s)
      | Some r \<Rightarrow>
          (let (a, s1) = pe_context_alloc (Some (rs_addr r)) pident s;
               (alf, c1) = pe_context_search_chain en (alf_queue r) pident u ispg (cache s1);
               (sb, c2) = pe_context_search_chain en (sb_queue r) pident u ispg c1;
               (ct, c3) = pe_context_search_chain en (ctx_queue r) pident u ispg c2
           in (Some a, (upd_ctx a (\<lambda>x. x\<lparr>alfrule := alf, sbrule := sb, ctxrule := ct\<rparr>) s1)\<lparr>cache := c3\<rparr>)))"

subsection \<open>Decision about a context switch\<close>

fun decide_loop :: "pe_env \<Rightarrow> apn_rule list \<Rightarrow> apn_ctx_type \<Rightarrow> pe_proc_ident \<Rightarrow> uid \<Rightarrow> sfshash \<Rightarrow> bool \<times> sfshash" where
  "decide_loop en [] ty pident u c = (False, c)"
| "decide_loop en (r # rs) ty pident u c =
     (case body r of
        APN_CTX_RULE x \<Rightarrow>
          (if ctx_type x \<noteq> ty then decide_loop en rs ty pident u c
           else if application x = [] then (True, c)
           else case app_loop en (application x) pident u c of
                  (True, c') \<Rightarrow> (True, c')
                | (False, c') \<Rightarrow> decide_loop en rs ty pident u c')
      | _ \<Rightarrow> decide_loop en rs ty pident u c)"

definition pe_context_decide ::
    "pe_env \<Rightarrow> nat option \<Rightarrow> apn_ctx_type \<Rightarrow> nat \<Rightarrow> pe_proc_ident \<Rightarrow> uid \<Rightarrow> pe \<Rightarrow> bool \<times> pe" where
  "pe_context_decide en proc ty prio pident u s =
     (case pe_proc_get_context s proc prio of
        None \<Rightarrow> (ty = APN_CTX_NEW, s)
      | Some a \<Rightarrow>
          (if ty = APN_CTX_NEW \<and> (case proc of None \<Rightarrow> True | Some p \<Rightarrow> p_uid (proc_of s p) \<noteq> u) then (True, s)
           else case ctxrule (ctx_of s a) of
             None \<Rightarrow> (False, s)
           | Some b \<Rightarrow>
               (case decide_loop en (chain b) ty pident u (cache s) of (ret, c) \<Rightarrow> (ret, s\<lparr>cache := c\<rparr>))))"

subsection \<open>Context changes\<close>

definition norules :: "pe_context \<Rightarrow> bool" where
  "norules x \<longleftrightarrow> ruleset x = None \<and> alfrule x = None \<and> sbrule x = None \<and> ctxrule x = None"

definition pe_context_norules :: "nat \<Rightarrow> nat \<Rightarrow> pe \<Rightarrow> pe" where
  "pe_context_norules p prio s =
     (case pe_proc_get_context s (Some p) prio of
        None \<Rightarrow> s
      | Some a \<Rightarrow>
          (if norules (ctx_of s a) then s
           else
             (let (b, s1) = pe_context_alloc None (Some (ident (ctx_of s a))) s
              in pe_context_put (Some b) (pe_proc_set_context p prio (Some b) s1))))"

definition pe_savedctx_norules :: "nat \<Rightarrow> nat \<Rightarrow> pe \<Rightarrow> pe" where
  "pe_savedctx_norules p prio s =
     (case pe_proc_get_savedctx s (Some p) prio of
        None \<Rightarrow> s
      | Some a \<Rightarrow>
          (if norules (ctx_of s a) then s
           else
             (let (b, s1) = pe_context_alloc None (Some (ident (ctx_of s a))) s
              in pe_context_put (Some b) (pe_proc_set_savedctx p prio (Some b) s1))))"

text \<open>\<open>db\<close>: the policy database to use; the callers pass the active one for NULL.\<close>

definition pe_context_refresh :: "pe_env \<Rightarrow> nat \<Rightarrow> nat \<Rightarrow> pe_policy_db \<Rightarrow> pe \<Rightarrow> pe" where
  "pe_context_refresh en p prio db s =
     (if prio \<ge> PE_PRIO_MAX then s
      else case pe_user_get_ruleset (p_uid (proc_of s p)) prio db of
        None \<Rightarrow> pe_savedctx_norules p prio (pe_context_norules p prio s)
      | Some rs \<Rightarrow>
          (let pident = (case pe_proc_get_context s (Some p) prio of
                  Some a \<Rightarrow> ident (ctx_of s a)
                | None \<Rightarrow> p_ident (proc_of s p));
               (ctx, s1) = pe_context_search en (Some rs) (Some pident) (p_uid (proc_of s p))
                             (pgid (proc_of s p) \<noteq> 0) s;
               s2 = pe_context_put ctx (pe_proc_set_context p prio ctx s1)
           in case pe_proc_get_savedctx s2 (Some p) prio of
                None \<Rightarrow> s2
              | Some a \<Rightarrow>
                  (let (ctx', s3) = pe_context_search en (Some rs) (Some (ident (ctx_of s2 a)))
                         (p_uid (proc_of s2 p)) (pgid (proc_of s2 p) \<noteq> 0) s2
                   in pe_context_put ctx' (pe_proc_set_savedctx p prio ctx' s3))))"

definition pe_context_switch :: "pe_env \<Rightarrow> nat \<Rightarrow> nat \<Rightarrow> pe_proc_ident \<Rightarrow> uid \<Rightarrow> pe \<Rightarrow> pe" where
  "pe_context_switch en p prio pident u s =
     (case pe_user_get_ruleset u prio (pdb s) of
        None \<Rightarrow> pe_context_norules p prio s
      | Some rs \<Rightarrow>
          (let (ctx, s1) = pe_context_search en (Some rs) (Some pident) u (pgid (proc_of s p) \<noteq> 0) s
           in pe_context_put ctx (pe_proc_set_context p prio ctx s1)))"

definition pe_context_fork :: "pe_env \<Rightarrow> nat \<Rightarrow> nat option \<Rightarrow> pe \<Rightarrow> pe" where
  "pe_context_fork en p parent s =
     fold (\<lambda>i s.
         case (case parent of
                 None \<Rightarrow> None
               | Some q \<Rightarrow> (if p_uid (proc_of s q) = p_uid (proc_of s p)
                            then pe_proc_get_context s (Some q) i else None)) of
           Some ctx \<Rightarrow> pe_proc_set_context p i (Some ctx) s
         | None \<Rightarrow>
             pe_proc_drop_saved_ctx p i
               (pe_context_switch en p i (p_ident (proc_of s p)) (p_uid (proc_of s p)) s))
       [0..<PE_PRIO_MAX] s"

definition pe_context_exec :: "pe_env \<Rightarrow> nat \<Rightarrow> uid \<Rightarrow> pe_proc_ident \<Rightarrow> pe \<Rightarrow> pe" where
  "pe_context_exec en p u pident s =
     (let s1 = fold (\<lambda>i s.
            case pe_context_decide en (Some p) APN_CTX_NEW i pident u s of
              (False, s') \<Rightarrow> s'
            | (True, s') \<Rightarrow> pe_proc_drop_saved_ctx p i (pe_context_switch en p i pident u s'))
          [0..<PE_PRIO_MAX] s
      in if u \<noteq> no_uid then pe_proc_set_uid p u s1 else s1)"

definition pe_context_is_nosfs :: "pe \<Rightarrow> nat option \<Rightarrow> bool" where
  "pe_context_is_nosfs s ctx =
     (case ctx of None \<Rightarrow> False
      | Some a \<Rightarrow> (case ctxrule (ctx_of s a) of None \<Rightarrow> False | Some b \<Rightarrow> has_flag (flags b) APN_RULE_NOSFS))"

definition pe_context_is_pg :: "pe \<Rightarrow> nat option \<Rightarrow> bool" where
  "pe_context_is_pg s ctx =
     (case ctx of None \<Rightarrow> False
      | Some a \<Rightarrow> (case ctxrule (ctx_of s a) of None \<Rightarrow> False | Some b \<Rightarrow> has_flag (flags b) APN_RULE_PGFORCE))"

text \<open>Pointers to rule blocks are compared by address.\<close>

definition same_block :: "apn_block option \<Rightarrow> apn_block option \<Rightarrow> bool" where
  "same_block a b \<longleftrightarrow> map_option blk_addr a = map_option blk_addr b"

fun will_transition_loop ::
    "pe_env \<Rightarrow> nat \<Rightarrow> uid \<Rightarrow> pe_proc_ident \<Rightarrow> nat list \<Rightarrow> pe \<Rightarrow> bool \<times> pe" where
  "will_transition_loop en p u pident [] s = (False, s)"
| "will_transition_loop en p u pident (i # is) s =
     (case pe_context_decide en (Some p) APN_CTX_NEW i pident u s of
        (False, s1) \<Rightarrow> will_transition_loop en p u pident is s1
      | (True, s1) \<Rightarrow>
          (case pe_user_get_ruleset u i (pdb s1) of
             None \<Rightarrow> will_transition_loop en p u pident is s1
           | Some rs \<Rightarrow>
               (let cur = pe_proc_get_context s1 (Some p) i;
                    (tmp, s2) = pe_context_search en (Some rs) (Some pident) u (pgid (proc_of s1 p) \<noteq> 0) s1
                in case (tmp, cur) of
                     (None, None) \<Rightarrow> will_transition_loop en p u pident is s2
                   | (Some a, Some b) \<Rightarrow>
                       (if \<not> same_block (alfrule (ctx_of s2 a)) (alfrule (ctx_of s2 b))
                           \<or> \<not> same_block (sbrule (ctx_of s2 a)) (sbrule (ctx_of s2 b))
                           \<or> \<not> same_block (ctxrule (ctx_of s2 a)) (ctxrule (ctx_of s2 b))
                        then (True, pe_context_put tmp s2)
                        else will_transition_loop en p u pident is (pe_context_put tmp s2))
                   | _ \<Rightarrow> (True, pe_context_put tmp s2))))"

definition pe_context_will_transition ::
    "pe_env \<Rightarrow> nat option \<Rightarrow> uid \<Rightarrow> pe_proc_ident \<Rightarrow> pe \<Rightarrow> bool \<times> pe" where
  "pe_context_will_transition en proc u pident s =
     (case proc of None \<Rightarrow> (False, s)
      | Some p \<Rightarrow> will_transition_loop en p u pident [0..<PE_PRIO_MAX] s)"

text \<open>The result is the rule ID and priority of the rule that forces the playground.\<close>

fun will_pg_loop ::
    "pe_env \<Rightarrow> nat \<Rightarrow> uid \<Rightarrow> pe_proc_ident \<Rightarrow> nat list \<Rightarrow> pe \<Rightarrow> (nat \<times> nat) option \<times> pe" where
  "will_pg_loop en p u pident [] s = (None, s)"
| "will_pg_loop en p u pident (i # is) s =
     (case pe_context_decide en (Some p) APN_CTX_NEW i pident u s of
        (False, s1) \<Rightarrow> will_pg_loop en p u pident is s1
      | (True, s1) \<Rightarrow>
          (case pe_user_get_ruleset u i (pdb s1) of
             None \<Rightarrow> will_pg_loop en p u pident is s1
           | Some rs \<Rightarrow>
               (let cur = pe_proc_get_context s1 (Some p) i;
                    (new, s2) = pe_context_search en (Some rs) (Some pident) u (pgid (proc_of s1 p) \<noteq> 0) s1
                in case new of
                     None \<Rightarrow> will_pg_loop en p u pident is s2
                   | Some a \<Rightarrow>
                       (if (case cur of None \<Rightarrow> False
                            | Some b \<Rightarrow> same_block (ctxrule (ctx_of s2 a)) (ctxrule (ctx_of s2 b)))
                        then will_pg_loop en p u pident is (pe_context_put new s2)
                        else if pe_context_is_pg s2 new
                        then (Some (case ctxrule (ctx_of s2 a) of None \<Rightarrow> 0 | Some r \<Rightarrow> blk_id r, i),
                              pe_context_put new s2)
                        else will_pg_loop en p u pident is (pe_context_put new s2)))))"

definition pe_context_will_pg ::
    "pe_env \<Rightarrow> nat option \<Rightarrow> uid \<Rightarrow> pe_proc_ident \<Rightarrow> pe \<Rightarrow> (nat \<times> nat) option \<times> pe" where
  "pe_context_will_pg en proc u pident s =
     (case proc of None \<Rightarrow> (None, s)
      | Some p \<Rightarrow> will_pg_loop en p u pident [0..<PE_PRIO_MAX] s)"

text \<open>
  An open event as the kernel sends it. \<open>o_pathbuf\<close> are the bytes of the message from the path
  hint to its end; the flags of the message are separate fields.
\<close>

record sfs_open_message =
  o_cookie :: cookie
  o_pgid :: cookie
  o_uid :: uid
  o_pid :: int
  o_read :: bool
  o_write :: bool
  o_exec :: bool
  o_follow :: bool
  o_has_csum :: bool
  o_has_path :: bool
  o_secureexec :: bool
  o_csum :: bytes
  o_pathbuf :: string

text \<open>The NUL terminated path hint; no result if the terminator is missing.\<close>

definition open_path :: "sfs_open_message \<Rightarrow> string option" where
  "open_path m =
     (if o_has_path m
      then (if NUL \<in> set (o_pathbuf m) then Some (takeWhile (\<lambda>c. c \<noteq> NUL) (o_pathbuf m)) else None)
      else Some [])"

definition pe_context_open :: "pe_env \<Rightarrow> nat option \<Rightarrow> sfs_open_message \<Rightarrow> pe \<Rightarrow> pe" where
  "pe_context_open en proc m s =
     (case proc of
        None \<Rightarrow> s
      | Some p \<Rightarrow>
          (if \<not> o_has_csum m then s
           else case open_path m of
             None \<Rightarrow> s
           | Some path \<Rightarrow>
               (let pident = \<lparr>id_csum = o_csum m, pathhint = Some path\<rparr>
                in fold (\<lambda>i s.
                     case pe_context_decide en (Some p) APN_CTX_OPEN i pident (p_uid (proc_of s p)) s of
                       (False, s') \<Rightarrow> s'
                     | (True, s') \<Rightarrow> pe_context_switch en p i pident (o_uid m) s')
                   [0..<PE_PRIO_MAX] s)))"

definition borrow_step :: "pe_env \<Rightarrow> nat \<Rightarrow> nat \<Rightarrow> cookie \<Rightarrow> nat \<Rightarrow> pe \<Rightarrow> pe" where
  "borrow_step en p pp ck i s =
     (case pe_proc_get_context s (Some p) i of
        None \<Rightarrow> s
      | Some a \<Rightarrow>
          (case pe_context_decide en (Some pp) APN_CTX_BORROW i (ident (ctx_of s a)) (p_uid (proc_of s p)) s of
             (False, s1) \<Rightarrow> s1
           | (True, s1) \<Rightarrow>
               (case pe_proc_get_context s1 (Some pp) i of
                  None \<Rightarrow> s1
                | Some b \<Rightarrow>
                    (if ruleset (ctx_of s1 a) \<noteq> ruleset (ctx_of s1 b) then s1
                     else pe_context_switch en pp i (ident (ctx_of s1 a)) (p_uid (proc_of s1 pp))
                            (pe_proc_save_ctx pp i ck s1)))))"

definition pe_context_borrow :: "pe_env \<Rightarrow> nat option \<Rightarrow> nat option \<Rightarrow> cookie \<Rightarrow> pe \<Rightarrow> pe" where
  "pe_context_borrow en proc procp ck s =
     (case (proc, procp) of
        (Some p, Some pp) \<Rightarrow> fold (borrow_step en p pp ck) [0..<PE_PRIO_MAX] s
      | _ \<Rightarrow> s)"

definition pe_context_restore :: "nat option \<Rightarrow> cookie \<Rightarrow> pe \<Rightarrow> pe" where
  "pe_context_restore proc ck s =
     (case proc of None \<Rightarrow> s
      | Some p \<Rightarrow> fold (\<lambda>i. pe_proc_restore_ctx p i ck) [0..<PE_PRIO_MAX] s)"

text \<open>A context without ruleset counts as using every ruleset.\<close>

definition pe_context_uses_rs :: "pe_context \<Rightarrow> nat option \<Rightarrow> bool" where
  "pe_context_uses_rs x rs \<longleftrightarrow> rs \<noteq> None \<and> (ruleset x = rs \<or> ruleset x = None)"

subsection \<open>What context changes leave alone\<close>

text \<open>A process without its context slots.\<close>

definition core :: "pe_proc \<Rightarrow> pe_proc" where
  "core x = x\<lparr>p_context := (\<lambda>_. None), saved_ctx := (\<lambda>_. None), borrow_cookie := (\<lambda>_. 0)\<rparr>"

definition ctx_frame :: "pe \<Rightarrow> pe \<Rightarrow> bool" where
  "ctx_frame s s' \<longleftrightarrow> tracker s' = tracker s \<and> pdb s' = pdb s \<and> pgs s' = pgs s \<and>
     upgrade_tree s' = upgrade_tree s \<and> upgrade_counter s' = upgrade_counter s \<and>
     have_task_tracking s' = have_task_tracking s \<and> upgrade_msgs s' = upgrade_msgs s \<and>
     (\<forall>q. map_option core (procs s' q) = map_option core (procs s q))"

lemma ctx_frame_refl [simp, intro]: "ctx_frame s s"
  by (simp add: ctx_frame_def)

lemma ctx_frame_trans: "ctx_frame s s' \<Longrightarrow> ctx_frame s' s'' \<Longrightarrow> ctx_frame s s''"
  by (simp add: ctx_frame_def)

lemma ctx_frame_tracker: "ctx_frame s s' \<Longrightarrow> tracker s' = tracker s"
  by (simp add: ctx_frame_def)

lemma ctx_frame_pdb: "ctx_frame s s' \<Longrightarrow> pdb s' = pdb s"
  by (simp add: ctx_frame_def)

lemma ctx_frame_live: "ctx_frame s s' \<Longrightarrow> procs s' q \<noteq> None \<longleftrightarrow> procs s q \<noteq> None"
  unfolding ctx_frame_def by (metis option.map_disc_iff)

lemma ctx_frame_core: "ctx_frame s s' \<Longrightarrow> core (proc_of s' q) = core (proc_of s q)"
proof -
  assume "ctx_frame s s'"
  then have "map_option core (procs s' q) = map_option core (procs s q)" by (simp add: ctx_frame_def)
  then show ?thesis by (cases "procs s q"; cases "procs s' q") (simp_all add: proc_of_def)
qed

lemma core_eqD:
  assumes "core x = core y"
  shows "p_uid x = p_uid y" "pgid x = pgid y" "p_flags x = p_flags y" "threads x = threads y"
    "p_ident x = p_ident y" "task_cookie x = task_cookie y" "instances x = instances y"
    "p_refcount x = p_refcount y"
  using arg_cong [OF assms, of p_uid] arg_cong [OF assms, of pgid] arg_cong [OF assms, of p_flags]
    arg_cong [OF assms, of threads] arg_cong [OF assms, of p_ident] arg_cong [OF assms, of task_cookie]
    arg_cong [OF assms, of instances] arg_cong [OF assms, of p_refcount]
  by (simp_all add: core_def)

lemma frame_put [intro]: "ctx_frame s (pe_context_put c s)"
  by (auto simp: ctx_frame_def pe_context_put_def split: option.split)

lemma frame_ref [intro]: "ctx_frame s (pe_context_reference c s)"
  by (auto simp: ctx_frame_def pe_context_reference_def split: option.split)

lemma frame_alloc: "pe_context_alloc rs i s = (a, s') \<Longrightarrow> ctx_frame s s'"
  by (auto simp: ctx_frame_def pe_context_alloc_def Let_def)

lemma frame_upd_ctx [intro]: "ctx_frame s (upd_ctx a f s)"
  by (auto simp: ctx_frame_def upd_ctx_def split: option.split)

lemma frame_cache [intro]: "ctx_frame s (s\<lparr>cache := c\<rparr>)"
  by (simp add: ctx_frame_def)

lemma frame_upd_proc: "(\<And>x. core (f x) = core x) \<Longrightarrow> ctx_frame s (upd_proc p f s)"
  by (auto simp: ctx_frame_def upd_proc_def option.map_comp o_def split: option.split)

lemma frame_set_context [intro]: "ctx_frame s (pe_proc_set_context p i c s)"
  unfolding pe_proc_set_context_def Let_def
  by (auto intro!: ctx_frame_trans [OF frame_ref ctx_frame_trans [OF frame_put frame_upd_proc]] simp: core_def)

lemma frame_set_savedctx [intro]: "ctx_frame s (pe_proc_set_savedctx p i c s)"
  unfolding pe_proc_set_savedctx_def Let_def
  by (auto intro!: ctx_frame_trans [OF frame_ref ctx_frame_trans [OF frame_put frame_upd_proc]] simp: core_def)

lemma frame_save_ctx [intro]: "ctx_frame s (pe_proc_save_ctx p i ck s)"
  unfolding pe_proc_save_ctx_def by (auto intro!: frame_upd_proc simp: core_def)

lemma frame_drop_saved_ctx [intro]: "ctx_frame s (pe_proc_drop_saved_ctx p i s)"
  unfolding pe_proc_drop_saved_ctx_def
  by (auto intro!: ctx_frame_trans [OF frame_put frame_upd_proc] simp: core_def split: option.split)

lemma frame_restore_ctx [intro]: "ctx_frame s (pe_proc_restore_ctx p i ck s)"
  unfolding pe_proc_restore_ctx_def Let_def
  by (auto intro!: ctx_frame_trans [OF frame_set_context ctx_frame_trans [OF frame_put frame_upd_proc]]
      simp: core_def split: option.split)

subsection \<open>Context changes keep the reference counts\<close>

text \<open>
  \<open>keeps p s s'\<close>: from \<open>s\<close> to \<open>s'\<close> nothing but contexts, context slots and the checksum cache
  changes, and the reference counts stay exact as long as the processes in \<open>P\<close> are live.
\<close>

definition keeps :: "nat set \<Rightarrow> pe \<Rightarrow> pe \<Rightarrow> bool" where
  "keeps P s s' \<longleftrightarrow> ctx_frame s s' \<and>
     (\<forall>E F. pe_inv s E F \<longrightarrow> (\<forall>p\<in>P. procs s p \<noteq> None) \<longrightarrow> pe_inv s' E F)"

lemma keeps_refl [simp, intro]: "keeps P s s"
  by (simp add: keeps_def)

lemma keeps_trans: "keeps P s s' \<Longrightarrow> keeps P s' s'' \<Longrightarrow> keeps P s s''"
  unfolding keeps_def using ctx_frame_trans ctx_frame_live by blast

lemma keeps_fold: "(\<And>i s. i \<in> set is \<Longrightarrow> keeps P s (f i s)) \<Longrightarrow> keeps P s (fold f is s)"
proof (induction "is" arbitrary: s)
  case (Cons i "is")
  then show ?case using keeps_trans [of P s "f i s"] by simp
qed simp

lemma keeps_inv: "keeps P s s' \<Longrightarrow> pe_inv s E F \<Longrightarrow> (\<And>p. p \<in> P \<Longrightarrow> procs s p \<noteq> None) \<Longrightarrow> pe_inv s' E F"
  by (simp add: keeps_def)

lemma keeps_frame: "keeps P s s' \<Longrightarrow> ctx_frame s s'"
  by (simp add: keeps_def)

lemma keeps_mono: "keeps P s s' \<Longrightarrow> P \<subseteq> Q \<Longrightarrow> keeps Q s s'"
  unfolding keeps_def by blast

lemma keeps_cache: "keeps P s (s\<lparr>cache := c\<rparr>)"
  unfolding keeps_def by (auto elim: pe_inv_cong)

lemma keeps_decide:
  assumes "pe_context_decide en proc ty i pident u s = (r, s')"
  shows "keeps P s s'"
  using assms keeps_cache
  by (auto simp: pe_context_decide_def split: option.splits if_splits prod.splits)

text \<open>A search returns a context with one reference for the caller.\<close>

lemma search_inv:
  assumes "pe_context_search en rs pident u g s = (ctx, s')"
  shows "ctx_frame s s'" and "pe_inv s E F \<Longrightarrow> pe_inv s' (E + opt_ms ctx) F \<and> (\<forall>a. ctx = Some a \<longrightarrow> ctxs s' a \<noteq> None)"
proof -
  have "ctx_frame s s' \<and> (pe_inv s E F \<longrightarrow> pe_inv s' (E + opt_ms ctx) F \<and> (\<forall>a. ctx = Some a \<longrightarrow> ctxs s' a \<noteq> None))"
  proof (cases rs)
    case (Some r)
    obtain a s1 where al: "pe_context_alloc (Some (rs_addr r)) pident s = (a, s1)"
      by (cases "pe_context_alloc (Some (rs_addr r)) pident s")
    obtain f c3 where s': "s' = (upd_ctx a f s1)\<lparr>cache := c3\<rparr>" "ctx = Some a"
      and f: "\<And>x. refcount (f x) = refcount x"
      using assms al Some by (auto simp: pe_context_search_def Let_def split: prod.splits)
    have fr: "ctx_frame s s'"
      using ctx_frame_trans [OF frame_alloc [OF al] ctx_frame_trans [OF frame_upd_ctx frame_cache]]
      by (simp add: s')
    have "pe_inv s' (E + opt_ms ctx) F \<and> (\<forall>a. ctx = Some a \<longrightarrow> ctxs s' a \<noteq> None)" if inv: "pe_inv s E F"
    proof -
      from pe_inv_ctx_alloc [OF inv al] obtain x where x: "pe_inv s1 (add_mset a E) F" "ctxs s1 a = Some x" by auto
      have "pe_inv (upd_ctx a f s1) (add_mset a E) F"
        by (rule pe_inv_upd_ctx [OF x]) (simp add: f)
      then have "pe_inv s' (add_mset a E) F" unfolding s' by (rule pe_inv_cong) simp_all
      moreover have "ctxs s' a \<noteq> None" using x(2) by (simp add: s' upd_ctx_def)
      ultimately show ?thesis by (simp add: s')
    qed
    with fr show ?thesis by blast
  qed (use assms in \<open>simp add: pe_context_search_def\<close>)
  then show "ctx_frame s s'"
    and "pe_inv s E F \<Longrightarrow> pe_inv s' (E + opt_ms ctx) F \<and> (\<forall>a. ctx = Some a \<longrightarrow> ctxs s' a \<noteq> None)" by blast+
qed

lemma keeps_search_put:
  assumes "pe_context_search en rs pident u g s = (ctx, s')"
  shows "keeps P s (pe_context_put ctx s')"
  unfolding keeps_def
  using ctx_frame_trans [OF search_inv(1) [OF assms] frame_put] search_inv(2) [OF assms] pe_inv_ctx_put by blast

lemma keeps_search_set:
  assumes "pe_context_search en rs pident u g s = (ctx, s')"
  shows "keeps {p} s (pe_context_put ctx (pe_proc_set_context p i ctx s'))"
    and "keeps {p} s (pe_context_put ctx (pe_proc_set_savedctx p i ctx s'))"
proof -
  note fr = search_inv(1) [OF assms]
  have "procs s p \<noteq> None \<Longrightarrow> procs s' p \<noteq> None" using ctx_frame_live [OF fr] by blast
  then show "keeps {p} s (pe_context_put ctx (pe_proc_set_context p i ctx s'))"
    and "keeps {p} s (pe_context_put ctx (pe_proc_set_savedctx p i ctx s'))"
    unfolding keeps_def
    using ctx_frame_trans [OF fr ctx_frame_trans [OF frame_set_context frame_put]]
      ctx_frame_trans [OF fr ctx_frame_trans [OF frame_set_savedctx frame_put]]
      search_inv(2) [OF assms] pe_inv_set_context pe_inv_set_savedctx pe_inv_ctx_put
    by (meson singletonI)+
qed

lemma keeps_alloc_set:
  assumes "pe_context_alloc rs pident s = (b, s')"
  shows "keeps {p} s (pe_context_put (Some b) (pe_proc_set_context p i (Some b) s'))"
    and "keeps {p} s (pe_context_put (Some b) (pe_proc_set_savedctx p i (Some b) s'))"
proof -
  note fr = frame_alloc [OF assms]
  have live: "procs s p \<noteq> None \<Longrightarrow> procs s' p \<noteq> None" using ctx_frame_live [OF fr] by blast
  have "pe_inv s' (E + opt_ms (Some b)) F \<and> ctxs s' b \<noteq> None" if "pe_inv s E F" for E F
    using pe_inv_ctx_alloc [OF that assms] by simp
  with live show "keeps {p} s (pe_context_put (Some b) (pe_proc_set_context p i (Some b) s'))"
    and "keeps {p} s (pe_context_put (Some b) (pe_proc_set_savedctx p i (Some b) s'))"
    unfolding keeps_def
    using ctx_frame_trans [OF fr ctx_frame_trans [OF frame_set_context frame_put]]
      ctx_frame_trans [OF fr ctx_frame_trans [OF frame_set_savedctx frame_put]]
      pe_inv_set_context pe_inv_set_savedctx pe_inv_ctx_put
    by (metis option.inject singletonI)+
qed

lemma keeps_drop_saved: "keeps {p} s (pe_proc_drop_saved_ctx p i s)"
  unfolding keeps_def using pe_inv_drop_saved_ctx by blast

lemma keeps_save: "keeps {p} s (pe_proc_save_ctx p i ck s)"
  unfolding keeps_def using pe_inv_save_ctx by blast

lemma keeps_restore_ctx: "keeps {p} s (pe_proc_restore_ctx p i ck s)"
  unfolding keeps_def using pe_inv_restore_ctx by blast

text \<open>Taking over the context of another process.\<close>

lemma keeps_inherit:
  assumes "pe_proc_get_context s (Some q) i = Some c"
  shows "keeps {p, q} s (pe_proc_set_context p i (Some c) s)"
  unfolding keeps_def
proof (intro conjI allI impI)
  fix E F
  assume inv: "pe_inv s E F" and live: "\<forall>r\<in>{p, q}. procs s r \<noteq> None"
  then obtain x where x: "procs s q = Some x" by auto
  have "i < PE_PRIO_MAX" "p_context x i = Some c"
    using assms x by (auto simp: pe_proc_get_context_def proc_of_def split: if_splits)
  then have "ctxs s c \<noteq> None" using pe_inv_slot_live [OF inv x slot_held(1)] by blast
  with inv live show "pe_inv (pe_proc_set_context p i (Some c) s) E F"
    by (intro pe_inv_set_context) auto
qed (rule frame_set_context)

lemma keeps_norules: "keeps {p} s (pe_context_norules p i s)" "keeps {p} s (pe_savedctx_norules p i s)"
  using keeps_alloc_set
  by (auto simp: pe_context_norules_def pe_savedctx_norules_def Let_def split: option.split prod.split)

lemma keeps_switch: "keeps {p} s (pe_context_switch en p i pident u s)"
  using keeps_norules(1) keeps_search_set(1)
  by (auto simp: pe_context_switch_def Let_def split: option.split prod.split)

lemma keeps_refresh: "keeps {p} s (pe_context_refresh en p i db s)"
proof (cases "i < PE_PRIO_MAX")
  case True
  show ?thesis
  proof (cases "pe_user_get_ruleset (p_uid (proc_of s p)) i db")
    case None
    with True show ?thesis
      using keeps_trans [OF keeps_norules(1) keeps_norules(2)] by (simp add: pe_context_refresh_def)
  next
    case (Some rs)
    define pident where "pident = (case pe_proc_get_context s (Some p) i of
        Some a \<Rightarrow> ident (ctx_of s a) | None \<Rightarrow> p_ident (proc_of s p))"
    obtain ctx s1 where s1: "pe_context_search en (Some rs) (Some pident) (p_uid (proc_of s p))
        (pgid (proc_of s p) \<noteq> 0) s = (ctx, s1)" by fastforce
    define s2 where "s2 = pe_context_put ctx (pe_proc_set_context p i ctx s1)"
    have k: "keeps {p} s s2" unfolding s2_def by (rule keeps_search_set(1) [OF s1])
    show ?thesis
    proof (cases "pe_proc_get_savedctx s2 (Some p) i")
      case None
      with True Some s1 k show ?thesis by (simp add: pe_context_refresh_def pident_def s2_def Let_def)
    next
      case (Some a)
      obtain ctx' s3 where s3: "pe_context_search en (Some rs) (Some (ident (ctx_of s2 a)))
          (p_uid (proc_of s2 p)) (pgid (proc_of s2 p) \<noteq> 0) s2 = (ctx', s3)" by fastforce
      have "pe_context_refresh en p i db s = pe_context_put ctx' (pe_proc_set_savedctx p i ctx' s3)"
        using True \<open>pe_user_get_ruleset (p_uid (proc_of s p)) i db = Some rs\<close> s1 s3 Some
        by (simp add: pe_context_refresh_def pident_def [symmetric] s2_def [symmetric] Let_def)
      with keeps_trans [OF k keeps_search_set(2) [OF s3]] show ?thesis by simp
    qed
  qed
qed (simp add: pe_context_refresh_def)

lemma keeps_fork: "keeps (insert p (set_option parent)) s (pe_context_fork en p parent s)"
  unfolding pe_context_fork_def
proof (rule keeps_fold)
  fix i s
  have sw: "keeps {p} s (pe_proc_drop_saved_ctx p i
      (pe_context_switch en p i (p_ident (proc_of s p)) (p_uid (proc_of s p)) s))"
    by (rule keeps_trans [OF keeps_switch keeps_drop_saved])
  have inh: "keeps {p, q} s (pe_proc_set_context p i (Some c) s)" if "pe_proc_get_context s (Some q) i = Some c" for q c
    by (rule keeps_inherit [OF that])
  show "keeps (insert p (set_option parent)) s
      (case (case parent of None \<Rightarrow> None
             | Some q \<Rightarrow> if p_uid (proc_of s q) = p_uid (proc_of s p) then pe_proc_get_context s (Some q) i else None) of
         Some ctx \<Rightarrow> pe_proc_set_context p i (Some ctx) s
       | None \<Rightarrow> pe_proc_drop_saved_ctx p i
           (pe_context_switch en p i (p_ident (proc_of s p)) (p_uid (proc_of s p)) s))"
    using keeps_mono [OF sw] inh by (auto split: option.split)
qed

lemma keeps_exec_loop:
  "keeps {p} s (fold (\<lambda>i s.
      case pe_context_decide en (Some p) ty i (pident i s) (u1 i s) s of
        (False, s') \<Rightarrow> s'
      | (True, s') \<Rightarrow> pe_proc_drop_saved_ctx p i (pe_context_switch en p i (pident i s) (u2 i s) s'))
    is s)"
  by (rule keeps_fold)
    (auto split: prod.split bool.split intro: keeps_decide
      intro!: keeps_trans [OF keeps_decide keeps_trans [OF keeps_switch keeps_drop_saved]])

lemma pe_inv_exec:
  assumes "pe_inv s E F" and "procs s p \<noteq> None"
  shows "pe_inv (pe_context_exec en p u pident s) E F"
    and "tracker (pe_context_exec en p u pident s) = tracker s"
proof -
  define s1 where "s1 = fold (\<lambda>i s.
            case pe_context_decide en (Some p) APN_CTX_NEW i pident u s of
              (False, s') \<Rightarrow> s'
            | (True, s') \<Rightarrow> pe_proc_drop_saved_ctx p i (pe_context_switch en p i pident u s'))
          [0..<PE_PRIO_MAX] s"
  have k: "keeps {p} s s1" unfolding s1_def by (rule keeps_exec_loop)
  have inv: "pe_inv s1 E F" using keeps_inv [OF k assms(1)] assms(2) by simp
  have live: "procs s1 p \<noteq> None" using ctx_frame_live [OF keeps_frame [OF k]] assms(2) by blast
  have "pe_inv (pe_proc_set_uid p u s1) E F"
    unfolding pe_proc_set_uid_def by (rule pe_inv_upd_plain [OF inv live]) (simp add: held_def)
  with inv show "pe_inv (pe_context_exec en p u pident s) E F"
    unfolding pe_context_exec_def Let_def s1_def [symmetric] by simp
  show "tracker (pe_context_exec en p u pident s) = tracker s"
    using ctx_frame_tracker [OF keeps_frame [OF k]]
    unfolding pe_context_exec_def Let_def s1_def [symmetric] by (simp add: pe_proc_set_uid_def)
qed

lemma keeps_will_transition_loop:
  "will_transition_loop en p u pident is s = (r, s') \<Longrightarrow> keeps P s s'"
proof (induction "is" arbitrary: s)
  case (Cons i "is")
  obtain d s1 where d: "pe_context_decide en (Some p) APN_CTX_NEW i pident u s = (d, s1)" by fastforce
  have k1: "keeps P s s1" by (rule keeps_decide [OF d])
  show ?case
  proof (cases "d \<and> pe_user_get_ruleset u i (pdb s1) \<noteq> None")
    case True
    then obtain rs where rs: "pe_user_get_ruleset u i (pdb s1) = Some rs" by blast
    obtain tmp s2 where s2: "pe_context_search en (Some rs) (Some pident) u (pgid (proc_of s1 p) \<noteq> 0) s1 = (tmp, s2)"
      by fastforce
    then obtain a where a: "tmp = Some a" by (auto simp: pe_context_search_def Let_def split: prod.splits)
    have k2: "keeps P s (pe_context_put tmp s2)" by (rule keeps_trans [OF k1 keeps_search_put [OF s2]])
    from Cons.prems True d rs s2 a
    consider "s' = pe_context_put tmp s2" | "will_transition_loop en p u pident is (pe_context_put tmp s2) = (r, s')"
      by (auto simp: Let_def split: if_splits option.splits)
    then show ?thesis using k2 Cons.IH keeps_trans by cases blast+
  next
    case False
    with Cons.prems d have "will_transition_loop en p u pident is s1 = (r, s')"
      by (auto split: bool.splits option.splits)
    from keeps_trans [OF k1 Cons.IH [OF this]] show ?thesis .
  qed
qed auto

lemma keeps_will_pg_loop:
  "will_pg_loop en p u pident is s = (r, s') \<Longrightarrow> keeps P s s'"
proof (induction "is" arbitrary: s)
  case (Cons i "is")
  obtain d s1 where d: "pe_context_decide en (Some p) APN_CTX_NEW i pident u s = (d, s1)" by fastforce
  have k1: "keeps P s s1" by (rule keeps_decide [OF d])
  show ?case
  proof (cases "d \<and> pe_user_get_ruleset u i (pdb s1) \<noteq> None")
    case True
    then obtain rs where rs: "pe_user_get_ruleset u i (pdb s1) = Some rs" by blast
    obtain tmp s2 where s2: "pe_context_search en (Some rs) (Some pident) u (pgid (proc_of s1 p) \<noteq> 0) s1 = (tmp, s2)"
      by fastforce
    then obtain a where a: "tmp = Some a" by (auto simp: pe_context_search_def Let_def split: prod.splits)
    have k2: "keeps P s (pe_context_put tmp s2)" by (rule keeps_trans [OF k1 keeps_search_put [OF s2]])
    from Cons.prems True d rs s2 a
    consider "s' = pe_context_put tmp s2" | "will_pg_loop en p u pident is (pe_context_put tmp s2) = (r, s')"
      by (auto simp: Let_def split: if_splits option.splits)
    then show ?thesis using k2 Cons.IH keeps_trans by cases blast+
  next
    case False
    with Cons.prems d have "will_pg_loop en p u pident is s1 = (r, s')"
      by (auto split: bool.splits option.splits)
    from keeps_trans [OF k1 Cons.IH [OF this]] show ?thesis .
  qed
qed auto

lemma keeps_open_loop:
  "keeps {p} s (fold (\<lambda>i s.
      case pe_context_decide en (Some p) ty i pident (u1 i s) s of
        (False, s') \<Rightarrow> s'
      | (True, s') \<Rightarrow> pe_context_switch en p i pident u2 s')
    is s)"
proof (rule keeps_fold)
  fix i s
  obtain d s1 where d: "pe_context_decide en (Some p) ty i pident (u1 i s) s = (d, s1)" by fastforce
  show "keeps {p} s (case pe_context_decide en (Some p) ty i pident (u1 i s) s of
      (False, s') \<Rightarrow> s' | (True, s') \<Rightarrow> pe_context_switch en p i pident u2 s')"
    using keeps_decide [OF d] keeps_trans [OF keeps_decide [OF d] keeps_switch]
    by (auto simp: d split: bool.split)
qed

lemma keeps_open: "keeps (set_option proc) s (pe_context_open en proc m s)"
  using keeps_open_loop by (auto simp: pe_context_open_def Let_def split: option.split)

lemma keeps_borrow_step: "keeps {p, pp} s (borrow_step en p pp ck i s)"
proof (cases "pe_proc_get_context s (Some p) i")
  case (Some a)
  obtain d s1 where d: "pe_context_decide en (Some pp) APN_CTX_BORROW i (ident (ctx_of s a))
      (p_uid (proc_of s p)) s = (d, s1)" by fastforce
  have k: "keeps {p, pp} s s1" by (rule keeps_decide [OF d])
  have "keeps {p, pp} s1 (pe_context_switch en pp i j u (pe_proc_save_ctx pp i ck s1))" for j u
    by (rule keeps_mono [OF keeps_trans [OF keeps_save keeps_switch]]) simp
  with k keeps_trans [OF k] Some d show ?thesis
    by (auto simp: borrow_step_def split: bool.split option.split)
qed (simp add: borrow_step_def)

lemma keeps_borrow: "keeps (set_option proc \<union> set_option procp) s (pe_context_borrow en proc procp ck s)"
  using keeps_fold [OF keeps_borrow_step]
  by (auto simp: pe_context_borrow_def insert_commute split: option.split)

lemma keeps_context_restore: "keeps (set_option proc) s (pe_context_restore proc ck s)"
  unfolding pe_context_restore_def by (auto split: option.split intro!: keeps_fold keeps_restore_ctx)

end
