(* ===== verification/Process.thy ===== *)
theory Process
  imports Context
begin

text \<open>
  Process tracking and the life cycle of upgrades: the process events of
  \<^verbatim>\<open>src/src/anoubisd/pe_proc.c\<close>, the upgrade functions of \<^verbatim>\<open>src/src/anoubisd/pe.c\<close>, the policy
  reload functions of \<^verbatim>\<open>src/src/anoubisd/pe_user.c\<close> and the socket events of
  \<^verbatim>\<open>src/src/anoubisd/pe_ipc.c\<close>.
\<close>

subsection \<open>Upgrades\<close>

text \<open>\<^verbatim>\<open>pe_upgrade_start\<close>; opening and locking the version file of the SFS tree succeeds.\<close>

definition pe_upgrade_start :: "nat option \<Rightarrow> pe \<Rightarrow> pe" where
  "pe_upgrade_start proc s =
     (if pe_proc_is_upgrade_parent s proc then s
      else if upgrade_tree s \<noteq> None \<and> upgrade_counter s = 0 then pe_proc_hold proc s
      else
        (let s1 = (if upgrade_tree s = None then s\<lparr>upgrade_tree := Some pe_filetree_create\<rparr> else s);
             s2 = pe_proc_upgrade_addmark proc s1
         in s2\<lparr>sfsversion_locked := True, upgrade_counter := upgrade_counter s2 + 1\<rparr>))"

definition pe_proc_is_running :: "cookie \<Rightarrow> pe \<Rightarrow> bool \<times> pe" where
  "pe_proc_is_running ck s =
     (let (proc, s1) = pe_proc_get ck s;
          ret = (case proc of None \<Rightarrow> False
                 | Some p \<Rightarrow> threads (proc_of s1 p) > 0 \<or> \<not> have_task_tracking s1)
      in (ret, pe_proc_put proc s1))"

text \<open>
  The loop over the file tree at the end of an upgrade: files of tasks that are still running are
  taken out of the tree. The successor of a node is computed before the node is removed, so
  the loop visits the nodes the tree had at its start.
\<close>

fun upgrade_prune :: "pe_filetree_node list \<Rightarrow> cookie \<Rightarrow> pe \<Rightarrow> pe" where
  "upgrade_prune [] last_cookie s = s"
| "upgrade_prune (it # its) last_cookie s =
     (if ft_cookie it = 0 \<or> ft_cookie it = last_cookie then upgrade_prune its last_cookie s
      else case pe_proc_is_running (ft_cookie it) s of
        (True, s1) \<Rightarrow>
          upgrade_prune its last_cookie (s1\<lparr>upgrade_tree := pe_filetree_remove (upgrade_tree s1) (ft_path it)\<rparr>)
      | (False, s1) \<Rightarrow> upgrade_prune its (ft_cookie it) s1)"

definition pe_upgrade_filelist_start :: "pe \<Rightarrow> pe" where
  "pe_upgrade_filelist_start s =
     (if upgrade_tree s = None \<or> upgrade_counter s \<noteq> 0 then s\<lparr>upgrade_iterator := None\<rparr>
      else s\<lparr>upgrade_iterator := pe_filetree_start (upgrade_tree s)\<rparr>)"

text \<open>\<^verbatim>\<open>send_upgrade_start\<close> of \<^verbatim>\<open>policy.c\<close>; \<open>upgrade_msgs\<close> counts the messages it queued for the master.\<close>

definition send_upgrade_start :: "pe \<Rightarrow> pe" where
  "send_upgrade_start s = pe_upgrade_filelist_start (s\<lparr>upgrade_msgs := upgrade_msgs s + 1\<rparr>)"

definition pe_upgrade_end :: "nat option \<Rightarrow> pe \<Rightarrow> pe" where
  "pe_upgrade_end proc s =
     (let isparent = pe_proc_is_upgrade_parent s proc;
          s1 = pe_proc_upgrade_clrmark proc s
      in if \<not> isparent then s1
         else
           (let s2 = s1\<lparr>upgrade_counter := upgrade_counter s1 - 1\<rparr>
            in if upgrade_counter s2 > 0 then s2
               else
                 (let s3 = upgrade_prune (case upgrade_tree s2 of None \<Rightarrow> [] | Some t \<Rightarrow> t) 0 s2;
                      s4 = pe_proc_upgrade_clrallmarks s3
                  in send_upgrade_start (s4\<lparr>upgrade_iterator := None\<rparr>))))"

definition pe_upgrade_filelist_next :: "pe \<Rightarrow> pe" where
  "pe_upgrade_filelist_next s =
     (if upgrade_tree s = None \<or> upgrade_counter s \<noteq> 0 \<or> upgrade_iterator s = None
      then s\<lparr>upgrade_iterator := None\<rparr>
      else s\<lparr>upgrade_iterator := pe_filetree_next (upgrade_tree s) (upgrade_iterator s)\<rparr>)"

definition pe_upgrade_filelist_get :: "pe \<Rightarrow> pe_filetree_node option \<times> pe" where
  "pe_upgrade_filelist_get s =
     (let s1 = (if upgrade_tree s = None \<or> upgrade_counter s \<noteq> 0 then s\<lparr>upgrade_iterator := None\<rparr> else s)
      in (upgrade_iterator s1, s1))"

definition pe_upgrade_finish :: "pe \<Rightarrow> pe" where
  "pe_upgrade_finish s =
     s\<lparr>upgrade_tree := pe_filetree_destroy (upgrade_tree s), cache := sfshash_flush (cache s),
       upgrade_iterator := None, sfsversion_locked := False\<rparr>"

definition pe_proc_release :: "pe \<Rightarrow> pe" where
  "pe_proc_release s =
     fold (\<lambda>p s.
         if pe_proc_get_flag s (Some p) PE_PROC_FLAGS_HOLD
         then pe_upgrade_start (Some p) (pe_proc_clr_flag (Some p) PE_PROC_FLAGS_HOLD s)
         else s) (tracker s) s"

subsection \<open>Process events\<close>

definition pe_proc_fork :: "pe_env \<Rightarrow> uid \<Rightarrow> cookie \<Rightarrow> cookie \<Rightarrow> cookie \<Rightarrow> u64 \<Rightarrow> pe \<Rightarrow> pe" where
  "pe_proc_fork en u child parent_cookie g now s =
     (let (parent, s1) = pe_proc_get parent_cookie s;
          pident = (case parent of None \<Rightarrow> None | Some q \<Rightarrow> Some (p_ident (proc_of s1 q)));
          (p, s2) = pe_proc_alloc u child pident g now s1;
          s3 = pe_context_fork en p parent (pe_proc_track p s2);
          s4 = pe_proc_upgrade_inherit (Some p) (pe_proc_is_upgrade s3 parent) s3;
          s5 = pe_proc_secure_inherit (Some p) (pe_proc_is_secure s4 parent) s4
      in pe_proc_put (Some p) (pe_proc_put parent s5))"

definition pe_proc_addinstance :: "cookie \<Rightarrow> pe \<Rightarrow> pe" where
  "pe_proc_addinstance ck s =
     (case pe_proc_get ck s of
        (None, s1) \<Rightarrow> s1
      | (Some p, s1) \<Rightarrow> pe_proc_put (Some p) (upd_proc p (\<lambda>x. x\<lparr>instances := instances x + 1\<rparr>) s1))"

definition pe_proc_exit :: "cookie \<Rightarrow> pe \<Rightarrow> pe" where
  "pe_proc_exit ck s =
     (case pe_proc_get ck s of
        (None, s1) \<Rightarrow> s1
      | (Some p, s1) \<Rightarrow>
          (let s2 = upd_proc p (\<lambda>x. x\<lparr>instances := instances x - 1\<rparr>) s1
           in if instances (proc_of s2 p) \<noteq> 0 then pe_proc_put (Some p) s2
              else pe_proc_put (Some p) (pe_upgrade_end (Some p) (pe_proc_untrack p s2))))"

definition pe_proc_add_thread :: "cookie \<Rightarrow> u64 \<Rightarrow> pe \<Rightarrow> pe" where
  "pe_proc_add_thread ck now s =
     (case pe_proc_get ck s of
        (None, s1) \<Rightarrow> s1\<lparr>have_task_tracking := True\<rparr>
      | (Some p, s1) \<Rightarrow>
          (let s2 = s1\<lparr>have_task_tracking := True\<rparr>;
               x = proc_of s2 p;
               s3 = (if threads x = 0 \<and> pgid x \<noteq> 0
                     then s2\<lparr>pgs := pe_playground_add (pgid x) x now (pgs s2)\<rparr> else s2)
           in pe_proc_put (Some p) (upd_proc p (\<lambda>x. x\<lparr>threads := threads x + 1\<rparr>) s3)))"

definition pe_proc_remove_thread :: "cookie \<Rightarrow> pe \<Rightarrow> pe" where
  "pe_proc_remove_thread ck s =
     (case pe_proc_get ck s of
        (None, s1) \<Rightarrow> s1\<lparr>have_task_tracking := True\<rparr>
      | (Some p, s1) \<Rightarrow>
          (let s2 = s1\<lparr>have_task_tracking := True\<rparr>
           in if threads (proc_of s2 p) > 0 then
                (let s3 = upd_proc p (\<lambda>x. x\<lparr>threads := threads x - 1\<rparr>) s2;
                     s4 = (if threads (proc_of s3 p) = 0 then
                             pe_upgrade_end (Some p)
                               (if pgid (proc_of s3 p) \<noteq> 0
                                then s3\<lparr>pgs := pe_playground_delete (pgid (proc_of s3 p)) (pgs s3)\<rparr> else s3)
                           else s3)
                 in pe_proc_put (Some p) s4)
              else pe_proc_put (Some p) s2))"

definition pe_proc_exec ::
    "pe_env \<Rightarrow> cookie \<Rightarrow> uid \<Rightarrow> int \<Rightarrow> bytes \<Rightarrow> string option \<Rightarrow> cookie \<Rightarrow> bool \<Rightarrow> u64 \<Rightarrow> pe \<Rightarrow> pe" where
  "pe_proc_exec en ck u pd cs path g secure now s =
     (let (r, s1) = pe_proc_get ck s;
          (p, s2) = (case r of
              Some p \<Rightarrow> (p, s1)
            | None \<Rightarrow> (case pe_proc_alloc u ck None g now s1 of (p, s') \<Rightarrow> (p, pe_proc_track p s')));
          s3 = pe_proc_set_pid (Some p) pd (upd_proc p (\<lambda>x. x\<lparr>p_ident := pe_proc_ident_set cs path\<rparr>) s2);
          s4 = (if pgid (proc_of s3 p) \<noteq> 0
                then s3\<lparr>pgs := pe_playground_postexec (pgid (proc_of s3 p)) (proc_of s3 p) now (pgs s3)\<rparr>
                else s3);
          s5 = pe_context_exec en p u (p_ident (proc_of s4 p)) s4;
          s6 = (if secure then pe_proc_set_flag (Some p) PE_PROC_FLAGS_SECUREEXEC s5
                else pe_proc_clr_flag (Some p) PE_PROC_FLAGS_SECUREEXEC s5);
          s7 = (if u = 0 \<and> upgrade_mode en = ANOUBISD_UPGRADE_MODE_PROCESS \<and>
                   (case path of None \<Rightarrow> False | Some q \<Rightarrow> q \<in> set (upgrade_trigger en))
                then pe_upgrade_start (Some p) s6 else s6)
      in pe_proc_put (Some p) s7)"

text \<open>
  The flags added to a successful exec reply: secure exec, playground. The third component is
  the rule that forces a playground, reported unless the process already is in one.
\<close>

definition pe_proc_flag_transition ::
    "pe_env \<Rightarrow> nat option \<Rightarrow> uid \<Rightarrow> bytes \<Rightarrow> string option \<Rightarrow> pe \<Rightarrow> (bool \<times> bool \<times> (nat \<times> nat) option) \<times> pe" where
  "pe_proc_flag_transition en proc u cs path s =
     (case proc of
        None \<Rightarrow> ((False, False, None), s)
      | Some p \<Rightarrow>
          (let pident = pe_proc_ident_set cs path;
               (tr, s1) = pe_context_will_transition en proc u pident s;
               (pg, s2) = pe_context_will_pg en proc u pident s1
           in ((tr, pg \<noteq> None, if pgid (proc_of s2 p) = 0 then pg else None), s2)))"

subsection \<open>Policy reload\<close>

definition pe_proc_update_db :: "pe_env \<Rightarrow> pe_policy_db \<Rightarrow> pe \<Rightarrow> pe" where
  "pe_proc_update_db en newpdb s =
     fold (\<lambda>p s. fold (\<lambda>i. pe_context_refresh en p i newpdb) [0..<PE_PRIO_MAX] s) (tracker s) s"

definition update_one :: "pe_env \<Rightarrow> nat option \<Rightarrow> nat \<Rightarrow> uid \<Rightarrow> nat \<Rightarrow> pe \<Rightarrow> pe" where
  "update_one en oldrs prio u p s =
     (case pe_proc_get_context s (Some p) prio of
        None \<Rightarrow> s
      | Some a \<Rightarrow>
          (if pe_context_uses_rs (ctx_of s a) oldrs \<or> (oldrs = None \<and> p_uid (proc_of s p) = u)
           then pe_context_refresh en p prio (pdb s) s else s))"

definition pe_proc_update_db_one :: "pe_env \<Rightarrow> nat option \<Rightarrow> nat \<Rightarrow> uid \<Rightarrow> pe \<Rightarrow> pe" where
  "pe_proc_update_db_one en oldrs prio u s = fold (update_one en oldrs prio u) (tracker s) s"

fun db_set :: "uid \<Rightarrow> nat \<Rightarrow> apn_ruleset \<Rightarrow> pe_policy_db \<Rightarrow> pe_policy_db" where
  "db_set u prio rs [] = [\<lparr>u_uid = u, u_prio = (\<lambda>_. None)(prio := Some rs)\<rparr>]"
| "db_set u prio rs (pu # db) =
     (if u_uid pu = u then pu\<lparr>u_prio := (u_prio pu)(prio := Some rs)\<rparr> # db else pu # db_set u prio rs db)"

text \<open>\<^verbatim>\<open>pe_user_insert_rs\<close> on the active database; the old ruleset is freed at the end.\<close>

definition pe_user_insert_rs :: "pe_env \<Rightarrow> apn_ruleset \<Rightarrow> uid \<Rightarrow> nat \<Rightarrow> pe \<Rightarrow> pe" where
  "pe_user_insert_rs en rs u prio s =
     (let oldrs = (case pe_user_get u (pdb s) of None \<Rightarrow> None | Some pu \<Rightarrow> u_prio pu prio)
      in pe_proc_update_db_one en (map_option rs_addr oldrs) prio u (s\<lparr>pdb := db_set u prio rs (pdb s)\<rparr>))"

text \<open>\<open>newdb\<close> is the database \<^verbatim>\<open>pe_user_load_db\<close> read from disk; the old one is flushed.\<close>

definition pe_user_reconfigure :: "pe_env \<Rightarrow> pe_policy_db \<Rightarrow> pe \<Rightarrow> pe" where
  "pe_user_reconfigure en newdb s = pe_proc_update_db en newdb (s\<lparr>pdb := newdb\<rparr>)"

definition pe_reconfigure :: "pe_env \<Rightarrow> pe_policy_db \<Rightarrow> pe \<Rightarrow> pe" where
  "pe_reconfigure en newdb s = pe_user_reconfigure en newdb (s\<lparr>cache := sfshash_flush (cache s)\<rparr>)"

subsection \<open>Socket events\<close>

definition pe_ipc_connect :: "pe_env \<Rightarrow> cookie \<Rightarrow> cookie \<Rightarrow> cookie \<Rightarrow> pe \<Rightarrow> pe" where
  "pe_ipc_connect en source dest conn s =
     (case pe_proc_get source s of
        (None, s1) \<Rightarrow> s1
      | (Some p, s1) \<Rightarrow>
          (case pe_proc_get dest s1 of
             (None, s2) \<Rightarrow> pe_proc_put (Some p) s2
           | (Some pp, s2) \<Rightarrow>
               pe_proc_put (Some pp) (pe_proc_put (Some p) (pe_context_borrow en (Some p) (Some pp) conn s2))))"

definition pe_ipc_destroy :: "cookie \<Rightarrow> cookie \<Rightarrow> pe \<Rightarrow> pe" where
  "pe_ipc_destroy source conn s =
     (case pe_proc_get source s of
        (None, s1) \<Rightarrow> s1
      | (Some p, s1) \<Rightarrow> pe_proc_put (Some p) (pe_context_restore (Some p) conn s1))"

text \<open>\<^verbatim>\<open>pe_handle_playgroundproc\<close> of \<^verbatim>\<open>pe.c\<close>.\<close>

definition pe_handle_playgroundproc :: "pe_env \<Rightarrow> cookie \<Rightarrow> cookie \<Rightarrow> u64 \<Rightarrow> pe \<Rightarrow> pe" where
  "pe_handle_playgroundproc en ck g now s =
     (case pe_proc_get ck s of
        (None, s1) \<Rightarrow> s1
      | (Some p, s1) \<Rightarrow>
          (let s2 = pe_proc_set_playgroundid p g now s1
           in pe_proc_put (Some p) (fold (\<lambda>i s. pe_context_refresh en p i (pdb s) s) [0..<PE_PRIO_MAX] s2)))"

definition pe_init :: "pe_policy_db \<Rightarrow> pg_state \<Rightarrow> pe" where
  "pe_init db pg =
     \<lparr>procs = Map.empty, tracker = [], ctxs = Map.empty, next_ptr = 0, have_task_tracking = False,
      pdb = db, cache = sfshash_init, pgs = pg, upgrade_tree = None, upgrade_counter = 0,
      upgrade_iterator = None, upgrade_ok = True, sfsversion_locked = False, upgrade_msgs = 0,
      fault = False, panicked = False\<rparr>"

definition pe_proc_shutdown :: "pe \<Rightarrow> pe" where
  "pe_proc_shutdown s =
     fold (\<lambda>p s. pe_proc_untrack p (upd_proc p (\<lambda>x. x\<lparr>instances := 0\<rparr>) s)) (tracker s) s"

subsection \<open>Reference counts: helper functions\<close>

text \<open>Processes that are tracked or referenced by the caller are live.\<close>

abbreviation known :: "pe \<Rightarrow> nat multiset \<Rightarrow> nat set" where
  "known s F \<equiv> set (tracker s) \<union> set_mset F"

lemma known_live: "pe_inv s E F \<Longrightarrow> p \<in> known s F \<Longrightarrow> procs s p \<noteq> None"
  using pe_inv_live [of s E F p] by auto

lemma pe_inv_fields [simp]:
  "pe_inv (s\<lparr>upgrade_tree := v1\<rparr>) E F \<longleftrightarrow> pe_inv s E F" "pe_inv (s\<lparr>upgrade_counter := v2\<rparr>) E F \<longleftrightarrow> pe_inv s E F"
  "pe_inv (s\<lparr>upgrade_iterator := v3\<rparr>) E F \<longleftrightarrow> pe_inv s E F" "pe_inv (s\<lparr>upgrade_msgs := v4\<rparr>) E F \<longleftrightarrow> pe_inv s E F"
  "pe_inv (s\<lparr>sfsversion_locked := v5\<rparr>) E F \<longleftrightarrow> pe_inv s E F" "pe_inv (s\<lparr>cache := v6\<rparr>) E F \<longleftrightarrow> pe_inv s E F"
  "pe_inv (s\<lparr>pgs := v7\<rparr>) E F \<longleftrightarrow> pe_inv s E F" "pe_inv (s\<lparr>pdb := v8\<rparr>) E F \<longleftrightarrow> pe_inv s E F"
  "pe_inv (s\<lparr>have_task_tracking := v9\<rparr>) E F \<longleftrightarrow> pe_inv s E F" "pe_inv (s\<lparr>upgrade_ok := v10\<rparr>) E F \<longleftrightarrow> pe_inv s E F"
  by (simp_all add: pe_inv_def)

lemma pe_inv_plain:
  assumes "pe_inv s E F" and "p \<in> known s F"
    and "\<And>x. held (f x) = held x \<and> p_refcount (f x) = p_refcount x \<and> instances (f x) = instances x"
  shows "pe_inv (upd_proc p f s) E F"
  using pe_inv_upd_plain [OF assms(1) known_live [OF assms(1,2)]] assms(3) by blast

lemma keeps_known:
  assumes "keeps P s s'" and "pe_inv s E F" and "P \<subseteq> known s F"
  shows "pe_inv s' E F" and "tracker s' = tracker s"
  using keeps_inv [OF assms(1,2)] known_live [OF assms(2)] assms(3)
    ctx_frame_tracker [OF keeps_frame [OF assms(1)]] by blast+

lemma tracker_put [simp]: "tracker (pe_proc_put r s) = tracker s"
  by (simp add: pe_proc_put_def Let_def split: option.split)

lemma tracker_get: "pe_proc_get ck s = (r, s') \<Longrightarrow> tracker s' = tracker s"
  by (auto simp: pe_proc_get_def split: option.splits)

lemma tracker_flags [simp]:
  "tracker (pe_proc_set_flag r fl s) = tracker s" "tracker (pe_proc_clr_flag r fl s) = tracker s"
  by (simp_all add: pe_proc_set_flag_def pe_proc_clr_flag_def split: option.split)

lemma pe_inv_flags:
  assumes "pe_inv s E F" and "set_option r \<subseteq> known s F"
  shows "pe_inv (pe_proc_set_flag r fl s) E F" and "pe_inv (pe_proc_clr_flag r fl s) E F"
  using assms
  by (auto simp: pe_proc_set_flag_def pe_proc_clr_flag_def held_def split: option.split intro!: pe_inv_plain)

lemma pe_inv_marks:
  assumes "pe_inv s E F" and "set_option r \<subseteq> known s F"
  shows "pe_inv (pe_proc_upgrade_addmark r s) E F" and "pe_inv (pe_proc_upgrade_clrmark r s) E F"
    and "pe_inv (pe_proc_upgrade_inherit r b s) E F" and "pe_inv (pe_proc_secure_inherit r b s) E F"
    and "pe_inv (pe_proc_hold r s) E F"
  using assms
  by (simp_all add: pe_proc_upgrade_addmark_def pe_proc_upgrade_clrmark_def pe_proc_upgrade_inherit_def
      pe_proc_secure_inherit_def pe_proc_hold_def pe_inv_flags)

lemma tracker_marks [simp]:
  "tracker (pe_proc_upgrade_addmark r s) = tracker s" "tracker (pe_proc_upgrade_clrmark r s) = tracker s"
  "tracker (pe_proc_upgrade_inherit r b s) = tracker s" "tracker (pe_proc_secure_inherit r b s) = tracker s"
  "tracker (pe_proc_hold r s) = tracker s"
  by (simp_all add: pe_proc_upgrade_addmark_def pe_proc_upgrade_clrmark_def pe_proc_upgrade_inherit_def
      pe_proc_secure_inherit_def pe_proc_hold_def)

text \<open>A loop over known processes.\<close>

lemma pe_inv_fold:
  assumes "pe_inv s E F" and "set ps \<subseteq> known s F"
    and "\<And>p s. pe_inv s E F \<Longrightarrow> p \<in> known s F \<Longrightarrow> pe_inv (f p s) E F \<and> tracker (f p s) = tracker s"
  shows "pe_inv (fold f ps s) E F \<and> tracker (fold f ps s) = tracker s"
  using assms(1,2)
proof (induction ps arbitrary: s)
  case (Cons p ps)
  then have "pe_inv (f p s) E F" "tracker (f p s) = tracker s" using assms(3) [of s p] by auto
  with Cons show ?case by simp
qed simp

lemma pe_inv_start:
  assumes "pe_inv s E F" and "set_option r \<subseteq> known s F"
  shows "pe_inv (pe_upgrade_start r s) E F \<and> tracker (pe_upgrade_start r s) = tracker s"
  using assms pe_inv_marks(5) [OF assms] pe_inv_marks(1) [OF assms]
    pe_inv_marks(1) [of "s\<lparr>upgrade_tree := Some pe_filetree_create\<rparr>" E F r]
  by (simp add: pe_upgrade_start_def Let_def)

lemma pe_inv_running:
  assumes "pe_inv s E F" and "pe_proc_is_running ck s = (b, s')"
  shows "pe_inv s' E F \<and> tracker s' = tracker s"
proof -
  obtain r s1 where g: "pe_proc_get ck s = (r, s1)" by fastforce
  from assms(2) g have "s' = pe_proc_put r s1" by (simp add: pe_proc_is_running_def Let_def)
  with pe_inv_put [OF pe_inv_get(1) [OF assms(1) g]] tracker_get [OF g] show ?thesis by simp
qed

lemma pe_inv_prune:
  "pe_inv s E F \<Longrightarrow> pe_inv (upgrade_prune its c s) E F \<and> tracker (upgrade_prune its c s) = tracker s"
proof (induction its arbitrary: c s)
  case (Cons it its)
  obtain b s1 where r: "pe_proc_is_running (ft_cookie it) s = (b, s1)" by fastforce
  note i = pe_inv_running [OF Cons.prems r]
  have "pe_inv (upgrade_prune its c s1) E F \<and> tracker (upgrade_prune its c s1) = tracker s"
    "pe_inv (upgrade_prune its c (s1\<lparr>upgrade_tree := u\<rparr>)) E F \<and>
      tracker (upgrade_prune its c (s1\<lparr>upgrade_tree := u\<rparr>)) = tracker s" for u c
    using Cons.IH [of s1 c] Cons.IH [of "s1\<lparr>upgrade_tree := u\<rparr>" c] i by simp_all
  with Cons.IH [OF Cons.prems] r show ?case by (simp split: bool.split)
qed simp

lemma pe_inv_clrall:
  assumes "pe_inv s E F"
  shows "pe_inv (pe_proc_upgrade_clrallmarks s) E F \<and> tracker (pe_proc_upgrade_clrallmarks s) = tracker s"
  unfolding pe_proc_upgrade_clrallmarks_def
  by (rule pe_inv_fold [OF assms]) (auto intro: pe_inv_marks)

lemma pe_inv_end:
  assumes "pe_inv s E F" and "set_option r \<subseteq> known s F"
  shows "pe_inv (pe_upgrade_end r s) E F \<and> tracker (pe_upgrade_end r s) = tracker s"
proof -
  let ?s1 = "pe_proc_upgrade_clrmark r s"
  let ?s2 = "?s1\<lparr>upgrade_counter := upgrade_counter ?s1 - 1\<rparr>"
  have i1: "pe_inv ?s1 E F" by (rule pe_inv_marks(2) [OF assms])
  have i2: "pe_inv ?s2 E F" using i1 by simp
  define s3 where "s3 = upgrade_prune (case upgrade_tree ?s2 of None \<Rightarrow> [] | Some t \<Rightarrow> t) 0 ?s2"
  have "pe_inv s3 E F \<and> tracker s3 = tracker ?s2" unfolding s3_def by (rule pe_inv_prune [OF i2])
  then have "pe_inv (pe_proc_upgrade_clrallmarks s3) E F \<and> tracker (pe_proc_upgrade_clrallmarks s3) = tracker s"
    using pe_inv_clrall [of s3 E F] by simp
  with i1 show ?thesis unfolding pe_upgrade_end_def Let_def s3_def [symmetric]
    by (simp add: send_upgrade_start_def pe_upgrade_filelist_start_def)
qed

lemma pe_inv_release:
  assumes "pe_inv s E F"
  shows "pe_inv (pe_proc_release s) E F \<and> tracker (pe_proc_release s) = tracker s"
  unfolding pe_proc_release_def
proof (rule pe_inv_fold [OF assms])
  fix p s
  assume "pe_inv s E F" "p \<in> known s F"
  then show "pe_inv (if pe_proc_get_flag s (Some p) PE_PROC_FLAGS_HOLD
        then pe_upgrade_start (Some p) (pe_proc_clr_flag (Some p) PE_PROC_FLAGS_HOLD s) else s) E F \<and>
      tracker (if pe_proc_get_flag s (Some p) PE_PROC_FLAGS_HOLD
        then pe_upgrade_start (Some p) (pe_proc_clr_flag (Some p) PE_PROC_FLAGS_HOLD s) else s) = tracker s"
    using pe_inv_start [of "pe_proc_clr_flag (Some p) PE_PROC_FLAGS_HOLD s" E F "Some p"]
      pe_inv_flags(2) [of s E F "Some p"] by simp
qed simp

subsection \<open>Reference counts: events\<close>

lemma get_known:
  assumes "pe_inv s E F" and "pe_proc_get ck s = (r, s')"
  shows "pe_inv s' E (F + opt_ms r)" and "set_option r \<subseteq> known s' (F + opt_ms r)" and "tracker s' = tracker s"
  using pe_inv_get(1) [OF assms] pe_inv_get(2) [OF assms] tracker_get [OF assms(2)] by auto

lemma pe_inv_track_new:
  assumes "pe_inv s E F" and "pe_proc_alloc u ck i g now s = (p, s')"
  shows "pe_inv (pe_proc_track p s') E (add_mset p F)"
  using pe_inv_track(1) [OF pe_inv_alloc(1) [OF assms] _ pe_inv_alloc(3) [OF assms]] by simp

lemma pe_inv_fork:
  assumes "pe_inv s E F"
  shows "pe_inv (pe_proc_fork en u child ck g now s) E F"
proof -
  obtain parent s1 where g1: "pe_proc_get ck s = (parent, s1)" by fastforce
  define pid0 where "pid0 = (case parent of None \<Rightarrow> None | Some q \<Rightarrow> Some (p_ident (proc_of s1 q)))"
  obtain p s2 where g2: "pe_proc_alloc u child pid0 g now s1 = (p, s2)" by fastforce
  let ?F = "add_mset p (F + opt_ms parent)"
  let ?s3 = "pe_context_fork en p parent (pe_proc_track p s2)"
  let ?s4 = "pe_proc_upgrade_inherit (Some p) (pe_proc_is_upgrade ?s3 parent) ?s3"
  let ?s5 = "pe_proc_secure_inherit (Some p) (pe_proc_is_secure ?s4 parent) ?s4"
  have i2: "pe_inv (pe_proc_track p s2) E ?F"
    by (rule pe_inv_track_new [OF get_known(1) [OF assms g1] g2])
  have i3: "pe_inv ?s3 E ?F"
    by (rule keeps_known(1) [OF keeps_fork i2]) (auto simp: opt_ms_def split: option.splits)
  have i5: "pe_inv ?s5 E ?F" by (intro pe_inv_marks i3) simp_all
  have "pe_inv (pe_proc_put (Some p) (pe_proc_put parent ?s5)) E F"
    by (rule pe_inv_put, rule pe_inv_put) (use i5 in \<open>simp add: ac_simps\<close>)
  then show ?thesis using g1 g2 by (simp add: pe_proc_fork_def pid0_def Let_def)
qed

lemma pe_inv_instances:
  assumes "pe_inv s E F" and "p \<in> set (tracker s)" and "procs s p = Some x" and "n \<ge> 1"
  shows "pe_inv (upd_proc p (\<lambda>x. x\<lparr>instances := n\<rparr>) s) E F"
proof -
  let ?y = "x\<lparr>instances := n\<rparr>"
  have ok: "proc_ok (procs s) (next_ptr s) (tracker s) F" using assms(1) by (simp add: pe_inv_def)
  have "proc_ok ((procs s)(p \<mapsto> ?y)) (next_ptr s) (tracker s) F"
    using proc_ok_cell [OF ok, of p] assms proc_ok_distinct [OF ok]
    by (intro proc_ok_upd [OF ok]) auto
  moreover have "refs ((procs s)(p \<mapsto> ?y)) = refs (procs s)"
    using refs_upd [of "procs s" p x ?y] assms(1,3) by (simp add: pe_inv_def held_def)
  ultimately show ?thesis using assms(1,3) by (simp add: upd_proc_def pe_inv_def)
qed

lemma upd_proc_cong: "(\<And>x. procs s p = Some x \<Longrightarrow> f x = g x) \<Longrightarrow> upd_proc p f s = upd_proc p g s"
  by (auto simp: upd_proc_def split: option.split)

lemma tracked_instances:
  "pe_inv s E F \<Longrightarrow> p \<in> set (tracker s) \<Longrightarrow> procs s p = Some x \<Longrightarrow> instances x \<ge> 1"
  using proc_ok_cell [of "procs s" "next_ptr s" "tracker s" F p] by (simp add: pe_inv_def)

lemma pe_inv_addinstance:
  assumes "pe_inv s E F"
  shows "pe_inv (pe_proc_addinstance ck s) E F"
proof -
  obtain r s1 where g: "pe_proc_get ck s = (r, s1)" by fastforce
  note k = get_known [OF assms g]
  show ?thesis
  proof (cases r)
    case (Some p)
    obtain x where x: "procs s1 p = Some x" and t: "p \<in> set (tracker s1)"
      using pe_inv_get(2) [OF assms g] Some by auto
    have "upd_proc p (\<lambda>x. x\<lparr>instances := instances x + 1\<rparr>) s1 = upd_proc p (\<lambda>y. y\<lparr>instances := instances x + 1\<rparr>) s1"
      using x by (intro upd_proc_cong) simp
    then have "pe_inv (upd_proc p (\<lambda>x. x\<lparr>instances := instances x + 1\<rparr>) s1) E (F + opt_ms (Some p))"
      using pe_inv_instances [OF k(1) t x, of "instances x + 1"] tracked_instances [OF k(1) t x] Some by simp
    from pe_inv_put [OF this] g Some show ?thesis by (simp add: pe_proc_addinstance_def)
  qed (use k g in \<open>simp add: pe_proc_addinstance_def\<close>)
qed

lemma tracker_untrack: "tracker (pe_proc_untrack p s) = remove1 p (tracker s)"
  by (simp add: pe_proc_untrack_def)

lemma pe_inv_exit:
  assumes "pe_inv s E F"
  shows "pe_inv (pe_proc_exit ck s) E F"
proof -
  obtain r s1 where g: "pe_proc_get ck s = (r, s1)" by fastforce
  note k = get_known [OF assms g]
  show ?thesis
  proof (cases r)
    case (Some p)
    obtain x where x: "procs s1 p = Some x" and t: "p \<in> set (tracker s1)"
      using pe_inv_get(2) [OF assms g] Some by auto
    have i1: "pe_inv s1 E (F + opt_ms (Some p))" using k(1) Some by simp
    have n: "instances x \<ge> 1" by (rule tracked_instances [OF i1 t x])
    have e: "upd_proc p (\<lambda>x. x\<lparr>instances := instances x - 1\<rparr>) s1 = upd_proc p (\<lambda>y. y\<lparr>instances := instances x - 1\<rparr>) s1"
      using x by (intro upd_proc_cong) simp
    define s2 where "s2 = upd_proc p (\<lambda>y. y\<lparr>instances := instances x - 1\<rparr>) s1"
    have s2p: "instances (proc_of s2 p) = instances x - 1"
      using x by (simp add: s2_def proc_of_def)
    have res: "pe_proc_exit ck s = (if instances x - 1 \<noteq> 0 then pe_proc_put (Some p) s2
        else pe_proc_put (Some p) (pe_upgrade_end (Some p) (pe_proc_untrack p s2)))"
      unfolding pe_proc_exit_def g Some prod.case option.case Let_def e s2_def [symmetric] s2p by (rule refl)
    show ?thesis
    proof (cases "instances x - 1 = 0")
      case False
      have "pe_inv s2 E (F + opt_ms (Some p))"
        unfolding s2_def using False n by (intro pe_inv_instances [OF i1 t x]) simp
      with False res show ?thesis using pe_inv_put by simp
    next
      case True
      then have s2': "s2 = upd_proc p (\<lambda>x. x\<lparr>instances := 0\<rparr>) s1" by (simp add: s2_def)
      have "pe_inv (pe_proc_untrack p s2) E (F + opt_ms (Some p))"
        unfolding s2' by (rule pe_inv_untrack [OF i1 t])
      then have "pe_inv (pe_upgrade_end (Some p) (pe_proc_untrack p s2)) E (F + opt_ms (Some p))"
        using pe_inv_end [of "pe_proc_untrack p s2" E _ "Some p"] by simp
      from pe_inv_put [OF this] True res show ?thesis by simp
    qed
  qed (use k g in \<open>simp add: pe_proc_exit_def\<close>)
qed

lemma pe_inv_add_thread:
  assumes "pe_inv s E F"
  shows "pe_inv (pe_proc_add_thread ck now s) E F"
proof -
  obtain r s1 where g: "pe_proc_get ck s = (r, s1)" by fastforce
  note k = get_known [OF assms g]
  show ?thesis
  proof (cases r)
    case (Some p)
    have i: "pe_inv s' E (F + opt_ms (Some p)) \<Longrightarrow> pe_inv (upd_proc p (\<lambda>x. x\<lparr>threads := threads x + 1\<rparr>) s') E (F + opt_ms (Some p))"
      for s' by (rule pe_inv_plain) (auto simp: held_def)
    show ?thesis using k(1) g Some by (auto simp: pe_proc_add_thread_def Let_def intro!: pe_inv_put i)
  qed (use k g in \<open>simp add: pe_proc_add_thread_def\<close>)
qed

lemma pe_inv_remove_thread:
  assumes "pe_inv s E F"
  shows "pe_inv (pe_proc_remove_thread ck s) E F"
proof -
  obtain r s1 where g: "pe_proc_get ck s = (r, s1)" by fastforce
  note k = get_known [OF assms g]
  show ?thesis
  proof (cases r)
    case (Some p)
    have i: "pe_inv s' E (add_mset p F) \<Longrightarrow> pe_inv (upd_proc p (\<lambda>x. x\<lparr>threads := threads x - 1\<rparr>) s') E (add_mset p F)"
      for s' by (rule pe_inv_plain) (auto simp: held_def)
    have e: "pe_inv s' E (add_mset p F) \<Longrightarrow> pe_inv (pe_upgrade_end (Some p) s') E (add_mset p F)" for s'
      using pe_inv_end [of s' E _ "Some p"] by simp
    show ?thesis using k(1) g Some
      by (auto simp: pe_proc_remove_thread_def Let_def intro!: pe_inv_put e)
        (simp_all add: i)
  qed (use k g in \<open>simp add: pe_proc_remove_thread_def\<close>)
qed

lemma pe_inv_exec_proc:
  assumes "pe_inv s E F"
  shows "pe_inv (pe_proc_exec en ck u pd cs path g secure now s) E F"
proof -
  obtain r s1 where g1: "pe_proc_get ck s = (r, s1)" by fastforce
  obtain p s2 where g2: "(case r of Some p \<Rightarrow> (p, s1)
      | None \<Rightarrow> (case pe_proc_alloc u ck None g now s1 of (p, s') \<Rightarrow> (p, pe_proc_track p s'))) = (p, s2)"
    by fastforce
  let ?F = "F + opt_ms (Some p)"
  have i2: "pe_inv s2 E ?F"
  proof (cases r)
    case None
    obtain q s' where "pe_proc_alloc u ck None g now s1 = (q, s')" by fastforce
    with pe_inv_track_new [of s1 E F] get_known(1) [OF assms g1] None g2 show ?thesis by auto
  qed (use get_known(1) [OF assms g1] g2 in auto)
  define s3 where "s3 = pe_proc_set_pid (Some p) pd (upd_proc p (\<lambda>x. x\<lparr>p_ident := pe_proc_ident_set cs path\<rparr>) s2)"
  have i3: "pe_inv s3 E ?F"
    unfolding s3_def pe_proc_set_pid_def option.case
    by (intro pe_inv_plain i2) (simp_all add: held_def)
  define s4 where "s4 = (if pgid (proc_of s3 p) \<noteq> 0
      then s3\<lparr>pgs := pe_playground_postexec (pgid (proc_of s3 p)) (proc_of s3 p) now (pgs s3)\<rparr> else s3)"
  have i4: "pe_inv s4 E ?F" using i3 by (simp add: s4_def)
  define s5 where "s5 = pe_context_exec en p u (p_ident (proc_of s4 p)) s4"
  have i5: "pe_inv s5 E ?F"
    unfolding s5_def by (rule pe_inv_exec(1) [OF i4 known_live [OF i4]]) simp
  define s6 where "s6 = (if secure then pe_proc_set_flag (Some p) PE_PROC_FLAGS_SECUREEXEC s5
      else pe_proc_clr_flag (Some p) PE_PROC_FLAGS_SECUREEXEC s5)"
  have i6: "pe_inv s6 E ?F" using pe_inv_flags [OF i5, of "Some p"] by (simp add: s6_def)
  have i7: "pe_inv (pe_upgrade_start (Some p) s6) E ?F" using pe_inv_start [OF i6, of "Some p"] by simp
  show ?thesis
    using pe_inv_put [OF i6] pe_inv_put [OF i7]
    unfolding pe_proc_exec_def g1 Let_def prod.case g2 s3_def [symmetric] s4_def [symmetric]
      s5_def [symmetric] s6_def [symmetric] by simp
qed

lemma pe_inv_playgroundproc:
  assumes "pe_inv s E F"
  shows "pe_inv (pe_handle_playgroundproc en ck g now s) E F"
proof -
  obtain r s1 where g: "pe_proc_get ck s = (r, s1)" by fastforce
  note k = get_known [OF assms g]
  show ?thesis
  proof (cases r)
    case (Some p)
    let ?s2 = "pe_proc_set_playgroundid p g now s1"
    have i1: "pe_inv s1 E (add_mset p F)" using k(1) Some by simp
    have i2: "pe_inv ?s2 E (add_mset p F)"
      using pe_inv_set_playgroundid [OF i1 known_live [OF i1]] by simp
    have "keeps {p} ?s2 (fold (\<lambda>i s. pe_context_refresh en p i (pdb s) s) [0..<PE_PRIO_MAX] ?s2)"
      by (rule keeps_fold) (rule keeps_refresh)
    then have "pe_inv (fold (\<lambda>i s. pe_context_refresh en p i (pdb s) s) [0..<PE_PRIO_MAX] ?s2) E (F + opt_ms (Some p))"
      using keeps_known(1) [OF _ i2] by simp
    from pe_inv_put [OF this] g Some show ?thesis by (simp add: pe_handle_playgroundproc_def Let_def)
  qed (use k g in \<open>simp add: pe_handle_playgroundproc_def\<close>)
qed

lemma pe_inv_ipc_connect:
  assumes "pe_inv s E F"
  shows "pe_inv (pe_ipc_connect en src dst conn s) E F"
proof -
  obtain r s1 where g1: "pe_proc_get src s = (r, s1)" by fastforce
  note k1 = get_known [OF assms g1]
  show ?thesis
  proof (cases r)
    case (Some p)
    obtain r' s2 where g2: "pe_proc_get dst s1 = (r', s2)" by fastforce
    note k2 = get_known [OF k1(1) g2]
    show ?thesis
    proof (cases r')
      case None
      with k2(1) pe_inv_put [of s2 E F r] g1 g2 Some show ?thesis by (simp add: pe_ipc_connect_def)
    next
      case (Some pp)
      have i: "pe_inv (pe_context_borrow en (Some p) (Some pp) conn s2) E (F + opt_ms (Some pp) + opt_ms (Some p))"
        using keeps_known(1) [OF keeps_borrow k2(1), of "Some p" "Some pp"] Some \<open>r = Some p\<close>
        by (simp add: ac_simps)
      from pe_inv_put [OF pe_inv_put [OF i]] g1 g2 Some \<open>r = Some p\<close>
      show ?thesis by (simp add: pe_ipc_connect_def)
    qed
  qed (use k1 g1 in \<open>simp add: pe_ipc_connect_def\<close>)
qed

lemma pe_inv_ipc_destroy:
  assumes "pe_inv s E F"
  shows "pe_inv (pe_ipc_destroy src conn s) E F"
proof -
  obtain r s1 where g: "pe_proc_get src s = (r, s1)" by fastforce
  note k = get_known [OF assms g]
  show ?thesis
  proof (cases r)
    case (Some p)
    have "pe_inv (pe_context_restore (Some p) conn s1) E (F + opt_ms r)"
      using keeps_known(1) [OF keeps_context_restore k(1), of "Some p"] Some by simp
    from pe_inv_put [OF this] g Some show ?thesis by (simp add: pe_ipc_destroy_def)
  qed (use k g in \<open>simp add: pe_ipc_destroy_def\<close>)
qed

lemma keeps_update_one: "keeps {p} s (update_one en oldrs prio u p s)"
  using keeps_refresh by (auto simp: update_one_def split: option.split)

lemma pe_inv_update_db_one:
  assumes "pe_inv s E F"
  shows "pe_inv (pe_proc_update_db_one en oldrs prio u s) E F"
  unfolding pe_proc_update_db_one_def
  using pe_inv_fold [OF assms, of "tracker s" "update_one en oldrs prio u"] keeps_known [OF keeps_update_one]
  by simp

lemma keeps_refresh_all:
  "keeps {p} s (fold (\<lambda>i. pe_context_refresh en p i newdb) [0..<PE_PRIO_MAX] s)"
  by (rule keeps_fold) (rule keeps_refresh)

lemma pe_inv_update_db:
  assumes "pe_inv s E F"
  shows "pe_inv (pe_proc_update_db en newdb s) E F"
  unfolding pe_proc_update_db_def
  using pe_inv_fold [OF assms, of "tracker s" "\<lambda>p. fold (\<lambda>i. pe_context_refresh en p i newdb) [0..<PE_PRIO_MAX]"]
    keeps_known [OF keeps_refresh_all]
  by simp

lemma pe_inv_insert_rs: "pe_inv s E F \<Longrightarrow> pe_inv (pe_user_insert_rs en rs u prio s) E F"
  by (simp add: pe_user_insert_rs_def pe_inv_update_db_one)

lemma pe_inv_reconfigure: "pe_inv s E F \<Longrightarrow> pe_inv (pe_reconfigure en newdb s) E F"
  by (simp add: pe_reconfigure_def pe_user_reconfigure_def pe_inv_update_db)

lemma pe_inv_finish: "pe_inv s E F \<Longrightarrow> pe_inv (pe_upgrade_finish s) E F"
  by (simp add: pe_upgrade_finish_def)

lemma pe_inv_init: "pe_inv (pe_init db pg) {#} {#}"
  by (simp add: pe_inv_def pe_init_def ctx_ok_def proc_ok_def refs_def)

end
