(* ===== verification/Alf.thy ===== *)
theory Alf
  imports Rules
begin

text \<open>
  Model of the rule evaluation of the application level firewall,
  \<^verbatim>\<open>src/src/anoubisd/pe_alf.c\<close>: address, port and capability matching and the walk over the rules
  of an ALF block. Addresses and ports are the raw network byte order words of the socket
  addresses; the host is little-endian (\<^verbatim>\<open>htonl\<close> and \<^verbatim>\<open>htons\<close> swap bytes) with 64 bit
  \<^verbatim>\<open>unsigned long\<close> (LP64), as on the supported Linux platforms.
\<close>

subsection \<open>Byte order\<close>

definition htonl :: "u32 \<Rightarrow> u32" where
  "htonl w = push_bit 24 (w AND 0xff) OR push_bit 8 (w AND 0xff00) OR
     (drop_bit 8 w AND 0xff00) OR (drop_bit 24 w AND 0xff)"

definition htons :: "u16 \<Rightarrow> u16" where
  "htons w = push_bit 8 (w AND 0xff) OR (drop_bit 8 w AND 0xff)"

subsection \<open>Events\<close>

abbreviation AF_INET :: nat where "AF_INET \<equiv> 2"
abbreviation AF_INET6 :: nat where "AF_INET6 \<equiv> 10"
abbreviation SOCK_STREAM :: nat where "SOCK_STREAM \<equiv> 1"
abbreviation SOCK_DGRAM :: nat where "SOCK_DGRAM \<equiv> 2"
abbreviation SOCK_RAW :: nat where "SOCK_RAW \<equiv> 3"
abbreviation SOCK_PACKET :: nat where "SOCK_PACKET \<equiv> 10"
abbreviation IPPROTO_TCP :: nat where "IPPROTO_TCP \<equiv> 6"
abbreviation IPPROTO_UDP :: nat where "IPPROTO_UDP \<equiv> 17"
abbreviation IPPROTO_SCTP :: nat where "IPPROTO_SCTP \<equiv> 132"

datatype alf_op = ALF_ANY | ALF_CONNECT | ALF_ACCEPT | ALF_SENDMSG | ALF_RECVMSG

record sockaddr =
  sin_port :: u16
  sin_addr :: u32
  sin6_addr :: "u32 list"

record alf_event =
  ev_cookie :: cookie
  ev_pgid :: cookie
  family :: nat
  sock_type :: nat
  protocol :: nat
  op :: alf_op
  local :: sockaddr
  peer :: sockaddr

subsection \<open>Address matching\<close>

text \<open>The netmask of \<open>n\<close> words: full words, one partial word, zero words.\<close>

fun ip6_mask :: "nat \<Rightarrow> nat \<Rightarrow> u32 list" where
  "ip6_mask 0 bits = []"
| "ip6_mask (Suc n) bits =
     (if bits \<ge> 32 then 0xffffffff # ip6_mask n (bits - 32)
      else if bits > 0 then htonl (push_bit (32 - bits) 0xffffffff) # replicate n 0
      else replicate (Suc n) 0)"

definition compare_ip6_mask :: "u32 list \<Rightarrow> u32 list \<Rightarrow> nat \<Rightarrow> bool" where
  "compare_ip6_mask addr1 addr2 len =
     (let len = (if len > 128 then 128 else len)
      in if len = 128 then addr1 = addr2
         else list_all (\<lambda>(m, a, b). a AND m = b AND m)
                (zip (ip6_mask 4 len) (zip addr1 addr2)))"

text \<open>
  \<^verbatim>\<open>mask = htonl(~0UL << (32 - hp->addr.len))\<close>: the shift works on 64 bits, \<^verbatim>\<open>htonl\<close> takes the
  low 32 of them.
\<close>

definition v4_mask :: "nat \<Rightarrow> u32" where
  "v4_mask len = htonl (ucast (push_bit (32 - len) (-1 :: u64)))"

definition host_addr_match :: "apn_host \<Rightarrow> sockaddr \<Rightarrow> nat \<Rightarrow> bool" where
  "host_addr_match hp addr af =
     (if af = AF_INET then
        sin_addr addr AND v4_mask (addr_len (host_addr hp)) =
        addr_v4 (host_addr hp) AND v4_mask (addr_len (host_addr hp))
      else if af = AF_INET6 then
        compare_ip6_mask (sin6_addr addr) (addr_v6 (host_addr hp)) (addr_len (host_addr hp))
      else False)"

fun host_loop :: "apn_host list \<Rightarrow> sockaddr \<Rightarrow> nat \<Rightarrow> bool \<Rightarrow> bool \<Rightarrow> bool \<times> bool" where
  "host_loop [] addr af match neg = (match, neg)"
| "host_loop (hp # hs) addr af match neg =
     (if addr_af (host_addr hp) \<noteq> af then host_loop hs addr af match neg
      else
        (let neg = host_negate hp; match = host_addr_match hp addr af
         in if (\<not> neg \<and> match) \<or> (neg \<and> \<not> match) then (match, neg)
            else host_loop hs addr af match neg))"

definition pe_addrmatch_host :: "apn_host list \<Rightarrow> sockaddr \<Rightarrow> nat \<Rightarrow> bool" where
  "pe_addrmatch_host host addr af =
     (if host = [] then True
      else case host_loop host addr af False False of
             (match, neg) \<Rightarrow> (if neg then \<not> match else match))"

text \<open>The comparison of ports is done on the raw network byte order values.\<close>

fun pe_addrmatch_port :: "apn_port list \<Rightarrow> sockaddr \<Rightarrow> nat \<Rightarrow> bool" where
  "pe_addrmatch_port ports addr af =
     (if ports = [] then True
      else list_ex (\<lambda>pp.
        (if af = AF_INET \<or> af = AF_INET6 then
           (if port_hi pp \<noteq> 0 then sin_port addr \<ge> port_lo pp \<and> sin_port addr \<le> port_hi pp
            else sin_port addr = port_lo pp)
         else False)) ports)"

definition pe_addrmatch_out :: "alf_event \<Rightarrow> apn_afiltrule \<Rightarrow> bool" where
  "pe_addrmatch_out msg r =
     (if \<not> pe_addrmatch_host (fromhost (filtspec r)) (local msg) (family msg) then False
      else if \<not> pe_addrmatch_port (fromport (filtspec r)) (local msg) (family msg) then False
      else if \<not> pe_addrmatch_host (tohost (filtspec r)) (peer msg) (family msg) then False
      else if \<not> pe_addrmatch_port (toport (filtspec r)) (peer msg) (family msg) then False
      else True)"

definition pe_addrmatch_in :: "alf_event \<Rightarrow> apn_afiltrule \<Rightarrow> bool" where
  "pe_addrmatch_in msg r =
     (if \<not> pe_addrmatch_host (fromhost (filtspec r)) (peer msg) (family msg) then False
      else if \<not> pe_addrmatch_port (fromport (filtspec r)) (peer msg) (family msg) then False
      else if \<not> pe_addrmatch_host (tohost (filtspec r)) (local msg) (family msg) then False
      else if \<not> pe_addrmatch_port (toport (filtspec r)) (local msg) (family msg) then False
      else True)"

subsection \<open>Rule evaluation\<close>

definition pe_alf_capmatch :: "apn_acaprule \<Rightarrow> nat \<Rightarrow> bool" where
  "pe_alf_capmatch r type =
     (if type = SOCK_STREAM \<or> type = SOCK_DGRAM then False
      else
        (let israw = (type = SOCK_RAW \<or> type = SOCK_PACKET)
         in case capability r of
              APN_ALF_CAPRAW \<Rightarrow> israw
            | APN_ALF_CAPOTHER \<Rightarrow> \<not> israw
            | APN_ALF_CAPALL \<Rightarrow> True))"

text \<open>
  For a capability rule the code reads \<^verbatim>\<open>hp->rule.afilt.action\<close> and
  \<^verbatim>\<open>hp->rule.afilt.filtspec.log\<close> although the union holds a \<^verbatim>\<open>struct apn_acaprule\<close>. The actions
  share offset 0. On LP64 \<^verbatim>\<open>filtspec\<close> contains pointers and starts at offset 8, where
  \<^verbatim>\<open>apn_acaprule\<close> keeps \<^verbatim>\<open>capability\<close> (its \<^verbatim>\<open>log\<close> is at offset 4), so the number of the
  capability is taken as the log level.
\<close>

fun acap_filtspec_log :: "apn_acaprule \<Rightarrow> apn_log_level" where
  "acap_filtspec_log r =
     (case capability r of
        APN_ALF_CAPRAW \<Rightarrow> APN_LOG_NONE
      | APN_ALF_CAPOTHER \<Rightarrow> APN_LOG_NORMAL
      | APN_ALF_CAPALL \<Rightarrow> APN_LOG_ALERT)"

definition filter_matches :: "alf_event \<Rightarrow> apn_afiltrule \<Rightarrow> bool" where
  "filter_matches msg r =
     (if sock_type msg \<noteq> SOCK_STREAM \<and> sock_type msg \<noteq> SOCK_DGRAM then False
      else if protocol msg \<noteq> fproto (filtspec r) then False
      else case op msg of
             ALF_SENDMSG \<Rightarrow> netaccess (filtspec r) \<in> {APN_CONNECT, APN_SEND, APN_BOTH} \<and> pe_addrmatch_out msg r
           | ALF_CONNECT \<Rightarrow> netaccess (filtspec r) \<in> {APN_CONNECT, APN_SEND, APN_BOTH} \<and> pe_addrmatch_out msg r
           | ALF_RECVMSG \<Rightarrow> netaccess (filtspec r) \<in> {APN_ACCEPT, APN_RECEIVE, APN_BOTH} \<and> pe_addrmatch_in msg r
           | ALF_ACCEPT \<Rightarrow> netaccess (filtspec r) \<in> {APN_ACCEPT, APN_RECEIVE, APN_BOTH} \<and> pe_addrmatch_in msg r
           | ALF_ANY \<Rightarrow> False)"

record alf_result =
  decision :: "apn_action_type option"
  log :: apn_log_level
  rule_id :: nat

definition is_filter_proto :: "nat \<Rightarrow> bool" where
  "is_filter_proto p \<longleftrightarrow> p = IPPROTO_UDP \<or> p = IPPROTO_TCP \<or> p = IPPROTO_SCTP"

text \<open>
  The loop over the rule chain. The accumulator is the result so far: the first default rule
  in scope is remembered in it, a matching filter or capability rule ends the loop.
\<close>

fun alf_loop :: "apn_rule list \<Rightarrow> alf_event \<Rightarrow> int \<Rightarrow> alf_result \<Rightarrow> alf_result" where
  "alf_loop [] msg now res = res"
| "alf_loop (hp # hps) msg now res =
     (if \<not> pe_in_scope (scope hp) (ev_cookie msg) now then alf_loop hps msg now res
      else case body hp of
        APN_DEFAULT d \<Rightarrow>
          alf_loop hps msg now
            (if decision res = None
             then \<lparr>decision = Some (d_action d), log = d_log d, rule_id = apn_id hp\<rparr> else res)
      | APN_ALF_CAPABILITY r \<Rightarrow>
          (if is_filter_proto (protocol msg) then alf_loop hps msg now res
           else if \<not> pe_alf_capmatch r (sock_type msg) then alf_loop hps msg now res
           else \<lparr>decision = Some (acap_action r), log = acap_filtspec_log r, rule_id = apn_id hp\<rparr>)
      | APN_ALF_FILTER r \<Rightarrow>
          (if \<not> is_filter_proto (protocol msg) then alf_loop hps msg now res
           else if \<not> filter_matches msg r then alf_loop hps msg now res
           else \<lparr>decision = Some (afilt_action r), log = flog (filtspec r), rule_id = apn_id hp\<rparr>)
      | _ \<Rightarrow> alf_loop hps msg now res)"

text \<open>Traffic that is allowed without looking at the rules.\<close>

definition alf_implicit_allow :: "alf_event \<Rightarrow> bool" where
  "alf_implicit_allow msg \<longleftrightarrow>
     ((op msg = ALF_SENDMSG \<or> op msg = ALF_RECVMSG) \<and>
        (protocol msg = IPPROTO_TCP \<or> protocol msg = IPPROTO_SCTP)) \<or>
     (protocol msg = IPPROTO_UDP \<and> op msg = ALF_CONNECT)"

definition pe_alf_evaluate_rule ::
    "apn_block \<Rightarrow> alf_event \<Rightarrow> apn_log_level \<Rightarrow> nat \<Rightarrow> int \<Rightarrow> alf_result" where
  "pe_alf_evaluate_rule b msg lg rid now =
     (if alf_implicit_allow msg
      then \<lparr>decision = Some APN_ACTION_ALLOW, log = lg, rule_id = rid\<rparr>
      else alf_loop (chain b) msg now \<lparr>decision = None, log = lg, rule_id = rid\<rparr>)"

subsection \<open>Network bit order\<close>

text \<open>Where bit \<open>n\<close> of a word comes from after a byte swap.\<close>

definition swap_idx :: "nat \<Rightarrow> nat" where
  "swap_idx n = (if n < 8 then n + 24 else if n < 16 then n + 8 else if n < 24 then n - 8 else n - 24)"

lemma swap_idx_less: "n < 32 \<Longrightarrow> swap_idx n < 32"
  by (auto simp: swap_idx_def)

lemma swap_idx_invol: "n < 32 \<Longrightarrow> swap_idx (swap_idx n) = n"
  by (auto simp: swap_idx_def)

lemma bit_ff: "bit (0xff :: u32) k \<longleftrightarrow> k < 8"
proof -
  have eq: "(0xff :: u32) = mask 8" by (simp add: mask_eq_exp_minus_1)
  show ?thesis by (subst eq) (auto simp only: bit_mask_iff possible_bit_word, auto)
qed

lemma bit_ff00: "bit (0xff00 :: u32) k \<longleftrightarrow> 8 \<le> k \<and> k < 16"
proof -
  have eq: "(0xff00 :: u32) = push_bit 8 (mask 8)" by (simp add: mask_eq_exp_minus_1 push_bit_eq_mult)
  show ?thesis by (subst eq) (auto simp only: bit_mask_iff bit_push_bit_iff possible_bit_word, auto)
qed

lemma bit_htonl: "bit (htonl w) n \<longleftrightarrow> n < 32 \<and> bit w (swap_idx n)"
proof (cases "n < 32")
  case True
  have "bit (htonl w) n \<longleftrightarrow>
      24 \<le> n \<and> bit w (n - 24) \<and> n - 24 < 8 \<or> 8 \<le> n \<and> bit w (n - 8) \<and> 8 \<le> n - 8 \<and> n - 8 < 16 \<or>
      bit w (8 + n) \<and> 8 \<le> n \<and> n < 16 \<or> bit w (24 + n) \<and> n < 8"
    using True unfolding htonl_def
    by (simp only: bit_or_iff bit_and_iff bit_push_bit_iff bit_drop_bit_eq o_def bit_ff bit_ff00
        possible_bit_word) auto
  with True show ?thesis by (auto simp: swap_idx_def add.commute)
qed (auto dest: bit_imp_le_length)

text \<open>The bits of an address word as they are on the wire, most significant first.\<close>

definition net_bits :: "u32 \<Rightarrow> bool list" where
  "net_bits w = map (\<lambda>i. bit (htonl w) (31 - i)) [0..<32]"

lemma length_net_bits [simp]: "length (net_bits w) = 32"
  by (simp add: net_bits_def)

lemma net_bits_take_eq:
  "n \<le> 32 \<Longrightarrow> take n (net_bits a) = take n (net_bits b) \<longleftrightarrow>
     (\<forall>i<n. bit (htonl a) (31 - i) = bit (htonl b) (31 - i))"
  by (auto simp: list_eq_iff_nth_eq net_bits_def min_def)

lemma and_htonl_mask:
  assumes "n \<le> 32"
  shows "a AND htonl (push_bit (32 - n) (-1)) = b AND htonl (push_bit (32 - n) (-1)) \<longleftrightarrow>
    take n (net_bits a) = take n (net_bits b)"
proof -
  have "a AND htonl (push_bit (32 - n) (-1)) = b AND htonl (push_bit (32 - n) (-1)) \<longleftrightarrow>
      (\<forall>k<32. 32 - n \<le> swap_idx k \<longrightarrow> bit a k = bit b k)"
    by (auto simp: bit_eq_iff bit_simps bit_htonl swap_idx_less)
  also have "\<dots> \<longleftrightarrow> (\<forall>k<32. 32 - n \<le> k \<longrightarrow> bit (htonl a) k = bit (htonl b) k)"
    using swap_idx_invol swap_idx_less unfolding bit_htonl by metis
  also have "\<dots> \<longleftrightarrow> (\<forall>i<n. bit (htonl a) (31 - i) = bit (htonl b) (31 - i))"
  proof (rule iffI; intro allI impI)
    fix i assume "\<forall>k<32. 32 - n \<le> k \<longrightarrow> bit (htonl a) k = bit (htonl b) k" "i < n"
    then show "bit (htonl a) (31 - i) = bit (htonl b) (31 - i)"
      using assms by auto
  next
    fix k assume h: "\<forall>i<n. bit (htonl a) (31 - i) = bit (htonl b) (31 - i)" "k < 32" "32 - n \<le> k"
    then have "31 - k < n" "31 - (31 - k) = k" by auto
    with h(1) show "bit (htonl a) k = bit (htonl b) k" by metis
  qed
  finally show ?thesis using net_bits_take_eq [OF assms] by blast
qed

lemma v4_mask_match:
  assumes "n \<le> 32"
  shows "a AND v4_mask n = b AND v4_mask n \<longleftrightarrow> take n (net_bits a) = take n (net_bits b)"
proof -
  have "ucast (push_bit (32 - n) (-1 :: u64)) = (push_bit (32 - n) (-1) :: u32)"
    by (rule bit_word_eqI) (auto simp: bit_simps)
  then show ?thesis using and_htonl_mask [OF assms] by (simp add: v4_mask_def)
qed

lemma net_bits_inj: "net_bits a = net_bits b \<Longrightarrow> a = b"
proof -
  assume "net_bits a = net_bits b"
  then have "a AND htonl (-1) = b AND htonl (-1)" using and_htonl_mask [of 32 a b] by simp
  moreover have "htonl (-1) = -1" by (rule bit_word_eqI) (simp add: bit_htonl swap_idx_less)
  ultimately show "a = b" by simp
qed

lemma ip6_mask_match:
  assumes "length xs = n" "length ys = n" "bits \<le> 32 * n"
  shows "list_all (\<lambda>(m, a, b). a AND m = b AND m) (zip (ip6_mask n bits) (zip xs ys)) \<longleftrightarrow>
    take bits (concat (map net_bits xs)) = take bits (concat (map net_bits ys))"
  using assms
proof (induction n arbitrary: xs ys bits)
  case (Suc n)
  then obtain x xs' y ys' where xy: "xs = x # xs'" "ys = y # ys'" "length xs' = n" "length ys' = n"
    by (auto simp: length_Suc_conv)
  have z: "list_all (\<lambda>(m, a, b). a AND m = b AND m) (zip (replicate k (0::u32)) zs)" for k zs
    by (auto simp: list_all_iff dest: set_zip_leftD)
  have ones: "(0xffffffff :: u32) = -1" by simp
  have ff: "w AND 0xffffffff = w" for w :: u32
    unfolding ones by (rule word_and_max)
  have part: "k \<le> 32 \<Longrightarrow> a AND htonl (push_bit (32 - k) 0xffffffff) = b AND htonl (push_bit (32 - k) 0xffffffff) \<longleftrightarrow>
      take k (net_bits a) = take k (net_bits b)" for a b k
    unfolding ones by (rule and_htonl_mask)
  show ?case
  proof (cases "bits \<ge> 32")
    case True
    have "x AND 0xffffffff = y AND 0xffffffff \<longleftrightarrow> net_bits x = net_bits y"
      using net_bits_inj by (auto simp: ff)
    with True Suc.IH [OF xy(3,4), of "bits - 32"] Suc.prems(3) xy show ?thesis
      by simp
  next
    case False
    then show ?thesis using xy z part [of bits x y] by auto
  qed
qed simp

lemma compare_ip6_mask_bits:
  assumes "length xs = 4" "length ys = 4"
  shows "compare_ip6_mask xs ys len \<longleftrightarrow>
    take len (concat (map net_bits xs)) = take len (concat (map net_bits ys))"
proof -
  have l: "length (concat (map net_bits zs)) = 32 * length zs" for zs
    by (induction zs) auto
  have inj: "concat (map net_bits zs) = concat (map net_bits ws) \<Longrightarrow> length zs = length ws \<Longrightarrow> zs = ws"
    for zs ws by (induction zs arbitrary: ws) (auto simp: length_Suc_conv Suc_length_conv dest: net_bits_inj)
  show ?thesis
  proof (cases "len < 128")
    case True
    then show ?thesis using ip6_mask_match [OF assms, of len]
      by (simp add: compare_ip6_mask_def del: ip6_mask.simps)
  next
    case False
    then have "compare_ip6_mask xs ys len \<longleftrightarrow> xs = ys" by (auto simp: compare_ip6_mask_def Let_def)
    with False assms l inj [of xs ys] show ?thesis by auto
  qed
qed

definition addr_bits :: "nat \<Rightarrow> sockaddr \<Rightarrow> bool list" where
  "addr_bits af a = (if af = AF_INET then net_bits (sin_addr a) else concat (map net_bits (sin6_addr a)))"

definition host_bits :: "nat \<Rightarrow> apn_addr \<Rightarrow> bool list" where
  "host_bits af a = (if af = AF_INET then net_bits (addr_v4 a) else concat (map net_bits (addr_v6 a)))"

text \<open>The netmask lengths the parser admits and address words of the right number.\<close>

definition host_wf :: "apn_host \<Rightarrow> bool" where
  "host_wf h \<longleftrightarrow> (addr_af (host_addr h) = AF_INET \<longrightarrow> addr_len (host_addr h) \<le> 32) \<and>
     length (addr_v6 (host_addr h)) = 4"

lemma host_addr_match_bits:
  assumes "host_wf h" "addr_af (host_addr h) = af" "af = AF_INET \<or> af = AF_INET6" "length (sin6_addr a) = 4"
  shows "host_addr_match h a af \<longleftrightarrow>
    take (addr_len (host_addr h)) (addr_bits af a) = take (addr_len (host_addr h)) (host_bits af (host_addr h))"
  using assms
  by (auto simp: host_addr_match_def host_wf_def addr_bits_def host_bits_def v4_mask_match
      compare_ip6_mask_bits)

lemma host_loop_result:
  "(case host_loop hs a af m n of (m', n') \<Rightarrow> if n' then \<not> m' else m') \<longleftrightarrow>
     (\<exists>h\<in>set hs. addr_af (host_addr h) = af \<and> host_addr_match h a af \<noteq> host_negate h) \<or>
     ((\<forall>h\<in>set hs. addr_af (host_addr h) \<noteq> af) \<and> (if n then \<not> m else m))"
proof (induction hs arbitrary: m n)
  case (Cons h hs)
  show ?case
    by (cases "addr_af (host_addr h) = af"; cases "host_negate h"; cases "host_addr_match h a af")
      (simp_all add: Let_def Cons.IH)
qed simp

lemma pe_addrmatch_host_iff:
  "pe_addrmatch_host hs a af \<longleftrightarrow> hs = [] \<or>
     (\<exists>h\<in>set hs. addr_af (host_addr h) = af \<and> host_addr_match h a af \<noteq> host_negate h)"
  using host_loop_result [of hs a af False False] by (simp add: pe_addrmatch_host_def)

subsection \<open>Reference semantics of a block\<close>

text \<open>A filter or capability rule that decides the event.\<close>

definition alf_decides :: "alf_event \<Rightarrow> int \<Rightarrow> apn_rule \<Rightarrow> bool" where
  "alf_decides msg now r \<longleftrightarrow> pe_in_scope (scope r) (ev_cookie msg) now \<and>
     (case body r of
        APN_ALF_FILTER f \<Rightarrow> is_filter_proto (protocol msg) \<and> filter_matches msg f
      | APN_ALF_CAPABILITY k \<Rightarrow> \<not> is_filter_proto (protocol msg) \<and> pe_alf_capmatch k (sock_type msg)
      | _ \<Rightarrow> False)"

definition alf_default :: "alf_event \<Rightarrow> int \<Rightarrow> apn_rule \<Rightarrow> bool" where
  "alf_default msg now r \<longleftrightarrow> pe_in_scope (scope r) (ev_cookie msg) now \<and>
     (case body r of APN_DEFAULT d \<Rightarrow> True | _ \<Rightarrow> False)"

fun alf_rule_result :: "apn_rule \<Rightarrow> alf_result" where
  "alf_rule_result r =
     (case body r of
        APN_ALF_FILTER f \<Rightarrow> \<lparr>decision = Some (afilt_action f), log = flog (filtspec f), rule_id = apn_id r\<rparr>
      | APN_ALF_CAPABILITY k \<Rightarrow> \<lparr>decision = Some (acap_action k), log = acap_filtspec_log k, rule_id = apn_id r\<rparr>
      | APN_DEFAULT d \<Rightarrow> \<lparr>decision = Some (d_action d), log = d_log d, rule_id = apn_id r\<rparr>
      | _ \<Rightarrow> \<lparr>decision = None, log = APN_LOG_NONE, rule_id = 0\<rparr>)"

lemma alf_loop_ref:
  "alf_loop rs msg now res =
     (case find (alf_decides msg now) rs of
        Some r \<Rightarrow> alf_rule_result r
      | None \<Rightarrow>
          (if decision res \<noteq> None then res
           else case find (alf_default msg now) rs of
                  Some r \<Rightarrow> alf_rule_result r
                | None \<Rightarrow> res))"
proof (induction rs arbitrary: res)
  case (Cons r rs)
  show ?case
  proof (cases "pe_in_scope (scope r) (ev_cookie msg) now")
    case True
    then show ?thesis
      by (cases "body r")
        (auto simp: Cons.IH alf_decides_def alf_default_def simp del: acap_filtspec_log.simps
          split: option.splits)
  next
    case False
    then have "\<not> alf_decides msg now r" "\<not> alf_default msg now r"
      by (simp_all add: alf_decides_def alf_default_def)
    then have "find (alf_decides msg now) (r # rs) = find (alf_decides msg now) rs"
      and "find (alf_default msg now) (r # rs) = find (alf_default msg now) rs"
      by simp_all
    moreover from False have "alf_loop (r # rs) msg now res = alf_loop rs msg now res"
      by simp
    ultimately show ?thesis
      by (simp only: Cons.IH)
  qed
qed simp

lemma evaluate_rule_ref:
  "pe_alf_evaluate_rule b msg lg rid now =
     (if alf_implicit_allow msg then \<lparr>decision = Some APN_ACTION_ALLOW, log = lg, rule_id = rid\<rparr>
      else case find (alf_decides msg now) (chain b) of
        Some r \<Rightarrow> alf_rule_result r
      | None \<Rightarrow> (case find (alf_default msg now) (chain b) of
            Some r \<Rightarrow> alf_rule_result r
          | None \<Rightarrow> \<lparr>decision = None, log = lg, rule_id = rid\<rparr>))"
  by (simp add: pe_alf_evaluate_rule_def alf_loop_ref del: alf_rule_result.simps)

subsection \<open>Properties\<close>

text \<open>
  C30. Evaluating an ALF block is a two-stage first match: outside the traffic that is always
  allowed, the first filter or capability rule in scope that matches the event decides,
  wherever default rules stand in the block; only if there is none does the first default rule
  in scope decide, and without one there is no decision.
\<close>

theorem alf_evaluate_first_match:
  "pe_alf_evaluate_rule b msg lg rid now =
     (if alf_implicit_allow msg then \<lparr>decision = Some APN_ACTION_ALLOW, log = lg, rule_id = rid\<rparr>
      else case find (alf_decides msg now) (chain b) of
        Some r \<Rightarrow> alf_rule_result r
      | None \<Rightarrow> (case find (alf_default msg now) (chain b) of
            Some r \<Rightarrow> alf_rule_result r
          | None \<Rightarrow> \<lparr>decision = None, log = lg, rule_id = rid\<rparr>))"
  by (rule evaluate_rule_ref)

text \<open>
  Host matching: an empty list matches every address; otherwise a list matches an IPv4 or
  IPv6 address iff it has an entry of the same family whose first \<open>len\<close> bits, in network
  order, agree with the address, or differ from it if the entry is negated.
\<close>

theorem addrmatch_host_bits:
  assumes "\<forall>h\<in>set hs. host_wf h" and "length (sin6_addr a) = 4" and "af = AF_INET \<or> af = AF_INET6"
  shows "pe_addrmatch_host hs a af \<longleftrightarrow> hs = [] \<or>
    (\<exists>h\<in>set hs. addr_af (host_addr h) = af \<and>
       (take (addr_len (host_addr h)) (addr_bits af a) =
        take (addr_len (host_addr h)) (host_bits af (host_addr h))) = (\<not> host_negate h))"
  unfolding pe_addrmatch_host_iff
  using host_addr_match_bits assms by blast

text \<open>The rule \<^verbatim>\<open>10.0.0.0/8\<close> and the address \<^verbatim>\<open>10.1.2.3\<close>, as little-endian words.\<close>

definition demo_net :: apn_host where
  "demo_net = \<lparr>host_addr = \<lparr>addr_af = AF_INET, addr_len = 8, addr_v4 = 10, addr_v6 = [0,0,0,0]\<rparr>, host_negate = False\<rparr>"

definition demo_sock :: sockaddr where
  "demo_sock = \<lparr>sin_port = 0, sin_addr = 0x0302010A, sin6_addr = [0,0,0,0]\<rparr>"

theorem addrmatch_host_bits_witness: "pe_addrmatch_host [demo_net] demo_sock AF_INET"
proof -
  have "pe_addrmatch_host [demo_net] demo_sock AF_INET \<longleftrightarrow> [demo_net] = [] \<or>
    (\<exists>h\<in>set [demo_net]. addr_af (host_addr h) = AF_INET \<and>
       (take (addr_len (host_addr h)) (addr_bits AF_INET demo_sock) =
        take (addr_len (host_addr h)) (host_bits AF_INET (host_addr h))) = (\<not> host_negate h))"
    by (rule addrmatch_host_bits) (simp_all add: demo_net_def demo_sock_def host_wf_def)
  then show ?thesis
    by (simp add: demo_net_def demo_sock_def addr_bits_def host_bits_def net_bits_take_eq bit_htonl
        swap_idx_def numeral_eq_Suc All_less_Suc2)
qed


text \<open>
  For single ports the comparison is right: a port list without ranges matches exactly the
  ports it names.
\<close>

theorem port_single_exact:
  assumes "\<forall>p\<in>set ps. port_hi p = 0" and "ps \<noteq> []" and "af = AF_INET \<or> af = AF_INET6"
  shows "pe_addrmatch_port ps a af \<longleftrightarrow> sin_port a \<in> port_lo ` set ps"
  using assms by (auto simp: list_ex_iff)

theorem port_single_exact_witness:
  "pe_addrmatch_port [\<lparr>port_lo = htons 22, port_hi = 0\<rparr>, \<lparr>port_lo = htons 80, port_hi = 0\<rparr>]
     \<lparr>sin_port = htons 80, sin_addr = 0, sin6_addr = []\<rparr> AF_INET"
  using port_single_exact [of "[\<lparr>port_lo = htons 22, port_hi = 0\<rparr>, \<lparr>port_lo = htons 80, port_hi = 0\<rparr>]"
      AF_INET "\<lparr>sin_port = htons 80, sin_addr = 0, sin6_addr = []\<rparr>"]
  by simp

text \<open>
  The log level of a decision by a capability rule is taken from the wrong member of the
  rule union: it depends only on the capability and never on the log level of the rule. A rule
  that asks for an alert is decided without logging.
\<close>

theorem capability_log_ignored:
  assumes "find (alf_decides msg now) (chain b) = Some r" and "body r = APN_ALF_CAPABILITY k"
    and "\<not> alf_implicit_allow msg"
  shows "log (pe_alf_evaluate_rule b msg lg rid now) =
    (case capability k of APN_ALF_CAPRAW \<Rightarrow> APN_LOG_NONE | APN_ALF_CAPOTHER \<Rightarrow> APN_LOG_NORMAL
     | APN_ALF_CAPALL \<Rightarrow> APN_LOG_ALERT)"
  using assms by (simp add: evaluate_rule_ref)

definition demo_raw_rule :: apn_rule where
  "demo_raw_rule = \<lparr>apn_id = 7, scope = None, body = APN_ALF_CAPABILITY
     \<lparr>acap_action = APN_ACTION_ALLOW, acap_log = APN_LOG_ALERT, capability = APN_ALF_CAPRAW\<rparr>\<rparr>"

definition demo_raw_block :: apn_block where
  "demo_raw_block = \<lparr>blk_addr = 1, blk_id = 6, app = [], flags = 0, chain = [demo_raw_rule]\<rparr>"

definition demo_raw_event :: alf_event where
  "demo_raw_event = \<lparr>ev_cookie = 3, ev_pgid = 0, family = AF_INET, sock_type = SOCK_RAW, protocol = 1,
     op = ALF_SENDMSG, local = demo_sock, peer = demo_sock\<rparr>"

theorem capability_log_ignored_witness:
  "log (pe_alf_evaluate_rule demo_raw_block demo_raw_event APN_LOG_NONE 0 5) = APN_LOG_NONE"
proof -
  have "find (alf_decides demo_raw_event 5) (chain demo_raw_block) = Some demo_raw_rule"
    by (simp add: demo_raw_block_def alf_decides_def demo_raw_rule_def demo_raw_event_def
        pe_in_scope_def is_filter_proto_def pe_alf_capmatch_def)
  from capability_log_ignored [OF this, of "\<lparr>acap_action = APN_ACTION_ALLOW, acap_log = APN_LOG_ALERT,
     capability = APN_ALF_CAPRAW\<rparr>" APN_LOG_NONE 0]
  show ?thesis by (simp add: demo_raw_rule_def demo_raw_event_def alf_implicit_allow_def)
qed

end
