(* ===== verification/Sfs.thy ===== *)
theory Sfs
  imports Process Alf
begin

text \<open>
  Model of the SFS decision of the policy engine, \<^verbatim>\<open>src/src/anoubisd/pe_sfs.c\<close>, with the data
  types it shares with the sandbox and ALF decisions (file events and replies of
  \<^verbatim>\<open>src/src/anoubisd/pe.h\<close>, log notifications).

  Candidate rules come from the rule index of the block and checksums from the checksum cache;
  \<open>sfs_verdict\<close> is the reference: first match over all rules of the block with the
  checksums that the SFS tree holds. The interpretations \<open>blk\<close> of the rule index and \<open>cache\<close> of
  the checksum cache connect the two. A NULL path that is handed to the checksum cache is
  dereferenced; the evaluation then has the result \<open>None\<close>.
\<close>

subsection \<open>Events and replies\<close>

definition PE_UPGRADE_TOUCHED :: u32 where "PE_UPGRADE_TOUCHED = 1"
definition PE_UPGRADE_WRITEOK :: u32 where "PE_UPGRADE_WRITEOK = 2"

datatype sfs_match =
  ANOUBIS_SFS_NONE | ANOUBIS_SFS_DEFAULT | ANOUBIS_SFS_VALID | ANOUBIS_SFS_INVALID | ANOUBIS_SFS_UNKNOWN

record pe_file_event =
  f_cookie :: cookie
  f_path :: "string option"
  f_csum :: bytes
  f_amask :: u32
  f_uid :: uid
  f_upgrade_flags :: u32

text \<open>
  The field \<^verbatim>\<open>reply\<close> holds an error code or, in replies that allow the event, flags for the
  kernel: secure exec, playground, lockwatch. Identifiers are NULL unless the user is asked.
\<close>

record anoubisd_reply =
  r_ask :: bool
  r_hold :: bool
  r_timeout :: int
  r_reply :: "errno option"
  r_secureexec :: bool
  r_playground :: bool
  r_lockwatch :: bool
  r_log :: apn_log_level
  r_rule_id :: nat
  r_prio :: nat
  r_sfsmatch :: sfs_match
  r_pident :: "pe_proc_ident option"
  r_ctxident :: "pe_proc_ident option"

text \<open>The message of \<^verbatim>\<open>send_lognotify\<close>.\<close>

record lognotify =
  n_error :: apn_action_type
  n_log :: apn_log_level
  n_rule_id :: nat
  n_prio :: nat
  n_sfsmatch :: sfs_match

definition pe_proc_ident :: "pe \<Rightarrow> nat option \<Rightarrow> pe_proc_ident option" where
  "pe_proc_ident s proc = map_option (\<lambda>p. p_ident (proc_of s p)) proc"

definition pe_context_get_ident :: "pe \<Rightarrow> nat option \<Rightarrow> pe_proc_ident option" where
  "pe_context_get_ident s ctx = map_option (\<lambda>a. ident (ctx_of s a)) ctx"

text \<open>The end that the three decision functions share: the reply for a decision.\<close>

definition make_reply ::
    "pe \<Rightarrow> nat option \<Rightarrow> apn_action_type \<Rightarrow> apn_log_level \<Rightarrow> nat \<Rightarrow> nat \<Rightarrow> sfs_match \<Rightarrow> anoubisd_reply" where
  "make_reply s proc dec lg rid pr m =
     (let ask = (dec = APN_ACTION_ASK)
      in \<lparr>r_ask = ask, r_hold = False, r_timeout = (if ask then 300 else 0),
          r_reply = (if dec = APN_ACTION_DENY then Some EPERM else None),
          r_secureexec = False, r_playground = False, r_lockwatch = False,
          r_log = lg, r_rule_id = rid, r_prio = pr, r_sfsmatch = m,
          r_pident = (if ask then pe_proc_ident s proc else None),
          r_ctxident = (if ask then pe_context_get_ident s (pe_proc_get_context s proc pr) else None)\<rparr>)"

definition make_notify ::
    "apn_action_type \<Rightarrow> apn_log_level \<Rightarrow> nat \<Rightarrow> nat \<Rightarrow> sfs_match \<Rightarrow> lognotify option" where
  "make_notify dec lg rid pr m =
     (if lg = APN_LOG_NONE then None
      else Some \<lparr>n_error = dec, n_log = lg, n_rule_id = rid, n_prio = pr, n_sfsmatch = m\<rparr>)"

subsection \<open>Checksums of subjects\<close>

definition lookup_csum :: "sfs_disk \<Rightarrow> string option \<Rightarrow> cskey \<Rightarrow> sfshash \<Rightarrow> (bytes \<times> sfshash) option" where
  "lookup_csum d path k c =
     (case path of
        None \<Rightarrow> None
      | Some p \<Rightarrow> (case sfshash_get d (p, k) c of (r, c') \<Rightarrow> Some (case r of Inl _ \<Rightarrow> [] | Inr b \<Rightarrow> b, c')))"

definition subject_csum ::
    "pe_env \<Rightarrow> apn_subject \<Rightarrow> string option \<Rightarrow> uid \<Rightarrow> sfshash \<Rightarrow> (bytes \<times> sfshash) option" where
  "subject_csum en subject path u c =
     (case subject of
        APN_CS_NONE \<Rightarrow> Some ([], c)
      | APN_CS_UID v \<Rightarrow> lookup_csum (disk en) path (CSTYPE_UID v) c
      | APN_CS_KEY k \<Rightarrow> lookup_csum (disk en) path (CSTYPE_KEY k) c
      | APN_CS_UID_SELF \<Rightarrow> lookup_csum (disk en) path (CSTYPE_UID u) c
      | APN_CS_KEY_SELF \<Rightarrow>
          (case cert_keyid_for_uid en u of
             None \<Rightarrow> Some ([], c)
           | Some k \<Rightarrow> lookup_csum (disk en) path (CSTYPE_KEY k) c))"

subsection \<open>Rule evaluation\<close>

text \<open>The comparison of the checksum of the subject (not empty) with the one of the event.\<close>

definition csum_valid :: "pe_file_event \<Rightarrow> bytes \<Rightarrow> bool" where
  "csum_valid fev cs =
     (if has_flag (f_upgrade_flags fev) PE_UPGRADE_TOUCHED \<and>
         (length (f_csum fev) = ANOUBIS_CS_LEN \<or> has_flag (f_upgrade_flags fev) PE_UPGRADE_WRITEOK)
      then True
      else length (f_csum fev) = ANOUBIS_CS_LEN \<and> cs = f_csum fev)"

definition pe_sfs_match_one ::
    "pe_env \<Rightarrow> apn_rule \<Rightarrow> pe_file_event \<Rightarrow> int \<Rightarrow> sfshash \<Rightarrow> ((apn_default \<times> sfs_match) option \<times> sfshash) option" where
  "pe_sfs_match_one en r fev now c =
     (if \<not> pe_in_scope (scope r) (f_cookie fev) now then Some (None, c)
      else case body r of
        APN_SFS_DEFAULT d \<Rightarrow>
          (if prefix_applies (sfsd_path d) (f_path fev)
           then Some (Some (\<lparr>d_action = sfsd_action d, d_log = sfsd_log d\<rparr>, ANOUBIS_SFS_DEFAULT), c)
           else Some (None, c))
      | APN_SFS_ACCESS a \<Rightarrow>
          (if \<not> prefix_applies (sfs_path a) (f_path fev) then Some (None, c)
           else case subject_csum en (sfs_subject a) (f_path fev) (f_uid fev) c of
             None \<Rightarrow> None
           | Some (cs, c') \<Rightarrow>
               Some (Some (if cs = [] then (unknown a, ANOUBIS_SFS_UNKNOWN)
                           else if csum_valid fev cs then (valid a, ANOUBIS_SFS_VALID)
                           else (invalid a, ANOUBIS_SFS_INVALID)), c'))
      | _ \<Rightarrow> Some (None, c))"

definition pe_sfs_getrules :: "pe \<Rightarrow> uid \<Rightarrow> nat \<Rightarrow> string option \<Rightarrow> errno + apn_rule list" where
  "pe_sfs_getrules s u prio path =
     (case pe_user_get_ruleset u prio (pdb s) of
        None \<Rightarrow> Inr []
      | Some rs \<Rightarrow>
          (case sfs_queue rs of
             [] \<Rightarrow> Inr []
           | sfsrules # _ \<Rightarrow>
               (if chain sfsrules = [] then Inr [] else block_getrules sfsrules path)))"

text \<open>
  The loop over the candidates of one priority: the deciding rule with its action and kind of
  match, and the log level, which matching rules only raise.
\<close>

fun sfs_rules_loop ::
    "pe_env \<Rightarrow> apn_rule list \<Rightarrow> pe_file_event \<Rightarrow> int \<Rightarrow> apn_log_level \<Rightarrow> sfshash \<Rightarrow>
     ((apn_action_type \<times> sfs_match \<times> nat) option \<times> apn_log_level \<times> sfshash) option" where
  "sfs_rules_loop en [] fev now lg c = Some (None, lg, c)"
| "sfs_rules_loop en (r # rs) fev now lg c =
     (case pe_sfs_match_one en r fev now c of
        None \<Rightarrow> None
      | Some (None, c') \<Rightarrow> sfs_rules_loop en rs fev now lg c'
      | Some (Some (res, m), c') \<Rightarrow>
          (let lg' = (if d_log res > lg then d_log res else lg)
           in if d_action res = APN_ACTION_CONTINUE then sfs_rules_loop en rs fev now lg' c'
              else Some (Some (d_action res, m, apn_id r), lg', c')))"

record sfs_acc =
  a_decision :: "apn_action_type option"
  a_match :: sfs_match
  a_rule_id :: nat
  a_prio :: nat
  a_log :: apn_log_level

fun sfs_prio_loop ::
    "pe_env \<Rightarrow> nat option \<Rightarrow> pe_file_event \<Rightarrow> int \<Rightarrow> nat list \<Rightarrow> sfs_acc \<Rightarrow> pe \<Rightarrow> (sfs_acc \<times> pe) option" where
  "sfs_prio_loop en proc fev now [] acc s = Some (acc, s)"
| "sfs_prio_loop en proc fev now (i # is) acc s =
     (if pe_proc_is_secure s proc \<and> pe_context_is_nosfs s (pe_proc_get_context s proc i)
      then sfs_prio_loop en proc fev now is acc s
      else case pe_sfs_getrules s (f_uid fev) i (f_path fev) of
        Inl e \<Rightarrow> Some (acc\<lparr>a_decision := Some APN_ACTION_DENY\<rparr>, s)
      | Inr rules \<Rightarrow>
          (if rules = [] then sfs_prio_loop en proc fev now is acc s
           else case sfs_rules_loop en rules fev now (a_log acc) (cache s) of
             None \<Rightarrow> None
           | Some (hit, lg, c) \<Rightarrow>
               (let acc' = (case hit of
                      None \<Rightarrow> acc\<lparr>a_log := lg\<rparr>
                    | Some (act, m, rid) \<Rightarrow>
                        \<lparr>a_decision = Some act, a_match = m, a_rule_id = rid, a_prio = i, a_log = lg\<rparr>);
                    s' = s\<lparr>cache := c\<rparr>
                in if a_decision acc' \<noteq> None \<and> a_decision acc' \<noteq> Some APN_ACTION_ALLOW
                   then Some (acc', s') else sfs_prio_loop en proc fev now is acc' s')))"

definition sfs_acc_init :: sfs_acc where
  "sfs_acc_init = \<lparr>a_decision = None, a_match = ANOUBIS_SFS_NONE, a_rule_id = 0, a_prio = 0,
     a_log = APN_LOG_NONE\<rparr>"

text \<open>\<open>now\<close> is \<open>None\<close> if the current time is not available.\<close>

definition pe_decide_sfs ::
    "pe_env \<Rightarrow> nat option \<Rightarrow> pe_file_event \<Rightarrow> int option \<Rightarrow> pe \<Rightarrow> ((anoubisd_reply \<times> lognotify option) \<times> pe) option" where
  "pe_decide_sfs en proc fev now s =
     (case now of
        None \<Rightarrow> Some ((make_reply s proc APN_ACTION_DENY APN_LOG_NONE 0 0 ANOUBIS_SFS_NONE, None), s)
      | Some t \<Rightarrow>
          (case sfs_prio_loop en proc fev t [0..<PE_PRIO_MAX] sfs_acc_init s of
             None \<Rightarrow> None
           | Some (acc, s') \<Rightarrow>
               (let dec = (case a_decision acc of None \<Rightarrow> APN_ACTION_ALLOW | Some d \<Rightarrow> d)
                in Some ((make_reply s' proc dec (a_log acc) (a_rule_id acc) (a_prio acc) (a_match acc),
                          make_notify dec (a_log acc) (a_rule_id acc) (a_prio acc) (a_match acc)), s'))))"


subsection \<open>Reference semantics\<close>

text \<open>The checksum that the SFS tree holds for a path and a subject.\<close>

definition stored_csum :: "pe_env \<Rightarrow> apn_subject \<Rightarrow> string \<Rightarrow> uid \<Rightarrow> bytes" where
  "stored_csum en subject p u =
     (let rd = (\<lambda>k. case sfshash_readsum (disk en) p k of Inl _ \<Rightarrow> [] | Inr b \<Rightarrow> b)
      in case subject of
           APN_CS_NONE \<Rightarrow> []
         | APN_CS_UID v \<Rightarrow> rd (CSTYPE_UID v)
         | APN_CS_KEY k \<Rightarrow> rd (CSTYPE_KEY k)
         | APN_CS_UID_SELF \<Rightarrow> rd (CSTYPE_UID u)
         | APN_CS_KEY_SELF \<Rightarrow> (case cert_keyid_for_uid en u of None \<Rightarrow> [] | Some k \<Rightarrow> rd (CSTYPE_KEY k)))"

text \<open>What a rule says about an event on path \<open>p\<close>.\<close>

definition sfs_ref :: "pe_env \<Rightarrow> pe_file_event \<Rightarrow> string \<Rightarrow> int \<Rightarrow> apn_rule \<Rightarrow> (apn_default \<times> sfs_match) option" where
  "sfs_ref en fev p now r =
     (if pe_in_scope (scope r) (f_cookie fev) now \<and> prefix_applies (rule_pref r) (Some p) then
        (case body r of
           APN_SFS_DEFAULT d \<Rightarrow> Some (\<lparr>d_action = sfsd_action d, d_log = sfsd_log d\<rparr>, ANOUBIS_SFS_DEFAULT)
         | APN_SFS_ACCESS a \<Rightarrow>
             (let cs = stored_csum en (sfs_subject a) p (f_uid fev)
              in Some (if cs = [] then (unknown a, ANOUBIS_SFS_UNKNOWN)
                       else if csum_valid fev cs then (valid a, ANOUBIS_SFS_VALID)
                       else (invalid a, ANOUBIS_SFS_INVALID)))
         | _ \<Rightarrow> None)
      else None)"

text \<open>A rule decides if it applies and does not just continue.\<close>

definition sfs_effect :: "pe_env \<Rightarrow> pe_file_event \<Rightarrow> string \<Rightarrow> int \<Rightarrow> apn_rule \<Rightarrow> (apn_action_type \<times> sfs_match \<times> nat) option" where
  "sfs_effect en fev p now r =
     (case sfs_ref en fev p now r of
        None \<Rightarrow> None
      | Some (res, m) \<Rightarrow>
          (if d_action res = APN_ACTION_CONTINUE then None else Some (d_action res, m, apn_id r)))"

definition sfs_first :: "pe_env \<Rightarrow> pe_file_event \<Rightarrow> string \<Rightarrow> int \<Rightarrow> apn_rule list \<Rightarrow> (apn_action_type \<times> sfs_match \<times> nat) option" where
  "sfs_first en fev p now rules =
     (case List.map_filter (sfs_effect en fev p now) rules of [] \<Rightarrow> None | h # _ \<Rightarrow> Some h)"

text \<open>The log level: the highest one of the rules that apply, up to the deciding one.\<close>

fun sfs_log :: "pe_env \<Rightarrow> pe_file_event \<Rightarrow> string \<Rightarrow> int \<Rightarrow> apn_rule list \<Rightarrow> apn_log_level \<Rightarrow> apn_log_level" where
  "sfs_log en fev p now [] lg = lg"
| "sfs_log en fev p now (r # rs) lg =
     (case sfs_ref en fev p now r of
        None \<Rightarrow> sfs_log en fev p now rs lg
      | Some (res, m) \<Rightarrow>
          (if d_action res = APN_ACTION_CONTINUE then sfs_log en fev p now rs (max lg (d_log res))
           else max lg (d_log res)))"

lemma sfs_first_simps [simp]:
  "sfs_first en fev p now [] = None"
  "sfs_first en fev p now (r # rs) =
     (case sfs_effect en fev p now r of None \<Rightarrow> sfs_first en fev p now rs | Some h \<Rightarrow> Some h)"
  by (simp_all add: sfs_first_def List.map_filter_simps split: option.split)

lemma lookup_csum_ref:
  assumes "coherent d c"
  shows "\<exists>c'. lookup_csum d (Some p) k c =
      Some (case sfshash_readsum d p k of Inl _ \<Rightarrow> [] | Inr b \<Rightarrow> b, c') \<and> coherent d c'"
  using cache.get_pair [OF assms, of "(p, k)"] unfolding lookup_csum_def
  by (cases "sfshash_get d (p, k) c") auto

lemma subject_csum_ref:
  assumes "coherent (disk en) c"
  shows "\<exists>c'. subject_csum en sub (Some p) u c = Some (stored_csum en sub p u, c') \<and> coherent (disk en) c'"
  using lookup_csum_ref [OF assms, of p] assms
  by (cases sub) (auto simp: subject_csum_def stored_csum_def split: option.split)

lemma rule_pref_sfs [simp]:
  "body r = APN_SFS_DEFAULT d \<Longrightarrow> rule_pref r = sfsd_path d"
  "body r = APN_SFS_ACCESS a \<Longrightarrow> rule_pref r = sfs_path a"
  "body r = APN_SB_ACCESS b \<Longrightarrow> rule_pref r = sb_path b"
  "body r = APN_DEFAULT e \<Longrightarrow> rule_pref r = None"
  by (simp_all add: rule_pref_def)

lemma match_one_ref:
  assumes "coherent (disk en) c" and "f_path fev = Some p"
  shows "\<exists>c'. pe_sfs_match_one en r fev now c = Some (sfs_ref en fev p now r, c') \<and> coherent (disk en) c'"
proof (cases "\<exists>a. body r = APN_SFS_ACCESS a")
  case True
  then obtain a where a: "body r = APN_SFS_ACCESS a" by blast
  obtain c' where "subject_csum en (sfs_subject a) (Some p) (f_uid fev) c =
      Some (stored_csum en (sfs_subject a) p (f_uid fev), c')" "coherent (disk en) c'"
    using subject_csum_ref [OF assms(1)] by blast
  with a assms show ?thesis
    by (cases "pe_in_scope (scope r) (f_cookie fev) now"; cases "prefix_applies (sfs_path a) (Some p)")
      (simp_all add: pe_sfs_match_one_def sfs_ref_def Let_def)
next
  case False
  with assms show ?thesis
    by (cases "body r") (simp_all add: pe_sfs_match_one_def sfs_ref_def)
qed

lemma rules_loop_ref:
  assumes "f_path fev = Some p"
  shows "coherent (disk en) c \<Longrightarrow>
    \<exists>c'. sfs_rules_loop en rules fev now lg c =
      Some (sfs_first en fev p now rules, sfs_log en fev p now rules lg, c') \<and> coherent (disk en) c'"
proof (induction rules arbitrary: lg c)
  case (Cons r rs)
  obtain c1 where m: "pe_sfs_match_one en r fev now c = Some (sfs_ref en fev p now r, c1)"
    and c1: "coherent (disk en) c1" using match_one_ref [OF Cons.prems assms] by blast
  have mx: "(if d > l then d else l) = max l d" for d l :: apn_log_level
    by (auto simp: max_def)
  show ?case
  proof (cases "sfs_ref en fev p now r")
    case None
    then show ?thesis using m Cons.IH [OF c1] by (simp add: sfs_effect_def)
  next
    case (Some q)
    then show ?thesis using m Cons.IH [OF c1] c1 by (cases q) (simp add: sfs_effect_def mx)
  qed
qed simp

text \<open>Leaving out rules that do not apply changes nothing.\<close>

lemma sfs_filter:
  assumes "\<forall>r\<in>set rules. prefix_applies (rule_pref r) (Some p) \<longrightarrow> Q r"
  shows "sfs_first en fev p now (filter Q rules) = sfs_first en fev p now rules"
    and "sfs_log en fev p now (filter Q rules) lg = sfs_log en fev p now rules lg"
proof -
  have n: "sfs_ref en fev p now r = None" if "r \<in> set rules" "\<not> Q r" for r
    using assms that by (auto simp: sfs_ref_def)
  then show "sfs_first en fev p now (filter Q rules) = sfs_first en fev p now rules"
    using assms by (induction rules) (auto simp: sfs_effect_def split: option.split)
  from n assms show "sfs_log en fev p now (filter Q rules) lg = sfs_log en fev p now rules lg"
    by (induction rules arbitrary: lg) (auto split: option.split)
qed

text \<open>The SFS rules of a user at one priority.\<close>

definition sfs_chain :: "pe \<Rightarrow> uid \<Rightarrow> nat \<Rightarrow> apn_rule list" where
  "sfs_chain s u prio =
     (case pe_user_get_ruleset u prio (pdb s) of
        None \<Rightarrow> []
      | Some rs \<Rightarrow> (case sfs_queue rs of [] \<Rightarrow> [] | b # _ \<Rightarrow> chain b))"

lemma sfs_getrules_filter:
  assumes "chain_normal (sfs_chain s u prio)" and "event_path_ok path"
  shows "\<exists>Q. pe_sfs_getrules s u prio path = Inr (filter Q (sfs_chain s u prio)) \<and>
    (\<forall>r\<in>set (sfs_chain s u prio). prefix_applies (rule_pref r) path \<longrightarrow> Q r)"
proof (cases "sfs_chain s u prio = []")
  case True
  then show ?thesis
    by (auto simp: pe_sfs_getrules_def sfs_chain_def split: option.splits list.splits)
next
  case False
  then obtain rs b bs where b: "pe_user_get_ruleset u prio (pdb s) = Some rs" "sfs_queue rs = b # bs"
    "sfs_chain s u prio = chain b"
    by (auto simp: sfs_chain_def split: option.splits list.splits)
  with False assms blk.candidates [of b path] show ?thesis by (simp add: pe_sfs_getrules_def)
qed

text \<open>What one priority decides; nothing if its context disables SFS for a secure process.\<close>

definition sfs_skipped :: "pe \<Rightarrow> nat option \<Rightarrow> nat \<Rightarrow> bool" where
  "sfs_skipped s proc i \<longleftrightarrow>
     pe_proc_is_secure s proc \<and> pe_context_is_nosfs s (pe_proc_get_context s proc i)"

definition sfs_rules_of :: "pe \<Rightarrow> nat option \<Rightarrow> uid \<Rightarrow> nat \<Rightarrow> apn_rule list" where
  "sfs_rules_of s proc u i = (if sfs_skipped s proc i then [] else sfs_chain s u i)"

lemma of_cache [simp]: "proc_of (s\<lparr>cache := c\<rparr>) = proc_of s" "ctx_of (s\<lparr>cache := c\<rparr>) = ctx_of s"
  by (simp_all add: fun_eq_iff proc_of_def ctx_of_def)

lemma of_cache_flags [simp]:
  "pe_proc_is_secure (s\<lparr>cache := c\<rparr>) = pe_proc_is_secure s"
  "pe_context_is_nosfs (s\<lparr>cache := c\<rparr>) = pe_context_is_nosfs s"
  "pe_proc_get_context (s\<lparr>cache := c\<rparr>) = pe_proc_get_context s"
  by (simp_all add: fun_eq_iff pe_proc_is_secure_def pe_proc_get_flag_def pe_context_is_nosfs_def
      pe_proc_get_context_def split: option.split)

lemma sfs_cache_frame [simp]:
  "sfs_chain (s\<lparr>cache := c\<rparr>) = sfs_chain s" "sfs_skipped (s\<lparr>cache := c\<rparr>) = sfs_skipped s"
  "sfs_rules_of (s\<lparr>cache := c\<rparr>) = sfs_rules_of s"
  by (simp_all add: fun_eq_iff sfs_chain_def sfs_skipped_def sfs_rules_of_def)

text \<open>
  The verdict: the first priority whose deciding rule does not allow the event wins; if there is
  none, the last priority with a deciding rule is reported.
\<close>

fun sfs_verdict ::
    "pe_env \<Rightarrow> pe_file_event \<Rightarrow> string \<Rightarrow> int \<Rightarrow> (nat \<times> apn_rule list) list \<Rightarrow> sfs_acc \<Rightarrow> sfs_acc" where
  "sfs_verdict en fev p now [] acc = acc"
| "sfs_verdict en fev p now ((i, rules) # rest) acc =
     (let lg = sfs_log en fev p now rules (a_log acc)
      in case sfs_first en fev p now rules of
           None \<Rightarrow> sfs_verdict en fev p now rest (acc\<lparr>a_log := lg\<rparr>)
         | Some (act, m, rid) \<Rightarrow>
             (let acc' = \<lparr>a_decision = Some act, a_match = m, a_rule_id = rid, a_prio = i, a_log = lg\<rparr>
              in if act = APN_ACTION_ALLOW then sfs_verdict en fev p now rest acc' else acc'))"

lemma prio_loop_ref:
  assumes p: "f_path fev = Some p" "event_path_ok (Some p)"
  shows "coherent (disk en) (cache s) \<Longrightarrow> a_decision acc \<in> {None, Some APN_ACTION_ALLOW} \<Longrightarrow>
    \<forall>i\<in>set is. chain_normal (sfs_chain s (f_uid fev) i) \<Longrightarrow>
    \<exists>c. sfs_prio_loop en proc fev now is acc s =
      Some (sfs_verdict en fev p now (map (\<lambda>i. (i, sfs_rules_of s proc (f_uid fev) i)) is) acc, s\<lparr>cache := c\<rparr>) \<and>
      coherent (disk en) c"
proof (induction "is" arbitrary: acc s)
  case Nil
  then show ?case by (auto intro: exI [of _ "cache s"])
next
  case (Cons i "is")
  show ?case
  proof (cases "sfs_skipped s proc i")
    case True
    then have "sfs_rules_of s proc (f_uid fev) i = []" by (simp add: sfs_rules_of_def)
    with True Cons show ?thesis by (simp add: sfs_skipped_def)
  next
    case False
    let ?R = "sfs_chain s (f_uid fev) i"
    have R: "sfs_rules_of s proc (f_uid fev) i = ?R" using False by (simp add: sfs_rules_of_def)
    obtain Q where g: "pe_sfs_getrules s (f_uid fev) i (f_path fev) = Inr (filter Q ?R)"
      and Q: "\<forall>r\<in>set ?R. prefix_applies (rule_pref r) (Some p) \<longrightarrow> Q r"
      using sfs_getrules_filter [of s "f_uid fev" i "Some p"] Cons.prems(3) p by auto
    obtain c1 where l: "sfs_rules_loop en (filter Q ?R) fev now (a_log acc) (cache s) =
        Some (sfs_first en fev p now ?R, sfs_log en fev p now ?R (a_log acc), c1)"
      and c1: "coherent (disk en) c1"
      using rules_loop_ref [OF p(1) Cons.prems(1), of "filter Q ?R" now "a_log acc"]
      unfolding sfs_filter(1) [OF Q] sfs_filter(2) [OF Q]
      by blast
    show ?thesis
    proof (cases "filter Q ?R = []")
      case True
      then have "sfs_first en fev p now ?R = None" "sfs_log en fev p now ?R (a_log acc) = a_log acc"
        using sfs_filter(1) [OF Q, of en fev now]
          sfs_filter(2) [OF Q, of en fev now "a_log acc"]
        unfolding True by simp_all
      then have v: "sfs_verdict en fev p now ((i, ?R) # rest) acc = sfs_verdict en fev p now rest acc" for rest
        by simp
      have "sfs_prio_loop en proc fev now (i # is) acc s = sfs_prio_loop en proc fev now is acc s"
        using False g [unfolded True] by (simp add: sfs_skipped_def)
      with v R Cons.IH [OF Cons.prems(1,2)] Cons.prems(3) show ?thesis by simp
    next
      case ne: False
      have st: "s\<lparr>cache := c1\<rparr>\<lparr>cache := c\<rparr> = s\<lparr>cache := c\<rparr>" for c by simp
      show ?thesis
      proof (cases "sfs_first en fev p now ?R")
        case None
        show ?thesis
          using Cons.IH [of "s\<lparr>cache := c1\<rparr>" "acc\<lparr>a_log := sfs_log en fev p now ?R (a_log acc)\<rparr>"]
            Cons.prems c1 None False ne g l R by (auto simp: sfs_skipped_def Let_def)
      next
        case (Some h)
        then obtain act m rid where h: "sfs_first en fev p now ?R = Some (act, m, rid)" by (cases h) auto
        show ?thesis
          using Cons.IH [of "s\<lparr>cache := c1\<rparr>" "\<lparr>a_decision = Some act, a_match = m, a_rule_id = rid,
              a_prio = i, a_log = sfs_log en fev p now ?R (a_log acc)\<rparr>"]
            Cons.prems c1 h False ne g l R by (auto simp: sfs_skipped_def Let_def)
      qed
    qed
  qed
qed

lemma sfs_verdict_allow:
  "a_decision acc \<in> {None, Some APN_ACTION_ALLOW} \<Longrightarrow>
   a_decision (sfs_verdict en fev p now prs acc) \<in> {None, Some APN_ACTION_ALLOW} \<longleftrightarrow>
     (\<forall>(i, rules)\<in>set prs. case sfs_first en fev p now rules of None \<Rightarrow> True | Some (act, _) \<Rightarrow> act = APN_ACTION_ALLOW)"
proof (induction prs arbitrary: acc)
  case (Cons q prs)
  obtain i rules where q: "q = (i, rules)" by (cases q)
  show ?case
  proof (cases "sfs_first en fev p now rules")
    case None
    with Cons.IH [of "acc\<lparr>a_log := sfs_log en fev p now rules (a_log acc)\<rparr>"] Cons.prems q
    show ?thesis by simp
  next
    case (Some h)
    then obtain act m rid where h: "sfs_first en fev p now rules = Some (act, m, rid)" by (cases h) auto
    show ?thesis
      using Cons.IH [of "\<lparr>a_decision = Some act, a_match = m, a_rule_id = rid, a_prio = i,
        a_log = sfs_log en fev p now rules (a_log acc)\<rparr>"] q h by (auto simp: Let_def)
  qed
qed simp

lemma decide_sfs_ref:
  assumes "coherent (disk en) (cache s)" and "f_path fev = Some p" and "event_path_ok (Some p)"
    and "\<forall>i<PE_PRIO_MAX. chain_normal (sfs_chain s (f_uid fev) i)"
  obtains c where "coherent (disk en) c" and "\<And>acc dec. acc = sfs_verdict en fev p t
        (map (\<lambda>i. (i, sfs_rules_of s proc (f_uid fev) i)) [0..<PE_PRIO_MAX]) sfs_acc_init \<Longrightarrow>
      dec = (case a_decision acc of None \<Rightarrow> APN_ACTION_ALLOW | Some d \<Rightarrow> d) \<Longrightarrow>
      pe_decide_sfs en proc fev (Some t) s =
        Some ((make_reply s proc dec (a_log acc) (a_rule_id acc) (a_prio acc) (a_match acc),
               make_notify dec (a_log acc) (a_rule_id acc) (a_prio acc) (a_match acc)), s\<lparr>cache := c\<rparr>)"
proof -
  have mk: "make_reply (s\<lparr>cache := c\<rparr>) = make_reply s" for c
    by (simp add: fun_eq_iff make_reply_def pe_proc_ident_def pe_context_get_ident_def Let_def)
  have i: "a_decision sfs_acc_init \<in> {None, Some APN_ACTION_ALLOW}" by (simp add: sfs_acc_init_def)
  obtain c where "sfs_prio_loop en proc fev t [0..<PE_PRIO_MAX] sfs_acc_init s = Some (sfs_verdict en fev p t
        (map (\<lambda>i. (i, sfs_rules_of s proc (f_uid fev) i)) [0..<PE_PRIO_MAX]) sfs_acc_init, s\<lparr>cache := c\<rparr>)"
    and "coherent (disk en) c"
    using prio_loop_ref [OF assms(2,3,1) i, of "[0..<PE_PRIO_MAX]" proc t] assms(4) by auto
  then show ?thesis by (intro that [of c]) (simp_all add: pe_decide_sfs_def Let_def mk)
qed

lemma action_allow:
  "d \<noteq> Some APN_ACTION_CONTINUE \<Longrightarrow>
   (case d of None \<Rightarrow> APN_ACTION_ALLOW | Some x \<Rightarrow> x) \<noteq> APN_ACTION_DENY \<and>
   (case d of None \<Rightarrow> APN_ACTION_ALLOW | Some x \<Rightarrow> x) \<noteq> APN_ACTION_ASK \<longleftrightarrow> d \<in> {None, Some APN_ACTION_ALLOW}"
  by (cases d) (auto intro: apn_action_type.exhaust)

lemma sfs_first_no_continue: "sfs_first en fev p now rules \<noteq> Some (APN_ACTION_CONTINUE, m, rid)"
  by (induction rules) (auto simp: sfs_effect_def split: option.splits if_splits)

lemma sfs_verdict_no_continue:
  "a_decision acc \<noteq> Some APN_ACTION_CONTINUE \<Longrightarrow>
   a_decision (sfs_verdict en fev p now prs acc) \<noteq> Some APN_ACTION_CONTINUE"
proof (induction prs arbitrary: acc)
  case (Cons q prs)
  obtain i rules where q: "q = (i, rules)" by (cases q)
  show ?case
  proof (cases "sfs_first en fev p now rules")
    case (Some h)
    then obtain act m rid where h: "sfs_first en fev p now rules = Some (act, m, rid)" by (cases h) auto
    then have "act \<noteq> APN_ACTION_CONTINUE" using sfs_first_no_continue by metis
    then show ?thesis using q h Cons.IH [of "\<lparr>a_decision = Some act, a_match = m, a_rule_id = rid,
        a_prio = i, a_log = sfs_log en fev p now rules (a_log acc)\<rparr>"]
      by (cases "act = APN_ACTION_ALLOW") (simp_all add: Let_def)
  qed (use q Cons in simp)
qed simp

lemma sfs_passes_iff:
  assumes "coherent (disk en) (cache s)" and "f_path fev = Some p" and "event_path_ok (Some p)"
    and "\<forall>i<PE_PRIO_MAX. chain_normal (sfs_chain s (f_uid fev) i)"
    and "pe_decide_sfs en proc fev (Some t) s = Some ((rep, n), s')"
  shows "r_reply rep = None \<and> \<not> r_ask rep \<longleftrightarrow>
    (\<forall>i<PE_PRIO_MAX. sfs_skipped s proc i \<or>
       (case sfs_first en fev p t (sfs_chain s (f_uid fev) i) of
          None \<Rightarrow> True | Some (act, _) \<Rightarrow> act = APN_ACTION_ALLOW))"
proof -
  let ?prs = "map (\<lambda>i. (i, sfs_rules_of s proc (f_uid fev) i)) [0..<PE_PRIO_MAX]"
  let ?a = "sfs_verdict en fev p t ?prs sfs_acc_init"
  let ?d = "a_decision ?a"
  let ?dec = "case ?d of None \<Rightarrow> APN_ACTION_ALLOW | Some d \<Rightarrow> d"
  have cont: "?d \<noteq> Some APN_ACTION_CONTINUE"
    by (rule sfs_verdict_no_continue) (simp add: sfs_acc_init_def)
  have "r_reply rep = None \<and> \<not> r_ask rep \<longleftrightarrow> ?dec \<noteq> APN_ACTION_DENY \<and> ?dec \<noteq> APN_ACTION_ASK"
  proof -
    have "rep = make_reply s proc ?dec (a_log ?a) (a_rule_id ?a) (a_prio ?a) (a_match ?a)"
      by (rule decide_sfs_ref [OF assms(1-4), of t proc]) (use assms(5) in simp)
    then show ?thesis by (simp add: make_reply_def Let_def)
  qed
  also have "\<dots> \<longleftrightarrow> ?d \<in> {None, Some APN_ACTION_ALLOW}"
    using cont by (rule action_allow)
  also have "\<dots> \<longleftrightarrow> (\<forall>(i, rules)\<in>set ?prs.
      case sfs_first en fev p t rules of None \<Rightarrow> True | Some (act, _) \<Rightarrow> act = APN_ACTION_ALLOW)"
    by (rule sfs_verdict_allow) (simp add: sfs_acc_init_def)
  also have "\<dots> \<longleftrightarrow> (\<forall>i<PE_PRIO_MAX. sfs_skipped s proc i \<or>
       (case sfs_first en fev p t (sfs_chain s (f_uid fev) i) of
          None \<Rightarrow> True | Some (act, _) \<Rightarrow> act = APN_ACTION_ALLOW))"
    by (auto simp: sfs_rules_of_def split: if_splits)
  finally show ?thesis .
qed

subsection \<open>An example\<close>

text \<open>An administrator's block: deny below \<^verbatim>\<open>/etc\<close> unless the checksum of root is valid.\<close>

definition demo_sfs_rule :: "string option \<Rightarrow> apn_rule" where
  "demo_sfs_rule pre = \<lparr>apn_id = 4, scope = None, body = APN_SFS_ACCESS
     \<lparr>sfs_path = pre, sfs_subject = APN_CS_UID 0,
      valid = \<lparr>d_action = APN_ACTION_ALLOW, d_log = APN_LOG_NONE\<rparr>,
      invalid = \<lparr>d_action = APN_ACTION_DENY, d_log = APN_LOG_ALERT\<rparr>,
      unknown = \<lparr>d_action = APN_ACTION_DENY, d_log = APN_LOG_NORMAL\<rparr>\<rparr>\<rparr>"

definition demo_sfs_rs :: "string option \<Rightarrow> apn_ruleset" where
  "demo_sfs_rs pre = \<lparr>rs_addr = 1, alf_queue = [], sfs_queue =
     [\<lparr>blk_addr = 2, blk_id = 3, app = [], flags = 0, chain = [demo_sfs_rule pre]\<rparr>],
     sb_queue = [], ctx_queue = []\<rparr>"

definition demo_sfs_state :: "string option \<Rightarrow> pe" where
  "demo_sfs_state pre =
     pe_init [\<lparr>u_uid = 5, u_prio = (\<lambda>_. None)(PE_PRIO_ADMIN := Some (demo_sfs_rs pre))\<rparr>]
       \<lparr>playgrounds = [], pgdisk = Map.empty, pg_sent = [], last_pgid = 0, pg_crash = False\<rparr>"

definition demo_env :: pe_env where
  "demo_env = \<lparr>disk = (\<lambda>_. Inl ENOENT), cert_keyid_for_uid = (\<lambda>_. None),
     upgrade_mode = ANOUBISD_UPGRADE_MODE_OFF, upgrade_trigger = [], sfs_haschecksum = (\<lambda>_. False),
     version = 0x00010004\<rparr>"

definition demo_file_event :: "string option \<Rightarrow> pe_file_event" where
  "demo_file_event path = \<lparr>f_cookie = 9, f_path = path, f_csum = [], f_amask = APN_SBA_READ, f_uid = 5,
     f_upgrade_flags = 0\<rparr>"

lemma demo_sfs_simps [simp]:
  "cache (demo_sfs_state pre) = sfshash_init"
  "f_path (demo_file_event path) = path" "f_uid (demo_file_event path) = 5"
  "sfs_chain (demo_sfs_state pre) 5 0 = [demo_sfs_rule pre]"
  "sfs_chain (demo_sfs_state pre) 5 (Suc 0) = []"
  "sfs_skipped (demo_sfs_state pre) None i = False"
  by (simp_all add: demo_sfs_state_def pe_init_def demo_file_event_def sfs_chain_def demo_sfs_rs_def
      pe_user_get_ruleset_def pe_user_get_def PE_PRIO_MAX_def PE_PRIO_ADMIN_def sfs_skipped_def
      pe_proc_is_secure_def pe_proc_get_flag_def)

lemma demo_chain_normal:
  "i < PE_PRIO_MAX \<Longrightarrow>
   chain_normal (sfs_chain (demo_sfs_state (Some ''/etc'')) 5 i)"
  by (cases "i = 0")
    (simp_all add: PE_PRIO_MAX_def less_2_cases_iff chain_normal_def path_rule_def rule_pref_def
      demo_sfs_rule_def prefix_normal_def)

lemma demo_effect:
  "sfs_first demo_env (demo_file_event (Some ''/etc/passwd'')) ''/etc/passwd'' 1 [demo_sfs_rule (Some ''/etc'')] =
     Some (APN_ACTION_DENY, ANOUBIS_SFS_UNKNOWN, 4)"
  "sfs_log demo_env (demo_file_event (Some ''/etc/passwd'')) ''/etc/passwd'' 1 [demo_sfs_rule (Some ''/etc'')] APN_LOG_NONE =
     APN_LOG_NORMAL"
  by (simp_all add: sfs_effect_def sfs_ref_def demo_sfs_rule_def pe_in_scope_def prefix_applies_def rule_pref_def
      prefix_match_iff trim_slashes_def stored_csum_def demo_env_def sfshash_readsum_def max_def
      less_eq_apn_log_level_def)

subsection \<open>Properties\<close>

text \<open>
  C12. The SFS decision is a first match over all rules of the two blocks: the candidate search in
  the rule index and the checksum cache never change the result. For an event with a path the
  reply and the log message are the ones computed from the complete blocks and the checksums
  stored in the SFS tree, evaluation never fails, and the cache keeps agreeing with the tree.
\<close>

theorem decide_sfs_reference:
  assumes "coherent (disk en) (cache s)" and "f_path fev = Some p" and "event_path_ok (Some p)"
    and "\<forall>i<PE_PRIO_MAX. chain_normal (sfs_chain s (f_uid fev) i)"
    and "acc = sfs_verdict en fev p t
        (map (\<lambda>i. (i, sfs_rules_of s proc (f_uid fev) i)) [0..<PE_PRIO_MAX]) sfs_acc_init"
    and "dec = (case a_decision acc of None \<Rightarrow> APN_ACTION_ALLOW | Some d \<Rightarrow> d)"
  shows "\<exists>c. pe_decide_sfs en proc fev (Some t) s =
      Some ((make_reply s proc dec (a_log acc) (a_rule_id acc) (a_prio acc) (a_match acc),
             make_notify dec (a_log acc) (a_rule_id acc) (a_prio acc) (a_match acc)), s\<lparr>cache := c\<rparr>) \<and>
    coherent (disk en) c"
  using assms(5,6) by (rule_tac decide_sfs_ref [OF assms(1-4), of t proc]) blast

theorem decide_sfs_reference_witness:
  "r_reply (fst (fst (the (pe_decide_sfs demo_env None (demo_file_event (Some ''/etc/passwd'')) (Some 1)
     (demo_sfs_state (Some ''/etc'')))))) = Some EPERM"
proof -
  let ?fev = "demo_file_event (Some ''/etc/passwd'')" and ?s = "demo_sfs_state (Some ''/etc'')"
  have "\<exists>c. pe_decide_sfs demo_env None ?fev (Some 1) ?s =
      Some ((make_reply ?s None APN_ACTION_DENY APN_LOG_NORMAL 4 0 ANOUBIS_SFS_UNKNOWN,
             make_notify APN_ACTION_DENY APN_LOG_NORMAL 4 0 ANOUBIS_SFS_UNKNOWN), ?s\<lparr>cache := c\<rparr>) \<and>
    coherent (disk demo_env) c"
    using decide_sfs_reference [of demo_env ?s ?fev "''/etc/passwd''" "sfs_verdict demo_env ?fev ''/etc/passwd'' 1
        (map (\<lambda>i. (i, sfs_rules_of ?s None (f_uid ?fev) i)) [0..<PE_PRIO_MAX]) sfs_acc_init" 1 None APN_ACTION_DENY]
    by (simp add: coherent_init event_path_ok_def demo_chain_normal demo_effect sfs_rules_of_def sfs_acc_init_def
        PE_PRIO_MAX_def upt_rec numeral_2_eq_2 del: sfs_first_simps sfs_log.simps)
  then show ?thesis by (auto simp: make_reply_def)
qed

text \<open>
  C16. Complete mediation by SFS rules: an event passes without a question iff at every priority
  that the context of the process does not exempt, the first rule that applies and does not just
  continue allows it (or there is no such rule). In particular a user rule never overrides
  a denial by the administrator.
\<close>

theorem sfs_allowed_iff:
  assumes "coherent (disk en) (cache s)" and "f_path fev = Some p" and "event_path_ok (Some p)"
    and "\<forall>i<PE_PRIO_MAX. chain_normal (sfs_chain s (f_uid fev) i)"
    and "pe_decide_sfs en proc fev (Some t) s = Some ((rep, n), s')"
  shows "r_reply rep = None \<and> \<not> r_ask rep \<longleftrightarrow>
    (\<forall>i<PE_PRIO_MAX. sfs_skipped s proc i \<or>
       (case sfs_first en fev p t (sfs_chain s (f_uid fev) i) of
          None \<Rightarrow> True | Some (act, _) \<Rightarrow> act = APN_ACTION_ALLOW))"
  using assms by (rule sfs_passes_iff)

theorem sfs_allowed_iff_witness:
  "\<exists>rep n s'. pe_decide_sfs demo_env None (demo_file_event (Some ''/etc/passwd'')) (Some 1)
     (demo_sfs_state (Some ''/etc'')) = Some ((rep, n), s') \<and> \<not> (r_reply rep = None \<and> \<not> r_ask rep)"
proof -
  let ?fev = "demo_file_event (Some ''/etc/passwd'')" and ?s = "demo_sfs_state (Some ''/etc'')"
  have h: "coherent (disk demo_env) (cache ?s)" "f_path ?fev = Some ''/etc/passwd''"
    "event_path_ok (Some ''/etc/passwd'')" "\<forall>i<PE_PRIO_MAX. chain_normal (sfs_chain ?s (f_uid ?fev) i)"
    by (simp_all add: coherent_init event_path_ok_def demo_chain_normal)
  obtain rep n s' where r: "pe_decide_sfs demo_env None ?fev (Some 1) ?s = Some ((rep, n), s')"
    by (rule decide_sfs_ref [OF h, of 1 None]) blast
  have "\<not> (\<forall>i<PE_PRIO_MAX. sfs_skipped ?s None i \<or>
       (case sfs_first demo_env ?fev ''/etc/passwd'' 1 (sfs_chain ?s (f_uid ?fev) i) of
          None \<Rightarrow> True | Some (act, _) \<Rightarrow> act = APN_ACTION_ALLOW))"
    by (rule notI, drule spec [of _ 0]) (simp add: PE_PRIO_MAX_def demo_effect del: sfs_first_simps)
  with sfs_allowed_iff [OF h r] r show ?thesis by blast
qed

text \<open>
  An event without a path crashes the policy engine if the administrator's first SFS rule
  is for any path and checks a checksum: the NULL path is handed to the checksum cache.
\<close>

theorem sfs_null_path_crash:
  assumes "pe_user_get_ruleset (f_uid fev) 0 (pdb s) = Some rs" and "sfs_queue rs = b # bs"
    and "chain b = r # rules" and "list_all path_rule (chain b)"
    and "body r = APN_SFS_ACCESS a" and "sfs_path a = None" and "sfs_subject a = APN_CS_UID u"
    and "scope r = None" and "f_path fev = None" and "\<not> sfs_skipped s proc 0"
  shows "pe_decide_sfs en proc fev (Some t) s = None"
proof -
  obtain Q where "block_getrules b None = Inr (filter Q (chain b))" and "\<And>r. rule_pref r = None \<Longrightarrow> Q r"
    using block_getrules_filter [OF assms(4), of None] by (auto simp: event_path_ok_def)
  then have "pe_sfs_getrules s (f_uid fev) 0 (f_path fev) = Inr (r # filter Q rules)"
    using assms by (simp add: pe_sfs_getrules_def)
  moreover have "pe_sfs_match_one en r fev t c = None" for c
    using assms(5-9) by (simp add: pe_sfs_match_one_def pe_in_scope_def prefix_applies_def subject_csum_def
        lookup_csum_def)
  ultimately have "sfs_prio_loop en proc fev t (0 # is) acc s = None" for "is" acc
    using assms(10) by (auto simp: sfs_skipped_def)
  moreover have "[0..<PE_PRIO_MAX] = [0, 1]" by (simp add: PE_PRIO_MAX_def upt_rec)
  ultimately show ?thesis by (simp add: pe_decide_sfs_def del: sfs_prio_loop.simps)
qed

theorem sfs_null_path_crash_witness:
  "pe_decide_sfs demo_env None (demo_file_event None) (Some 1) (demo_sfs_state None) = None"
  by (rule sfs_null_path_crash [where rs = "demo_sfs_rs None" and r = "demo_sfs_rule None" and rules = "[]" and
        b = "\<lparr>blk_addr = 2, blk_id = 3, app = [], flags = 0, chain = [demo_sfs_rule None]\<rparr>" and bs = "[]" and
        a = "case body (demo_sfs_rule None) of APN_SFS_ACCESS a \<Rightarrow> a" and u = 0])
    (simp_all add: demo_sfs_state_def pe_init_def demo_sfs_rs_def demo_sfs_rule_def path_rule_def
      pe_user_get_ruleset_def pe_user_get_def PE_PRIO_MAX_def PE_PRIO_ADMIN_def sfs_skipped_def
      pe_proc_is_secure_def pe_proc_get_flag_def)

end
