(* ===== verification/Sandbox.thy ===== *)
theory Sandbox
  imports Sfs
begin

text \<open>
  Model of the sandbox decision of the policy engine, \<^verbatim>\<open>src/src/anoubisd/pe_sandbox.c\<close>. Read, write
  and execute access are evaluated separately against the sandbox block of the context of the
  process, for each priority, and merged. As in the SFS theory the evaluation of candidates with
  cached checksums is related to a search of the whole block.
\<close>

record result =
  res_log :: apn_log_level
  res_rule_id :: nat
  res_prio :: nat
  res_decision :: "apn_action_type option"

text \<open>The loop over the candidate rules; \<open>mtch\<close> is the first default rule so far.\<close>

fun sb_loop ::
    "pe_env \<Rightarrow> apn_rule list \<Rightarrow> pe_file_event \<Rightarrow> u32 \<Rightarrow> int \<Rightarrow> apn_rule option \<Rightarrow> sfshash \<Rightarrow>
     (apn_rule option \<times> sfshash) option" where
  "sb_loop en [] fev atype now mtch c = Some (mtch, c)"
| "sb_loop en (r # rs) fev atype now mtch c =
     (case body r of
        APN_DEFAULT d \<Rightarrow> sb_loop en rs fev atype now (if mtch = None then Some r else mtch) c
      | APN_SB_ACCESS a \<Rightarrow>
          (if \<not> pe_in_scope (scope r) (f_cookie fev) now then sb_loop en rs fev atype now mtch c
           else if \<not> has_flag (sb_amask a) atype then sb_loop en rs fev atype now mtch c
           else if \<not> prefix_applies (sb_path a) (f_path fev) then sb_loop en rs fev atype now mtch c
           else if sb_cs a = APN_CS_NONE then Some (Some r, c)
           else if length (f_csum fev) \<noteq> ANOUBIS_CS_LEN \<and> \<not> has_flag (f_upgrade_flags fev) PE_UPGRADE_TOUCHED
           then sb_loop en rs fev atype now mtch c
           else case subject_csum en (sb_cs a) (f_path fev) (f_uid fev) c of
             None \<Rightarrow> None
           | Some (cs, c') \<Rightarrow>
               (if cs = [] then sb_loop en rs fev atype now mtch c'
                else if has_flag (f_upgrade_flags fev) PE_UPGRADE_TOUCHED
                then (if has_flag (f_upgrade_flags fev) PE_UPGRADE_WRITEOK \<or> length (f_csum fev) = ANOUBIS_CS_LEN
                      then Some (Some r, c') else sb_loop en rs fev atype now mtch c')
                else if cs \<noteq> f_csum fev then sb_loop en rs fev atype now mtch c'
                else Some (Some r, c')))
      | _ \<Rightarrow> sb_loop en rs fev atype now mtch c)"

definition sb_error :: result where
  "sb_error = \<lparr>res_log = APN_LOG_NONE, res_rule_id = 0, res_prio = 0, res_decision = Some APN_ACTION_DENY\<rparr>"

definition raise_log :: "apn_log_level \<Rightarrow> apn_log_level \<Rightarrow> apn_log_level" where
  "raise_log new old = (if new > old then new else old)"

definition pe_sb_evaluate ::
    "pe_env \<Rightarrow> apn_rule list \<Rightarrow> pe_file_event \<Rightarrow> result \<Rightarrow> u32 \<Rightarrow> nat \<Rightarrow> int option \<Rightarrow> sfshash \<Rightarrow>
     (result \<times> sfshash) option" where
  "pe_sb_evaluate en rules fev res atype prio now c =
     (if \<not> has_flag (f_amask fev) atype then Some (res\<lparr>res_decision := Some APN_ACTION_ALLOW\<rparr>, c)
      else case now of
        None \<Rightarrow> Some (sb_error, c)
      | Some t \<Rightarrow>
          (case sb_loop en rules fev atype t None c of
             None \<Rightarrow> None
           | Some (None, c') \<Rightarrow> Some (res, c')
           | Some (Some m, c') \<Rightarrow>
               Some (case body m of
                   APN_DEFAULT d \<Rightarrow> \<lparr>res_log = raise_log (d_log d) (res_log res), res_rule_id = apn_id m,
                       res_prio = prio, res_decision = Some (d_action d)\<rparr>
                 | APN_SB_ACCESS a \<Rightarrow> \<lparr>res_log = raise_log (sb_log a) (res_log res), res_rule_id = apn_id m,
                       res_prio = prio, res_decision = Some (sb_action a)\<rparr>
                 | _ \<Rightarrow> sb_error, c')))"

text \<open>The default block of a rule queue: the first one for any application that may be used.\<close>

definition default_block :: "bool \<Rightarrow> apn_block list \<Rightarrow> apn_block option" where
  "default_block ispg q = find (\<lambda>b. \<not> (\<not> ispg \<and> has_flag (flags b) APN_RULE_PGONLY) \<and> app b = []) q"

definition sb_block :: "pe \<Rightarrow> nat option \<Rightarrow> uid \<Rightarrow> nat \<Rightarrow> apn_block option" where
  "sb_block s proc u prio =
     (if proc \<noteq> None \<and> p_uid (proc_of s (the proc)) = u
      then (case pe_proc_get_context s proc prio of None \<Rightarrow> None | Some a \<Rightarrow> sbrule (ctx_of s a))
      else (case pe_user_get_ruleset u prio (pdb s) of
              None \<Rightarrow> None
            | Some rs \<Rightarrow> default_block (pe_proc_get_playgroundid s proc \<noteq> 0) (sb_queue rs)))"

definition pe_sb_getrules :: "pe \<Rightarrow> nat option \<Rightarrow> uid \<Rightarrow> nat \<Rightarrow> string option \<Rightarrow> errno + apn_rule list" where
  "pe_sb_getrules s proc u prio path =
     (case sb_block s proc u prio of None \<Rightarrow> Inr [] | Some b \<Rightarrow> block_getrules b path)"

text \<open>The three evaluations of one priority, in the order read, write, execute.\<close>

fun sb_eval_all ::
    "pe_env \<Rightarrow> apn_rule list \<Rightarrow> pe_file_event \<Rightarrow> nat \<Rightarrow> int option \<Rightarrow> (result \<times> u32) list \<Rightarrow> sfshash \<Rightarrow>
     (result list \<times> sfshash) option" where
  "sb_eval_all en rules fev prio now [] c = Some ([], c)"
| "sb_eval_all en rules fev prio now ((res, atype) # xs) c =
     (case pe_sb_evaluate en rules fev res atype prio now c of
        None \<Rightarrow> None
      | Some (r, c') \<Rightarrow>
          (case sb_eval_all en rules fev prio now xs c' of
             None \<Rightarrow> None
           | Some (rs, c'') \<Rightarrow> Some (r # rs, c'')))"

fun sb_merge :: "result list \<Rightarrow> apn_action_type option \<Rightarrow> apn_action_type option" where
  "sb_merge [] fin = fin"
| "sb_merge (r # rs) fin =
     (if res_decision r = Some APN_ACTION_DENY then Some APN_ACTION_DENY
      else if res_decision r = Some APN_ACTION_ASK then sb_merge rs (Some APN_ACTION_ASK)
      else sb_merge rs (if fin = None then Some APN_ACTION_ALLOW else fin))"

definition sb_types :: "u32 list" where
  "sb_types = [APN_SBA_READ, APN_SBA_WRITE, APN_SBA_EXEC]"

fun sb_prio_loop ::
    "pe_env \<Rightarrow> nat option \<Rightarrow> pe_file_event \<Rightarrow> int option \<Rightarrow> nat list \<Rightarrow> result list \<Rightarrow> apn_action_type option \<Rightarrow> pe \<Rightarrow>
     (result list \<times> apn_action_type option \<times> pe) option" where
  "sb_prio_loop en proc fev now [] res fin s = Some (res, fin, s)"
| "sb_prio_loop en proc fev now (i # is) res fin s =
     (case pe_sb_getrules s proc (f_uid fev) i (f_path fev) of
        Inl e \<Rightarrow> Some (res, Some APN_ACTION_DENY, s)
      | Inr rules \<Rightarrow>
          (if rules = [] then sb_prio_loop en proc fev now is res fin s
           else case sb_eval_all en rules fev i now (zip res sb_types) (cache s) of
             None \<Rightarrow> None
           | Some (res', c) \<Rightarrow>
               (let fin' = sb_merge res' fin; s' = s\<lparr>cache := c\<rparr>
                in if fin' \<noteq> None \<and> fin' \<noteq> Some APN_ACTION_ALLOW then Some (res', fin', s')
                   else sb_prio_loop en proc fev now is res' fin' s')))"

text \<open>Log level, rule ID and priority to report for a verdict.\<close>

fun sb_report :: "result list \<Rightarrow> apn_action_type \<Rightarrow> apn_log_level \<times> nat \<times> nat \<Rightarrow> apn_log_level \<times> nat \<times> nat" where
  "sb_report [] dec (lg, rid, pr) = (lg, rid, pr)"
| "sb_report (r # rs) dec (lg, rid, pr) =
     (let lg' = raise_log (res_log r) lg
      in if res_decision r \<noteq> Some dec then sb_report rs dec (lg', rid, pr)
         else sb_report rs dec (lg', res_rule_id r, res_prio r))"

definition sb_initial :: "result list" where
  "sb_initial = replicate 3 \<lparr>res_log = APN_LOG_NONE, res_rule_id = 0, res_prio = 0, res_decision = None\<rparr>"

definition pe_decide_sandbox ::
    "pe_env \<Rightarrow> nat option \<Rightarrow> pe_file_event \<Rightarrow> int option \<Rightarrow> pe \<Rightarrow> ((anoubisd_reply \<times> lognotify option) \<times> pe) option" where
  "pe_decide_sandbox en proc fev now s =
     (case sb_prio_loop en proc fev now [0..<PE_PRIO_MAX] sb_initial None s of
        None \<Rightarrow> None
      | Some (res, fin, s') \<Rightarrow>
          (let (dec, lg, rid, pr) = (case fin of
                 None \<Rightarrow> (APN_ACTION_ALLOW, APN_LOG_NONE, 0, 0)
               | Some d \<Rightarrow> (d, sb_report res d (APN_LOG_NONE, 0, 0)))
           in Some ((make_reply s' proc dec lg rid pr ANOUBIS_SFS_NONE,
                     make_notify dec lg rid pr ANOUBIS_SFS_NONE), s')))"

subsection \<open>Reference semantics\<close>

definition sb_decides :: "pe_env \<Rightarrow> pe_file_event \<Rightarrow> string \<Rightarrow> u32 \<Rightarrow> int \<Rightarrow> apn_rule \<Rightarrow> bool" where
  "sb_decides en fev p atype now r \<longleftrightarrow>
     (case body r of
        APN_SB_ACCESS a \<Rightarrow>
          pe_in_scope (scope r) (f_cookie fev) now \<and> has_flag (sb_amask a) atype \<and>
          prefix_applies (sb_path a) (Some p) \<and>
          (sb_cs a = APN_CS_NONE \<or>
           (let cs = stored_csum en (sb_cs a) p (f_uid fev) in cs \<noteq> [] \<and> csum_valid fev cs))
      | _ \<Rightarrow> False)"

definition sb_is_default :: "apn_rule \<Rightarrow> bool" where
  "sb_is_default r \<longleftrightarrow> (case body r of APN_DEFAULT d \<Rightarrow> True | _ \<Rightarrow> False)"

text \<open>The first access rule that applies decides, otherwise the first default rule.\<close>

definition sb_match :: "pe_env \<Rightarrow> pe_file_event \<Rightarrow> string \<Rightarrow> u32 \<Rightarrow> int \<Rightarrow> apn_rule list \<Rightarrow> apn_rule option" where
  "sb_match en fev p atype now rules =
     (case find (sb_decides en fev p atype now) rules of
        Some r \<Rightarrow> Some r
      | None \<Rightarrow> find sb_is_default rules)"

definition sb_act :: "apn_rule \<Rightarrow> apn_action_type" where
  "sb_act r = (case body r of APN_DEFAULT d \<Rightarrow> d_action d | APN_SB_ACCESS a \<Rightarrow> sb_action a | _ \<Rightarrow> APN_ACTION_DENY)"

lemma sb_step:
  assumes a: "body r = APN_SB_ACCESS a" and p: "f_path fev = Some p"
    and c1: "subject_csum en (sb_cs a) (Some p) (f_uid fev) c = Some (stored_csum en (sb_cs a) p (f_uid fev), c1)"
  shows "\<exists>c2. sb_loop en (r # rs) fev atype now mtch c =
      (if sb_decides en fev p atype now r then Some (Some r, c2) else sb_loop en rs fev atype now mtch c2) \<and>
      (c2 = c \<or> c2 = c1)"
proof -
  let ?used = "pe_in_scope (scope r) (f_cookie fev) now \<and> has_flag (sb_amask a) atype \<and>
    prefix_applies (sb_path a) (Some p)"
  let ?looked = "length (f_csum fev) = ANOUBIS_CS_LEN \<or> has_flag (f_upgrade_flags fev) PE_UPGRADE_TOUCHED"
  consider "\<not> ?used" | "?used" "sb_cs a = APN_CS_NONE" | "?used" "sb_cs a \<noteq> APN_CS_NONE" "\<not> ?looked"
    | "?used" "sb_cs a \<noteq> APN_CS_NONE" "?looked" by blast
  then show ?thesis
  proof cases
    case 1
    with a p show ?thesis by (intro exI [of _ c]) (auto simp: sb_decides_def)
  next
    case 2
    with a p show ?thesis by (intro exI [of _ c]) (simp add: sb_decides_def)
  next
    case 3
    with a p show ?thesis by (intro exI [of _ c]) (simp add: sb_decides_def csum_valid_def)
  next
    case 4
    with a p c1 show ?thesis
      by (intro exI [of _ c1]) (cases "has_flag (f_upgrade_flags fev) PE_UPGRADE_TOUCHED";
          simp add: sb_decides_def csum_valid_def Let_def)
  qed
qed

lemma sb_loop_ref:
  assumes p: "f_path fev = Some p"
  shows "coherent (disk en) c \<Longrightarrow> \<exists>c'. sb_loop en rules fev atype now mtch c =
     Some (case find (sb_decides en fev p atype now) rules of
             Some r \<Rightarrow> Some r
           | None \<Rightarrow> (if mtch = None then find sb_is_default rules else mtch), c') \<and> coherent (disk en) c'"
proof (induction rules arbitrary: mtch c)
  case (Cons r rs)
  show ?case
  proof (cases "\<exists>a. body r = APN_SB_ACCESS a")
    case True
    then obtain a where a: "body r = APN_SB_ACCESS a" by blast
    then have nd: "\<not> sb_is_default r" by (simp add: sb_is_default_def)
    obtain c1 where c1: "subject_csum en (sb_cs a) (Some p) (f_uid fev) c =
        Some (stored_csum en (sb_cs a) p (f_uid fev), c1)" "coherent (disk en) c1"
      using subject_csum_ref [OF Cons.prems] by blast
    from sb_step [OF a p c1(1), of rs atype now mtch] obtain c2 where
      st: "sb_loop en (r # rs) fev atype now mtch c =
        (if sb_decides en fev p atype now r then Some (Some r, c2) else sb_loop en rs fev atype now mtch c2)"
      and "c2 = c \<or> c2 = c1" by blast
    then have "coherent (disk en) c2" using c1 Cons.prems by blast
    then show ?thesis using st nd Cons.IH [of c2 mtch]
      by (cases "sb_decides en fev p atype now r") (simp_all only: find.simps if_True if_False option.simps, blast+)
  next
    case na: False
    then have "\<not> sb_decides en fev p atype now r" by (auto simp: sb_decides_def split: apn_body.split)
    moreover have "sb_loop en (r # rs) fev atype now mtch c =
        sb_loop en rs fev atype now (if mtch = None \<and> sb_is_default r then Some r else mtch) c"
      using na by (cases "body r") (auto simp: sb_is_default_def)
    ultimately show ?thesis
      using Cons.IH [OF Cons.prems, of "if mtch = None \<and> sb_is_default r then Some r else mtch"]
      by (auto split: option.splits)
  qed
qed simp

text \<open>The candidates of the index give the same match as the whole block.\<close>

lemma sb_match_filter:
  assumes "\<forall>r\<in>set rules. prefix_applies (rule_pref r) (Some p) \<longrightarrow> Q r"
  shows "sb_match en fev p atype now (filter Q rules) = sb_match en fev p atype now rules"
proof -
  have "find (sb_decides en fev p atype now) (filter Q rules) = find (sb_decides en fev p atype now) rules"
    using assms by (intro find_filter_mono) (auto simp: sb_decides_def split: apn_body.splits)
  moreover have "find sb_is_default (filter Q rules) = find sb_is_default rules"
    using assms
    by (intro find_filter_mono) (auto simp: sb_is_default_def prefix_applies_def split: apn_body.splits)
  ultimately show ?thesis by (simp add: sb_match_def split: option.split)
qed

text \<open>What the rules of one priority decide for an access type.\<close>

definition sb_decision ::
    "pe_env \<Rightarrow> pe_file_event \<Rightarrow> string \<Rightarrow> int \<Rightarrow> apn_rule list \<Rightarrow> u32 \<Rightarrow> apn_action_type option" where
  "sb_decision en fev p now rules atype =
     (if has_flag (f_amask fev) atype then map_option sb_act (sb_match en fev p atype now rules) else None)"

lemma sb_match_body:
  "sb_match en fev p atype now rules = Some r \<Longrightarrow>
     (\<exists>a. body r = APN_SB_ACCESS a) \<or> (\<exists>d. body r = APN_DEFAULT d)"
proof -
  assume "sb_match en fev p atype now rules = Some r"
  then have "sb_decides en fev p atype now r \<or> sb_is_default r"
    by (auto simp: sb_match_def find_Some_iff split: option.splits)
  then show ?thesis by (cases "body r") (simp_all add: sb_decides_def sb_is_default_def)
qed

lemma evaluate_ref:
  assumes "coherent (disk en) c" and "f_path fev = Some p"
  shows "\<exists>res' c'. pe_sb_evaluate en rules fev res atype i (Some t) c = Some (res', c') \<and> coherent (disk en) c' \<and>
    res_decision res' = (case sb_decision en fev p t rules atype of
        Some act \<Rightarrow> Some act
      | None \<Rightarrow> (if has_flag (f_amask fev) atype then res_decision res else Some APN_ACTION_ALLOW))"
proof (cases "has_flag (f_amask fev) atype")
  case True
  obtain c' where l: "sb_loop en rules fev atype t None c = Some (sb_match en fev p atype t rules, c')"
    and c': "coherent (disk en) c'"
    using sb_loop_ref [OF assms(2,1), of rules atype t None] unfolding sb_match_def by auto
  show ?thesis
  proof (cases "sb_match en fev p atype t rules")
    case None
    with True l c' show ?thesis by (simp add: pe_sb_evaluate_def sb_decision_def)
  next
    case (Some r)
    with True l c' sb_match_body [OF Some] show ?thesis
      by (auto simp: pe_sb_evaluate_def sb_decision_def sb_act_def)
  qed
qed (use assms in \<open>simp add: pe_sb_evaluate_def sb_decision_def\<close>)

text \<open>Results that do not stop the evaluation: no decision yet, or none against the event.\<close>

abbreviation passing :: "apn_action_type option \<Rightarrow> bool" where
  "passing d \<equiv> d \<noteq> Some APN_ACTION_DENY \<and> d \<noteq> Some APN_ACTION_ASK"

lemma eval_all_ref:
  assumes "f_path fev = Some p"
  shows "coherent (disk en) c \<Longrightarrow> list_all (\<lambda>(r, _). passing (res_decision r)) xs \<Longrightarrow>
    \<exists>rs c'. sb_eval_all en rules fev i (Some t) xs c = Some (rs, c') \<and> coherent (disk en) c' \<and>
      length rs = length xs \<and>
      (\<forall>act\<in>{APN_ACTION_DENY, APN_ACTION_ASK}.
         Some act \<in> res_decision ` set rs \<longleftrightarrow> Some act \<in> sb_decision en fev p t rules ` snd ` set xs)"
proof (induction xs arbitrary: c)
  case (Cons x xs)
  obtain res a where x: "x = (res, a)" by (cases x)
  obtain r1 c1 where e: "pe_sb_evaluate en rules fev res a i (Some t) c = Some (r1, c1)" "coherent (disk en) c1"
    and d: "res_decision r1 = (case sb_decision en fev p t rules a of Some act \<Rightarrow> Some act
        | None \<Rightarrow> (if has_flag (f_amask fev) a then res_decision res else Some APN_ACTION_ALLOW))"
    using evaluate_ref [OF Cons.prems(1) assms] by blast
  obtain rs c2 where r: "sb_eval_all en rules fev i (Some t) xs c1 = Some (rs, c2)" "coherent (disk en) c2"
      "length rs = length xs"
    and ih: "\<forall>act\<in>{APN_ACTION_DENY, APN_ACTION_ASK}. Some act \<in> res_decision ` set rs \<longleftrightarrow>
         Some act \<in> sb_decision en fev p t rules ` snd ` set xs"
    using Cons.IH [OF e(2)] Cons.prems(2) by auto
  have "\<forall>act\<in>{APN_ACTION_DENY, APN_ACTION_ASK}. Some act = res_decision r1 \<longleftrightarrow>
      Some act = sb_decision en fev p t rules a"
    using d Cons.prems(2) x by (auto split: option.splits if_splits)
  with x e r ih show ?case by (simp del: image_eqI add: ball_simps)
qed simp

lemma sb_merge_result:
  "fin \<in> {None, Some APN_ACTION_ALLOW, Some APN_ACTION_ASK} \<Longrightarrow>
   sb_merge rs fin =
     (if Some APN_ACTION_DENY \<in> res_decision ` set rs then Some APN_ACTION_DENY
      else if fin = Some APN_ACTION_ASK \<or> Some APN_ACTION_ASK \<in> res_decision ` set rs then Some APN_ACTION_ASK
      else if rs = [] then fin else Some APN_ACTION_ALLOW)"
proof (induction rs arbitrary: fin)
  case (Cons r rs)
  show ?case
  proof (cases "res_decision r = Some APN_ACTION_DENY \<or> res_decision r = Some APN_ACTION_ASK")
    case True
    then show ?thesis using Cons.IH [of "Some APN_ACTION_ASK"] by auto
  next
    case False
    then show ?thesis
      using Cons.IH [of "if fin = None then Some APN_ACTION_ALLOW else fin"] Cons.prems by auto
  qed
qed simp

text \<open>The sandbox rules that apply to a process at one priority.\<close>

definition sb_chain :: "pe \<Rightarrow> nat option \<Rightarrow> uid \<Rightarrow> nat \<Rightarrow> apn_rule list" where
  "sb_chain s proc u i = (case sb_block s proc u i of None \<Rightarrow> [] | Some b \<Rightarrow> chain b)"

lemma sb_getrules_filter:
  assumes "chain_normal (sb_chain s proc u i)" and "event_path_ok path"
  shows "\<exists>Q. pe_sb_getrules s proc u i path = Inr (filter Q (sb_chain s proc u i)) \<and>
    (\<forall>r\<in>set (sb_chain s proc u i). prefix_applies (rule_pref r) path \<longrightarrow> Q r)"
  using assms blk.candidates [of _ path]
  by (cases "sb_block s proc u i") (auto simp: pe_sb_getrules_def sb_chain_def)

lemma sb_cache_frame [simp]: "sb_chain (s\<lparr>cache := c\<rparr>) = sb_chain s"
  by (simp add: fun_eq_iff sb_chain_def sb_block_def pe_proc_get_playgroundid_def split: option.split)

text \<open>
  The verdict of the rules of several priorities: the first one at which some requested access
  is denied or asked about decides, and a denial takes precedence at that priority.
\<close>

fun sb_outcome :: "pe_env \<Rightarrow> pe_file_event \<Rightarrow> string \<Rightarrow> int \<Rightarrow> apn_rule list list \<Rightarrow> apn_action_type" where
  "sb_outcome en fev p now [] = APN_ACTION_ALLOW"
| "sb_outcome en fev p now (rules # rest) =
     (let ds = sb_decision en fev p now rules ` set sb_types
      in if Some APN_ACTION_DENY \<in> ds then APN_ACTION_DENY
         else if Some APN_ACTION_ASK \<in> ds then APN_ACTION_ASK
         else sb_outcome en fev p now rest)"

lemma sb_no_rules: "sb_decision en fev p now [] a = None"
  by (simp add: sb_decision_def sb_match_def)

lemma snd_zip_types: "length res = length sb_types \<Longrightarrow> snd ` set (zip res sb_types) = set sb_types"
  by (metis list.set_map map_snd_zip)

lemma sb_prio_ref:
  assumes p: "f_path fev = Some p" "event_path_ok (Some p)"
  shows "coherent (disk en) (cache s) \<Longrightarrow> list_all (\<lambda>r. passing (res_decision r)) res \<Longrightarrow>
    length res = length sb_types \<Longrightarrow> fin \<in> {None, Some APN_ACTION_ALLOW} \<Longrightarrow>
    \<forall>i\<in>set is. chain_normal (sb_chain s proc (f_uid fev) i) \<Longrightarrow>
    \<exists>res' fin' c. sb_prio_loop en proc fev (Some t) is res fin s = Some (res', fin', s\<lparr>cache := c\<rparr>) \<and>
      coherent (disk en) c \<and>
      (case fin' of None \<Rightarrow> APN_ACTION_ALLOW | Some d \<Rightarrow> d) =
        sb_outcome en fev p t (map (sb_chain s proc (f_uid fev)) is)"
proof (induction "is" arbitrary: res fin s)
  case Nil
  then show ?case by (auto intro: exI [of _ "cache s"])
next
  case (Cons i "is")
  let ?R = "sb_chain s proc (f_uid fev) i"
  obtain Q where g: "pe_sb_getrules s proc (f_uid fev) i (f_path fev) = Inr (filter Q ?R)"
    and Q: "\<forall>r\<in>set ?R. prefix_applies (rule_pref r) (Some p) \<longrightarrow> Q r"
    using sb_getrules_filter [of s proc "f_uid fev" i "Some p"] Cons.prems(5) p by auto
  have dec: "sb_decision en fev p t (filter Q ?R) = sb_decision en fev p t ?R"
    by (simp add: fun_eq_iff sb_decision_def sb_match_filter [OF Q])
  show ?case
  proof (cases "filter Q ?R = []")
    case True
    have "sb_decision en fev p t ?R = (\<lambda>a. None)" unfolding dec [symmetric] True by (simp add: fun_eq_iff sb_no_rules)
    then have o: "sb_outcome en fev p t (map (sb_chain s proc (f_uid fev)) (i # is)) =
        sb_outcome en fev p t (map (sb_chain s proc (f_uid fev)) is)" by (auto simp: Let_def)
    have "sb_prio_loop en proc fev (Some t) (i # is) res fin s = sb_prio_loop en proc fev (Some t) is res fin s"
      using g [unfolded True] by simp
    with o Cons.IH [OF Cons.prems(1-4)] Cons.prems(5) show ?thesis by simp
  next
    case False
    have "list_all (\<lambda>(r, _). passing (res_decision r)) (zip res sb_types)"
      using Cons.prems(2) by (auto simp: list_all_iff dest: set_zip_leftD)
    have lz: "length (zip res sb_types) = length sb_types" using Cons.prems(3) by simp
    note ps = \<open>list_all (\<lambda>(r, _). passing (res_decision r)) (zip res sb_types)\<close>
    from eval_all_ref [OF p(1) Cons.prems(1) ps, of "filter Q ?R" i t] obtain rs c where
      e: "sb_eval_all en (filter Q ?R) fev i (Some t) (zip res sb_types) (cache s) = Some (rs, c)"
      and c: "coherent (disk en) c" and len: "length rs = length sb_types"
      and d: "\<forall>act\<in>{APN_ACTION_DENY, APN_ACTION_ASK}. Some act \<in> res_decision ` set rs \<longleftrightarrow>
         Some act \<in> sb_decision en fev p t ?R ` set sb_types"
      unfolding dec snd_zip_types [OF Cons.prems(3)] lz by blast
    let ?fin = "sb_merge rs fin"
    have ne: "rs \<noteq> []" using len by (auto simp: sb_types_def)
    have m: "?fin = (if Some APN_ACTION_DENY \<in> sb_decision en fev p t ?R ` set sb_types then Some APN_ACTION_DENY
      else if Some APN_ACTION_ASK \<in> sb_decision en fev p t ?R ` set sb_types then Some APN_ACTION_ASK
      else Some APN_ACTION_ALLOW)"
    proof -
      have f: "fin \<in> {None, Some APN_ACTION_ALLOW, Some APN_ACTION_ASK}" "fin \<noteq> Some APN_ACTION_ASK"
        using Cons.prems(4) by auto
      from d ne f(2) show ?thesis unfolding sb_merge_result [OF f(1)] by simp
    qed
    have l: "sb_prio_loop en proc fev (Some t) (i # is) res fin s =
        (if ?fin \<noteq> Some APN_ACTION_ALLOW then Some (rs, ?fin, s\<lparr>cache := c\<rparr>)
         else sb_prio_loop en proc fev (Some t) is rs ?fin (s\<lparr>cache := c\<rparr>))"
      using g False e m by (simp add: Let_def)
    show ?thesis
    proof (cases "?fin = Some APN_ACTION_ALLOW")
      case True
      have "list_all (\<lambda>r. passing (res_decision r)) rs"
        using True m d unfolding list_all_iff by (metis image_eqI insertI1 insertI2 option.inject apn_action_type.distinct)
      from Cons.IH [of "s\<lparr>cache := c\<rparr>" rs ?fin] this c len True Cons.prems(5) l m
      show ?thesis by (auto split: if_splits)
    next
      case False
      with l m c show ?thesis by (auto split: if_splits)
    qed
  qed
qed

lemma decide_sandbox_ref:
  assumes "coherent (disk en) (cache s)" and "f_path fev = Some p" and "event_path_ok (Some p)"
    and "\<forall>i<PE_PRIO_MAX. chain_normal (sb_chain s proc (f_uid fev) i)"
  shows "\<exists>rep n c. pe_decide_sandbox en proc fev (Some t) s = Some ((rep, n), s\<lparr>cache := c\<rparr>) \<and>
    coherent (disk en) c \<and>
    r_reply rep = (if sb_outcome en fev p t (map (sb_chain s proc (f_uid fev)) [0..<PE_PRIO_MAX]) = APN_ACTION_DENY
                   then Some EPERM else None) \<and>
    r_ask rep = (sb_outcome en fev p t (map (sb_chain s proc (f_uid fev)) [0..<PE_PRIO_MAX]) = APN_ACTION_ASK) \<and>
    \<not> r_secureexec rep \<and> \<not> r_playground rep \<and> \<not> r_lockwatch rep"
proof -
  have i: "list_all (\<lambda>r. passing (res_decision r)) sb_initial" "length sb_initial = length sb_types"
    by (simp_all add: sb_initial_def sb_types_def list_all_iff)
  obtain res' fin' c where
    "sb_prio_loop en proc fev (Some t) [0..<PE_PRIO_MAX] sb_initial None s = Some (res', fin', s\<lparr>cache := c\<rparr>)"
    "coherent (disk en) c"
    "(case fin' of None \<Rightarrow> APN_ACTION_ALLOW | Some d \<Rightarrow> d) =
        sb_outcome en fev p t (map (sb_chain s proc (f_uid fev)) [0..<PE_PRIO_MAX])"
    using sb_prio_ref [OF assms(2,3,1) i, of None "[0..<PE_PRIO_MAX]" proc t] assms(4) by auto
  then show ?thesis
    by (cases fin') (auto simp: pe_decide_sandbox_def make_reply_def Let_def split: prod.splits)
qed

subsection \<open>Properties\<close>

text \<open>
  C13. The sandbox decision for an event with a path is complete and exact: the event is denied
  or escalated to the user iff, at the first priority at which the first matching rule for some
  requested access type (or, failing that, the default rule) does not allow it, that type is
  denied, or asked about while no requested type is denied. It never fails.
\<close>

theorem decide_sandbox_reference:
  assumes "coherent (disk en) (cache s)" and "f_path fev = Some p" and "event_path_ok (Some p)"
    and "\<forall>i<PE_PRIO_MAX. chain_normal (sb_chain s proc (f_uid fev) i)"
    and "out = sb_outcome en fev p t (map (sb_chain s proc (f_uid fev)) [0..<PE_PRIO_MAX])"
  shows "\<exists>rep n c. pe_decide_sandbox en proc fev (Some t) s = Some ((rep, n), s\<lparr>cache := c\<rparr>) \<and>
    coherent (disk en) c \<and>
    r_reply rep = (if out = APN_ACTION_DENY then Some EPERM else None) \<and> r_ask rep = (out = APN_ACTION_ASK)"
  using decide_sandbox_ref [OF assms(1-4), of t] assms(5) by blast

definition demo_sb_rule :: apn_rule where
  "demo_sb_rule = \<lparr>apn_id = 8, scope = None, body = APN_SB_ACCESS
     \<lparr>sb_path = Some ''/etc'', sb_cs = APN_CS_NONE, sb_amask = APN_SBA_READ, sb_log = APN_LOG_NONE,
      sb_action = APN_ACTION_DENY\<rparr>\<rparr>"

definition demo_sb_state :: pe where
  "demo_sb_state = (demo_sfs_state None)\<lparr>pdb := [\<lparr>u_uid = 5, u_prio = (\<lambda>_. None)(PE_PRIO_USER1 := Some
     \<lparr>rs_addr = 1, alf_queue = [], sfs_queue = [], sb_queue =
       [\<lparr>blk_addr = 2, blk_id = 3, app = [], flags = 0, chain = [demo_sb_rule]\<rparr>], ctx_queue = []\<rparr>)\<rparr>]\<rparr>"

theorem decide_sandbox_reference_witness:
  "\<exists>rep n s'. pe_decide_sandbox demo_env None (demo_file_event (Some ''/etc/passwd'')) (Some 1) demo_sb_state =
     Some ((rep, n), s') \<and> r_reply rep = Some EPERM"
proof -
  let ?fev = "demo_file_event (Some ''/etc/passwd'')"
  have ch: "sb_chain demo_sb_state None 5 0 = []" "sb_chain demo_sb_state None 5 1 = [demo_sb_rule]"
    by (simp_all add: sb_chain_def sb_block_def demo_sb_state_def pe_user_get_ruleset_def pe_user_get_def
        PE_PRIO_MAX_def PE_PRIO_USER1_def default_block_def has_flag_def)
  have "sb_decides demo_env ?fev ''/etc/passwd'' APN_SBA_READ 1 demo_sb_rule"
    by (simp add: sb_decides_def demo_sb_rule_def pe_in_scope_def has_flag_def APN_SBA_READ_def prefix_applies_def
        prefix_match_iff trim_slashes_def)
  then have "sb_decision demo_env ?fev ''/etc/passwd'' 1 [demo_sb_rule] APN_SBA_READ = Some APN_ACTION_DENY"
    by (simp add: sb_decision_def sb_match_def demo_file_event_def has_flag_def APN_SBA_READ_def sb_act_def
        demo_sb_rule_def)
  then have out: "sb_outcome demo_env ?fev ''/etc/passwd'' 1
      (map (sb_chain demo_sb_state None (f_uid ?fev)) [0..<PE_PRIO_MAX]) = APN_ACTION_DENY"
    by (simp add: ch [simplified] sb_types_def sb_no_rules PE_PRIO_MAX_def numeral_2_eq_2)
  have n: "\<forall>i<PE_PRIO_MAX. chain_normal (sb_chain demo_sb_state None (f_uid ?fev) i)"
    by (auto simp: PE_PRIO_MAX_def less_2_cases_iff ch [simplified] chain_normal_def path_rule_def demo_sb_rule_def rule_pref_def
        prefix_normal_def)
  have c: "coherent (disk demo_env) (cache demo_sb_state)" by (simp add: demo_sb_state_def coherent_init)
  from decide_sandbox_reference [OF c _ _ n refl, of "''/etc/passwd''" 1] out show ?thesis
    by (auto simp: event_path_ok_def)
qed

end
