(* ===== verification/AlfDecide.thy ===== *)
theory AlfDecide
  imports Sandbox
begin

text \<open>
  The decision about network events over both priorities: \<^verbatim>\<open>pe_alf_evaluate\<close> and
  \<^verbatim>\<open>pe_decide_alf\<close> of \<^verbatim>\<open>src/src/anoubisd/pe_alf.c\<close>.
\<close>

text \<open>The block for a process: the one of its context, or the default block of another user.\<close>

definition alf_block :: "pe \<Rightarrow> nat option \<Rightarrow> uid \<Rightarrow> bool \<Rightarrow> nat \<Rightarrow> apn_block option" where
  "alf_block s proc u ispg prio =
     (if proc \<noteq> None \<and> p_uid (proc_of s (the proc)) = u
      then (case pe_proc_get_context s proc prio of None \<Rightarrow> None | Some a \<Rightarrow> alfrule (ctx_of s a))
      else (case pe_user_get_ruleset u prio (pdb s) of
              None \<Rightarrow> None
            | Some rs \<Rightarrow> default_block ispg (alf_queue rs)))"

text \<open>\<open>lg\<close> and \<open>rid\<close> are the log level and rule ID that the caller passes in.\<close>

definition pe_alf_evaluate ::
    "pe \<Rightarrow> nat option \<Rightarrow> nat \<Rightarrow> uid \<Rightarrow> alf_event \<Rightarrow> apn_log_level \<Rightarrow> nat \<Rightarrow> int \<Rightarrow> alf_result" where
  "pe_alf_evaluate s proc prio u msg lg rid now =
     (case alf_block s proc u (ev_pgid msg \<noteq> 0) prio of
        None \<Rightarrow> \<lparr>decision = None, log = lg, rule_id = rid\<rparr>
      | Some b \<Rightarrow> pe_alf_evaluate_rule b msg lg rid now)"

record alf_acc =
  l_decision :: "apn_action_type option"
  l_log :: apn_log_level
  l_rule_id :: nat
  l_prio :: nat

text \<open>\<^verbatim>\<open>prio\<close> starts as \<^verbatim>\<open>-1\<close>, which the unsigned field of the reply holds as \<^verbatim>\<open>0xffffffff\<close>.\<close>

definition alf_acc_init :: alf_acc where
  "alf_acc_init = \<lparr>l_decision = None, l_log = APN_LOG_NONE, l_rule_id = 0, l_prio = 0xffffffff\<rparr>"

fun alf_prio_loop ::
    "pe \<Rightarrow> nat option \<Rightarrow> uid \<Rightarrow> alf_event \<Rightarrow> int \<Rightarrow> nat list \<Rightarrow> alf_acc \<Rightarrow> alf_acc" where
  "alf_prio_loop s proc u msg now [] acc = acc"
| "alf_prio_loop s proc u msg now (i # is) acc =
     (let r = pe_alf_evaluate s proc i u msg APN_LOG_NONE (l_rule_id acc) now;
          acc' = (if decision r \<noteq> None
                  then \<lparr>l_decision = decision r, l_log = raise_log (log r) (l_log acc), l_rule_id = rule_id r,
                        l_prio = i\<rparr>
                  else acc\<lparr>l_rule_id := rule_id r\<rparr>)
      in if decision r = Some APN_ACTION_DENY then acc' else alf_prio_loop s proc u msg now is acc')"

definition pe_decide_alf ::
    "nat option \<Rightarrow> uid \<Rightarrow> alf_event \<Rightarrow> int \<Rightarrow> pe \<Rightarrow> anoubisd_reply \<times> lognotify option" where
  "pe_decide_alf proc u msg now s =
     (let acc = alf_prio_loop s proc u msg now [0..<PE_PRIO_MAX] alf_acc_init;
          (dec, lg) = (case l_decision acc of
              None \<Rightarrow> (APN_ACTION_DENY, APN_LOG_ALERT)
            | Some d \<Rightarrow> (d, l_log acc))
      in (make_reply s proc dec lg (l_rule_id acc) (l_prio acc) ANOUBIS_SFS_NONE,
          make_notify dec lg (l_rule_id acc) (l_prio acc) ANOUBIS_SFS_NONE))"

subsection \<open>What each priority decides\<close>

definition alf_dec :: "pe \<Rightarrow> nat option \<Rightarrow> uid \<Rightarrow> alf_event \<Rightarrow> int \<Rightarrow> nat \<Rightarrow> apn_action_type option" where
  "alf_dec s proc u msg now i = decision (pe_alf_evaluate s proc i u msg APN_LOG_NONE 0 now)"

definition alf_log :: "pe \<Rightarrow> nat option \<Rightarrow> uid \<Rightarrow> alf_event \<Rightarrow> int \<Rightarrow> nat \<Rightarrow> apn_log_level" where
  "alf_log s proc u msg now i = log (pe_alf_evaluate s proc i u msg APN_LOG_NONE 0 now)"

lemma evaluate_rid:
  "decision (pe_alf_evaluate s proc i u msg lg rid now) = decision (pe_alf_evaluate s proc i u msg lg 0 now)"
  "log (pe_alf_evaluate s proc i u msg lg rid now) = log (pe_alf_evaluate s proc i u msg lg 0 now)"
  by (simp_all add: pe_alf_evaluate_def evaluate_rule_ref split: option.split)

text \<open>A denial ends the evaluation, otherwise the last priority with a decision wins.\<close>

lemma alf_prio_loop_decision:
  "l_decision (alf_prio_loop s proc u msg now is acc) =
     (if \<exists>i\<in>set is. alf_dec s proc u msg now i = Some APN_ACTION_DENY then Some APN_ACTION_DENY
      else case filter (\<lambda>i. alf_dec s proc u msg now i \<noteq> None) is of
             [] \<Rightarrow> l_decision acc
           | js \<Rightarrow> alf_dec s proc u msg now (last js))"
proof (induction "is" arbitrary: acc)
  case (Cons i "is")
  have d: "decision (pe_alf_evaluate s proc i u msg APN_LOG_NONE (l_rule_id acc) now) = alf_dec s proc u msg now i"
    by (simp add: alf_dec_def evaluate_rid(1) [of s proc i u msg APN_LOG_NONE "l_rule_id acc"])
  show ?case
  proof (cases "alf_dec s proc u msg now i")
    case None
    then show ?thesis using d by (simp add: Let_def Cons.IH split: list.split)
  next
    case (Some a)
    then show ?thesis
      by (cases "a = APN_ACTION_DENY") (auto simp: Let_def d Cons.IH split: list.splits)
  qed
qed simp

lemma raise_log_upper: "l \<le> raise_log n l" "n \<le> raise_log n l"
  by (auto simp: raise_log_def)

lemma log_alert_greatest: "l \<le> APN_LOG_ALERT"
  by (cases l) (simp_all add: less_eq_apn_log_level_def)

lemma alf_prio_loop_log:
  "l_log acc \<le> l_log (alf_prio_loop s proc u msg now is acc)"
proof (induction "is" arbitrary: acc)
  case (Cons i "is")
  let ?r = "pe_alf_evaluate s proc i u msg APN_LOG_NONE (l_rule_id acc) now"
  let ?a = "if decision ?r \<noteq> None
    then \<lparr>l_decision = decision ?r, l_log = raise_log (log ?r) (l_log acc), l_rule_id = rule_id ?r, l_prio = i\<rparr>
    else acc\<lparr>l_rule_id := rule_id ?r\<rparr>"
  have "l_log acc \<le> l_log ?a" by (simp add: raise_log_upper)
  moreover have "l_log ?a \<le> l_log (alf_prio_loop s proc u msg now (i # is) acc)"
    using Cons.IH [of ?a] unfolding alf_prio_loop.simps Let_def by (simp split del: if_split) (simp split: if_split)
  ultimately show ?case by (rule order_trans)
qed simp

subsection \<open>Properties\<close>


definition demo_alf_state :: pe where
  "demo_alf_state = (demo_sfs_state None)\<lparr>pdb := [\<lparr>u_uid = 5, u_prio = (\<lambda>_. None)(PE_PRIO_ADMIN := Some
     \<lparr>rs_addr = 1, alf_queue = [demo_raw_block], sfs_queue = [], sb_queue = [], ctx_queue = []\<rparr>)\<rparr>]\<rparr>"

lemma demo_alf_dec:
  "alf_dec demo_alf_state None 5 demo_raw_event 1 0 = Some APN_ACTION_ALLOW"
  "alf_dec demo_alf_state None 5 demo_raw_event 1 (Suc 0) = None"
  by (simp_all add: alf_dec_def pe_alf_evaluate_def alf_block_def demo_alf_state_def pe_user_get_ruleset_def
      pe_user_get_def PE_PRIO_MAX_def PE_PRIO_ADMIN_def default_block_def demo_raw_block_def demo_raw_event_def
      has_flag_def pe_alf_evaluate_rule_def alf_implicit_allow_def demo_raw_rule_def pe_in_scope_def
      is_filter_proto_def pe_alf_capmatch_def)


text \<open>
  User rules cannot lower the log level of a network event below what the administrator's rules
  ask for.
\<close>

theorem alf_admin_log_kept:
  "alf_dec s proc u msg now PE_PRIO_ADMIN = None \<or>
   alf_log s proc u msg now PE_PRIO_ADMIN \<le> r_log (fst (pe_decide_alf proc u msg now s))"
proof (cases "alf_dec s proc u msg now PE_PRIO_ADMIN")
  case (Some d)
  let ?r = "pe_alf_evaluate s proc 0 u msg APN_LOG_NONE 0 now"
  let ?acc = "\<lparr>l_decision = decision ?r, l_log = raise_log (log ?r) APN_LOG_NONE, l_rule_id = rule_id ?r, l_prio = 0\<rparr>"
  have dr: "decision ?r \<noteq> None" using Some by (simp add: alf_dec_def PE_PRIO_ADMIN_def)
  have up: "[0..<PE_PRIO_MAX] = [0, 1]" by (simp add: PE_PRIO_MAX_def upt_rec)
  have loop: "alf_prio_loop s proc u msg now [0..<PE_PRIO_MAX] alf_acc_init =
      (if decision ?r = Some APN_ACTION_DENY then ?acc else alf_prio_loop s proc u msg now [1] ?acc)"
    unfolding up using dr by (simp add: alf_acc_init_def Let_def)
  have "log ?r \<le> l_log ?acc" by (simp add: raise_log_upper)
  also have "\<dots> \<le> l_log (alf_prio_loop s proc u msg now [0..<PE_PRIO_MAX] alf_acc_init)"
    unfolding loop using alf_prio_loop_log [of ?acc s proc u msg now "[1]"] by simp
  finally have "log ?r \<le> l_log (alf_prio_loop s proc u msg now [0..<PE_PRIO_MAX] alf_acc_init)" .
  then show ?thesis
    by (auto simp: alf_log_def PE_PRIO_ADMIN_def pe_decide_alf_def make_reply_def Let_def log_alert_greatest
        split: option.split)
qed simp

end
