(* ===== verification/Engine.thy ===== *)
theory Engine
  imports AlfDecide
begin

text \<open>
  The event handlers of the policy engine, \<^verbatim>\<open>src/src/anoubisd/pe.c\<close>: parsing of kernel messages,
  the handlers for each event source and their dispatcher, merging of SFS and sandbox replies,
  and the comparison of paths for renames and hard links.

  Handlers of events that are shorter than their message structure return without an effect; these
  are the events \<open>EV_SHORT\<close>. A result \<open>None\<close> of a handler is a crash by a NULL dereference or
  the termination of the daemon. Otherwise it returns the reply (NULL is \<open>None\<close>), the log notifications and the new state.
\<close>

definition ANOUBISCORE_LOCK_VERSION :: nat where "ANOUBISCORE_LOCK_VERSION = 0x00010004"

subsection \<open>File events\<close>

definition pe_parse_file_event :: "sfs_open_message \<Rightarrow> pe_file_event option" where
  "pe_parse_file_event m =
     (case open_path m of
        None \<Rightarrow> None
      | Some path \<Rightarrow>
          Some \<lparr>f_cookie = o_cookie m, f_path = (if path = [] then None else Some path),
            f_csum = (if o_has_csum m then o_csum m else []),
            f_amask = (if o_read m \<or> o_follow m then APN_SBA_READ else 0) OR
              (if o_write m then APN_SBA_WRITE else 0) OR (if o_exec m then APN_SBA_EXEC else 0),
            f_uid = o_uid m, f_upgrade_flags = 0\<rparr>)"

datatype reply_source = ANOUBIS_SOURCE_SFS | ANOUBIS_SOURCE_SANDBOX

definition is_error :: "anoubisd_reply \<Rightarrow> bool" where
  "is_error r \<longleftrightarrow> r_reply r \<noteq> None \<or> r_secureexec r \<or> r_playground r \<or> r_lockwatch r"

definition reply_merge :: "anoubisd_reply \<Rightarrow> anoubisd_reply \<Rightarrow> anoubisd_reply \<times> reply_source" where
  "reply_merge sfs sb =
     (let use_sfs = (sfs\<lparr>r_log := raise_log (r_log sb) (r_log sfs)\<rparr>, ANOUBIS_SOURCE_SFS);
          use_sb = (sb\<lparr>r_log := raise_log (r_log sfs) (r_log sb)\<rparr>, ANOUBIS_SOURCE_SANDBOX)
      in if \<not> r_ask sfs \<and> is_error sfs then use_sfs
         else if \<not> r_ask sb \<and> is_error sb then use_sb
         else if r_ask sfs then use_sfs
         else if r_ask sb then use_sb
         else use_sfs)"

text \<open>A handler stores the process ID of a process that is still unknown.\<close>

definition learn_pid :: "nat option \<Rightarrow> int \<Rightarrow> pe \<Rightarrow> pe" where
  "learn_pid proc n s =
     (case proc of None \<Rightarrow> s | Some p \<Rightarrow> (if pid (proc_of s p) = -1 then pe_proc_set_pid proc n s else s))"

text \<open>Tracking of files that an upgrade modifies.\<close>

definition upgrade_track :: "pe_env \<Rightarrow> nat option \<Rightarrow> pe_file_event \<Rightarrow> pe \<Rightarrow> pe_file_event \<times> pe" where
  "upgrade_track en proc fev s =
     (let (fl, s1) =
        (if pe_proc_is_upgrade s proc \<and> has_flag (f_amask fev) APN_SBA_WRITE then
           (case f_path fev of
              None \<Rightarrow> (f_upgrade_flags fev, s)
            | Some p \<Rightarrow>
                (if sfs_haschecksum en p
                 then (f_upgrade_flags fev OR PE_UPGRADE_TOUCHED,
                       s\<lparr>upgrade_tree := snd (pe_filetree_insert (upgrade_tree s) (Some p)
                            (if pe_proc_is_upgrade_parent s proc then 0 else f_cookie fev))\<rparr>)
                 else (f_upgrade_flags fev, s)))
         else if f_path fev \<noteq> None \<and> pe_filetree_find (upgrade_tree s) (f_path fev) \<noteq> None
         then (f_upgrade_flags fev OR PE_UPGRADE_TOUCHED, s)
         else (f_upgrade_flags fev, s));
          fl' = (if has_flag fl PE_UPGRADE_TOUCHED \<and> pe_proc_is_upgrade s1 proc then fl OR PE_UPGRADE_WRITEOK else fl)
      in (fev\<lparr>f_upgrade_flags := fl'\<rparr>, s1))"

type_synonym handled = "(anoubisd_reply option \<times> lognotify list) \<times> pe"

definition lockwatch :: "pe_env \<Rightarrow> pe_file_event \<Rightarrow> anoubisd_reply \<Rightarrow> anoubisd_reply" where
  "lockwatch en fev r =
     (case f_path fev of
        None \<Rightarrow> r
      | Some p \<Rightarrow>
          (if version en \<ge> ANOUBISCORE_LOCK_VERSION \<and> f_uid fev = 0 \<and> \<not> is_error r \<and>
              (upgrade_mode en = ANOUBISD_UPGRADE_MODE_STRICT_LOCK \<or>
               upgrade_mode en = ANOUBISD_UPGRADE_MODE_LOOSE_LOCK) \<and> p \<in> set (upgrade_trigger en)
           then r\<lparr>r_lockwatch := True\<rparr> else r))"

definition opt_list :: "'a option \<Rightarrow> 'a list" where
  "opt_list x = (case x of None \<Rightarrow> [] | Some a \<Rightarrow> [a])"

text \<open>The first half of \<^verbatim>\<open>pe_handle_sfs\<close>: the process, context changes and upgrade tracking.\<close>

definition sfs_prepare :: "pe_env \<Rightarrow> sfs_open_message \<Rightarrow> pe_file_event \<Rightarrow> pe \<Rightarrow> nat option \<times> pe_file_event \<times> pe" where
  "sfs_prepare en m fev0 s =
     (let (proc, s1) = pe_proc_get (f_cookie fev0) s
      in (proc, upgrade_track en proc fev0 (pe_context_open en proc m (learn_pid proc (o_pid m) s1))))"

definition pe_handle_sfs :: "pe_env \<Rightarrow> sfs_open_message \<Rightarrow> int option \<Rightarrow> pe \<Rightarrow> handled option" where
  "pe_handle_sfs en m now s =
     (case pe_parse_file_event m of
        None \<Rightarrow> Some ((None, []), s)
      | Some fev0 \<Rightarrow>
          (let (proc, fev, s3) = sfs_prepare en m fev0 s
           in case pe_decide_sfs en proc fev now s3 of
                None \<Rightarrow> None
              | Some ((rep1, n1), s4) \<Rightarrow>
                  (case pe_decide_sandbox en proc fev now s4 of
                     None \<Rightarrow> None
                   | Some ((rep2, n2), s5) \<Rightarrow>
                       (let r = fst (reply_merge rep1 rep2);
                            (r', s6) =
                              (if has_flag (f_amask fev) APN_SBA_EXEC \<and> \<not> is_error r \<and>
                                  version en \<ge> ANOUBISCORE_LOCK_VERSION
                               then (case pe_proc_flag_transition en proc (f_uid fev) (f_csum fev) (f_path fev) s5 of
                                       ((tr, pg, _), s') \<Rightarrow> (r\<lparr>r_secureexec := tr, r_playground := pg\<rparr>, s'))
                               else (r, s5))
                        in Some ((Some (lockwatch en fev r'), opt_list n1 @ opt_list n2), pe_proc_put proc s6)))))"

subsection \<open>Path events\<close>

datatype path_op =
    ANOUBIS_PATH_OP_LINK | ANOUBIS_PATH_OP_RENAME | ANOUBIS_PATH_OP_LOCK | ANOUBIS_PATH_OP_UNLOCK
  | ANOUBIS_PATH_OP_OTHER

record sfs_path_message =
  sp_cookie :: cookie
  sp_op :: path_op
  sp_uid :: uid
  sp_pid :: int
  sp_len0 :: nat
  sp_len1 :: nat
  sp_paths :: string

record pe_path_event =
  v_cookie :: cookie
  v_op :: path_op
  v_uid :: uid
  v_path0 :: string
  v_path1 :: "string option"

definition c_string :: "string \<Rightarrow> string" where
  "c_string b = takeWhile (\<lambda>c. c \<noteq> NUL) b"

definition pe_parse_path_event :: "sfs_path_message \<Rightarrow> pe_path_event option" where
  "pe_parse_path_event m =
     (if length (sp_paths m) < sp_len0 m + sp_len1 m then None
      else if (case sp_op m of
                 ANOUBIS_PATH_OP_LINK \<Rightarrow> sp_len1 m = 0
               | ANOUBIS_PATH_OP_RENAME \<Rightarrow> sp_len1 m = 0
               | ANOUBIS_PATH_OP_LOCK \<Rightarrow> sp_len1 m \<noteq> 0
               | ANOUBIS_PATH_OP_UNLOCK \<Rightarrow> sp_len1 m \<noteq> 0
               | ANOUBIS_PATH_OP_OTHER \<Rightarrow> True) then None
      else if sp_len0 m = 0 then None
      else if sp_paths m ! (sp_len0 m - 1) \<noteq> NUL then None
      else if sp_len1 m \<noteq> 0 \<and> sp_paths m ! (sp_len0 m + sp_len1 m - 1) \<noteq> NUL then None
      else Some \<lparr>v_cookie = sp_cookie m, v_op = sp_op m, v_uid = sp_uid m, v_path0 = c_string (sp_paths m),
             v_path1 = (if sp_len1 m \<noteq> 0 then Some (c_string (drop (sp_len0 m) (sp_paths m))) else None)\<rparr>)"

text \<open>
  The prefix of a rule as \<^verbatim>\<open>pe_compare_path\<close> reads it. It takes the path of SFS rules from the
  sandbox member of the union and vice versa; both structures start with the path.
\<close>

definition compare_prefix :: "apn_rule \<Rightarrow> string option" where
  "compare_prefix r =
     (case body r of
        APN_SFS_ACCESS a \<Rightarrow> sfs_path a
      | APN_SFS_DEFAULT d \<Rightarrow> sfsd_path d
      | APN_SB_ACCESS a \<Rightarrow> sb_path a
      | _ \<Rightarrow> None)"

fun pe_compare_path :: "apn_rule list \<Rightarrow> cookie \<Rightarrow> string \<Rightarrow> string \<Rightarrow> int \<Rightarrow> errno option" where
  "pe_compare_path [] ck p0 p1 now = None"
| "pe_compare_path (r # rs) ck p0 p1 now =
     (if \<not> pe_in_scope (scope r) ck now then pe_compare_path rs ck p0 p1 now
      else case compare_prefix r of
        None \<Rightarrow> pe_compare_path rs ck p0 p1 now
      | Some pre \<Rightarrow>
          (if prefix_match pre p0 \<noteq> prefix_match pre p1 then Some EXDEV
           else pe_compare_path rs ck p0 p1 now))"

text \<open>
  The eight combinations of rule type, priority and path that \<^verbatim>\<open>pe_compare\<close> goes through, with the
  bits of the loop counter: sandbox rules first, then priorities, then paths.
\<close>

fun compare_loop :: "nat list \<Rightarrow> nat option \<Rightarrow> cookie \<Rightarrow> uid \<Rightarrow> string \<Rightarrow> string \<Rightarrow> int \<Rightarrow> pe \<Rightarrow> errno option" where
  "compare_loop [] proc ck u p0 p1 now s = None"
| "compare_loop (x # xs) proc ck u p0 p1 now s =
     (let prio = (if x mod 4 \<ge> 2 then PE_PRIO_USER1 else PE_PRIO_ADMIN);
          path = (if odd x then p1 else p0)
      in case (if x \<ge> 4 then pe_sfs_getrules s u prio (Some path)
               else pe_sb_getrules s proc u prio (Some path)) of
           Inl e \<Rightarrow> Some e
         | Inr rules \<Rightarrow>
             (if rules = [] then compare_loop xs proc ck u p0 p1 now s
              else case pe_compare_path rules ck p0 p1 now of
                Some e \<Rightarrow> Some e
              | None \<Rightarrow> compare_loop xs proc ck u p0 p1 now s))"

definition pe_compare :: "nat option \<Rightarrow> cookie \<Rightarrow> uid \<Rightarrow> string \<Rightarrow> string \<Rightarrow> int \<Rightarrow> pe \<Rightarrow> errno option" where
  "pe_compare proc ck u p0 p1 now s = compare_loop [0..<8] proc ck u p0 p1 now s"

text \<open>\<open>junk\<close> is the memory that \<^verbatim>\<open>malloc\<close> returned; not all fields of the reply are assigned.\<close>

definition pe_handle_sfspath ::
    "pe_env \<Rightarrow> sfs_path_message \<Rightarrow> int option \<Rightarrow> anoubisd_reply \<Rightarrow> pe \<Rightarrow> anoubisd_reply option \<times> pe" where
  "pe_handle_sfspath en m now junk s =
     (case (now, pe_parse_path_event m) of
        (Some t, Some v) \<Rightarrow>
          (let r0 = junk\<lparr>r_reply := None, r_secureexec := False, r_playground := False, r_lockwatch := False,
                 r_ask := False, r_hold := False, r_rule_id := 0, r_prio := 0, r_timeout := 0,
                 r_sfsmatch := ANOUBIS_SFS_NONE\<rparr>;
               (proc, s1) = pe_proc_get (v_cookie v) s;
               s2 = learn_pid proc (sp_pid m) s1;
               lockmode = (upgrade_mode en = ANOUBISD_UPGRADE_MODE_STRICT_LOCK \<or>
                           upgrade_mode en = ANOUBISD_UPGRADE_MODE_LOOSE_LOCK);
               (r1, s3) = (case v_op v of
                   ANOUBIS_PATH_OP_LOCK \<Rightarrow>
                     (if sp_uid m = 0 \<and> lockmode then
                        (if upgrade_ok s2 \<or> upgrade_counter s2 \<noteq> 0 then (r0, pe_upgrade_start proc s2)
                         else (r0\<lparr>r_reply := Some EPERM\<rparr>, s2))
                      else (r0, s2))
                 | ANOUBIS_PATH_OP_UNLOCK \<Rightarrow>
                     (if sp_uid m = 0 \<and> upgrade_mode en = ANOUBISD_UPGRADE_MODE_STRICT_LOCK
                      then (r0, pe_upgrade_end proc s2) else (r0, s2))
                 | _ \<Rightarrow>
                     (r0\<lparr>r_reply := pe_compare proc (v_cookie v) (v_uid v) (v_path0 v)
                          (case v_path1 v of None \<Rightarrow> [] | Some p \<Rightarrow> p) t s2\<rparr>, s2));
               r2 = (if pe_proc_is_hold s3 proc then r1\<lparr>r_hold := True\<rparr> else r1)
           in (Some r2, pe_proc_put proc s3))
      | _ \<Rightarrow> (None, s))"

subsection \<open>Other events\<close>

definition pe_handle_sfsexec :: "pe_env \<Rightarrow> sfs_open_message \<Rightarrow> u64 \<Rightarrow> pe \<Rightarrow> pe" where
  "pe_handle_sfsexec en m tm s =
     pe_proc_exec en (o_cookie m) (o_uid m) (o_pid m) (if o_has_csum m then o_csum m else [])
       (if o_has_path m then Some (c_string (o_pathbuf m)) else None) (o_pgid m) (o_secureexec m) tm s"

datatype process_op =
    ANOUBIS_PROCESS_OP_FORK | ANOUBIS_PROCESS_OP_EXIT | ANOUBIS_PROCESS_OP_REPLACE
  | ANOUBIS_PROCESS_OP_CREATE | ANOUBIS_PROCESS_OP_DESTROY | ANOUBIS_PROCESS_OP_OTHER

text \<open>\<open>ac_common\<close> is the cookie of the acting task, \<open>ac_task\<close> the one of the task in the event.\<close>

record ac_process_message =
  ac_op :: process_op
  ac_common :: cookie
  ac_task :: cookie
  ac_pgid :: cookie
  ac_uid :: uid

definition pe_handle_process :: "pe_env \<Rightarrow> ac_process_message \<Rightarrow> u64 \<Rightarrow> pe \<Rightarrow> pe" where
  "pe_handle_process en m tm s =
     (case ac_op m of
        ANOUBIS_PROCESS_OP_FORK \<Rightarrow> pe_proc_fork en (ac_uid m) (ac_task m) (ac_common m) (ac_pgid m) tm s
      | ANOUBIS_PROCESS_OP_EXIT \<Rightarrow> pe_proc_exit (ac_task m) s
      | ANOUBIS_PROCESS_OP_REPLACE \<Rightarrow> pe_proc_exit (ac_task m) (pe_proc_addinstance (ac_common m) s)
      | ANOUBIS_PROCESS_OP_CREATE \<Rightarrow> pe_proc_add_thread (ac_task m) tm s
      | ANOUBIS_PROCESS_OP_DESTROY \<Rightarrow> pe_proc_remove_thread (ac_task m) s
      | ANOUBIS_PROCESS_OP_OTHER \<Rightarrow> s)"

text \<open>
  \<^verbatim>\<open>pe_alf_evaluate\<close> terminates the daemon if the time is not available, but asks for it only once it has
  a rule block.
\<close>

definition pe_handle_alf ::
    "alf_event \<Rightarrow> uid \<Rightarrow> int \<Rightarrow> int option \<Rightarrow> pe \<Rightarrow> ((anoubisd_reply \<times> lognotify option) \<times> pe) option" where
  "pe_handle_alf msg u n now s =
     (let (proc, s1) = pe_proc_get (ev_cookie msg) s;
          s2 = learn_pid proc n s1
      in if now = None \<and> list_ex (\<lambda>i. alf_block s2 proc u (ev_pgid msg \<noteq> 0) i \<noteq> None) [0..<PE_PRIO_MAX]
         then None
         else Some (pe_decide_alf proc u msg (case now of None \<Rightarrow> 0 | Some t \<Rightarrow> t) s2, pe_proc_put proc s2))"

datatype ipc_op = ANOUBIS_SOCKET_OP_CONNECT | ANOUBIS_SOCKET_OP_DESTROY | ANOUBIS_SOCKET_OP_OTHER

record ac_ipc_message =
  ipc_op :: ipc_op
  ipc_source :: cookie
  ipc_dest :: cookie
  ipc_conn :: cookie

definition pe_handle_ipc :: "pe_env \<Rightarrow> ac_ipc_message \<Rightarrow> pe \<Rightarrow> pe" where
  "pe_handle_ipc en m s =
     (case ipc_op m of
        ANOUBIS_SOCKET_OP_CONNECT \<Rightarrow> pe_ipc_connect en (ipc_source m) (ipc_dest m) (ipc_conn m) s
      | ANOUBIS_SOCKET_OP_DESTROY \<Rightarrow> pe_ipc_destroy (ipc_source m) (ipc_conn m) s
      | ANOUBIS_SOCKET_OP_OTHER \<Rightarrow> s)"

text \<open>A request of a playground process; without a known process it is refused.\<close>

definition pe_handle_playgroundask ::
    "cookie \<Rightarrow> int \<Rightarrow> bool \<Rightarrow> anoubisd_reply \<Rightarrow> pe \<Rightarrow> anoubisd_reply \<times> pe" where
  "pe_handle_playgroundask ck n sock_or_fifo junk s =
     (let (proc, s1) = pe_proc_get ck s;
          s2 = learn_pid proc n s1;
          r = junk\<lparr>r_hold := False, r_log := APN_LOG_NONE, r_rule_id := 0, r_prio := 1,
                r_sfsmatch := ANOUBIS_SFS_NONE, r_reply := None, r_secureexec := False, r_playground := False,
                r_lockwatch := False\<rparr>
      in if proc = None then (r\<lparr>r_reply := Some EPERM, r_ask := False, r_timeout := 0\<rparr>, s2)
         else if sock_or_fifo then (r\<lparr>r_ask := False, r_timeout := 0\<rparr>, pe_proc_put proc s2)
         else (r\<lparr>r_ask := True, r_timeout := 300, r_pident := pe_proc_ident s2 proc,
                  r_ctxident := pe_context_get_ident s2 (pe_proc_get_context s2 proc 1)\<rparr>,
               pe_proc_put proc s2))"

datatype pgfile_op = ANOUBIS_PGFILE_INSTANTIATE | ANOUBIS_PGFILE_DELETE | ANOUBIS_PGFILE_SCAN | ANOUBIS_PGFILE_OTHER

record pg_file_message =
  pf_op :: pgfile_op
  pf_cookie :: cookie
  pf_uid :: uid
  pf_pgid :: cookie
  pf_dev :: u64
  pf_ino :: u64
  pf_buf :: string

text \<open>
  \<open>pf_buf\<close> is not empty (shorter messages are \<open>EV_SHORT\<close>); its last byte is overwritten with NUL.
  \<open>entries\<close> is what \<^verbatim>\<open>readdir\<close> returns for the playground directory.
\<close>

definition pe_handle_playgroundfile ::
    "pg_file_message \<Rightarrow> (u64 \<times> u64) list \<Rightarrow> pe \<Rightarrow> lognotify list \<times> pe" where
  "pe_handle_playgroundfile m entries s =
     (let buf = butlast (pf_buf m) @ [NUL];
          path = c_string buf;
          after = drop (length path + 1) buf;
          old_path = (if length path < length buf - 1 \<and> hd after \<noteq> NUL then Some (c_string after) else None)
      in case pf_op m of
           ANOUBIS_PGFILE_INSTANTIATE \<Rightarrow>
             ([], if path \<noteq> []
                  then s\<lparr>pgs := pe_playground_file_instantiate (pf_pgid m) (pf_dev m) (pf_ino m) path old_path entries (pgs s)\<rparr>
                  else s)
         | ANOUBIS_PGFILE_DELETE \<Rightarrow> ([], s\<lparr>pgs := pe_playground_file_delete (pf_pgid m) (pf_dev m) (pf_ino m) (pgs s)\<rparr>)
         | ANOUBIS_PGFILE_SCAN \<Rightarrow>
             (case pe_playground_file_scanrequest (pf_pgid m) (pf_dev m) (pf_ino m) path (pf_uid m) (pgs s) of
                (Some e, g) \<Rightarrow> ([], s\<lparr>pgs := g\<rparr>)
              | (None, g) \<Rightarrow>
                  (let (proc, s1) = pe_proc_get (pf_cookie m) (s\<lparr>pgs := g\<rparr>)
                   in (opt_list (make_notify APN_ACTION_ALLOW APN_LOG_NORMAL 0 0 ANOUBIS_SFS_NONE),
                       pe_proc_put proc s1)))
         | ANOUBIS_PGFILE_OTHER \<Rightarrow> ([], s))"

subsection \<open>Dispatcher\<close>

datatype kernel_event =
    EV_PROCESS ac_process_message
  | EV_SFSEXEC sfs_open_message
  | EV_ALF alf_event uid int
  | EV_IPC ac_ipc_message
  | EV_SFS sfs_open_message
  | EV_SFSPATH sfs_path_message
  | EV_PLAYGROUND cookie int bool
  | EV_PLAYGROUNDPROC cookie cookie
  | EV_PLAYGROUNDFILE pg_file_message "(u64 \<times> u64) list"
  | EV_SHORT
  | EV_UNKNOWN

text \<open>
  \<open>now\<close> is the result of \<^verbatim>\<open>time\<close>, \<open>tm\<close> the time that new playgrounds record.
\<close>

definition pe_dispatch_event ::
    "pe_env \<Rightarrow> int option \<Rightarrow> u64 \<Rightarrow> anoubisd_reply \<Rightarrow> kernel_event \<Rightarrow> pe \<Rightarrow> handled option" where
  "pe_dispatch_event en now tm junk ev s =
     (case ev of
        EV_PROCESS m \<Rightarrow> Some ((None, []), pe_handle_process en m tm s)
      | EV_SFSEXEC m \<Rightarrow> Some ((None, []), pe_handle_sfsexec en m tm s)
      | EV_ALF msg u n \<Rightarrow>
          (case pe_handle_alf msg u n now s of
             None \<Rightarrow> None
           | Some ((r, nt), s') \<Rightarrow> Some ((Some r, opt_list nt), s'))
      | EV_IPC m \<Rightarrow> Some ((None, []), pe_handle_ipc en m s)
      | EV_SFS m \<Rightarrow> pe_handle_sfs en m now s
      | EV_SFSPATH m \<Rightarrow> (case pe_handle_sfspath en m now junk s of (r, s') \<Rightarrow> Some ((r, []), s'))
      | EV_PLAYGROUND ck n sf \<Rightarrow>
          (case pe_handle_playgroundask ck n sf junk s of (r, s') \<Rightarrow> Some ((Some r, []), s'))
      | EV_PLAYGROUNDPROC ck g \<Rightarrow> Some ((None, []), pe_handle_playgroundproc en ck g tm s)
      | EV_PLAYGROUNDFILE m es \<Rightarrow> (case pe_handle_playgroundfile m es s of (nt, s') \<Rightarrow> Some ((None, nt), s'))
      | EV_SHORT \<Rightarrow> Some ((None, []), s)
      | EV_UNKNOWN \<Rightarrow> Some ((None, []), s))"


subsection \<open>Handlers keep the reference counts\<close>

definition cache_only :: "pe \<Rightarrow> pe \<Rightarrow> bool" where
  "cache_only s s' \<longleftrightarrow> (\<exists>c. s' = s\<lparr>cache := c\<rparr>)"

lemma cache_only_refl [simp]: "cache_only s s"
  unfolding cache_only_def by (rule exI [of _ "cache s"]) simp

lemma cache_only_upd [simp]: "cache_only s (s\<lparr>cache := c\<rparr>)"
  by (auto simp: cache_only_def)

lemma cache_only_trans: "cache_only (s\<lparr>cache := c\<rparr>) s' \<Longrightarrow> cache_only s s'"
  by (auto simp: cache_only_def)

lemma sfs_prio_loop_cache:
  "sfs_prio_loop en proc fev now is acc s = Some (acc', s') \<Longrightarrow> cache_only s s'"
proof (induction "is" arbitrary: acc s)
  case (Cons i "is")
  have step: "cache_only s s'" if "sfs_prio_loop en proc fev now is acc0 (s\<lparr>cache := c\<rparr>) = Some (acc', s')" for acc0 c
    using Cons.IH [OF that] by (rule cache_only_trans)
  show ?case using Cons.prems
    by (auto simp: Let_def split: if_splits sum.splits option.splits dest: Cons.IH step)
qed simp

lemma decide_sfs_cache: "pe_decide_sfs en proc fev now s = Some (x, s') \<Longrightarrow> cache_only s s'"
  by (auto simp: pe_decide_sfs_def Let_def split: option.splits dest: sfs_prio_loop_cache)

lemma sb_prio_loop_cache:
  "sb_prio_loop en proc fev now is res fin s = Some (res', fin', s') \<Longrightarrow> cache_only s s'"
proof (induction "is" arbitrary: res fin s)
  case (Cons i "is")
  have step: "cache_only s s'"
    if "sb_prio_loop en proc fev now is res0 fin0 (s\<lparr>cache := c\<rparr>) = Some (res', fin', s')" for res0 fin0 c
    using Cons.IH [OF that] by (rule cache_only_trans)
  show ?case using Cons.prems
    by (auto simp: Let_def split: if_splits sum.splits option.splits dest: Cons.IH step)
qed simp

lemma decide_sandbox_cache: "pe_decide_sandbox en proc fev now s = Some (x, s') \<Longrightarrow> cache_only s s'"
  by (auto simp: pe_decide_sandbox_def Let_def split: option.splits prod.splits dest: sb_prio_loop_cache)

lemma pe_inv_cache_only: "cache_only s s' \<Longrightarrow> pe_inv s E F \<Longrightarrow> pe_inv s' E F \<and> tracker s' = tracker s"
  by (auto simp: cache_only_def)

lemma pe_inv_learn_pid:
  assumes "pe_inv s E F" and "set_option proc \<subseteq> known s F"
  shows "pe_inv (learn_pid proc n s) E F \<and> tracker (learn_pid proc n s) = tracker s"
  using assms pe_inv_plain [OF assms(1)]
  by (auto simp: learn_pid_def pe_proc_set_pid_def held_def split: option.split)

lemma pe_inv_upgrade_track:
  "pe_inv s E F \<Longrightarrow> upgrade_track en proc fev s = (fev', s') \<Longrightarrow> pe_inv s' E F \<and> tracker s' = tracker s"
  by (auto simp: upgrade_track_def Let_def split: if_splits option.splits)

lemma pe_inv_flag_transition:
  assumes "pe_inv s E F" and "pe_proc_flag_transition en proc u cs path s = (r, s')"
  shows "pe_inv s' E F \<and> tracker s' = tracker s"
proof (cases proc)
  case (Some p)
  let ?i = "pe_proc_ident_set cs path"
  obtain tr s1 where t: "pe_context_will_transition en proc u ?i s = (tr, s1)" by fastforce
  obtain pg s2 where g: "pe_context_will_pg en proc u ?i s1 = (pg, s2)" by fastforce
  have "keeps {} s s1" using t Some by (auto simp: pe_context_will_transition_def intro: keeps_will_transition_loop)
  from keeps_known [OF this assms(1)] have "pe_inv s1 E F" "tracker s1 = tracker s" by simp_all
  moreover have "keeps {} s1 s2" using g Some by (auto simp: pe_context_will_pg_def intro: keeps_will_pg_loop)
  ultimately have "pe_inv s2 E F" "tracker s2 = tracker s" using keeps_known [of "{}" s1 s2] by simp_all
  moreover have "s' = s2" using assms(2) t g Some by (auto simp: pe_proc_flag_transition_def Let_def)
  ultimately show ?thesis by simp
qed (use assms in \<open>simp add: pe_proc_flag_transition_def\<close>)

lemma pe_inv_handle_sfs:
  assumes "pe_inv s E F" and "pe_handle_sfs en m now s = Some (x, s')"
  shows "pe_inv s' E F"
proof (cases "pe_parse_file_event m")
  case (Some fev0)
  obtain proc s1 where g: "pe_proc_get (f_cookie fev0) s = (proc, s1)" by fastforce
  let ?F = "F + opt_ms proc" and ?s2 = "pe_context_open en proc m (learn_pid proc (o_pid m) s1)"
  note k = get_known [OF assms(1) g]
  note l = pe_inv_learn_pid [OF k(1,2), of "o_pid m"]
  have s2: "pe_inv ?s2 E ?F" "tracker ?s2 = tracker s1"
    using keeps_known [OF keeps_open, of "learn_pid proc (o_pid m) s1" E ?F proc en m] l k(2) by auto
  obtain fev s3 where u: "upgrade_track en proc fev0 ?s2 = (fev, s3)" by fastforce
  note s3 = pe_inv_upgrade_track [OF s2(1) u]
  from assms(2) Some g u obtain rep1 n1 s4 rep2 n2 s5 where
    d: "pe_decide_sfs en proc fev now s3 = Some ((rep1, n1), s4)"
       "pe_decide_sandbox en proc fev now s4 = Some ((rep2, n2), s5)"
    by (auto simp: pe_handle_sfs_def sfs_prepare_def Let_def split: option.splits)
  have s5: "pe_inv s5 E ?F"
    using pe_inv_cache_only [OF decide_sfs_cache [OF d(1)]] pe_inv_cache_only [OF decide_sandbox_cache [OF d(2)]] s3
    by blast
  obtain r' s6 where f: "pe_proc_flag_transition en proc (f_uid fev) (f_csum fev) (f_path fev) s5 = (r', s6)" by fastforce
  have "s' = pe_proc_put proc s5 \<or> s' = pe_proc_put proc s6"
    using assms(2) Some g u d f by (auto simp: pe_handle_sfs_def sfs_prepare_def Let_def split: if_splits prod.splits)
  moreover have "pe_inv (pe_proc_put proc s5) E F" using pe_inv_put [OF s5] by simp
  moreover have "pe_inv (pe_proc_put proc s6) E F"
    using pe_inv_put [of s6 E F proc] pe_inv_flag_transition [OF s5 f] by simp
  ultimately show ?thesis by blast
qed (use assms in \<open>simp add: pe_handle_sfs_def\<close>)

lemma pe_inv_handle_sfspath:
  assumes "pe_inv s E F"
  shows "pe_inv (snd (pe_handle_sfspath en m now junk s)) E F"
proof (cases "now = None \<or> pe_parse_path_event m = None")
  case False
  then obtain t v where tv: "now = Some t" "pe_parse_path_event m = Some v" by auto
  obtain proc s1 where g: "pe_proc_get (v_cookie v) s = (proc, s1)" by fastforce
  let ?F = "F + opt_ms proc" and ?s2 = "learn_pid proc (sp_pid m) s1"
  note k = get_known [OF assms g]
  have l: "pe_inv ?s2 E ?F" "set_option proc \<subseteq> known ?s2 ?F"
    using pe_inv_learn_pid [OF k(1,2), of "sp_pid m"] k(2) by auto
  have u: "pe_inv (pe_upgrade_start proc ?s2) E ?F" "pe_inv (pe_upgrade_end proc ?s2) E ?F"
    using pe_inv_start [OF l] pe_inv_end [OF l] by blast+
  have "\<exists>s3. snd (pe_handle_sfspath en m now junk s) = pe_proc_put proc s3 \<and> pe_inv s3 E ?F"
    using tv g u l(1) by (cases "v_op v") (simp_all add: pe_handle_sfspath_def Let_def, blast+)
  then obtain s3 where "snd (pe_handle_sfspath en m now junk s) = pe_proc_put proc s3" "pe_inv s3 E ?F" by blast
  then show ?thesis using pe_inv_put by metis
qed (use assms in \<open>auto simp: pe_handle_sfspath_def split: option.splits\<close>)

lemma pe_inv_handle_get_put:
  assumes "pe_inv s E F" and "pe_proc_get ck s = (proc, s1)"
  shows "pe_inv (pe_proc_put proc (learn_pid proc n s1)) E F" and "pe_inv (pe_proc_put proc s1) E F"
proof -
  note k = get_known [OF assms]
  show "pe_inv (pe_proc_put proc (learn_pid proc n s1)) E F"
    using pe_inv_learn_pid [OF k(1,2)] pe_inv_put by blast
  show "pe_inv (pe_proc_put proc s1) E F" using k(1) by (rule pe_inv_put)
qed

lemma pe_inv_handle_alf:
  assumes "pe_inv s E F" and "pe_handle_alf msg u n now s = Some (x, s')"
  shows "pe_inv s' E F"
proof -
  obtain proc s1 where g: "pe_proc_get (ev_cookie msg) s = (proc, s1)" by fastforce
  with assms(2) have "s' = pe_proc_put proc (learn_pid proc n s1)"
    by (auto simp: pe_handle_alf_def Let_def split: if_splits)
  with pe_inv_handle_get_put(1) [OF assms(1) g] show ?thesis by simp
qed

lemma pe_inv_handle_playgroundask:
  assumes "pe_inv s E F"
  shows "pe_inv (snd (pe_handle_playgroundask ck n sf junk s)) E F"
proof -
  obtain proc s1 where g: "pe_proc_get ck s = (proc, s1)" by fastforce
  have "snd (pe_handle_playgroundask ck n sf junk s) = pe_proc_put proc (learn_pid proc n s1)"
    using g by (auto simp: pe_handle_playgroundask_def Let_def pe_proc_put_def learn_pid_def)
  with pe_inv_handle_get_put(1) [OF assms g] show ?thesis by simp
qed

lemma pe_inv_handle_playgroundfile:
  assumes "pe_inv s E F"
  shows "pe_inv (snd (pe_handle_playgroundfile m es s)) E F"
proof -
  have gp: "pe_inv (pe_proc_put proc s1) E F" if "pe_proc_get (pf_cookie m) (s\<lparr>pgs := g\<rparr>) = (proc, s1)" for g proc s1
    using pe_inv_handle_get_put(2) [OF _ that] assms by simp
  show ?thesis
  proof (cases "pf_op m")
    case ANOUBIS_PGFILE_SCAN
    obtain e g where "pe_playground_file_scanrequest (pf_pgid m) (pf_dev m) (pf_ino m)
        (c_string (butlast (pf_buf m) @ [NUL])) (pf_uid m) (pgs s) = (e, g)" by fastforce
    moreover obtain proc s1 where "pe_proc_get (pf_cookie m) (s\<lparr>pgs := g\<rparr>) = (proc, s1)" by fastforce
    ultimately show ?thesis using ANOUBIS_PGFILE_SCAN assms gp
      by (simp add: pe_handle_playgroundfile_def Let_def split: option.split)
  qed (use assms in \<open>simp_all add: pe_handle_playgroundfile_def Let_def\<close>)
qed

lemma pe_inv_dispatch:
  assumes "pe_inv s E F" and "pe_dispatch_event en now tm junk ev s = Some (x, s')"
  shows "pe_inv s' E F"
proof (cases ev)
  case (EV_PROCESS m)
  then show ?thesis using assms
    by (auto simp: pe_dispatch_event_def pe_handle_process_def pe_inv_fork pe_inv_exit pe_inv_addinstance
        pe_inv_add_thread pe_inv_remove_thread split: process_op.split)
next
  case (EV_SFSEXEC m)
  then show ?thesis using assms by (auto simp: pe_dispatch_event_def pe_handle_sfsexec_def pe_inv_exec_proc)
next
  case (EV_ALF msg u n)
  then show ?thesis using assms
    by (auto simp: pe_dispatch_event_def split: option.splits dest: pe_inv_handle_alf [OF assms(1)])
next
  case (EV_IPC m)
  then show ?thesis using assms
    by (auto simp: pe_dispatch_event_def pe_handle_ipc_def pe_inv_ipc_connect pe_inv_ipc_destroy split: ipc_op.split)
next
  case (EV_SFS m)
  then show ?thesis using assms pe_inv_handle_sfs by (auto simp: pe_dispatch_event_def)
next
  case (EV_SFSPATH m)
  then show ?thesis using assms(2) pe_inv_handle_sfspath [OF assms(1), of en m now junk]
    by (auto simp: pe_dispatch_event_def split: prod.splits)
next
  case (EV_PLAYGROUND ck n sf)
  then show ?thesis using assms(2) pe_inv_handle_playgroundask [OF assms(1), of ck n sf junk]
    by (auto simp: pe_dispatch_event_def split: prod.splits)
next
  case (EV_PLAYGROUNDFILE m es)
  then show ?thesis using assms(2) pe_inv_handle_playgroundfile [OF assms(1), of m es]
    by (auto simp: pe_dispatch_event_def split: prod.splits)
qed (use assms in \<open>auto simp: pe_dispatch_event_def pe_inv_playgroundproc\<close>)

end
