(* ===== verification/Coherence.thy ===== *)
theory Coherence
  imports Engine
begin

text \<open>
  The checksum cache inside the policy engine: every operation of the engine uses the cache only
  through lookups, so a cache that agrees with the SFS tree keeps agreeing with it. Together with the
  invalidations and flushes this gives coherence in all runs, and with it the decisions of
  \<open>Sfs\<close> and \<open>Sandbox\<close> are decisions about the stored checksums.
\<close>

abbreviation coh :: "pe_env \<Rightarrow> pe \<Rightarrow> bool" where
  "coh en s \<equiv> coherent (disk en) (cache s)"

subsection \<open>Contexts\<close>

lemma cache_frames [simp, pe_frame]:
  "cache (upd_proc p f s) = cache s" "cache (upd_ctx a g s) = cache s"
  "cache (pe_context_reference c s) = cache s" "cache (pe_proc_set_context p i c s) = cache s"
  "cache (pe_proc_set_savedctx p i c s) = cache s" "cache (pe_proc_save_ctx p i ck s) = cache s"
  "cache (pe_proc_drop_saved_ctx p i s) = cache s" "cache (pe_proc_restore_ctx p i ck s) = cache s"
  "cache (snd (pe_context_alloc rs pi s)) = cache s"
  by (auto simp: upd_proc_def upd_ctx_def pe_context_reference_def pe_proc_set_context_def pe_proc_set_savedctx_def
      pe_proc_save_ctx_def pe_proc_drop_saved_ctx_def pe_proc_restore_ctx_def pe_context_alloc_def Let_def
      split: option.split)

lemma coh_app_match: "coherent (disk en) c \<Longrightarrow> coherent (disk en) (snd (pe_context_app_match en ap pident u c))"
  using get_uid_refines [of "disk en" c] get_key_refines [of "disk en" c]
  by (simp add: pe_context_app_match_def pe_context_subject_match_def subject_uid_def subject_key_def case_prod_beta
      split: option.split apn_subject.split)

lemma coh_app_loop: "coherent (disk en) c \<Longrightarrow> coherent (disk en) (snd (app_loop en aps pident u c))"
proof (induction aps arbitrary: c)
  case (Cons ap aps)
  obtain b c' where m: "pe_context_app_match en ap pident u c = (b, c')" by fastforce
  then have "coherent (disk en) c'" using coh_app_match [OF Cons.prems, of ap pident u] by simp
  then show ?case using Cons.IH m by (cases b) simp_all
qed simp

lemma coh_search_chain:
  "coherent (disk en) c \<Longrightarrow> coherent (disk en) (snd (pe_context_search_chain en bs pident u ispg c))"
proof (induction bs arbitrary: c)
  case (Cons b bs)
  show ?case
  proof (cases pident)
    case (Some i)
    obtain r c' where l: "app_loop en (app b) i u c = (r, c')" by fastforce
    then have "coherent (disk en) c'" using coh_app_loop [OF Cons.prems, of "app b" i u] by simp
    then show ?thesis using Cons Some l by (cases r; cases ispg) simp_all
  qed (use Cons in \<open>cases ispg; simp\<close>)
qed simp

lemma coh_search: "coh en s \<Longrightarrow> coh en (snd (pe_context_search en rs pident u ispg s))"
  using coh_search_chain [of en]
  by (auto simp: pe_context_search_def case_prod_beta Let_def split: option.split)

lemma coh_decide_loop: "coherent (disk en) c \<Longrightarrow> coherent (disk en) (snd (decide_loop en rs ty pident u c))"
proof (induction rs arbitrary: c)
  case (Cons r rs)
  show ?case
  proof (cases "body r")
    case (APN_CTX_RULE x)
    obtain b c' where l: "app_loop en (application x) pident u c = (b, c')" by fastforce
    then have "coherent (disk en) c'" using coh_app_loop [OF Cons.prems, of "application x" pident u] by simp
    then show ?thesis using Cons APN_CTX_RULE l by (cases b) simp_all
  qed (use Cons in simp_all)
qed simp

lemma coh_decide: "coh en s \<Longrightarrow> coh en (snd (pe_context_decide en proc ty i pident u s))"
  using coh_decide_loop [of en "cache s"] by (auto simp: pe_context_decide_def case_prod_beta split: option.split)

lemma coh_norules: "coh en s \<Longrightarrow> coh en (pe_context_norules p i s)" "coh en s \<Longrightarrow> coh en (pe_savedctx_norules p i s)"
  by (auto simp: pe_context_norules_def pe_savedctx_norules_def case_prod_beta Let_def split: option.split)

lemma coh_switch: "coh en s \<Longrightarrow> coh en (pe_context_switch en p i pident u s)"
  by (auto simp: pe_context_switch_def case_prod_beta Let_def coh_norules coh_search split: option.split)

lemma coh_refresh: "coh en s \<Longrightarrow> coh en (pe_context_refresh en p i db s)"
  by (auto simp: pe_context_refresh_def case_prod_beta Let_def coh_norules coh_search split: option.split)

lemma coh_fold: "(\<And>i s. coh en s \<Longrightarrow> coh en (f i s)) \<Longrightarrow> coh en s \<Longrightarrow> coh en (fold f xs s)"
  by (induction xs arbitrary: s) simp_all


lemma coh_switch_after:
  "coh en s \<Longrightarrow> pe_context_decide en proc ty i pident u s = (b, s') \<Longrightarrow> coh en s'"
  using coh_decide [of en s proc ty i pident u] by simp

lemma coh_context_fork: "coh en s \<Longrightarrow> coh en (pe_context_fork en p parent s)"
  unfolding pe_context_fork_def by (rule coh_fold) (auto simp: coh_switch split: option.split)

lemma coh_context_exec: "coh en s \<Longrightarrow> coh en (pe_context_exec en p u pident s)"
proof -
  assume c: "coh en s"
  let ?f = "\<lambda>i s. case pe_context_decide en (Some p) APN_CTX_NEW i pident u s of
      (False, s') \<Rightarrow> s' | (True, s') \<Rightarrow> pe_proc_drop_saved_ctx p i (pe_context_switch en p i pident u s')"
  have "coh en (fold ?f [0..<PE_PRIO_MAX] s)"
    using c by (rule coh_fold [rotated]) (auto simp: coh_switch dest: coh_switch_after split: prod.split bool.split)
  then show ?thesis by (auto simp: pe_context_exec_def pe_proc_set_uid_def Let_def)
qed

lemma coh_context_open: "coh en s \<Longrightarrow> coh en (pe_context_open en proc m s)"
proof -
  assume c: "coh en s"
  have "coh en (fold (\<lambda>i s. case pe_context_decide en (Some p) APN_CTX_OPEN i pident (p_uid (proc_of s p)) s of
      (False, s') \<Rightarrow> s' | (True, s') \<Rightarrow> pe_context_switch en p i pident u s') [0..<PE_PRIO_MAX] s)" for p pident u
    using c by (rule coh_fold [rotated]) (auto simp: coh_switch dest: coh_switch_after split: prod.split bool.split)
  with c show ?thesis by (auto simp: pe_context_open_def Let_def split: option.split)
qed

lemma coh_will_transition: "coh en s \<Longrightarrow> coh en (snd (will_transition_loop en p u pident is s))"
proof (induction "is" arbitrary: s)
  case (Cons i "is")
  obtain b s1 where d: "pe_context_decide en (Some p) APN_CTX_NEW i pident u s = (b, s1)" by fastforce
  note c1 = coh_switch_after [OF Cons.prems d]
  show ?case
  proof (cases "pe_user_get_ruleset u i (pdb s1)")
    case (Some rs)
    obtain t s2 where q: "pe_context_search en (Some rs) (Some pident) u (pgid (proc_of s1 p) \<noteq> 0) s1 = (t, s2)" by fastforce
    then have "coh en s2" using coh_search [OF c1, of "Some rs"] by (metis snd_conv)
    then show ?thesis using Cons.IH [of s1] Cons.IH [of s2] Cons.IH [of "pe_context_put t s2"] d c1 Some q
      by (cases b) (auto simp: Let_def split: option.split)
  qed (use Cons.IH [of s1] d c1 in \<open>cases b; simp\<close>)
qed simp

lemma coh_will_pg: "coh en s \<Longrightarrow> coh en (snd (will_pg_loop en p u pident is s))"
proof (induction "is" arbitrary: s)
  case (Cons i "is")
  obtain b s1 where d: "pe_context_decide en (Some p) APN_CTX_NEW i pident u s = (b, s1)" by fastforce
  note c1 = coh_switch_after [OF Cons.prems d]
  show ?case
  proof (cases "pe_user_get_ruleset u i (pdb s1)")
    case (Some rs)
    obtain t s2 where q: "pe_context_search en (Some rs) (Some pident) u (pgid (proc_of s1 p) \<noteq> 0) s1 = (t, s2)" by fastforce
    then have "coh en s2" using coh_search [OF c1, of "Some rs"] by (metis snd_conv)
    then show ?thesis using Cons.IH [of s1] Cons.IH [of s2] Cons.IH [of "pe_context_put t s2"] d c1 Some q
      by (cases b) (auto simp: Let_def split: option.split)
  qed (use Cons.IH [of s1] d c1 in \<open>cases b; simp\<close>)
qed simp

lemma coh_borrow: "coh en s \<Longrightarrow> coh en (pe_context_borrow en proc procp ck s)"
proof -
  assume c: "coh en s"
  have "coh en (borrow_step en p pp ck i s)" if "coh en s" for p pp i s
    using that by (auto simp: borrow_step_def coh_switch dest: coh_switch_after split: option.split prod.split bool.split)
  then have "coh en (fold (borrow_step en p pp ck) [0..<PE_PRIO_MAX] s)" for p pp using c by (rule coh_fold)
  with c show ?thesis by (auto simp: pe_context_borrow_def split: option.split)
qed

lemma coh_restore: "coh en s \<Longrightarrow> coh en (pe_context_restore proc ck s)"
  by (auto simp: pe_context_restore_def intro!: coh_fold split: option.split)


subsection \<open>Processes and upgrades\<close>

lemma cache_get [simp]: "cache (snd (pe_proc_get ck s)) = cache s"
  by (simp add: pe_proc_get_def split: option.split)

lemma cache_get_pair: "pe_proc_get ck s = (r, s') \<Longrightarrow> cache s' = cache s"
  using cache_get [of ck s] by simp

lemma cache_put [simp]: "cache (pe_proc_put r s) = cache s"
  by (simp add: pe_proc_put_def Let_def split: option.split)

lemma cache_proc [simp]:
  "cache (pe_proc_set_flag r fl s) = cache s" "cache (pe_proc_clr_flag r fl s) = cache s"
  "cache (pe_proc_set_pid r n s) = cache s" "cache (pe_proc_track p s) = cache s"
  "cache (pe_proc_untrack p s) = cache s" "cache (pe_proc_set_playgroundid p g tm s) = cache s"
  "cache (snd (pe_proc_alloc u ck pi g tm s)) = cache s" "cache (learn_pid r n s) = cache s"
  by (simp_all add: pe_proc_set_flag_def pe_proc_clr_flag_def pe_proc_set_pid_def pe_proc_track_def
      pe_proc_untrack_def pe_proc_set_playgroundid_def pe_proc_alloc_def learn_pid_def Let_def split: option.split)

lemma cache_marks [simp]:
  "cache (pe_proc_upgrade_addmark r s) = cache s" "cache (pe_proc_upgrade_clrmark r s) = cache s"
  "cache (pe_proc_upgrade_inherit r b s) = cache s" "cache (pe_proc_secure_inherit r b s) = cache s"
  "cache (pe_proc_hold r s) = cache s"
  by (simp_all add: pe_proc_upgrade_addmark_def pe_proc_upgrade_clrmark_def pe_proc_upgrade_inherit_def
      pe_proc_secure_inherit_def pe_proc_hold_def)

lemma cache_fold: "(\<And>p s. cache (f p s) = cache s) \<Longrightarrow> cache (fold f ps s) = cache s"
  by (induction ps arbitrary: s) simp_all

lemma cache_clrall [simp]: "cache (pe_proc_upgrade_clrallmarks s) = cache s"
  unfolding pe_proc_upgrade_clrallmarks_def by (rule cache_fold) simp

lemma cache_running [simp]: "cache (snd (pe_proc_is_running ck s)) = cache s"
  by (simp add: pe_proc_is_running_def case_prod_beta Let_def)

lemma cache_prune [simp]: "cache (upgrade_prune its c s) = cache s"
proof (induction its arbitrary: c s)
  case (Cons it its)
  obtain b s1 where r: "pe_proc_is_running (ft_cookie it) s = (b, s1)" by fastforce
  then have "cache s1 = cache s" using cache_running [of "ft_cookie it" s] by simp
  with r show ?case using Cons.IH by (cases b) simp_all
qed simp

lemma cache_upgrade [simp]: "cache (pe_upgrade_start r s) = cache s" "cache (pe_upgrade_end r s) = cache s"
  by (simp_all add: pe_upgrade_start_def pe_upgrade_end_def send_upgrade_start_def pe_upgrade_filelist_start_def Let_def)

lemma cache_release [simp]: "cache (pe_proc_release s) = cache s"
  unfolding pe_proc_release_def by (rule cache_fold) simp

lemma cache_exit [simp]: "cache (pe_proc_exit ck s) = cache s"
  using cache_get_pair [of ck s] by (auto simp: pe_proc_exit_def Let_def split: prod.split option.split)

lemma cache_threads [simp]:
  "cache (pe_proc_add_thread ck tm s) = cache s" "cache (pe_proc_remove_thread ck s) = cache s"
  "cache (pe_proc_addinstance ck s) = cache s"
  using cache_get_pair [of ck s]
  by (auto simp: pe_proc_add_thread_def pe_proc_remove_thread_def pe_proc_addinstance_def Let_def
      split: prod.split option.split)

subsection \<open>Events\<close>

lemma coh_fork: "coh en s \<Longrightarrow> coh en (pe_proc_fork en u child ck g tm s)"
  by (simp add: pe_proc_fork_def case_prod_beta Let_def coh_context_fork)

lemma coh_exec: "coh en s \<Longrightarrow> coh en (pe_proc_exec en ck u pd cs path g sec tm s)"
  by (simp add: pe_proc_exec_def case_prod_beta Let_def coh_context_exec split: option.split)

lemma coh_process: "coh en s \<Longrightarrow> coh en (pe_handle_process en m tm s)"
  by (simp add: pe_handle_process_def coh_fork split: process_op.split)

lemma coh_ipc: "coh en s \<Longrightarrow> coh en (pe_handle_ipc en m s)"
  by (auto simp: pe_handle_ipc_def pe_ipc_connect_def pe_ipc_destroy_def coh_borrow coh_restore cache_get_pair
      split: ipc_op.split prod.split option.split dest!: cache_get_pair)

lemma coh_playgroundproc: "coh en s \<Longrightarrow> coh en (pe_handle_playgroundproc en ck g tm s)"
  using cache_get_pair [of ck s]
  by (auto simp: pe_handle_playgroundproc_def Let_def intro!: coh_fold coh_refresh split: prod.split option.split)


lemma coh_subject_csum:
  "coherent (disk en) c \<Longrightarrow> subject_csum en sub path u c = Some (cs, c') \<Longrightarrow> coherent (disk en) c'"
  by (auto simp: subject_csum_def lookup_csum_def split: apn_subject.splits option.splits prod.splits
      dest: cache.get_pair)

lemma coh_match_one:
  "coherent (disk en) c \<Longrightarrow> pe_sfs_match_one en r fev now c = Some (x, c') \<Longrightarrow> coherent (disk en) c'"
  by (auto simp: pe_sfs_match_one_def split: if_splits apn_body.splits option.splits dest: coh_subject_csum)

lemma coh_rules_loop:
  "coherent (disk en) c \<Longrightarrow> sfs_rules_loop en rs fev now lg c = Some (hit, lg', c') \<Longrightarrow> coherent (disk en) c'"
proof (induction rs arbitrary: lg c)
  case (Cons r rs)
  from Cons.prems(2) obtain x c1 where m: "pe_sfs_match_one en r fev now c = Some (x, c1)"
    by (auto split: option.splits)
  note c1 = coh_match_one [OF Cons.prems(1) m]
  show ?case using Cons.prems(2) m c1 Cons.IH [OF c1]
    by (cases x) (auto simp: Let_def split: if_splits)
qed simp

lemma coh_sfs_prio_loop: "coh en s \<Longrightarrow> sfs_prio_loop en proc fev now is acc s = Some (acc', s') \<Longrightarrow> coh en s'"
proof (induction "is" arbitrary: acc s)
  case (Cons i "is")
  show ?case
  proof (cases "pe_proc_is_secure s proc \<and> pe_context_is_nosfs s (pe_proc_get_context s proc i)")
    case False
    show ?thesis
    proof (cases "pe_sfs_getrules s (f_uid fev) i (f_path fev)")
      case (Inr rules)
      show ?thesis
      proof (cases "rules = []")
        case ne: False
        then obtain hit lg c where l: "sfs_rules_loop en rules fev now (a_log acc) (cache s) = Some (hit, lg, c)"
          using Cons.prems(2) Inr False by (auto split: option.splits)
        have "coh en (s\<lparr>cache := c\<rparr>)" using coh_rules_loop [OF Cons.prems(1) l] by simp
        then show ?thesis using Cons.prems(2) Inr False ne l Cons.IH [of "s\<lparr>cache := c\<rparr>"]
          by (auto simp: Let_def split: if_splits)
      qed (use Cons Inr False in auto)
    qed (use Cons.prems False in auto)
  qed (use Cons in auto)
qed simp

lemma coh_decide_sfs: "coh en s \<Longrightarrow> pe_decide_sfs en proc fev now s = Some (x, s') \<Longrightarrow> coh en s'"
  by (auto simp: pe_decide_sfs_def Let_def split: option.splits dest: coh_sfs_prio_loop)

lemma coh_sb_loop:
  "coherent (disk en) c \<Longrightarrow> sb_loop en rs fev ty now mt c = Some (mt', c') \<Longrightarrow> coherent (disk en) c'"
proof (induction rs arbitrary: mt c)
  case (Cons r rs)
  show ?case
  proof (cases "body r")
    case (APN_SB_ACCESS a)
    show ?thesis
      using Cons.prems APN_SB_ACCESS Cons.IH coh_subject_csum [OF Cons.prems(1), of "sb_cs a" "f_path fev" "f_uid fev"]
      by (auto split: if_splits option.splits)
  qed (use Cons in auto)
qed simp

lemma coh_sb_evaluate:
  "coherent (disk en) c \<Longrightarrow> pe_sb_evaluate en rs fev res ty prio now c = Some (r, c') \<Longrightarrow> coherent (disk en) c'"
  by (auto simp: pe_sb_evaluate_def split: if_splits option.splits dest: coh_sb_loop)

lemma coh_sb_eval_all:
  "coherent (disk en) c \<Longrightarrow> sb_eval_all en rs fev prio now xs c = Some (r, c') \<Longrightarrow> coherent (disk en) c'"
proof (induction xs arbitrary: c r)
  case (Cons x xs)
  obtain res ty where x: "x = (res, ty)" by (cases x)
  show ?case using Cons.prems x by (auto split: option.splits dest: Cons.IH [OF coh_sb_evaluate])
qed simp

lemma coh_sb_prio_loop:
  "coh en s \<Longrightarrow> sb_prio_loop en proc fev now is res fin s = Some (res', fin', s') \<Longrightarrow> coh en s'"
proof (induction "is" arbitrary: res fin s)
  case (Cons i "is")
  show ?case
  proof (cases "pe_sb_getrules s proc (f_uid fev) i (f_path fev)")
    case (Inr rules)
    show ?thesis
    proof (cases "rules = []")
      case ne: False
      then obtain r c where l: "sb_eval_all en rules fev i now (zip res sb_types) (cache s) = Some (r, c)"
        using Cons.prems(2) Inr by (auto split: option.splits)
      have "coh en (s\<lparr>cache := c\<rparr>)" using coh_sb_eval_all [OF Cons.prems(1) l] by simp
      then show ?thesis using Cons.prems(2) Inr ne l Cons.IH [of "s\<lparr>cache := c\<rparr>"]
        by (auto simp: Let_def split: if_splits)
    qed (use Cons Inr in auto)
  qed (use Cons.prems in auto)
qed simp

lemma coh_decide_sandbox: "coh en s \<Longrightarrow> pe_decide_sandbox en proc fev now s = Some (x, s') \<Longrightarrow> coh en s'"
  by (auto simp: pe_decide_sandbox_def Let_def split: option.splits prod.splits dest: coh_sb_prio_loop)

lemma cache_upgrade_track: "cache (snd (upgrade_track en proc fev s)) = cache s"
  by (simp add: upgrade_track_def Let_def split: option.split)

lemma coh_flag_transition: "coh en s \<Longrightarrow> coh en (snd (pe_proc_flag_transition en proc u cs path s))"
  by (simp add: pe_proc_flag_transition_def case_prod_beta Let_def pe_context_will_transition_def
      pe_context_will_pg_def coh_will_transition coh_will_pg split: option.split)


lemma coh_prepare: "coh en s \<Longrightarrow> sfs_prepare en m fev0 s = (proc, fev, s') \<Longrightarrow> coh en s'"
  using cache_upgrade_track [of en proc fev0 "pe_context_open en proc m (learn_pid proc (o_pid m) (snd (pe_proc_get (f_cookie fev0) s)))"]
  by (auto simp: sfs_prepare_def Let_def coh_context_open cache_get_pair split: prod.splits)

lemma coh_handle_sfs: "coh en s \<Longrightarrow> pe_handle_sfs en m now s = Some (x, s') \<Longrightarrow> coh en s'"
proof (cases "pe_parse_file_event m")
  case (Some fev0)
  assume c: "coh en s" and h: "pe_handle_sfs en m now s = Some (x, s')"
  obtain proc fev s3 where p: "sfs_prepare en m fev0 s = (proc, fev, s3)" by (cases "sfs_prepare en m fev0 s")
  from h Some p obtain rep1 nt1 s4 rep2 nt2 s5 where
    d: "pe_decide_sfs en proc fev now s3 = Some ((rep1, nt1), s4)"
       "pe_decide_sandbox en proc fev now s4 = Some ((rep2, nt2), s5)"
    by (auto simp: pe_handle_sfs_def Let_def split: option.splits)
  have s5: "coh en s5" by (rule coh_decide_sandbox [OF coh_decide_sfs [OF coh_prepare [OF c p] d(1)] d(2)])
  let ?f = "pe_proc_flag_transition en proc (f_uid fev) (f_csum fev) (f_path fev) s5"
  have "cache s' = cache s5 \<or> cache s' = cache (snd ?f)"
    using h Some p d by (auto simp: pe_handle_sfs_def Let_def split: if_splits prod.splits)
  with s5 coh_flag_transition [OF s5] show ?thesis by metis
qed (simp add: pe_handle_sfs_def)

lemma cache_sfspath: "cache (snd (pe_handle_sfspath en m now junk s)) = cache s"
proof (cases "pe_parse_path_event m")
  case (Some v)
  then show ?thesis
    using cache_get_pair [of "v_cookie v" s]
    by (cases now; cases "v_op v") (auto simp: pe_handle_sfspath_def Let_def split: prod.split)
qed (simp add: pe_handle_sfspath_def split: option.split)

lemma cache_playgroundfile: "cache (snd (pe_handle_playgroundfile m es s)) = cache s"
  by (cases "pf_op m") (auto simp: pe_handle_playgroundfile_def Let_def split: prod.split option.split dest: cache_get_pair)

lemma coh_dispatch:
  assumes "coh en s" and "pe_dispatch_event en now tm junk ev s = Some (x, s')"
  shows "coh en s'"
proof (cases ev)
  case (EV_SFSPATH m)
  then show ?thesis using assms cache_sfspath [of en m now junk s] by (auto simp: pe_dispatch_event_def split: prod.splits)
next
  case (EV_PLAYGROUNDFILE m es)
  then show ?thesis using assms cache_playgroundfile [of m es s] by (auto simp: pe_dispatch_event_def split: prod.splits)
next
  case (EV_ALF msg u n)
  then show ?thesis using assms
    by (auto simp: pe_dispatch_event_def pe_handle_alf_def Let_def split: if_splits option.splits prod.splits dest: cache_get_pair)
next
  case (EV_PLAYGROUND ck n sf)
  then show ?thesis using assms
    by (auto simp: pe_dispatch_event_def pe_handle_playgroundask_def Let_def split: if_splits prod.splits dest: cache_get_pair)
next
  case (EV_SFS m)
  then show ?thesis using assms coh_handle_sfs by (auto simp: pe_dispatch_event_def)
qed (use assms in \<open>auto simp: pe_dispatch_event_def pe_handle_sfsexec_def coh_process coh_exec coh_ipc coh_playgroundproc\<close>)

lemma coh_insert_rs: "coh en s \<Longrightarrow> coh en (pe_user_insert_rs en rs u prio s)"
  unfolding pe_user_insert_rs_def pe_proc_update_db_one_def Let_def
  by (rule coh_fold) (auto simp: update_one_def coh_refresh split: option.split)

lemma coh_reconfigure:
  assumes "cache_wf (cache s)" shows "coh en (pe_reconfigure en newdb s)"
  unfolding pe_reconfigure_def pe_user_reconfigure_def pe_proc_update_db_def
  by (intro coh_fold coh_refresh) (use flush_coherent [OF assms] in simp_all)

end
