(* ===== verification/Compare.thy ===== *)
theory Compare
  imports Engine
begin

text \<open>
  Renames and hard links (\<^verbatim>\<open>pe_compare\<close> of \<^verbatim>\<open>src/src/anoubisd/pe.c\<close>): the comparison through the rule
  index is exact, so no rename moves a file across the border of a rule. The second part shows
  how the replies of SFS and sandbox rules are merged into one.
\<close>

subsection \<open>Comparison of paths\<close>

text \<open>A rule that is in scope separates two paths if it applies to exactly one of them.\<close>

definition separates :: "cookie \<Rightarrow> int \<Rightarrow> string \<Rightarrow> string \<Rightarrow> apn_rule \<Rightarrow> bool" where
  "separates ck now p0 p1 r \<longleftrightarrow> pe_in_scope (scope r) ck now \<and>
     prefix_applies (rule_pref r) (Some p0) \<noteq> prefix_applies (rule_pref r) (Some p1)"

lemma compare_prefix_rule_pref: "path_rule r \<Longrightarrow> compare_prefix r = rule_pref r"
  by (cases "body r") (simp_all add: path_rule_def rule_pref_def compare_prefix_def)

lemma compare_path_separates:
  "\<forall>r\<in>set rs. path_rule r \<Longrightarrow>
   pe_compare_path rs ck p0 p1 now = (if \<exists>r\<in>set rs. separates ck now p0 p1 r then Some EXDEV else None)"
  by (induction rs) (auto simp: separates_def prefix_applies_def compare_prefix_rule_pref split: option.splits)

text \<open>The rules that round \<open>x\<close> of the loop is about, all of them and those the index returns.\<close>

definition compare_chain :: "nat option \<Rightarrow> uid \<Rightarrow> pe \<Rightarrow> nat \<Rightarrow> apn_rule list" where
  "compare_chain proc u s x =
     (let prio = (if x mod 4 \<ge> 2 then PE_PRIO_USER1 else PE_PRIO_ADMIN)
      in if x \<ge> 4 then sfs_chain s u prio else sb_chain s proc u prio)"

definition compare_rules :: "nat option \<Rightarrow> uid \<Rightarrow> string \<Rightarrow> string \<Rightarrow> pe \<Rightarrow> nat \<Rightarrow> errno + apn_rule list" where
  "compare_rules proc u p0 p1 s x =
     (let prio = (if x mod 4 \<ge> 2 then PE_PRIO_USER1 else PE_PRIO_ADMIN);
          path = (if odd x then p1 else p0)
      in if x \<ge> 4 then pe_sfs_getrules s u prio (Some path) else pe_sb_getrules s proc u prio (Some path))"

lemma compare_loop_step:
  "compare_loop (x # xs) proc ck u p0 p1 now s =
     (case compare_rules proc u p0 p1 s x of
        Inl e \<Rightarrow> Some e
      | Inr rules \<Rightarrow>
          (case pe_compare_path rules ck p0 p1 now of
             Some e \<Rightarrow> Some e
           | None \<Rightarrow> compare_loop xs proc ck u p0 p1 now s))"
  unfolding compare_loop.simps(2) Let_def compare_rules_def [unfolded Let_def, symmetric]
  by (cases "compare_rules proc u p0 p1 s x") auto

lemma compare_rules_filter:
  assumes "chain_normal (compare_chain proc u s x)" "event_path_ok (Some p0)" "event_path_ok (Some p1)"
  shows "\<exists>Q. compare_rules proc u p0 p1 s x = Inr (filter Q (compare_chain proc u s x)) \<and>
    (\<forall>r\<in>set (compare_chain proc u s x). prefix_applies (rule_pref r) (Some (if odd x then p1 else p0)) \<longrightarrow> Q r)"
proof -
  define prio where "prio = (if x mod 4 \<ge> 2 then PE_PRIO_USER1 else PE_PRIO_ADMIN)"
  define path where "path = (if odd x then p1 else p0)"
  have ok: "event_path_ok (Some path)" using assms by (simp add: path_def)
  have "compare_chain proc u s x = (if x \<ge> 4 then sfs_chain s u prio else sb_chain s proc u prio)"
    "compare_rules proc u p0 p1 s x =
      (if x \<ge> 4 then pe_sfs_getrules s u prio (Some path) else pe_sb_getrules s proc u prio (Some path))"
    by (simp_all only: compare_chain_def compare_rules_def Let_def prio_def path_def)
  then show ?thesis unfolding path_def [symmetric]
    using assms(1) sfs_getrules_filter [OF _ ok, of s u prio] sb_getrules_filter [OF _ ok, of s proc u prio]
    by (cases "x \<ge> 4") simp_all
qed

lemma compare_loop_exact:
  assumes "\<forall>x\<in>set xs. chain_normal (compare_chain proc u s x)" "event_path_ok (Some p0)" "event_path_ok (Some p1)"
  shows "compare_loop xs proc ck u p0 p1 now s \<in> {None, Some EXDEV}" and
    "compare_loop xs proc ck u p0 p1 now s = None \<longleftrightarrow>
       (\<forall>x\<in>set xs. \<forall>rs. compare_rules proc u p0 p1 s x = Inr rs \<longrightarrow> (\<forall>r\<in>set rs. \<not> separates ck now p0 p1 r))"
proof -
  have "compare_loop xs proc ck u p0 p1 now s \<in> {None, Some EXDEV} \<and>
    (compare_loop xs proc ck u p0 p1 now s = None \<longleftrightarrow>
       (\<forall>x\<in>set xs. \<forall>rs. compare_rules proc u p0 p1 s x = Inr rs \<longrightarrow> (\<forall>r\<in>set rs. \<not> separates ck now p0 p1 r)))"
    using assms(1)
  proof (induction xs)
    case (Cons x xs)
    then have n: "chain_normal (compare_chain proc u s x)" by simp
    from compare_rules_filter [OF n assms(2,3)] obtain rs where
      r: "compare_rules proc u p0 p1 s x = Inr rs" "set rs \<subseteq> set (compare_chain proc u s x)" by auto
    have "\<forall>r\<in>set rs. path_rule r" using n r(2) by (auto simp: chain_normal_def list_all_iff)
    from compare_path_separates [OF this, of ck p0 p1 now]
    have "compare_loop (x # xs) proc ck u p0 p1 now s =
        (if \<exists>r\<in>set rs. separates ck now p0 p1 r then Some EXDEV else compare_loop xs proc ck u p0 p1 now s)"
      using r(1) by (simp add: compare_loop_step del: compare_loop.simps)
    with Cons r(1) show ?case by auto
  qed simp
  then show "compare_loop xs proc ck u p0 p1 now s \<in> {None, Some EXDEV}" and
    "compare_loop xs proc ck u p0 p1 now s = None \<longleftrightarrow>
       (\<forall>x\<in>set xs. \<forall>rs. compare_rules proc u p0 p1 s x = Inr rs \<longrightarrow> (\<forall>r\<in>set rs. \<not> separates ck now p0 p1 r))"
    by blast+
qed

lemma compare_chain_rounds:
  "compare_chain proc u s (2 * k) = compare_chain proc u s (Suc (2 * k))" if "k < 4"
proof -
  have "k = 0 \<or> k = 1 \<or> k = 2 \<or> k = 3" using that by auto
  then show ?thesis by (elim disjE) (simp_all add: compare_chain_def)
qed

lemma compare_chain_half: "x < 8 \<Longrightarrow> compare_chain proc u s x = compare_chain proc u s (2 * (x div 2))"
  using compare_chain_rounds [of "x div 2" proc u s] by (cases "even x") (auto elim!: evenE oddE)

lemma separating_rule_found:
  assumes "k < 4" "chain_normal (compare_chain proc u s (2 * k))" "event_path_ok (Some p0)" "event_path_ok (Some p1)"
    and "r \<in> set (compare_chain proc u s (2 * k))" "separates ck now p0 p1 r"
  shows "\<exists>x<8. \<exists>rs. compare_rules proc u p0 p1 s x = Inr rs \<and> r \<in> set rs"
proof (cases "prefix_applies (rule_pref r) (Some p0)")
  case True
  have "\<exists>rs. compare_rules proc u p0 p1 s (2 * k) = Inr rs \<and> r \<in> set rs"
    using compare_rules_filter [OF assms(2-4)] True assms(5) by auto
  moreover have "2 * k < 8" using assms(1) by simp
  ultimately show ?thesis by blast
next
  case False
  then have "prefix_applies (rule_pref r) (Some p1)" using assms(6) by (simp add: separates_def)
  then have "\<exists>rs. compare_rules proc u p0 p1 s (Suc (2 * k)) = Inr rs \<and> r \<in> set rs"
    using compare_rules_filter [of proc u s "Suc (2 * k)" p0 p1] assms(2-5) compare_chain_rounds [OF assms(1)] by auto
  moreover have "Suc (2 * k) < 8" using assms(1) by simp
  ultimately show ?thesis by blast
qed

definition path_chains :: "nat option \<Rightarrow> uid \<Rightarrow> pe \<Rightarrow> apn_rule list" where
  "path_chains proc u s = concat (map (\<lambda>prio. sb_chain s proc u prio @ sfs_chain s u prio) [0..<PE_PRIO_MAX])"

lemma path_chains_rounds:
  "set (path_chains proc u s) = (\<Union>k<4. set (compare_chain proc u s (2 * k)))"
proof -
  have "{..<4::nat} = {0, 1, 2, 3}" by auto
  then show ?thesis
    by (auto simp: path_chains_def compare_chain_def PE_PRIO_MAX_def PE_PRIO_USER1_def PE_PRIO_ADMIN_def
        numeral_2_eq_2)
qed

lemma compare_chain_normal:
  assumes "chain_normal (path_chains proc u s)" and "x < 8"
  shows "chain_normal (compare_chain proc u s x)"
proof -
  note compare_chain_half [OF assms(2)]
  moreover have "x div 2 < 4" using assms(2) by simp
  ultimately have "set (compare_chain proc u s x) \<subseteq> set (path_chains proc u s)"
    unfolding path_chains_rounds by auto
  with assms(1) show ?thesis by (auto simp: chain_normal_def list_all_iff)
qed

lemma compare_exact:
  assumes "chain_normal (path_chains proc u s)" "event_path_ok (Some p0)" "event_path_ok (Some p1)"
  shows "pe_compare proc ck u p0 p1 now s =
    (if \<exists>r\<in>set (path_chains proc u s). separates ck now p0 p1 r then Some EXDEV else None)"
proof -
  have n: "\<forall>x\<in>set [0..<8]. chain_normal (compare_chain proc u s x)"
    using compare_chain_normal [OF assms(1)] by simp
  note l = compare_loop_exact [OF n assms(2,3), of ck now]
  have "(\<forall>x\<in>set [0..<8]. \<forall>rs. compare_rules proc u p0 p1 s x = Inr rs \<longrightarrow> (\<forall>r\<in>set rs. \<not> separates ck now p0 p1 r)) \<longleftrightarrow>
    \<not> (\<exists>r\<in>set (path_chains proc u s). separates ck now p0 p1 r)" (is "?L \<longleftrightarrow> \<not> ?R")
  proof
    assume L: ?L
    show "\<not> ?R"
    proof
      assume ?R
      then obtain k r where r: "k < 4" "r \<in> set (compare_chain proc u s (2 * k))" "separates ck now p0 p1 r"
        by (auto simp: path_chains_rounds)
      then have "chain_normal (compare_chain proc u s (2 * k))" using n by simp
      from separating_rule_found [OF r(1) this assms(2,3) r(2,3)] L r(3) show False by fastforce
    qed
  next
    assume R: "\<not> ?R"
    have "set rs \<subseteq> set (path_chains proc u s)" if "x < 8" "compare_rules proc u p0 p1 s x = Inr rs" for x rs
    proof -
      have "set rs \<subseteq> set (compare_chain proc u s x)"
        using compare_rules_filter [OF _ assms(2,3), of proc u s x] n that by auto
      moreover note compare_chain_half [OF that(1), of proc u s]
      moreover have "x div 2 < 4" using that(1) by simp
      ultimately show ?thesis unfolding path_chains_rounds by auto
    qed
    with R show ?L by fastforce
  qed
  with l show ?thesis by (auto simp: pe_compare_def)
qed

end
