(* ===== verification/Runs.thy ===== *)
theory Runs
  imports Coherence Compare
begin

text \<open>
  Runs of the policy engine: arbitrary sequences of kernel events, policy changes, upgrade requests
  and cache invalidations, with the properties that hold in all reachable states.

  The environment (configuration, files on disk, trusted certificates, time) may be a different one at each step.
\<close>

inductive pe_step :: "pe \<Rightarrow> pe \<Rightarrow> bool" where
  event: "pe_dispatch_event en now tm junk ev s = Some (x, s') \<Longrightarrow> pe_step s s'"
| insert_rs: "prio < PE_PRIO_MAX \<Longrightarrow> pe_step s (pe_user_insert_rs en rs u prio s)"
| reconfigure: "pe_step s (pe_reconfigure en newdb s)"
| finish: "pe_step s (pe_proc_release (pe_upgrade_finish s))"
| filelist_start: "pe_step s (pe_upgrade_filelist_start s)"
| filelist_next: "pe_step s (pe_upgrade_filelist_next s)"
| filelist_get: "pe_step s (snd (pe_upgrade_filelist_get s))"
| set_ok: "pe_step s (s\<lparr>upgrade_ok := b\<rparr>)"
| invalidate_uid: "pe_step s (s\<lparr>cache := sfshash_invalidate_uid path u (cache s)\<rparr>)"
| invalidate_key: "pe_step s (s\<lparr>cache := sfshash_invalidate_key path key (cache s)\<rparr>)"

inductive pe_reachable :: "pe \<Rightarrow> bool" where
  init: "pe_reachable (pe_init db pg)"
| step: "pe_reachable s \<Longrightarrow> pe_step s s' \<Longrightarrow> pe_reachable s'"

text \<open>
  Runs that follow the protocol of the SFS tree: \<open>pe_run d s\<close> is a state reached while the tree has
  the contents \<open>d\<close>. Events see these contents; a change of one checksum comes with the invalidation
  of the cached one, and other changes happen before the end of an upgrade or a reconfiguration.
\<close>

inductive pe_run :: "sfs_disk \<Rightarrow> pe \<Rightarrow> bool" where
  init: "pe_run d (pe_init db pg)"
| event: "pe_run (disk en) s \<Longrightarrow> pe_dispatch_event en now tm junk ev s = Some (x, s') \<Longrightarrow> pe_run (disk en) s'"
| insert_rs: "pe_run (disk en) s \<Longrightarrow> prio < PE_PRIO_MAX \<Longrightarrow> pe_run (disk en) (pe_user_insert_rs en rs u prio s)"
| reconfigure: "pe_run d s \<Longrightarrow> pe_run (disk en) (pe_reconfigure en newdb s)"
| finish: "pe_run d s \<Longrightarrow> pe_run d' (pe_proc_release (pe_upgrade_finish s))"
| filelist_start: "pe_run d s \<Longrightarrow> pe_run d (pe_upgrade_filelist_start s)"
| filelist_next: "pe_run d s \<Longrightarrow> pe_run d (pe_upgrade_filelist_next s)"
| filelist_get: "pe_run d s \<Longrightarrow> pe_run d (snd (pe_upgrade_filelist_get s))"
| set_ok: "pe_run d s \<Longrightarrow> pe_run d (s\<lparr>upgrade_ok := b\<rparr>)"
| update_uid: "pe_run d s \<Longrightarrow> disk_changes_at d d' path (CSTYPE_UID u) \<Longrightarrow>
    pe_run d' (s\<lparr>cache := sfshash_invalidate_uid path u (cache s)\<rparr>)"
| update_key: "pe_run d s \<Longrightarrow> disk_changes_at d d' path (CSTYPE_KEY k) \<Longrightarrow>
    pe_run d' (s\<lparr>cache := sfshash_invalidate_key path k (cache s)\<rparr>)"

lemma pe_run_coherent: "pe_run d s \<Longrightarrow> coherent d (cache s)"
proof (induction rule: pe_run.induct)
  case (event en s now tm junk ev x s')
  show ?case by (rule coh_dispatch [OF event.IH event.hyps(2)])
next
  case (insert_rs en s prio rs u)
  show ?case by (rule coh_insert_rs [OF insert_rs.IH])
next
  case (reconfigure d s en newdb)
  then show ?case by (intro coh_reconfigure) (simp add: coherent_def)
next
  case (finish d s d')
  then show ?case using flush_coherent [of "cache s" d'] by (simp add: pe_upgrade_finish_def coherent_def)
qed (simp_all add: pe_init_def coherent_init pe_upgrade_filelist_start_def pe_upgrade_filelist_next_def
    pe_upgrade_filelist_get_def Let_def invalidate_uid_coherent invalidate_key_coherent)

definition pe_shutdown :: "pe \<Rightarrow> pe" where
  "pe_shutdown s =
     (let s1 = pe_proc_shutdown (s\<lparr>pdb := [], cache := sfshash_flush (cache s)\<rparr>)
      in s1\<lparr>pgs := (pgs s1)\<lparr>playgrounds := []\<rparr>\<rparr>)"

subsection \<open>An example\<close>

definition demo_forked :: pe where
  "demo_forked = pe_handle_process demo_env
     \<lparr>ac_op = ANOUBIS_PROCESS_OP_FORK, ac_common = 7, ac_task = 9, ac_pgid = 0, ac_uid = 5\<rparr> 0
     (demo_sfs_state (Some ''/etc''))"

lemma demo_forked_reachable: "pe_reachable demo_forked"
proof -
  have "pe_reachable (demo_sfs_state (Some ''/etc''))" unfolding demo_sfs_state_def by (rule pe_reachable.init)
  moreover have "pe_step (demo_sfs_state (Some ''/etc'')) demo_forked"
    by (rule pe_step.event [where ev = "EV_PROCESS \<lparr>ac_op = ANOUBIS_PROCESS_OP_FORK, ac_common = 7, ac_task = 9,
          ac_pgid = 0, ac_uid = 5\<rparr>" and en = demo_env and tm = 0])
      (simp add: pe_dispatch_event_def demo_forked_def)
  ultimately show ?thesis by (rule pe_reachable.step)
qed

subsection \<open>Memory safety\<close>

lemma pe_inv_step: "pe_step s s' \<Longrightarrow> pe_inv s {#} {#} \<Longrightarrow> pe_inv s' {#} {#}"
proof (induction rule: pe_step.induct)
  case (finish s)
  then show ?case using pe_inv_release [of "pe_upgrade_finish s"] by (simp add: pe_inv_finish)
qed (auto simp: pe_upgrade_filelist_start_def pe_upgrade_filelist_next_def pe_upgrade_filelist_get_def Let_def
    intro: pe_inv_dispatch pe_inv_insert_rs pe_inv_reconfigure)

lemma pe_inv_reachable: "pe_reachable s \<Longrightarrow> pe_inv s {#} {#}"
  by (induction rule: pe_reachable.induct) (auto intro: pe_inv_init pe_inv_step)

lemma pe_inv_process:
  assumes "pe_inv s {#} {#}" and "procs s p = Some x"
  shows "p \<in> set (tracker s)" and "p_refcount x = 1" and "instances x \<ge> 1"
proof -
  have ok: "proc_ok (procs s) (next_ptr s) (tracker s) {#}" using assms(1) by (simp add: pe_inv_def)
  have c: "p_refcount x = int (count (mset (tracker s)) p)" "count (mset (tracker s)) p > 0"
    "p \<in> set (tracker s) \<Longrightarrow> instances x \<ge> 1"
    using proc_ok_cell [OF ok, of p] assms(2) by (simp_all split: if_splits)
  then show t: "p \<in> set (tracker s)" by (simp add: count_mset_gt_0)
  with c show "instances x \<ge> 1" by simp
  show "p_refcount x = 1" using c(1) t proc_ok_distinct [OF ok] by (simp add: distinct_count_atmost_1)
qed

lemma pe_inv_context:
  assumes "pe_inv s {#} {#}" and "ctxs s c = Some x"
  shows "refcount x = int (count (refs (procs s)) c)" and "refcount x \<ge> 1"
  using ctx_ok_cell [of "ctxs s" "next_ptr s" "refs (procs s)" c] assms by (simp_all add: pe_inv_def)

lemma demo_forked_simps: "tracker demo_forked = [0]" "procs demo_forked 0 \<noteq> None"
proof -
  show t: "tracker demo_forked = [0]"
    by (simp add: demo_forked_def pe_handle_process_def demo_sfs_state_def pe_init_def pe_proc_fork_def
        pe_proc_get_def pe_proc_alloc_def pe_proc_set_playgroundid_def new_proc_def proc_of_def Let_def
        pe_proc_track_def ctx_frame_tracker [OF keeps_frame [OF keeps_fork]])
  show "procs demo_forked 0 \<noteq> None"
    using pe_inv_live [OF pe_inv_reachable [OF demo_forked_reachable], of 0] t by simp
qed

subsection \<open>Shutdown\<close>

lemma pe_inv_shutdown:
  assumes "pe_inv s E F"
  shows "pe_inv (pe_proc_shutdown s) E F \<and> tracker (pe_proc_shutdown s) = []"
proof -
  let ?f = "\<lambda>p s. pe_proc_untrack p (upd_proc p (\<lambda>x. x\<lparr>instances := 0\<rparr>) s)"
  have "pe_inv (fold ?f ps s) E F \<and> tracker (fold ?f ps s) = []" if "pe_inv s E F" "tracker s = ps" for ps s
    using that
  proof (induction ps arbitrary: s)
    case (Cons p ps)
    have "pe_inv (?f p s) E F" using Cons.prems by (intro pe_inv_untrack) simp_all
    moreover have "tracker (?f p s) = ps" using Cons.prems by (simp add: tracker_untrack)
    ultimately show ?case using Cons.IH [of "?f p s"] by simp
  qed simp
  with assms show ?thesis by (simp add: pe_proc_shutdown_def)
qed

lemma pe_inv_no_process:
  assumes "pe_inv s {#} {#}" and "tracker s = []"
  shows "procs s = Map.empty" and "ctxs s = Map.empty"
proof -
  show p: "procs s = Map.empty" using pe_inv_process(1) [OF assms(1)] assms(2) by (metis empty_iff ext empty_set not_None_eq)
  show "ctxs s = Map.empty"
  proof
    fix c
    show "ctxs s c = None"
      using pe_inv_context [OF assms(1), of c] p by (cases "ctxs s c") (auto simp: refs_def)
  qed
qed



text \<open>
  C23. Shutdown frees everything: after the process list was released, no process and no context
  is left in memory, and releasing them accesses nothing that was already freed.
\<close>

theorem shutdown_frees_all:
  assumes "pe_reachable s"
  shows "procs (pe_shutdown s) = Map.empty \<and> ctxs (pe_shutdown s) = Map.empty \<and>
    tracker (pe_shutdown s) = [] \<and> \<not> fault (pe_shutdown s) \<and> \<not> panicked (pe_shutdown s)"
proof -
  let ?s = "s\<lparr>pdb := [], cache := sfshash_flush (cache s)\<rparr>"
  have i: "pe_inv (pe_proc_shutdown ?s) {#} {#}" "tracker (pe_proc_shutdown ?s) = []"
    using pe_inv_shutdown [of ?s "{#}" "{#}"] pe_inv_reachable [OF assms] by simp_all
  have "\<not> fault (pe_proc_shutdown ?s) \<and> \<not> panicked (pe_proc_shutdown ?s)" using i(1) by (simp add: pe_inv_def)
  with pe_inv_no_process [OF i] i(2) show ?thesis by (simp add: pe_shutdown_def Let_def)
qed

theorem shutdown_frees_all_witness:
  "procs demo_forked \<noteq> Map.empty \<and> procs (pe_shutdown demo_forked) = Map.empty"
  using shutdown_frees_all [OF demo_forked_reachable] demo_forked_simps by auto

end
