(* ===== verification/Mediation.thy ===== *)
theory Mediation
  imports Runs
begin

text \<open>
  What a kernel event about files is answered: the reply to an open or exec event is the conjunction of the
  SFS and the sandbox verdict, evaluated on the complete rule blocks with the checksums that the SFS tree holds,
  and the reply to a rename or hard link refuses exactly the changes that cross the border of a rule.
\<close>

subsection \<open>Renames and links\<close>

lemma sb_block_upd:
  assumes "\<And>x. p_uid (f x) = p_uid x \<and> pgid (f x) = pgid x \<and> p_context (f x) = p_context x"
  shows "sb_block (upd_proc p f s) = sb_block s"
proof -
  have "p_uid (proc_of (upd_proc p f s) q) = p_uid (proc_of s q)" "pgid (proc_of (upd_proc p f s) q) = pgid (proc_of s q)"
    "p_context (proc_of (upd_proc p f s) q) = p_context (proc_of s q)" for q
    using assms by (auto simp: upd_proc_def proc_of_def split: option.split)
  moreover have "pdb (upd_proc p f s) = pdb s" "ctx_of (upd_proc p f s) = ctx_of s"
    by (auto simp: upd_proc_def ctx_of_def fun_eq_iff split: option.split)
  ultimately show ?thesis
    by (simp add: fun_eq_iff sb_block_def pe_proc_get_context_def pe_proc_get_playgroundid_def split: option.split)
qed

lemma path_chains_get:
  assumes "pe_proc_get ck s = (proc, s1)"
  shows "path_chains proc u (learn_pid proc n s1) = path_chains proc u s"
proof -
  have "sb_block s1 = sb_block s" "pdb s1 = pdb s"
    using assms by (auto simp: pe_proc_get_def sb_block_upd split: option.splits)
  moreover have "sb_block (learn_pid proc n s1) = sb_block s1" "pdb (learn_pid proc n s1) = pdb s1"
    by (auto simp: learn_pid_def pe_proc_set_pid_def sb_block_upd split: option.split)
  ultimately show ?thesis by (simp add: path_chains_def sb_chain_def sfs_chain_def)
qed

lemma parse_path_ops:
  assumes "pe_parse_path_event m = Some v" and "v_op v = ANOUBIS_PATH_OP_RENAME \<or> v_op v = ANOUBIS_PATH_OP_LINK"
  obtains p1 where "v_path1 v = Some p1"
  using assms by (auto simp: pe_parse_path_event_def split: if_splits path_op.splits)

text \<open>
  C2. Renames and hard links cannot bypass a rule. The request is refused with \<^verbatim>\<open>EXDEV\<close> iff some
  SFS or sandbox rule that is in scope applies to exactly one of the two paths; otherwise it is allowed. So after
  an allowed rename every rule that covered the old name covers the new name, and no rule is gained.
\<close>

theorem rename_refused_iff:
  assumes "pe_parse_path_event m = Some v"
    and "v_op v = ANOUBIS_PATH_OP_RENAME \<or> v_op v = ANOUBIS_PATH_OP_LINK"
    and "proc = fst (pe_proc_get (v_cookie v) s)"
    and "chain_normal (path_chains proc (v_uid v) s)"
    and "event_path_ok (Some (v_path0 v))" and "event_path_ok (v_path1 v)"
  shows "\<exists>r. fst (pe_handle_sfspath en m (Some t) junk s) = Some r \<and> \<not> r_ask r \<and>
    r_reply r = (if \<exists>rule\<in>set (path_chains proc (v_uid v) s).
        separates (v_cookie v) t (v_path0 v) (the (v_path1 v)) rule then Some EXDEV else None)"
proof -
  obtain p1 where p1: "v_path1 v = Some p1" by (rule parse_path_ops [OF assms(1,2)])
  obtain s1 where g: "pe_proc_get (v_cookie v) s = (proc, s1)" using assms(3) by (metis prod.collapse)
  let ?s2 = "learn_pid proc (sp_pid m) s1"
  have ch: "path_chains proc (v_uid v) ?s2 = path_chains proc (v_uid v) s" by (rule path_chains_get [OF g])
  have "pe_compare proc (v_cookie v) (v_uid v) (v_path0 v) p1 t ?s2 =
      (if \<exists>rule\<in>set (path_chains proc (v_uid v) s). separates (v_cookie v) t (v_path0 v) p1 rule then Some EXDEV else None)"
    using compare_exact [of proc "v_uid v" ?s2 "v_path0 v" p1 "v_cookie v" t] assms(4-6) p1 unfolding ch by simp
  then show ?thesis using assms(1,2) g p1 by (auto simp: pe_handle_sfspath_def Let_def)
qed

subsection \<open>Open and exec events\<close>

abbreviation passes :: "anoubisd_reply \<Rightarrow> bool" where
  "passes r \<equiv> r_reply r = None \<and> \<not> r_ask r"

definition plain_reply :: "anoubisd_reply \<Rightarrow> bool" where
  "plain_reply r \<longleftrightarrow> \<not> r_secureexec r \<and> \<not> r_playground r \<and> \<not> r_lockwatch r"

lemma merge_passes:
  assumes "plain_reply a" "plain_reply b"
  shows "passes (fst (reply_merge a b)) \<longleftrightarrow> passes a \<and> passes b"
  using assms by (auto simp: reply_merge_def is_error_def plain_reply_def Let_def)

lemma plain_make_reply: "plain_reply (make_reply s proc dec lg rid pr m)"
  by (simp add: plain_reply_def make_reply_def Let_def)

lemma plain_decide_sfs: "pe_decide_sfs en proc fev now s = Some ((rep, n), s') \<Longrightarrow> plain_reply rep"
  by (auto simp: pe_decide_sfs_def Let_def plain_make_reply split: option.splits)

lemma plain_decide_sandbox: "pe_decide_sandbox en proc fev now s = Some ((rep, n), s') \<Longrightarrow> plain_reply rep"
  by (auto simp: pe_decide_sandbox_def Let_def plain_make_reply split: option.splits prod.splits)

lemma lockwatch_reply [simp]: "r_reply (lockwatch en fev r) = r_reply r" "r_ask (lockwatch en fev r) = r_ask r"
  by (simp_all add: lockwatch_def split: option.split)

lemma handle_sfs_reply:
  assumes "pe_parse_file_event m = Some fev0" and "sfs_prepare en m fev0 s = (proc, fev, s3)"
    and "pe_decide_sfs en proc fev now s3 = Some ((rep1, n1), s4)"
    and "pe_decide_sandbox en proc fev now s4 = Some ((rep2, n2), s5)"
  shows "\<exists>r s'. pe_handle_sfs en m now s = Some ((Some r, opt_list n1 @ opt_list n2), s') \<and>
    r_reply r = r_reply (fst (reply_merge rep1 rep2)) \<and> r_ask r = r_ask (fst (reply_merge rep1 rep2))"
  using assms by (auto simp: pe_handle_sfs_def Let_def split: prod.split)

lemma prepare_fields:
  assumes "sfs_prepare en m fev0 s = (proc, fev, s3)"
  shows "f_path fev = f_path fev0" "f_uid fev = f_uid fev0" "f_cookie fev = f_cookie fev0"
  using assms by (auto simp: sfs_prepare_def upgrade_track_def Let_def split: prod.splits if_splits option.splits)


lemma outcome_allow: "sb_outcome en fev p t rss \<in> {APN_ACTION_ALLOW, APN_ACTION_DENY, APN_ACTION_ASK}"
  by (induction rss) (auto simp: Let_def)

text \<open>
  C1. Complete mediation. In every run, an open or exec event with a path is answered, and it passes
  without a question iff both rule sets agree: at every priority that is not exempt the first SFS rule that
  decides allows it, and no sandbox rule denies or asks. The verdicts are those over the complete rule blocks with the
  checksums that the SFS tree holds, whatever the cache and the rule index contain.
\<close>

theorem file_event_mediation:
  assumes "pe_run (disk en) s"
    and "pe_parse_file_event m = Some fev0" and "f_path fev0 = Some p" and "hd p = CHR ''/''" and "p \<noteq> []"
    and "sfs_prepare en m fev0 s = (proc, fev, s')"
    and "\<forall>i<PE_PRIO_MAX. chain_normal (sfs_chain s' (f_uid fev) i)"
    and "\<forall>i<PE_PRIO_MAX. chain_normal (sb_chain s' proc (f_uid fev) i)"
  shows "\<exists>r ns s''. pe_handle_sfs en m (Some t) s = Some ((Some r, ns), s'') \<and>
    (r_reply r = None \<and> \<not> r_ask r \<longleftrightarrow>
       (\<forall>i<PE_PRIO_MAX. sfs_skipped s' proc i \<or>
          (case sfs_first en fev p t (sfs_chain s' (f_uid fev) i) of
             None \<Rightarrow> True | Some (act, _) \<Rightarrow> act = APN_ACTION_ALLOW)) \<and>
       sb_outcome en fev p t (map (sb_chain s' proc (f_uid fev)) [0..<PE_PRIO_MAX]) = APN_ACTION_ALLOW)"
proof -
  have c: "coh en s'" by (rule coh_prepare [OF pe_run_coherent [OF assms(1)] assms(6)])
  have p: "f_path fev = Some p" "event_path_ok (Some p)"
    using prepare_fields [OF assms(6)] assms(3-5) by (simp_all add: event_path_ok_def)
  obtain c4 rep1 nt1 where d1: "pe_decide_sfs en proc fev (Some t) s' = Some ((rep1, nt1), s'\<lparr>cache := c4\<rparr>)"
    and c4: "coherent (disk en) c4"
    by (rule decide_sfs_ref [OF c p assms(7), of t proc]) blast
  let ?out = "sb_outcome en fev p t (map (sb_chain s' proc (f_uid fev)) [0..<PE_PRIO_MAX])"
  obtain rep2 nt2 s5 where d2: "pe_decide_sandbox en proc fev (Some t) (s'\<lparr>cache := c4\<rparr>) = Some ((rep2, nt2), s5)"
    and r2: "r_reply rep2 = (if ?out = APN_ACTION_DENY then Some EPERM else None)" "r_ask rep2 = (?out = APN_ACTION_ASK)"
    using decide_sandbox_ref [of en "s'\<lparr>cache := c4\<rparr>" fev p proc t] c4 p assms(8) by auto
  have "passes (fst (reply_merge rep1 rep2)) \<longleftrightarrow> passes rep1 \<and> ?out = APN_ACTION_ALLOW"
    using merge_passes [OF plain_decide_sfs [OF d1] plain_decide_sandbox [OF d2]] r2
      outcome_allow [of en fev p t "map (sb_chain s' proc (f_uid fev)) [0..<PE_PRIO_MAX]"] by auto
  moreover note sfs_passes_iff [OF c p assms(7) d1]
  ultimately show ?thesis using handle_sfs_reply [OF assms(2,6) d1 d2] by auto
qed

text \<open>A user without sandbox rules reads a file below \<^verbatim>\<open>/etc\<close> of which no checksum is stored.\<close>

definition demo_open :: sfs_open_message where
  "demo_open = \<lparr>o_cookie = 9, o_pgid = 0, o_uid = 5, o_pid = 1, o_read = True, o_write = False, o_exec = False,
     o_follow = False, o_has_csum = False, o_has_path = True, o_secureexec = False, o_csum = [],
     o_pathbuf = ''/etc/passwd'' @ [NUL]\<rparr>"

lemma demo_prepare:
  "pe_parse_file_event demo_open = Some (demo_file_event (Some ''/etc/passwd''))"
  "sfs_prepare demo_env demo_open (demo_file_event (Some ''/etc/passwd'')) (demo_sfs_state pre) =
     (None, demo_file_event (Some ''/etc/passwd''), demo_sfs_state pre)"
  by (simp_all add: demo_open_def pe_parse_file_event_def open_path_def demo_file_event_def sfs_prepare_def
      pe_proc_get_def learn_pid_def pe_context_open_def upgrade_track_def pe_proc_is_upgrade_def pe_proc_get_flag_def
      demo_sfs_state_def pe_init_def pe_filetree_find_def has_flag_def PE_UPGRADE_TOUCHED_def char_of_def Let_def)

lemma demo_no_sb: "sb_chain (demo_sfs_state pre) None 5 i = []"
  by (simp add: sb_chain_def sb_block_def demo_sfs_state_def pe_init_def pe_user_get_ruleset_def pe_user_get_def
      demo_sfs_rs_def default_block_def)

theorem file_event_mediation_witness:
  "\<exists>r ns s''. pe_handle_sfs demo_env demo_open (Some 1) (demo_sfs_state (Some ''/etc'')) = Some ((Some r, ns), s'') \<and>
     \<not> (r_reply r = None \<and> \<not> r_ask r)"
proof -
  let ?fev = "demo_file_event (Some ''/etc/passwd'')" and ?s = "demo_sfs_state (Some ''/etc'')"
  have run: "pe_run (disk demo_env) ?s" unfolding demo_sfs_state_def by (rule pe_run.init)
  have n: "\<forall>i<PE_PRIO_MAX. chain_normal (sfs_chain ?s (f_uid ?fev) i)"
    "\<forall>i<PE_PRIO_MAX. chain_normal (sb_chain ?s None (f_uid ?fev) i)"
    by (simp_all add: demo_chain_normal) (simp add: demo_no_sb chain_normal_def)
  have "\<not> (\<forall>i<PE_PRIO_MAX. sfs_skipped ?s None i \<or>
       (case sfs_first demo_env ?fev ''/etc/passwd'' 1 (sfs_chain ?s (f_uid ?fev) i) of
          None \<Rightarrow> True | Some (act, _) \<Rightarrow> act = APN_ACTION_ALLOW))"
    by (rule notI, drule spec [of _ 0]) (simp add: PE_PRIO_MAX_def demo_effect del: sfs_first_simps)
  with file_event_mediation [OF run demo_prepare(1) _ _ _ demo_prepare(2) n, of "''/etc/passwd''" 1]
  show ?thesis by auto
qed

definition demo_rename :: sfs_path_message where
  "demo_rename = \<lparr>sp_cookie = 9, sp_op = ANOUBIS_PATH_OP_RENAME, sp_uid = 5, sp_pid = 1, sp_len0 = 7, sp_len1 = 7,
     sp_paths = ''/etc/a'' @ [NUL] @ ''/tmp/a'' @ [NUL]\<rparr>"

definition demo_reply :: anoubisd_reply where
  "demo_reply = make_reply (demo_sfs_state None) None APN_ACTION_ALLOW APN_LOG_NONE 0 0 ANOUBIS_SFS_NONE"

theorem rename_refused_iff_witness:
  "\<exists>r. fst (pe_handle_sfspath demo_env demo_rename (Some 1) demo_reply (demo_sfs_state (Some ''/etc''))) = Some r \<and>
     r_reply r = Some EXDEV"
proof -
  let ?s = "demo_sfs_state (Some ''/etc'')"
  let ?v = "\<lparr>v_cookie = 9, v_op = ANOUBIS_PATH_OP_RENAME, v_uid = 5, v_path0 = ''/etc/a'', v_path1 = Some ''/tmp/a''\<rparr>"
  have v: "pe_parse_path_event demo_rename = Some ?v"
    by (simp add: pe_parse_path_event_def demo_rename_def c_string_def char_of_def)
  have ch: "path_chains None 5 ?s = [demo_sfs_rule (Some ''/etc'')]"
    by (simp add: path_chains_def demo_no_sb PE_PRIO_MAX_def numeral_2_eq_2)
  have g: "fst (pe_proc_get 9 ?s) = None" by (simp add: pe_proc_get_def demo_sfs_state_def pe_init_def)
  have n: "chain_normal [demo_sfs_rule (Some ''/etc'')]"
    by (simp add: chain_normal_def path_rule_def rule_pref_def demo_sfs_rule_def prefix_normal_def)
  have "separates 9 1 ''/etc/a'' ''/tmp/a'' (demo_sfs_rule (Some ''/etc''))"
    by (simp add: separates_def demo_sfs_rule_def pe_in_scope_def prefix_applies_def rule_pref_def prefix_match_iff
        trim_slashes_def)
  with rename_refused_iff [OF v, of None ?s demo_env 1 demo_reply] ch g n show ?thesis
    by (auto simp: event_path_ok_def)
qed

end
