(* ===== verification/Messages.thy ===== *)
theory Messages
  imports Sfs
begin

text \<open>
  The messages between policy engine, session engine and upgrade process that carry data of variable
  length: escalation and log messages (\<^verbatim>\<open>fill_eventask_message\<close> of \<^verbatim>\<open>src/src/anoubisd/policy.c\<close> and
  \<^verbatim>\<open>eventask_to_notify\<close> of \<^verbatim>\<open>src/src/anoubisd/session.c\<close>) and the contents of a policy file
  (\<^verbatim>\<open>send_policy_data\<close>).

  Offsets and lengths have 16 bits. A buffer that is filled front to back is the list of bytes written so
  far, so the write offset is its length. The layout of the kernel's event header is not part
  of the sources: its size and the function that reads the field \<^verbatim>\<open>msg_size\<close> are parameters.
\<close>

subsection \<open>Escalation messages\<close>

record pl_range =
  pl_off :: u16
  pl_len :: u16

definition path_bytes :: "string option \<Rightarrow> bytes" where
  "path_bytes path = (case path of None \<Rightarrow> [] | Some p \<Rightarrow> map of_char p @ [0])"

definition pident_size :: "pe_proc_ident option \<Rightarrow> nat" where
  "pident_size pident =
     (case pident of None \<Rightarrow> 0
      | Some i \<Rightarrow> length (id_csum i) + (case pathhint i of None \<Rightarrow> 0 | Some p \<Rightarrow> 1 + length p))"

definition do_copy :: "bytes \<Rightarrow> bytes \<Rightarrow> bytes \<times> pl_range" where
  "do_copy buf data = (buf @ data, \<lparr>pl_off = of_nat (length buf), pl_len = of_nat (length data)\<rparr>)"

definition do_copy_ident :: "bytes \<Rightarrow> pe_proc_ident option \<Rightarrow> bytes \<times> pl_range \<times> pl_range" where
  "do_copy_ident buf pident =
     (case pident of
        None \<Rightarrow> (buf, \<lparr>pl_off = of_nat (length buf), pl_len = 0\<rparr>, \<lparr>pl_off = of_nat (length buf), pl_len = 0\<rparr>)
      | Some i \<Rightarrow>
          (let (buf1, cs) = do_copy buf (id_csum i);
               (buf2, path) = do_copy buf1 (path_bytes (pathhint i))
           in (buf2, cs, path)))"

record anoubisd_msg_eventask =
  ea_rule_id :: nat
  ea_prio :: nat
  ea_sfsmatch :: sfs_match
  ea_error :: "errno option"
  ea_loglevel :: apn_log_level
  ea_csum :: pl_range
  ea_path :: pl_range
  ea_ctxcsum :: pl_range
  ea_ctxpath :: pl_range
  ea_ev :: pl_range
  ea_payload :: bytes

text \<open>\<open>ev\<close> are the \<^verbatim>\<open>hdr->msg_size\<close> bytes of the raw kernel event.\<close>

definition fill_eventask_message :: "bytes \<Rightarrow> anoubisd_reply \<Rightarrow> anoubisd_msg_eventask" where
  "fill_eventask_message ev reply =
     (let (b1, er) = do_copy [] ev;
          (b2, cs, path) = do_copy_ident b1 (r_pident reply);
          (b3, ctxcs, ctxpath) = do_copy_ident b2 (r_ctxident reply)
      in \<lparr>ea_rule_id = r_rule_id reply, ea_prio = r_prio reply, ea_sfsmatch = r_sfsmatch reply,
          ea_error = (if r_ask reply then None else r_reply reply), ea_loglevel = r_log reply,
          ea_csum = cs, ea_path = path, ea_ctxcsum = ctxcs, ea_ctxpath = ctxpath, ea_ev = er, ea_payload = b3\<rparr>)"

text \<open>The message for the clients; \<open>copy_range\<close> is \<^verbatim>\<open>do_copy\<close> of \<^verbatim>\<open>session.c\<close>.\<close>

record notify_message =
  no_rule_id :: nat
  no_prio :: nat
  no_sfsmatch :: sfs_match
  no_error :: "errno option"
  no_loglevel :: apn_log_level
  no_ev :: pl_range
  no_csum :: pl_range
  no_path :: pl_range
  no_ctxcsum :: pl_range
  no_ctxpath :: pl_range
  no_payload :: bytes

definition copy_range :: "bytes \<Rightarrow> bytes \<Rightarrow> nat \<Rightarrow> nat \<Rightarrow> bytes \<times> pl_range" where
  "copy_range dst src srcoff len =
     (dst @ take len (drop srcoff src), \<lparr>pl_off = of_nat (length dst), pl_len = of_nat len\<rparr>)"

definition eventask_to_notify :: "nat \<Rightarrow> (bytes \<Rightarrow> nat) \<Rightarrow> anoubisd_msg_eventask \<Rightarrow> notify_message" where
  "eventask_to_notify hdrlen msg_size ask =
     (let hdr = drop (unat (pl_off (ea_ev ask))) (ea_payload ask);
          extra = msg_size hdr - hdrlen;
          copy = (\<lambda>buf r. copy_range buf (ea_payload ask) (unat (pl_off r)) (unat (pl_len r)));
          (b1, er) = copy_range [] hdr hdrlen extra;
          (b2, cs) = copy b1 (ea_csum ask);
          (b3, path) = copy b2 (ea_path ask);
          (b4, ctxcs) = copy b3 (ea_ctxcsum ask);
          (b5, ctxpath) = copy b4 (ea_ctxpath ask)
      in \<lparr>no_rule_id = ea_rule_id ask, no_prio = ea_prio ask, no_sfsmatch = ea_sfsmatch ask,
          no_error = ea_error ask, no_loglevel = ea_loglevel ask, no_ev = er, no_csum = cs, no_path = path,
          no_ctxcsum = ctxcs, no_ctxpath = ctxpath, no_payload = b5\<rparr>)"

text \<open>What a reader of a message finds in a range.\<close>

definition range_data :: "bytes \<Rightarrow> pl_range \<Rightarrow> bytes" where
  "range_data payload r = take (unat (pl_len r)) (drop (unat (pl_off r)) payload)"

definition ident_csum :: "pe_proc_ident option \<Rightarrow> bytes" where
  "ident_csum i = (case i of None \<Rightarrow> [] | Some x \<Rightarrow> id_csum x)"

definition ident_path :: "pe_proc_ident option \<Rightarrow> bytes" where
  "ident_path i = (case i of None \<Rightarrow> [] | Some x \<Rightarrow> path_bytes (pathhint x))"

subsection \<open>Reading back what was written\<close>

lemma unat_u16: "n < 65536 \<Longrightarrow> unat (of_nat n :: u16) = n"
  by (simp add: unat_of_nat take_bit_nat_eq_self)

lemma ident_size: "pident_size i = length (ident_csum i) + length (ident_path i)"
  by (simp add: pident_size_def ident_csum_def ident_path_def path_bytes_def split: option.split)

lemma copy_ident_ranges:
  "do_copy_ident buf i = (buf @ ident_csum i @ ident_path i,
     \<lparr>pl_off = of_nat (length buf), pl_len = of_nat (length (ident_csum i))\<rparr>,
     \<lparr>pl_off = of_nat (length buf + length (ident_csum i)), pl_len = of_nat (length (ident_path i))\<rparr>)"
  by (simp add: do_copy_ident_def do_copy_def ident_csum_def ident_path_def split: option.split)

lemma range_data_at:
  assumes "length a + length b < 65536"
  shows "range_data (a @ b @ c) \<lparr>pl_off = of_nat (length a), pl_len = of_nat (length b)\<rparr> = b"
  using assms unat_u16 [of "length a"] unat_u16 [of "length b"] by (simp add: range_data_def)

lemma copy_range_data:
  "copy_range buf pl (unat (pl_off r)) (unat (pl_len r)) =
     (buf @ range_data pl r, \<lparr>pl_off = of_nat (length buf), pl_len = pl_len r\<rparr>)"
  by (simp add: copy_range_def range_data_def)

text \<open>The five pieces of an escalation message, in the order in which they are stored.\<close>

lemma fill_eventask_ranges:
  assumes "length ev + pident_size (r_pident r) + pident_size (r_ctxident r) < 65536"
  shows "range_data (ea_payload (fill_eventask_message ev r)) (ea_ev (fill_eventask_message ev r)) = ev"
    and "range_data (ea_payload (fill_eventask_message ev r)) (ea_csum (fill_eventask_message ev r)) = ident_csum (r_pident r)"
    and "range_data (ea_payload (fill_eventask_message ev r)) (ea_path (fill_eventask_message ev r)) = ident_path (r_pident r)"
    and "range_data (ea_payload (fill_eventask_message ev r)) (ea_ctxcsum (fill_eventask_message ev r)) =
      ident_csum (r_ctxident r)"
    and "range_data (ea_payload (fill_eventask_message ev r)) (ea_ctxpath (fill_eventask_message ev r)) =
      ident_path (r_ctxident r)"
proof -
  let ?c = "ident_csum (r_pident r)" and ?p = "ident_path (r_pident r)"
  let ?cc = "ident_csum (r_ctxident r)" and ?cp = "ident_path (r_ctxident r)"
  note s = assms [unfolded ident_size]
  have pl: "ea_payload (fill_eventask_message ev r) = ev @ ?c @ ?p @ ?cc @ ?cp"
    by (simp add: fill_eventask_message_def do_copy_def copy_ident_ranges)
  show "range_data (ea_payload (fill_eventask_message ev r)) (ea_ev (fill_eventask_message ev r)) = ev"
    using range_data_at [of "[]" ev] s unfolding pl by (simp add: fill_eventask_message_def do_copy_def copy_ident_ranges)
  show "range_data (ea_payload (fill_eventask_message ev r)) (ea_csum (fill_eventask_message ev r)) = ?c"
    using range_data_at [of ev ?c] s unfolding pl by (simp add: fill_eventask_message_def do_copy_def copy_ident_ranges)
  show "range_data (ea_payload (fill_eventask_message ev r)) (ea_path (fill_eventask_message ev r)) = ?p"
    using range_data_at [of "ev @ ?c" ?p "?cc @ ?cp"] s unfolding pl
    by (simp add: fill_eventask_message_def do_copy_def copy_ident_ranges)
  show "range_data (ea_payload (fill_eventask_message ev r)) (ea_ctxcsum (fill_eventask_message ev r)) = ?cc"
    using range_data_at [of "ev @ ?c @ ?p" ?cc ?cp] s unfolding pl
    by (simp add: fill_eventask_message_def do_copy_def copy_ident_ranges)
  show "range_data (ea_payload (fill_eventask_message ev r)) (ea_ctxpath (fill_eventask_message ev r)) = ?cp"
    using range_data_at [of "ev @ ?c @ ?p @ ?cc" ?cp "[]"] s unfolding pl
    by (simp add: fill_eventask_message_def do_copy_def copy_ident_ranges add.assoc)
qed


lemma eventask_to_notify_ranges:
  fixes ask hdrlen msg_size
  defines "hdr \<equiv> drop (unat (pl_off (ea_ev ask))) (ea_payload ask)"
  defines "x \<equiv> take (msg_size hdr - hdrlen) (drop hdrlen hdr)"
    and "d \<equiv> range_data (ea_payload ask)"
  assumes "length x = msg_size hdr - hdrlen"
    and "\<forall>r\<in>{ea_csum ask, ea_path ask, ea_ctxcsum ask, ea_ctxpath ask}. length (d r) = unat (pl_len r)"
    and "length x + length (d (ea_csum ask)) + length (d (ea_path ask)) + length (d (ea_ctxcsum ask)) +
      length (d (ea_ctxpath ask)) < 65536"
  defines "no \<equiv> eventask_to_notify hdrlen msg_size ask"
  shows "range_data (no_payload no) (no_ev no) = x" and "range_data (no_payload no) (no_csum no) = d (ea_csum ask)"
    and "range_data (no_payload no) (no_path no) = d (ea_path ask)"
    and "range_data (no_payload no) (no_ctxcsum no) = d (ea_ctxcsum ask)"
    and "range_data (no_payload no) (no_ctxpath no) = d (ea_ctxpath ask)"
proof -
  let ?c = "d (ea_csum ask)" and ?p = "d (ea_path ask)" and ?cc = "d (ea_ctxcsum ask)" and ?cp = "d (ea_ctxpath ask)"
  have l: "pl_len r = of_nat (length (d r))" if "r \<in> {ea_csum ask, ea_path ask, ea_ctxcsum ask, ea_ctxpath ask}" for r
    using assms(5) that by auto
  have no: "no_payload no = x @ ?c @ ?p @ ?cc @ ?cp"
    "no_ev no = \<lparr>pl_off = of_nat (length ([] :: bytes)), pl_len = of_nat (length x)\<rparr>"
    "no_csum no = \<lparr>pl_off = of_nat (length x), pl_len = of_nat (length ?c)\<rparr>"
    "no_path no = \<lparr>pl_off = of_nat (length (x @ ?c)), pl_len = of_nat (length ?p)\<rparr>"
    "no_ctxcsum no = \<lparr>pl_off = of_nat (length (x @ ?c @ ?p)), pl_len = of_nat (length ?cc)\<rparr>"
    "no_ctxpath no = \<lparr>pl_off = of_nat (length (x @ ?c @ ?p @ ?cc)), pl_len = of_nat (length ?cp)\<rparr>"
    using l [of "ea_csum ask"] l [of "ea_path ask"] l [of "ea_ctxcsum ask"] l [of "ea_ctxpath ask"] assms(4)
    unfolding no_def eventask_to_notify_def Let_def copy_range_data hdr_def [symmetric] d_def [symmetric]
    by (simp_all add: copy_range_def x_def add.assoc)
  show "range_data (no_payload no) (no_ev no) = x" unfolding no
    using range_data_at [of "[]" x "?c @ ?p @ ?cc @ ?cp"] assms(6) by simp
  show "range_data (no_payload no) (no_csum no) = ?c" unfolding no
    using range_data_at [of x ?c "?p @ ?cc @ ?cp"] assms(6) by simp
  show "range_data (no_payload no) (no_path no) = ?p" unfolding no
    using range_data_at [of "x @ ?c" ?p "?cc @ ?cp"] assms(6) by simp
  show "range_data (no_payload no) (no_ctxcsum no) = ?cc" unfolding no
    using range_data_at [of "x @ ?c @ ?p" ?cc ?cp] assms(6) by simp
  show "range_data (no_payload no) (no_ctxpath no) = ?cp" unfolding no
    using range_data_at [of "x @ ?c @ ?p @ ?cc" ?cp "[]"] assms(6) by simp
qed


lemma fill_eventask_lens:
  assumes "length ev + pident_size (r_pident r) + pident_size (r_ctxident r) < 65536"
  shows "unat (pl_len (ea_csum (fill_eventask_message ev r))) = length (ident_csum (r_pident r))"
    and "unat (pl_len (ea_path (fill_eventask_message ev r))) = length (ident_path (r_pident r))"
    and "unat (pl_len (ea_ctxcsum (fill_eventask_message ev r))) = length (ident_csum (r_ctxident r))"
    and "unat (pl_len (ea_ctxpath (fill_eventask_message ev r))) = length (ident_path (r_ctxident r))"
    and "pl_off (ea_ev (fill_eventask_message ev r)) = 0"
  using assms [unfolded ident_size]
  by (simp_all add: fill_eventask_message_def do_copy_def copy_ident_ranges unat_u16)

subsection \<open>Policy files\<close>

record anoubisd_msg_polreply =
  pr_token :: u64
  pr_start :: bool
  pr_end :: bool
  pr_data :: bytes

text \<open>
  \<open>data\<close> is the rest of the file, \<open>fails k\<close> the error of the \<open>k\<close>-th call of \<^verbatim>\<open>read\<close> from now on. The
  result is the list of queued messages and the return value.
\<close>

function send_policy_data ::
    "u64 \<Rightarrow> bool \<Rightarrow> (nat \<Rightarrow> errno option) \<Rightarrow> bytes \<Rightarrow> anoubisd_msg_polreply list \<times> errno option" where
  "send_policy_data token start fails data =
     (case fails 0 of
        Some e \<Rightarrow> ([], Some e)
      | None \<Rightarrow>
          (if data = [] then ([\<lparr>pr_token = token, pr_start = start, pr_end = True, pr_data = []\<rparr>], None)
           else (case send_policy_data token False (\<lambda>k. fails (Suc k)) (drop 3000 data) of
                   (msgs, ret) \<Rightarrow>
                     (\<lparr>pr_token = token, pr_start = start, pr_end = False, pr_data = take 3000 data\<rparr> # msgs, ret))))"
  by pat_completeness auto
termination by (relation "measure (\<lambda>(token, start, fails, data). length data)") auto

declare send_policy_data.simps [simp del]

lemma policy_data_sent:
  assumes "\<forall>k. fails k = None"
  shows "\<exists>msgs. send_policy_data token start fails data = (msgs, None) \<and> msgs \<noteq> [] \<and>
    concat (map pr_data msgs) = data \<and> pr_start (hd msgs) = start \<and> (\<forall>m\<in>set (tl msgs). \<not> pr_start m) \<and>
    pr_end (last msgs) \<and> (\<forall>m\<in>set (butlast msgs). \<not> pr_end m) \<and>
    (\<forall>m\<in>set msgs. pr_token m = token \<and> length (pr_data m) \<le> 3000)"
  using assms
proof (induction token start fails data rule: send_policy_data.induct)
  case (1 token start fails data)
  show ?case
  proof (cases "data = []")
    case False
    then obtain msgs where m: "send_policy_data token False (\<lambda>k. fails (Suc k)) (drop 3000 data) = (msgs, None)"
      "msgs \<noteq> []" "concat (map pr_data msgs) = drop 3000 data" "pr_start (hd msgs) = False"
      "\<forall>m\<in>set (tl msgs). \<not> pr_start m" "pr_end (last msgs)" "\<forall>m\<in>set (butlast msgs). \<not> pr_end m"
      "\<forall>m\<in>set msgs. pr_token m = token \<and> length (pr_data m) \<le> 3000"
      using 1(1) [OF _ False] 1(2) by auto
    have "\<forall>m\<in>set msgs. \<not> pr_start m" using m(2,4,5) by (cases msgs) simp_all
    moreover have "send_policy_data token start fails data =
        (\<lparr>pr_token = token, pr_start = start, pr_end = False, pr_data = take 3000 data\<rparr> # msgs, None)"
      unfolding send_policy_data.simps [of token start fails data] m(1) using False 1(2) by simp
    ultimately show ?thesis using m(2,3,6-8) by simp
  qed (use 1(2) in \<open>simp add: send_policy_data.simps [of _ _ _ "[]"]\<close>)
qed

subsection \<open>Properties\<close>

text \<open>
  C26. An escalation reaches the client intact. The message that the session engine builds from the
  message of the policy engine holds the event without its header, the checksum and path of the process
  and those of its context, each in its own range, provided the five parts fit into 16 bit offsets.
\<close>

theorem eventask_roundtrip:
  assumes "length ev + pident_size (r_pident r) + pident_size (r_ctxident r) < 65536"
    and "hdrlen \<le> length ev" and "\<forall>b. msg_size (ev @ b) = length ev"
    and "no = eventask_to_notify hdrlen msg_size (fill_eventask_message ev r)"
  shows "range_data (no_payload no) (no_ev no) = drop hdrlen ev \<and>
    range_data (no_payload no) (no_csum no) = ident_csum (r_pident r) \<and>
    range_data (no_payload no) (no_path no) = ident_path (r_pident r) \<and>
    range_data (no_payload no) (no_ctxcsum no) = ident_csum (r_ctxident r) \<and>
    range_data (no_payload no) (no_ctxpath no) = ident_path (r_ctxident r)"
proof -
  let ?ask = "fill_eventask_message ev r"
  note rd = fill_eventask_ranges [OF assms(1)] and ln = fill_eventask_lens [OF assms(1)]
  have "\<exists>b. ea_payload ?ask = ev @ b" by (simp add: fill_eventask_message_def do_copy_def copy_ident_ranges)
  then obtain b where hdr: "drop (unat (pl_off (ea_ev ?ask))) (ea_payload ?ask) = ev @ b" using ln(5) by auto
  have x: "take (msg_size (ev @ b) - hdrlen) (drop hdrlen (ev @ b)) = drop hdrlen ev"
    "length (drop hdrlen ev) = msg_size (ev @ b) - hdrlen"
    using assms(2,3) by simp_all
  note s = assms(1) [unfolded ident_size]
  show ?thesis unfolding assms(4)
    using eventask_to_notify_ranges [where ask = ?ask and msg_size = msg_size and hdrlen = hdrlen, unfolded hdr x(1) rd, OF x(2)] ln(1-4) rd s by simp
qed

definition demo_ask :: anoubisd_reply where
  "demo_ask = (make_reply (demo_sfs_state None) None APN_ACTION_ASK APN_LOG_NONE 4 0 ANOUBIS_SFS_NONE)
     \<lparr>r_pident := Some \<lparr>id_csum = [1, 2], pathhint = Some ''/bin/sh''\<rparr>\<rparr>"

theorem eventask_roundtrip_witness:
  "range_data (no_payload (eventask_to_notify 2 (\<lambda>b. 4) (fill_eventask_message [4, 0, 7, 8] demo_ask)))
     (no_csum (eventask_to_notify 2 (\<lambda>b. 4) (fill_eventask_message [4, 0, 7, 8] demo_ask))) = [1, 2]"
  using eventask_roundtrip [of "[4, 0, 7, 8]" demo_ask 2 "\<lambda>b. 4", OF _ _ _ refl]
  by (simp add: demo_ask_def make_reply_def pident_size_def ident_csum_def pe_context_get_ident_def
      pe_proc_get_context_def)

text \<open>
  C31. A policy file is sent completely: if no read fails, the data of the queued messages in their order
  is the contents of the file, only the first message has the start flag, only the last one the end
  flag, all carry the token of the request and at most 3000 bytes.
\<close>

theorem policy_file_roundtrip:
  assumes "\<forall>k. fails k = None"
  shows "\<exists>msgs. send_policy_data token True fails data = (msgs, None) \<and> concat (map pr_data msgs) = data \<and>
    msgs \<noteq> [] \<and> pr_start (hd msgs) \<and> (\<forall>m\<in>set (tl msgs). \<not> pr_start m) \<and>
    pr_end (last msgs) \<and> (\<forall>m\<in>set (butlast msgs). \<not> pr_end m) \<and>
    (\<forall>m\<in>set msgs. pr_token m = token \<and> length (pr_data m) \<le> 3000)"
  using policy_data_sent [OF assms, of token True data] by auto

theorem policy_file_roundtrip_witness:
  "\<exists>msgs. send_policy_data 7 True (\<lambda>k. None) [1, 2, 3] = (msgs, None) \<and> concat (map pr_data msgs) = [1, 2, 3]"
  using policy_file_roundtrip [of "\<lambda>k. None" 7 "[1, 2, 3]"] by auto

end
