(* ===== verification/Policy.thy ===== *)
theory Policy
  imports Engine Messages
begin

text \<open>
  The event loop of the policy process, \<^verbatim>\<open>src/src/anoubisd/policy.c\<close>: dispatching of the messages of
  master and session engine, pending escalations and their timeouts, held replies during upgrades, transfer
  of the list of upgraded files and the stages of termination.

  \<open>p2m\<close> and \<open>p2s\<close> are the messages queued for the master and the session engine since the start; the
  write handlers send them in this order. A result \<open>None\<close> is a crash or the termination of the daemon.
\<close>

type_synonym token = u32

text \<open>
  The reply to a kernel event, a 32 bit number in the source: the flags that the kernel interface defines, and
  the rest of the number, which is the error code.
\<close>

record ret_flags =
  need_secureexec :: bool
  need_playground :: bool
  open_lockwatch :: bool

record ret =
  ret_error :: int
  ret_flags :: ret_flags

fun errno_code :: "errno \<Rightarrow> int" where
  "errno_code EPERM = 1"
| "errno_code ENOENT = 2"
| "errno_code EIO = 5"
| "errno_code ENOMEM = 12"
| "errno_code EFAULT = 14"
| "errno_code EXDEV = 18"
| "errno_code EINVAL = 22"
| "errno_code E2BIG = 7"
| "errno_code EEXIST = 17"
| "errno_code ENOTDIR = 20"
| "errno_code ENOSPC = 28"
| "errno_code ENAMETOOLONG = 36"
| "errno_code ENOSYS = 38"
| "errno_code EMSGSIZE = 90"
| "errno_code EOPNOTSUPP = 95"
| "errno_code A_EPERM_NO_CERTIFICATE = 1024"
| "errno_code A_EPERM_UID_MISMATCH = 1025"

definition no_flags :: ret_flags where
  "no_flags = \<lparr>need_secureexec = False, need_playground = False, open_lockwatch = False\<rparr>"

definition reply_ret :: "anoubisd_reply \<Rightarrow> ret" where
  "reply_ret r = \<lparr>ret_error = (case r_reply r of None \<Rightarrow> 0 | Some e \<Rightarrow> errno_code e),
     ret_flags = \<lparr>need_secureexec = r_secureexec r, need_playground = r_playground r, open_lockwatch = r_lockwatch r\<rparr>\<rparr>"

definition or_flags :: "ret \<Rightarrow> ret_flags \<Rightarrow> ret" where
  "or_flags v f = v\<lparr>ret_flags := \<lparr>need_secureexec = need_secureexec (ret_flags v) \<or> need_secureexec f,
     need_playground = need_playground (ret_flags v) \<or> need_playground f,
     open_lockwatch = open_lockwatch (ret_flags v) \<or> open_lockwatch f\<rparr>\<rparr>"

record reply_wait =
  rw_token :: token
  rw_flags :: ret_flags
  rw_starttime :: int
  rw_timeout :: int
  rw_log :: apn_log_level

datatype m_msg =
    ANOUBISD_MSG_EVENTREPLY token ret
  | ANOUBISD_UPGRADE_START
  | ANOUBISD_UPGRADE_CHUNK bytes
  | ANOUBISD_MSG_PGCOMMIT pgcommit

datatype s_msg =
    ANOUBISD_MSG_EVENTASK token anoubisd_msg_eventask
  | ANOUBISD_MSG_LOGREQUEST lognotify
  | ANOUBISD_MSG_EVENTCANCEL token
  | ANOUBISD_MSG_PGCOMMIT_REPLY u64
  | ANOUBISD_MSG_PGCOMMIT_ERROR u64 pg_error
  | ANOUBISD_MSG_PGUNLINK_REPLY "pg_error option"

record policy =
  engine :: pe
  p2m :: "m_msg list"
  p2m_hold :: "(token \<times> ret) list"
  p2s :: "s_msg list"
  replyq :: "reply_wait list"
  terminate :: nat
  timer_set :: bool

subsection \<open>Timeouts and termination\<close>

text \<open>The error code of a timeout is \<^verbatim>\<open>EPERM\<close>, and the flags of the event are not added.\<close>

definition deny_ret :: ret where
  "deny_ret = \<lparr>ret_error = errno_code EPERM, ret_flags = no_flags\<rparr>"

fun timer_loop :: "int \<Rightarrow> reply_wait list \<Rightarrow> policy \<Rightarrow> policy" where
  "timer_loop now [] p = p"
| "timer_loop now (w # ws) p =
     (if terminate p < 3 \<and> now < rw_starttime w + rw_timeout w then timer_loop now ws p
      else timer_loop now ws
        (p\<lparr>p2m := p2m p @ [ANOUBISD_MSG_EVENTREPLY (rw_token w) deny_ret],
           p2s := p2s p @ [ANOUBISD_MSG_EVENTCANCEL (rw_token w)], replyq := remove1 w (replyq p)\<rparr>))"

definition dispatch_timer :: "int \<Rightarrow> policy \<Rightarrow> policy" where
  "dispatch_timer now p =
     (let p1 = timer_loop now (replyq p) p
      in if terminate p1 < 3 then p1\<lparr>timer_set := True\<rparr> else p1)"

lemma terminate_timer_loop [simp]: "terminate (timer_loop now ws p) = terminate p"
  by (induction ws arbitrary: p) simp_all

lemma terminate_timer [simp]: "terminate (dispatch_timer now p) = terminate p"
  by (simp add: dispatch_timer_def Let_def)

function set_terminate :: "nat \<Rightarrow> int \<Rightarrow> policy \<Rightarrow> policy" where
  "set_terminate n now p =
     (if terminate p < n then
        set_terminate n now
          (let p1 = p\<lparr>terminate := terminate p + 1\<rparr>
           in if terminate p1 = 1 then p1\<lparr>timer_set := False\<rparr>
              else if terminate p1 = 3 then dispatch_timer now p1
              else p1)
      else p)"
  by pat_completeness auto
termination
  by (relation "measure (\<lambda>(n, now, p). n - terminate p)") (auto simp: Let_def)

declare set_terminate.simps [simp del]

subsection \<open>Messages of the master\<close>

record sfscache_invalidate =
  inv_uid :: uid
  inv_keylen :: nat
  inv_plen :: nat
  inv_payload :: string

text \<open>The terminators that the code writes into the payload; the verified message has a path.\<close>

definition dispatch_sfscache_invalidate :: "sfscache_invalidate \<Rightarrow> policy \<Rightarrow> policy" where
  "dispatch_sfscache_invalidate m p =
     (if length (inv_payload m) < inv_keylen m + inv_plen m then p
      else
        (let buf = (inv_payload m)[inv_plen m - 1 := NUL, inv_plen m + inv_keylen m - 1 := NUL];
             path = c_string buf;
             s = engine p
         in if inv_keylen m \<noteq> 0
            then p\<lparr>engine := s\<lparr>cache := sfshash_invalidate_key path (c_string (drop (inv_plen m) buf)) (cache s)\<rparr>\<rparr>
            else p\<lparr>engine := s\<lparr>cache := sfshash_invalidate_uid path (inv_uid m) (cache s)\<rparr>\<rparr>))"

function policy_upgrade_fill_chunk :: "nat \<Rightarrow> bytes \<Rightarrow> pe \<Rightarrow> bytes \<times> pe" where
  "policy_upgrade_fill_chunk maxlen buf s =
     (case pe_upgrade_filelist_get s of
        (None, s1) \<Rightarrow> (buf, s1)
      | (Some node, s1) \<Rightarrow>
          (if length buf + (length (ft_path node) + 1) > maxlen then (buf, s1)
           else policy_upgrade_fill_chunk maxlen (buf @ path_bytes (Some (ft_path node))) (pe_upgrade_filelist_next s1)))"
  by pat_completeness auto
termination
  by (relation "measure (\<lambda>(maxlen, buf, s). maxlen - length buf)") (auto simp: path_bytes_def)

declare policy_upgrade_fill_chunk.simps [simp del]

definition send_upgrade_chunk :: "policy \<Rightarrow> policy" where
  "send_upgrade_chunk p =
     (case policy_upgrade_fill_chunk PATH_MAX [] (engine p) of
        (buf, s) \<Rightarrow> p\<lparr>engine := s, p2m := p2m p @ [ANOUBISD_UPGRADE_CHUNK buf]\<rparr>)"

datatype upgrade_msg = UPGRADE_CHUNK_REQ | UPGRADE_END | UPGRADE_OK bool | UPGRADE_OTHER

definition dispatch_upgrade :: "upgrade_msg \<Rightarrow> policy \<Rightarrow> policy" where
  "dispatch_upgrade m p =
     (case m of
        UPGRADE_CHUNK_REQ \<Rightarrow> send_upgrade_chunk p
      | UPGRADE_END \<Rightarrow>
          p\<lparr>engine := pe_proc_release (pe_upgrade_finish (engine p)),
            p2m := p2m p @ map (\<lambda>(t, r). ANOUBISD_MSG_EVENTREPLY t r) (p2m_hold p), p2m_hold := []\<rparr>
      | UPGRADE_OK v \<Rightarrow> p\<lparr>engine := (engine p)\<lparr>upgrade_ok := v\<rparr>\<rparr>
      | UPGRADE_OTHER \<Rightarrow> p)"

record eventdev =
  ed_token :: token
  ed_need_reply :: bool
  ed_raw :: bytes

text \<open>Event sources that are handled although the kernel does not wait for a reply.\<close>

definition notify_source :: "kernel_event \<Rightarrow> bool" where
  "notify_source ev =
     (case ev of EV_PROCESS _ \<Rightarrow> True | EV_SFSEXEC _ \<Rightarrow> True | EV_IPC _ \<Rightarrow> True | EV_PLAYGROUNDPROC _ _ \<Rightarrow> True
      | EV_PLAYGROUNDFILE _ _ \<Rightarrow> True | _ \<Rightarrow> False)"

text \<open>What the engine queues itself while it handles an event: start of an upgrade, log messages.\<close>

definition engine_result :: "pe \<Rightarrow> lognotify list \<Rightarrow> policy \<Rightarrow> policy" where
  "engine_result s' ns p =
     p\<lparr>engine := s', p2m := p2m p @ replicate (upgrade_msgs s' - upgrade_msgs (engine p)) ANOUBISD_UPGRADE_START,
       p2s := p2s p @ map ANOUBISD_MSG_LOGREQUEST ns\<rparr>"

definition policy_reply :: "eventdev \<Rightarrow> anoubisd_reply \<Rightarrow> int option \<Rightarrow> policy \<Rightarrow> policy option" where
  "policy_reply hdr reply now p =
     (if r_ask reply then
        (case now of
           None \<Rightarrow> None
         | Some t \<Rightarrow>
             Some (p\<lparr>replyq := replyq p @ [\<lparr>rw_token = ed_token hdr, rw_flags = ret_flags (reply_ret reply),
                         rw_starttime = t, rw_timeout = r_timeout reply, rw_log = r_log reply\<rparr>],
                     p2s := p2s p @ [ANOUBISD_MSG_EVENTASK (ed_token hdr) (fill_eventask_message (ed_raw hdr) reply)]\<rparr>))
      else if r_hold reply then Some (p\<lparr>p2m_hold := p2m_hold p @ [(ed_token hdr, reply_ret reply)]\<rparr>)
      else Some (p\<lparr>p2m := p2m p @ [ANOUBISD_MSG_EVENTREPLY (ed_token hdr) (reply_ret reply)]\<rparr>))"

text \<open>The state after an event and whether the engine had a reply for it.\<close>

definition dispatch_eventdev ::
    "pe_env \<Rightarrow> int option \<Rightarrow> u64 \<Rightarrow> anoubisd_reply \<Rightarrow> eventdev \<Rightarrow> kernel_event \<Rightarrow> policy \<Rightarrow> (bool \<times> policy) option" where
  "dispatch_eventdev en now tm junk hdr ev p =
     (if \<not> ed_need_reply hdr \<and> \<not> notify_source ev then Some (False, p)
      else case pe_dispatch_event en now tm junk ev (engine p) of
        None \<Rightarrow> None
      | Some ((None, ns), s') \<Rightarrow> Some (False, engine_result s' ns p)
      | Some ((Some reply, ns), s') \<Rightarrow>
          (case policy_reply hdr reply now (engine_result s' ns p) of None \<Rightarrow> None | Some p' \<Rightarrow> Some (True, p')))"

datatype m2p_msg =
    M2P_SFSCACHE_INVALIDATE sfscache_invalidate
  | M2P_EVENTDEV eventdev kernel_event
  | M2P_UPGRADE upgrade_msg
  | M2P_CONFIG pe_policy_db
  | M2P_PGCOMMIT_REPLY u64
  | M2P_OTHER

definition dispatch_m2p ::
    "pe_env \<Rightarrow> int option \<Rightarrow> u64 \<Rightarrow> anoubisd_reply \<Rightarrow> m2p_msg \<Rightarrow> policy \<Rightarrow> (bool \<times> policy) option" where
  "dispatch_m2p en now tm junk msg p =
     (case msg of
        M2P_SFSCACHE_INVALIDATE m \<Rightarrow> Some (False, dispatch_sfscache_invalidate m p)
      | M2P_EVENTDEV hdr ev \<Rightarrow> dispatch_eventdev en now tm junk hdr ev p
      | M2P_UPGRADE m \<Rightarrow> Some (False, dispatch_upgrade m p)
      | M2P_CONFIG newdb \<Rightarrow> Some (False, p\<lparr>engine := pe_reconfigure en newdb (engine p)\<rparr>)
      | M2P_PGCOMMIT_REPLY tok \<Rightarrow>
          Some (False, p\<lparr>engine := (engine p)\<lparr>pgs := pe_playground_dispatch_commitreply tok (pgs (engine p))\<rparr>,
                         p2s := p2s p @ [ANOUBISD_MSG_PGCOMMIT_REPLY tok]\<rparr>)
      | M2P_OTHER \<Rightarrow> Some (False, p))"

subsection \<open>Messages of the session engine\<close>

definition dispatch_eventreply :: "token \<Rightarrow> ret \<Rightarrow> policy \<Rightarrow> policy" where
  "dispatch_eventreply tok v p =
     (case find (\<lambda>w. rw_token w = tok) (replyq p) of
        None \<Rightarrow> p
      | Some w \<Rightarrow> p\<lparr>replyq := remove1 w (replyq p),
                    p2m := p2m p @ [ANOUBISD_MSG_EVENTREPLY tok (or_flags v (rw_flags w))]\<rparr>)"

text \<open>Policy requests and list requests are the subject of other parts of the process.\<close>

datatype s2p_msg =
    S2P_EVENTREPLY token ret
  | S2P_PGCOMMIT pgcommit
  | S2P_PGUNLINK cookie uid u64 u64
  | S2P_OTHER

definition dispatch_s2p :: "s2p_msg \<Rightarrow> policy \<Rightarrow> policy" where
  "dispatch_s2p msg p =
     (case msg of
        S2P_EVENTREPLY tok v \<Rightarrow> dispatch_eventreply tok v p
      | S2P_PGCOMMIT m \<Rightarrow>
          (case pe_playground_dispatch_commit m (pgs (engine p)) of
             (Inl e, g) \<Rightarrow> p\<lparr>engine := (engine p)\<lparr>pgs := g\<rparr>, p2s := p2s p @ [ANOUBISD_MSG_PGCOMMIT_ERROR (c_token m) e]\<rparr>
           | (Inr m', g) \<Rightarrow> p\<lparr>engine := (engine p)\<lparr>pgs := g\<rparr>, p2m := p2m p @ [ANOUBISD_MSG_PGCOMMIT m']\<rparr>)
      | S2P_PGUNLINK g u dev ino \<Rightarrow>
          (case pe_playground_dispatch_unlink g u dev ino (pgs (engine p)) of
             (r, g') \<Rightarrow> p\<lparr>engine := (engine p)\<lparr>pgs := g'\<rparr>, p2s := p2s p @ [ANOUBISD_MSG_PGUNLINK_REPLY r]\<rparr>)
      | S2P_OTHER \<Rightarrow> p)"


subsection \<open>Runs\<close>

definition policy_init :: "pe_policy_db \<Rightarrow> pg_state \<Rightarrow> policy" where
  "policy_init db pg = \<lparr>engine = pe_init db pg, p2m = [], p2m_hold = [], p2s = [], replyq = [], terminate = 0,
     timer_set = True\<rparr>"

definition msg_token :: "m2p_msg \<Rightarrow> token" where
  "msg_token m = (case m of M2P_EVENTDEV hdr ev \<Rightarrow> ed_token hdr | _ \<Rightarrow> 0)"

text \<open>\<open>policy_run acc p\<close>: \<open>acc\<close> are the tokens of the events for which the engine had a reply, in their order.\<close>

inductive policy_run :: "token list \<Rightarrow> policy \<Rightarrow> bool" where
  init: "policy_run [] (policy_init db pg)"
| m2p: "policy_run acc p \<Longrightarrow> dispatch_m2p en now tm junk msg p = Some (replied, p') \<Longrightarrow>
    policy_run (if replied then acc @ [msg_token msg] else acc) p'"
| s2p: "policy_run acc p \<Longrightarrow> policy_run acc (dispatch_s2p msg p)"
| timer: "policy_run acc p \<Longrightarrow> policy_run acc (dispatch_timer now p)"
| stop: "policy_run acc p \<Longrightarrow> policy_run acc (set_terminate n now p)"

fun reply_tokens :: "m_msg list \<Rightarrow> token list" where
  "reply_tokens [] = []"
| "reply_tokens (ANOUBISD_MSG_EVENTREPLY t r # ms) = t # reply_tokens ms"
| "reply_tokens (_ # ms) = reply_tokens ms"

text \<open>Where the tokens of events are: answered, held back, or waiting for the user.\<close>

definition tokens :: "policy \<Rightarrow> token multiset" where
  "tokens p = mset (reply_tokens (p2m p)) + mset (map fst (p2m_hold p)) + mset (map rw_token (replyq p))"

lemma reply_tokens_append [simp]: "reply_tokens (xs @ ys) = reply_tokens xs @ reply_tokens ys"
  by (induction xs rule: reply_tokens.induct) simp_all

lemma reply_tokens_start [simp]: "reply_tokens (replicate k ANOUBISD_UPGRADE_START) = []"
  by (induction k) simp_all

lemma reply_tokens_hold [simp]: "reply_tokens (map (\<lambda>(t, r). ANOUBISD_MSG_EVENTREPLY t r) xs) = map fst xs"
  by (induction xs) auto

lemma mset_map_remove1: "w \<in> set ws \<Longrightarrow> add_mset (f w) (mset (map f (remove1 w ws))) = mset (map f ws)"
  by (induction ws) auto

text \<open>Answering a waiting event.\<close>

lemma tokens_reply:
  assumes "w \<in> set (replyq p)" and "p2m p' = p2m p @ [ANOUBISD_MSG_EVENTREPLY (rw_token w) v]"
    and "replyq p' = remove1 w (replyq p)" and "p2m_hold p' = p2m_hold p"
  shows "tokens p' = tokens p"
  using mset_map_remove1 [OF assms(1), of rw_token] assms(2-4) by (simp add: tokens_def flip: mset_map_remove1)

lemma timer_loop_tokens:
  assumes "mset ws \<subseteq># mset (replyq p)"
  shows "tokens (timer_loop now ws p) = tokens p"
  using assms
proof (induction ws arbitrary: p)
  case (Cons w ws)
  have w: "w \<in> set (replyq p)" using Cons.prems by (metis list.set_intros(1) mset_subset_eqD set_mset_mset)
  have r: "mset ws \<subseteq># mset (remove1 w (replyq p))" using Cons.prems by (simp add: insert_subset_eq_iff)
  have "mset ws \<subseteq># mset (replyq p)" using Cons.prems by (metis insert_subset_eq_iff mset.simps(2) mset_subset_eq_insertD subset_mset.less_imp_le)
  with Cons.IH [of p] Cons.IH [of "p\<lparr>p2m := p2m p @ [ANOUBISD_MSG_EVENTREPLY (rw_token w) deny_ret],
           p2s := p2s p @ [ANOUBISD_MSG_EVENTCANCEL (rw_token w)], replyq := remove1 w (replyq p)\<rparr>"] r
  show ?case using tokens_reply [OF w] by simp
qed simp

lemma timer_tokens [simp]: "tokens (dispatch_timer now p) = tokens p"
  using timer_loop_tokens [of "replyq p" p now] by (simp add: dispatch_timer_def Let_def tokens_def)

lemma set_terminate_tokens [simp]: "tokens (set_terminate n now p) = tokens p"
proof (induction n now p rule: set_terminate.induct)
  case (1 n now p)
  show ?case
  proof (cases "terminate p < n")
    case True
    with 1 show ?thesis by (subst set_terminate.simps) (simp add: Let_def, simp add: tokens_def)
  qed (simp add: set_terminate.simps)
qed

lemma engine_result_tokens [simp]: "tokens (engine_result s' ns p) = tokens p"
  by (simp add: engine_result_def tokens_def)

lemma policy_reply_tokens:
  "policy_reply hdr reply now p = Some p' \<Longrightarrow> tokens p' = add_mset (ed_token hdr) (tokens p)"
  by (auto simp: policy_reply_def tokens_def split: if_splits option.splits)

lemma dispatch_eventdev_tokens:
  assumes "dispatch_eventdev en now tm junk hdr ev p = Some (replied, p')"
  shows "tokens p' = (if replied then add_mset (ed_token hdr) (tokens p) else tokens p)"
  using assms by (auto simp: dispatch_eventdev_def split: if_splits option.splits dest!: policy_reply_tokens)

lemma dispatch_upgrade_tokens [simp]: "tokens (dispatch_upgrade m p) = tokens p"
  by (simp add: dispatch_upgrade_def send_upgrade_chunk_def tokens_def split: upgrade_msg.split prod.split)

lemma m2p_tokens:
  assumes "dispatch_m2p en now tm junk msg p = Some (replied, p')"
  shows "tokens p' = (if replied then add_mset (msg_token msg) (tokens p) else tokens p)"
proof (cases msg)
  case (M2P_EVENTDEV hdr ev)
  then show ?thesis using assms dispatch_eventdev_tokens by (auto simp: dispatch_m2p_def msg_token_def)
next
  case (M2P_SFSCACHE_INVALIDATE m)
  then show ?thesis using assms
    by (auto simp: dispatch_m2p_def dispatch_sfscache_invalidate_def Let_def tokens_def)
next
  case (M2P_UPGRADE m)
  then show ?thesis using assms by (auto simp: dispatch_m2p_def)
qed (use assms in \<open>auto simp: dispatch_m2p_def tokens_def\<close>)

lemma s2p_tokens [simp]: "tokens (dispatch_s2p msg p) = tokens p"
proof (cases msg)
  case (S2P_EVENTREPLY tok v)
  show ?thesis
  proof (cases "find (\<lambda>w. rw_token w = tok) (replyq p)")
    case (Some w)
    then have w: "w \<in> set (replyq p)" "rw_token w = tok" by (auto simp: find_Some_iff)
    then show ?thesis using Some S2P_EVENTREPLY tokens_reply [OF w(1)]
      by (simp add: dispatch_s2p_def dispatch_eventreply_def)
  qed (use S2P_EVENTREPLY in \<open>simp add: dispatch_s2p_def dispatch_eventreply_def\<close>)
qed (auto simp: dispatch_s2p_def tokens_def split: prod.split sum.split)

lemma policy_run_tokens: "policy_run acc p \<Longrightarrow> tokens p = mset acc"
  by (induction rule: policy_run.induct) (auto simp: policy_init_def tokens_def [of "policy_init _ _"] dest: m2p_tokens, simp add: tokens_def)

subsection \<open>Expired and cancelled events\<close>

definition expired :: "nat \<Rightarrow> int \<Rightarrow> reply_wait \<Rightarrow> bool" where
  "expired n now w \<longleftrightarrow> n \<ge> 3 \<or> rw_starttime w + rw_timeout w \<le> now"

lemma timer_loop_result:
  "timer_loop now ws p = p\<lparr>
     p2m := p2m p @ map (\<lambda>w. ANOUBISD_MSG_EVENTREPLY (rw_token w) deny_ret) (filter (expired (terminate p) now) ws),
     p2s := p2s p @ map (\<lambda>w. ANOUBISD_MSG_EVENTCANCEL (rw_token w)) (filter (expired (terminate p) now) ws),
     replyq := fold remove1 (filter (expired (terminate p) now) ws) (replyq p)\<rparr>"
  by (induction ws arbitrary: p) (auto simp: expired_def)

lemma fold_remove1_filter: "fold remove1 (filter P xs) (filter (\<lambda>x. \<not> P x) pre @ xs) = filter (\<lambda>x. \<not> P x) (pre @ xs)"
proof (induction xs arbitrary: pre)
  case (Cons x xs)
  show ?case
  proof (cases "P x")
    case True
    then have "remove1 x (filter (\<lambda>x. \<not> P x) pre @ x # xs) = filter (\<lambda>x. \<not> P x) pre @ xs" by (simp add: remove1_append)
    with True Cons.IH [of pre] show ?thesis by simp
  next
    case False
    with Cons.IH [of "pre @ [x]"] show ?thesis by simp
  qed
qed simp

lemma dispatch_timer_result:
  fixes p now
  defines "ex \<equiv> filter (expired (terminate p) now) (replyq p)" and "p' \<equiv> dispatch_timer now p"
  shows "p2m p' = p2m p @ map (\<lambda>w. ANOUBISD_MSG_EVENTREPLY (rw_token w) deny_ret) ex"
    and "p2s p' = p2s p @ map (\<lambda>w. ANOUBISD_MSG_EVENTCANCEL (rw_token w)) ex"
    and "replyq p' = filter (\<lambda>w. \<not> expired (terminate p) now w) (replyq p)" and "p2m_hold p' = p2m_hold p"
  using fold_remove1_filter [of "expired (terminate p) now" "replyq p" "[]"]
  by (simp_all add: p'_def ex_def dispatch_timer_def timer_loop_result Let_def)

lemma set_terminate_done: "terminate p \<ge> n \<Longrightarrow> set_terminate n now p = p"
  by (simp add: set_terminate.simps)

text \<open>The last stage of termination cancels all waiting events and leaves the held ones where they are.\<close>

lemma set_terminate_3:
  assumes "terminate p < 3"
  shows "replyq (set_terminate 3 now p) = []" and "p2m_hold (set_terminate 3 now p) = p2m_hold p"
    and "p2m (set_terminate 3 now p) = p2m p @ map (\<lambda>w. ANOUBISD_MSG_EVENTREPLY (rw_token w) deny_ret) (replyq p)"
    and "terminate (set_terminate 3 now p) = 3"
proof -
  have stage3: "set_terminate 3 now q = dispatch_timer now (q\<lparr>terminate := 3\<rparr>)" if "terminate q = 2" for q
    using that by (subst set_terminate.simps) (simp add: Let_def set_terminate_done)
  have last: "replyq (set_terminate 3 now q) = [] \<and> p2m_hold (set_terminate 3 now q) = p2m_hold q \<and>
      p2m (set_terminate 3 now q) = p2m q @ map (\<lambda>w. ANOUBISD_MSG_EVENTREPLY (rw_token w) deny_ret) (replyq q) \<and>
      terminate (set_terminate 3 now q) = 3" if "terminate q = 2" for q
    using dispatch_timer_result [of now "q\<lparr>terminate := 3\<rparr>"] unfolding stage3 [OF that] by (simp add: expired_def)
  have mid: "set_terminate 3 now q = set_terminate 3 now (q\<lparr>terminate := 2\<rparr>)" if "terminate q = 1" for q
    using that by (subst set_terminate.simps) (simp add: Let_def numeral_2_eq_2)
  have first: "set_terminate 3 now q = set_terminate 3 now (q\<lparr>terminate := 1, timer_set := False\<rparr>)" if "terminate q = 0" for q
    using that by (subst set_terminate.simps) (simp add: Let_def)
  have "terminate p = 0 \<or> terminate p = 1 \<or> terminate p = 2" using assms by auto
  then have "replyq (set_terminate 3 now p) = [] \<and> p2m_hold (set_terminate 3 now p) = p2m_hold p \<and>
      p2m (set_terminate 3 now p) = p2m p @ map (\<lambda>w. ANOUBISD_MSG_EVENTREPLY (rw_token w) deny_ret) (replyq p) \<and>
      terminate (set_terminate 3 now p) = 3"
    using first [of p] mid [of p] last [of p] mid [of "p\<lparr>terminate := 1, timer_set := False\<rparr>"]
      last [of "p\<lparr>terminate := 2\<rparr>"] last [of "p\<lparr>timer_set := False, terminate := 2\<rparr>"] by auto
  then show "replyq (set_terminate 3 now p) = []" and "p2m_hold (set_terminate 3 now p) = p2m_hold p"
    and "p2m (set_terminate 3 now p) = p2m p @ map (\<lambda>w. ANOUBISD_MSG_EVENTREPLY (rw_token w) deny_ret) (replyq p)"
    and "terminate (set_terminate 3 now p) = 3" by blast+
qed


subsection \<open>Transfer of the list of upgraded files\<close>

definition node_bytes :: "pe_filetree_node list \<Rightarrow> bytes" where
  "node_bytes ns = concat (map (\<lambda>n. path_bytes (Some (ft_path n))) ns)"

text \<open>The nodes that fit into \<open>k\<close> bytes, and the others.\<close>

fun chunk_split :: "nat \<Rightarrow> pe_filetree_node list \<Rightarrow> pe_filetree_node list \<times> pe_filetree_node list" where
  "chunk_split k [] = ([], [])"
| "chunk_split k (n # ns) =
     (if length (ft_path n) + 1 \<le> k
      then (case chunk_split (k - (length (ft_path n) + 1)) ns of (a, b) \<Rightarrow> (n # a, b))
      else ([], n # ns))"

lemma chunk_split_append: "chunk_split k ns = (a, b) \<Longrightarrow> ns = a @ b"
  by (induction k ns arbitrary: a b rule: chunk_split.induct) (auto split: if_splits prod.splits)

lemma chunk_split_length: "chunk_split k ns = (a, b) \<Longrightarrow> length (node_bytes a) \<le> k"
  by (induction k ns arbitrary: a b rule: chunk_split.induct)
    (force simp: node_bytes_def path_bytes_def split: if_splits prod.splits)+

lemma chunk_split_progress:
  "length (ft_path n) < k \<Longrightarrow> chunk_split k (n # ns) = (a, b) \<Longrightarrow> a \<noteq> [] \<and> length b \<le> length ns"
  by (auto split: prod.splits dest: chunk_split_append)

definition hd_opt :: "'a list \<Rightarrow> 'a option" where
  "hd_opt xs = (case xs of [] \<Rightarrow> None | x # _ \<Rightarrow> Some x)"

text \<open>The engine is about to send the nodes \<open>ys\<close>.\<close>

definition sending :: "pe_filetree_node list \<Rightarrow> pe \<Rightarrow> bool" where
  "sending ys s \<longleftrightarrow> upgrade_counter s = 0 \<and> upgrade_iterator s = hd_opt ys \<and>
     (\<exists>xs. upgrade_tree s = Some (xs @ ys) \<and> distinct (map ft_path (xs @ ys)))"

lemma sending_get: "sending ys s \<Longrightarrow> pe_upgrade_filelist_get s = (hd_opt ys, s)"
  by (auto simp: sending_def pe_upgrade_filelist_get_def)

lemma sending_next: "sending (n # ys) s \<Longrightarrow> sending ys (pe_upgrade_filelist_next s)"
proof -
  assume "sending (n # ys) s"
  then obtain xs where s: "upgrade_counter s = 0" "upgrade_iterator s = Some n" "upgrade_tree s = Some (xs @ n # ys)"
    "distinct (map ft_path (xs @ n # ys))"
    by (auto simp: sending_def hd_opt_def)
  then have "upgrade_iterator (pe_upgrade_filelist_next s) = hd_opt ys"
    using rb_next_split [of xs n ys] by (simp add: pe_upgrade_filelist_next_def pe_filetree_next_def hd_opt_def)
  moreover have "upgrade_counter (pe_upgrade_filelist_next s) = 0" "upgrade_tree (pe_upgrade_filelist_next s) = Some (xs @ n # ys)"
    using s by (simp_all add: pe_upgrade_filelist_next_def)
  moreover have "Some (xs @ n # ys) = Some ((xs @ [n]) @ ys)" by simp
  ultimately show ?thesis using s(4) unfolding sending_def by (metis append_Cons append_Nil append_assoc)
qed

lemma fill_chunk_split:
  assumes "sending ys s" and "length buf \<le> maxlen" and "chunk_split (maxlen - length buf) ys = (a, b)"
  shows "\<exists>s'. policy_upgrade_fill_chunk maxlen buf s = (buf @ node_bytes a, s') \<and> sending b s'"
  using assms
proof (induction ys arbitrary: buf s a)
  case Nil
  then show ?case using sending_get [OF Nil.prems(1)]
    by (auto simp: policy_upgrade_fill_chunk.simps [of maxlen buf s] hd_opt_def node_bytes_def)
next
  case (Cons n ys)
  note g = sending_get [OF Cons.prems(1), unfolded hd_opt_def, simplified]
  show ?case
  proof (cases "length (ft_path n) + 1 \<le> maxlen - length buf")
    case True
    let ?buf = "buf @ path_bytes (Some (ft_path n))"
    have l: "length ?buf = length buf + (length (ft_path n) + 1)" by (simp add: path_bytes_def)
    obtain a' where a: "chunk_split (maxlen - length ?buf) ys = (a', b)" "a = n # a'"
      using Cons.prems(3) True l by (auto split: prod.splits)
    have "length ?buf \<le> maxlen" using True l by simp
    from Cons.IH [OF sending_next [OF Cons.prems(1)] this a(1)] g True a(2)
    show ?thesis by (auto simp: policy_upgrade_fill_chunk.simps [of maxlen buf s] node_bytes_def)
  next
    case False
    with Cons.prems g show ?thesis
      by (auto simp: policy_upgrade_fill_chunk.simps [of maxlen buf s] node_bytes_def)
  qed
qed


lemma send_chunk_split:
  assumes "sending ys (engine p)" and "chunk_split PATH_MAX ys = (a, b)"
  shows "sending b (engine (send_upgrade_chunk p))" and
    "p2m (send_upgrade_chunk p) = p2m p @ [ANOUBISD_UPGRADE_CHUNK (node_bytes a)]"
  using fill_chunk_split [OF assms(1), of "[]" PATH_MAX] assms(2) by (auto simp: send_upgrade_chunk_def)

lemma chunks_transferred:
  assumes "sending ys (engine p)" and "\<forall>n\<in>set ys. length (ft_path n) < PATH_MAX"
  shows "\<exists>cs. p2m ((send_upgrade_chunk ^^ Suc (length cs)) p) =
      p2m p @ map ANOUBISD_UPGRADE_CHUNK cs @ [ANOUBISD_UPGRADE_CHUNK []] \<and>
    concat cs = node_bytes ys \<and> (\<forall>c\<in>set cs. c \<noteq> [] \<and> length c \<le> PATH_MAX)"
  using assms
proof (induction "length ys" arbitrary: ys p rule: less_induct)
  case less
  obtain a b where ab: "chunk_split PATH_MAX ys = (a, b)" by fastforce
  note s = send_chunk_split [OF less.prems(1) ab]
  show ?case
  proof (cases ys)
    case Nil
    with s ab show ?thesis by (intro exI [of _ "[]"]) (simp add: node_bytes_def)
  next
    case (Cons n ns)
    have pr: "a \<noteq> []" "length b < length ys"
      using chunk_split_progress [of n PATH_MAX ns a b] ab less.prems(2) Cons by auto
    have app: "ys = a @ b" by (rule chunk_split_append [OF ab])
    from less.hyps [OF pr(2) s(1)] less.prems(2) app obtain cs where cs:
      "p2m ((send_upgrade_chunk ^^ Suc (length cs)) (send_upgrade_chunk p)) =
        p2m (send_upgrade_chunk p) @ map ANOUBISD_UPGRADE_CHUNK cs @ [ANOUBISD_UPGRADE_CHUNK []]"
      "concat cs = node_bytes b" "\<forall>c\<in>set cs. c \<noteq> [] \<and> length c \<le> PATH_MAX" by auto
    have "node_bytes a \<noteq> []" using pr(1) by (cases a) (simp_all add: node_bytes_def path_bytes_def)
    moreover have "(send_upgrade_chunk ^^ Suc (length (node_bytes a # cs))) p =
        (send_upgrade_chunk ^^ Suc (length cs)) (send_upgrade_chunk p)" by (simp add: funpow_swap1)
    ultimately show ?thesis using cs s(2) app chunk_split_length [OF ab]
      by (intro exI [of _ "node_bytes a # cs"]) (simp add: node_bytes_def)
  qed
qed

subsection \<open>Properties\<close>

text \<open>
  C6. Every event is answered exactly once. In every run of the policy process the tokens of the events
  for which the policy engine had a reply are, with their multiplicities, those of the replies queued for the kernel, those of the
  replies that are held back during an upgrade and those of the events that wait for the user.
\<close>

theorem every_event_answered_once:
  assumes "policy_run acc p"
  shows "mset (reply_tokens (p2m p)) + mset (map fst (p2m_hold p)) + mset (map rw_token (replyq p)) = mset acc"
  using policy_run_tokens [OF assms] by (simp add: tokens_def)

definition demo_policy :: policy where
  "demo_policy = engine_result (pe_init [] pg_init) [] (policy_init [] pg_init)"

definition demo_event :: m2p_msg where
  "demo_event = M2P_EVENTDEV \<lparr>ed_token = 7, ed_need_reply = True, ed_raw = []\<rparr> (EV_PLAYGROUND 9 1 True)"

lemma demo_event_result:
  "dispatch_m2p demo_env (Some 1) 0 demo_ask demo_event (policy_init [] pg_init) =
     Some (True, demo_policy\<lparr>p2m := [ANOUBISD_MSG_EVENTREPLY 7 deny_ret]\<rparr>)"
  by (simp add: dispatch_m2p_def demo_event_def dispatch_eventdev_def notify_source_def pe_dispatch_event_def
      pe_handle_playgroundask_def pe_proc_get_def policy_init_def pe_init_def learn_pid_def policy_reply_def
      engine_result_def reply_ret_def deny_ret_def no_flags_def demo_policy_def Let_def)

theorem every_event_answered_once_witness:
  "policy_run [7] (demo_policy\<lparr>p2m := [ANOUBISD_MSG_EVENTREPLY 7 deny_ret]\<rparr>) \<and>
   mset (reply_tokens [ANOUBISD_MSG_EVENTREPLY 7 deny_ret]) + mset (map fst (p2m_hold demo_policy)) +
     mset (map rw_token (replyq demo_policy)) = mset [7]"
proof -
  have r: "policy_run [7] (demo_policy\<lparr>p2m := [ANOUBISD_MSG_EVENTREPLY 7 deny_ret]\<rparr>)"
    using policy_run.m2p [OF policy_run.init demo_event_result] by (simp add: msg_token_def demo_event_def)
  from every_event_answered_once [OF r] r show ?thesis by simp
qed

text \<open>
  C24. Escalations time out. When the timer fires at time \<open>now\<close>, every event whose timeout has passed is denied
  with \<^verbatim>\<open>EPERM\<close> towards the kernel and cancelled towards the session engine, every event still waiting
  afterwards has time left, and no event is dropped without a reply.
\<close>

theorem escalations_time_out:
  assumes "terminate p < 3"
  shows "(\<forall>w\<in>set (replyq p). rw_starttime w + rw_timeout w \<le> now \<longrightarrow>
      ANOUBISD_MSG_EVENTREPLY (rw_token w) \<lparr>ret_error = 1, ret_flags = no_flags\<rparr> \<in> set (p2m (dispatch_timer now p)) \<and>
      ANOUBISD_MSG_EVENTCANCEL (rw_token w) \<in> set (p2s (dispatch_timer now p))) \<and>
    (\<forall>w\<in>set (replyq (dispatch_timer now p)). now < rw_starttime w + rw_timeout w) \<and>
    tokens (dispatch_timer now p) = tokens p"
  using dispatch_timer_result [of now p] assms by (auto simp: expired_def deny_ret_def)

definition demo_waiting :: policy where
  "demo_waiting = (policy_init [] pg_init)\<lparr>replyq := [\<lparr>rw_token = 5, rw_flags = no_flags, rw_starttime = 0,
     rw_timeout = 300, rw_log = APN_LOG_NONE\<rparr>], p2m_hold := [(6, deny_ret)]\<rparr>"

theorem escalations_time_out_witness:
  "ANOUBISD_MSG_EVENTREPLY 5 \<lparr>ret_error = 1, ret_flags = no_flags\<rparr> \<in> set (p2m (dispatch_timer 300 demo_waiting))"
  using escalations_time_out [of demo_waiting 300] by (simp add: demo_waiting_def policy_init_def)

text \<open>
  C37. The last stage of termination denies all events that wait for the user, but the replies that
  are held back because of an upgrade are neither sent nor denied.
\<close>

theorem termination_leaves_held_events:
  assumes "terminate p < 3"
  shows "replyq (set_terminate 3 now p) = [] \<and>
    reply_tokens (p2m (set_terminate 3 now p)) = reply_tokens (p2m p) @ map rw_token (replyq p) \<and>
    p2m_hold (set_terminate 3 now p) = p2m_hold p"
proof -
  have "reply_tokens (map (\<lambda>w. ANOUBISD_MSG_EVENTREPLY (rw_token w) deny_ret) ws) = map rw_token ws" for ws
    by (induction ws) simp_all
  with set_terminate_3 [OF assms, of now] show ?thesis by simp
qed

theorem termination_leaves_held_events_witness:
  "reply_tokens (p2m (set_terminate 3 0 demo_waiting)) = [5] \<and> p2m_hold (set_terminate 3 0 demo_waiting) = [(6, deny_ret)]"
  using termination_leaves_held_events [of demo_waiting 0] by (simp add: demo_waiting_def policy_init_def)

text \<open>
  C25. The upgrade process gets every upgraded file: after the iterator was set to the start of the file tree
  and no upgrade is active, finitely many chunk requests return the paths of all nodes, each exactly once
  and NUL terminated, in non-empty chunks of at most \<^verbatim>\<open>PATH_MAX\<close> bytes, and the next chunk is empty.
\<close>

theorem upgraded_files_transferred:
  assumes "upgrade_tree (engine p) = Some t" and "distinct (map ft_path t)" and "upgrade_counter (engine p) = 0"
    and "upgrade_iterator (engine p) = pe_filetree_start (Some t)" and "\<forall>n\<in>set t. length (ft_path n) < PATH_MAX"
  shows "\<exists>cs. p2m ((send_upgrade_chunk ^^ Suc (length cs)) p) =
      p2m p @ map ANOUBISD_UPGRADE_CHUNK cs @ [ANOUBISD_UPGRADE_CHUNK []] \<and>
    concat cs = concat (map (\<lambda>n. map of_char (ft_path n) @ [0]) t) \<and> (\<forall>c\<in>set cs. c \<noteq> [] \<and> length c \<le> PATH_MAX)"
proof -
  have "upgrade_iterator (engine p) = hd_opt t"
    using assms(4) by (simp add: pe_filetree_start_def hd_opt_def split: list.split)
  then have "sending t (engine p)" using assms(1-3) unfolding sending_def by (metis append_Nil)
  from chunks_transferred [OF this assms(5)] show ?thesis by (simp add: node_bytes_def path_bytes_def)
qed

theorem upgraded_files_transferred_witness:
  "\<exists>cs. p2m ((send_upgrade_chunk ^^ Suc (length cs))
        (demo_policy\<lparr>engine := (pe_init [] pg_init)\<lparr>upgrade_tree := Some [ft_node ''/a'' 1],
           upgrade_iterator := Some (ft_node ''/a'' 1)\<rparr>\<rparr>)) =
      p2m demo_policy @ map ANOUBISD_UPGRADE_CHUNK cs @ [ANOUBISD_UPGRADE_CHUNK []] \<and>
    concat cs = map of_char ''/a'' @ [0]"
  using upgraded_files_transferred [of "demo_policy\<lparr>engine := (pe_init [] pg_init)\<lparr>upgrade_tree := Some [ft_node ''/a'' 1],
           upgrade_iterator := Some (ft_node ''/a'' 1)\<rparr>\<rparr>" "[ft_node ''/a'' 1]"]
  by (auto simp: pe_filetree_start_def pe_init_def ft_node_def PATH_MAX_def)

end
