(* ===== verification/PolicyReq.thy ===== *)
theory PolicyReq
  imports Policy
begin

text \<open>
  Policy requests of users, \<^verbatim>\<open>pe_dispatch_policy\<close> of \<^verbatim>\<open>src/src/anoubisd/pe_user.c\<close>: reading a policy and the
  upload of a new one in several messages, with authorisation, signature check and installation.

  Certificates, signature verification, the parser and the printer of rulesets, the configured size
  limit and the results of file operations are given by \<open>pol_env\<close>. The temporary files of a request are
  represented by their contents; \<open>pol_files\<close> and \<open>sig_files\<close> are the installed files. A result
  \<open>None\<close> is a read beyond the end of a message.
\<close>

datatype pol_error =
    POL_OK | POL_EBUSY | POL_ESRCH | POL_EINVAL | POL_EPERM | POL_EFBIG | POL_EIO | POL_FAIL int

record pol_env =
  has_key :: "uid \<Rightarrow> nat \<Rightarrow> bool"
  sig_verify :: "uid \<Rightarrow> nat \<Rightarrow> bytes \<Rightarrow> bytes \<Rightarrow> bool"
  apn_parse :: "bool \<Rightarrow> bytes \<Rightarrow> apn_ruleset option"
  print_cleaned :: "apn_ruleset \<Rightarrow> bytes"
  policysize :: int
  open_error :: "int option"
  read_error :: "nat \<Rightarrow> errno option"
  write_error :: "int option"
  rename_error :: "int option"
  rename_sig_error :: "int option"

datatype policy_type = ANOUBIS_PTYPE_GETBYUID | ANOUBIS_PTYPE_SETBYUID | PTYPE_OTHER

record pe_policy_request =
  q_token :: u64
  q_ptype :: policy_type
  q_authuid :: uid
  q_uid :: uid
  q_prio :: nat
  q_written :: int
  q_siglen :: int
  q_sig :: bytes
  q_data :: bytes

record anoubisd_msg_polrequest =
  pq_token :: u64
  pq_auth_uid :: uid
  pq_start :: bool
  pq_end :: bool
  pq_data :: bytes

record pol_state =
  pol_engine :: pe
  preqs :: "pe_policy_request list"
  pol_files :: "uid \<times> nat \<rightharpoonup> bytes"
  sig_files :: "uid \<times> nat \<rightharpoonup> bytes"
  pol_sent :: "anoubisd_msg_polreply list"
  pol_changed :: "(uid \<times> nat) list"

text \<open>Numbers in network byte order.\<close>

definition get_u32 :: "bytes \<Rightarrow> nat \<Rightarrow> u32" where
  "get_u32 b i = of_nat (unat (b ! i) * 2 ^ 24 + unat (b ! (i + 1)) * 2 ^ 16 + unat (b ! (i + 2)) * 2 ^ 8 + unat (b ! (i + 3)))"

definition get_u16 :: "bytes \<Rightarrow> nat \<Rightarrow> int" where
  "get_u16 b i = int (unat (b ! i)) * 2 ^ 8 + int (unat (b ! (i + 1)))"

text \<open>The sizes of \<^verbatim>\<open>Policy_Generic\<close>, \<^verbatim>\<open>Policy_GetByUid\<close> and \<^verbatim>\<open>Policy_SetByUid\<close>.\<close>

definition POLICY_GENERIC_SIZE :: nat where "POLICY_GENERIC_SIZE = 4"
definition POLICY_GETBYUID_SIZE :: nat where "POLICY_GETBYUID_SIZE = 12"
definition POLICY_SETBYUID_SIZE :: nat where "POLICY_SETBYUID_SIZE = 14"

definition get_ptype :: "bytes \<Rightarrow> policy_type" where
  "get_ptype b =
     (if get_u32 b 0 = 0x100 then ANOUBIS_PTYPE_GETBYUID
      else if get_u32 b 0 = 0x101 then ANOUBIS_PTYPE_SETBYUID else PTYPE_OTHER)"

definition pe_policy_request_find :: "u64 \<Rightarrow> pol_state \<Rightarrow> pe_policy_request option" where
  "pe_policy_request_find token st = find (\<lambda>q. q_token q = token) (preqs st)"

definition request_remove :: "u64 \<Rightarrow> pol_state \<Rightarrow> pol_state" where
  "request_remove token st = st\<lparr>preqs := filter (\<lambda>q. q_token q \<noteq> token) (preqs st)\<rparr>"

definition request_update :: "pe_policy_request \<Rightarrow> pol_state \<Rightarrow> pol_state" where
  "request_update r st = st\<lparr>preqs := map (\<lambda>q. if q_token q = q_token r then r else q) (preqs st)\<rparr>"

text \<open>The contents of a policy for the user, \<^verbatim>\<open>pe_policy_get\<close>; the error is \<^verbatim>\<open>-ENOENT\<close> for \<open>None\<close>.\<close>

definition pe_policy_get :: "pol_env \<Rightarrow> uid \<Rightarrow> nat \<Rightarrow> pol_state \<Rightarrow> (int option + bytes)" where
  "pe_policy_get pe u prio st =
     (case pe_user_get_ruleset u prio (pdb (pol_engine st)) of
        None \<Rightarrow> Inl None
      | Some rs \<Rightarrow> (case open_error pe of Some e \<Rightarrow> Inl (Some e) | None \<Rightarrow> Inr (print_cleaned pe rs)))"

text \<open>Results of a step: an error reply that ends the request, or no reply.\<close>

type_synonym pol_result = "((u64 \<times> pol_error) option \<times> pol_state) option"

definition pol_reply :: "u64 \<Rightarrow> pol_error \<Rightarrow> pol_state \<Rightarrow> pol_result" where
  "pol_reply token e st = Some (Some (token, e), request_remove token st)"

definition get_request :: "pol_env \<Rightarrow> anoubisd_msg_polrequest \<Rightarrow> pol_state \<Rightarrow> pol_result" where
  "get_request pe m st =
     (if \<not> pq_end m \<or> length (pq_data m) < POLICY_GETBYUID_SIZE then pol_reply (pq_token m) POL_EINVAL st
      else
        (let u = get_u32 (pq_data m) 4; prio = unat (get_u32 (pq_data m) 8)
         in if prio \<ge> PE_PRIO_MAX then pol_reply (pq_token m) POL_EINVAL st
            else if pq_auth_uid m \<noteq> u \<and> pq_auth_uid m \<noteq> 0 then pol_reply (pq_token m) POL_EPERM st
            else case pe_policy_get pe u prio st of
              Inl None \<Rightarrow> pol_reply (pq_token m) POL_OK st
            | Inl (Some e) \<Rightarrow> pol_reply (pq_token m) POL_EIO st
            | Inr data \<Rightarrow>
                (case send_policy_data (pq_token m) True (read_error pe) data of
                   (msgs, Some e) \<Rightarrow> pol_reply (pq_token m) (POL_FAIL (errno_code e)) (st\<lparr>pol_sent := pol_sent st @ msgs\<rparr>)
                 | (msgs, None) \<Rightarrow> Some (None, request_remove (pq_token m) (st\<lparr>pol_sent := pol_sent st @ msgs\<rparr>)))))"

text \<open>The first message of an upload: authorisation and the temporary files.\<close>

definition set_start :: "pol_env \<Rightarrow> anoubisd_msg_polrequest \<Rightarrow> pe_policy_request \<Rightarrow> pol_error + pe_policy_request" where
  "set_start pe m req =
     (if length (pq_data m) < POLICY_SETBYUID_SIZE then Inl POL_EINVAL
      else
        (let u = get_u32 (pq_data m) 4; prio = unat (get_u32 (pq_data m) 8); siglen = get_u16 (pq_data m) 12
         in if prio \<ge> PE_PRIO_MAX then Inl POL_EINVAL
            else if u \<noteq> q_authuid req \<and> q_authuid req \<noteq> 0 then Inl POL_EPERM
            else if prio = PE_PRIO_ADMIN \<and> q_authuid req \<noteq> 0 then Inl POL_EPERM
            else if has_key pe u prio \<and> siglen \<le> 0 then Inl POL_EINVAL
            else case open_error pe of
              Some e \<Rightarrow> Inl (POL_FAIL e)
            | None \<Rightarrow> Inr (req\<lparr>q_uid := u, q_prio := prio, q_siglen := siglen, q_sig := [], q_data := []\<rparr>)))"

text \<open>The number of bytes that the code takes from the buffer for the signature.\<close>

definition sig_part :: "pe_policy_request \<Rightarrow> int \<Rightarrow> int" where
  "sig_part req len =
     (if q_written req < q_siglen req
      then (if len > q_siglen req - q_written req then q_siglen req else len) else 0)"

definition set_write :: "bytes \<Rightarrow> pe_policy_request \<Rightarrow> pe_policy_request option" where
  "set_write buf req =
     (let s_len = nat (sig_part req (int (length buf)))
      in if s_len > length buf then None
         else Some (req\<lparr>q_sig := q_sig req @ take s_len buf, q_data := q_data req @ drop s_len buf,
                        q_written := q_written req + int (length buf)\<rparr>))"

text \<open>The last message of an upload: verify, parse, install. The policy file is renamed before the signature.\<close>

definition set_finish :: "pol_env \<Rightarrow> pe_env \<Rightarrow> pe_policy_request \<Rightarrow> pol_state \<Rightarrow> pol_result" where
  "set_finish pe en req st =
     (let key = (q_uid req, q_prio req); fail = (\<lambda>e st. pol_reply (q_token req) e st)
      in if q_siglen req > 0 \<and> has_key pe (q_uid req) (q_prio req) \<and>
            \<not> sig_verify pe (q_uid req) (q_prio req) (q_data req) (q_sig req)
         then fail POL_EINVAL st
         else case apn_parse pe (q_prio req \<noteq> PE_PRIO_USER1) (q_data req) of
           None \<Rightarrow> fail POL_EINVAL st
         | Some rs \<Rightarrow>
             (case rename_error pe of
                Some e \<Rightarrow> fail (POL_FAIL e) st
              | None \<Rightarrow>
                  (let st1 = st\<lparr>pol_files := (pol_files st)(key \<mapsto> q_data req)\<rparr>
                   in if q_siglen req > 0 \<and> rename_sig_error pe \<noteq> None
                      then fail (POL_FAIL (the (rename_sig_error pe))) st1
                      else
                        (let st2 = (if q_siglen req > 0
                                    then st1\<lparr>sig_files := (sig_files st1)(key \<mapsto> q_sig req)\<rparr> else st1)
                         in fail POL_OK
                              (st2\<lparr>pol_engine := pe_user_insert_rs en rs (q_uid req) (q_prio req) (pol_engine st2),
                                   pol_changed := pol_changed st2 @ [key]\<rparr>)))))"

definition set_data ::
    "pol_env \<Rightarrow> pe_env \<Rightarrow> anoubisd_msg_polrequest \<Rightarrow> bytes \<Rightarrow> pe_policy_request \<Rightarrow> pol_state \<Rightarrow> pol_result" where
  "set_data pe en m buf req st =
     (if policysize pe > 0 \<and> q_written req + int (length buf) > policysize pe
      then pol_reply (pq_token m) POL_EFBIG st
      else case set_write buf req of
        None \<Rightarrow> None
      | Some req' \<Rightarrow>
          (case write_error pe of
             Some e \<Rightarrow> pol_reply (pq_token m) (POL_FAIL e) st
           | None \<Rightarrow>
               (if pq_end m then set_finish pe en req' (request_update req' st)
                else Some (None, request_update req' st))))"

definition set_request ::
    "pol_env \<Rightarrow> pe_env \<Rightarrow> anoubisd_msg_polrequest \<Rightarrow> pe_policy_request \<Rightarrow> pol_state \<Rightarrow> pol_result" where
  "set_request pe en m req st =
     (if pq_start m then
        (case set_start pe m req of
           Inl e \<Rightarrow> pol_reply (pq_token m) e st
         | Inr req' \<Rightarrow> set_data pe en m (drop POLICY_SETBYUID_SIZE (pq_data m)) req' st)
      else set_data pe en m (pq_data m) req st)"

definition new_request :: "anoubisd_msg_polrequest \<Rightarrow> pe_policy_request" where
  "new_request m = \<lparr>q_token = pq_token m, q_ptype = get_ptype (pq_data m), q_authuid = pq_auth_uid m, q_uid = 0,
     q_prio = 0, q_written = 0, q_siglen = 0, q_sig = [], q_data = []\<rparr>"

definition pe_dispatch_policy ::
    "pol_env \<Rightarrow> pe_env \<Rightarrow> anoubisd_msg_polrequest \<Rightarrow> pol_state \<Rightarrow> pol_result" where
  "pe_dispatch_policy pe en m st =
     (case pe_policy_request_find (pq_token m) st of
        Some req \<Rightarrow>
          (if pq_start m then pol_reply (pq_token m) POL_EBUSY st
           else if q_authuid req \<noteq> pq_auth_uid m then pol_reply (pq_token m) POL_EPERM st
           else case q_ptype req of
             ANOUBIS_PTYPE_GETBYUID \<Rightarrow> get_request pe m st
           | ANOUBIS_PTYPE_SETBYUID \<Rightarrow> set_request pe en m req st
           | PTYPE_OTHER \<Rightarrow> pol_reply (pq_token m) POL_EINVAL st)
      | None \<Rightarrow>
          (if \<not> pq_start m then pol_reply (pq_token m) POL_ESRCH st
           else if length (pq_data m) < POLICY_GENERIC_SIZE then pol_reply (pq_token m) POL_EINVAL st
           else
             (let req = new_request m; st1 = st\<lparr>preqs := req # preqs st\<rparr>
              in case q_ptype req of
                   ANOUBIS_PTYPE_GETBYUID \<Rightarrow> get_request pe m st1
                 | ANOUBIS_PTYPE_SETBYUID \<Rightarrow> set_request pe en m req st1
                 | PTYPE_OTHER \<Rightarrow> pol_reply (pq_token m) POL_EINVAL st1)))"

definition policy_abort :: "u64 \<Rightarrow> pol_state \<Rightarrow> pol_state" where
  "policy_abort token st = request_remove token st"


subsection \<open>Authorisation\<close>

definition req_ok :: "(uid \<Rightarrow> nat \<Rightarrow> bool) \<Rightarrow> pe_policy_request \<Rightarrow> bool" where
  "req_ok keys q \<longleftrightarrow> (q_ptype q = ANOUBIS_PTYPE_SETBYUID \<longrightarrow>
     q_prio q < PE_PRIO_MAX \<and> (q_authuid q = 0 \<or> q_uid q = q_authuid q \<and> q_prio q \<noteq> PE_PRIO_ADMIN) \<and>
     (keys (q_uid q) (q_prio q) \<longrightarrow> q_siglen q > 0))"

lemma req_ok_write: "set_write buf q = Some q' \<Longrightarrow> req_ok keys q' = req_ok keys q \<and> q_token q' = q_token q \<and>
    q_uid q' = q_uid q \<and> q_prio q' = q_prio q \<and> q_siglen q' = q_siglen q \<and> q_authuid q' = q_authuid q \<and> q_ptype q' = q_ptype q"
  by (auto simp: set_write_def req_ok_def Let_def split: if_splits)

lemma req_ok_start: "set_start pe m q = Inr q' \<Longrightarrow> req_ok (has_key pe) q' \<and> q_token q' = q_token q \<and>
    q_authuid q' = q_authuid q \<and> q_ptype q' = q_ptype q"
  by (auto simp: set_start_def req_ok_def Let_def split: if_splits option.splits)

text \<open>What happens to installed files and engine when an upload ends.\<close>

lemma set_finish_result:
  assumes "set_finish pe en q st = Some (r, st')"
  shows "set (preqs st') = set (preqs st) - {x. q_token x = q_token q}" and
    "pol_files st' = pol_files st \<and> pol_engine st' = pol_engine st \<or>
     (\<exists>rs. apn_parse pe (q_prio q \<noteq> PE_PRIO_USER1) (q_data q) = Some rs \<and>
        (q_siglen q > 0 \<and> has_key pe (q_uid q) (q_prio q) \<longrightarrow>
           sig_verify pe (q_uid q) (q_prio q) (q_data q) (q_sig q)) \<and>
        pol_files st' = (pol_files st)((q_uid q, q_prio q) \<mapsto> q_data q) \<and>
        pol_engine st' \<in> {pol_engine st, pe_user_insert_rs en rs (q_uid q) (q_prio q) (pol_engine st)})"
  using assms
  by (auto simp: set_finish_def pol_reply_def request_remove_def Let_def split: if_splits option.splits)

lemma reply_result:
  assumes "pol_reply tok e st = Some (r, st')"
  shows "set (preqs st') \<subseteq> set (preqs st)" "\<forall>x\<in>set (preqs st'). q_token x \<noteq> tok" "pol_files st' = pol_files st" "pol_engine st' = pol_engine st"
  using assms by (auto simp: pol_reply_def request_remove_def)

lemma update_result:
  "set (preqs (request_update q st)) \<subseteq> insert q (set (preqs st))" "pol_files (request_update q st) = pol_files st"
  "pol_engine (request_update q st) = pol_engine st"
  "\<forall>x\<in>set (preqs (request_update q st)). q_token x = q_token q \<longrightarrow> x = q"
  by (auto simp: request_update_def)


text \<open>A change of installed policies that the authenticated user \<open>auth\<close> may make.\<close>

definition allowed_change :: "pol_env \<Rightarrow> pe_env \<Rightarrow> uid \<Rightarrow> pol_state \<Rightarrow> pol_state \<Rightarrow> bool" where
  "allowed_change pe en auth st st' \<longleftrightarrow>
     (\<exists>u prio data sg rs. prio < PE_PRIO_MAX \<and> (auth = 0 \<or> auth = u \<and> prio = PE_PRIO_USER1) \<and>
        apn_parse pe (prio \<noteq> PE_PRIO_USER1) data = Some rs \<and> (has_key pe u prio \<longrightarrow> sig_verify pe u prio data sg) \<and>
        pol_files st' = (pol_files st)((u, prio) \<mapsto> data) \<and>
        pol_engine st' \<in> {pol_engine st, pe_user_insert_rs en rs u prio (pol_engine st)})"

text \<open>A step of a request \<open>tok\<close>: other requests stay, what remains of this one is in order, changes are allowed.\<close>

definition step_ok :: "pol_env \<Rightarrow> pe_env \<Rightarrow> u64 \<Rightarrow> uid \<Rightarrow> pol_state \<Rightarrow> pol_state \<Rightarrow> bool" where
  "step_ok pe en tok auth st st' \<longleftrightarrow>
     (\<forall>x\<in>set (preqs st'). x \<in> set (preqs st) \<and> q_token x \<noteq> tok \<or> req_ok (has_key pe) x) \<and>
     (pol_files st' = pol_files st \<and> pol_engine st' = pol_engine st \<or> allowed_change pe en auth st st')"

lemma step_ok_reply: "pol_reply tok e st = Some (r, st') \<Longrightarrow> step_ok pe en tok auth st st'"
  using reply_result [of tok e st r st'] by (auto simp: step_ok_def)

lemma prio_cases: "prio < PE_PRIO_MAX \<Longrightarrow> prio \<noteq> PE_PRIO_ADMIN \<Longrightarrow> prio = PE_PRIO_USER1"
  by (auto simp: PE_PRIO_MAX_def PE_PRIO_ADMIN_def PE_PRIO_USER1_def)

lemma set_finish_ok:
  assumes "set_finish pe en q (request_update q st) = Some (r, st')" and "req_ok (has_key pe) q"
    and "q_ptype q = ANOUBIS_PTYPE_SETBYUID"
  shows "step_ok pe en (q_token q) (q_authuid q) st st'"
proof -
  have "\<forall>x\<in>set (preqs st'). x \<in> set (preqs st) \<and> q_token x \<noteq> q_token q"
    using set_finish_result(1) [OF assms(1)] update_result(1) [of q st] by auto
  moreover have "pol_files st' = pol_files st \<and> pol_engine st' = pol_engine st \<or> allowed_change pe en (q_authuid q) st st'"
    using set_finish_result(2) [OF assms(1)]
  proof (elim disjE exE conjE)
    fix rs
    assume f: "apn_parse pe (q_prio q \<noteq> PE_PRIO_USER1) (q_data q) = Some rs"
      "q_siglen q > 0 \<and> has_key pe (q_uid q) (q_prio q) \<longrightarrow> sig_verify pe (q_uid q) (q_prio q) (q_data q) (q_sig q)"
      "pol_files st' = (pol_files (request_update q st))((q_uid q, q_prio q) \<mapsto> q_data q)"
      "pol_engine st' \<in> {pol_engine (request_update q st),
         pe_user_insert_rs en rs (q_uid q) (q_prio q) (pol_engine (request_update q st))}"
    have "q_prio q < PE_PRIO_MAX \<and> (q_authuid q = 0 \<or> q_authuid q = q_uid q \<and> q_prio q = PE_PRIO_USER1) \<and>
        (has_key pe (q_uid q) (q_prio q) \<longrightarrow> sig_verify pe (q_uid q) (q_prio q) (q_data q) (q_sig q))"
      using assms(2,3) prio_cases f(2) by (auto simp: req_ok_def)
    with f(1,3,4) have "allowed_change pe en (q_authuid q) st st'"
      unfolding allowed_change_def update_result(2,3) by blast
    then show ?thesis ..
  qed (simp add: update_result(2,3))
  ultimately show ?thesis by (auto simp: step_ok_def)
qed

lemma set_data_ok:
  assumes "set_data pe en m buf q st = Some (r, st')" and "req_ok (has_key pe) q"
    and "q_ptype q = ANOUBIS_PTYPE_SETBYUID" and "q_token q = pq_token m" and "q_authuid q = pq_auth_uid m"
  shows "step_ok pe en (pq_token m) (pq_auth_uid m) st st'"
proof (cases "policysize pe > 0 \<and> q_written q + int (length buf) > policysize pe")
  case True
  with assms(1) show ?thesis by (auto simp: set_data_def intro: step_ok_reply)
next
  case False
  with assms(1) obtain q' where w: "set_write buf q = Some q'" by (auto simp: set_data_def split: option.splits)
  note q' = req_ok_write [OF w, of "has_key pe"]
  have "step_ok pe en (pq_token m) (pq_auth_uid m) st (request_update q' st)"
    using update_result [of q' st] q' assms(2,4) by (auto simp: step_ok_def)
  moreover have "step_ok pe en (pq_token m) (pq_auth_uid m) st st'"
    if "set_finish pe en q' (request_update q' st) = Some (r, st')"
    using set_finish_ok [OF that] q' assms(2-5) by simp
  ultimately show ?thesis using assms(1) False w
    by (auto simp: set_data_def split: option.splits if_splits intro: step_ok_reply)
qed

lemma set_request_ok:
  assumes "set_request pe en m q st = Some (r, st')" and "pq_start m \<or> req_ok (has_key pe) q"
    and "q_ptype q = ANOUBIS_PTYPE_SETBYUID" and "q_token q = pq_token m" and "q_authuid q = pq_auth_uid m"
  shows "step_ok pe en (pq_token m) (pq_auth_uid m) st st'"
proof (cases "pq_start m")
  case True
  show ?thesis
  proof (cases "set_start pe m q")
    case (Inr q')
    with assms True show ?thesis using req_ok_start [OF Inr] set_data_ok [of pe en m _ q' st r st']
      by (simp add: set_request_def)
  qed (use assms True in \<open>auto simp: set_request_def intro: step_ok_reply\<close>)
qed (use assms set_data_ok in \<open>auto simp: set_request_def\<close>)

lemma step_ok_sent: "step_ok pe en tok auth (st\<lparr>pol_sent := x\<rparr>) st' = step_ok pe en tok auth st st'"
  by (simp add: step_ok_def allowed_change_def)

lemma step_ok_remove: "step_ok pe en tok auth st (request_remove tok st)"
  by (auto simp: step_ok_def request_remove_def)

lemma get_request_shape:
  assumes "get_request pe m st = Some (r, st')"
  shows "\<exists>x. st' = request_remove (pq_token m) (st\<lparr>pol_sent := x\<rparr>)"
proof -
  have st: "st\<lparr>pol_sent := pol_sent st\<rparr> = st" by simp
  show ?thesis using assms
    by (auto simp: get_request_def pol_reply_def Let_def split: if_splits sum.splits option.splits prod.splits)
      (metis st)+
qed

lemma get_request_ok:
  assumes "get_request pe m st = Some (r, st')"
  shows "step_ok pe en (pq_token m) auth st st'"
  using get_request_shape [OF assms] step_ok_remove [of pe en "pq_token m" auth "st\<lparr>pol_sent := _\<rparr>"]
  by (auto simp: step_ok_sent)

lemma dispatch_ok:
  assumes "pe_dispatch_policy pe en m st = Some (r, st')" and "\<forall>q\<in>set (preqs st). req_ok (has_key pe) q"
  shows "step_ok pe en (pq_token m) (pq_auth_uid m) st st'"
proof (cases "pe_policy_request_find (pq_token m) st")
  case (Some q)
  then have q: "q \<in> set (preqs st)" "q_token q = pq_token m"
    by (auto simp: pe_policy_request_find_def find_Some_iff)
  show ?thesis
  proof (cases "pq_start m \<or> q_authuid q \<noteq> pq_auth_uid m")
    case True
    with assms(1) Some show ?thesis by (auto simp: pe_dispatch_policy_def split: if_splits intro: step_ok_reply)
  next
    case False
    with assms Some q show ?thesis
      by (cases "q_ptype q") (auto simp: pe_dispatch_policy_def intro: step_ok_reply get_request_ok set_request_ok)
  qed
next
  case None
  let ?st = "st\<lparr>preqs := new_request m # preqs st\<rparr>"
  have new: "q_token (new_request m) = pq_token m" "q_authuid (new_request m) = pq_auth_uid m" by (simp_all add: new_request_def)
  have add: "step_ok pe en (pq_token m) (pq_auth_uid m) ?st st' \<Longrightarrow> step_ok pe en (pq_token m) (pq_auth_uid m) st st'"
    using new by (auto simp: step_ok_def allowed_change_def)
  show ?thesis
  proof (cases "\<not> pq_start m \<or> length (pq_data m) < POLICY_GENERIC_SIZE")
    case True
    with assms(1) None show ?thesis by (auto simp: pe_dispatch_policy_def split: if_splits intro: step_ok_reply)
  next
    case False
    with assms None new show ?thesis
      by (cases "q_ptype (new_request m)")
        (auto simp: pe_dispatch_policy_def Let_def intro!: add intro: step_ok_reply get_request_ok set_request_ok)
  qed
qed

text \<open>
  Runs: messages of any users, aborted requests and any other work of the engine, in any order. The
  certificates are loaded at the start.
\<close>

inductive pol_run :: "(uid \<Rightarrow> nat \<Rightarrow> bool) \<Rightarrow> pol_state \<Rightarrow> bool" for keys where
  run_start: "preqs st = [] \<Longrightarrow> pol_run keys st"
| run_message: "pol_run keys st \<Longrightarrow> has_key pe = keys \<Longrightarrow> pe_dispatch_policy pe en m st = Some (r, st') \<Longrightarrow> pol_run keys st'"
| run_abort: "pol_run keys st \<Longrightarrow> pol_run keys (policy_abort token st)"
| run_engine: "pol_run keys st \<Longrightarrow> pol_run keys (st\<lparr>pol_engine := e\<rparr>)"

lemma pol_run_requests: "pol_run keys st \<Longrightarrow> \<forall>q\<in>set (preqs st). req_ok keys q"
proof (induction rule: pol_run.induct)
  case (run_message st pe en m r st')
  then show ?case using dispatch_ok [of pe en m st r st'] by (auto simp: step_ok_def)
qed (auto simp: policy_abort_def request_remove_def)




subsection \<open>Uploads in several messages\<close>

fun pol_dispatch_all ::
    "pol_env \<Rightarrow> pe_env \<Rightarrow> anoubisd_msg_polrequest list \<Rightarrow> pol_state \<Rightarrow> ((u64 \<times> pol_error) option list \<times> pol_state) option" where
  "pol_dispatch_all pe en [] st = Some ([], st)"
| "pol_dispatch_all pe en (m # ms) st =
     (case pe_dispatch_policy pe en m st of
        None \<Rightarrow> None
      | Some (r, st1) \<Rightarrow>
          (case pol_dispatch_all pe en ms st1 of None \<Rightarrow> None | Some (rs, st2) \<Rightarrow> Some (r # rs, st2)))"

fun more_msgs :: "u64 \<Rightarrow> uid \<Rightarrow> bytes list \<Rightarrow> anoubisd_msg_polrequest list" where
  "more_msgs tok auth [] = []"
| "more_msgs tok auth (c # cs) =
     \<lparr>pq_token = tok, pq_auth_uid = auth, pq_start = False, pq_end = (cs = []), pq_data = c\<rparr> # more_msgs tok auth cs"

definition upload_msgs :: "u64 \<Rightarrow> uid \<Rightarrow> bytes \<Rightarrow> bytes \<Rightarrow> bytes list \<Rightarrow> anoubisd_msg_polrequest list" where
  "upload_msgs tok auth hdr c cs =
     \<lparr>pq_token = tok, pq_auth_uid = auth, pq_start = True, pq_end = (cs = []), pq_data = hdr @ c\<rparr> # more_msgs tok auth cs"

definition no_io_errors :: "pol_env \<Rightarrow> bool" where
  "no_io_errors pe \<longleftrightarrow> open_error pe = None \<and> write_error pe = None \<and> rename_error pe = None \<and> rename_sig_error pe = None"

text \<open>The state after the installation of a policy.\<close>

definition installed :: "pe_env \<Rightarrow> pe_policy_request \<Rightarrow> bytes \<Rightarrow> apn_ruleset \<Rightarrow> pol_state \<Rightarrow> pol_state" where
  "installed en q data rs st =
     st\<lparr>preqs := filter (\<lambda>x. q_token x \<noteq> q_token q) (preqs st),
        pol_files := (pol_files st)((q_uid q, q_prio q) \<mapsto> data),
        sig_files := (if q_siglen q > 0 then (sig_files st)((q_uid q, q_prio q) \<mapsto> q_sig q) else sig_files st),
        pol_engine := pe_user_insert_rs en rs (q_uid q) (q_prio q) (pol_engine st),
        pol_changed := pol_changed st @ [(q_uid q, q_prio q)]\<rparr>"

lemma find_update:
  "pe_policy_request_find (q_token q') st = Some q \<Longrightarrow> pe_policy_request_find (q_token q') (request_update q' st) = Some q'"
proof -
  have "find (\<lambda>x. q_token x = q_token q') l = Some q \<Longrightarrow>
    find (\<lambda>x. q_token x = q_token q') (map (\<lambda>x. if q_token x = q_token q' then q' else x) l) = Some q'" for l
    by (induction l) auto
  then show "pe_policy_request_find (q_token q') st = Some q \<Longrightarrow> pe_policy_request_find (q_token q') (request_update q' st) = Some q'"
    by (simp add: pe_policy_request_find_def request_update_def)
qed

lemma installed_update: "q_token q' = q_token q \<Longrightarrow> installed en q data rs (request_update q' st) = installed en q data rs st"
proof -
  have "q_token q' = t \<Longrightarrow>
    filter (\<lambda>x. q_token x \<noteq> t) (map (\<lambda>x. if q_token x = t then q' else x) l) = filter (\<lambda>x. q_token x \<noteq> t) l" for l t
    by (induction l) auto
  then show "q_token q' = q_token q \<Longrightarrow> ?thesis" by (simp add: installed_def request_update_def)
qed

lemma set_finish_installs:
  assumes "no_io_errors pe" and "apn_parse pe (q_prio q \<noteq> PE_PRIO_USER1) (q_data q) = Some rs"
    and "has_key pe (q_uid q) (q_prio q) \<Longrightarrow> sig_verify pe (q_uid q) (q_prio q) (q_data q) (q_sig q)"
  shows "set_finish pe en q st = Some (Some (q_token q, POL_OK), installed en q (q_data q) rs st)"
  using assms by (auto simp: set_finish_def no_io_errors_def pol_reply_def request_remove_def installed_def Let_def)

text \<open>Once the signature is complete, a part of the policy is appended.\<close>

lemma set_write_data:
  "q_written q \<ge> q_siglen q \<Longrightarrow>
   set_write c q = Some (q\<lparr>q_data := q_data q @ c, q_written := q_written q + int (length c)\<rparr>)"
  by (simp add: set_write_def sig_part_def)

definition fits :: "pol_env \<Rightarrow> int \<Rightarrow> bool" where
  "fits pe n \<longleftrightarrow> policysize pe \<le> 0 \<or> n \<le> policysize pe"

lemma set_data_fits:
  assumes "fits pe (q_written q + int (length buf))" and "no_io_errors pe" and "set_write buf q = Some q'"
  shows "set_data pe en m buf q st =
     (if pq_end m then set_finish pe en q' (request_update q' st) else Some (None, request_update q' st))"
  using assms by (auto simp: set_data_def fits_def no_io_errors_def)

lemma more_upload:
  assumes "cs \<noteq> []" and "pe_policy_request_find tok st = Some q" and "q_token q = tok" and "q_authuid q = auth"
    and "q_ptype q = ANOUBIS_PTYPE_SETBYUID" and "q_written q \<ge> q_siglen q" and "no_io_errors pe"
    and "fits pe (q_written q + int (length (concat cs)))"
    and "apn_parse pe (q_prio q \<noteq> PE_PRIO_USER1) (q_data q @ concat cs) = Some rs"
    and "has_key pe (q_uid q) (q_prio q) \<Longrightarrow> sig_verify pe (q_uid q) (q_prio q) (q_data q @ concat cs) (q_sig q)"
  shows "pol_dispatch_all pe en (more_msgs tok auth cs) st =
     Some (replicate (length cs - 1) None @ [Some (tok, POL_OK)], installed en q (q_data q @ concat cs) rs st)"
  using assms
proof (induction cs arbitrary: q st)
  case (Cons c cs)
  let ?q = "q\<lparr>q_data := q_data q @ c, q_written := q_written q + int (length c)\<rparr>"
  have inst: "installed en ?q d rs s = installed en q d rs s" for d s by (simp add: installed_def)
  have f: "fits pe (q_written q + int (length c))" using Cons.prems(8) by (auto simp: fits_def)
  note w = set_write_data [OF Cons.prems(6), of c]
  have d: "pe_dispatch_policy pe en \<lparr>pq_token = tok, pq_auth_uid = auth, pq_start = False, pq_end = e, pq_data = c\<rparr> st =
      (if e then set_finish pe en ?q (request_update ?q st) else Some (None, request_update ?q st))" for e
    using Cons.prems(2-7) f w
    by (simp add: pe_dispatch_policy_def set_request_def set_data_fits)
  show ?case
  proof (cases "cs = []")
    case True
    have "set_finish pe en ?q (request_update ?q st) = Some (Some (tok, POL_OK), installed en q (q_data q @ c) rs st)"
      using set_finish_installs [of pe ?q rs en "request_update ?q st"] Cons.prems(3,7,9,10) True
      by (simp add: inst installed_update)
    with True show ?thesis by (simp add: d)
  next
    case False
    have "pol_dispatch_all pe en (more_msgs tok auth cs) (request_update ?q st) =
        Some (replicate (length cs - 1) None @ [Some (tok, POL_OK)],
          installed en ?q (q_data ?q @ concat cs) rs (request_update ?q st))"
    proof (rule Cons.IH)
      show "pe_policy_request_find tok (request_update ?q st) = Some ?q"
        using find_update [of ?q st q] Cons.prems(2,3) by simp
    qed (use Cons.prems False in \<open>simp_all add: algebra_simps\<close>)
    then have "pol_dispatch_all pe en (more_msgs tok auth cs) (request_update ?q st) =
        Some (replicate (length cs - 1) None @ [Some (tok, POL_OK)], installed en q (q_data q @ c @ concat cs) rs st)"
      by (simp add: inst installed_update)
    with False show ?thesis by (cases cs) (simp_all add: d)
  qed
qed simp

text \<open>A well-formed first message of a permitted upload is accepted.\<close>

lemma set_start_accepts:
  assumes "open_error pe = None" and "POLICY_SETBYUID_SIZE \<le> length (pq_data m)"
    and "get_u32 (pq_data m) 4 = u" and "unat (get_u32 (pq_data m) 8) = prio" and "get_u16 (pq_data m) 12 = int siglen"
    and "prio < PE_PRIO_MAX" and "q_authuid q = 0 \<or> q_authuid q = u \<and> prio = PE_PRIO_USER1"
    and "has_key pe u prio \<Longrightarrow> siglen > 0"
  shows "set_start pe m q = Inr (q\<lparr>q_uid := u, q_prio := prio, q_siglen := int siglen, q_sig := [], q_data := []\<rparr>)"
  using assms unfolding set_start_def Let_def assms(3-5)
  by (auto simp: PE_PRIO_ADMIN_def PE_PRIO_USER1_def)

definition upload_request :: "u64 \<Rightarrow> uid \<Rightarrow> uid \<Rightarrow> nat \<Rightarrow> nat \<Rightarrow> bytes \<Rightarrow> pe_policy_request" where
  "upload_request tok auth u prio siglen c =
     \<lparr>q_token = tok, q_ptype = ANOUBIS_PTYPE_SETBYUID, q_authuid = auth, q_uid = u, q_prio = prio,
      q_written = int (length c), q_siglen = int siglen, q_sig = take siglen c, q_data = drop siglen c\<rparr>"

lemma upload_first:
  assumes "pe_policy_request_find tok st = None" and "no_io_errors pe"
    and "length hdr = POLICY_SETBYUID_SIZE" and "get_ptype hdr = ANOUBIS_PTYPE_SETBYUID"
    and "get_u32 hdr 4 = u" and "unat (get_u32 hdr 8) = prio" and "get_u16 hdr 12 = int siglen"
    and "prio < PE_PRIO_MAX" and "auth = 0 \<or> auth = u \<and> prio = PE_PRIO_USER1" and "has_key pe u prio \<Longrightarrow> siglen > 0"
    and "siglen \<le> length c" and "fits pe (int (length c))"
    and m: "m = \<lparr>pq_token = tok, pq_auth_uid = auth, pq_start = True, pq_end = e, pq_data = hdr @ c\<rparr>"
    and q: "q = upload_request tok auth u prio siglen c"
    and st1: "st1 = st\<lparr>preqs := new_request m # preqs st\<rparr>"
  shows "pe_dispatch_policy pe en m st =
     (if e then set_finish pe en q (request_update q st1) else Some (None, request_update q st1))"
proof -
  have hdr: "get_u32 (hdr @ c) 0 = get_u32 hdr 0" "get_u32 (hdr @ c) 4 = u" "unat (get_u32 (hdr @ c) 8) = prio"
      "get_u16 (hdr @ c) 12 = int siglen"
    using assms(3,5-7) by (simp_all add: get_u32_def get_u16_def nth_append POLICY_SETBYUID_SIZE_def)
  have pt: "get_ptype (hdr @ c) = ANOUBIS_PTYPE_SETBYUID" using assms(4) unfolding get_ptype_def hdr(1) .
  define q0 where "q0 = (new_request m)\<lparr>q_uid := u, q_prio := prio, q_siglen := int siglen, q_sig := [], q_data := []\<rparr>"
  have start: "set_start pe m (new_request m) = Inr q0"
    unfolding q0_def by (rule set_start_accepts)
      (use assms(2,3,8-10) hdr in \<open>simp_all add: m new_request_def no_io_errors_def\<close>)
  have wr: "set_write c q0 = Some q"
    using assms(11) pt by (auto simp: set_write_def sig_part_def q0_def q upload_request_def new_request_def m Let_def)
  have size: "fits pe (q_written q0 + int (length c))" using assms(12) by (simp add: q0_def new_request_def)
  show ?thesis
    using assms(1-3) start wr size pt
    by (simp add: pe_dispatch_policy_def set_request_def set_data_fits st1 Let_def m new_request_def
        POLICY_GENERIC_SIZE_def POLICY_SETBYUID_SIZE_def)
qed

text \<open>A concrete environment: user 5 has a certificate, and the signature of every policy is 1, 2.\<close>

definition demo_pol_env :: pol_env where
  "demo_pol_env = \<lparr>has_key = (\<lambda>u prio. u = 5), sig_verify = (\<lambda>u prio data sg. sg = [1, 2]),
     apn_parse = (\<lambda>noask data. if data = [] then None
        else Some \<lparr>rs_addr = 77, alf_queue = [], sfs_queue = [], sb_queue = [], ctx_queue = []\<rparr>),
     print_cleaned = (\<lambda>rs. []), policysize = 100, open_error = None, read_error = (\<lambda>i. None), write_error = None,
     rename_error = None, rename_sig_error = None\<rparr>"

definition demo_pol_state :: pol_state where
  "demo_pol_state = \<lparr>pol_engine = pe_init [] pg_init, preqs = [], pol_files = Map.empty, sig_files = Map.empty,
     pol_sent = [], pol_changed = []\<rparr>"

definition demo_header :: bytes where
  "demo_header = [0, 0, 1, 1, 0, 0, 0, 5, 0, 0, 0, 1, 0, 2]"

definition demo_request :: anoubisd_msg_polrequest where
  "demo_request = \<lparr>pq_token = 3, pq_auth_uid = 5, pq_start = True, pq_end = True, pq_data = demo_header @ [1, 2, 10]\<rparr>"

lemma demo_header_values:
  "length demo_header = POLICY_SETBYUID_SIZE" "get_ptype demo_header = ANOUBIS_PTYPE_SETBYUID"
  "get_u32 demo_header 4 = 5" "get_u32 demo_header 8 = 1" "get_u16 demo_header 12 = 2"
  by (simp_all add: demo_header_def POLICY_SETBYUID_SIZE_def get_ptype_def get_u32_def get_u16_def)

lemma demo_request_result:
  "\<exists>r st'. pe_dispatch_policy demo_pol_env demo_env demo_request demo_pol_state = Some (r, st') \<and>
     pol_files st' = [(5, PE_PRIO_USER1) \<mapsto> [10]]"
proof -
  have "pe_dispatch_policy demo_pol_env demo_env demo_request demo_pol_state =
      (if True then set_finish demo_pol_env demo_env (upload_request 3 5 5 PE_PRIO_USER1 2 [1, 2, 10])
         (request_update (upload_request 3 5 5 PE_PRIO_USER1 2 [1, 2, 10])
           (demo_pol_state\<lparr>preqs := new_request demo_request # preqs demo_pol_state\<rparr>)) else Some (None, demo_pol_state))"
    by (subst upload_first [where hdr = demo_header and c = "[1, 2, 10]" and e = True])
      (auto simp: demo_header_values demo_request_def demo_pol_env_def demo_pol_state_def no_io_errors_def fits_def
        pe_policy_request_find_def PE_PRIO_USER1_def PE_PRIO_MAX_def)
  then have "pe_dispatch_policy demo_pol_env demo_env demo_request demo_pol_state =
      set_finish demo_pol_env demo_env (upload_request 3 5 5 PE_PRIO_USER1 2 [1, 2, 10])
         (request_update (upload_request 3 5 5 PE_PRIO_USER1 2 [1, 2, 10])
           (demo_pol_state\<lparr>preqs := new_request demo_request # preqs demo_pol_state\<rparr>))" by simp
  also have "\<dots> = Some (Some (3, POL_OK), installed demo_env (upload_request 3 5 5 PE_PRIO_USER1 2 [1, 2, 10]) [10]
      \<lparr>rs_addr = 77, alf_queue = [], sfs_queue = [], sb_queue = [], ctx_queue = []\<rparr>
      (request_update (upload_request 3 5 5 PE_PRIO_USER1 2 [1, 2, 10])
        (demo_pol_state\<lparr>preqs := new_request demo_request # preqs demo_pol_state\<rparr>)))"
    by (subst set_finish_installs) (auto simp: no_io_errors_def demo_pol_env_def upload_request_def)
  finally have "pe_dispatch_policy demo_pol_env demo_env demo_request demo_pol_state = \<dots>" .
  moreover have "pol_files (installed demo_env (upload_request 3 5 5 PE_PRIO_USER1 2 [1, 2, 10]) [10] rs (request_update q
      (demo_pol_state\<lparr>preqs := l\<rparr>))) = [(5, PE_PRIO_USER1) \<mapsto> [10]]" for rs q l
    by (simp add: installed_def upload_request_def request_update_def demo_pol_state_def)
  ultimately show ?thesis by blast
qed


text \<open>
  C22. An upload whose signature fits into the first message installs exactly what was sent: the policy
  file holds the bytes after the signature from all messages in their order, the signature file the first \<open>siglen\<close> bytes,
  the engine gets the parsed ruleset, only the last message is answered, and no request is left behind.
\<close>

theorem policy_upload_exact:
  fixes siglen :: nat
  assumes "pe_policy_request_find tok st = None" and "no_io_errors pe"
    and "length hdr = POLICY_SETBYUID_SIZE" and "get_ptype hdr = ANOUBIS_PTYPE_SETBYUID"
    and "get_u32 hdr 4 = u" and "unat (get_u32 hdr 8) = prio" and "get_u16 hdr 12 = int siglen"
    and "prio < PE_PRIO_MAX" and "auth = 0 \<or> auth = u \<and> prio = PE_PRIO_USER1"
    and "has_key pe u prio \<Longrightarrow> siglen > 0 \<and> sig_verify pe u prio (drop siglen (concat (c # cs))) (take siglen c)"
    and "siglen \<le> length c" and "fits pe (int (length (concat (c # cs))))"
    and "apn_parse pe (prio \<noteq> PE_PRIO_USER1) (drop siglen (concat (c # cs))) = Some rs"
  shows "\<exists>st'. pol_dispatch_all pe en (upload_msgs tok auth hdr c cs) st = Some (replicate (length cs) None @ [Some (tok, POL_OK)], st') \<and>
     preqs st' = preqs st \<and> pol_files st' = (pol_files st)((u, prio) \<mapsto> drop siglen (concat (c # cs))) \<and>
     (siglen > 0 \<longrightarrow> sig_files st' = (sig_files st)((u, prio) \<mapsto> take siglen c)) \<and>
     pol_engine st' = pe_user_insert_rs en rs u prio (pol_engine st)"
proof -
  define m where "m = \<lparr>pq_token = tok, pq_auth_uid = auth, pq_start = True, pq_end = (cs = []), pq_data = hdr @ c\<rparr>"
  define q where "q = upload_request tok auth u prio siglen c"
  define st1 where "st1 = st\<lparr>preqs := new_request m # preqs st\<rparr>"
  define data where "data = drop siglen c @ concat cs"
  have data: "drop siglen (concat (c # cs)) = data" using assms(11) by (simp add: data_def)
  have "fits pe (int (length c))" using assms(12) by (auto simp: fits_def)
  then have first: "pe_dispatch_policy pe en m st =
      (if cs = [] then set_finish pe en q (request_update q st1) else Some (None, request_update q st1))"
    by (intro upload_first [where hdr = hdr and c = c]) (use assms(1-11) in \<open>auto simp: m_def q_def st1_def\<close>)
  have res: "pol_dispatch_all pe en (upload_msgs tok auth hdr c cs) st =
      Some (replicate (length cs) None @ [Some (tok, POL_OK)], installed en q data rs st1)"
  proof (cases "cs = []")
    case True
    have "set_finish pe en q (request_update q st1) = Some (Some (tok, POL_OK), installed en q data rs st1)"
      using set_finish_installs [of pe q rs en "request_update q st1"] assms(2,10,13) True
      by (simp add: installed_update data_def q_def upload_request_def)
    with True first show ?thesis by (simp add: upload_msgs_def m_def)
  next
    case False
    have "pe_policy_request_find tok (request_update q st1) = Some q"
      using find_update [of q st1 "new_request m"]
      by (simp add: st1_def pe_policy_request_find_def new_request_def m_def q_def upload_request_def)
    then have "pol_dispatch_all pe en (more_msgs tok auth cs) (request_update q st1) =
        Some (replicate (length cs - 1) None @ [Some (tok, POL_OK)], installed en q data rs (request_update q st1))"
      using more_upload [of cs tok "request_update q st1" q auth pe rs en] assms(2,10-13) False
      by (simp add: data_def data [unfolded data_def] q_def upload_request_def)
    with False first show ?thesis
      by (cases cs) (simp_all add: upload_msgs_def m_def installed_update)
  qed
  moreover have "preqs (installed en q data rs st1) = preqs st"
    using assms(1) by (auto simp: installed_def st1_def new_request_def m_def q_def upload_request_def filter_id_conv
        pe_policy_request_find_def find_None_iff)
  moreover have "pol_files (installed en q data rs st1) = (pol_files st)((u, prio) \<mapsto> data)"
      "siglen > 0 \<longrightarrow> sig_files (installed en q data rs st1) = (sig_files st)((u, prio) \<mapsto> take siglen c)"
      "pol_engine (installed en q data rs st1) = pe_user_insert_rs en rs u prio (pol_engine st)"
    by (simp_all add: installed_def st1_def q_def upload_request_def)
  ultimately show ?thesis unfolding data by blast
qed

theorem policy_upload_exact_witness:
  "\<exists>st'. pol_dispatch_all demo_pol_env demo_env (upload_msgs 3 5 demo_header [1, 2, 10] [[20], [30]]) demo_pol_state =
       Some ([None, None, Some (3, POL_OK)], st') \<and>
     pol_files st' = [(5, PE_PRIO_USER1) \<mapsto> [10, 20, 30]] \<and> sig_files st' = [(5, PE_PRIO_USER1) \<mapsto> [1, 2]]"
proof -
  let ?rs = "\<lparr>rs_addr = 77, alf_queue = [], sfs_queue = [], sb_queue = [], ctx_queue = []\<rparr>"
  have "\<exists>st'. pol_dispatch_all demo_pol_env demo_env (upload_msgs 3 5 demo_header [1, 2, 10] [[20], [30]]) demo_pol_state =
       Some (replicate (length [[20::8 word], [30]]) None @ [Some (3, POL_OK)], st') \<and>
     preqs st' = preqs demo_pol_state \<and>
     pol_files st' = (pol_files demo_pol_state)((5, PE_PRIO_USER1) \<mapsto> drop 2 (concat ([1, 2, 10] # [[20], [30]]))) \<and>
     (0 < (2::nat) \<longrightarrow> sig_files st' = (sig_files demo_pol_state)((5, PE_PRIO_USER1) \<mapsto> take 2 [1, 2, 10])) \<and>
     pol_engine st' = pe_user_insert_rs demo_env ?rs 5 PE_PRIO_USER1 (pol_engine demo_pol_state)"
    by (rule policy_upload_exact)
      (simp_all add: demo_header_values demo_pol_env_def demo_pol_state_def no_io_errors_def fits_def pe_policy_request_find_def
        PE_PRIO_USER1_def PE_PRIO_MAX_def)
  then show ?thesis by (auto simp: demo_pol_state_def numeral_2_eq_2)
qed

text \<open>
  C38. A signature that is split over two messages is not handled: the second part is written with the
  length of the whole signature. Either more bytes than the signature has go into the signature file and are missing from the
  policy, or the code reads beyond the end of the message.
\<close>

theorem split_signature_bug:
  assumes "0 < q_written q" and "q_written q < q_siglen q" and "int (length buf) > q_siglen q - q_written q"
    and "int (length (q_sig q)) = q_written q" and "q_data q = []"
  shows "if q_siglen q \<le> int (length buf)
     then \<exists>q'. set_write buf q = Some q' \<and> int (length (q_sig q')) > q_siglen q' \<and>
            q_data q' \<noteq> drop (nat (q_siglen q - q_written q)) buf
     else set_write buf q = None"
proof -
  define n where "n = nat (q_siglen q)"
  have n: "sig_part q (int (length buf)) = int n" using assms by (simp add: sig_part_def n_def)
  have "length (drop n buf) \<noteq> length (drop (nat (q_siglen q - q_written q)) buf)" if "n \<le> length buf"
    using that assms by (simp add: n_def)
  then have "drop n buf \<noteq> drop (nat (q_siglen q - q_written q)) buf" if "n \<le> length buf" using that by metis
  then show ?thesis using assms n by (auto simp: set_write_def n_def Let_def)
qed

theorem split_signature_bug_witness:
  "\<exists>q'. set_write [1, 2, 3, 4, 5] \<lparr>q_token = 3, q_ptype = ANOUBIS_PTYPE_SETBYUID, q_authuid = 5, q_uid = 5,
       q_prio = 1, q_written = 2, q_siglen = 4, q_sig = [8, 9], q_data = []\<rparr> = Some q' \<and>
     length (q_sig q') > 4 \<and> q_data q' \<noteq> [3, 4, 5]"
  using split_signature_bug [of "\<lparr>q_token = 3, q_ptype = ANOUBIS_PTYPE_SETBYUID, q_authuid = 5, q_uid = 5,
       q_prio = 1, q_written = 2, q_siglen = 4, q_sig = [8, 9], q_data = []\<rparr>" "[1, 2, 3, 4, 5]"]
  by (simp add: set_write_def sig_part_def)

end
