(* ===== verification/Abuf.thy ===== *)
theory Abuf
  imports SfsCache
begin

text \<open>
  The checked buffers of \<^verbatim>\<open>src/src/anoubisd/anoubis_alloc.c\<close> and \<^verbatim>\<open>anoubis_alloc.h\<close>. A buffer is the list of
  the bytes between its pointer and its length; \<^verbatim>\<open>ABUF_EMPTY\<close> is the empty list. \<^verbatim>\<open>ASSERT_MEM\<close> is \<^verbatim>\<open>assert\<close>
  in the daemon, so that a failed check ends the process: the result \<open>Abort\<close>.
\<close>

datatype 'a outcome = Ok 'a | Err errno | Abort

fun and_then :: "'a outcome \<Rightarrow> ('a \<Rightarrow> 'b outcome) \<Rightarrow> 'b outcome" where
  "and_then (Ok x) f = f x"
| "and_then (Err e) f = Err e"
| "and_then Abort f = Abort"

lemma and_then_Ok: "and_then r f = Ok y \<longleftrightarrow> (\<exists>x. r = Ok x \<and> f x = Ok y)"
  by (cases r) auto

subsection \<open>Bounds\<close>

text \<open>Offsets and lengths are \<^verbatim>\<open>unsigned int\<close>: the sum wraps at \<open>2\<^sup>3\<^sup>2\<close>.\<close>

definition abuf_check :: "bytes \<Rightarrow> nat \<Rightarrow> nat \<Rightarrow> bool" where
  "abuf_check b off len \<longleftrightarrow> off \<le> length b \<and> len \<le> length b \<and> unat (of_nat off + of_nat len :: u32) \<le> length b"

lemma abuf_check_iff: "length b < 2 ^ 31 \<Longrightarrow> abuf_check b off len \<longleftrightarrow> off + len \<le> length b"
proof -
  assume b: "length b < 2 ^ 31"
  have "unat (of_nat off + of_nat len :: u32) = off + len" if "off \<le> length b" "len \<le> length b"
    using that b by (simp add: unat_of_nat take_bit_nat_eq_self flip: of_nat_add)
  then show ?thesis by (auto simp: abuf_check_def)
qed

definition abuf_check_ptr :: "bytes \<Rightarrow> nat \<Rightarrow> nat \<Rightarrow> bytes outcome" where
  "abuf_check_ptr b off len = (if abuf_check b off len then Ok (drop off b) else Abort)"

definition abuf_open :: "bytes \<Rightarrow> nat \<Rightarrow> bytes outcome" where
  "abuf_open b off = (if off \<le> length b then Ok (drop off b) else Abort)"

definition abuf_limit :: "bytes \<Rightarrow> nat \<Rightarrow> bytes" where
  "abuf_limit b len = (if len < length b then take len b else b)"

lemma abuf_limit_take [simp]: "abuf_limit b len = take len b"
  by (simp add: abuf_limit_def)

definition abuf_toptr :: "bytes \<Rightarrow> nat \<Rightarrow> nat \<Rightarrow> bytes outcome" where
  "abuf_toptr b off len = (if abuf_check b off len then Ok (take len (drop off b)) else Abort)"

lemma abuf_toptr_Ok: "off + len \<le> length b \<Longrightarrow> length b < 2 ^ 31 \<Longrightarrow> abuf_toptr b off len = Ok (take len (drop off b))"
  by (simp add: abuf_toptr_def abuf_check_iff)

subsection \<open>Comparison\<close>

text \<open>The sign of \<^verbatim>\<open>memcmp\<close> on the first \<open>n\<close> bytes.\<close>

fun memcmp :: "bytes \<Rightarrow> bytes \<Rightarrow> nat \<Rightarrow> int" where
  "memcmp (x # xs) (y # ys) (Suc n) = (if x < y then -1 else if y < x then 1 else memcmp xs ys n)"
| "memcmp _ _ _ = 0"

text \<open>For equal lengths below \<^verbatim>\<open>cmplen\<close> the code compares the first buffer with itself.\<close>

definition abuf_ncmp :: "bytes \<Rightarrow> bytes \<Rightarrow> nat \<Rightarrow> int" where
  "abuf_ncmp b1 b2 cmplen =
     (if cmplen \<le> length b1 \<and> cmplen \<le> length b2 then memcmp b1 b2 cmplen
      else if length b1 = length b2 then memcmp b1 b1 (length b1)
      else if length b1 < length b2
      then (let ret = memcmp b1 b2 (length b1) in if ret = 0 then -1 else ret)
      else (let ret = memcmp b1 b2 (length b2) in if ret = 0 then 1 else ret))"

definition abuf_equal :: "bytes \<Rightarrow> bytes \<Rightarrow> bool" where
  "abuf_equal b1 b2 =
     (if length b1 \<noteq> length b2 then False else if length b1 = 0 then True else memcmp b1 b2 (length b1) = 0)"

lemma memcmp_zero: "n \<le> length xs \<Longrightarrow> n \<le> length ys \<Longrightarrow> memcmp xs ys n = 0 \<longleftrightarrow> take n xs = take n ys"
  by (induction xs ys n rule: memcmp.induct) (auto simp: neq_iff)

lemma abuf_equal_iff [simp]: "abuf_equal b1 b2 \<longleftrightarrow> b1 = b2"
  by (auto simp: abuf_equal_def memcmp_zero)

text \<open>What the comment of \<^verbatim>\<open>abuf_ncmp\<close> promises holds when the first buffer has \<^verbatim>\<open>cmplen\<close> bytes.\<close>

lemma abuf_ncmp_prefix:
  "n \<le> length b1 \<Longrightarrow> abuf_ncmp b1 b2 n = 0 \<longleftrightarrow> n \<le> length b2 \<and> take n b1 = take n b2"
  by (auto simp: abuf_ncmp_def memcmp_zero Let_def)

lemma abuf_ncmp_wrong: "abuf_ncmp [1] [2] 2 = 0"
  by (simp add: abuf_ncmp_def)

subsection \<open>Copies and strings\<close>

definition blit :: "bytes \<Rightarrow> nat \<Rightarrow> bytes \<Rightarrow> bytes" where
  "blit dst off src = take off dst @ src @ drop (off + length src) dst"

definition abuf_copy_part :: "bytes \<Rightarrow> nat \<Rightarrow> bytes \<Rightarrow> nat \<Rightarrow> nat \<Rightarrow> bytes outcome" where
  "abuf_copy_part dst dstoff src srcoff len =
     (if \<not> abuf_check dst dstoff len \<or> \<not> abuf_check src srcoff len then Abort
      else Ok (blit dst dstoff (take len (drop srcoff src))))"

definition abuf_copy :: "bytes \<Rightarrow> bytes \<Rightarrow> bytes outcome" where
  "abuf_copy dst src = (if abuf_check dst 0 (length src) then Ok (blit dst 0 src) else Abort)"

lemma length_blit [simp]: "off + length src \<le> length dst \<Longrightarrow> length (blit dst off src) = length dst"
  by (simp add: blit_def)

definition byte_char :: "u8 \<Rightarrow> char" where "byte_char b = char_of (unat b)"
definition char_byte :: "char \<Rightarrow> u8" where "char_byte c = of_char c"

definition chars :: "bytes \<Rightarrow> string" where "chars b = map byte_char b"

text \<open>The string that starts at an offset; \<open>None\<close> if no NUL byte follows.\<close>

definition abuf_tostr :: "bytes \<Rightarrow> nat \<Rightarrow> string option" where
  "abuf_tostr b off = (if 0 \<in> set (drop off b) then Some (chars (takeWhile (\<lambda>x. x \<noteq> 0) (drop off b))) else None)"

definition hexdigit :: "nat \<Rightarrow> char" where
  "hexdigit n = char_of (if n < 10 then 48 + n else 87 + n)"

definition hex_byte :: "u8 \<Rightarrow> string" where
  "hex_byte b = [hexdigit (unat b div 16), hexdigit (unat b mod 16)]"

definition abuf_convert_tohexstr :: "bytes \<Rightarrow> string option" where
  "abuf_convert_tohexstr b = (if b = [] then None else Some (concat (map hex_byte b)))"

text \<open>The printed key-ID is what \<^verbatim>\<open>sfshash_readsum\<close> parses.\<close>

lemma chartohex_hexdigit: "n < 16 \<Longrightarrow> chartohex (hexdigit n) = Some n"
  by (auto simp: chartohex_def hexdigit_def Let_def of_char_of take_bit_eq_mod)

lemma hex_bytes_tohexstr: "hex_bytes (concat (map hex_byte b)) = Inr b"
proof (induction b)
  case (Cons x xs)
  have "unat x < 256" using unsigned_less [of x, where 'a = nat] by simp
  then have "unat x div 16 < 16" "unat x mod 16 < 16" by auto
  with Cons show ?case by (simp add: hex_byte_def chartohex_hexdigit)
qed simp

lemma tohexstr_inj: "abuf_convert_tohexstr a = abuf_convert_tohexstr b \<Longrightarrow> a = b"
proof (cases "a = [] \<or> b = []")
  case False
  assume "abuf_convert_tohexstr a = abuf_convert_tohexstr b"
  with False have "hex_bytes (concat (map hex_byte a)) = hex_bytes (concat (map hex_byte b))"
    by (simp add: abuf_convert_tohexstr_def)
  then show ?thesis by (simp only: hex_bytes_tohexstr sum.inject)
qed (auto simp: abuf_convert_tohexstr_def split: if_splits)

end
