(* ===== verification/SfsPath.thy ===== *)
theory SfsPath
  imports Abuf Playground
begin

text \<open>
  Names in the SFS tree, the first part of \<^verbatim>\<open>src/src/anoubisd/sfs.c\<close>: the escaping of path names, the check of
  user supplied paths and the names of the files with checksums and signatures.

  Shown here: a converted path stays below the root of the tree, distinct paths have distinct directories, and
  the names that a listing returns are those of the system.
\<close>

subsection \<open>Escaping\<close>

text \<open>The copy loop of \<^verbatim>\<open>insert_escape_seq\<close>: every star is doubled.\<close>

fun esc :: "string \<Rightarrow> string" where
  "esc [] = []"
| "esc (c # cs) = (if c = CHR ''*'' then CHR ''*'' # CHR ''*'' # esc cs else c # esc cs)"

text \<open>\<^verbatim>\<open>while (k > 0) { if (newpath[k] == '/') break; k--; }\<close>\<close>

fun last_slash :: "string \<Rightarrow> nat \<Rightarrow> nat" where
  "last_slash s 0 = 0"
| "last_slash s (Suc k) = (if Suc k < length s \<and> s ! Suc k = CHR ''/'' then Suc k else last_slash s k)"

definition insert_escape_seq :: "string \<Rightarrow> bool \<Rightarrow> string" where
  "insert_escape_seq path dir =
     (let newpath = esc path
      in if dir then newpath
         else (let k = last_slash newpath (length newpath) + 1
               in take k newpath @ CHR ''*'' # drop k newpath))"

text \<open>
  The copy loop of \<^verbatim>\<open>remove_escape_seq\<close>. A single star makes the loop advance in the result without a store:
  \<open>None\<close> is a byte that is not initialised.
\<close>

fun unesc :: "string \<Rightarrow> char option list" where
  "unesc [] = []"
| "unesc [c] = [if c = CHR ''*'' then None else Some c]"
| "unesc (c # d # cs) =
     (if c = CHR ''*'' then (if d = CHR ''*'' then Some d # unesc cs else None # unesc (d # cs))
      else Some c # unesc (d # cs))"

text \<open>The result \<open>None\<close> is a store behind the allocated memory.\<close>

definition remove_escape_seq :: "string \<Rightarrow> char option list option" where
  "remove_escape_seq name =
     (let stars = count_list name (CHR ''*'');
          cnt = stars div 2; odd_stars = odd stars;
          sz = length name - cnt + 1 + (if odd_stars then 0 else 1);
          out = unesc (if odd_stars then drop 1 name else name);
          out' = (if odd_stars then out else out @ [Some (CHR ''/'')])
      in if length out' < sz then Some out' else None)"

fun strstr :: "string \<Rightarrow> string \<Rightarrow> bool" where
  "strstr [] pat \<longleftrightarrow> pat = []"
| "strstr (c # cs) pat \<longleftrightarrow> take (length pat) (c # cs) = pat \<or> strstr cs pat"

text \<open>
  \<^verbatim>\<open>__convert_user_path\<close>; the prefix is \<^verbatim>\<open>SFS_CHECKSUMROOT\<close> or \<^verbatim>\<open>SFS_CHECKSUMCHROOT\<close>. Reads before the start of
  the string do not happen: the path starts with a slash.
\<close>

definition convert_user_path :: "string \<Rightarrow> string \<Rightarrow> bool \<Rightarrow> errno + string" where
  "convert_user_path root path is_dir =
     (if path = [] \<or> path ! 0 \<noteq> CHR ''/'' then Inl EINVAL
      else if strstr path ''/../'' \<or> strstr path ''/./'' \<or> strstr path ''//'' then Inl EINVAL
      else if path = ''/.'' \<or> path = ''/..'' then Inl EINVAL
      else
        (let i = length path - 1
         in if path ! i = CHR ''.'' \<and> (path ! (i - 1) = CHR ''/'' \<or> path ! (i - 1) = CHR ''.'' \<and> path ! (i - 2) = CHR ''/'')
            then Inl EINVAL
            else if path ! i = CHR ''/'' \<and> (\<not> is_dir \<or> i \<noteq> 0) then Inl EINVAL
            else Inr (root @ insert_escape_seq path is_dir)))"

subsection \<open>Path components\<close>

definition path_of :: "string list \<Rightarrow> string" where
  "path_of cs = concat (map ((#) (CHR ''/'')) cs)"

definition good_comp :: "string \<Rightarrow> bool" where
  "good_comp c \<longleftrightarrow> c \<noteq> [] \<and> c \<noteq> ''.'' \<and> c \<noteq> ''..'' \<and> CHR ''/'' \<notin> set c"

lemma path_of_simps [simp]:
  "path_of [] = []" "path_of (c # cs) = CHR ''/'' # c @ path_of cs" "path_of (cs @ ds) = path_of cs @ path_of ds"
  by (auto simp: path_of_def)

fun split_slash :: "string \<Rightarrow> string list" where
  "split_slash [] = [[]]"
| "split_slash (c # cs) =
     (if c = CHR ''/'' then [] # split_slash cs
      else case split_slash cs of [] \<Rightarrow> [[c]] | d # ds \<Rightarrow> (c # d) # ds)"

lemma split_slash_path: "path_of (split_slash s) = CHR ''/'' # s"
  by (induction s) (auto split: list.splits)

lemma split_slash_no_slash: "c \<in> set (split_slash s) \<Longrightarrow> CHR ''/'' \<notin> set c"
  by (induction s arbitrary: c) (auto split: if_splits list.splits)

lemma strstr_iff: "strstr s pat \<longleftrightarrow> (\<exists>a b. s = a @ pat @ b)"
proof (induction s)
  case (Cons c cs)
  have "take (length pat) (c # cs) = pat \<longleftrightarrow> (\<exists>b. c # cs = pat @ b)"
    by (metis append_take_drop_id append_eq_conv_conj)
  with Cons show ?case by (auto simp: Cons_eq_append_conv)
qed auto

text \<open>A path that passes the checks consists of proper components, apart from the root directory.\<close>

lemma path_nth_suffix:
  "(a @ [x]) ! (length (a @ [x]) - 1) = x" "(a @ [y, x]) ! (length (a @ [y, x]) - 1) = x"
  "(a @ [y, x]) ! (length (a @ [y, x]) - 1 - 1) = y" "(a @ [z, y, x]) ! (length (a @ [z, y, x]) - 1) = x"
  "(a @ [z, y, x]) ! (length (a @ [z, y, x]) - 1 - 1) = y" "(a @ [z, y, x]) ! (length (a @ [z, y, x]) - 1 - 2) = z"
  by (auto simp: nth_append numeral_2_eq_2)

lemma convert_checked:
  assumes "convert_user_path root p d = Inr s"
  shows "\<not> strstr p ''/../''" "\<not> strstr p ''/./''" "\<not> strstr p ''//''" "\<not> (\<exists>a. p = a @ ''/.'')" "\<not> (\<exists>a. p = a @ ''/..'')"
    "\<exists>a. p = a @ ''/'' \<Longrightarrow> p = ''/'' \<and> d" "\<exists>q. p = CHR ''/'' # q" "s = root @ insert_escape_seq p d"
proof -
  let ?i = "length p - 1"
  have c: "\<not> (p ! ?i = CHR ''.'' \<and> (p ! (?i - 1) = CHR ''/'' \<or> p ! (?i - 1) = CHR ''.'' \<and> p ! (?i - 2) = CHR ''/''))"
    "\<not> (p ! ?i = CHR ''/'' \<and> (\<not> d \<or> ?i \<noteq> 0))" "p \<noteq> []" "p ! 0 = CHR ''/''"
    using assms by (auto simp: convert_user_path_def Let_def simp del: strstr.simps split: if_splits)
  show "\<not> strstr p ''/../''" "\<not> strstr p ''/./''" "\<not> strstr p ''//''" "s = root @ insert_escape_seq p d"
    using assms by (auto simp: convert_user_path_def Let_def simp del: strstr.simps split: if_splits)
  show "\<not> (\<exists>a. p = a @ ''/.'')" using c(1) path_nth_suffix(2,3) by metis
  show "\<not> (\<exists>a. p = a @ ''/..'')" using c(1) path_nth_suffix(4-6) by metis
  show "\<exists>q. p = CHR ''/'' # q" using c(3,4) by (cases p) auto
  assume "\<exists>a. p = a @ ''/''"
  then obtain a where a: "p = a @ ''/''" ..
  then have "p ! ?i = CHR ''/''" using path_nth_suffix(1) by metis
  with c(2) a show "p = ''/'' \<and> d" by simp
qed

lemma path_of_mem: "c \<in> set cs \<Longrightarrow> (\<exists>a b. path_of cs = a @ CHR ''/'' # c @ CHR ''/'' # b) \<or> (\<exists>a. path_of cs = a @ CHR ''/'' # c)"
proof -
  assume "c \<in> set cs"
  then obtain as bs where cs: "cs = as @ c # bs" by (meson split_list)
  then show ?thesis by (cases bs) auto
qed

lemma convert_components:
  assumes "convert_user_path root p d = Inr s"
  obtains "p = ''/''" d "s = root @ ''/''"
  | cs where "p = path_of cs" "cs \<noteq> []" "\<forall>c\<in>set cs. good_comp c" "s = root @ insert_escape_seq p d"
proof (cases "p = ''/''")
  case True
  with convert_checked(6,8) [OF assms] that(1) show ?thesis by (auto simp: insert_escape_seq_def)
next
  case False
  obtain q where q: "p = CHR ''/'' # q" using convert_checked(7) [OF assms] by auto
  let ?cs = "split_slash q"
  have p: "p = path_of ?cs" by (simp add: q split_slash_path)
  have "good_comp c" if c: "c \<in> set ?cs" for c
  proof -
    have n: "\<not> strstr p (CHR ''/'' # c @ ''/'')" if "c \<in> {'''', ''.'', ''..''}"
      using that convert_checked(1-3) [OF assms] by auto
    have e: "\<not> (\<exists>a. p = a @ CHR ''/'' # c)" if "c \<in> {'''', ''.'', ''..''}"
      using that convert_checked(4-6) [OF assms] False by auto
    show ?thesis
    proof (rule ccontr)
      assume "\<not> good_comp c"
      then have m: "c \<in> {'''', ''.'', ''..''}" using split_slash_no_slash [OF c] by (auto simp: good_comp_def)
      from path_of_mem [OF c] n [OF m] e [OF m] show False unfolding p [symmetric] strstr_iff by fastforce
    qed
  qed
  moreover have "?cs \<noteq> []" using p q by auto
  ultimately show ?thesis using that(2) p convert_checked(8) [OF assms] by blast
qed

subsection \<open>Escaping and components\<close>

lemma esc_append [simp]: "esc (a @ b) = esc a @ esc b"
  by (induction a) auto

lemma esc_path_of: "esc (path_of cs) = path_of (map esc cs)"
  by (induction cs) auto

lemma esc_slash [simp]: "CHR ''/'' \<in> set (esc s) \<longleftrightarrow> CHR ''/'' \<in> set s"
  by (induction s) auto

lemma esc_inj: "esc a = esc b \<Longrightarrow> a = b"
proof (induction a arbitrary: b)
  case Nil
  then show ?case by (cases b) (auto split: if_splits)
next
  case (Cons x xs)
  then show ?case by (cases b) (auto split: if_splits)
qed

lemma esc_stars: "even (count_list (esc s) (CHR ''*''))"
  by (induction s) auto

lemma esc_dots: "esc c = ''.'' \<longleftrightarrow> c = ''.''" "esc c = ''..'' \<longleftrightarrow> c = ''..''" "esc c = [] \<longleftrightarrow> c = []"
  using esc_inj [of c "''.''"] esc_inj [of c "''..''"] esc_inj [of c "[]"] by auto

lemma last_slash_here: "length a > 0 \<Longrightarrow> last_slash (a @ CHR ''/'' # c) (length a) = length a"
  by (cases "length a") (auto simp: nth_append)

lemma last_slash_path:
  "n \<le> length c + 1 \<Longrightarrow> CHR ''/'' \<notin> set c \<Longrightarrow> last_slash (a @ CHR ''/'' # c) (length a + n) = length a"
proof (induction n)
  case 0
  then show ?case by (cases a) (auto simp: last_slash_here [simplified])
next
  case (Suc n)
  then have "n < length c \<Longrightarrow> c ! n \<noteq> CHR ''/''" using nth_mem by metis
  then have "\<not> (Suc (length a + n) < length (a @ CHR ''/'' # c) \<and> (a @ CHR ''/'' # c) ! Suc (length a + n) = CHR ''/'')"
    by (auto simp: nth_append)
  moreover have "last_slash (a @ CHR ''/'' # c) (length a + n) = length a" using Suc by simp
  ultimately show ?case unfolding add_Suc_right last_slash.simps by argo
qed

text \<open>The directory of a file: the last component gets a star.\<close>

lemma insert_escape_file:
  "\<forall>c\<in>set (cs @ [c]). CHR ''/'' \<notin> set c \<Longrightarrow>
   insert_escape_seq (path_of (cs @ [c])) False = path_of (map esc cs @ [CHR ''*'' # esc c])"
proof -
  assume a: "\<forall>c\<in>set (cs @ [c]). CHR ''/'' \<notin> set c"
  let ?a = "path_of (map esc cs)"
  have e: "esc (path_of (cs @ [c])) = ?a @ CHR ''/'' # esc c" by (simp add: esc_path_of)
  have "last_slash (?a @ CHR ''/'' # esc c) (length ?a + (length (esc c) + 1)) = length ?a"
    by (rule last_slash_path) (use a in auto)
  then show ?thesis by (simp add: insert_escape_seq_def e Let_def del: path_of_simps(3) esc_append) simp
qed

lemma insert_escape_dir: "insert_escape_seq (path_of cs) True = path_of (map esc cs)"
  by (simp add: insert_escape_seq_def esc_path_of)

lemma path_of_inj:
  "path_of cs = path_of ds \<Longrightarrow> \<forall>c\<in>set cs. CHR ''/'' \<notin> set c \<Longrightarrow> \<forall>c\<in>set ds. CHR ''/'' \<notin> set c \<Longrightarrow> cs = ds"
proof (induction cs arbitrary: ds)
  case Nil
  then show ?case by (cases ds) auto
next
  case (Cons c cs)
  then obtain d ds' where ds: "ds = d # ds'" by (cases ds) auto
  have tw: "takeWhile (\<lambda>x. x \<noteq> CHR ''/'') (x @ path_of xs) = x \<and> dropWhile (\<lambda>x. x \<noteq> CHR ''/'') (x @ path_of xs) = path_of xs"
    if "CHR ''/'' \<notin> set x" for x xs
    using that by (cases xs) (auto simp: takeWhile_append2 takeWhile_append dropWhile_append)
  have "c @ path_of cs = d @ path_of ds'" using Cons.prems(1) ds by simp
  with tw [of c cs] tw [of d ds'] Cons.prems ds have "c = d" "path_of cs = path_of ds'" by (metis list.set_intros(1))+
  with Cons ds show ?case by simp
qed

text \<open>The components of the converted name, and its parts.\<close>

definition sfs_comps :: "string list \<Rightarrow> bool \<Rightarrow> string list" where
  "sfs_comps cs d = (if d then map esc cs else map esc (butlast cs) @ [CHR ''*'' # esc (last cs)])"

lemma insert_escape_comps:
  "cs \<noteq> [] \<Longrightarrow> \<forall>c\<in>set cs. good_comp c \<Longrightarrow> insert_escape_seq (path_of cs) d = path_of (sfs_comps cs d)"
  using insert_escape_file [of "butlast cs" "last cs"] insert_escape_dir [of cs]
  by (cases d) (auto simp: sfs_comps_def good_comp_def in_set_butlastD)

lemma sfs_comps_good: "cs \<noteq> [] \<Longrightarrow> \<forall>c\<in>set cs. good_comp c \<Longrightarrow> \<forall>c\<in>set (sfs_comps cs d). good_comp c"
  by (auto simp: sfs_comps_def good_comp_def esc_dots dest: in_set_butlastD split: if_splits)

lemma sfs_comps_inj:
  assumes "sfs_comps cs d = sfs_comps ds e" "cs \<noteq> []" "ds \<noteq> []"
  shows "cs = ds \<and> d = e"
proof -
  have stars: "even (count_list (last (sfs_comps cs d)) (CHR ''*'')) \<longleftrightarrow> d" if "cs \<noteq> []" for cs d
    using that esc_stars [of "last cs"] by (auto simp: sfs_comps_def last_map)
  have de: "d = e" using stars [of cs d] stars [of ds e] assms by metis
  have inj: "inj esc" by (auto intro: injI esc_inj)
  have "map esc (butlast cs) = map esc (butlast ds) \<and> esc (last cs) = esc (last ds)" if "\<not> d"
    using assms(1) that de by (simp add: sfs_comps_def)
  then have "cs = ds" using assms de inj esc_inj
    by (cases d) (auto simp: sfs_comps_def inj_map_eq_map, metis append_butlast_last_id)
  with de show ?thesis by simp
qed

text \<open>Names of the listing: what \<^verbatim>\<open>remove_escape_seq\<close> makes of the escaped component.\<close>

lemma unesc_esc: "unesc (esc c) = map Some c"
proof (induction c rule: esc.induct)
  case (2 c cs)
  show ?case
  proof (cases "c = CHR ''*''")
    case False
    with 2 show ?thesis by (cases "esc cs") auto
  qed (use 2 in simp)
qed simp

lemma length_esc: "length (esc c) = length c + count_list c (CHR ''*'')"
  by (induction c) auto

lemma count_esc: "count_list (esc c) (CHR ''*'') = 2 * count_list c (CHR ''*'')"
  by (induction c) auto

lemma remove_escape_dir: "remove_escape_seq (esc c) = Some (map Some (c @ ''/''))"
  by (simp add: remove_escape_seq_def Let_def unesc_esc length_esc count_esc)

lemma remove_escape_file: "remove_escape_seq (CHR ''*'' # esc c) = Some (map Some c)"
  by (simp add: remove_escape_seq_def Let_def unesc_esc length_esc count_esc)

subsection \<open>Files in the tree\<close>

text \<open>The unsigned checksums of a user and the signatures of a key in the directory of a file.\<close>

definition uid_file :: "uid \<Rightarrow> string" where "uid_file u = print_int (sint u)"
definition key_file :: "bytes \<Rightarrow> string" where "key_file k = CHR ''k'' # concat (map hex_byte k)"

lemma print_int_inj: "print_int a = print_int b \<Longrightarrow> a = b"
  by (metis option.inject scan_print_int)

lemma uid_file_inj: "uid_file u = uid_file v \<Longrightarrow> u = v"
  unfolding uid_file_def by (rule signed_word_eqI) (rule print_int_inj)

lemma key_file_inj: "key_file k = key_file l \<Longrightarrow> k = l"
proof -
  assume "key_file k = key_file l"
  then have "hex_bytes (concat (map hex_byte k)) = hex_bytes (concat (map hex_byte l))" by (simp add: key_file_def)
  then show ?thesis by (simp only: hex_bytes_tohexstr sum.inject)
qed

text \<open>The characters of these names: no dots, slashes or stars.\<close>

definition plain :: "string \<Rightarrow> bool" where
  "plain s \<longleftrightarrow> (\<forall>c\<in>set s. c \<noteq> CHR ''.'' \<and> c \<noteq> CHR ''/'' \<and> c \<noteq> CHR ''*'')"

lemma plain_uid_file: "plain (uid_file u) \<and> uid_file u \<noteq> [] \<and> hd (uid_file u) \<noteq> CHR ''k''"
proof -
  have d: "c \<noteq> CHR ''.'' \<and> c \<noteq> CHR ''/'' \<and> c \<noteq> CHR ''*'' \<and> c \<noteq> CHR ''k''" if "is_digit c" for c
  proof -
    have "\<not> is_digit (CHR ''.'')" "\<not> is_digit (CHR ''/'')" "\<not> is_digit (CHR ''*'')" "\<not> is_digit (CHR ''k'')"
      by (simp_all add: is_digit_def)
    with that show ?thesis by metis
  qed
  have "\<forall>c\<in>set (print_int i). is_digit c \<or> c = CHR ''-''" for i
    using print_nat_digits [of "nat i"] print_nat_digits [of "nat (- i)"] by (auto simp: print_int_def)
  then have all: "\<forall>c\<in>set (uid_file u). c \<noteq> CHR ''.'' \<and> c \<noteq> CHR ''/'' \<and> c \<noteq> CHR ''*'' \<and> c \<noteq> CHR ''k''"
    unfolding uid_file_def using d by fastforce
  have "uid_file u \<noteq> []" using print_nat_digits by (simp add: print_int_def uid_file_def)
  with all hd_in_set [of "uid_file u"] show ?thesis unfolding plain_def by auto
qed

lemma hexdigit_plain: "n < 16 \<Longrightarrow> hexdigit n \<noteq> CHR ''.'' \<and> hexdigit n \<noteq> CHR ''/'' \<and> hexdigit n \<noteq> CHR ''*''"
proof -
  assume "n < 16"
  then have "chartohex (hexdigit n) = Some n" by (rule chartohex_hexdigit)
  moreover have "chartohex (CHR ''.'') = None" "chartohex (CHR ''/'') = None" "chartohex (CHR ''*'') = None"
    by (simp_all add: chartohex_def)
  ultimately show ?thesis by (metis option.distinct(1))
qed

lemma plain_key_file: "plain (key_file k)"
proof -
  have "\<forall>c\<in>set (hex_byte b). c \<noteq> CHR ''.'' \<and> c \<noteq> CHR ''/'' \<and> c \<noteq> CHR ''*''" for b :: u8
    using hexdigit_plain [of "unat b div 16"] hexdigit_plain [of "unat b mod 16"] unsigned_less [of b, where 'a = nat]
    by (auto simp: hex_byte_def)
  then show ?thesis by (auto simp: plain_def key_file_def)
qed

text \<open>A file name is determined by directory and last component.\<close>

lemma file_name_inj:
  assumes "s @ CHR ''/'' # f = t @ CHR ''/'' # g" "CHR ''/'' \<notin> set f" "CHR ''/'' \<notin> set g"
  shows "s = t \<and> f = g"
proof -
  have "takeWhile (\<lambda>c. c \<noteq> CHR ''/'') (rev (s @ CHR ''/'' # f)) = rev f" "takeWhile (\<lambda>c. c \<noteq> CHR ''/'') (rev (t @ CHR ''/'' # g)) = rev g"
    using assms(2,3) by (simp_all add: takeWhile_append takeWhile_append2)
  with assms(1) show ?thesis by simp
qed

subsection \<open>Safety of names\<close>

lemma convert_comps:
  assumes "convert_user_path root p d = Inr s"
  obtains "p = ''/''" d "s = root @ ''/''"
  | cs where "p = path_of cs" "cs \<noteq> []" "\<forall>c\<in>set cs. good_comp c" "s = root @ path_of (sfs_comps cs d)" "s \<noteq> root @ ''/''"
proof (rule convert_components [OF assms])
  fix cs
  assume c: "p = path_of cs" "cs \<noteq> []" "\<forall>c\<in>set cs. good_comp c" "s = root @ insert_escape_seq p d"
  have s: "s = root @ path_of (sfs_comps cs d)" unfolding c(4) c(1) by (simp add: insert_escape_comps [OF c(2,3)])
  have "path_of ds \<noteq> ''/''" if "\<forall>c\<in>set ds. good_comp c" for ds
    using that by (cases ds) (auto simp: good_comp_def)
  then have "s \<noteq> root @ ''/''" using s sfs_comps_good [OF c(2,3), of d] by simp
  then show ?thesis using that(2) c s by blast
qed (use that(1) in blast)

lemma no_slash_comps: "\<forall>c\<in>set cs. good_comp c \<Longrightarrow> \<forall>c\<in>set cs. CHR ''/'' \<notin> set c"
  by (simp add: good_comp_def)

lemma convert_inj:
  assumes "convert_user_path root p d = Inr s" "convert_user_path root q e = Inr s"
  shows "p = q \<and> d = e"
proof (rule convert_comps [OF assms(1)])
  assume p: "p = ''/''" "d" "s = root @ ''/''"
  show ?thesis by (rule convert_comps [OF assms(2)]) (use p in blast)+
next
  fix cs
  assume c: "p = path_of cs" "cs \<noteq> []" "\<forall>c\<in>set cs. good_comp c" "s = root @ path_of (sfs_comps cs d)" "s \<noteq> root @ ''/''"
  show ?thesis
  proof (rule convert_comps [OF assms(2)])
    fix ds
    assume e: "q = path_of ds" "ds \<noteq> []" "\<forall>c\<in>set ds. good_comp c" "s = root @ path_of (sfs_comps ds e)"
    have "path_of (sfs_comps cs d) = path_of (sfs_comps ds e)" using c(4) e(4) by simp
    then have "sfs_comps cs d = sfs_comps ds e"
      by (rule path_of_inj) (intro no_slash_comps sfs_comps_good c e)+
    from sfs_comps_inj [OF this c(2) e(2)] c(1) e(1) show ?thesis by simp
  qed (use c in blast)
qed

text \<open>
  C19. The directory of a user supplied path lies below the root of the tree: it is the root followed by
  proper components, none of them empty, a single or a double dot. Two requests have the same directory only
  if they name the same path and both name a file or both a directory.
\<close>

theorem sfs_names_safe:
  assumes "convert_user_path root p d = Inr s"
  shows "(\<exists>cs. s = root @ (if p = ''/'' then ''/'' else path_of cs) \<and> (\<forall>c\<in>set cs. good_comp c)) \<and>
    (\<forall>q e. convert_user_path root q e = Inr s \<longrightarrow> p = q \<and> d = e)"
proof
  show "\<exists>cs. s = root @ (if p = ''/'' then ''/'' else path_of cs) \<and> (\<forall>c\<in>set cs. good_comp c)"
  proof (rule convert_comps [OF assms])
    fix cs
    assume c: "p = path_of cs" "cs \<noteq> []" "\<forall>c\<in>set cs. good_comp c" "s = root @ path_of (sfs_comps cs d)"
    then have "p \<noteq> ''/''" by (cases cs) (auto simp: good_comp_def)
    with c(4) sfs_comps_good [OF c(2,3)] show ?thesis by (intro exI [of _ "sfs_comps cs d"] conjI) simp_all
  next
    assume "p = ''/''" "s = root @ ''/''"
    then show ?thesis by (intro exI [of _ "[]"]) simp
  qed
  show "\<forall>q e. convert_user_path root q e = Inr s \<longrightarrow> p = q \<and> d = e" using convert_inj [OF assms] by simp
qed

theorem sfs_names_safe_witness:
  "(\<exists>cs. ''/r/a**b/*c'' = ''/r'' @ (if ''/a*b/c'' = ''/'' then ''/'' else path_of cs) \<and> (\<forall>c\<in>set cs. good_comp c)) \<and>
   convert_user_path ''/r'' ''/a*b/c'' False = Inr ''/r/a**b/*c''"
proof -
  have c: "convert_user_path ''/r'' ''/a*b/c'' False = Inr ''/r/a**b/*c''" by code_simp
  show ?thesis using sfs_names_safe [OF c] c by blast
qed

end
