(* ===== verification/Verify.thy ===== *)
theory Verify
  imports SfsCache
begin

text \<open>
  Verification of the messages between the daemon's processes, \<^verbatim>\<open>src/src/anoubisd/amsg_verify.c\<close>. The macros of
  the file are steps on a state of buffer start, buffer length and accumulated size; a function of the
  file is a sequence of steps. Structures of \<^verbatim>\<open>anoubisd.h\<close> and \<^verbatim>\<open>anoubis_protocol.h\<close> have
  their layout on a 64 bit little endian machine; the layout of the kernel's structures is a parameter.

  Memory is the message. A read outside of it is the result \<open>Fault\<close>, \<open>Ret\<close> is a return out of the macro.
\<close>

subsection \<open>Reading memory\<close>

datatype 'a chk = Val 'a | Ret int | Fault

datatype ftype = F_u8 | F_u16 | F_s16 | F_u32 | F_s32 | N_u16 | N_u32

fun fwidth :: "ftype \<Rightarrow> nat" where
  "fwidth F_u8 = 1" | "fwidth F_u16 = 2" | "fwidth F_s16 = 2" | "fwidth F_u32 = 4" | "fwidth F_s32 = 4"
| "fwidth N_u16 = 2" | "fwidth N_u32 = 4"

fun be_value :: "bytes \<Rightarrow> int" where
  "be_value [] = 0"
| "be_value (x # xs) = uint x * 256 ^ length xs + be_value xs"

definition to_signed :: "nat \<Rightarrow> int \<Rightarrow> int" where
  "to_signed w v = (if v < 2 ^ (w - 1) then v else v - 2 ^ w)"

fun decode :: "ftype \<Rightarrow> bytes \<Rightarrow> int" where
  "decode F_s16 b = to_signed 16 (be_value (rev b))"
| "decode F_s32 b = to_signed 32 (be_value (rev b))"
| "decode N_u16 b = be_value b"
| "decode N_u32 b = be_value b"
| "decode t b = be_value (rev b)"

definition rd :: "bytes \<Rightarrow> int \<Rightarrow> ftype \<Rightarrow> int chk" where
  "rd d p t = (if 0 \<le> p \<and> p + int (fwidth t) \<le> int (length d) then Val (decode t (take (fwidth t) (drop (nat p) d))) else Fault)"

text \<open>Conversion to \<^verbatim>\<open>int\<close>.\<close>

definition as_int :: "int \<Rightarrow> int" where
  "as_int v = to_signed 32 (v mod 2 ^ 32)"

definition SIZE_LIMIT :: int where "SIZE_LIMIT = 50000"

definition size_ok :: "int \<Rightarrow> bool" where
  "size_ok v \<longleftrightarrow> 0 \<le> as_int v \<and> as_int v \<le> SIZE_LIMIT"

subsection \<open>The macros\<close>

record vstate =
  vbuf :: int
  vlen :: int
  vsize :: int

type_synonym vstep = "vstate \<Rightarrow> vstate chk"

fun steps :: "vstep list \<Rightarrow> vstep" where
  "steps [] s = Val s"
| "steps (f # fs) s = (case f s of Val s' \<Rightarrow> steps fs s' | Ret r \<Rightarrow> Ret r | Fault \<Rightarrow> Fault)"

definition field :: "bytes \<Rightarrow> int \<Rightarrow> ftype \<Rightarrow> (int \<Rightarrow> vstep) \<Rightarrow> vstep" where
  "field d p t f s = (case rd d p t of Val v \<Rightarrow> f v s | Ret r \<Rightarrow> Ret r | Fault \<Rightarrow> Fault)"

definition CHECK_SIZE :: "int \<Rightarrow> vstep" where
  "CHECK_SIZE v s = (if size_ok v then Val s else Ret (-1))"

definition CHECK_LEN :: "int \<Rightarrow> vstep" where
  "CHECK_LEN v s = (if size_ok v \<and> size_ok (vlen s) \<and> as_int v \<le> as_int (vlen s) then Val s else Ret (-1))"

definition ADD_SIZE :: "int \<Rightarrow> vstep" where
  "ADD_SIZE v s =
     (if \<not> size_ok v then Ret (-1)
      else if size_ok (vsize s + as_int v) then Val (s\<lparr>vsize := vsize s + as_int v\<rparr>) else Ret (-1))"

definition CAST :: "int \<Rightarrow> vstep" where
  "CAST sz s = (if sz > vlen s then Ret (-1) else Val s)"

definition SHIFT_FIELD :: "int \<Rightarrow> vstep" where
  "SHIFT_FIELD off s =
     (if vlen s \<le> 0 then Ret (-1)
      else if vlen s < off then Ret (-1)
      else ADD_SIZE off (s\<lparr>vbuf := vbuf s + off, vlen := vlen s - off\<rparr>))"

definition SHIFT_CNT :: "int \<Rightarrow> vstep" where
  "SHIFT_CNT cnt s =
     (let shift = as_int cnt
      in if shift < 0 \<or> vlen s < shift then Ret (-1)
         else ADD_SIZE shift (s\<lparr>vbuf := vbuf s + shift, vlen := vlen s - shift\<rparr>))"

definition POP_CNT :: "int \<Rightarrow> vstep" where
  "POP_CNT cnt s =
     (let pop = as_int cnt
      in if pop < 0 \<or> vlen s < pop then Ret (-1) else ADD_SIZE pop (s\<lparr>vlen := vlen s - pop\<rparr>))"

text \<open>Search for a NUL byte, backwards from the end and forwards.\<close>

fun scan_back :: "bytes \<Rightarrow> int \<Rightarrow> nat \<Rightarrow> nat option chk" where
  "scan_back d p 0 = Val None"
| "scan_back d p (Suc i) =
     (case rd d (p + int i) F_u8 of Val v \<Rightarrow> if v = 0 then Val (Some i) else scan_back d p i | Ret r \<Rightarrow> Ret r | Fault \<Rightarrow> Fault)"

fun scan_fwd :: "bytes \<Rightarrow> int \<Rightarrow> nat \<Rightarrow> nat \<Rightarrow> nat option chk" where
  "scan_fwd d p i 0 = Val None"
| "scan_fwd d p i (Suc n) =
     (case rd d (p + int i) F_u8 of
        Val v \<Rightarrow> if v = 0 then Val (Some i) else scan_fwd d p (Suc i) n | Ret r \<Rightarrow> Ret r | Fault \<Rightarrow> Fault)"

definition CHECK_STRING :: "bytes \<Rightarrow> int \<Rightarrow> int \<Rightarrow> vstep" where
  "CHECK_STRING d p l s =
     (if l < 1 \<or> l \<ge> SIZE_LIMIT then Ret (-1)
      else case scan_back d p (nat l) of Val None \<Rightarrow> Ret (-1) | Val (Some i) \<Rightarrow> Val s | Ret r \<Rightarrow> Ret r | Fault \<Rightarrow> Fault)"

definition STRINGS :: "bytes \<Rightarrow> vstep" where
  "STRINGS d s =
     (if vlen s < 1 \<or> vlen s \<ge> SIZE_LIMIT then Ret (-1)
      else case scan_back d (vbuf s) (nat (vlen s)) of
        Val None \<Rightarrow> Ret (-1) | Val (Some i) \<Rightarrow> ADD_SIZE (int i + 1) s | Ret r \<Rightarrow> Ret r | Fault \<Rightarrow> Fault)"

definition SHIFT_STRING :: "bytes \<Rightarrow> vstep" where
  "SHIFT_STRING d s =
     (if vlen s < 1 \<or> vlen s \<ge> SIZE_LIMIT then Ret (-1)
      else case scan_fwd d (vbuf s) 0 (nat (vlen s)) of
        Val None \<Rightarrow> Ret (-1)
      | Val (Some i) \<Rightarrow> ADD_SIZE (int i + 1) (s\<lparr>vlen := vlen s - (int i + 1), vbuf := vbuf s + (int i + 1)\<rparr>)
      | Ret r \<Rightarrow> Ret r | Fault \<Rightarrow> Fault)"

text \<open>A call of another size function on the rest of the buffer.\<close>

type_synonym size_fn = "bytes \<Rightarrow> int \<Rightarrow> int \<Rightarrow> int option"

definition VARIANT :: "size_fn \<Rightarrow> bytes \<Rightarrow> vstep" where
  "VARIANT f d s = (case f d (vbuf s) (vlen s) of None \<Rightarrow> Fault | Some r \<Rightarrow> ADD_SIZE r s)"

definition RETURN :: "int \<Rightarrow> vstep" where
  "RETURN r s = Ret r"

text \<open>A size function: start with size zero and end with \<^verbatim>\<open>RETURN_SIZE\<close>.\<close>

definition size_of :: "vstep list \<Rightarrow> int \<Rightarrow> int \<Rightarrow> int option" where
  "size_of fs b l =
     (case steps fs \<lparr>vbuf = b, vlen = l, vsize = 0\<rparr> of
        Val s \<Rightarrow> Some (if size_ok (vsize s) then vsize s else -1) | Ret r \<Rightarrow> Some r | Fault \<Rightarrow> None)"

definition check_function :: "int \<Rightarrow> size_fn" where
  "check_function sz d b l = Some (if l < sz then -1 else sz)"

definition string_check_function :: "int \<Rightarrow> int \<Rightarrow> size_fn" where
  "string_check_function sz off d b l = size_of [CAST sz, SHIFT_FIELD off, SHIFT_STRING d] b l"

definition len_check_function :: "int \<Rightarrow> int \<Rightarrow> int \<Rightarrow> ftype \<Rightarrow> size_fn" where
  "len_check_function sz off lenoff t d b l =
     size_of [CAST sz, SHIFT_FIELD off, field d (b + lenoff) t CHECK_LEN, field d (b + lenoff) t ADD_SIZE] b l"

subsection \<open>Checksum requests\<close>

definition ANOUBIS_P_CSMULTIREQUEST :: int where "ANOUBIS_P_CSMULTIREQUEST = 0x3110"
definition ANOUBIS_CHECKSUM_OP_ADDSUM :: int where "ANOUBIS_CHECKSUM_OP_ADDSUM = 5"
definition ANOUBIS_CHECKSUM_OP_ADDSIG :: int where "ANOUBIS_CHECKSUM_OP_ADDSIG = 8"
definition SHA256_DIGEST_LENGTH :: int where "SHA256_DIGEST_LENGTH = 32"
definition CSUM_LEN :: int where "CSUM_LEN = 4"

definition amsg_csmulti_request_record_size :: size_fn where
  "amsg_csmulti_request_record_size d b l =
     size_of [CAST 8, SHIFT_FIELD 8, field d (b + 6) N_u16 SHIFT_CNT, SHIFT_STRING d] b l"

text \<open>The loop over the records of a request; a record with length zero ends it.\<close>

function record_loop :: "bytes \<Rightarrow> vstep" where
  "record_loop d s =
     (if 8 > vlen s then Ret (-1)
      else case rd d (vbuf s) N_u32 of
        Val v \<Rightarrow>
          (let reclen = as_int v
           in if reclen = 0 then Val s
              else if reclen > vlen s then Ret (-1)
              else case amsg_csmulti_request_record_size d (vbuf s) reclen of
                None \<Rightarrow> Fault
              | Some reallen \<Rightarrow>
                  (if reallen < 0 \<or> reallen > reclen then Ret (-1)
                   else case SHIFT_CNT reclen s of Val s' \<Rightarrow> record_loop d s' | Ret r \<Rightarrow> Ret r | Fault \<Rightarrow> Fault))
      | Ret r \<Rightarrow> Ret r
      | Fault \<Rightarrow> Fault)"
  by pat_completeness auto

lemma as_int_bounds: "- (2 ^ 31) \<le> as_int v" "as_int v < 2 ^ 31"
  using pos_mod_bound [of "2 ^ 32" v] pos_mod_sign [of "2 ^ 32" v] by (auto simp: as_int_def to_signed_def)

lemma as_int_id: "- (2 ^ 31) \<le> v \<Longrightarrow> v < 2 ^ 31 \<Longrightarrow> as_int v = v"
proof -
  assume v: "- (2 ^ 31) \<le> v" "v < 2 ^ 31"
  show "as_int v = v"
  proof (cases "0 \<le> v")
    case False
    then have "v mod 2 ^ 32 = v + 2 ^ 32" using v mod_pos_pos_trivial [of "v + 2 ^ 32" "2 ^ 32"] by simp
    with False v show ?thesis by (simp add: as_int_def to_signed_def)
  qed (use v in \<open>simp add: as_int_def to_signed_def\<close>)
qed

lemma as_int_idem [simp]: "as_int (as_int v) = as_int v"
  by (rule as_int_id) (use as_int_bounds in auto)

lemma SHIFT_CNT_Val:
  "SHIFT_CNT c s = Val s' \<Longrightarrow> 0 \<le> as_int c \<and> vbuf s' = vbuf s + as_int c \<and> vlen s' = vlen s - as_int c \<and> 0 \<le> vlen s'"
  by (auto simp: SHIFT_CNT_def ADD_SIZE_def Let_def split: if_splits)

termination record_loop
proof (relation "measure (\<lambda>(d, s). nat (vlen s))")
qed (auto dest!: SHIFT_CNT_Val)

definition csmulti_steps :: "bytes \<Rightarrow> int \<Rightarrow> vstep list" where
  "csmulti_steps d b =
     [CAST 16, field d (b + 14) N_u16 (\<lambda>recoff. field d (b + 12) N_u16 (\<lambda>idlen.
        steps [SHIFT_FIELD 16, if recoff < idlen then RETURN (-1) else SHIFT_CNT recoff])),
      record_loop d, SHIFT_CNT 8]"

definition checksum_add_steps :: "bytes \<Rightarrow> int \<Rightarrow> vstep list" where
  "checksum_add_steps d b =
     [CAST 20, field d (b + 18) N_u16 (\<lambda>cslen.
        if cslen < SHA256_DIGEST_LENGTH then RETURN (-1)
        else steps [SHIFT_FIELD 20, field d (b + 16) N_u16 SHIFT_CNT, SHIFT_CNT cslen])]"

definition checksum_steps :: "bytes \<Rightarrow> int \<Rightarrow> vstep list" where
  "checksum_steps d b =
     [CAST 18, field d (b + 4) N_u32 (\<lambda>v.
        if as_int v = ANOUBIS_CHECKSUM_OP_ADDSUM \<or> as_int v = ANOUBIS_CHECKSUM_OP_ADDSIG
        then steps (checksum_add_steps d b)
        else steps [SHIFT_FIELD 18, field d (b + 16) N_u16 SHIFT_CNT, SHIFT_CNT 0]),
      SHIFT_STRING d]"

definition amsg_sfs_checksumop_size :: size_fn where
  "amsg_sfs_checksumop_size d b l =
     size_of [POP_CNT CSUM_LEN, CAST 4, field d b N_u32 (\<lambda>v.
        steps (if as_int v = ANOUBIS_P_CSMULTIREQUEST then csmulti_steps d b else checksum_steps d b))] b l"

subsection \<open>Kernel events\<close>

text \<open>
  The headers of the kernel are not part of the sources: sizes of the structures, the offsets of their fields
  and the numbers of the event sources.
\<close>

datatype event_source =
    ANOUBIS_SOURCE_ALF | ANOUBIS_SOURCE_SANDBOX | ANOUBIS_SOURCE_SFS | ANOUBIS_SOURCE_SFSEXEC
  | ANOUBIS_SOURCE_SFSPATH | ANOUBIS_SOURCE_PROCESS | ANOUBIS_SOURCE_STAT | ANOUBIS_SOURCE_IPC
  | ANOUBIS_SOURCE_PLAYGROUND | ANOUBIS_SOURCE_PLAYGROUNDPROC | ANOUBIS_SOURCE_PLAYGROUNDFILE

record kernel_abi =
  k_source :: "int \<Rightarrow> event_source option"
  k_op_open :: int
  k_op_rename :: int
  eventdev_hdr_sz :: int
  msg_size_off :: int
  msg_size_type :: ftype
  msg_source_off :: int
  msg_source_type :: ftype
  alf_event_sz :: int
  ac_process_sz :: int
  ac_ipc_sz :: int
  stat_sz :: int
  pg_proc_sz :: int
  sfs_open_sz :: int
  sfs_open_pathhint :: int
  sfs_path_sz :: int
  sfs_path_paths :: int
  pathlen0_off :: int
  pathlen1_off :: int
  pathlen_type :: ftype
  pg_open_sz :: int
  pg_open_pathbuf :: int
  pg_open_op_off :: int
  pg_open_op_type :: ftype
  pg_file_sz :: int
  pg_file_path :: int
  eventdev_reply_sz :: int
  eventdev_token_sz :: int

definition pg_open_message_size :: "kernel_abi \<Rightarrow> size_fn" where
  "pg_open_message_size k d b l =
     size_of [CAST (pg_open_sz k), SHIFT_FIELD (pg_open_pathbuf k), SHIFT_STRING d,
       field d (b + pg_open_op_off k) (pg_open_op_type k) (\<lambda>op.
         if op = k_op_open k then Val
         else if op = k_op_rename k then SHIFT_STRING d else RETURN (-1))] b l"

definition pg_file_message_size :: "kernel_abi \<Rightarrow> size_fn" where
  "pg_file_message_size k d b l =
     size_of [CAST (pg_file_sz k), SHIFT_FIELD (pg_file_path k), SHIFT_STRING d, SHIFT_STRING d] b l"

definition sfs_path_message_size :: "kernel_abi \<Rightarrow> size_fn" where
  "sfs_path_message_size k d b l =
     size_of [CAST (sfs_path_sz k), SHIFT_FIELD (sfs_path_paths k),
       field d (b + pathlen0_off k) (pathlen_type k) (\<lambda>n. if n \<noteq> 0 then SHIFT_STRING d else Val),
       field d (b + pathlen1_off k) (pathlen_type k) (\<lambda>n. if n \<noteq> 0 then SHIFT_STRING d else Val)] b l"

definition anoubis_stat_message_size :: "kernel_abi \<Rightarrow> size_fn" where
  "anoubis_stat_message_size k d b l = Some (if stat_sz k > l then -1 else l)"

definition source_size :: "kernel_abi \<Rightarrow> event_source \<Rightarrow> size_fn" where
  "source_size k src =
     (case src of
        ANOUBIS_SOURCE_ALF \<Rightarrow> check_function (alf_event_sz k)
      | ANOUBIS_SOURCE_SANDBOX \<Rightarrow> string_check_function (sfs_open_sz k) (sfs_open_pathhint k)
      | ANOUBIS_SOURCE_SFS \<Rightarrow> string_check_function (sfs_open_sz k) (sfs_open_pathhint k)
      | ANOUBIS_SOURCE_SFSEXEC \<Rightarrow> string_check_function (sfs_open_sz k) (sfs_open_pathhint k)
      | ANOUBIS_SOURCE_SFSPATH \<Rightarrow> sfs_path_message_size k
      | ANOUBIS_SOURCE_PROCESS \<Rightarrow> check_function (ac_process_sz k)
      | ANOUBIS_SOURCE_STAT \<Rightarrow> anoubis_stat_message_size k
      | ANOUBIS_SOURCE_IPC \<Rightarrow> check_function (ac_ipc_sz k)
      | ANOUBIS_SOURCE_PLAYGROUND \<Rightarrow> pg_open_message_size k
      | ANOUBIS_SOURCE_PLAYGROUNDPROC \<Rightarrow> check_function (pg_proc_sz k)
      | ANOUBIS_SOURCE_PLAYGROUNDFILE \<Rightarrow> pg_file_message_size k)"

text \<open>The size of an event is the one its header claims, if the computed size differs by at most 8 bytes of padding.\<close>

definition eventdev_hdr_end :: "int \<Rightarrow> vstep" where
  "eventdev_hdr_end msgsize s =
     (if vsize s > msgsize then Ret (if vsize s \<le> 0 then -3 else - vsize s)
      else if vsize s + 8 < msgsize then Ret (if vsize s \<le> 0 then -4 else - (vsize s + 100000))
      else Ret msgsize)"

definition eventdev_hdr_size :: "kernel_abi \<Rightarrow> size_fn" where
  "eventdev_hdr_size k d b l =
     size_of [CAST (eventdev_hdr_sz k),
       field d (b + msg_size_off k) (msg_size_type k) CHECK_LEN,
       SHIFT_CNT (eventdev_hdr_sz k),
       field d (b + msg_source_off k) (msg_source_type k) (\<lambda>src.
         case k_source k src of None \<Rightarrow> RETURN (-2) | Some t \<Rightarrow> VARIANT (source_size k t) d),
       field d (b + msg_size_off k) (msg_size_type k) eventdev_hdr_end] b l"

subsection \<open>Messages of the daemon\<close>

datatype anoubisd_msg_type =
    ANOUBISD_MSG_POLREQUEST | ANOUBISD_MSG_POLREQUEST_ABORT | ANOUBISD_MSG_POLREPLY | ANOUBISD_MSG_CHECKSUMREPLY
  | ANOUBISD_MSG_EVENTDEV | ANOUBISD_MSG_LOGREQUEST | ANOUBISD_MSG_EVENTREPLY | ANOUBISD_MSG_EVENTCANCEL
  | ANOUBISD_MSG_CHECKSUM_OP | ANOUBISD_MSG_EVENTASK | ANOUBISD_MSG_POLICYCHANGE | ANOUBISD_MSG_PGCHANGE
  | ANOUBISD_MSG_SFSCACHE_INVALIDATE | ANOUBISD_MSG_UPGRADE | ANOUBISD_MSG_SFS_UPDATE_ALL | ANOUBISD_MSG_CONFIG
  | ANOUBISD_MSG_LOGIT | ANOUBISD_MSG_PASSPHRASE | ANOUBISD_MSG_AUTH_REQUEST | ANOUBISD_MSG_AUTH_CHALLENGE
  | ANOUBISD_MSG_AUTH_VERIFY | ANOUBISD_MSG_AUTH_RESULT | ANOUBISD_MSG_CSMULTIREQUEST | ANOUBISD_MSG_CSMULTIREPLY
  | ANOUBISD_MSG_LISTREQUEST | ANOUBISD_MSG_LISTREPLY | ANOUBISD_MSG_PGCOMMIT | ANOUBISD_MSG_PGCOMMIT_REPLY
  | ANOUBISD_MSG_PGUNLINK | ANOUBISD_MSG_PGUNLINK_REPLY

text \<open>The message types in the order of the enumeration.\<close>

definition msg_types :: "anoubisd_msg_type list" where
  "msg_types =
     [ANOUBISD_MSG_POLREQUEST, ANOUBISD_MSG_POLREQUEST_ABORT, ANOUBISD_MSG_POLREPLY, ANOUBISD_MSG_CHECKSUMREPLY,
      ANOUBISD_MSG_EVENTDEV, ANOUBISD_MSG_LOGREQUEST, ANOUBISD_MSG_EVENTREPLY, ANOUBISD_MSG_EVENTCANCEL,
      ANOUBISD_MSG_CHECKSUM_OP, ANOUBISD_MSG_EVENTASK, ANOUBISD_MSG_POLICYCHANGE, ANOUBISD_MSG_PGCHANGE,
      ANOUBISD_MSG_SFSCACHE_INVALIDATE, ANOUBISD_MSG_UPGRADE, ANOUBISD_MSG_SFS_UPDATE_ALL, ANOUBISD_MSG_CONFIG,
      ANOUBISD_MSG_LOGIT, ANOUBISD_MSG_PASSPHRASE, ANOUBISD_MSG_AUTH_REQUEST, ANOUBISD_MSG_AUTH_CHALLENGE,
      ANOUBISD_MSG_AUTH_VERIFY, ANOUBISD_MSG_AUTH_RESULT, ANOUBISD_MSG_CSMULTIREQUEST, ANOUBISD_MSG_CSMULTIREPLY,
      ANOUBISD_MSG_LISTREQUEST, ANOUBISD_MSG_LISTREPLY, ANOUBISD_MSG_PGCOMMIT, ANOUBISD_MSG_PGCOMMIT_REPLY,
      ANOUBISD_MSG_PGUNLINK, ANOUBISD_MSG_PGUNLINK_REPLY]"

definition msg_type_of :: "int \<Rightarrow> anoubisd_msg_type option" where
  "msg_type_of n = (if 0 \<le> n \<and> n < int (length msg_types) then Some (msg_types ! nat n) else None)"

text \<open>\<^verbatim>\<open>verify_polrequest\<close>: 0 or -1.\<close>

definition verify_polrequest :: "bytes \<Rightarrow> int \<Rightarrow> int \<Rightarrow> int \<Rightarrow> int option" where
  "verify_polrequest d b l flags =
     (if flags mod 2 = 0 then Some 0
      else case steps [CAST 4, field d b N_u32 (\<lambda>ptype.
             if ptype = 0x100 then CAST 12 else if ptype = 0x101 then CAST 14 else RETURN (-1))]
             \<lparr>vbuf = b, vlen = l, vsize = 0\<rparr> of
        Val s \<Rightarrow> Some 0 | Ret r \<Rightarrow> Some r | Fault \<Rightarrow> None)"

definition polrequest_check :: "bytes \<Rightarrow> int \<Rightarrow> int \<Rightarrow> vstep" where
  "polrequest_check d len flags s =
     (case verify_polrequest d (vbuf s) len flags of None \<Rightarrow> Fault | Some r \<Rightarrow> if r < 0 then Ret (-1) else Val s)"

definition anoubisd_msg_polrequest_size :: size_fn where
  "anoubisd_msg_polrequest_size d b l =
     size_of [CAST 24, SHIFT_FIELD 18, field d (b + 16) F_u16 (\<lambda>len. steps
       [CHECK_LEN len, ADD_SIZE len, field d (b + 12) F_u32 (polrequest_check d len)])] b l"

definition csumop_check :: "bytes \<Rightarrow> int \<Rightarrow> vstep" where
  "csumop_check d len s =
     (case amsg_sfs_checksumop_size d (vbuf s) (vlen s) of
        None \<Rightarrow> Fault
      | Some n \<Rightarrow> if n < 0 \<or> n > len \<or> n > vlen s then Ret (-1) else Val s)"

definition anoubisd_msg_csumop_size :: size_fn where
  "anoubisd_msg_csumop_size d b l =
     size_of [CAST 16, SHIFT_FIELD 14, field d (b + 12) F_s16 (\<lambda>len. steps [ADD_SIZE len, csumop_check d len])] b l"

text \<open>
  Escalation messages. \<open>ask_ranges\<close> are offset and length of the five parts in the order of the array \<^verbatim>\<open>offs\<close>.
\<close>

definition overlaps :: "int \<times> int \<Rightarrow> int \<times> int \<Rightarrow> bool" where
  "overlaps r1 r2 \<longleftrightarrow>
     snd r1 \<noteq> 0 \<and> snd r2 \<noteq> 0 \<and> fst r2 < fst r1 + snd r1 \<and> fst r1 < fst r2 + snd r2"

text \<open>The nested loops: the ranges before the current one are \<open>done\<close>.\<close>

fun overlap_loop :: "(int \<times> int) list \<Rightarrow> (int \<times> int) list \<Rightarrow> int \<Rightarrow> int option" where
  "overlap_loop prev [] tot = Some tot"
| "overlap_loop prev (r # rs) tot =
     (if snd r = 0 then overlap_loop (prev @ [r]) rs tot
      else if list_ex (overlaps r) prev then None
      else overlap_loop (prev @ [r]) rs (max (fst r + snd r) tot))"

definition ask_ranges :: "bytes \<Rightarrow> int \<Rightarrow> ((int \<times> int) list \<Rightarrow> vstep) \<Rightarrow> vstep" where
  "ask_ranges d b f =
     field d (b + 20) F_u16 (\<lambda>o0. field d (b + 22) F_u16 (\<lambda>l0.
     field d (b + 24) F_u16 (\<lambda>o1. field d (b + 26) F_u16 (\<lambda>l1.
     field d (b + 28) F_u16 (\<lambda>o2. field d (b + 30) F_u16 (\<lambda>l2.
     field d (b + 32) F_u16 (\<lambda>o3. field d (b + 34) F_u16 (\<lambda>l3.
     field d (b + 36) F_u16 (\<lambda>o4. field d (b + 38) F_u16 (\<lambda>l4.
       f [(o0, l0), (o1, l1), (o2, l2), (o3, l3), (o4, l4)]))))))))))"

definition ask_string :: "bytes \<Rightarrow> int \<times> int \<Rightarrow> vstep" where
  "ask_string d r s = (if snd r \<noteq> 0 then CHECK_STRING d (vbuf s + fst r) (snd r) s else Val s)"

definition ask_event :: "kernel_abi \<Rightarrow> bytes \<Rightarrow> int \<times> int \<Rightarrow> vstep" where
  "ask_event k d r s =
     (if snd r \<noteq> 0
      then (case eventdev_hdr_size k d (vbuf s + fst r) (snd r) of None \<Rightarrow> Fault | Some n \<Rightarrow> CHECK_SIZE n s)
      else Val s)"

definition ask_total :: "(int \<times> int) list \<Rightarrow> vstep" where
  "ask_total rs s =
     (case overlap_loop [] rs 0 of
        None \<Rightarrow> Ret (-1)
      | Some tot \<Rightarrow> steps [SHIFT_FIELD 40, \<lambda>s. if tot > vlen s then Ret (-1) else ADD_SIZE tot s] s)"

definition anoubisd_msg_eventask_size :: "kernel_abi \<Rightarrow> size_fn" where
  "anoubisd_msg_eventask_size k d b l =
     size_of [CAST 40, ask_ranges d b (\<lambda>rs. steps
       (concat (map (\<lambda>r. [CHECK_SIZE (fst r), CHECK_SIZE (snd r)]) rs) @
        [ask_total rs, ask_string d (rs ! 1), ask_string d (rs ! 3), ask_event k d (rs ! 4)]))] b l"

definition anoubisd_sfscache_invalidate_size :: size_fn where
  "anoubisd_sfscache_invalidate_size d b l =
     size_of [CAST 12, SHIFT_FIELD 12, field d (b + 4) F_u32 (\<lambda>plen. steps
         [CHECK_LEN plen, \<lambda>s. CHECK_STRING d (vbuf s) plen s, SHIFT_CNT plen]),
       field d (b + 8) F_u32 (\<lambda>keylen. if keylen \<noteq> 0 then steps [CHECK_LEN keylen, STRINGS d] else Val)] b l"

definition anoubisd_msg_upgrade_size :: size_fn where
  "anoubisd_msg_upgrade_size d b l =
     size_of [CAST 8, SHIFT_FIELD 8, field d b F_u32 (\<lambda>t. field d (b + 4) F_u32 (\<lambda>chunksize. steps
       [if t \<noteq> 5 then CHECK_LEN chunksize else Val,
        if t = 4 then (if chunksize \<noteq> 1 then RETURN (-1) else ADD_SIZE chunksize)
        else if t = 5 then Val
        else if t = 3 then (if chunksize \<noteq> 0 then STRINGS d else Val)
        else (if chunksize \<noteq> 0 then RETURN (-1) else Val)]))] b l"

definition anoubisd_sfs_update_all_size :: size_fn where
  "anoubisd_sfs_update_all_size d b l =
     size_of [CAST 4, SHIFT_FIELD 4, field d b F_u32 SHIFT_CNT, STRINGS d] b l"

definition anoubisd_msg_config_size :: size_fn where
  "anoubisd_msg_config_size d b l =
     size_of [CAST 12, SHIFT_FIELD 9, SHIFT_STRING d, field d b F_u32 (\<lambda>n.
       if n > SIZE_LIMIT then RETURN (-1) else steps (replicate (nat n) (SHIFT_STRING d)))] b l"

definition anoubisd_msg_logit_size :: size_fn where
  "anoubisd_msg_logit_size d b l = size_of [CAST 4, SHIFT_FIELD 4, STRINGS d] b l"

definition two_part_steps :: "int \<Rightarrow> int \<Rightarrow> vstep" where
  "two_part_steps n m = steps [CHECK_SIZE n, CHECK_SIZE m, SHIFT_CNT n, SHIFT_CNT m]"

definition anoubisd_msg_authchallenge_size :: size_fn where
  "anoubisd_msg_authchallenge_size d b l =
     size_of [CAST 24, SHIFT_FIELD 24, field d (b + 16) F_u32 (\<lambda>n. field d (b + 20) F_u32 (two_part_steps n))] b l"

definition anoubisd_msg_authverify_size :: size_fn where
  "anoubisd_msg_authverify_size d b l =
     size_of [CAST 24, SHIFT_FIELD 20, field d (b + 12) F_u32 (\<lambda>n. field d (b + 16) F_u32 (two_part_steps n))] b l"

definition payload_size :: "kernel_abi \<Rightarrow> anoubisd_msg_type \<Rightarrow> size_fn" where
  "payload_size k t =
     (case t of
        ANOUBISD_MSG_POLREQUEST \<Rightarrow> anoubisd_msg_polrequest_size
      | ANOUBISD_MSG_POLREQUEST_ABORT \<Rightarrow> check_function 8
      | ANOUBISD_MSG_POLREPLY \<Rightarrow> len_check_function 24 18 16 F_s16
      | ANOUBISD_MSG_CHECKSUM_OP \<Rightarrow> anoubisd_msg_csumop_size
      | ANOUBISD_MSG_CHECKSUMREPLY \<Rightarrow> len_check_function 24 18 16 F_s16
      | ANOUBISD_MSG_EVENTDEV \<Rightarrow> eventdev_hdr_size k
      | ANOUBISD_MSG_LOGREQUEST \<Rightarrow> anoubisd_msg_eventask_size k
      | ANOUBISD_MSG_EVENTREPLY \<Rightarrow> check_function (eventdev_reply_sz k)
      | ANOUBISD_MSG_EVENTCANCEL \<Rightarrow> check_function (eventdev_token_sz k)
      | ANOUBISD_MSG_EVENTASK \<Rightarrow> anoubisd_msg_eventask_size k
      | ANOUBISD_MSG_POLICYCHANGE \<Rightarrow> check_function 8
      | ANOUBISD_MSG_PGCHANGE \<Rightarrow> string_check_function 24 20
      | ANOUBISD_MSG_SFSCACHE_INVALIDATE \<Rightarrow> anoubisd_sfscache_invalidate_size
      | ANOUBISD_MSG_UPGRADE \<Rightarrow> anoubisd_msg_upgrade_size
      | ANOUBISD_MSG_SFS_UPDATE_ALL \<Rightarrow> anoubisd_sfs_update_all_size
      | ANOUBISD_MSG_CONFIG \<Rightarrow> anoubisd_msg_config_size
      | ANOUBISD_MSG_LOGIT \<Rightarrow> anoubisd_msg_logit_size
      | ANOUBISD_MSG_PASSPHRASE \<Rightarrow> string_check_function 0 0
      | ANOUBISD_MSG_AUTH_REQUEST \<Rightarrow> check_function 16
      | ANOUBISD_MSG_AUTH_CHALLENGE \<Rightarrow> anoubisd_msg_authchallenge_size
      | ANOUBISD_MSG_AUTH_VERIFY \<Rightarrow> anoubisd_msg_authverify_size
      | ANOUBISD_MSG_AUTH_RESULT \<Rightarrow> check_function 16
      | ANOUBISD_MSG_CSMULTIREQUEST \<Rightarrow> anoubisd_msg_csumop_size
      | ANOUBISD_MSG_CSMULTIREPLY \<Rightarrow> len_check_function 24 18 16 F_s16
      | ANOUBISD_MSG_LISTREQUEST \<Rightarrow> check_function 24
      | ANOUBISD_MSG_LISTREPLY \<Rightarrow> len_check_function 16 16 12 F_u32
      | ANOUBISD_MSG_PGCOMMIT \<Rightarrow> string_check_function 40 37
      | ANOUBISD_MSG_PGCOMMIT_REPLY \<Rightarrow> len_check_function 16 16 8 F_u32
      | ANOUBISD_MSG_PGUNLINK \<Rightarrow> check_function 40
      | ANOUBISD_MSG_PGUNLINK_REPLY \<Rightarrow> check_function 16)"

definition anoubisd_msg_size :: "kernel_abi \<Rightarrow> size_fn" where
  "anoubisd_msg_size k d b l =
     size_of [CAST 8, SHIFT_FIELD 8, field d (b + 4) F_s32 (\<lambda>mtype.
       case msg_type_of mtype of None \<Rightarrow> RETURN (-1) | Some t \<Rightarrow> VARIANT (payload_size k t) d)] b l"

text \<open>
  \<^verbatim>\<open>__amsg_verify\<close>: the space behind the message is overwritten. The results are out of bounds access,
  termination of the daemon, or the return value with the message.
\<close>

datatype verify_result = V_Fault | V_Terminate | V_Return bool bytes

definition fill_bytes :: "nat \<Rightarrow> u8" where
  "fill_bytes i = [0xde, 0xad, 0xbe, 0xef] ! (i mod 4)"

definition fill_rest :: "nat \<Rightarrow> bytes \<Rightarrow> bytes" where
  "fill_rest n d = take n d @ map fill_bytes [n..<length d]"

definition amsg_verify_common :: "kernel_abi \<Rightarrow> bool \<Rightarrow> bytes \<Rightarrow> verify_result" where
  "amsg_verify_common k fatal d =
     (if length d < 8 then V_Terminate
      else case anoubisd_msg_size k d 0 (int (length d)) of
        None \<Rightarrow> V_Fault
      | Some tmp \<Rightarrow>
          (if tmp < 0 \<or> tmp > int (length d) then (if fatal then V_Terminate else V_Return False d)
           else if tmp < int (length d) then V_Return (\<not> tmp < int (length d) - 8) (fill_rest (nat tmp) d)
           else V_Return True d))"

definition amsg_verify :: "kernel_abi \<Rightarrow> bytes \<Rightarrow> verify_result" where
  "amsg_verify k d = amsg_verify_common k True d"

definition amsg_verify_nonfatal :: "kernel_abi \<Rightarrow> bytes \<Rightarrow> verify_result" where
  "amsg_verify_nonfatal k d = amsg_verify_common k False d"

subsection \<open>No access outside of the message\<close>

text \<open>The rest of the buffer lies inside the message; a safe step keeps it there and does not fault.\<close>

definition inb :: "bytes \<Rightarrow> vstate \<Rightarrow> bool" where
  "inb d s \<longleftrightarrow> 0 \<le> vbuf s \<and> vbuf s + vlen s \<le> int (length d)"

definition safe :: "bytes \<Rightarrow> vstep \<Rightarrow> vstate \<Rightarrow> bool" where
  "safe d f s \<longleftrightarrow> (case f s of Val s' \<Rightarrow> inb d s' | Ret r \<Rightarrow> True | Fault \<Rightarrow> False)"

definition size_safe :: "bytes \<Rightarrow> size_fn \<Rightarrow> bool" where
  "size_safe d f \<longleftrightarrow> (\<forall>b l. 0 \<le> b \<and> b + l \<le> int (length d) \<longrightarrow> f d b l \<noteq> None)"

named_theorems safe_rules \<open>safety of single steps\<close>

lemma rd_Val: "0 \<le> p \<Longrightarrow> p + int (fwidth t) \<le> int (length d) \<Longrightarrow> \<exists>v. rd d p t = Val v"
  by (simp add: rd_def)

lemma safe_Nil: "inb d s \<Longrightarrow> safe d (steps []) s"
  by (simp add: safe_def)

lemma safe_Cons: "safe d f s \<Longrightarrow> (\<And>s'. inb d s' \<Longrightarrow> safe d (steps fs) s') \<Longrightarrow> safe d (steps (f # fs)) s"
  by (cases "f s") (simp_all add: safe_def)

lemma safe_CAST: "inb d s \<Longrightarrow> (sz \<le> vlen s \<Longrightarrow> safe d (steps fs) s) \<Longrightarrow> safe d (steps (CAST sz # fs)) s"
  by (auto simp: safe_def CAST_def split: chk.splits)

lemma safe_POP:
  "inb d s \<Longrightarrow> (\<And>s'. inb d s' \<Longrightarrow> vbuf s' = vbuf s \<Longrightarrow> safe d (steps fs) s') \<Longrightarrow> safe d (steps (POP_CNT c # fs)) s"
  by (auto simp: safe_def POP_CNT_def ADD_SIZE_def inb_def Let_def split: chk.splits)

lemma safe_ADD_SIZE [safe_rules]: "inb d s \<Longrightarrow> safe d (ADD_SIZE v) s"
  by (simp add: safe_def ADD_SIZE_def inb_def)

lemma safe_CHECK_SIZE [safe_rules]: "inb d s \<Longrightarrow> safe d (CHECK_SIZE v) s"
  by (simp add: safe_def CHECK_SIZE_def)

lemma safe_CHECK_LEN [safe_rules]: "inb d s \<Longrightarrow> safe d (CHECK_LEN v) s"
  by (simp add: safe_def CHECK_LEN_def)

lemma safe_RETURN [safe_rules]: "safe d (RETURN r) s"
  by (simp add: safe_def RETURN_def)

lemma safe_Val [safe_rules]: "inb d s \<Longrightarrow> safe d Val s"
  by (simp add: safe_def)

lemma safe_CAST1 [safe_rules]: "inb d s \<Longrightarrow> safe d (CAST sz) s"
  by (simp add: safe_def CAST_def)

lemma safe_SHIFT_FIELD [safe_rules]: "inb d s \<Longrightarrow> 0 \<le> off \<Longrightarrow> safe d (SHIFT_FIELD off) s"
  by (auto simp: safe_def SHIFT_FIELD_def ADD_SIZE_def inb_def)

lemma safe_SHIFT_CNT [safe_rules]: "inb d s \<Longrightarrow> safe d (SHIFT_CNT c) s"
  by (auto simp: safe_def SHIFT_CNT_def ADD_SIZE_def inb_def Let_def)

lemma safe_field [safe_rules]:
  "0 \<le> p \<Longrightarrow> p + int (fwidth t) \<le> int (length d) \<Longrightarrow> (\<And>v. safe d (f v) s) \<Longrightarrow> safe d (field d p t f) s"
  by (auto simp: safe_def field_def rd_def)

lemma safe_if [safe_rules]: "(P \<Longrightarrow> safe d f s) \<Longrightarrow> (\<not> P \<Longrightarrow> safe d g s) \<Longrightarrow> safe d (if P then f else g) s"
  by simp

lemma scan_back_Val: "0 \<le> p \<Longrightarrow> p + int n \<le> int (length d) \<Longrightarrow> \<exists>r. scan_back d p n = Val r"
proof (induction n)
  case (Suc n)
  then show ?case using rd_Val [of "p + int n" F_u8 d] by auto
qed simp

lemma scan_fwd_Val:
  "0 \<le> p \<Longrightarrow> p + int i + int n \<le> int (length d) \<Longrightarrow>
   \<exists>r. scan_fwd d p i n = Val r \<and> (\<forall>j. r = Some j \<longrightarrow> j < i + n)"
proof (induction n arbitrary: i)
  case (Suc n)
  then show ?case using rd_Val [of "p + int i" F_u8 d] Suc.IH [of "Suc i"] by auto
qed simp

lemma safe_STRINGS [safe_rules]: "inb d s \<Longrightarrow> safe d (STRINGS d) s"
  using scan_back_Val [of "vbuf s" "nat (vlen s)" d]
  by (auto simp: safe_def STRINGS_def ADD_SIZE_def inb_def split: option.splits)

lemma safe_CHECK_STRING:
  "inb d s \<Longrightarrow> 0 \<le> p \<Longrightarrow> p + l \<le> int (length d) \<Longrightarrow> safe d (CHECK_STRING d p l) s"
  using scan_back_Val [of p "nat l" d] by (auto simp: safe_def CHECK_STRING_def split: option.splits)

lemma safe_SHIFT_STRING [safe_rules]: "inb d s \<Longrightarrow> safe d (SHIFT_STRING d) s"
  using scan_fwd_Val [of "vbuf s" 0 "nat (vlen s)" d]
  by (auto simp: safe_def SHIFT_STRING_def ADD_SIZE_def inb_def split: option.splits)

lemma safe_VARIANT [safe_rules]: "inb d s \<Longrightarrow> size_safe d f \<Longrightarrow> safe d (VARIANT f d) s"
  by (auto simp: safe_def VARIANT_def size_safe_def inb_def ADD_SIZE_def split: option.splits)

lemma safe_replicate: "(\<And>s. inb d s \<Longrightarrow> safe d f s) \<Longrightarrow> inb d s \<Longrightarrow> safe d (steps (replicate n f)) s"
proof (induction n arbitrary: s)
  case (Suc n)
  show ?case unfolding replicate_Suc by (rule safe_Cons) (use Suc in auto)
qed (simp add: safe_def)

lemmas safe_steps = safe_Cons safe_Nil safe_rules

lemma size_safeI:
  assumes "\<And>b l. 0 \<le> b \<Longrightarrow> b + l \<le> int (length d) \<Longrightarrow> safe d (steps (F b)) \<lparr>vbuf = b, vlen = l, vsize = 0\<rparr>"
    and "\<And>b l. f d b l = size_of (F b) b l"
  shows "size_safe d f"
  using assms by (fastforce simp: size_safe_def size_of_def safe_def split: chk.splits)

text \<open>Most functions start with a cast, so the fields of the structure can be read.\<close>

lemma size_safe_CAST:
  assumes "\<And>b l. f d b l = size_of (CAST sz # F b) b l"
    and "\<And>b s. 0 \<le> b \<Longrightarrow> b + sz \<le> int (length d) \<Longrightarrow> inb d s \<Longrightarrow> safe d (steps (F b)) s"
  shows "size_safe d f"
proof (rule size_safeI [where F = "\<lambda>b. CAST sz # F b"])
  fix b l :: int
  assume "0 \<le> b" "b + l \<le> int (length d)"
  then show "safe d (steps (CAST sz # F b)) \<lparr>vbuf = b, vlen = l, vsize = 0\<rparr>"
    by (intro safe_CAST assms(2)) (auto simp: inb_def)
qed (rule assms(1))

lemma size_safe_check [simp]: "size_safe d (check_function sz)"
  by (simp add: size_safe_def check_function_def)

lemma size_safe_string_check [simp]: "0 \<le> off \<Longrightarrow> size_safe d (string_check_function sz off)"
  by (rule size_safe_CAST [OF string_check_function_def]) (intro safe_steps; assumption?)

lemma size_safe_len_check [simp]:
  "0 \<le> off \<Longrightarrow> 0 \<le> lenoff \<Longrightarrow> lenoff + int (fwidth t) \<le> sz \<Longrightarrow> size_safe d (len_check_function sz off lenoff t)"
  by (rule size_safe_CAST [OF len_check_function_def]) (intro safe_steps; simp)

lemma size_safe_record [simp]: "size_safe d amsg_csmulti_request_record_size"
  by (rule size_safe_CAST [OF amsg_csmulti_request_record_size_def]) (intro safe_steps; simp)

lemma size_safe_call: "size_safe d f \<Longrightarrow> 0 \<le> b \<Longrightarrow> b + l \<le> int (length d) \<Longrightarrow> \<exists>r. f d b l = Some r"
  by (auto simp: size_safe_def)

lemma safe_record_loop [safe_rules]: "inb d s \<Longrightarrow> safe d (record_loop d) s"
proof (induction d s rule: record_loop.induct)
  case (1 d s)
  show ?case
  proof (cases "8 > vlen s")
    case False
    with "1.prems" obtain v where v: "rd d (vbuf s) N_u32 = Val v" using rd_Val [of "vbuf s" N_u32 d] by (auto simp: inb_def)
    consider "as_int v = 0 \<or> as_int v > vlen s" | "as_int v \<noteq> 0" "as_int v \<le> vlen s" by linarith
    then show ?thesis
    proof cases
      case 2
      with "1.prems" obtain n where n: "amsg_csmulti_request_record_size d (vbuf s) (as_int v) = Some n"
        using size_safe_call [OF size_safe_record, where d = d and b = "vbuf s" and l = "as_int v"] by (auto simp: inb_def)
      show ?thesis
      proof (cases "n < 0 \<or> n > as_int v")
        case True
        with False v n 2 show ?thesis by (subst safe_def, subst record_loop.simps) (simp add: Let_def)
      next
        case ok: False
        have "safe d (SHIFT_CNT (as_int v)) s" using "1.prems" by (rule safe_SHIFT_CNT)
        then have "safe d (record_loop d) s'" if "SHIFT_CNT (as_int v) s = Val s'" for s'
          using "1.IH" [OF False v refl _ _ n _ that] that 2 ok by (simp add: safe_def)
        moreover have "SHIFT_CNT (as_int v) s \<noteq> Fault" by (simp add: SHIFT_CNT_def ADD_SIZE_def Let_def)
        ultimately show ?thesis using False v n 2 ok
          by (cases "SHIFT_CNT (as_int v) s") (subst safe_def, subst record_loop.simps, auto simp: Let_def safe_def)+
      qed
    qed (use False v "1.prems" in \<open>subst safe_def, subst record_loop.simps, auto simp: Let_def\<close>)
  qed (subst safe_def, subst record_loop.simps, simp)
qed

lemma size_safe_checksumop [simp]: "size_safe d amsg_sfs_checksumop_size"
proof (rule size_safeI [OF _ amsg_sfs_checksumop_size_def])
  fix b l :: int
  assume b: "0 \<le> b" "b + l \<le> int (length d)"
  let ?F = "\<lambda>v. steps (if as_int v = ANOUBIS_P_CSMULTIREQUEST then csmulti_steps d b else checksum_steps d b)"
  have multi: "safe d (steps (csmulti_steps d b)) s" if "inb d s" "vbuf s = b" for s
    unfolding csmulti_steps_def
    by (rule safe_CAST [OF that(1)]) (use that in \<open>intro safe_record_loop safe_steps; simp add: inb_def\<close>)
  have add: "safe d (steps (checksum_add_steps d b)) s" if "inb d s" "vbuf s = b" for s
    unfolding checksum_add_steps_def
    by (rule safe_CAST [OF that(1)]) (use that in \<open>intro safe_steps; simp add: inb_def\<close>)
  have single: "safe d (steps (checksum_steps d b)) s" if "inb d s" "vbuf s = b" for s
    unfolding checksum_steps_def
    by (rule safe_CAST [OF that(1)]) (use that in \<open>intro add safe_steps; simp add: inb_def\<close>)
  show "safe d (steps [POP_CNT CSUM_LEN, CAST 4, field d b N_u32 ?F]) \<lparr>vbuf = b, vlen = l, vsize = 0\<rparr>"
    by (rule safe_POP, simp add: inb_def b, rule safe_CAST, assumption, rule safe_Cons, rule safe_field)
      (use b multi single in \<open>auto simp: inb_def safe_Nil\<close>)
qed

text \<open>The laws of the kernel's structures: every field lies inside of its structure.\<close>

definition kernel_abi_ok :: "kernel_abi \<Rightarrow> bool" where
  "kernel_abi_ok k \<longleftrightarrow>
     0 \<le> msg_size_off k \<and> msg_size_off k + int (fwidth (msg_size_type k)) \<le> eventdev_hdr_sz k \<and>
     0 \<le> msg_source_off k \<and> msg_source_off k + int (fwidth (msg_source_type k)) \<le> eventdev_hdr_sz k \<and>
     0 \<le> pathlen0_off k \<and> pathlen0_off k + int (fwidth (pathlen_type k)) \<le> sfs_path_sz k \<and>
     0 \<le> pathlen1_off k \<and> pathlen1_off k + int (fwidth (pathlen_type k)) \<le> sfs_path_sz k \<and>
     0 \<le> pg_open_op_off k \<and> pg_open_op_off k + int (fwidth (pg_open_op_type k)) \<le> pg_open_sz k \<and>
     0 \<le> sfs_open_pathhint k \<and> 0 \<le> sfs_path_paths k \<and> 0 \<le> pg_open_pathbuf k \<and> 0 \<le> pg_file_path k"

lemma size_safe_pg_open: "kernel_abi_ok k \<Longrightarrow> size_safe d (pg_open_message_size k)"
  by (rule size_safe_CAST [OF pg_open_message_size_def]) (intro safe_steps; simp add: kernel_abi_ok_def)

lemma size_safe_pg_file: "kernel_abi_ok k \<Longrightarrow> size_safe d (pg_file_message_size k)"
  by (rule size_safe_CAST [OF pg_file_message_size_def]) (intro safe_steps; simp add: kernel_abi_ok_def)

lemma size_safe_sfs_path: "kernel_abi_ok k \<Longrightarrow> size_safe d (sfs_path_message_size k)"
  by (rule size_safe_CAST [OF sfs_path_message_size_def]) (intro safe_steps; simp add: kernel_abi_ok_def)

lemma size_safe_stat: "size_safe d (anoubis_stat_message_size k)"
  by (simp add: size_safe_def anoubis_stat_message_size_def)

lemma size_safe_source: "kernel_abi_ok k \<Longrightarrow> size_safe d (source_size k t)"
  by (cases t) (simp_all add: source_size_def size_safe_pg_open size_safe_pg_file size_safe_sfs_path size_safe_stat
      kernel_abi_ok_def)

lemma safe_hdr_end: "inb d s \<Longrightarrow> safe d (eventdev_hdr_end n) s"
  by (simp add: safe_def eventdev_hdr_end_def)

lemma safe_source:
  "kernel_abi_ok k \<Longrightarrow> inb d s \<Longrightarrow>
   safe d (case k_source k v of None \<Rightarrow> RETURN (-2) | Some t \<Rightarrow> VARIANT (source_size k t) d) s"
  by (auto split: option.split intro: safe_rules size_safe_source)

lemma size_safe_eventdev: "kernel_abi_ok k \<Longrightarrow> size_safe d (eventdev_hdr_size k)"
  by (rule size_safe_CAST [OF eventdev_hdr_size_def])
    (intro safe_hdr_end safe_source safe_steps; simp add: kernel_abi_ok_def)

text \<open>Values of unsigned fields.\<close>

lemma be_value_bounds: "0 \<le> be_value b \<and> be_value b < 256 ^ length b"
proof (induction b)
  case (Cons x b)
  have "uint x * 256 ^ length b + be_value b < (uint x + 1) * 256 ^ length b" using Cons by (simp add: algebra_simps)
  also have "\<dots> \<le> 256 * 256 ^ length b" using uint_bounded [of x] by (intro mult_right_mono) auto
  finally show ?case using Cons by (auto intro!: add_nonneg_nonneg mult_nonneg_nonneg)
qed simp

lemma rd_u16: "rd d p F_u16 = Val v \<Longrightarrow> 0 \<le> v \<and> v < 65536"
  using be_value_bounds [of "rev (take 2 (drop (nat p) d))"] by (auto simp: rd_def split: if_splits)

lemma rd_u32: "rd d p F_u32 = Val v \<Longrightarrow> 0 \<le> v \<and> v < 2 ^ 32"
  using be_value_bounds [of "rev (take 4 (drop (nat p) d))"] by (auto simp: rd_def split: if_splits)

lemma safe_field_rd:
  "0 \<le> p \<Longrightarrow> p + int (fwidth t) \<le> int (length d) \<Longrightarrow> (\<And>v. rd d p t = Val v \<Longrightarrow> safe d (f v) s) \<Longrightarrow> safe d (field d p t f) s"
  by (auto simp: safe_def field_def rd_def)

lemma safe_SHIFT_FIELD_Cons:
  "inb d s \<Longrightarrow> 0 \<le> off \<Longrightarrow> (\<And>s'. inb d s' \<Longrightarrow> 0 \<le> vlen s' \<Longrightarrow> safe d (steps fs) s') \<Longrightarrow> safe d (steps (SHIFT_FIELD off # fs)) s"
  by (auto simp: safe_def SHIFT_FIELD_def ADD_SIZE_def inb_def)

lemma as_int_le: "0 \<le> v \<Longrightarrow> as_int v \<le> v"
proof -
  assume "0 \<le> v"
  then have "v mod 2 ^ 32 \<le> v" using zmod_le_nonneg_dividend by blast
  then show ?thesis by (simp add: as_int_def to_signed_def)
qed

lemma size_ok_small: "size_ok v \<Longrightarrow> 0 \<le> v \<Longrightarrow> v < 2 ^ 32 \<Longrightarrow> as_int v = v \<and> v \<le> SIZE_LIMIT"
  by (auto simp: size_ok_def as_int_def to_signed_def SIZE_LIMIT_def split: if_splits)

lemma CHECK_LEN_Val:
  assumes "CHECK_LEN v s = Val s'" and "0 \<le> v" and "v < 2 ^ 32" and "0 \<le> vlen s"
  shows "s' = s" and "v \<le> vlen s"
  using assms size_ok_small [of v] as_int_le [of "vlen s"] by (auto simp: CHECK_LEN_def split: if_splits)

lemma verify_polrequest_Some:
  "0 \<le> b \<Longrightarrow> b + l \<le> int (length d) \<Longrightarrow> \<exists>r. verify_polrequest d b l flags = Some r"
proof -
  assume b: "0 \<le> b" "b + l \<le> int (length d)"
  then have "safe d (steps [CAST 4, field d b N_u32 (\<lambda>ptype.
      if ptype = 0x100 then CAST 12 else if ptype = 0x101 then CAST 14 else RETURN (-1))]) \<lparr>vbuf = b, vlen = l, vsize = 0\<rparr>"
    by (intro safe_CAST) (auto simp: inb_def intro!: safe_steps)
  then show ?thesis by (auto simp: verify_polrequest_def safe_def simp del: steps.simps split: chk.splits)
qed

lemma safe_step: "f s \<noteq> Fault \<Longrightarrow> (\<And>s'. f s = Val s' \<Longrightarrow> safe d (steps fs) s') \<Longrightarrow> safe d (steps (f # fs)) s"
  by (cases "f s") (simp_all add: safe_def)

lemma no_fault [simp]: "CHECK_LEN v s \<noteq> Fault" "ADD_SIZE v s \<noteq> Fault" "SHIFT_FIELD n s \<noteq> Fault" "SHIFT_CNT n s \<noteq> Fault"
    "CHECK_SIZE v s \<noteq> Fault"
  by (simp_all add: CHECK_LEN_def ADD_SIZE_def SHIFT_FIELD_def SHIFT_CNT_def CHECK_SIZE_def Let_def)

lemma ADD_SIZE_Val: "ADD_SIZE v s = Val s' \<Longrightarrow> s' = s\<lparr>vsize := vsize s + as_int v\<rparr> \<and> 0 \<le> as_int v"
  by (auto simp: ADD_SIZE_def size_ok_def split: if_splits)

lemma safe_last: "safe d f s \<Longrightarrow> safe d (steps [f]) s"
  by (rule safe_Cons) (auto intro: safe_Nil)

lemma size_safe_polrequest: "size_safe d anoubisd_msg_polrequest_size"
proof (rule size_safe_CAST [OF anoubisd_msg_polrequest_size_def])
  fix b :: int and s :: vstate
  assume b: "0 \<le> b" "b + 24 \<le> int (length d)" and s: "inb d s"
  have rest: "safe d (steps [CHECK_LEN len, ADD_SIZE len, field d (b + 12) F_u32 (polrequest_check d len)]) s'"
    if "rd d (b + 16) F_u16 = Val len" and s': "inb d s'" "0 \<le> vlen s'" for len s'
  proof (rule safe_step, simp, rule safe_step, simp)
    fix s2 s3
    assume "CHECK_LEN len s' = Val s2" and s3: "ADD_SIZE len s2 = Val s3"
    then have s2: "s2 = s'" "0 \<le> len" "len \<le> vlen s'"
      using CHECK_LEN_Val [of len s' s2] s'(2) rd_u16 [OF that(1)] by auto
    have "safe d (polrequest_check d len flags) s3" for flags
      using s' s2 conjunct1 [OF ADD_SIZE_Val [OF s3]] verify_polrequest_Some [of "vbuf s'" len d flags]
      by (auto simp: safe_def polrequest_check_def inb_def)
    then show "safe d (steps [field d (b + 12) F_u32 (polrequest_check d len)]) s3"
      using b by (intro safe_last safe_field) auto
  qed
  show "safe d (steps [SHIFT_FIELD 18, field d (b + 16) F_u16 (\<lambda>len. steps
       [CHECK_LEN len, ADD_SIZE len, field d (b + 12) F_u32 (polrequest_check d len)])]) s"
    by (rule safe_SHIFT_FIELD_Cons [OF s], simp, rule safe_last, rule safe_field_rd) (use b rest in auto)
qed

lemma safe_csumop: "inb d s \<Longrightarrow> safe d (csumop_check d len) s"
  using size_safe_call [OF size_safe_checksumop, where d = d and b = "vbuf s" and l = "vlen s"]
  by (auto simp: safe_def csumop_check_def inb_def)

lemma size_safe_csumop: "size_safe d anoubisd_msg_csumop_size"
  by (rule size_safe_CAST [OF anoubisd_msg_csumop_size_def]) (intro safe_csumop safe_steps; simp)

lemma size_safe_sfscache: "size_safe d anoubisd_sfscache_invalidate_size"
proof (rule size_safe_CAST [OF anoubisd_sfscache_invalidate_size_def])
  fix b :: int and s :: vstate
  assume b: "0 \<le> b" "b + 12 \<le> int (length d)" and s: "inb d s"
  have path: "safe d (steps [CHECK_LEN plen, \<lambda>s. CHECK_STRING d (vbuf s) plen s, SHIFT_CNT plen]) s'"
    if "rd d (b + 4) F_u32 = Val plen" and s': "inb d s'" "0 \<le> vlen s'" for plen s'
  proof (rule safe_step, simp)
    fix s2 assume "CHECK_LEN plen s' = Val s2"
    then have "s2 = s'" "plen \<le> vlen s'" using CHECK_LEN_Val [of plen s' s2] s'(2) rd_u32 [OF that(1)] by auto
    with s' have "safe d (\<lambda>s. CHECK_STRING d (vbuf s) plen s) s2"
      using safe_CHECK_STRING [of d s' "vbuf s'" plen] by (auto simp: safe_def inb_def)
    then show "safe d (steps [\<lambda>s. CHECK_STRING d (vbuf s) plen s, SHIFT_CNT plen]) s2"
      by (rule safe_Cons) (intro safe_steps)
  qed
  show "safe d (steps [SHIFT_FIELD 12, field d (b + 4) F_u32 (\<lambda>plen. steps
         [CHECK_LEN plen, \<lambda>s. CHECK_STRING d (vbuf s) plen s, SHIFT_CNT plen]),
       field d (b + 8) F_u32 (\<lambda>keylen. if keylen \<noteq> 0 then steps [CHECK_LEN keylen, STRINGS d] else Val)]) s"
    by (rule safe_SHIFT_FIELD_Cons [OF s], simp, rule safe_Cons, rule safe_field_rd)
      (use b path in \<open>auto intro!: safe_steps\<close>)
qed

lemma size_safe_upgrade: "size_safe d anoubisd_msg_upgrade_size"
  by (rule size_safe_CAST [OF anoubisd_msg_upgrade_size_def]) (intro safe_steps; simp)

lemma size_safe_update_all: "size_safe d anoubisd_sfs_update_all_size"
  by (rule size_safe_CAST [OF anoubisd_sfs_update_all_size_def]) (intro safe_steps; simp)

lemma size_safe_config: "size_safe d anoubisd_msg_config_size"
  by (rule size_safe_CAST [OF anoubisd_msg_config_size_def]) (intro safe_replicate safe_steps; simp)

lemma size_safe_logit: "size_safe d anoubisd_msg_logit_size"
  by (rule size_safe_CAST [OF anoubisd_msg_logit_size_def]) (intro safe_steps; simp)

lemma safe_two_part: "inb d s \<Longrightarrow> safe d (two_part_steps n m) s"
  unfolding two_part_steps_def by (intro safe_steps)

lemma size_safe_authchallenge: "size_safe d anoubisd_msg_authchallenge_size"
  by (rule size_safe_CAST [OF anoubisd_msg_authchallenge_size_def]) (intro safe_two_part safe_steps; simp)

lemma size_safe_authverify: "size_safe d anoubisd_msg_authverify_size"
  by (rule size_safe_CAST [OF anoubisd_msg_authverify_size_def]) (intro safe_two_part safe_steps; simp)

text \<open>Escalation messages: what the loop over the ranges establishes.\<close>

lemma overlap_loop_bound:
  "overlap_loop prev rs t = Some tot \<Longrightarrow> t \<le> tot \<and> (\<forall>r\<in>set rs. snd r \<noteq> 0 \<longrightarrow> fst r + snd r \<le> tot)"
  by (induction prev rs t rule: overlap_loop.induct) (fastforce split: if_splits)+

text \<open>A later range does not overlap an earlier one.\<close>

lemma overlap_loop_disjoint:
  "overlap_loop prev rs t = Some tot \<Longrightarrow>
   (\<forall>r\<in>set rs. \<forall>p\<in>set prev. \<not> overlaps r p) \<and> sorted_wrt (\<lambda>r1 r2. \<not> overlaps r2 r1) rs"
proof (induction prev rs t rule: overlap_loop.induct)
  case (2 prev r rs t)
  show ?case
  proof (cases "snd r = 0")
    case True
    with 2 show ?thesis by (auto simp: overlaps_def)
  next
    case False
    with 2 have "\<not> list_ex (overlaps r) prev" "overlap_loop (prev @ [r]) rs (max (fst r + snd r) t) = Some tot"
      by (auto split: if_splits)
    with 2(2) False show ?thesis by (auto simp: list_ex_iff)
  qed
qed simp

lemma safe_ask_total:
  assumes "inb d s" and "\<And>s' tot. inb d s' \<Longrightarrow> overlap_loop [] rs 0 = Some tot \<Longrightarrow> tot \<le> vlen s' \<Longrightarrow> safe d (steps fs) s'"
  shows "safe d (steps (ask_total rs # fs)) s"
proof (cases "overlap_loop [] rs 0")
  case None
  then show ?thesis by (simp add: safe_def ask_total_def)
next
  case (Some tot)
  show ?thesis
  proof (rule safe_step)
    fix s' assume a: "ask_total rs s = Val s'"
    with Some assms(1) have "inb d s'" "tot \<le> vlen s'"
      by (auto simp: ask_total_def SHIFT_FIELD_def ADD_SIZE_def inb_def split: if_splits chk.splits)
    then show "safe d (steps fs) s'" using assms(2) Some by blast
  qed (use Some in \<open>auto simp: ask_total_def split: chk.splits\<close>)
qed

lemma ask_string_Val: "ask_string d r s = Val s' \<Longrightarrow> s' = s"
  by (auto simp: ask_string_def CHECK_STRING_def split: if_splits chk.splits option.splits)

lemma safe_ask_string: "inb d s \<Longrightarrow> 0 \<le> fst r \<Longrightarrow> snd r \<noteq> 0 \<longrightarrow> fst r + snd r \<le> vlen s \<Longrightarrow> safe d (ask_string d r) s"
  using safe_CHECK_STRING [of d s "vbuf s + fst r" "snd r"] by (auto simp: safe_def ask_string_def inb_def)

lemma safe_ask_event:
  "kernel_abi_ok k \<Longrightarrow> inb d s \<Longrightarrow> 0 \<le> fst r \<Longrightarrow> snd r \<noteq> 0 \<longrightarrow> fst r + snd r \<le> vlen s \<Longrightarrow> safe d (ask_event k d r) s"
  using size_safe_call [of d "eventdev_hdr_size k" "vbuf s + fst r" "snd r"] size_safe_eventdev [of k d]
  by (auto simp: safe_def ask_event_def inb_def CHECK_SIZE_def)

lemma safe_ask_parts:
  assumes "kernel_abi_ok k" and "inb d s" and "\<forall>r\<in>set rs. 0 \<le> fst r" and "length rs = 5"
  shows "safe d (steps [ask_total rs, ask_string d (rs ! 1), ask_string d (rs ! 3), ask_event k d (rs ! 4)]) s"
proof (rule safe_ask_total [OF assms(2)])
  fix s' tot
  assume s': "inb d s'" and t: "overlap_loop [] rs 0 = Some tot" "tot \<le> vlen s'"
  have r: "0 \<le> fst (rs ! i) \<and> (snd (rs ! i) \<noteq> 0 \<longrightarrow> fst (rs ! i) + snd (rs ! i) \<le> vlen s')" if "i < 5" for i
    using overlap_loop_bound [OF t(1)] t(2) assms(3,4) that by (metis nth_mem order_trans)
  have str: "safe d (ask_string d (rs ! i)) s'" if "i < 5" for i
    using r [OF that] s' by (intro safe_ask_string) auto
  have ev: "safe d (ask_event k d (rs ! 4)) s'"
    using r [of 4] s' assms(1) by (intro safe_ask_event) auto
  show "safe d (steps [ask_string d (rs ! 1), ask_string d (rs ! 3), ask_event k d (rs ! 4)]) s'"
  proof (rule safe_step)
    fix s2 assume "ask_string d (rs ! 1) s' = Val s2"
    then have s2: "s2 = s'" by (rule ask_string_Val)
    show "safe d (steps [ask_string d (rs ! 3), ask_event k d (rs ! 4)]) s2"
    proof (rule safe_step)
      fix s3 assume "ask_string d (rs ! 3) s2 = Val s3"
      then show "safe d (steps [ask_event k d (rs ! 4)]) s3" using ask_string_Val s2 ev by (blast intro: safe_last)
    qed (use str [of 3] s2 in \<open>auto simp: safe_def\<close>)
  qed (use str [of 1] in \<open>auto simp: safe_def\<close>)
qed

lemma safe_append:
  assumes "\<And>f s. f \<in> set fs \<Longrightarrow> inb d s \<Longrightarrow> safe d f s" and "inb d s" and "\<And>s'. inb d s' \<Longrightarrow> safe d (steps gs) s'"
  shows "safe d (steps (fs @ gs)) s"
  using assms(1,2)
proof (induction fs arbitrary: s)
  case (Cons f fs)
  show ?case unfolding append_Cons by (rule safe_Cons) (use Cons in auto)
qed (simp add: assms(3))

lemma safe_ask_ranges:
  assumes "0 \<le> b" and "b + 40 \<le> int (length d)"
    and "\<And>rs. length rs = 5 \<Longrightarrow> \<forall>r\<in>set rs. 0 \<le> fst r \<Longrightarrow> safe d (f rs) s"
  shows "safe d (ask_ranges d b f) s"
  unfolding ask_ranges_def
  by (intro safe_field_rd assms(3)) (use assms(1,2) in \<open>auto dest!: rd_u16\<close>)

lemma size_safe_eventask:
  assumes "kernel_abi_ok k"
  shows "size_safe d (anoubisd_msg_eventask_size k)"
proof (rule size_safe_CAST [OF anoubisd_msg_eventask_size_def])
  fix b :: int and s :: vstate
  assume b: "0 \<le> b" "b + 40 \<le> int (length d)" and s: "inb d s"
  have "safe d (steps (concat (map (\<lambda>r. [CHECK_SIZE (fst r), CHECK_SIZE (snd r)]) rs) @
        [ask_total rs, ask_string d (rs ! 1), ask_string d (rs ! 3), ask_event k d (rs ! 4)])) s"
    if "length rs = 5" "\<forall>r\<in>set rs. 0 \<le> fst r" for rs
    by (rule safe_append) (use that s assms in \<open>auto intro: safe_CHECK_SIZE safe_ask_parts simp del: One_nat_def\<close>)
  then show "safe d (steps [ask_ranges d b (\<lambda>rs. steps
       (concat (map (\<lambda>r. [CHECK_SIZE (fst r), CHECK_SIZE (snd r)]) rs) @
        [ask_total rs, ask_string d (rs ! 1), ask_string d (rs ! 3), ask_event k d (rs ! 4)]))]) s"
    by (intro safe_last safe_ask_ranges b)
qed

lemma size_safe_payload: "kernel_abi_ok k \<Longrightarrow> size_safe d (payload_size k t)"
  by (cases t) (simp_all add: payload_size_def size_safe_polrequest size_safe_csumop size_safe_eventdev size_safe_eventask
      size_safe_sfscache size_safe_upgrade size_safe_update_all size_safe_config size_safe_logit size_safe_authchallenge
      size_safe_authverify)

lemma safe_payload:
  "kernel_abi_ok k \<Longrightarrow> inb d s \<Longrightarrow>
   safe d (case msg_type_of v of None \<Rightarrow> RETURN (-1) | Some t \<Rightarrow> VARIANT (payload_size k t) d) s"
  by (auto split: option.split intro: safe_rules size_safe_payload)

lemma size_safe_msg: "kernel_abi_ok k \<Longrightarrow> size_safe d (anoubisd_msg_size k)"
  by (rule size_safe_CAST [OF anoubisd_msg_size_def]) (intro safe_payload safe_steps; simp)

subsection \<open>What verification guarantees\<close>

lemma steps_Val: "steps (f # fs) s = Val t \<longleftrightarrow> (\<exists>s'. f s = Val s' \<and> steps fs s' = Val t)"
  by (auto split: chk.splits)

lemma field_Val: "field d p t f s = Val s' \<longleftrightarrow> (\<exists>v. rd d p t = Val v \<and> f v s = Val s')"
  by (auto simp: field_def split: chk.splits)

lemma fill_rest_length: "n \<le> length d \<Longrightarrow> length (fill_rest n d) = length d"
  by (simp add: fill_rest_def)

lemma fill_rest_take: "m \<le> n \<Longrightarrow> n \<le> length d \<Longrightarrow> take m (fill_rest n d) = take m d"
  by (simp add: fill_rest_def)

lemma size_of_Some: "size_of fs b l = Some n \<Longrightarrow> 0 \<le> n \<Longrightarrow>
    (\<exists>s. steps fs \<lparr>vbuf = b, vlen = l, vsize = 0\<rparr> = Val s \<and> n = vsize s) \<or> steps fs \<lparr>vbuf = b, vlen = l, vsize = 0\<rparr> = Ret n"
  by (auto simp: size_of_def split: chk.splits if_splits)

lemma CAST_Val: "CAST sz s = Val s' \<longleftrightarrow> s' = s \<and> sz \<le> vlen s"
  by (auto simp: CAST_def)

lemma SHIFT_FIELD_Val:
  "SHIFT_FIELD off s = Val s' \<Longrightarrow> vbuf s' = vbuf s + off \<and> vlen s' = vlen s - off \<and> vsize s' = vsize s + as_int off \<and> 0 \<le> vlen s'"
  by (auto simp: SHIFT_FIELD_def ADD_SIZE_def split: if_splits)

text \<open>An error return is never a size.\<close>

definition only_err :: "vstep \<Rightarrow> bool" where
  "only_err f \<longleftrightarrow> (\<forall>s r. f s = Ret r \<longrightarrow> r = -1)"

named_theorems err_rules \<open>steps whose only return value is -1\<close>

lemma err_basic [err_rules]:
  "only_err (CAST sz)" "only_err (SHIFT_FIELD off)" "only_err (CHECK_SIZE v)" "only_err (ADD_SIZE v)" "only_err (RETURN (-1))"
  by (auto simp: only_err_def CAST_def SHIFT_FIELD_def CHECK_SIZE_def ADD_SIZE_def RETURN_def split: if_splits)

lemma err_steps: "(\<And>f. f \<in> set fs \<Longrightarrow> only_err f) \<Longrightarrow> only_err (steps fs)"
proof (induction fs)
  case (Cons f fs)
  then have "only_err f" "only_err (steps fs)" by auto
  then show ?case by (auto simp: only_err_def split: chk.splits)
qed (simp add: only_err_def)

lemma err_field [err_rules]: "(\<And>v. only_err (f v)) \<Longrightarrow> only_err (field d p t f)"
  by (auto simp: only_err_def field_def rd_def split: chk.splits if_splits)

lemma err_VARIANT [err_rules]: "only_err (VARIANT f d)"
  by (auto simp: only_err_def VARIANT_def ADD_SIZE_def split: option.splits if_splits)

lemma scan_back_result: "scan_back d p n = Ret r \<longleftrightarrow> False"
    "scan_back d p n = Val (Some i) \<Longrightarrow> i < n \<and> rd d (p + int i) F_u8 = Val 0"
proof -
  show "scan_back d p n = Ret r \<longleftrightarrow> False"
    by (induction n) (auto simp: rd_def split: chk.splits if_splits)
  show "scan_back d p n = Val (Some i) \<Longrightarrow> i < n \<and> rd d (p + int i) F_u8 = Val 0"
    by (induction n) (auto split: chk.splits if_splits)
qed

lemma err_ask [err_rules]: "only_err (ask_total rs)" "only_err (ask_string d r)" "only_err (ask_event k d r)"
  by (auto simp: only_err_def ask_total_def ask_string_def ask_event_def CHECK_STRING_def scan_back_result SHIFT_FIELD_def
      ADD_SIZE_def CHECK_SIZE_def split: if_splits option.splits chk.splits)

lemma msg_size_cases:
  assumes "anoubisd_msg_size k d 0 l = Some n" and "0 \<le> n"
  obtains mtype t r where "rd d 4 F_s32 = Val mtype" and "msg_type_of mtype = Some t"
    and "payload_size k t d 8 (l - 8) = Some r" and "size_ok r" and "8 \<le> n" and "8 \<le> l"
proof -
  let ?m = "\<lambda>mtype. case msg_type_of mtype of None \<Rightarrow> RETURN (-1) | Some t \<Rightarrow> VARIANT (payload_size k t) d"
  have "only_err (?m v)" for v by (auto split: option.split intro: err_rules)
  then have "only_err (steps [CAST 8, SHIFT_FIELD 8, field d (0 + 4) F_s32 ?m])" by (auto intro!: err_steps err_rules)
  then obtain s where s: "steps [CAST 8, SHIFT_FIELD 8, field d (0 + 4) F_s32 ?m] \<lparr>vbuf = 0, vlen = l, vsize = 0\<rparr> = Val s"
      and n: "n = vsize s"
    using size_of_Some [OF assms(1) [unfolded anoubisd_msg_size_def] assms(2)] assms(2) unfolding only_err_def by force
  then obtain s1 mtype where s1: "SHIFT_FIELD 8 \<lparr>vbuf = 0, vlen = l, vsize = 0\<rparr> = Val s1"
      and m: "rd d 4 F_s32 = Val mtype" "?m mtype s1 = Val s" and l: "8 \<le> l"
    by (auto simp: steps_Val field_Val CAST_Val simp del: steps.simps(2))
  note s1' = SHIFT_FIELD_Val [OF s1]
  from m(2) obtain t where t: "msg_type_of mtype = Some t" "VARIANT (payload_size k t) d s1 = Val s"
    by (auto simp: RETURN_def split: option.splits)
  then obtain r where r: "payload_size k t d 8 (l - 8) = Some r" "ADD_SIZE r s1 = Val s"
    using s1' by (auto simp: VARIANT_def split: option.splits)
  have "as_int 8 = 8" by (rule as_int_id) auto
  then have "8 \<le> n" using n s1' ADD_SIZE_Val [OF r(2)] by simp
  moreover have "size_ok r" using r(2) by (auto simp: ADD_SIZE_def split: if_splits)
  ultimately show thesis using that m(1) t(1) r(1) l by blast
qed

lemma verify_return:
  assumes "amsg_verify_common k fatal d = V_Return r d'"
  shows "length d' = length d \<and> take 8 d' = take 8 d"
proof -
  obtain n where n: "anoubisd_msg_size k d 0 (int (length d)) = Some n" and l: "\<not> length d < 8"
    using assms by (auto simp: amsg_verify_common_def split: if_splits option.splits)
  show ?thesis
  proof (cases "0 \<le> n \<and> n \<le> int (length d)")
    case True
    then have "0 \<le> n" ..
    then have "8 \<le> n" by (rule msg_size_cases [OF n])
    with True n l assms show ?thesis by (auto simp: amsg_verify_common_def fill_rest_length fill_rest_take split: if_splits)
  qed (use assms n l in \<open>auto simp: amsg_verify_common_def split: if_splits\<close>)
qed

text \<open>
  C3. Whatever bytes a process receives, verifying them never accesses memory outside of the message: the size
  computation does not read beyond the end, and only bytes behind the computed size are
  overwritten. Verification either ends the daemon or returns a message of the same length with the same header.
\<close>

theorem verify_in_bounds:
  assumes "kernel_abi_ok k"
  shows "amsg_verify_common k fatal d \<noteq> V_Fault \<and>
    (\<forall>r d'. amsg_verify_common k fatal d = V_Return r d' \<longrightarrow> length d' = length d \<and> take 8 d' = take 8 d)"
proof -
  obtain n where "anoubisd_msg_size k d 0 (int (length d)) = Some n"
    using size_safe_call [OF size_safe_msg [OF assms], of 0 "int (length d)" d] by auto
  then have "amsg_verify_common k fatal d \<noteq> V_Fault" by (simp add: amsg_verify_common_def)
  then show ?thesis using verify_return by blast
qed

text \<open>A concrete layout of the kernel's structures.\<close>

definition demo_abi :: kernel_abi where
  "demo_abi = \<lparr>k_source = (\<lambda>n. if n = 10 then Some ANOUBIS_SOURCE_ALF else if n = 20 then Some ANOUBIS_SOURCE_SFS else None),
     k_op_open = 1, k_op_rename = 2, eventdev_hdr_sz = 16, msg_size_off = 0, msg_size_type = F_u16, msg_source_off = 2,
     msg_source_type = F_u8, alf_event_sz = 80, ac_process_sz = 40, ac_ipc_sz = 40, stat_sz = 4, pg_proc_sz = 16,
     sfs_open_sz = 96, sfs_open_pathhint = 92, sfs_path_sz = 32, sfs_path_paths = 32, pathlen0_off = 20, pathlen1_off = 24,
     pathlen_type = F_u32, pg_open_sz = 24, pg_open_pathbuf = 24, pg_open_op_off = 16, pg_open_op_type = F_u32,
     pg_file_sz = 48, pg_file_path = 44, eventdev_reply_sz = 8, eventdev_token_sz = 4\<rparr>"

lemma demo_abi_ok: "kernel_abi_ok demo_abi"
  by (simp add: kernel_abi_ok_def demo_abi_def)

text \<open>The abort of a policy request, 16 bytes, with four more bytes behind it.\<close>

definition demo_abort :: bytes where
  "demo_abort = [20, 0, 0, 0, 1, 0, 0, 0, 7, 0, 0, 0, 0, 0, 0, 0, 1, 2, 3, 4]"

theorem verify_in_bounds_witness:
  "\<exists>d'. amsg_verify demo_abi demo_abort = V_Return True d' \<and> length d' = 20 \<and> take 8 d' = take 8 demo_abort"
proof -
  have "anoubisd_msg_size demo_abi demo_abort 0 20 = Some 16"
    by (simp add: anoubisd_msg_size_def size_of_def CAST_def SHIFT_FIELD_def ADD_SIZE_def size_ok_def as_int_def to_signed_def
        SIZE_LIMIT_def field_def rd_def demo_abort_def msg_type_of_def msg_types_def VARIANT_def payload_size_def check_function_def)
  then have "amsg_verify demo_abi demo_abort = V_Return True (fill_rest 16 demo_abort)"
    by (simp add: amsg_verify_def amsg_verify_common_def demo_abort_def)
  moreover have "length demo_abort = 20" by (simp add: demo_abort_def)
  ultimately show ?thesis
    using verify_in_bounds [OF demo_abi_ok, of True demo_abort] unfolding amsg_verify_def by metis
qed

subsection \<open>Escalation messages\<close>

definition u16_at :: "bytes \<Rightarrow> int \<Rightarrow> int" where
  "u16_at d p = be_value (rev (take 2 (drop (nat p) d)))"

text \<open>Offset and length of part \<open>i\<close> of an escalation message that starts at \<open>b\<close>.\<close>

definition ask_part :: "bytes \<Rightarrow> int \<Rightarrow> nat \<Rightarrow> int \<times> int" where
  "ask_part d b i = (u16_at d (b + 20 + 4 * int i), u16_at d (b + 22 + 4 * int i))"

lemma rd_u16_at: "rd d p F_u16 = Val v \<Longrightarrow> v = u16_at d p"
  by (auto simp: rd_def u16_at_def split: if_splits)

lemma upt_5: "[0..<5] = [0, 1, 2, 3, 4::nat]"
  by (simp add: upt_rec)

lemma ask_ranges_Val:
  "ask_ranges d b f s = Val s' \<Longrightarrow> f (map (ask_part d b) [0..<5]) s = Val s'"
  unfolding upt_5 by (auto simp: ask_ranges_def field_Val ask_part_def add.commute dest!: rd_u16_at)

lemma steps_append_Val: "steps (fs @ gs) s = Val t \<longleftrightarrow> (\<exists>s'. steps fs s = Val s' \<and> steps gs s' = Val t)"
  by (induction fs arbitrary: s) (auto split: chk.splits)

lemma CHECK_SIZE_steps_Val:
  "steps (concat (map (\<lambda>r. [CHECK_SIZE (fst r), CHECK_SIZE (snd r)]) rs)) s = Val s' \<Longrightarrow> s' = s"
  by (induction rs arbitrary: s) (auto simp: CHECK_SIZE_def split: if_splits)

lemma ask_total_Val:
  assumes "ask_total rs s = Val s'"
  obtains tot where "overlap_loop [] rs 0 = Some tot" and "tot \<le> vlen s - 40" and "vbuf s' = vbuf s + 40"
  using assms
  by (auto simp: ask_total_def ADD_SIZE_def split: option.splits chk.splits if_splits dest!: SHIFT_FIELD_Val)

lemma ask_string_nul:
  assumes "ask_string d r s = Val s'" and "snd r \<noteq> 0"
  shows "\<exists>i. int i < snd r \<and> rd d (vbuf s + fst r + int i) F_u8 = Val 0"
proof -
  obtain i where "scan_back d (vbuf s + fst r) (nat (snd r)) = Val (Some i)"
    using assms by (auto simp: ask_string_def CHECK_STRING_def split: if_splits chk.splits option.splits)
  from scan_back_result(2) [OF this] show ?thesis by (intro exI [of _ i]) auto
qed

lemma eventask_size_cases:
  assumes "anoubisd_msg_eventask_size k d b l = Some n" and "size_ok n"
  obtains tot where "overlap_loop [] (map (ask_part d b) [0..<5]) 0 = Some tot" and "tot \<le> l - 40"
    and "\<forall>i\<in>{1, 3}. snd (ask_part d b i) \<noteq> 0 \<longrightarrow>
      (\<exists>j. int j < snd (ask_part d b i) \<and> rd d (b + 40 + fst (ask_part d b i) + int j) F_u8 = Val 0)"
proof -
  let ?rest = "\<lambda>rs. [ask_total rs, ask_string d (rs ! 1), ask_string d (rs ! 3), ask_event k d (rs ! 4)]"
  let ?checks = "\<lambda>rs. concat (map (\<lambda>r. [CHECK_SIZE (fst r), CHECK_SIZE (snd r)]) rs)"
  let ?s = "\<lparr>vbuf = b, vlen = l, vsize = 0\<rparr>"
  let ?rs = "map (ask_part d b) [0..<5]"
  have "only_err (steps (?checks rs @ ?rest rs))" for rs by (rule err_steps) (auto intro: err_rules)
  then have "only_err (ask_ranges d b (\<lambda>rs. steps (?checks rs @ ?rest rs)))" unfolding ask_ranges_def by (intro err_field)
  then have e: "only_err (steps [CAST 40, ask_ranges d b (\<lambda>rs. steps (?checks rs @ ?rest rs))])"
    by (intro err_steps) (auto intro: err_rules simp del: list.map concat.simps)
  have "n \<noteq> -1" using assms(2) by (auto simp: size_ok_def as_int_def to_signed_def)
  then obtain s where "steps [CAST 40, ask_ranges d b (\<lambda>rs. steps (?checks rs @ ?rest rs))] ?s = Val s"
    using assms(1) e unfolding anoubisd_msg_eventask_size_def size_of_def only_err_def
    by (cases "steps [CAST 40, ask_ranges d b (\<lambda>rs. steps (?checks rs @ ?rest rs))] ?s") auto
  then have "ask_ranges d b (\<lambda>rs. steps (?checks rs @ ?rest rs)) ?s = Val s"
    by (auto simp: steps_Val CAST_Val simp del: steps.simps(2))
  then have "steps (?checks ?rs @ ?rest ?rs) ?s = Val s" by (rule ask_ranges_Val)
  then obtain s0 where "steps (?checks ?rs) ?s = Val s0" "steps (?rest ?rs) s0 = Val s" unfolding steps_append_Val by blast
  then have "steps (?rest ?rs) ?s = Val s" using CHECK_SIZE_steps_Val by blast
  then obtain s1 s2 s3 where s1: "ask_total ?rs ?s = Val s1" and s2: "ask_string d (?rs ! 1) s1 = Val s2"
      and s3: "ask_string d (?rs ! 3) s2 = Val s3"
    unfolding steps_Val by blast
  obtain tot where tot: "overlap_loop [] ?rs 0 = Some tot" "tot \<le> l - 40" "vbuf s1 = b + 40"
    using ask_total_Val [OF s1] by auto
  have "s2 = s1" using ask_string_Val [OF s2] .
  then have "\<forall>i\<in>{1, 3}. snd (ask_part d b i) \<noteq> 0 \<longrightarrow>
      (\<exists>j. int j < snd (ask_part d b i) \<and> rd d (b + 40 + fst (ask_part d b i) + int j) F_u8 = Val 0)"
    using ask_string_nul [OF s2] ask_string_nul [OF s3] tot(3) by (simp add: upt_5)
  with tot(1,2) show thesis by (rule that)
qed

text \<open>
  C32. An escalation or log message that passed verification is well formed: each of its five parts (checksum, path, context
  checksum, context path, kernel event) lies inside of the message, no two of them overlap, and the two paths contain a
  terminating NUL byte. The session engine relies on this when it copies the parts for clients.
\<close>

theorem eventask_verified:
  assumes "amsg_verify k d = V_Return r d'" and "rd d 4 F_s32 = Val mtype"
    and "msg_type_of mtype \<in> {Some ANOUBISD_MSG_EVENTASK, Some ANOUBISD_MSG_LOGREQUEST}"
    and "i < 5" and "snd (ask_part d 8 i) \<noteq> 0"
  shows "48 + fst (ask_part d 8 i) + snd (ask_part d 8 i) \<le> int (length d) \<and>
    (\<forall>j<i. snd (ask_part d 8 j) \<noteq> 0 \<longrightarrow>
       fst (ask_part d 8 i) + snd (ask_part d 8 i) \<le> fst (ask_part d 8 j) \<or>
       fst (ask_part d 8 j) + snd (ask_part d 8 j) \<le> fst (ask_part d 8 i)) \<and>
    (i \<in> {1, 3} \<longrightarrow> (\<exists>j. int j < snd (ask_part d 8 i) \<and> rd d (48 + fst (ask_part d 8 i) + int j) F_u8 = Val 0))"
proof -
  obtain n where n: "anoubisd_msg_size k d 0 (int (length d)) = Some n" "0 \<le> n"
    using assms(1) by (auto simp: amsg_verify_def amsg_verify_common_def split: if_splits option.splits)
  obtain m where m: "anoubisd_msg_eventask_size k d 8 (int (length d) - 8) = Some m" "size_ok m"
  proof (rule msg_size_cases [OF n])
    fix mt t m
    assume "rd d 4 F_s32 = Val mt" "msg_type_of mt = Some t" "payload_size k t d 8 (int (length d) - 8) = Some m" "size_ok m"
    with assms(2,3) that show thesis by (auto simp: payload_size_def)
  qed
  obtain tot where t: "overlap_loop [] (map (ask_part d 8) [0..<5]) 0 = Some tot" "tot \<le> int (length d) - 48"
      and nul: "\<forall>i\<in>{1, 3}. snd (ask_part d 8 i) \<noteq> 0 \<longrightarrow>
        (\<exists>j. int j < snd (ask_part d 8 i) \<and> rd d (48 + fst (ask_part d 8 i) + int j) F_u8 = Val 0)"
    by (rule eventask_size_cases [OF m]) (use that in simp)
  have "ask_part d 8 i \<in> set (map (ask_part d 8) [0..<5])" using assms(4) by auto
  then have "fst (ask_part d 8 i) + snd (ask_part d 8 i) \<le> tot" using overlap_loop_bound [OF t(1)] assms(5) by blast
  moreover have "sorted_wrt (\<lambda>r1 r2. \<not> overlaps r2 r1) (map (ask_part d 8) [0..<5])"
    using overlap_loop_disjoint [OF t(1)] by blast
  then have "\<not> overlaps (ask_part d 8 i) (ask_part d 8 j)" if "j < i" for j
    using that assms(4) by (auto simp: sorted_wrt_iff_nth_less dest!: spec [of _ j])
  ultimately show ?thesis using t(2) nul assms(5) by (force simp: overlaps_def)
qed

text \<open>An escalation with a checksum of two bytes and the path \<^verbatim>\<open>/a\<close>.\<close>

definition demo_ask :: bytes where
  "demo_ask = [53, 0, 0, 0, 9, 0, 0, 0] @ replicate 20 0 @
     [0, 0, 2, 0, 2, 0, 3, 0, 0, 0, 0, 0, 0, 0, 0, 0, 0, 0, 0, 0] @ [1, 2, 47, 97, 0]"

lemma demo_ask_verify:
  "amsg_verify demo_abi demo_ask = V_Return True demo_ask" "rd demo_ask 4 F_s32 = Val 9"
  "msg_type_of 9 = Some ANOUBISD_MSG_EVENTASK" "ask_part demo_ask 8 1 = (2, 3)" "ask_part demo_ask 8 0 = (0, 2)"
  by code_simp+

theorem eventask_verified_witness:
  "48 + 2 + 3 \<le> int (length demo_ask) \<and> (0::int) + 2 \<le> 2 \<and> (\<exists>j. int j < 3 \<and> rd demo_ask (50 + int j) F_u8 = Val 0)"
  using eventask_verified [OF demo_ask_verify(1,2), of 1] demo_ask_verify(3-) by simp

end
