(* ===== verification/Transport.thy ===== *)
theory Transport
  imports Verify
begin

text \<open>
  The message buffers of \<^verbatim>\<open>src/src/anoubisd/amsg.c\<close> and the queues of \<^verbatim>\<open>src/src/anoubisd/aqueue.c\<close> through which the
  processes of the daemon exchange messages over non-blocking pipes.

  A message is the list of its bytes. \<open>rbuf\<close> holds the unprocessed bytes between \<^verbatim>\<open>rheadp\<close> and \<^verbatim>\<open>rtailp\<close>, \<open>rhead\<close> the
  distance of \<^verbatim>\<open>rheadp\<close> from the start of the buffer, \<open>rmsg\<close> an incomplete message with its final size, so that
  \<^verbatim>\<open>rmsgoff\<close> is its current length. The results of \<^verbatim>\<open>read\<close> and \<^verbatim>\<open>write\<close> are arguments.
\<close>

definition MSG_BUF_SIZE :: nat where "MSG_BUF_SIZE = 8192"
definition MSG_SIZE_LIMIT :: int where "MSG_SIZE_LIMIT = 100000"
definition MSG_HDR :: nat where "MSG_HDR = 8"

record msg_buf =
  rbuf :: bytes
  rhead :: nat
  rmsg :: "(bytes \<times> nat) option"
  wmsg :: "bytes option"
  woff :: nat
  iseof :: bool

definition new_msg_buf :: msg_buf where
  "new_msg_buf = \<lparr>rbuf = [], rhead = 0, rmsg = None, wmsg = None, woff = 0, iseof = False\<rparr>"

subsection \<open>The table of message buffers\<close>

text \<open>A slot is in use iff it has a buffer. The table is zero initialised.\<close>

record msg_slot =
  sl_fd :: int
  sl_buf :: "msg_buf option"

definition MSG_BUFS :: nat where "MSG_BUFS = 1000"

definition fds_init :: "msg_slot list" where
  "fds_init = replicate MSG_BUFS \<lparr>sl_fd = 0, sl_buf = None\<rparr>"

text \<open>The loops from the last slot to the first.\<close>

fun last_slot :: "(msg_slot \<Rightarrow> bool) \<Rightarrow> msg_slot list \<Rightarrow> nat \<Rightarrow> nat option" where
  "last_slot P fds 0 = None"
| "last_slot P fds (Suc n) = (if P (fds ! n) then Some n else last_slot P fds n)"

definition get_mbp :: "int \<Rightarrow> msg_slot list \<Rightarrow> nat option" where
  "get_mbp fd fds =
     (if fd < 0 then None
      else if nat fd < MSG_BUFS \<and> sl_buf (fds ! nat fd) \<noteq> None \<and> sl_fd (fds ! nat fd) = fd then Some (nat fd)
      else last_slot (\<lambda>sl. sl_buf sl \<noteq> None \<and> sl_fd sl = fd) fds MSG_BUFS)"

text \<open>\<open>None\<close> is the termination of the daemon.\<close>

definition msg_init :: "int \<Rightarrow> msg_slot list \<Rightarrow> msg_slot list option" where
  "msg_init fd fds =
     (if fd < 0 then None
      else if \<exists>i<MSG_BUFS. sl_fd (fds ! i) = fd then Some fds
      else case (if nat fd < MSG_BUFS \<and> sl_buf (fds ! nat fd) = None then Some (nat fd)
                 else last_slot (\<lambda>sl. sl_buf sl = None) fds MSG_BUFS) of
        None \<Rightarrow> Some fds
      | Some i \<Rightarrow> Some (fds[i := \<lparr>sl_fd = fd, sl_buf = Some new_msg_buf\<rparr>]))"

definition msg_release :: "int \<Rightarrow> msg_slot list \<Rightarrow> msg_slot list" where
  "msg_release fd fds =
     (case get_mbp fd fds of None \<Rightarrow> fds | Some i \<Rightarrow> fds[i := \<lparr>sl_fd = -1, sl_buf = None\<rparr>])"

subsection \<open>Reading\<close>

text \<open>A read of at most \<open>n\<close> bytes returns some of them, end of file, a temporary or a permanent error.\<close>

datatype read_result = R_data bytes | R_eof | R_again | R_error

definition space :: "msg_buf \<Rightarrow> nat" where
  "space mb = 2 * MSG_BUF_SIZE - length (rbuf mb)"

text \<open>The number of bytes that \<^verbatim>\<open>_fill_buf\<close> asks for.\<close>

definition fill_request :: "msg_buf \<Rightarrow> nat" where
  "fill_request mb = (case rmsg mb of Some (m, sz) \<Rightarrow> sz - length m | None \<Rightarrow> space mb)"

definition fill_buf :: "read_result \<Rightarrow> msg_buf \<Rightarrow> bool \<times> msg_buf" where
  "fill_buf res mb =
     (case rmsg mb of
        Some (m, sz) \<Rightarrow>
          (if length m = sz then (True, mb)
           else case res of
             R_data bs \<Rightarrow> (True, mb\<lparr>rmsg := Some (m @ bs, sz)\<rparr>)
           | R_eof \<Rightarrow> (False, mb\<lparr>iseof := True\<rparr>)
           | R_again \<Rightarrow> (True, mb)
           | R_error \<Rightarrow> (False, mb))
      | None \<Rightarrow>
          (let mb1 = mb\<lparr>rhead := 0\<rparr>
           in if space mb1 = 0 then (True, mb1)
              else case res of
                R_data bs \<Rightarrow> (True, mb1\<lparr>rbuf := rbuf mb1 @ bs\<rparr>)
              | R_eof \<Rightarrow> (False, mb1\<lparr>iseof := True\<rparr>)
              | R_again \<Rightarrow> (True, mb1)
              | R_error \<Rightarrow> (False, mb1)))"

definition msg_eof :: "msg_buf \<Rightarrow> bool" where
  "msg_eof mb =
     (iseof mb \<and> (case rmsg mb of Some (m, sz) \<Rightarrow> sz \<noteq> length m | None \<Rightarrow> length (rbuf mb) < MSG_HDR))"

text \<open>Results of \<^verbatim>\<open>get_msg\<close>: no message, a verified message, or the end of the daemon.\<close>

datatype get_result = G_none | G_msg bytes | G_terminate

definition deliver :: "kernel_abi \<Rightarrow> bytes \<Rightarrow> get_result" where
  "deliver k m = (case amsg_verify k m of V_Return r m' \<Rightarrow> G_msg m' | _ \<Rightarrow> G_terminate)"

definition msg_size_field :: "bytes \<Rightarrow> int" where
  "msg_size_field m = decode F_s32 (take 4 m)"

definition get_partial :: "kernel_abi \<Rightarrow> read_result \<Rightarrow> bytes \<Rightarrow> nat \<Rightarrow> msg_buf \<Rightarrow> get_result \<times> msg_buf" where
  "get_partial k res m sz mb =
     (let (ok, mb1) = (if length m \<noteq> sz then fill_buf res mb else (True, mb))
      in if \<not> ok then (G_none, mb1)
         else case rmsg mb1 of
           Some (m', sz') \<Rightarrow> (if length m' = sz' then (deliver k m', mb1\<lparr>rmsg := None\<rparr>) else (G_none, mb1))
         | None \<Rightarrow> (G_none, mb1))"

definition get_buffered :: "kernel_abi \<Rightarrow> msg_buf \<Rightarrow> get_result \<times> msg_buf" where
  "get_buffered k mb =
     (let sz = msg_size_field (rbuf mb)
      in if sz > MSG_SIZE_LIMIT \<or> sz < int MSG_HDR then (G_terminate, mb)
         else
           (let copy = min (length (rbuf mb)) (nat sz); m = take copy (rbuf mb);
                mb1 = mb\<lparr>rbuf := drop copy (rbuf mb), rhead := rhead mb + copy\<rparr>
            in if copy \<noteq> nat sz then (G_none, mb1\<lparr>rmsg := Some (m, nat sz)\<rparr>) else (deliver k m, mb1)))"

definition get_msg :: "kernel_abi \<Rightarrow> read_result \<Rightarrow> msg_buf \<Rightarrow> get_result \<times> msg_buf" where
  "get_msg k res mb =
     (case rmsg mb of
        Some (m, sz) \<Rightarrow> get_partial k res m sz mb
      | None \<Rightarrow>
          (let (ok, mb1) = (if length (rbuf mb) < MSG_HDR then fill_buf res mb else (True, mb))
           in if \<not> ok \<or> length (rbuf mb1) < MSG_HDR then (G_none, mb1) else get_buffered k mb1))"

subsection \<open>Writing\<close>

text \<open>A write of \<open>n\<close> bytes takes at most \<open>n\<close> of them; fatal errors drop the message.\<close>

datatype write_result = W_bytes nat | W_again | W_fatal | W_error

definition flush_done :: "msg_buf \<Rightarrow> msg_buf" where
  "flush_done mb = mb\<lparr>wmsg := None, woff := 0\<rparr>"

text \<open>The bytes written and the buffer after one attempt.\<close>

definition flush_buf :: "write_result \<Rightarrow> msg_buf \<Rightarrow> bytes \<times> msg_buf" where
  "flush_buf res mb =
     (case wmsg mb of
        None \<Rightarrow> ([], mb)
      | Some m \<Rightarrow>
          (if woff mb = length m then ([], flush_done mb)
           else case res of
             W_again \<Rightarrow> ([], mb)
           | W_fatal \<Rightarrow> ([], flush_done mb)
           | W_error \<Rightarrow> ([], mb)
           | W_bytes n \<Rightarrow>
               (let c = min n (length m - woff mb)
                in (take c (drop (woff mb) m),
                    if woff mb + c = length m then flush_done mb else mb\<lparr>woff := woff mb + c\<rparr>))))"

datatype send_result = S_accepted | S_busy | S_failed | S_terminate

definition send_new :: "kernel_abi \<Rightarrow> write_result \<Rightarrow> bytes \<Rightarrow> msg_buf \<Rightarrow> send_result \<times> bytes \<times> msg_buf" where
  "send_new k res m mb =
     (if int (length m) > MSG_SIZE_LIMIT then (S_failed, [], mb)
      else case amsg_verify k m of
        V_Return r m' \<Rightarrow> (let (bs, mb') = flush_buf res (mb\<lparr>wmsg := Some m', woff := 0\<rparr>) in (S_accepted, bs, mb'))
      | _ \<Rightarrow> (S_terminate, [], mb))"

definition send_msg ::
    "kernel_abi \<Rightarrow> write_result \<Rightarrow> write_result \<Rightarrow> bytes option \<Rightarrow> msg_buf \<Rightarrow> send_result \<times> bytes \<times> msg_buf" where
  "send_msg k res1 res2 msg mb =
     (let (bs, mb1) = flush_buf res1 mb
      in if wmsg mb1 \<noteq> None then (S_busy, bs, mb1)
         else case msg of
           None \<Rightarrow> (S_accepted, bs, mb1)
         | Some m \<Rightarrow> (let (r, bs2, mb2) = send_new k res2 m mb1 in (r, bs @ bs2, mb2)))"

definition msg_pending :: "msg_buf \<Rightarrow> bool" where
  "msg_pending mb = (wmsg mb \<noteq> None)"

text \<open>
  \<^verbatim>\<open>dispatch_write_queue\<close> with the results of the writes; the queue has an event, so a busy buffer ends the loop.
\<close>

function dispatch_write_queue ::
    "kernel_abi \<Rightarrow> (nat \<Rightarrow> write_result) \<Rightarrow> bytes list \<Rightarrow> msg_buf \<Rightarrow> (bytes list \<times> bytes \<times> msg_buf) option" where
  "dispatch_write_queue k ws q mb =
     (if q = [] \<and> \<not> msg_pending mb then Some (q, [], mb)
      else
        (let msg = (case q of [] \<Rightarrow> None | m # q' \<Rightarrow> Some m)
         in case send_msg k (ws 0) (ws 1) msg mb of
              (S_busy, bs, mb') \<Rightarrow> Some (q, bs, mb')
            | (S_failed, bs, mb') \<Rightarrow> Some (tl q, bs, mb')
            | (S_terminate, bs, mb') \<Rightarrow> None
            | (S_accepted, bs, mb') \<Rightarrow>
                (if q = [] then Some (q, bs, mb')
                 else case dispatch_write_queue k (\<lambda>i. ws (i + 2)) (tl q) mb' of
                   None \<Rightarrow> None | Some (q', bs', mb'') \<Rightarrow> Some (q', bs @ bs', mb''))))"
  by pat_completeness auto
termination
  by (relation "measure (\<lambda>(k, ws, q, mb). length q)") auto

declare dispatch_write_queue.simps [simp del]

subsection \<open>Queues\<close>

definition enqueue :: "bytes list \<Rightarrow> bytes \<Rightarrow> bytes list" where
  "enqueue q m = q @ [m]"

definition dequeue :: "bytes list \<Rightarrow> bytes option \<times> bytes list" where
  "dequeue q = (case q of [] \<Rightarrow> (None, []) | m # q' \<Rightarrow> (Some m, q'))"

definition queue_peek :: "bytes list \<Rightarrow> bytes option" where
  "queue_peek q = (case q of [] \<Rightarrow> None | m # q' \<Rightarrow> Some m)"

definition queue_delete :: "bytes list \<Rightarrow> bytes \<Rightarrow> bytes list" where
  "queue_delete q m = remove1 m q"

subsection \<open>Messages of clients and of the kernel\<close>

definition ANOUBIS_MESSAGE_MAXLEN :: int where "ANOUBIS_MESSAGE_MAXLEN = 100000"

text \<open>End of file, out of memory, or success with or without a complete message.\<close>

datatype client_result = C_eof | C_nomem | C_ok "bytes option"

text \<open>The size check of \<^verbatim>\<open>anoubis_msg_new\<close>; the argument has type \<^verbatim>\<open>size_t\<close>.\<close>

definition anoubis_msg_new_ok :: "int \<Rightarrow> bool" where
  "anoubis_msg_new_ok len = (len mod 2 ^ 64 \<le> ANOUBIS_MESSAGE_MAXLEN - CSUM_LEN)"

definition get_client_body :: "read_result \<Rightarrow> msg_buf \<Rightarrow> client_result \<times> msg_buf" where
  "get_client_body res mb =
     (let len = nat (decode N_u32 (take 4 (rbuf mb)));
          (ok, mb1) = (if length (rbuf mb) < len then fill_buf res mb else (True, mb))
      in if \<not> ok then (C_eof, mb1)
         else if length (rbuf mb1) < len then (C_ok None, mb1)
         else if \<not> anoubis_msg_new_ok (int len - 4 - CSUM_LEN) then (C_nomem, mb1)
         else (C_ok (Some (take (len - 4) (drop 4 (rbuf mb1)))), mb1\<lparr>rbuf := drop len (rbuf mb1), rhead := rhead mb1 + len\<rparr>))"

definition get_client_msg :: "read_result \<Rightarrow> read_result \<Rightarrow> msg_buf \<Rightarrow> client_result \<times> msg_buf" where
  "get_client_msg res1 res2 mb =
     (if rmsg mb \<noteq> None then (C_eof, mb)
      else
        (let (ok, mb1) = (if length (rbuf mb) < 4 then fill_buf res1 mb else (True, mb))
         in if \<not> ok then (C_eof, mb1)
            else if length (rbuf mb1) < 4 then (C_ok None, mb1)
            else get_client_body res2 mb1))"

text \<open>A message with type, size and zero payload; \<open>None\<close> for a bad size.\<close>

definition le_bytes :: "nat \<Rightarrow> int \<Rightarrow> bytes" where
  "le_bytes n v = map (\<lambda>i. word_of_int (v div 256 ^ i)) [0..<n]"

definition msg_factory :: "int \<Rightarrow> int \<Rightarrow> bytes option" where
  "msg_factory mtype size0 =
     (let sz = size0 + int MSG_HDR
      in if sz < int MSG_HDR \<or> sz > MSG_SIZE_LIMIT then None
         else Some (le_bytes 4 sz @ le_bytes 4 mtype @ replicate (nat size0) 0))"

definition msg_shrink :: "int \<Rightarrow> bytes \<Rightarrow> bytes" where
  "msg_shrink nsize0 m =
     (let nsize = nsize0 + int MSG_HDR
      in if nsize < int MSG_HDR \<or> nsize > MSG_SIZE_LIMIT then m
         else if nsize < int (length m) then le_bytes 4 nsize @ drop 4 (take (nat nsize) m) else m)"

text \<open>
  \<^verbatim>\<open>get_event\<close>: \<open>conv\<close> is the conversion of events of older kernels, \<open>None\<close> as its result ends the daemon.
\<close>

definition get_event_check :: "kernel_abi \<Rightarrow> bytes \<Rightarrow> get_result" where
  "get_event_check k ev =
     (case eventdev_hdr_size k ev 0 (int (length ev)) of
        None \<Rightarrow> G_terminate
      | Some n \<Rightarrow>
          (if n < 0 then G_none
           else deliver k (le_bytes 4 (int (length ev + MSG_HDR)) @ le_bytes 4 4 @ ev)))"

definition get_event :: "kernel_abi \<Rightarrow> (bytes \<Rightarrow> bytes option) option \<Rightarrow> read_result \<Rightarrow> msg_buf \<Rightarrow> get_result \<times> msg_buf" where
  "get_event k conv res mb =
     (if rbuf mb \<noteq> [] \<or> rmsg mb \<noteq> None then (G_none, mb)
      else case res of
        R_eof \<Rightarrow> (G_none, mb\<lparr>iseof := True\<rparr>)
      | R_again \<Rightarrow> (G_none, mb)
      | R_error \<Rightarrow> (G_none, mb)
      | R_data bs \<Rightarrow>
          (if int (length bs) < eventdev_hdr_sz k \<or>
              decode (msg_size_type k) (take (fwidth (msg_size_type k)) (drop (nat (msg_size_off k)) bs)) \<noteq> int (length bs)
           then (G_none, mb)
           else case (case conv of None \<Rightarrow> Some bs | Some f \<Rightarrow> f bs) of
             None \<Rightarrow> (G_terminate, mb)
           | Some ev \<Rightarrow> (get_event_check k ev, mb)))"

subsection \<open>A channel between two processes\<close>

text \<open>
  The queue and buffer of the sender, the bytes in the pipe, the buffer of the receiver, and what was
  enqueued and received so far.
\<close>

record channel =
  ch_queue :: "bytes list"
  ch_send :: msg_buf
  ch_pipe :: bytes
  ch_recv :: msg_buf
  ch_enq :: "bytes list"
  ch_rcv :: "bytes list"

definition channel_init :: channel where
  "channel_init = \<lparr>ch_queue = [], ch_send = new_msg_buf, ch_pipe = [], ch_recv = new_msg_buf, ch_enq = [], ch_rcv = []\<rparr>"

definition wf_msg :: "bytes \<Rightarrow> bool" where
  "wf_msg m \<longleftrightarrow> msg_size_field m = int (length m) \<and> MSG_HDR \<le> length m \<and> int (length m) \<le> MSG_SIZE_LIMIT"

text \<open>Does \<^verbatim>\<open>get_msg\<close> read from the pipe?\<close>

definition wants_read :: "msg_buf \<Rightarrow> bool" where
  "wants_read mb = (case rmsg mb of Some (m, sz) \<Rightarrow> length m \<noteq> sz | None \<Rightarrow> length (rbuf mb) < MSG_HDR)"

definition received :: "get_result \<Rightarrow> bytes list" where
  "received g = (case g of G_msg m \<Rightarrow> [m] | _ \<Rightarrow> [])"

text \<open>Writes and reads transfer any number of bytes, also none; connections do not break.\<close>

inductive channel_run :: "kernel_abi \<Rightarrow> channel \<Rightarrow> bool" for k where
  chan_start: "channel_run k channel_init"
| chan_enqueue: "channel_run k c \<Longrightarrow> wf_msg m \<Longrightarrow> channel_run k (c\<lparr>ch_queue := ch_queue c @ [m], ch_enq := ch_enq c @ [m]\<rparr>)"
| chan_write: "channel_run k c \<Longrightarrow> \<forall>i. ws i \<noteq> W_fatal \<Longrightarrow>
    dispatch_write_queue k ws (ch_queue c) (ch_send c) = Some (q, bs, mb) \<Longrightarrow>
    channel_run k (c\<lparr>ch_queue := q, ch_send := mb, ch_pipe := ch_pipe c @ bs\<rparr>)"
| chan_read: "channel_run k c \<Longrightarrow> wants_read (ch_recv c) \<Longrightarrow> ch_pipe c = bs @ rest \<Longrightarrow> bs \<noteq> [] \<Longrightarrow>
    length bs \<le> fill_request (ch_recv c) \<Longrightarrow> get_msg k (R_data bs) (ch_recv c) = (g, mb) \<Longrightarrow> g \<noteq> G_terminate \<Longrightarrow>
    channel_run k (c\<lparr>ch_pipe := rest, ch_recv := mb, ch_rcv := ch_rcv c @ received g\<rparr>)"
| chan_get: "channel_run k c \<Longrightarrow> get_msg k R_again (ch_recv c) = (g, mb) \<Longrightarrow> g \<noteq> G_terminate \<Longrightarrow>
    channel_run k (c\<lparr>ch_recv := mb, ch_rcv := ch_rcv c @ received g\<rparr>)"

subsubsection \<open>The sender\<close>

definition verified :: "kernel_abi \<Rightarrow> bytes \<Rightarrow> bytes option" where
  "verified k m = (case amsg_verify k m of V_Return r m' \<Rightarrow> Some m' | _ \<Rightarrow> None)"

lemma verified_wf: "verified k m = Some m' \<Longrightarrow> wf_msg m \<Longrightarrow> wf_msg m'"
proof -
  assume v: "verified k m = Some m'" and m: "wf_msg m"
  then obtain r where "amsg_verify_common k True m = V_Return r m'"
    by (auto simp: verified_def amsg_verify_def split: verify_result.splits)
  then have "length m' = length m \<and> take 8 m' = take 8 m" by (rule verify_return)
  then have "length m' = length m \<and> take 4 m' = take 4 m" by (metis take_take min_def one_le_numeral numeral_le_iff semiring_norm(68,71,73))
  with m show "wf_msg m'" by (simp add: wf_msg_def msg_size_field_def)
qed

definition wrest :: "msg_buf \<Rightarrow> bytes" where
  "wrest mb = (case wmsg mb of None \<Rightarrow> [] | Some m \<Rightarrow> drop (woff mb) m)"

lemma flush_wrest: "flush_buf res mb = (bs, mb') \<Longrightarrow> res \<noteq> W_fatal \<Longrightarrow> wrest mb = bs @ wrest mb'"
proof -
  assume f: "flush_buf res mb = (bs, mb')" and r: "res \<noteq> W_fatal"
  have cut: "drop w m = take c (drop w m) @ drop (w + c) m" for w c and m :: bytes
    by (metis append_take_drop_id drop_drop add.commute)
  show "wrest mb = bs @ wrest mb'"
  proof (cases "wmsg mb")
    case (Some m)
    show ?thesis
    proof (cases "res")
      case (W_bytes n)
      show ?thesis using f Some W_bytes cut [of "woff mb" m "min n (length m - woff mb)"]
        by (auto simp: flush_buf_def wrest_def flush_done_def Let_def split: if_splits)
    qed (use f r Some in \<open>auto simp: flush_buf_def wrest_def flush_done_def split: if_splits\<close>)
  qed (use f in \<open>auto simp: flush_buf_def wrest_def\<close>)
qed

lemma send_new_wrest:
  assumes "send_new k res m mb = (r, bs, mb')" and "r = S_accepted" and "res \<noteq> W_fatal"
  shows "\<exists>m'. verified k m = Some m' \<and> m' = bs @ wrest mb'"
  using assms flush_wrest [of res "mb\<lparr>wmsg := Some _, woff := 0\<rparr>" bs mb']
  by (auto simp: send_new_def verified_def wrest_def split: if_splits verify_result.splits prod.splits)

lemma send_msg_wrest:
  assumes "send_msg k r1 r2 msg mb = (r, bs, mb')" and "r1 \<noteq> W_fatal" and "r2 \<noteq> W_fatal" and "r \<noteq> S_terminate"
  shows "case msg of
      None \<Rightarrow> wrest mb = bs @ wrest mb'
    | Some m \<Rightarrow> if r = S_accepted then \<exists>m'. verified k m = Some m' \<and> wrest mb @ m' = bs @ wrest mb'
        else wrest mb = bs @ wrest mb'"
proof -
  obtain b1 mb1 where f: "flush_buf r1 mb = (b1, mb1)" by fastforce
  note w = flush_wrest [OF f assms(2)]
  show ?thesis
  proof (cases "wmsg mb1 \<noteq> None")
    case True
    with assms(1) f w show ?thesis by (auto simp: send_msg_def split: option.split)
  next
    case idle: False
    then have w1: "wrest mb1 = []" by (simp add: wrest_def)
    show ?thesis
    proof (cases msg)
      case (Some m)
      obtain r' b2 mb2 where n: "send_new k r2 m mb1 = (r', b2, mb2)" by (cases "send_new k r2 m mb1") auto
      with assms(1) f idle Some have e: "r = r'" "bs = b1 @ b2" "mb' = mb2" by (auto simp: send_msg_def)
      show ?thesis
      proof (cases "r = S_accepted")
        case True
        with send_new_wrest [OF n] assms(3) e w w1 Some show ?thesis by auto
      next
        case False
        then have "r' = S_failed" using n assms(4) e
          by (auto simp: send_new_def split: if_splits verify_result.splits prod.splits)
        then have "b2 = [] \<and> mb2 = mb1" using n
          by (auto simp: send_new_def split: if_splits verify_result.splits prod.splits)
        with False e w w1 Some show ?thesis by simp
      qed
    qed (use assms(1) f idle w in \<open>auto simp: send_msg_def\<close>)
  qed
qed

lemma send_not_failed:
  "send_msg k r1 r2 msg mb = (r, bs, mb') \<Longrightarrow> (\<And>m. msg = Some m \<Longrightarrow> wf_msg m) \<Longrightarrow> r \<noteq> S_failed"
  by (cases msg) (auto simp: send_msg_def send_new_def wf_msg_def split: if_splits prod.splits verify_result.splits)

lemma dispatch_wrest:
  assumes "dispatch_write_queue k ws q mb = Some (q', bs, mb')" and "\<forall>i. ws i \<noteq> W_fatal" and "\<forall>m\<in>set q. wf_msg m"
  shows "\<exists>sent ms. q = sent @ q' \<and> map (verified k) sent = map Some ms \<and> wrest mb @ concat ms = bs @ wrest mb'"
  using assms
proof (induction k ws q mb arbitrary: q' bs mb' rule: dispatch_write_queue.induct)
  case (1 k ws q mb)
  show ?case
  proof (cases "q = [] \<and> \<not> msg_pending mb")
    case True
    then have "dispatch_write_queue k ws q mb = Some (q, [], mb)" by (subst dispatch_write_queue.simps) simp
    with 1(2) show ?thesis by auto
  next
    case busy: False
    define msg where "msg = (case q of [] \<Rightarrow> None | m # q' \<Rightarrow> Some m)"
    obtain r b1 mb1 where s: "send_msg k (ws 0) (ws 1) msg mb = (r, b1, mb1)" by (cases "send_msg k (ws 0) (ws 1) msg mb") auto
    have run: "dispatch_write_queue k ws q mb = (case r of
          S_busy \<Rightarrow> Some (q, b1, mb1) | S_failed \<Rightarrow> Some (tl q, b1, mb1) | S_terminate \<Rightarrow> None
        | S_accepted \<Rightarrow> (if q = [] then Some (q, b1, mb1)
            else case dispatch_write_queue k (\<lambda>i. ws (i + 2)) (tl q) mb1 of
              None \<Rightarrow> None | Some (q', bs', mb'') \<Rightarrow> Some (q', b1 @ bs', mb'')))"
      by (subst dispatch_write_queue.simps) (use busy s in \<open>simp add: msg_def split: send_result.split\<close>)
    have "r \<noteq> S_terminate" using run 1(2) by auto
    note w = send_msg_wrest [OF s _ _ this]
    have nofail: "r \<noteq> S_failed" by (rule send_not_failed [OF s]) (use 1(4) in \<open>auto simp: msg_def split: list.splits\<close>)
    show ?thesis
    proof (cases "r = S_accepted \<and> q \<noteq> []")
      case True
      then obtain m q1 where q: "q = m # q1" by (cases q) auto
      from True run 1(2) q obtain bs' where d: "dispatch_write_queue k (\<lambda>i. ws (i + 2)) (tl q) mb1 = Some (q', bs', mb')"
          and bs: "bs = b1 @ bs'"
        by (auto split: option.splits prod.splits)
      have "\<exists>sent ms. tl q = sent @ q' \<and> map (verified k) sent = map Some ms \<and> wrest mb1 @ concat ms = bs' @ wrest mb'"
        using "1.IH" [OF busy msg_def s [symmetric] _ refl _ d] True 1(3,4) q by simp
      then obtain sent ms where i: "q1 = sent @ q'" "map (verified k) sent = map Some ms" "wrest mb1 @ concat ms = bs' @ wrest mb'"
        using q by auto
      obtain m' where m': "verified k m = Some m'" "wrest mb @ m' = b1 @ wrest mb1"
        using w 1(3) True q by (auto simp: msg_def)
      have "q = (m # sent) @ q'" "map (verified k) (m # sent) = map Some (m' # ms)" using i q m' by auto
      moreover have "wrest mb @ concat (m' # ms) = bs @ wrest mb'" using m'(2) i(3) bs by (metis append.assoc concat.simps(2))
      ultimately show ?thesis by blast
    next
      case False
      with run 1(2) nofail have "q' = q" "bs = b1" "mb' = mb1" by (cases r; auto split: if_splits)+
      moreover have "wrest mb = b1 @ wrest mb1" using w 1(3) False by (cases q) (auto simp: msg_def)
      ultimately show ?thesis by (intro exI [of _ "[]"]) auto
    qed
  qed
qed

subsubsection \<open>The receiver\<close>

definition rpart :: "msg_buf \<Rightarrow> bytes" where
  "rpart mb = (case rmsg mb of None \<Rightarrow> rbuf mb | Some (m, sz) \<Rightarrow> m)"

text \<open>
  The buffer in front of a stream that starts with the message \<open>m\<close>: an incomplete message is a part of \<open>m\<close>.
\<close>

definition recv_ok :: "msg_buf \<Rightarrow> bytes list \<Rightarrow> bool" where
  "recv_ok mb ms = (case rmsg mb of None \<Rightarrow> True | Some (m, sz) \<Rightarrow> rbuf mb = [] \<and> ms \<noteq> [] \<and> sz = length (hd ms) \<and> length m \<le> sz)"

lemma size_field_append: "4 \<le> length m \<Longrightarrow> msg_size_field (m @ x) = msg_size_field m"
  by (simp add: msg_size_field_def)

text \<open>Taking a message out of the buffer, given the stream of messages still to be delivered.\<close>

lemma get_buffered_step:
  assumes "get_buffered k mb = (g, mb')" and "rmsg mb = None" and "MSG_HDR \<le> length (rbuf mb)"
    and "rbuf mb @ rest = concat ms" and "\<forall>m\<in>set ms. wf_msg m"
  shows "\<exists>m ms'. ms = m # ms' \<and>
    (g = G_none \<and> rpart mb' @ rest = concat ms \<and> recv_ok mb' ms \<or>
     g = deliver k m \<and> rmsg mb' = None \<and> rbuf mb' @ rest = concat ms')"
proof -
  obtain m ms' where ms: "ms = m # ms'" using assms(3,4) by (cases ms) (auto simp: MSG_HDR_def)
  have m: "msg_size_field m = int (length m)" "8 \<le> length m" "int (length m) \<le> MSG_SIZE_LIMIT"
    using assms(5) ms by (auto simp: wf_msg_def MSG_HDR_def)
  have pre: "rbuf mb @ rest = m @ concat ms'" using assms(4) ms by simp
  have "take 4 (rbuf mb) = take 4 (rbuf mb @ rest)" using assms(3) by (simp add: MSG_HDR_def)
  also have "\<dots> = take 4 m" using pre m(2) by simp
  finally have size: "msg_size_field (rbuf mb) = int (length m)" using m(1) by (simp add: msg_size_field_def)
  show ?thesis
  proof (cases "length (rbuf mb) < length m")
    case True
    then have "take (length (rbuf mb)) m = rbuf mb" using pre by (metis append_eq_append_conv_if append_take_drop_id less_imp_le_nat same_append_eq)
    with True assms(1,2,4) size m ms show ?thesis
      by (auto simp: get_buffered_def Let_def rpart_def recv_ok_def MSG_HDR_def min_def)
  next
    case False
    then obtain x where x: "rbuf mb = m @ x" "x @ rest = concat ms'" using pre by (auto simp: append_eq_append_conv2)
    have "min (length (rbuf mb)) (nat (msg_size_field (rbuf mb))) = length m" using False size by simp
    then have "get_buffered k mb = (deliver k m, mb\<lparr>rbuf := x, rhead := rhead mb + length m\<rparr>)"
      unfolding get_buffered_def Let_def using size m x(1) by (simp add: MSG_HDR_def)
    with assms(1,2) x(2) ms show ?thesis by auto
  qed
qed

text \<open>One call of \<^verbatim>\<open>get_msg\<close>: \<open>bs\<close> are the bytes that the call reads, \<open>rest\<close> those that follow.\<close>

definition reads :: "read_result \<Rightarrow> msg_buf \<Rightarrow> bytes" where
  "reads res mb = (case res of R_data bs \<Rightarrow> bs | _ \<Rightarrow> [])"

lemma get_msg_step:
  assumes "get_msg k res mb = (g, mb')" and "rpart mb @ reads res mb @ rest = concat ms" and "recv_ok mb ms"
    and "\<forall>m\<in>set ms. wf_msg m" and "res = R_again \<or> res = R_data bs \<and> wants_read mb \<and> bs \<noteq> [] \<and> length bs \<le> fill_request mb"
  shows "g = G_none \<and> rpart mb' @ rest = concat ms \<and> recv_ok mb' ms \<or>
    (\<exists>m ms'. ms = m # ms' \<and> g = deliver k m \<and> rpart mb' @ rest = concat ms' \<and> recv_ok mb' ms')"
proof (cases "rmsg mb")
  case None
  define mb1 where "mb1 = (if length (rbuf mb) < MSG_HDR then snd (fill_buf res mb) else mb)"
  have f: "length (rbuf mb) < MSG_HDR \<Longrightarrow> fill_buf res mb = (True, mb\<lparr>rhead := 0, rbuf := rbuf mb @ reads res mb\<rparr>)"
    using None assms(5) by (auto simp: fill_buf_def reads_def space_def MSG_HDR_def MSG_BUF_SIZE_def Let_def)
  have rd: "\<not> length (rbuf mb) < MSG_HDR \<Longrightarrow> reads res mb = []"
    using None assms(5) by (auto simp: reads_def wants_read_def)
  have mb1: "rmsg mb1 = None" "rbuf mb1 = rbuf mb @ reads res mb" using f rd None by (auto simp: mb1_def)
  have g: "get_msg k res mb = (if length (rbuf mb1) < MSG_HDR then (G_none, mb1) else get_buffered k mb1)"
    using None f by (auto simp: get_msg_def mb1_def)
  have str: "rbuf mb1 @ rest = concat ms" using assms(2) None mb1 by (simp add: rpart_def)
  show ?thesis
  proof (cases "length (rbuf mb1) < MSG_HDR")
    case True
    with g assms(1) mb1 str show ?thesis by (auto simp: rpart_def recv_ok_def)
  next
    case False
    have "get_buffered k mb1 = (g, mb')" using g assms(1) False by simp
    from get_buffered_step [OF this mb1(1) _ str assms(4)] False show ?thesis by (auto simp: rpart_def recv_ok_def)
  qed
next
  case (Some p)
  obtain m sz where p: "p = (m, sz)" by fastforce
  obtain m0 ms' where ms: "ms = m0 # ms'" and sz: "sz = length m0" and rb: "rbuf mb = []" and len: "length m \<le> sz"
    using assms(3) Some p by (cases ms) (auto simp: recv_ok_def)
  let ?m = "m @ reads res mb"
  have req: "length ?m \<le> sz"
    using assms(5) Some p len by (auto simp: reads_def fill_request_def)
  have g: "get_msg k res mb = (if length ?m = sz then (deliver k ?m, mb\<lparr>rmsg := None\<rparr>) else (G_none, mb\<lparr>rmsg := Some (?m, sz)\<rparr>))"
    using assms(5) Some p by (auto simp: get_msg_def get_partial_def fill_buf_def reads_def wants_read_def)
  have str: "?m @ rest = m0 @ concat ms'" using assms(2) Some p ms by (simp add: rpart_def)
  show ?thesis
  proof (cases "length ?m = sz")
    case True
    then have "length ?m = length m0" using sz by simp
    then have "?m = m0 \<and> rest = concat ms'" using str append_eq_append_conv [of ?m m0 rest "concat ms'"] by blast
    with True g assms(1) ms rb show ?thesis by (auto simp: rpart_def recv_ok_def)
  next
    case False
    then have "g = G_none" "mb' = mb\<lparr>rmsg := Some (?m, sz)\<rparr>" using g assms(1) by auto
    with str ms sz rb req show ?thesis by (simp add: rpart_def recv_ok_def)
  qed
qed

subsubsection \<open>Order and completeness\<close>

text \<open>\<open>raw\<close> are the messages taken from the stream, \<open>ms\<close> those still in it.\<close>

definition channel_inv :: "kernel_abi \<Rightarrow> channel \<Rightarrow> bytes list \<Rightarrow> bytes list \<Rightarrow> bytes list \<Rightarrow> bool" where
  "channel_inv k c sent raw ms \<longleftrightarrow>
     ch_enq c = sent @ ch_queue c \<and> (\<forall>m\<in>set (ch_enq c). wf_msg m) \<and> map (verified k) sent = map Some (raw @ ms) \<and>
     map (verified k) raw = map Some (ch_rcv c) \<and>
     rpart (ch_recv c) @ ch_pipe c @ wrest (ch_send c) = concat ms \<and> recv_ok (ch_recv c) ms"

lemma verified_list_wf:
  assumes "map (verified k) sent = map Some ms" and "\<forall>m\<in>set sent. wf_msg m"
  shows "\<forall>m\<in>set ms. wf_msg m"
  using assms
proof (induction sent arbitrary: ms)
  case (Cons m sent)
  then obtain m' ms' where "ms = m' # ms'" "verified k m = Some m'" "map (verified k) sent = map Some ms'" by auto
  with Cons verified_wf show ?case by auto
qed simp

lemma map_bind: "map f xs = map Some ys \<Longrightarrow> map (\<lambda>x. Option.bind (f x) g) xs = map g ys"
  by (induction xs arbitrary: ys) auto

lemma deliver_verified: "deliver k m = g \<Longrightarrow> g \<noteq> G_terminate \<Longrightarrow> \<exists>m'. g = G_msg m' \<and> verified k m = Some m'"
  by (auto simp: deliver_def verified_def split: verify_result.splits)

lemma channel_inv_get:
  assumes inv: "channel_inv k c sent raw ms" and g: "get_msg k res (ch_recv c) = (g, mb)" "g \<noteq> G_terminate"
    and pipe: "ch_pipe c = reads res (ch_recv c) @ rest"
    and res: "res = R_again \<or> res = R_data bs \<and> wants_read (ch_recv c) \<and> bs \<noteq> [] \<and> length bs \<le> fill_request (ch_recv c)"
  shows "\<exists>raw ms. channel_inv k (c\<lparr>ch_pipe := rest, ch_recv := mb, ch_rcv := ch_rcv c @ received g\<rparr>) sent raw ms"
proof -
  have ms: "\<forall>m\<in>set ms. wf_msg m" using inv verified_list_wf [of k sent "raw @ ms"] by (auto simp: channel_inv_def)
  have "g = G_none \<and> rpart mb @ rest @ wrest (ch_send c) = concat ms \<and> recv_ok mb ms \<or>
      (\<exists>m ms'. ms = m # ms' \<and> g = deliver k m \<and> rpart mb @ rest @ wrest (ch_send c) = concat ms' \<and> recv_ok mb ms')"
    by (rule get_msg_step [OF g(1) _ _ ms res]) (use inv pipe in \<open>auto simp: channel_inv_def\<close>)
  then show ?thesis
  proof (elim disjE exE conjE)
    assume "g = G_none" "rpart mb @ rest @ wrest (ch_send c) = concat ms" "recv_ok mb ms"
    with inv show ?thesis by (intro exI [of _ raw] exI [of _ ms]) (simp add: channel_inv_def received_def)
  next
    fix m ms'
    assume m: "ms = m # ms'" "g = deliver k m" "rpart mb @ rest @ wrest (ch_send c) = concat ms'" "recv_ok mb ms'"
    from deliver_verified [OF m(2) [symmetric] g(2)] obtain m' where m': "g = G_msg m'" "verified k m = Some m'" by blast
    then have "received g = [m']" by (simp add: received_def)
    with m m' inv have "channel_inv k (c\<lparr>ch_pipe := rest, ch_recv := mb, ch_rcv := ch_rcv c @ received g\<rparr>) sent (raw @ [m]) ms'"
      unfolding channel_inv_def by simp
    then show ?thesis by blast
  qed
qed

lemma channel_run_inv: "channel_run k c \<Longrightarrow> \<exists>sent raw ms. channel_inv k c sent raw ms"
proof (induction rule: channel_run.induct)
  case chan_start
  show ?case
    by (intro exI [of _ "[]"]) (simp add: channel_inv_def channel_init_def new_msg_buf_def rpart_def wrest_def recv_ok_def)
next
  case (chan_enqueue c m)
  then obtain sent raw ms where "channel_inv k c sent raw ms" by blast
  with chan_enqueue(2) have "channel_inv k (c\<lparr>ch_queue := ch_queue c @ [m], ch_enq := ch_enq c @ [m]\<rparr>) sent raw ms"
    by (auto simp: channel_inv_def)
  then show ?case by blast
next
  case (chan_write c ws q bs mb)
  then obtain sent raw ms where inv: "channel_inv k c sent raw ms" by blast
  then have "\<forall>m\<in>set (ch_queue c). wf_msg m" by (auto simp: channel_inv_def)
  from dispatch_wrest [OF chan_write(3,2) this] obtain sent' ms' where
      d: "ch_queue c = sent' @ q" "map (verified k) sent' = map Some ms'" "wrest (ch_send c) @ concat ms' = bs @ wrest mb" by blast
  have "recv_ok (ch_recv c) (ms @ ms')" using inv by (cases ms) (auto simp: channel_inv_def recv_ok_def split: option.splits)
  moreover have "rpart (ch_recv c) @ (ch_pipe c @ bs) @ wrest mb = concat (ms @ ms')"
    using inv d(3) unfolding channel_inv_def by (metis append.assoc concat_append)
  ultimately have "channel_inv k (c\<lparr>ch_queue := q, ch_send := mb, ch_pipe := ch_pipe c @ bs\<rparr>) (sent @ sent') raw (ms @ ms')"
    using inv d(1,2) unfolding channel_inv_def by simp
  then show ?case by blast
next
  case (chan_read c bs rest g mb)
  then obtain sent raw ms where inv: "channel_inv k c sent raw ms" by blast
  show ?case using channel_inv_get [OF inv chan_read(6,7), of rest bs] chan_read(2-5) by (auto simp: reads_def)
next
  case (chan_get c g mb)
  then obtain sent raw ms where inv: "channel_inv k c sent raw ms" by blast
  show ?case using channel_inv_get [OF inv chan_get(2,3), of "ch_pipe c"] by (auto simp: reads_def)
qed

text \<open>
  C4. Messages arrive complete, once and in order, however the pipe cuts the stream: the received messages are the first
  enqueued ones, each as the checks of sender and receiver leave it, and when queue, pipe and buffers are
  empty every enqueued message was received.
\<close>

theorem channel_fifo:
  assumes "channel_run k c"
  shows "map Some (ch_rcv c) = map (\<lambda>m. Option.bind (verified k m) (verified k)) (take (length (ch_rcv c)) (ch_enq c)) \<and>
    (ch_queue c = [] \<and> \<not> msg_pending (ch_send c) \<and> ch_pipe c = [] \<and> rbuf (ch_recv c) = [] \<and> rmsg (ch_recv c) = None \<longrightarrow>
       length (ch_rcv c) = length (ch_enq c))"
proof -
  obtain sent raw ms where inv: "channel_inv k c sent raw ms" using channel_run_inv [OF assms] by blast
  then have e: "ch_enq c = sent @ ch_queue c" "map (verified k) sent = map Some (raw @ ms)"
      "map (verified k) raw = map Some (ch_rcv c)"
    by (auto simp: channel_inv_def)
  have len: "length sent = length raw + length ms" "length raw = length (ch_rcv c)"
    using e(2,3) by (metis length_map length_append)+
  have "map (verified k) (take (length raw) sent) = map Some raw" using e(2) by (metis take_map append_eq_conv_conj map_append length_map)
  then have "map (\<lambda>m. Option.bind (verified k m) (verified k)) (take (length raw) sent) = map (verified k) raw"
    by (rule map_bind)
  moreover have "take (length (ch_rcv c)) (ch_enq c) = take (length raw) sent" using e(1) len by simp
  moreover have "ms = []" if "\<not> msg_pending (ch_send c)" "ch_pipe c = []" "rbuf (ch_recv c) = []" "rmsg (ch_recv c) = None"
  proof -
    have "concat ms = []" using inv that by (auto simp: channel_inv_def rpart_def wrest_def msg_pending_def)
    moreover have "\<forall>m\<in>set ms. wf_msg m" using inv verified_list_wf [of k sent "raw @ ms"] by (auto simp: channel_inv_def)
    ultimately show ?thesis by (cases ms) (auto simp: wf_msg_def MSG_HDR_def)
  qed
  ultimately show ?thesis using e(1,3) len by auto
qed

definition demo_wire :: bytes where
  "demo_wire = fill_rest 16 demo_abort"

definition demo_partial :: msg_buf where
  "demo_partial = new_msg_buf\<lparr>rhead := 12, rmsg := Some (take 12 demo_wire, 20)\<rparr>"

definition demo_received :: channel where
  "demo_received = channel_init\<lparr>ch_enq := [demo_abort], ch_recv := new_msg_buf\<lparr>rhead := 12\<rparr>, ch_rcv := [demo_wire]\<rparr>"

lemma demo_transport:
  "wf_msg demo_abort" "verified demo_abi demo_abort = Some demo_wire"
  "dispatch_write_queue demo_abi (\<lambda>i. W_bytes 100) [demo_abort] new_msg_buf = Some ([], demo_wire, new_msg_buf)"
  "get_msg demo_abi (R_data (take 12 demo_wire)) new_msg_buf = (G_none, demo_partial)"
  "get_msg demo_abi (R_data (drop 12 demo_wire)) demo_partial = (G_msg demo_wire, new_msg_buf\<lparr>rhead := 12\<rparr>)"
  "wants_read new_msg_buf" "wants_read demo_partial" "12 \<le> fill_request new_msg_buf" "fill_request demo_partial = 8"
  "length demo_wire = 20"
  by code_simp+

lemma demo_received_run: "channel_run demo_abi demo_received"
proof -
  let ?c1 = "channel_init\<lparr>ch_queue := [demo_abort], ch_enq := [demo_abort]\<rparr>"
  let ?c2 = "channel_init\<lparr>ch_enq := [demo_abort], ch_pipe := demo_wire\<rparr>"
  let ?c3 = "channel_init\<lparr>ch_enq := [demo_abort], ch_pipe := drop 12 demo_wire, ch_recv := demo_partial\<rparr>"
  have "channel_run demo_abi ?c1"
    using chan_enqueue [OF chan_start demo_transport(1)] by (simp add: channel_init_def)
  from chan_write [OF this, of "\<lambda>i. W_bytes 100"] demo_transport(3) have "channel_run demo_abi ?c2"
    by (simp add: channel_init_def)
  moreover have "demo_wire \<noteq> []" using demo_transport(10) by auto
  ultimately
  have "channel_run demo_abi ?c3"
    using chan_read [of demo_abi ?c2 "take 12 demo_wire" "drop 12 demo_wire"] demo_transport(4,6,8,10)
    by (simp add: channel_init_def received_def)
  from chan_read [OF this, of "drop 12 demo_wire" "[]"] demo_transport(5,7,9,10)
  show ?thesis by (simp add: channel_init_def received_def demo_received_def)
qed

theorem channel_fifo_witness:
  "map Some (ch_rcv demo_received) = [Option.bind (verified demo_abi demo_abort) (verified demo_abi)] \<and>
   length (ch_rcv demo_received) = 1"
  using channel_fifo [OF demo_received_run] by (simp add: demo_received_def channel_init_def)

subsection \<open>Clients\<close>

text \<open>A stream from a client: messages with their length in front.\<close>

definition client_frame :: "bytes \<Rightarrow> bytes" where
  "client_frame m = rev (le_bytes 4 (int (length m + 4))) @ m"

lemma be_value_snoc: "be_value (xs @ [x]) = be_value xs * 256 + uint x"
  by (induction xs) (simp_all add: algebra_simps)

lemma le_bytes_value: "0 \<le> v \<Longrightarrow> v < 256 ^ n \<Longrightarrow> be_value (rev (le_bytes n v)) = v"
proof (induction n arbitrary: v)
  case (Suc n)
  have s: "le_bytes (Suc n) v = word_of_int v # le_bytes n (v div 256)"
    by (simp add: le_bytes_def upt_rec [of 0 "Suc n"] map_Suc_upt [symmetric] o_def zdiv_zmult2_eq mult.commute del: upt_Suc)
  have "v div 256 < 256 ^ n" using Suc.prems by (simp add: div_less_iff_less_mult mult.commute)
  then have "be_value (rev (le_bytes n (v div 256))) = v div 256" using Suc.prems by (intro Suc.IH) (auto simp: pos_imp_zdiv_nonneg_iff)
  then show ?case by (simp add: s be_value_snoc uint_word_of_int)
qed (simp add: le_bytes_def)

lemma length_le_bytes [simp]: "length (le_bytes n v) = n"
  by (simp add: le_bytes_def)

lemma client_message_exact:
  assumes "rmsg mb = None" and "rbuf mb = client_frame m @ rest" and "4 \<le> length m" and "int (length m) \<le> ANOUBIS_MESSAGE_MAXLEN"
  shows "get_client_msg r1 r2 mb = (C_ok (Some m), mb\<lparr>rbuf := rest, rhead := rhead mb + length m + 4\<rparr>)"
proof -
  have "decode N_u32 (take 4 (rbuf mb)) = int (length m + 4)"
    using le_bytes_value [of "int (length m + 4)" 4] assms(2,4) by (simp add: client_frame_def ANOUBIS_MESSAGE_MAXLEN_def)
  moreover have "anoubis_msg_new_ok (int (length m + 4) - 4 - CSUM_LEN)"
    using assms(3,4) by (simp add: anoubis_msg_new_ok_def CSUM_LEN_def ANOUBIS_MESSAGE_MAXLEN_def)
  moreover have nat: "nat (int (length m) + 4) = length m + 4" by simp
  ultimately show ?thesis using assms(1,2)
    by (simp add: get_client_msg_def get_client_body_def client_frame_def Let_def add.assoc nat)
qed

text \<open>
  A client that announces a message longer than the read buffer stalls its connection: once the buffer is full no call
  reads any more data, whatever the client sends, and no call reports an error. The connection is neither served nor closed.
\<close>

theorem oversized_client_message_stalls:
  assumes "rmsg mb = None" and "length (rbuf mb) = 2 * MSG_BUF_SIZE"
    and "decode N_u32 (take 4 (rbuf mb)) > 2 * int MSG_BUF_SIZE"
  shows "get_client_msg r1 r2 mb = (C_ok None, mb\<lparr>rhead := 0\<rparr>)"
proof -
  have "fill_buf r2 mb = (True, mb\<lparr>rhead := 0\<rparr>)" using assms(1,2) by (simp add: fill_buf_def space_def Let_def)
  moreover have "length (rbuf mb) < nat (decode N_u32 (take 4 (rbuf mb)))" using assms(2,3) by (simp add: MSG_BUF_SIZE_def)
  ultimately show ?thesis using assms(1,2) by (simp add: get_client_msg_def get_client_body_def Let_def MSG_BUF_SIZE_def)
qed

theorem oversized_client_message_stalls_witness:
  "get_client_msg (R_data [1]) (R_data [1]) (new_msg_buf\<lparr>rbuf := [0, 1, 0, 0] @ replicate 16380 0\<rparr>) =
     (C_ok None, new_msg_buf\<lparr>rbuf := [0, 1, 0, 0] @ replicate 16380 0, rhead := 0\<rparr>)"
  using oversized_client_message_stalls [of "new_msg_buf\<lparr>rbuf := [0, 1, 0, 0] @ replicate 16380 0\<rparr>" "R_data [1]" "R_data [1]"]
  by (simp add: new_msg_buf_def MSG_BUF_SIZE_def)

subsection \<open>The table of buffers\<close>

lemma last_slot_Some: "last_slot P fds n = Some i \<Longrightarrow> i < n \<and> P (fds ! i)"
  by (induction n) (auto split: if_splits)

lemma last_slot_None: "last_slot P fds n = None \<longleftrightarrow> (\<forall>i<n. \<not> P (fds ! i))"
  by (induction n) (auto simp: less_Suc_eq)

text \<open>No two slots in use have the same descriptor; unused slots have none that is in use.\<close>

definition fds_ok :: "msg_slot list \<Rightarrow> bool" where
  "fds_ok fds \<longleftrightarrow> length fds = MSG_BUFS \<and>
     (\<forall>i<MSG_BUFS. \<forall>j<MSG_BUFS. sl_buf (fds ! i) \<noteq> None \<and> sl_buf (fds ! j) \<noteq> None \<and> sl_fd (fds ! i) = sl_fd (fds ! j) \<longrightarrow> i = j)"

lemma get_mbp_iff:
  assumes "fds_ok fds"
  shows "get_mbp fd fds = Some i \<longleftrightarrow> 0 \<le> fd \<and> i < MSG_BUFS \<and> sl_buf (fds ! i) \<noteq> None \<and> sl_fd (fds ! i) = fd"
proof
  assume "get_mbp fd fds = Some i"
  then show "0 \<le> fd \<and> i < MSG_BUFS \<and> sl_buf (fds ! i) \<noteq> None \<and> sl_fd (fds ! i) = fd"
    by (auto simp: get_mbp_def split: if_splits dest!: last_slot_Some)
next
  assume r: "0 \<le> fd \<and> i < MSG_BUFS \<and> sl_buf (fds ! i) \<noteq> None \<and> sl_fd (fds ! i) = fd"
  then have "last_slot (\<lambda>sl. sl_buf sl \<noteq> None \<and> sl_fd sl = fd) fds MSG_BUFS \<noteq> None" unfolding last_slot_None by blast
  then have "get_mbp fd fds \<noteq> None" using r by (simp add: get_mbp_def)
  then obtain j where j: "get_mbp fd fds = Some j" by blast
  then have "j < MSG_BUFS \<and> sl_buf (fds ! j) \<noteq> None \<and> sl_fd (fds ! j) = fd"
    by (auto simp: get_mbp_def split: if_splits dest!: last_slot_Some)
  then have "j = i" using r assms unfolding fds_ok_def by blast
  with j show "get_mbp fd fds = Some i" by simp
qed

lemma fds_ok_update:
  assumes "fds_ok fds" and "sl_buf sl \<noteq> None \<Longrightarrow> \<forall>j<MSG_BUFS. sl_fd (fds ! j) \<noteq> sl_fd sl"
  shows "fds_ok (fds[i := sl])"
proof (cases "i < MSG_BUFS")
  case True
  have "sl_buf (fds[i := sl] ! j) = (if j = i then sl_buf sl else sl_buf (fds ! j))"
      "sl_fd (fds[i := sl] ! j) = (if j = i then sl_fd sl else sl_fd (fds ! j))" for j
    using True assms(1) by (auto simp: fds_ok_def)
  then show ?thesis using assms unfolding fds_ok_def by (auto split: if_splits)
qed (use assms in \<open>simp add: fds_ok_def\<close>)

lemma msg_init_ok:
  assumes "fds_ok fds" and "msg_init fd fds = Some fds'"
  shows "fds_ok fds'"
proof (cases "\<exists>i<MSG_BUFS. sl_fd (fds ! i) = fd")
  case False
  then have "fds_ok (fds[i := \<lparr>sl_fd = fd, sl_buf = Some new_msg_buf\<rparr>])" for i
    by (intro fds_ok_update assms(1)) auto
  with False assms show ?thesis by (auto simp: msg_init_def split: if_splits option.splits)
qed (use assms in \<open>auto simp: msg_init_def split: if_splits\<close>)

lemma msg_release_ok: "fds_ok fds \<Longrightarrow> fds_ok (msg_release fd fds)"
  by (auto simp: msg_release_def intro: fds_ok_update split: option.splits)

text \<open>Descriptor 0 never gets a buffer: every slot of the zero-initialised table looks as if it belonged to it.\<close>

lemma msg_init_zero: "msg_init 0 fds_init = Some fds_init \<and> get_mbp 0 fds_init = None"
proof -
  have "get_mbp 0 fds_init = None" by (simp add: get_mbp_def fds_init_def last_slot_None MSG_BUFS_def)
  moreover have "\<exists>i<MSG_BUFS. sl_fd (fds_init ! i) = 0" by (rule exI [of _ 0]) (simp add: fds_init_def MSG_BUFS_def)
  ultimately show ?thesis by (simp add: msg_init_def)
qed

end
