(* ===== verification/SfsTree.thy ===== *)
theory SfsTree
  imports SfsPath Transport "HOL-Library.AList"
begin

text \<open>
  The SFS tree on disk, \<^verbatim>\<open>src/src/anoubisd/sfs.c\<close>: the files that hold checksums and signatures, how they are
  written, read and deleted.

  The file system is a list of files with their contents and a list of directories. The kernel can refuse any
  operation on any path (\<open>sys_error\<close>), and \<^verbatim>\<open>read\<close> and \<^verbatim>\<open>write\<close> transfer parts, are interrupted or fail according
  to a schedule; without a schedule they transfer all bytes. The policy engine sees the tree from its chroot
  directory, which is put in front of its file names.

  Shown here: what was written is read back however the transfers are cut; a failed write leaves the old data;
  no other checksum is touched.
\<close>

definition SFSDATA_TYPE_EOT :: nat where "SFSDATA_TYPE_EOT = 0"
definition SFSDATA_TYPE_CS :: nat where "SFSDATA_TYPE_CS = 1"
definition SFSDATA_TYPE_SIG :: nat where "SFSDATA_TYPE_SIG = 2"
definition SFSDATA_TYPE_UPGRADE_CS :: nat where "SFSDATA_TYPE_UPGRADE_CS = 3"
definition NUM_SFSDATA_TYPES :: nat where "NUM_SFSDATA_TYPES = 4"
definition SFSDATA_FORMAT_VERSION :: nat where "SFSDATA_FORMAT_VERSION = 1"
definition SFSDATA_MAX_FIELD_LENGTH :: nat where "SFSDATA_MAX_FIELD_LENGTH = 4096"

lemmas sfsdata_consts = SFSDATA_TYPE_EOT_def SFSDATA_TYPE_CS_def SFSDATA_TYPE_SIG_def SFSDATA_TYPE_UPGRADE_CS_def
  NUM_SFSDATA_TYPES_def SFSDATA_FORMAT_VERSION_def SFSDATA_MAX_FIELD_LENGTH_def

record sfs_data =
  csdata :: bytes
  sigdata :: bytes
  upgradecsdata :: bytes

definition sfs_initsfsdata :: sfs_data where
  "sfs_initsfsdata = \<lparr>csdata = [], sigdata = [], upgradecsdata = []\<rparr>"

subsection \<open>File system\<close>

datatype fsop =
    OP_MKDIR | OP_CHOWN | OP_OPEN_WRITE | OP_FCHOWN | OP_RENAME | OP_UNLINK | OP_OPEN_EXCL | OP_OPEN_READ
  | OP_RMDIR | OP_OPENDIR | OP_STAT

datatype io_result = IO_count nat | IO_intr | IO_fail errno

record sfs_tree =
  files :: "(string \<times> bytes) list"
  dirs :: "string list"
  sfs_free_writes :: nat
  sched :: "io_result list"

record sfs_fs =
  policydir :: string
  sys_error :: "fsop \<Rightarrow> string \<Rightarrow> errno option"
  statvfs :: "errno + (nat \<times> nat \<times> nat \<times> nat)"

definition SFS_CHECKSUMROOT :: "sfs_fs \<Rightarrow> string" where "SFS_CHECKSUMROOT E = policydir E @ ''/sfs''"
definition SFS_CHECKSUMCHROOT :: string where "SFS_CHECKSUMCHROOT = ''/sfs''"

definition parent_dir :: "string \<Rightarrow> string" where
  "parent_dir p = take (last_slash p (length p)) p"

definition is_file :: "string \<Rightarrow> sfs_tree \<Rightarrow> bool" where
  "is_file p t \<longleftrightarrow> map_of (files t) p \<noteq> None"

definition is_dir :: "string \<Rightarrow> sfs_tree \<Rightarrow> bool" where
  "is_dir p t \<longleftrightarrow> p = [] \<or> p \<in> set (dirs t)"

definition set_file :: "string \<Rightarrow> bytes \<Rightarrow> sfs_tree \<Rightarrow> sfs_tree" where
  "set_file p c t = t\<lparr>files := AList.update p c (files t)\<rparr>"

definition sys_unlink :: "sfs_fs \<Rightarrow> string \<Rightarrow> sfs_tree \<Rightarrow> errno option \<times> sfs_tree" where
  "sys_unlink E p t =
     (case sys_error E OP_UNLINK p of
        Some e \<Rightarrow> (Some e, t)
      | None \<Rightarrow> if is_file p t then (None, t\<lparr>files := AList.delete p (files t)\<rparr>) else (Some ENOENT, t))"

definition sys_mkdir :: "sfs_fs \<Rightarrow> string \<Rightarrow> sfs_tree \<Rightarrow> errno option \<times> sfs_tree" where
  "sys_mkdir E p t =
     (case sys_error E OP_MKDIR p of
        Some e \<Rightarrow> (Some e, t)
      | None \<Rightarrow>
          if is_file p t \<or> is_dir p t then (Some EEXIST, t)
          else if is_file (parent_dir p) t then (Some ENOTDIR, t)
          else if \<not> is_dir (parent_dir p) t then (Some ENOENT, t)
          else (None, t\<lparr>dirs := p # dirs t\<rparr>))"

text \<open>The creation of a file for writing, with the flags \<^verbatim>\<open>O_CREAT|O_TRUNC\<close> or \<^verbatim>\<open>O_CREAT|O_EXCL\<close>.\<close>

definition sys_create :: "sfs_fs \<Rightarrow> fsop \<Rightarrow> string \<Rightarrow> sfs_tree \<Rightarrow> errno option \<times> sfs_tree" where
  "sys_create E op p t =
     (case sys_error E op p of
        Some e \<Rightarrow> (Some e, t)
      | None \<Rightarrow>
          if op = OP_OPEN_EXCL \<and> (is_file p t \<or> is_dir p t) then (Some EEXIST, t)
          else if is_dir p t then (Some EINVAL, t)
          else if \<not> is_dir (parent_dir p) t then (Some ENOENT, t)
          else (None, set_file p [] t))"

text \<open>The names in a directory, without the entries for itself and its parent, which every caller skips.\<close>

definition child :: "string \<Rightarrow> string \<Rightarrow> string option" where
  "child d p =
     (let n = drop (length d + 1) p
      in if take (length d + 1) p = d @ ''/'' \<and> n \<noteq> [] \<and> CHR ''/'' \<notin> set n then Some n else None)"

definition readdir :: "string \<Rightarrow> sfs_tree \<Rightarrow> string list" where
  "readdir d t = List.map_filter (child d) (map fst (files t) @ dirs t)"

fun mkpath_loop :: "sfs_fs \<Rightarrow> string list \<Rightarrow> sfs_tree \<Rightarrow> errno option \<times> sfs_tree" where
  "mkpath_loop E [] t = (None, t)"
| "mkpath_loop E (p # ps) t =
     (case sys_mkdir E p t of
        (Some e, t') \<Rightarrow> if e = EEXIST then mkpath_loop E ps t' else (Some e, t')
      | (None, t') \<Rightarrow>
          (case sys_error E OP_CHOWN p of Some e \<Rightarrow> (Some e, t') | None \<Rightarrow> mkpath_loop E ps t'))"

definition mkpath :: "sfs_fs \<Rightarrow> string \<Rightarrow> sfs_tree \<Rightarrow> errno option \<times> sfs_tree" where
  "mkpath E path t =
     mkpath_loop E [take i path. i \<leftarrow> [1..<length path + 1], i = length path \<or> path ! i = CHR ''/''] t"

subsection \<open>Transfer of bytes\<close>

text \<open>The loops resume partial and interrupted transfers.\<close>

fun write_bytes :: "io_result list \<Rightarrow> bytes \<Rightarrow> errno option \<times> bytes \<times> io_result list" where
  "write_bytes [] buf = (None, buf, [])"
| "write_bytes (r # s) buf =
     (if buf = [] then (None, [], r # s)
      else case r of
        IO_intr \<Rightarrow> write_bytes s buf
      | IO_fail e \<Rightarrow> (Some e, [], s)
      | IO_count n \<Rightarrow>
          (if n = 0 then (Some EIO, [], s)
           else case write_bytes s (drop n buf) of (res, w, s') \<Rightarrow> (res, take n buf @ w, s')))"

fun write_chunks :: "io_result list \<Rightarrow> bytes list \<Rightarrow> errno option \<times> bytes \<times> io_result list" where
  "write_chunks s [] = (None, [], s)"
| "write_chunks s (b # bs) =
     (case write_bytes s b of
        (Some e, w, s') \<Rightarrow> (Some e, w, s')
      | (None, w, s') \<Rightarrow> (case write_chunks s' bs of (res, w', s'') \<Rightarrow> (res, w @ w', s'')))"

fun read_bytes :: "io_result list \<Rightarrow> bytes \<Rightarrow> nat \<Rightarrow> (errno + bytes) \<times> bytes \<times> io_result list" where
  "read_bytes [] rest n = (if n \<le> length rest then (Inr (take n rest), drop n rest, []) else (Inl EIO, [], []))"
| "read_bytes (r # s) rest n =
     (if n = 0 then (Inr [], rest, r # s)
      else case r of
        IO_intr \<Rightarrow> read_bytes s rest n
      | IO_fail e \<Rightarrow> (Inl e, rest, s)
      | IO_count k \<Rightarrow>
          (let got = min k (min n (length rest))
           in if got = 0 then (Inl EIO, rest, s)
              else case read_bytes s (drop got rest) (n - got) of
                (Inl e, rest', s') \<Rightarrow> (Inl e, rest', s')
              | (Inr d, rest', s') \<Rightarrow> (Inr (take got rest @ d), rest', s')))"

lemma write_bytes_all: "write_bytes s buf = (None, w, s') \<Longrightarrow> w = buf"
proof (induction s buf arbitrary: w s' rule: write_bytes.induct)
  case (2 r s buf)
  from "2.prems" show ?case using "2.IH" by (auto split: if_splits io_result.splits prod.splits) (metis append_take_drop_id)
qed simp

lemma write_chunks_all: "write_chunks s bs = (None, w, s') \<Longrightarrow> w = concat bs"
  by (induction s bs arbitrary: w s' rule: write_chunks.induct)
    (auto split: prod.splits option.splits dest: write_bytes_all)

definition benign :: "io_result list \<Rightarrow> bool" where
  "benign s \<longleftrightarrow> (\<forall>r\<in>set s. r \<noteq> IO_count 0 \<and> (\<forall>e. r \<noteq> IO_fail e))"

lemma read_bytes_benign:
  "benign s \<Longrightarrow> n \<le> length rest \<Longrightarrow> \<exists>s'. read_bytes s rest n = (Inr (take n rest), drop n rest, s') \<and> benign s'"
proof (induction s arbitrary: rest n)
  case (Cons r s)
  have s: "benign s" using Cons.prems(1) by (simp add: benign_def)
  show ?case
  proof (cases r)
    case IO_intr
    with Cons s show ?thesis by auto
  next
    case (IO_fail e)
    with Cons.prems show ?thesis by (simp add: benign_def)
  next
    case (IO_count k)
    show ?thesis
    proof (cases "n = 0")
      case False
      define got where "got = min k (min n (length rest))"
      have g: "got \<noteq> 0" "got \<le> n" using IO_count Cons.prems False by (auto simp: got_def benign_def)
      obtain s' where s': "read_bytes s (drop got rest) (n - got) =
          (Inr (take (n - got) (drop got rest)), drop (n - got) (drop got rest), s') \<and> benign s'"
        using Cons.IH [OF s, of "n - got" "drop got rest"] Cons.prems(2) diff_le_mono by (metis length_drop)
      have "take got rest @ take (n - got) (drop got rest) = take n rest"
        using g(2) by (simp add: take_add [symmetric])
      with s' g False IO_count show ?thesis by (auto simp: got_def [symmetric] Let_def)
    qed (use Cons.prems in auto)
  qed
qed (simp add: benign_def)

subsection \<open>Writing\<close>

definition sfs_need_upgrade_data :: "bytes \<Rightarrow> bytes \<Rightarrow> bool" where
  "sfs_need_upgrade_data updata cmpdata =
     (if updata = [] \<or> cmpdata = [] then False else abuf_ncmp updata cmpdata (length updata) \<noteq> 0)"

text \<open>The estimate of possible writes; the values of \<^verbatim>\<open>statvfs\<close> are blocks, available blocks, inodes, available inodes.\<close>

definition sfs_space_available :: "sfs_fs \<Rightarrow> sfs_tree \<Rightarrow> errno option \<times> sfs_tree" where
  "sfs_space_available E t =
     (if sfs_free_writes t > 0 then (None, t\<lparr>sfs_free_writes := sfs_free_writes t - 1\<rparr>)
      else case statvfs E of
        Inl e \<Rightarrow>
          (if e = ENOSYS then (None, t\<lparr>sfs_free_writes := 1000\<rparr>)
           else if e = ENOENT \<or> e = ENOTDIR then (None, t\<lparr>sfs_free_writes := 10\<rparr>)
           else (Some e, t))
      | Inr (blocks, bavail, nfiles, favail) \<Rightarrow>
          (if blocks div 100 > bavail \<or> nfiles div 100 > favail then (Some ENOSPC, t)
           else (None, t\<lparr>sfs_free_writes :=
             min (min 1000 ((bavail - blocks div 100) div 3)) ((favail - nfiles div 100) div 3)\<rparr>)))"

text \<open>The entries of the table of contents, with their data.\<close>

definition toc_parts :: "sfs_data \<Rightarrow> (nat \<times> bytes) list" where
  "toc_parts d =
     (if csdata d \<noteq> [] then [(SFSDATA_TYPE_CS, csdata d)] else []) @
     (if sigdata d \<noteq> [] then [(SFSDATA_TYPE_SIG, sigdata d)] else []) @
     (if sfs_need_upgrade_data (upgradecsdata d) (sigdata d) \<and> upgradecsdata d \<noteq> []
      then [(SFSDATA_TYPE_UPGRADE_CS, upgradecsdata d)] else [])"

definition toc_entry :: "nat \<Rightarrow> nat \<Rightarrow> nat \<Rightarrow> bytes" where
  "toc_entry ty off len = le_bytes 4 (int ty) @ le_bytes 4 (int off) @ le_bytes 4 (int len)"

fun toc_chunks :: "nat \<Rightarrow> (nat \<times> bytes) list \<Rightarrow> bytes list" where
  "toc_chunks off [] = [toc_entry SFSDATA_TYPE_EOT 0 0]"
| "toc_chunks off ((ty, d) # ps) = toc_entry ty off (length d) # toc_chunks (off + length d) ps"

text \<open>The calls of \<^verbatim>\<open>write_bytes\<close> in their order. The upgrade checksum is written even if it has no entry.\<close>

definition sfsdata_chunks :: "sfs_data \<Rightarrow> bytes list" where
  "sfsdata_chunks d =
     [le_bytes 4 (int SFSDATA_FORMAT_VERSION)] @
     toc_chunks (4 + (length (toc_parts d) + 1) * 12) (toc_parts d) @
     filter (\<lambda>b. b \<noteq> []) [csdata d, sigdata d, upgradecsdata d]"

text \<open>The index files of the directories above the file, from the innermost to the root of the tree.\<close>

lemma last_slash_le: "last_slash s k \<le> k"
  by (induction k) auto

lemma last_slash_less: "0 < k \<Longrightarrow> k < length s \<Longrightarrow> s ! k \<noteq> CHR ''/'' \<Longrightarrow> last_slash s k < k"
proof (cases k)
  case (Suc n)
  assume "s ! k \<noteq> CHR ''/''"
  with Suc last_slash_le [of s n] show ?thesis by simp
qed simp

function upgradeindex_loop :: "sfs_fs \<Rightarrow> string \<Rightarrow> string \<Rightarrow> nat \<Rightarrow> nat \<Rightarrow> sfs_tree \<Rightarrow> errno option \<times> sfs_tree" where
  "upgradeindex_loop E path suf mn i t =
     (if i \<le> mn \<or> length path \<le> i then (None, t)
      else if path ! i = CHR ''/'' then upgradeindex_loop E path suf mn (i - 1) t
      else
        (let j = last_slash path i;
             thisfile = take j path @ ''/.*u_'' @ suf
         in case sys_create E OP_OPEN_EXCL thisfile t of
              (Some e, t') \<Rightarrow> (if e = EEXIST then None else Some e, t')
            | (None, t') \<Rightarrow>
                (case sys_error E OP_FCHOWN thisfile of
                   Some e \<Rightarrow> (Some e, t')
                 | None \<Rightarrow> upgradeindex_loop E path suf mn j t')))"
  by pat_completeness auto
termination
  by (relation "measure (\<lambda>(E, path, suf, mn, i, t). i)") (auto intro: last_slash_less)

declare upgradeindex_loop.simps [simp del]

definition file_part :: "string \<Rightarrow> string" where
  "file_part f = rev (takeWhile (\<lambda>c. c \<noteq> CHR ''/'') (rev f))"

definition sfs_create_upgradeindex :: "sfs_fs \<Rightarrow> string \<Rightarrow> string \<Rightarrow> sfs_tree \<Rightarrow> errno option \<times> sfs_tree" where
  "sfs_create_upgradeindex E csum_path csum_file t =
     (let suf = file_part csum_file; root = SFS_CHECKSUMROOT E; mn = length root
      in if CHR ''/'' \<notin> set csum_file then (Some EFAULT, t)
         else if suf = [] then (Some EINVAL, t)
         else if take mn csum_path \<noteq> root then (Some EINVAL, t)
         else if \<not> (mn < length csum_path \<and> csum_path ! mn = CHR ''/'') then (Some EINVAL, t)
         else upgradeindex_loop E csum_path suf mn (length csum_path - 1) t)"

definition bad_field :: "bytes \<Rightarrow> bool" where
  "bad_field b \<longleftrightarrow> b \<noteq> [] \<and> (length b = 0 \<or> length b > SFSDATA_MAX_FIELD_LENGTH)"

text \<open>The label \<^verbatim>\<open>err\<close>: the temporary file is removed.\<close>

definition write_failed :: "sfs_fs \<Rightarrow> string \<Rightarrow> errno \<Rightarrow> sfs_tree \<Rightarrow> errno option \<times> sfs_tree" where
  "write_failed E csum_tmp e t = (Some e, snd (sys_unlink E csum_tmp t))"

definition write_tmp :: "sfs_fs \<Rightarrow> string \<Rightarrow> string \<Rightarrow> sfs_data \<Rightarrow> sfs_tree \<Rightarrow> errno option \<times> sfs_tree" where
  "write_tmp E csum_file csum_path d t =
     (let csum_tmp = csum_file @ ''.tmp''
      in case sys_create E OP_OPEN_WRITE csum_tmp t of
        (Some e, t1) \<Rightarrow> (Some e, t1)
      | (None, t1) \<Rightarrow>
         (case sys_error E OP_FCHOWN csum_tmp of
            Some e \<Rightarrow> write_failed E csum_tmp e t1
          | None \<Rightarrow>
            (case write_chunks (sched t1) (sfsdata_chunks d) of
               (res, w, s') \<Rightarrow>
                 (let t2 = (set_file csum_tmp w t1)\<lparr>sched := s'\<rparr>
                  in case res of
                    Some e \<Rightarrow> write_failed E csum_tmp e t2
                  | None \<Rightarrow>
                    (case (if sfs_need_upgrade_data (upgradecsdata d) (sigdata d) \<and> upgradecsdata d \<noteq> []
                           then sfs_create_upgradeindex E csum_path csum_file t2 else (None, t2)) of
                       (Some e, t3) \<Rightarrow> write_failed E csum_tmp e t3
                     | (None, t3) \<Rightarrow>
                       (case sys_error E OP_RENAME csum_file of
                          Some e \<Rightarrow> write_failed E csum_tmp e t3
                        | None \<Rightarrow> (None, set_file csum_file w (t3\<lparr>files := AList.delete csum_tmp (files t3)\<rparr>))))))))"

definition sfs_writesfsdata :: "sfs_fs \<Rightarrow> string \<Rightarrow> string \<Rightarrow> sfs_data \<Rightarrow> sfs_tree \<Rightarrow> errno option \<times> sfs_tree" where
  "sfs_writesfsdata E csum_file csum_path d t =
     (case sfs_space_available E t of
        (Some e, t1) \<Rightarrow> (Some e, t1)
      | (None, t1) \<Rightarrow>
          if bad_field (csdata d) \<or> bad_field (sigdata d) \<or>
             (sfs_need_upgrade_data (upgradecsdata d) (sigdata d) \<and> bad_field (upgradecsdata d)) then (Some EINVAL, t1)
          else if toc_parts d = [] then (Some EINVAL, t1)
          else case mkpath E csum_path t1 of
            (Some e, t2) \<Rightarrow> (Some e, t2)
          | (None, t2) \<Rightarrow> write_tmp E csum_file csum_path d t2)"

subsection \<open>Reading\<close>

definition u32_at :: "bytes \<Rightarrow> nat \<Rightarrow> nat" where
  "u32_at b i = nat (decode F_u32 (take 4 (drop i b)))"

fun read_toc :: "nat \<Rightarrow> io_result list \<Rightarrow> bytes \<Rightarrow> (errno + (nat \<times> nat \<times> nat) list) \<times> bytes \<times> io_result list" where
  "read_toc 0 s rest = (Inl E2BIG, rest, s)"
| "read_toc (Suc n) s rest =
     (case read_bytes s rest 12 of
        (Inl e, rest', s') \<Rightarrow> (Inl e, rest', s')
      | (Inr b, rest', s') \<Rightarrow>
          (let ty = u32_at b 0; off = u32_at b 4; len = u32_at b 8
           in if ty = SFSDATA_TYPE_EOT then (Inr [], rest', s')
              else if ty \<ge> NUM_SFSDATA_TYPES \<or> off = 0 \<or> len = 0 then (Inl EINVAL, rest', s')
              else if len > SFSDATA_MAX_FIELD_LENGTH then (Inl EMSGSIZE, rest', s')
              else case read_toc n s' rest' of
                (Inl e, r) \<Rightarrow> (Inl e, r)
              | (Inr es, r) \<Rightarrow> (Inr ((ty, off, len) # es), r)))"

text \<open>32 bit arithmetic: the end of an entry and the position of an entry in the data can wrap around.\<close>

definition toc_end :: "(nat \<times> nat \<times> nat) list \<Rightarrow> nat" where
  "toc_end es = foldl (\<lambda>m (ty, off, len). max m ((off + len) mod 2 ^ 32)) 0 es"

definition sub32 :: "nat \<Rightarrow> nat \<Rightarrow> nat" where
  "sub32 a b = (a + 2 ^ 32 - b) mod 2 ^ 32"

definition get_part :: "bytes \<Rightarrow> nat \<Rightarrow> nat \<Rightarrow> nat \<Rightarrow> bytes \<Rightarrow> bytes outcome" where
  "get_part databuf offset off len old =
     (if len = 0 \<or> old \<noteq> [] then Err EINVAL else abuf_copy_part (replicate len 0) 0 databuf (sub32 off offset) len)"

fun fill_parts :: "bytes \<Rightarrow> nat \<Rightarrow> (nat \<times> nat \<times> nat) list \<Rightarrow> sfs_data \<Rightarrow> sfs_data outcome" where
  "fill_parts databuf offset [] d = Ok d"
| "fill_parts databuf offset ((ty, off, len) # es) d =
     (if ty = SFSDATA_TYPE_CS
      then and_then (get_part databuf offset off len (csdata d)) (\<lambda>b. fill_parts databuf offset es (d\<lparr>csdata := b\<rparr>))
      else if ty = SFSDATA_TYPE_SIG
      then and_then (get_part databuf offset off len (sigdata d)) (\<lambda>b. fill_parts databuf offset es (d\<lparr>sigdata := b\<rparr>))
      else if ty = SFSDATA_TYPE_UPGRADE_CS
      then and_then (get_part databuf offset off len (upgradecsdata d))
             (\<lambda>b. fill_parts databuf offset es (d\<lparr>upgradecsdata := b\<rparr>))
      else Err EINVAL)"

definition parse_sfsdata :: "io_result list \<Rightarrow> bytes \<Rightarrow> sfs_data outcome \<times> io_result list" where
  "parse_sfsdata s c =
     (case read_bytes s c 4 of
        (Inl e, _, s1) \<Rightarrow> (Err e, s1)
      | (Inr v, rest, s1) \<Rightarrow>
          if u32_at v 0 \<noteq> SFSDATA_FORMAT_VERSION then (Err EOPNOTSUPP, s1)
          else case read_toc NUM_SFSDATA_TYPES s1 rest of
            (Inl e, _, s2) \<Rightarrow> (Err e, s2)
          | (Inr es, rest', s2) \<Rightarrow>
              if es = [] then (Err EINVAL, s2)
              else
                (let offset = 4 + 12 * (length es + 1)
                 in case read_bytes s2 rest' (sub32 (toc_end es) offset) of
                   (Inl e, _, s3) \<Rightarrow> (Err e, s3)
                 | (Inr databuf, _, s3) \<Rightarrow> (fill_parts databuf offset es sfs_initsfsdata, s3)))"

text \<open>\<open>jail\<close> is the chroot directory of the process.\<close>

definition sfs_readsfsdata :: "sfs_fs \<Rightarrow> string \<Rightarrow> string \<Rightarrow> sfs_tree \<Rightarrow> sfs_data outcome \<times> sfs_tree" where
  "sfs_readsfsdata E jail csum_file t =
     (case sys_error E OP_OPEN_READ (jail @ csum_file) of
        Some e \<Rightarrow> (Err e, t)
      | None \<Rightarrow>
          (case map_of (files t) (jail @ csum_file) of
             None \<Rightarrow> (Err ENOENT, t)
           | Some c \<Rightarrow> (case parse_sfsdata (sched t) c of (r, s') \<Rightarrow> (r, t\<lparr>sched := s'\<rparr>))))"

subsection \<open>Deleting\<close>

definition check_empty_dir :: "sfs_fs \<Rightarrow> string \<Rightarrow> sfs_tree \<Rightarrow> bool" where
  "check_empty_dir E d t \<longleftrightarrow> sys_error E OP_OPENDIR d = None \<and> is_dir d t \<and> readdir d t = []"

text \<open>The loop removes empty directories upwards to the root of the tree; errors end it.\<close>

fun rmdir_loop :: "sfs_fs \<Rightarrow> string \<Rightarrow> nat \<Rightarrow> nat \<Rightarrow> sfs_tree \<Rightarrow> sfs_tree" where
  "rmdir_loop E path root_len 0 t = t"
| "rmdir_loop E path root_len (Suc k) t =
     (if Suc k \<le> root_len then t
      else if Suc k < length path \<and> path ! Suc k = CHR ''/''
      then (let d = take (Suc k) path
            in if \<not> check_empty_dir E d t \<or> sys_error E OP_RMDIR d \<noteq> None then t
               else rmdir_loop E path root_len k (t\<lparr>dirs := removeAll d (dirs t)\<rparr>))
      else rmdir_loop E path root_len k t)"

definition sfs_deletechecksum :: "sfs_fs \<Rightarrow> string \<Rightarrow> sfs_tree \<Rightarrow> errno option \<times> sfs_tree" where
  "sfs_deletechecksum E csum_file t =
     (let root_len = length (SFS_CHECKSUMROOT E)
      in if length csum_file \<le> root_len \<or> csum_file ! root_len \<noteq> CHR ''/'' then (Some EINVAL, t)
         else case sys_unlink E csum_file t of
           (Some e, t') \<Rightarrow> (Some e, t')
         | (None, t') \<Rightarrow> (None, rmdir_loop E csum_file root_len (length csum_file) t'))"

definition sfs_upgraded :: "sfs_fs \<Rightarrow> string \<Rightarrow> sfs_tree \<Rightarrow> bool outcome \<times> sfs_tree" where
  "sfs_upgraded E csum_file t =
     (case sfs_readsfsdata E [] csum_file t of
        (Ok d, t') \<Rightarrow> (Ok (upgradecsdata d \<noteq> []), t')
      | (Err e, t') \<Rightarrow> (Ok False, t')
      | (Abort, t') \<Rightarrow> (Abort, t'))"

text \<open>\<^verbatim>\<open>sscanf(name, "%u%c", &uid, &testarg) == 1\<close>: a number and nothing behind it.\<close>

definition is_uid_name :: "string \<Rightarrow> bool" where
  "is_uid_name n =
     (let s = dropWhile (\<lambda>c. c = CHR '' '' \<or> (9 \<le> (of_char c :: nat) \<and> (of_char c :: nat) \<le> 13)) n;
          ds = (if s \<noteq> [] \<and> (hd s = CHR ''-'' \<or> hd s = CHR ''+'') then tl s else s)
      in ds \<noteq> [] \<and> (\<forall>c\<in>set ds. is_digit c))"

definition sfs_haschecksum_chroot :: "sfs_fs \<Rightarrow> string \<Rightarrow> sfs_tree \<Rightarrow> errno option + bool" where
  "sfs_haschecksum_chroot E path t =
     (case convert_user_path SFS_CHECKSUMCHROOT path False of
        Inl e \<Rightarrow> Inl (Some e)
      | Inr csum_path \<Rightarrow>
          (let d = policydir E @ csum_path
           in if sys_error E OP_OPENDIR d \<noteq> None \<or> \<not> is_dir d t then Inl None
              else Inr (\<exists>n\<in>set (readdir d t). is_uid_name n \<or> hd n = CHR ''k'')))"

subsection \<open>Upgrades\<close>

text \<open>
  \<^verbatim>\<open>sfs_update_all\<close>: one entry of the directory. The calls of \<^verbatim>\<open>readdir\<close> are taken to return the names that were
  there at the start. An abort in \<^verbatim>\<open>sfs_readsfsdata\<close> ends the daemon.
\<close>

definition update_entry :: "sfs_fs \<Rightarrow> string \<Rightarrow> bytes \<Rightarrow> string \<Rightarrow> sfs_tree \<Rightarrow> unit outcome \<times> sfs_tree" where
  "update_entry E sfs_pth md n t =
     (let csum_file = sfs_pth @ ''/'' @ n
      in if is_uid_name n
         then (Ok (), snd (sfs_writesfsdata E csum_file sfs_pth (sfs_initsfsdata\<lparr>csdata := md\<rparr>) t))
         else if hd n = CHR ''k''
         then (case sfs_readsfsdata E [] csum_file t of
                 (Err e, t1) \<Rightarrow> (Ok (), t1)
               | (Abort, t1) \<Rightarrow> (Abort, t1)
               | (Ok d, t1) \<Rightarrow>
                   if sigdata d = [] then (Ok (), t1)
                   else (Ok (), snd (sfs_writesfsdata E csum_file sfs_pth (d\<lparr>upgradecsdata := md\<rparr>) t1)))
         else (Ok (), t))"

fun update_entries :: "sfs_fs \<Rightarrow> string \<Rightarrow> bytes \<Rightarrow> string list \<Rightarrow> sfs_tree \<Rightarrow> unit outcome \<times> sfs_tree" where
  "update_entries E sfs_pth md [] t = (Ok (), t)"
| "update_entries E sfs_pth md (n # ns) t =
     (case update_entry E sfs_pth md n t of
        (Abort, t1) \<Rightarrow> (Abort, t1)
      | (_, t1) \<Rightarrow> update_entries E sfs_pth md ns t1)"

definition sfs_update_all :: "sfs_fs \<Rightarrow> string \<Rightarrow> bytes \<Rightarrow> sfs_tree \<Rightarrow> unit outcome \<times> sfs_tree" where
  "sfs_update_all E path md t =
     (if length md \<noteq> ANOUBIS_CS_LEN then (Err EINVAL, t)
      else case convert_user_path (SFS_CHECKSUMROOT E) path False of
        Inl e \<Rightarrow> (Err e, t)
      | Inr sfs_pth \<Rightarrow>
          (case sys_error E OP_OPENDIR sfs_pth of
             Some e \<Rightarrow> (if e = ENOENT then Ok () else Err e, t)
           | None \<Rightarrow>
               if \<not> is_dir sfs_pth t then (if is_file sfs_pth t then Err ENOTDIR else Ok (), t)
               else update_entries E sfs_pth md (readdir sfs_pth t) t))"

subsection \<open>Round trip\<close>

lemma u32_at_toc_entry:
  assumes "ty < 2 ^ 32" "off < 2 ^ 32" "len < 2 ^ 32"
  shows "u32_at (toc_entry ty off len) 0 = ty" "u32_at (toc_entry ty off len) 4 = off" "u32_at (toc_entry ty off len) 8 = len"
proof -
  have "be_value (rev (le_bytes 4 (int v))) = int v" if "v < 2 ^ 32" for v
    using that le_bytes_value [of "int v" 4] by simp
  with assms show "u32_at (toc_entry ty off len) 0 = ty" "u32_at (toc_entry ty off len) 4 = off" "u32_at (toc_entry ty off len) 8 = len"
    by (simp_all add: u32_at_def toc_entry_def)
qed

lemma length_toc_entry [simp]: "length (toc_entry ty off len) = 12"
  by (simp add: toc_entry_def)

fun toc_list :: "nat \<Rightarrow> (nat \<times> bytes) list \<Rightarrow> (nat \<times> nat \<times> nat) list" where
  "toc_list off [] = []"
| "toc_list off ((ty, d) # ps) = (ty, off, length d) # toc_list (off + length d) ps"

definition part_ok :: "nat \<times> bytes \<Rightarrow> bool" where
  "part_ok p \<longleftrightarrow> 0 < fst p \<and> fst p < 4 \<and> snd p \<noteq> [] \<and> length (snd p) \<le> 4096"

lemma read_toc_chunks:
  assumes "benign s" "\<forall>p\<in>set ps. part_ok p" "length ps < n" "0 < off" "off + length (concat (map snd ps)) < 2 ^ 32"
  shows "\<exists>s'. read_toc n s (concat (toc_chunks off ps) @ rest) = (Inr (toc_list off ps), rest, s') \<and> benign s'"
  using assms
proof (induction ps arbitrary: n off s)
  case Nil
  then obtain m where n: "n = Suc m" by (cases n) auto
  obtain s' where "read_bytes s (toc_entry 0 0 0 @ rest) 12 = (Inr (toc_entry 0 0 0), rest, s') \<and> benign s'"
    using read_bytes_benign [OF Nil(1), of 12 "toc_entry 0 0 0 @ rest"] by auto
  then show ?case by (simp add: n sfsdata_consts u32_at_toc_entry Let_def)
next
  case (Cons p ps)
  obtain m where n: "n = Suc m" using Cons.prems(3) by (cases n) auto
  obtain ty d where p: "p = (ty, d)" by (cases p)
  have ok: "0 < ty" "ty < 4" "d \<noteq> []" "length d \<le> 4096" using Cons.prems(2) p by (auto simp: part_ok_def)
  let ?e = "toc_entry ty off (length d)" and ?r = "concat (toc_chunks (off + length d) ps) @ rest"
  obtain s1 where s1: "read_bytes s (?e @ ?r) 12 = (Inr ?e, ?r, s1)" "benign s1"
    using read_bytes_benign [OF Cons.prems(1), of 12 "?e @ ?r"] by auto
  obtain s' where s': "read_toc m s1 ?r = (Inr (toc_list (off + length d) ps), rest, s')" "benign s'"
    using Cons.IH [OF s1(2), of m "off + length d"] Cons.prems p n by auto
  have "off < 2 ^ 32" using Cons.prems(5) by simp
  then have "u32_at ?e 0 = ty" "u32_at ?e 4 = off" "u32_at ?e 8 = length d" using ok by (simp_all add: u32_at_toc_entry)
  then show ?case using s1(1) s' ok Cons.prems(4) by (simp add: n p sfsdata_consts Let_def)
qed

lemma toc_end_list:
  assumes "ps \<noteq> []" "off + length (concat (map snd ps)) < 2 ^ 32"
  shows "toc_end (toc_list off ps) = off + length (concat (map snd ps))"
proof -
  have "foldl (\<lambda>m (ty, off, len). max m ((off + len) mod 2 ^ 32)) m (toc_list off ps) =
      (if ps = [] then m else off + length (concat (map snd ps)))"
    if "m \<le> off" "off + length (concat (map snd ps)) < 2 ^ 32" for m off and ps :: "(nat \<times> bytes) list"
    using that
  proof (induction off ps arbitrary: m rule: toc_list.induct)
    case (2 off ty d ps)
    have "(off + length d) mod 2 ^ 32 = off + length d" using "2.prems"(2) by simp
    moreover have "max m (off + length d) = off + length d" using "2.prems"(1) by simp
    ultimately show ?case using "2.IH" [of "off + length d"] "2.prems" by (cases ps) (auto simp: add.assoc)
  qed simp
  with assms show ?thesis by (simp add: toc_end_def)
qed

lemma get_part_ok:
  assumes "databuf = pre @ d @ post" "d \<noteq> []" "off = offset + length pre" "length databuf < 2 ^ 31" "offset < 2 ^ 31"
  shows "get_part databuf offset off (length d) [] = Ok d"
proof -
  have "off < 2 ^ 32" using assms by simp
  then have "sub32 off offset = length pre" using assms(3) by (simp add: sub32_def)
  then show ?thesis using assms by (simp add: get_part_def abuf_copy_part_def abuf_check_iff blit_def)
qed

text \<open>What a file holds for the data that was to be written.\<close>

definition stored :: "sfs_data \<Rightarrow> sfs_data" where
  "stored d = (if sfs_need_upgrade_data (upgradecsdata d) (sigdata d) then d else d\<lparr>upgradecsdata := []\<rparr>)"

definition data_ok :: "sfs_data \<Rightarrow> bool" where
  "data_ok d \<longleftrightarrow> toc_parts d \<noteq> [] \<and> \<not> bad_field (csdata d) \<and> \<not> bad_field (sigdata d) \<and>
     \<not> (sfs_need_upgrade_data (upgradecsdata d) (sigdata d) \<and> bad_field (upgradecsdata d))"

lemma toc_parts_ok: "data_ok d \<Longrightarrow> p \<in> set (toc_parts d) \<Longrightarrow> part_ok p"
  by (auto simp: data_ok_def toc_parts_def part_ok_def bad_field_def sfsdata_consts split: if_splits)

lemma length_toc_parts: "length (toc_parts d) \<le> 3"
  by (simp add: toc_parts_def)

lemma toc_parts_size: "data_ok d \<Longrightarrow> length (concat (map snd (toc_parts d))) \<le> 12288"
  by (auto simp: data_ok_def toc_parts_def bad_field_def sfsdata_consts)

lemma fill_parts_stored:
  assumes "data_ok d" "offset < 2 ^ 31"
  shows "fill_parts (concat (map snd (toc_parts d))) offset (toc_list offset (toc_parts d)) sfs_initsfsdata = Ok (stored d)"
proof -
  let ?b = "concat (map snd (toc_parts d))"
  have len: "length ?b < 2 ^ 31" using toc_parts_size [OF assms(1)] by simp
  have g: "get_part ?b offset (offset + length pre) (length x) [] = Ok x" if "?b = pre @ x @ post" "x \<noteq> []" for pre x post
    using get_part_ok [OF that refl len assms(2)] .
  have n: "upgradecsdata d \<noteq> []" "sigdata d \<noteq> []" if "sfs_need_upgrade_data (upgradecsdata d) (sigdata d)"
    using that by (auto simp: sfs_need_upgrade_data_def split: if_splits)
  have b: "?b = csdata d @ sigdata d @ (if sfs_need_upgrade_data (upgradecsdata d) (sigdata d) then upgradecsdata d else [])"
    by (simp add: toc_parts_def)
  have "csdata d \<noteq> [] \<Longrightarrow> get_part ?b offset offset (length (csdata d)) [] = Ok (csdata d)"
    using g [of "[]" "csdata d", simplified] b by blast
  moreover have "sigdata d \<noteq> [] \<Longrightarrow> get_part ?b offset (offset + length (csdata d)) (length (sigdata d)) [] = Ok (sigdata d)"
    using g [OF b] by blast
  moreover have "sfs_need_upgrade_data (upgradecsdata d) (sigdata d) \<Longrightarrow>
      get_part ?b offset (offset + length (csdata d) + length (sigdata d)) (length (upgradecsdata d)) [] = Ok (upgradecsdata d)"
    using g [of "csdata d @ sigdata d" "upgradecsdata d" "[]"] n b by (simp add: add.assoc)
  ultimately show ?thesis using n
    by (cases "csdata d = []"; cases "sigdata d = []"; cases "sfs_need_upgrade_data (upgradecsdata d) (sigdata d)")
      (simp_all add: toc_parts_def [of d] sfsdata_consts stored_def sfs_initsfsdata_def)
qed

lemma length_toc_list [simp]: "length (toc_list off ps) = length ps"
  by (induction off ps rule: toc_list.induct) auto

lemma parse_chunks:
  assumes "data_ok d" "benign s"
  shows "\<exists>s'. parse_sfsdata s (concat (sfsdata_chunks d)) = (Ok (stored d), s') \<and> benign s'"
proof -
  let ?ps = "toc_parts d"
  define off where "off = 4 + 12 * (length ?ps + 1)"
  define data where "data = csdata d @ sigdata d @ upgradecsdata d"
  let ?b = "concat (map snd ?ps)"
  have c: "concat (sfsdata_chunks d) = le_bytes 4 1 @ concat (toc_chunks off ?ps) @ data"
    by (auto simp: sfsdata_chunks_def off_def data_def sfsdata_consts algebra_simps)
  have ne: "?ps \<noteq> []" using assms(1) by (simp add: data_ok_def)
  have off: "0 < off" "off \<le> 52" using length_toc_parts [of d] by (simp_all add: off_def)
  have sz: "length ?b \<le> 12288" by (rule toc_parts_size [OF assms(1)])
  have tot: "off + length ?b < 2 ^ 32" using off sz by simp
  have v: "u32_at (le_bytes 4 1) 0 = 1" using le_bytes_value [of 1 4] by (simp add: u32_at_def)
  have pre: "\<exists>z. data = ?b @ z" by (auto simp: data_def toc_parts_def sfs_need_upgrade_data_def)
  obtain s1 where s1: "read_bytes s (concat (sfsdata_chunks d)) 4 = (Inr (le_bytes 4 1), concat (toc_chunks off ?ps) @ data, s1)" "benign s1"
    using read_bytes_benign [OF assms(2), of 4 "concat (sfsdata_chunks d)"] by (auto simp: c)
  obtain s2 where s2: "read_toc 4 s1 (concat (toc_chunks off ?ps) @ data) = (Inr (toc_list off ?ps), data, s2)" "benign s2"
    using read_toc_chunks [OF s1(2) _ _ off(1) tot, of 4 data] toc_parts_ok [OF assms(1)] length_toc_parts [of d] by force
  have o16: "16 + 12 * length ?ps = off" by (simp add: off_def)
  have ds: "sub32 (toc_end (toc_list off ?ps)) off = length ?b"
    using toc_end_list [OF ne tot] sz by (simp add: sub32_def)
  obtain s3 where s3: "read_bytes s2 data (length ?b) = (Inr ?b, drop (length ?b) data, s3)" "benign s3"
    using read_bytes_benign [OF s2(2), of "length ?b" data] pre by auto
  have nel: "toc_list off ?ps \<noteq> []" using ne by (cases ?ps) (auto simp: toc_list.simps split: prod.splits)
  have "parse_sfsdata s (concat (sfsdata_chunks d)) = (fill_parts ?b off (toc_list off ?ps) sfs_initsfsdata, s3)"
    using s1(1) s2(1) s3(1) ds nel v by (simp add: parse_sfsdata_def sfsdata_consts o16 Let_def)
  then show ?thesis using fill_parts_stored [OF assms(1), of off] off s3(2) by simp
qed

subsection \<open>What a write changes\<close>

definition index_file :: "string \<Rightarrow> bool" where
  "index_file f \<longleftrightarrow> (\<exists>a b. f = a @ ''/.*u_'' @ b \<and> CHR ''/'' \<notin> set b)"

lemma file_part_no_slash: "CHR ''/'' \<notin> set (file_part f)"
  by (auto simp: file_part_def dest: set_takeWhileD)

lemma file_part_append: "CHR ''/'' \<notin> set n \<Longrightarrow> file_part (d @ CHR ''/'' # n) = n"
  by (simp add: file_part_def takeWhile_append)

definition same_except :: "(string \<Rightarrow> bool) \<Rightarrow> sfs_tree \<Rightarrow> sfs_tree \<Rightarrow> bool" where
  "same_except P t t' \<longleftrightarrow> (\<forall>f. \<not> P f \<longrightarrow> map_of (files t') f = map_of (files t) f)"

lemma same_except_refl [simp]: "same_except P t t"
  by (simp add: same_except_def)

lemma same_except_trans: "same_except P t t' \<Longrightarrow> same_except P t' t'' \<Longrightarrow> same_except P t t''"
  by (simp add: same_except_def)

lemma same_except_mono: "same_except P t t' \<Longrightarrow> (\<And>f. P f \<Longrightarrow> Q f) \<Longrightarrow> same_except Q t t'"
  by (auto simp: same_except_def)

lemma set_file_same: "P p \<Longrightarrow> same_except P t (set_file p c t)"
  by (auto simp: same_except_def set_file_def update_conv')

lemma set_file_get: "map_of (files (set_file p c t)) p = Some c"
  by (simp add: set_file_def update_conv')

lemma delete_same: "P p \<Longrightarrow> same_except P t (t\<lparr>files := AList.delete p (files t)\<rparr>)"
  by (auto simp: same_except_def delete_conv')

lemma same_files: "files t' = files t \<Longrightarrow> same_except P t t'"
  by (simp add: same_except_def)

lemma sys_create_same: "sys_create E op p t = (r, t') \<Longrightarrow> P p \<Longrightarrow> same_except P t t'"
  by (auto simp: sys_create_def set_file_same split: option.splits if_splits)

lemma sys_unlink_same: "sys_unlink E p t = (r, t') \<Longrightarrow> P p \<Longrightarrow> same_except P t t'"
  by (auto simp: sys_unlink_def delete_same split: option.splits if_splits)

lemma mkpath_loop_files: "files (snd (mkpath_loop E ps t)) = files t"
proof (induction ps arbitrary: t)
  case (Cons p ps)
  have "files (snd (sys_mkdir E p t)) = files t" by (simp add: sys_mkdir_def split: option.splits)
  with Cons show ?case by (auto split: prod.splits option.splits)
qed simp

lemma upgradeindex_same:
  "CHR ''/'' \<notin> set suf \<Longrightarrow> upgradeindex_loop E path suf mn i t = (r, t') \<Longrightarrow> same_except index_file t t'"
proof (induction E path suf mn i t arbitrary: r t' rule: upgradeindex_loop.induct)
  case (1 E path suf mn i t)
  let ?f = "take (last_slash path i) path @ ''/.*u_'' @ suf"
  have idx: "index_file ?f" using "1.prems"(1) by (auto simp: index_file_def)
  show ?case
  proof (cases "i \<le> mn \<or> length path \<le> i \<or> path ! i = CHR ''/''")
    case True
    then show ?thesis using 1(1,3,4) by (subst (asm) upgradeindex_loop.simps) (auto split: if_splits)
  next
    case False
    obtain r1 t1 where c: "sys_create E OP_OPEN_EXCL ?f t = (r1, t1)" by (cases "sys_create E OP_OPEN_EXCL ?f t")
    then have s1: "same_except index_file t t1" using idx by (rule sys_create_same)
    show ?thesis
    proof (cases "r1 = None \<and> sys_error E OP_FCHOWN ?f = None")
      case True
      with "1.prems"(2) False c have "upgradeindex_loop E path suf mn (last_slash path i) t1 = (r, t')"
        by (subst (asm) upgradeindex_loop.simps) (simp add: Let_def)
      moreover have "same_except index_file t1 t'"
        by (rule "1.IH"(2)) (use False c True calculation "1.prems"(1) in auto)
      ultimately show ?thesis using s1 same_except_trans by blast
    next
      case f2: False
      with "1.prems"(2) False c have "t' = t1"
        by (subst (asm) upgradeindex_loop.simps) (auto simp: Let_def split: option.splits)
      with s1 show ?thesis by simp
    qed
  qed
qed

lemma create_upgradeindex_same:
  "sfs_create_upgradeindex E csum_path csum_file t = (r, t') \<Longrightarrow> same_except index_file t t'"
  by (auto simp: sfs_create_upgradeindex_def Let_def split: if_splits intro: upgradeindex_same [OF file_part_no_slash])

lemma write_failed_same: "write_failed E p e t = (r, t') \<Longrightarrow> P p \<Longrightarrow> same_except P t t' \<and> r = Some e"
  using sys_unlink_same [of E p t] by (cases "sys_unlink E p t") (auto simp: write_failed_def)

text \<open>The temporary file and index files may change in any case, the file itself only if all went well.\<close>

definition scratch :: "string \<Rightarrow> string \<Rightarrow> bool" where
  "scratch csum_file f \<longleftrightarrow> f = csum_file @ ''.tmp'' \<or> index_file f"

definition written :: "string \<Rightarrow> bytes \<Rightarrow> errno option \<Rightarrow> sfs_tree \<Rightarrow> sfs_tree \<Rightarrow> bool" where
  "written csum_file c r t t' \<longleftrightarrow>
     (case r of
        None \<Rightarrow> same_except (\<lambda>f. f = csum_file \<or> scratch csum_file f) t t' \<and> map_of (files t') csum_file = Some c
      | Some e \<Rightarrow> same_except (scratch csum_file) t t')"

lemma written_after: "same_except (scratch f) t t1 \<Longrightarrow> written f c r t1 t' \<Longrightarrow> written f c r t t'"
  by (auto simp: written_def same_except_def split: option.splits)

lemma written_error: "same_except (scratch f) t t' \<Longrightarrow> written f c (Some e) t t'"
  by (simp add: written_def)

lemma write_tmp_written:
  assumes "write_tmp E csum_file csum_path d t = (r, t')"
  shows "written csum_file (concat (sfsdata_chunks d)) r t t'"
proof -
  let ?tmp = "csum_file @ ''.tmp''" and ?P = "scratch csum_file" and ?c = "concat (sfsdata_chunks d)"
  let ?need = "sfs_need_upgrade_data (upgradecsdata d) (sigdata d) \<and> upgradecsdata d \<noteq> []"
  have tmp: "?P ?tmp" by (simp add: scratch_def)
  have fail: "written csum_file ?c r t1 t'" if "write_failed E ?tmp e t1 = (r, t')" for e t1
    using write_failed_same [OF that, of ?P] tmp by (auto intro: written_error)
  obtain r1 t1 where c1: "sys_create E OP_OPEN_WRITE ?tmp t = (r1, t1)" by (cases "sys_create E OP_OPEN_WRITE ?tmp t")
  have s1: "same_except ?P t t1" using sys_create_same [OF c1, of ?P] tmp by blast
  show ?thesis
  proof (cases "r1 = None \<and> sys_error E OP_FCHOWN ?tmp = None")
    case False
    then show ?thesis using assms c1 s1 fail
      by (auto simp: write_tmp_def Let_def split: option.splits intro: written_error written_after)
  next
    case True
    obtain res w s' where w: "write_chunks (sched t1) (sfsdata_chunks d) = (res, w, s')"
      by (cases "write_chunks (sched t1) (sfsdata_chunks d)")
    define t2 where "t2 = (set_file ?tmp w t1)\<lparr>sched := s'\<rparr>"
    have s2: "same_except ?P t t2"
      using same_except_trans [OF s1 set_file_same [of ?P ?tmp _ w]] tmp by (simp add: t2_def same_except_def)
    show ?thesis
    proof (cases res)
      case (Some e)
      then have "write_failed E ?tmp e t2 = (r, t')"
        using assms c1 True w by (simp add: write_tmp_def Let_def t2_def)
      with s2 fail show ?thesis by (blast intro: written_after)
    next
      case None
      obtain r3 t3 where i: "(if ?need then sfs_create_upgradeindex E csum_path csum_file t2 else (None, t2)) = (r3, t3)"
        by (cases "if ?need then sfs_create_upgradeindex E csum_path csum_file t2 else (None, t2)")
      then have "same_except index_file t2 t3" by (auto split: if_splits dest: create_upgradeindex_same)
      then have s3: "same_except ?P t t3" using s2 by (auto simp: same_except_def scratch_def)
      have a: "(case (r3, t3) of (Some e, t3) \<Rightarrow> write_failed E ?tmp e t3
          | (None, t3) \<Rightarrow> (case sys_error E OP_RENAME csum_file of Some e \<Rightarrow> write_failed E ?tmp e t3
             | None \<Rightarrow> (None, set_file csum_file w (t3\<lparr>files := AList.delete ?tmp (files t3)\<rparr>)))) = (r, t')"
        using assms c1 True w None unfolding i [symmetric] by (simp add: write_tmp_def Let_def t2_def cong: if_cong split del: if_split)
      show ?thesis
      proof (cases "r3 = None \<and> sys_error E OP_RENAME csum_file = None")
        case True
        have "w = ?c" using w None write_chunks_all by blast
        moreover have "r = None" "t' = set_file csum_file w (t3\<lparr>files := AList.delete ?tmp (files t3)\<rparr>)" using a True by auto
        ultimately show ?thesis using s3
          by (auto simp: written_def set_file_get same_except_def scratch_def) (simp add: set_file_def update_conv' delete_conv')
      next
        case False
        then obtain e where "write_failed E ?tmp e t3 = (r, t')" using a by (auto split: option.splits)
        with s3 fail show ?thesis by (blast intro: written_after)
      qed
    qed
  qed
qed

lemma space_files: "files (snd (sfs_space_available E t)) = files t"
  by (simp add: sfs_space_available_def split: sum.splits)

lemma sfs_write_written:
  assumes "sfs_writesfsdata E csum_file csum_path d t = (r, t')"
  shows "written csum_file (concat (sfsdata_chunks d)) r t t' \<and> (r = None \<longrightarrow> data_ok d)"
proof -
  obtain r1 t1 where a: "sfs_space_available E t = (r1, t1)" by (cases "sfs_space_available E t")
  obtain r2 t2 where m: "mkpath E csum_path t1 = (r2, t2)" by (cases "mkpath E csum_path t1")
  have f1: "files t1 = files t" using space_files [of E t] a by simp
  have "files (snd (mkpath E csum_path t1)) = files t1" unfolding mkpath_def by (rule mkpath_loop_files)
  then have f2: "files t2 = files t" using m f1 by simp
  have s: "same_except (scratch csum_file) t t1" "same_except (scratch csum_file) t t2"
    using f1 f2 by (simp_all add: same_files)
  show ?thesis
  proof (cases "r1 = None \<and> r2 = None \<and> data_ok d")
    case True
    then have "write_tmp E csum_file csum_path d t2 = (r, t')"
      using assms a m by (auto simp: sfs_writesfsdata_def data_ok_def split: if_splits)
    with True s(2) show ?thesis by (blast intro: written_after write_tmp_written)
  next
    case False
    then have "(\<exists>e. r = Some e) \<and> (t' = t1 \<or> t' = t2)"
      using assms a m by (auto simp: sfs_writesfsdata_def data_ok_def split: option.splits if_splits)
    with s show ?thesis by (auto intro: written_error)
  qed
qed

lemma rmdir_files: "files (rmdir_loop E path root_len k t) = files t"
  by (induction E path root_len k t rule: rmdir_loop.induct) (auto simp: Let_def)

lemma sfs_delete_same:
  assumes "sfs_deletechecksum E csum_file t = (r, t')"
  shows "if r = None then same_except (\<lambda>f. f = csum_file) t t' \<and> map_of (files t') csum_file = None else t' = t"
  using assms rmdir_files
  by (auto simp: sfs_deletechecksum_def sys_unlink_def Let_def same_except_def delete_conv' split: if_splits option.splits)

text \<open>
  C18. A write of a checksum file is atomic and lossless. If it succeeds, a later read of the file
  returns the data, however the kernel cuts and interrupts the transfers, with the upgrade checksum exactly if it
  differs from the signed one. If it fails at any point, the file has the contents that it had before.
\<close>

theorem sfsdata_roundtrip:
  assumes "sfs_writesfsdata E csum_file csum_path d t = (r, t')" "\<not> index_file csum_file"
    and "benign (sched t')" "sys_error E OP_OPEN_READ csum_file = None"
  shows "case r of
      None \<Rightarrow> fst (sfs_readsfsdata E [] csum_file t') = Ok (stored d)
    | Some e \<Rightarrow> map_of (files t') csum_file = map_of (files t) csum_file"
proof (cases r)
  case None
  with sfs_write_written [OF assms(1)] have d: "data_ok d" "map_of (files t') csum_file = Some (concat (sfsdata_chunks d))"
    by (auto simp: written_def)
  with parse_chunks [OF d(1) assms(3)] assms(4) None show ?thesis by (auto simp: sfs_readsfsdata_def)
next
  case (Some e)
  with sfs_write_written [OF assms(1)] assms(2) show ?thesis by (simp add: written_def same_except_def scratch_def)
qed

definition demo_fs :: sfs_fs where
  "demo_fs = \<lparr>policydir = ''/p'', sys_error = (\<lambda>_ _. None), statvfs = Inl ENOSYS\<rparr>"

definition demo_tree :: sfs_tree where
  "demo_tree = \<lparr>files = [], dirs = [''/p''], sfs_free_writes = 0, sched = [IO_count 3, IO_intr, IO_count 2]\<rparr>"

definition demo_sig :: sfs_data where
  "demo_sig = \<lparr>csdata = [], sigdata = [1, 2, 3], upgradecsdata = [1, 9]\<rparr>"

lemma demo_not_index: "\<not> index_file ''/p/sfs/*a/k07''"
proof
  assume "index_file ''/p/sfs/*a/k07''"
  then obtain a b where "''/p/sfs/*a'' @ CHR ''/'' # ''k07'' = a @ CHR ''/'' # (''.*u_'' @ b)" "CHR ''/'' \<notin> set b"
    by (auto simp: index_file_def)
  then have "''k07'' = ''.*u_'' @ b" using file_name_inj [of "''/p/sfs/*a''" "''k07''" a "''.*u_'' @ b"] by simp
  then show False by simp
qed

theorem sfsdata_roundtrip_witness:
  "fst (sfs_readsfsdata demo_fs [] ''/p/sfs/*a/k07'' (snd (sfs_writesfsdata demo_fs ''/p/sfs/*a/k07'' ''/p/sfs/*a'' demo_sig demo_tree)))
   = Ok demo_sig"
proof -
  let ?w = "sfs_writesfsdata demo_fs ''/p/sfs/*a/k07'' ''/p/sfs/*a'' demo_sig demo_tree"
  have f: "fst ?w = None" "sched (snd ?w) = []" "stored demo_sig = demo_sig" by code_simp+
  then have "benign (sched (snd ?w))" by (simp add: benign_def)
  with sfsdata_roundtrip [of demo_fs "''/p/sfs/*a/k07''" "''/p/sfs/*a''" demo_sig demo_tree "fst ?w" "snd ?w"] f demo_not_index
  show ?thesis by (simp add: demo_fs_def)
qed

end
