(* ===== verification/Cert.thy ===== *)
theory Cert
  imports Abuf Playground State
begin

text \<open>
  The database of user certificates, \<^verbatim>\<open>src/src/anoubisd/cert.c\<close>. Public keys are handles; reading a certificate
  with OpenSSL is part of the description of a file (\<open>cf_cert\<close>: public key and contents of the subject key
  identifier extension).

  Shown here: a key identifier that occurs in two certificates is not usable at all, so that a key identifies
  one user.
\<close>

record cert =
  cert_uid :: uid
  pubkey :: nat
  privkey :: "nat option"
  keyid :: bytes
  ignored :: bool

datatype d_type = DT_REG | DT_UNKNOWN | DT_OTHER

record cert_file =
  cf_name :: string
  cf_type :: d_type
  cf_lstat :: "bool option"
  cf_cert :: "(nat \<times> bytes option) option"

text \<open>\<^verbatim>\<open>strtonum(name, 0, UID_MAX, &errstr)\<close>: the whole name is a number in the range.\<close>

definition strtonum_uid :: "string \<Rightarrow> uid option" where
  "strtonum_uid n =
     (let s = dropWhile (\<lambda>c. c = CHR '' '' \<or> (9 \<le> (of_char c :: nat) \<and> (of_char c :: nat) \<le> 13)) n;
          neg = (s \<noteq> [] \<and> hd s = CHR ''-'');
          ds = (if s \<noteq> [] \<and> (hd s = CHR ''-'' \<or> hd s = CHR ''+'') then tl s else s)
      in if ds \<noteq> [] \<and> (\<forall>c\<in>set ds. is_digit c)
         then (case scan_nat ds of
                 None \<Rightarrow> None
               | Some v \<Rightarrow> if v < 2 ^ 32 \<and> (neg \<longrightarrow> v = 0) then Some (of_nat v) else None)
         else None)"

text \<open>The octets of the extension without the tag of an octet string of 20 bytes.\<close>

definition cert_keyid :: "bytes option \<Rightarrow> bytes" where
  "cert_keyid ext =
     (case ext of
        None \<Rightarrow> []
      | Some data \<Rightarrow> if length data < 2 then [] else if take 2 data = [4, 20] then drop 2 data else data)"

fun find_keyid :: "bytes \<Rightarrow> cert list \<Rightarrow> cert option" where
  "find_keyid k [] = None"
| "find_keyid k (p # ps) = (if abuf_equal k (keyid p) then Some p else find_keyid k ps)"

definition cert_get_by_keyid_db :: "bytes \<Rightarrow> bool \<Rightarrow> cert list \<Rightarrow> cert option" where
  "cert_get_by_keyid_db k check_ignore db =
     (if length k = 0 then None
      else case find_keyid k db of
        None \<Rightarrow> None
      | Some p \<Rightarrow> if check_ignore \<and> ignored p then None else Some p)"

definition cert_get_by_keyid :: "cert list \<Rightarrow> bytes \<Rightarrow> cert option" where
  "cert_get_by_keyid db k = cert_get_by_keyid_db k True db"

definition cert_get_by_uid_db :: "uid \<Rightarrow> bool \<Rightarrow> cert list \<Rightarrow> cert option" where
  "cert_get_by_uid_db u check_ignore db =
     (case find (\<lambda>p. cert_uid p = u) db of
        None \<Rightarrow> None
      | Some p \<Rightarrow> if check_ignore \<and> ignored p then None else Some p)"

definition cert_get_by_uid :: "cert list \<Rightarrow> uid \<Rightarrow> cert option" where
  "cert_get_by_uid db u = cert_get_by_uid_db u True db"

definition cert_get_by_uid_prio :: "cert list \<Rightarrow> uid \<Rightarrow> nat \<Rightarrow> cert option" where
  "cert_get_by_uid_prio db u prio = (if prio = PE_PRIO_ADMIN \<or> u = no_uid then cert_get_by_uid db 0 else cert_get_by_uid db u)"

definition cert_keyid_for_uid :: "cert list \<Rightarrow> uid \<Rightarrow> string option" where
  "cert_keyid_for_uid db u =
     (case find (\<lambda>p. cert_uid p = u \<and> \<not> ignored p) db of None \<Rightarrow> None | Some p \<Rightarrow> abuf_convert_tohexstr (keyid p))"

text \<open>\<^verbatim>\<open>check->ignore = 1\<close> for the certificate that \<^verbatim>\<open>_cert_get_by_keyid\<close> found.\<close>

fun mark_ignored :: "bytes \<Rightarrow> cert list \<Rightarrow> cert list" where
  "mark_ignored k [] = []"
| "mark_ignored k (p # ps) = (if keyid p = k then p\<lparr>ignored := True\<rparr> # ps else p # mark_ignored k ps)"

definition cert_load_file :: "cert_file \<Rightarrow> cert list \<Rightarrow> cert list" where
  "cert_load_file f db =
     (if cf_type f \<noteq> DT_REG \<and> cf_type f \<noteq> DT_UNKNOWN then db
      else case strtonum_uid (cf_name f) of
        None \<Rightarrow> db
      | Some u \<Rightarrow>
          if cf_type f = DT_UNKNOWN \<and> cf_lstat f = Some False then db
          else case cf_cert f of
            None \<Rightarrow> db
          | Some (key, ext) \<Rightarrow>
              (let k = cert_keyid ext;
                   sc = \<lparr>cert_uid = u, pubkey = key, privkey = None, keyid = k, ignored = False\<rparr>
               in if length k = 0 then db
                  else if cert_get_by_keyid_db k False db \<noteq> None
                  then mark_ignored k db @ [sc\<lparr>ignored := True\<rparr>] else db @ [sc]))"

definition cert_load_db :: "cert_file list \<Rightarrow> cert list" where
  "cert_load_db fs = fold cert_load_file fs []"

text \<open>\<^verbatim>\<open>cert_load_priv_key\<close> on the certificate of a user; \<open>load\<close> is the result of reading the file with OpenSSL.\<close>

definition cert_load_priv_key :: "string option \<Rightarrow> (string \<Rightarrow> nat option) \<Rightarrow> cert \<Rightarrow> cert" where
  "cert_load_priv_key path load c = (case path of None \<Rightarrow> c\<lparr>privkey := None\<rparr> | Some f \<Rightarrow> c\<lparr>privkey := load f\<rparr>)"

subsection \<open>Keys identify users\<close>

definition key_count :: "bytes \<Rightarrow> cert list \<Rightarrow> nat" where
  "key_count k db = length (filter (\<lambda>p. keyid p = k) db)"

definition dups_ignored :: "cert list \<Rightarrow> bool" where
  "dups_ignored db \<longleftrightarrow> (\<forall>p\<in>set db. key_count (keyid p) db > 1 \<longrightarrow> ignored p)"

lemma key_count_mark [simp]: "key_count l (mark_ignored k db) = key_count l db"
  by (induction db) (auto simp: key_count_def)

lemma find_keyid_None: "find_keyid k db = None \<longleftrightarrow> key_count k db = 0"
  by (induction db) (auto simp: key_count_def)

lemma find_keyid_mem: "find_keyid k db = Some p \<Longrightarrow> p \<in> set db \<and> keyid p = k"
  by (induction db) (auto split: if_splits)

lemma mark_ignored_mem:
  "p \<in> set (mark_ignored k db) \<Longrightarrow> p \<in> set db \<and> (keyid p = k \<longrightarrow> key_count k db > 1) \<or> ignored p"
  by (induction db) (auto simp: key_count_def filter_empty_conv split: if_splits)

lemma key_count_pos: "p \<in> set db \<Longrightarrow> keyid p = k \<Longrightarrow> key_count k db > 0"
  by (auto simp: key_count_def length_greater_0_conv filter_empty_conv)

lemma load_file_dups: "dups_ignored db \<Longrightarrow> dups_ignored (cert_load_file f db)"
proof -
  assume d: "dups_ignored db"
  have snoc: "key_count l (db @ [p]) = key_count l db + (if keyid p = l then 1 else 0)" for l p and db :: "cert list"
    by (simp add: key_count_def)
  have "dups_ignored (db @ [sc])" if "find_keyid k db = None" "keyid sc = k" for sc k
    using d that key_count_pos unfolding find_keyid_None by (fastforce simp: dups_ignored_def snoc)
  moreover have "dups_ignored (mark_ignored k db @ [sc])" if sc: "ignored sc" "keyid sc = k" for sc k
    unfolding dups_ignored_def
  proof (intro ballI impI)
    fix p
    assume p: "p \<in> set (mark_ignored k db @ [sc])" "key_count (keyid p) (mark_ignored k db @ [sc]) > 1"
    show "ignored p"
    proof (cases "p = sc \<or> ignored p")
      case False
      then have "p \<in> set db" "keyid p = k \<longrightarrow> key_count k db > 1" using p(1) mark_ignored_mem by auto
      moreover then have "key_count (keyid p) db > 1" using p(2) sc(2) by (auto simp: snoc split: if_splits)
      ultimately show ?thesis using d by (simp add: dups_ignored_def)
    qed (use sc in auto)
  qed
  ultimately show ?thesis
    using d by (auto simp: cert_load_file_def cert_get_by_keyid_db_def Let_def split: option.splits)
qed

lemma load_db_dups: "dups_ignored (cert_load_db fs)"
proof -
  have "dups_ignored db \<Longrightarrow> dups_ignored (fold cert_load_file fs db)" for db
    by (induction fs arbitrary: db) (simp_all add: load_file_dups)
  then show ?thesis unfolding cert_load_db_def by (metis dups_ignored_def empty_iff list.set(1))
qed

lemma find_keyid_unique:
  assumes "dups_ignored db" "cert_get_by_keyid db k = Some c"
  shows "\<forall>p\<in>set db. keyid p = k \<longrightarrow> p = c"
proof (intro ballI impI)
  fix p
  assume p: "p \<in> set db" "keyid p = k"
  have c: "find_keyid k db = Some c" "\<not> ignored c"
    using assms(2) by (auto simp: cert_get_by_keyid_def cert_get_by_keyid_db_def split: if_splits option.splits)
  with find_keyid_mem assms(1) have "c \<in> set db" "keyid c = k" "\<not> key_count k db > 1" by (auto simp: dups_ignored_def)
  then have "length (filter (\<lambda>p. keyid p = k) db) \<le> 1" by (simp add: key_count_def)
  then have "\<exists>x. set (filter (\<lambda>p. keyid p = k) db) \<subseteq> {x}"
    by (cases "filter (\<lambda>p. keyid p = k) db") auto
  moreover have "p \<in> set (filter (\<lambda>p. keyid p = k) db)" "c \<in> set (filter (\<lambda>p. keyid p = k) db)"
    using p \<open>c \<in> set db\<close> \<open>keyid c = k\<close> by auto
  ultimately show "p = c" by blast
qed

end
