(* ===== verification/ChecksumOp.thy ===== *)
theory ChecksumOp
  imports SfsTree Cert Policy
begin

text \<open>
  Checksum requests: the operations on the SFS tree (\<^verbatim>\<open>sfs.c\<close>), the messages that ask for them and their
  processing by the master (\<^verbatim>\<open>main.c\<close>), the check of the session engine in front of it (\<^verbatim>\<open>session.c\<close>).

  The key operations of OpenSSL are parameters: the size of a key and the verification of a signature of a
  checksum. Strings of messages are without NUL bytes. Replies and the messages to the policy engine are lists.

  Shown here: who can change which checksum; that the cache of the policy engine is coherent after every
  request; that a checked request cannot end the master as long as the two offsets of the message agree, and
  that it can if they do not.
\<close>

datatype csum_op =
    CHECKSUM_DEL | CHECKSUM_ADDSUM | CHECKSUM_ADDSIG | CHECKSUM_DELSIG | CHECKSUM_LIST | CHECKSUM_GET2
  | CHECKSUM_GETSIG2 | CHECKSUM_OTHER

definition csum_op :: "int \<Rightarrow> csum_op" where
  "csum_op v =
     (if v = 0x2 then CHECKSUM_DEL else if v = 0x5 then CHECKSUM_ADDSUM else if v = 0x8 then CHECKSUM_ADDSIG
      else if v = 0xB then CHECKSUM_DELSIG else if v = 0xF then CHECKSUM_LIST else if v = 0x10 then CHECKSUM_GET2
      else if v = 0x11 then CHECKSUM_GETSIG2 else CHECKSUM_OTHER)"

definition ANOUBIS_CSUM_UID :: u32 where "ANOUBIS_CSUM_UID = 0x01"
definition ANOUBIS_CSUM_KEY :: u32 where "ANOUBIS_CSUM_KEY = 0x02"
definition ANOUBIS_CSUM_ALL :: u32 where "ANOUBIS_CSUM_ALL = 0x10"
definition ANOUBIS_CSUM_WANTIDS :: u32 where "ANOUBIS_CSUM_WANTIDS = 0x20"
definition ANOUBIS_CSUM_UPGRADED :: u32 where "ANOUBIS_CSUM_UPGRADED = 0x40"
definition ANOUBIS_CSUM_FLAG_MASK :: u32 where "ANOUBIS_CSUM_FLAG_MASK = 0x73"

lemmas csum_flags = ANOUBIS_CSUM_UID_def ANOUBIS_CSUM_KEY_def ANOUBIS_CSUM_ALL_def ANOUBIS_CSUM_WANTIDS_def
  ANOUBIS_CSUM_UPGRADED_def ANOUBIS_CSUM_FLAG_MASK_def

definition flag :: "u32 \<Rightarrow> u32 \<Rightarrow> bool" where "flag fl x \<longleftrightarrow> fl AND x \<noteq> 0"

record sfs_csmulti_record =
  mr_index :: nat
  mr_csdata :: bytes
  mr_path :: string

record sfs_checksumop =
  co_op :: csum_op
  listflags :: u32
  co_uid :: uid
  auth_uid :: uid
  co_keyid :: bytes
  sigbuf :: bytes
  co_path :: string
  csmulti :: "sfs_csmulti_record list"

record sfs_env =
  fs :: sfs_fs
  certs :: "cert list"
  pkey_size :: "nat \<Rightarrow> nat"
  verify_csum :: "nat \<Rightarrow> bytes \<Rightarrow> bytes \<Rightarrow> bool"

subsection \<open>Operations on the tree\<close>

text \<open>The rights of the user, and the name of the file in the directory with the certificate, if any.\<close>

definition uid_target :: "sfs_checksumop \<Rightarrow> errno + string" where
  "uid_target c =
     (if co_uid c \<noteq> auth_uid c \<and> auth_uid c \<noteq> 0 then Inl EPERM
      else if co_op c = CHECKSUM_ADDSUM \<and> length (sigbuf c) \<noteq> ANOUBIS_CS_LEN then Inl EINVAL
      else Inr (uid_file (co_uid c)))"

definition key_target :: "sfs_env \<Rightarrow> sfs_checksumop \<Rightarrow> errno + string \<times> cert" where
  "key_target E c =
     (if co_keyid c = [] then Inl EINVAL
      else case cert_get_by_keyid (certs E) (co_keyid c) of
        None \<Rightarrow> Inl A_EPERM_NO_CERTIFICATE
      | Some cert \<Rightarrow>
          if cert_uid cert \<noteq> auth_uid c \<and> auth_uid c \<noteq> 0 then Inl A_EPERM_UID_MISMATCH
          else if co_op c = CHECKSUM_ADDSIG \<and> pkey_size E (pubkey cert) + ANOUBIS_CS_LEN \<noteq> length (sigbuf c) then Inl EINVAL
          else if co_op c = CHECKSUM_ADDSIG \<and>
            \<not> verify_csum E (pubkey cert) (take ANOUBIS_CS_LEN (sigbuf c)) (drop ANOUBIS_CS_LEN (sigbuf c)) then Inl EPERM
          else Inr (key_file (co_keyid c), cert))"

definition csum_target :: "sfs_env \<Rightarrow> sfs_checksumop \<Rightarrow> errno + string \<times> cert option" where
  "csum_target E c =
     (if co_op c \<in> {CHECKSUM_ADDSUM, CHECKSUM_GET2, CHECKSUM_DEL}
      then (case uid_target c of Inl e \<Rightarrow> Inl e | Inr f \<Rightarrow> Inr (f, None))
      else if co_op c \<in> {CHECKSUM_ADDSIG, CHECKSUM_GETSIG2, CHECKSUM_DELSIG}
      then (case key_target E c of Inl e \<Rightarrow> Inl e | Inr (f, cert) \<Rightarrow> Inr (f, Some cert))
      else Inl EINVAL)"

text \<open>What a read request returns of the data in the file; signatures are verified again.\<close>

definition check_data :: "sfs_env \<Rightarrow> cert option \<Rightarrow> sfs_data \<Rightarrow> errno + sfs_data" where
  "check_data E cert d =
     (if csdata d \<noteq> [] \<and> length (csdata d) \<noteq> ANOUBIS_CS_LEN then Inl EINVAL
      else case cert of
        Some c \<Rightarrow>
          if sigdata d \<noteq> [] \<and> pkey_size E (pubkey c) \<noteq> 0
          then (if length (sigdata d) \<noteq> ANOUBIS_CS_LEN + pkey_size E (pubkey c) then Inl ENOENT
                else if \<not> verify_csum E (pubkey c) (take ANOUBIS_CS_LEN (sigdata d)) (drop ANOUBIS_CS_LEN (sigdata d)) then Inl ENOENT
                else Inr d)
          else Inr (d\<lparr>sigdata := []\<rparr>)
      | None \<Rightarrow> Inr (d\<lparr>sigdata := []\<rparr>))"

definition is_get :: "csum_op \<Rightarrow> bool" where
  "is_get opn \<longleftrightarrow> opn = CHECKSUM_GET2 \<or> opn = CHECKSUM_GETSIG2"

definition run_op :: "sfs_env \<Rightarrow> bool \<Rightarrow> sfs_checksumop \<Rightarrow> string \<Rightarrow> string \<Rightarrow> cert option \<Rightarrow> sfs_tree \<Rightarrow> sfs_data outcome \<times> sfs_tree" where
  "run_op E is_chroot c csum_file csum_path cert t =
     (let ret = (\<lambda>(r, t'). (case r of None \<Rightarrow> Ok sfs_initsfsdata | Some e \<Rightarrow> Err e, t'))
      in case co_op c of
        CHECKSUM_ADDSUM \<Rightarrow>
          if sigbuf c = [] then (Err ENOMEM, t)
          else ret (sfs_writesfsdata (fs E) csum_file csum_path (sfs_initsfsdata\<lparr>csdata := sigbuf c\<rparr>) t)
      | CHECKSUM_ADDSIG \<Rightarrow>
          if sigbuf c = [] then (Err ENOMEM, t)
          else ret (sfs_writesfsdata (fs E) csum_file csum_path (sfs_initsfsdata\<lparr>sigdata := sigbuf c\<rparr>) t)
      | CHECKSUM_DEL \<Rightarrow> ret (sfs_deletechecksum (fs E) csum_file t)
      | CHECKSUM_DELSIG \<Rightarrow> ret (sfs_deletechecksum (fs E) csum_file t)
      | _ \<Rightarrow>
          (case sfs_readsfsdata (fs E) (if is_chroot then policydir (fs E) else []) csum_file t of
             (Ok d, t') \<Rightarrow> (case check_data E cert d of Inl e \<Rightarrow> (Err e, t') | Inr d' \<Rightarrow> (Ok d', t'))
           | (r, t') \<Rightarrow> (r, t')))"

definition sfs_root :: "sfs_env \<Rightarrow> bool \<Rightarrow> string" where
  "sfs_root E is_chroot = (if is_chroot then SFS_CHECKSUMCHROOT else SFS_CHECKSUMROOT (fs E))"

text \<open>\<^verbatim>\<open>__sfs_checksumop\<close>; \<open>want\<close> tells if the caller passes a structure for the result.\<close>

definition sfs_checksumop_data :: "sfs_env \<Rightarrow> bool \<Rightarrow> bool \<Rightarrow> sfs_checksumop \<Rightarrow> sfs_tree \<Rightarrow> sfs_data outcome \<times> sfs_tree" where
  "sfs_checksumop_data E is_chroot want c t =
     (if is_get (co_op c) \<and> \<not> want then (Err EINVAL, t)
      else if \<not> is_get (co_op c) \<and> is_chroot then (Err EPERM, t)
      else if \<not> is_get (co_op c) \<and> want then (Err EINVAL, t)
      else case convert_user_path (sfs_root E is_chroot) (co_path c) False of
        Inl e \<Rightarrow> (Err e, t)
      | Inr csum_path \<Rightarrow>
          (case csum_target E c of
             Inl e \<Rightarrow> (Err e, t)
           | Inr (f, cert) \<Rightarrow> run_op E is_chroot c (csum_path @ ''/'' @ f) csum_path cert t))"

definition sfs_checksumop_chroot :: "sfs_env \<Rightarrow> sfs_checksumop \<Rightarrow> sfs_tree \<Rightarrow> sfs_data outcome \<times> sfs_tree" where
  "sfs_checksumop_chroot E c t = sfs_checksumop_data E True True c t"

text \<open>Numbers in network byte order.\<close>

definition u32n :: "int \<Rightarrow> bytes" where "u32n v = rev (le_bytes 4 v)"
definition u16n :: "int \<Rightarrow> bytes" where "u16n v = rev (le_bytes 2 v)"

definition sfs_copy_one_sig_type :: "bytes \<Rightarrow> int \<Rightarrow> bytes" where
  "sfs_copy_one_sig_type src ty = (if ty \<noteq> 0 \<and> src = [] then [] else u32n ty @ u32n (int (length src)) @ src)"

definition sfs_checksumop_buf :: "sfs_env \<Rightarrow> sfs_checksumop \<Rightarrow> sfs_tree \<Rightarrow> bytes outcome \<times> sfs_tree" where
  "sfs_checksumop_buf E c t =
     (if is_get (co_op c)
      then (case sfs_checksumop_data E False True c t of
              (Ok d, t') \<Rightarrow>
                if co_op c = CHECKSUM_GET2 \<and> csdata d = [] \<or> co_op c = CHECKSUM_GETSIG2 \<and> sigdata d = [] then (Err ENOENT, t')
                else (Ok (sfs_copy_one_sig_type (csdata d) 1 @ sfs_copy_one_sig_type (sigdata d) 2 @
                          sfs_copy_one_sig_type (upgradecsdata d) 3 @ sfs_copy_one_sig_type [] 0), t')
            | (Err e, t') \<Rightarrow> (Err e, t')
            | (Abort, t') \<Rightarrow> (Abort, t'))
      else (case sfs_checksumop_data E False False c t of
              (Ok d, t') \<Rightarrow> (Ok [], t') | (Err e, t') \<Rightarrow> (Err e, t') | (Abort, t') \<Rightarrow> (Abort, t')))"

text \<open>
  The signature of root for an upgraded file, \<^verbatim>\<open>sfs_update_signature\<close>; \<open>sign\<close> is the signature of a checksum with a
  private key. A signature is only replaced, never added.
\<close>

definition sfs_update_signature ::
  "sfs_env \<Rightarrow> (nat \<Rightarrow> bytes \<Rightarrow> bytes option) \<Rightarrow> string \<Rightarrow> cert \<Rightarrow> bytes \<Rightarrow> sfs_tree \<Rightarrow> errno option \<times> sfs_tree"
where
  "sfs_update_signature E sign path cert md t =
     (if length md \<noteq> ANOUBIS_CS_LEN then (Some EINVAL, t)
      else case privkey cert of
        None \<Rightarrow> (Some EINVAL, t)
      | Some priv \<Rightarrow>
          if keyid cert = [] then (Some EINVAL, t)
          else case convert_user_path (SFS_CHECKSUMROOT (fs E)) path False of
            Inl e \<Rightarrow> (Some e, t)
          | Inr sfs_pth \<Rightarrow>
              (let sfs_file = sfs_pth @ ''/'' @ key_file (keyid cert)
               in case sys_error (fs E) OP_STAT sfs_file of
                 Some e \<Rightarrow> (if e = ENOTDIR \<or> e = ENOENT then None else Some e, t)
               | None \<Rightarrow>
                   if \<not> is_file sfs_file t \<and> \<not> is_dir sfs_file t then (None, t)
                   else case sign priv md of
                     None \<Rightarrow> (Some EINVAL, t)
                   | Some sig \<Rightarrow>
                       if length sig \<noteq> pkey_size E priv then (Some EINVAL, t)
                       else sfs_writesfsdata (fs E) sfs_file sfs_pth (sfs_initsfsdata\<lparr>sigdata := md @ sig\<rparr>) t))"

subsection \<open>Parsing requests\<close>

definition sfs_validate_checksumop :: "sfs_env \<Rightarrow> sfs_checksumop \<Rightarrow> errno option" where
  "sfs_validate_checksumop E c =
     (if co_uid c \<noteq> auth_uid c \<and> auth_uid c \<noteq> 0 then Some EPERM
      else
        (let cert = (if co_keyid c = [] then None else cert_get_by_keyid (certs E) (co_keyid c)); fl = listflags c
         in if co_keyid c \<noteq> [] \<and> cert = None then Some A_EPERM_NO_CERTIFICATE
            else if (case cert of None \<Rightarrow> False | Some x \<Rightarrow> cert_uid x \<noteq> auth_uid c \<and> auth_uid c \<noteq> 0) then Some A_EPERM_UID_MISMATCH
            else if (case cert of None \<Rightarrow> False | Some x \<Rightarrow> auth_uid c \<noteq> co_uid c \<and> co_uid c \<noteq> cert_uid x) then Some A_EPERM_UID_MISMATCH
            else if co_op c \<in> {CHECKSUM_DEL, CHECKSUM_GET2, CHECKSUM_ADDSUM}
            then (if fl \<noteq> 0 \<or> cert \<noteq> None then Some EINVAL
                  else if co_op c = CHECKSUM_ADDSUM
                  then (if length (sigbuf c) \<noteq> ANOUBIS_CS_LEN then Some EINVAL else None)
                  else if length (sigbuf c) \<noteq> 0 then Some EINVAL else None)
            else if co_op c \<in> {CHECKSUM_GETSIG2, CHECKSUM_DELSIG, CHECKSUM_ADDSIG}
            then (if fl \<noteq> 0 then Some EINVAL
                  else if cert = None then Some EPERM
                  else if co_op c = CHECKSUM_ADDSIG
                  then (if length (sigbuf c) < ANOUBIS_CS_LEN then Some EINVAL else None)
                  else if sigbuf c \<noteq> [] then Some EINVAL else None)
            else if co_op c = CHECKSUM_LIST
            then (if fl AND NOT ANOUBIS_CSUM_FLAG_MASK \<noteq> 0 \<or> sigbuf c \<noteq> [] then Some EINVAL
                  else if flag fl ANOUBIS_CSUM_UPGRADED
                  then (if fl \<noteq> ANOUBIS_CSUM_UPGRADED OR ANOUBIS_CSUM_KEY \<or> co_keyid c = [] then Some EINVAL else None)
                  else if flag fl ANOUBIS_CSUM_WANTIDS
                  then (if \<not> flag fl ANOUBIS_CSUM_ALL then Some EINVAL
                        else if auth_uid c \<noteq> 0 then Some EPERM
                        else if co_keyid c \<noteq> [] \<or> co_uid c \<noteq> 0 then Some EINVAL else None)
                  else if flag fl ANOUBIS_CSUM_ALL
                  then (if \<not> flag fl ANOUBIS_CSUM_UID \<or> \<not> flag fl ANOUBIS_CSUM_KEY then Some EINVAL
                        else if auth_uid c \<noteq> 0 then Some EPERM
                        else if co_keyid c \<noteq> [] then Some EINVAL else None)
                  else if flag fl ANOUBIS_CSUM_KEY then (if co_keyid c = [] then Some EINVAL else None)
                  else (if co_keyid c \<noteq> [] then Some EINVAL else None))
            else Some EINVAL))"

definition be32 :: "bytes \<Rightarrow> nat \<Rightarrow> int" where "be32 b i = be_value (take 4 (drop i b))"
definition be16 :: "bytes \<Rightarrow> nat \<Rightarrow> nat" where "be16 b i = nat (be_value (take 2 (drop i b)))"

definition empty_op :: "uid \<Rightarrow> sfs_checksumop" where
  "empty_op u = \<lparr>co_op = CHECKSUM_OTHER, listflags = 0, co_uid = 0, auth_uid = u, co_keyid = [], sigbuf = [], co_path = [],
     csmulti = []\<rparr>"

text \<open>\<^verbatim>\<open>VERIFY_LENGTH\<close>: the four bytes of the checksum follow the data.\<close>

definition VERIFY_LENGTH :: "bytes \<Rightarrow> int \<Rightarrow> bool" where
  "VERIFY_LENGTH m len \<longleftrightarrow> 0 \<le> len \<and> len \<le> ANOUBIS_MESSAGE_MAXLEN \<and> int (length m) \<ge> len + CSUM_LEN"

definition sfs_parse_checksumop :: "sfs_env \<Rightarrow> bytes \<Rightarrow> uid \<Rightarrow> errno + sfs_checksumop" where
  "sfs_parse_checksumop E m auth =
     (if \<not> VERIFY_LENGTH m 18 then Inl EINVAL
      else
        (let opn = csum_op (be32 m 4);
             flags = word_of_int (be32 m 8);
             add = (opn = CHECKSUM_ADDSUM \<or> opn = CHECKSUM_ADDSIG);
             u = (if flag flags ANOUBIS_CSUM_UID \<and> \<not> flag flags ANOUBIS_CSUM_ALL then word_of_int (be32 m 12) else auth);
             idlen = be16 m 16;
             hdr = (if add then 20 else 18)
         in if add \<and> \<not> VERIFY_LENGTH m 20 then Inl EINVAL
            else
              (let plen = length m - hdr - 4;
                   siglen = (if add then be16 m 18 else 0)
               in if idlen > plen \<or> siglen > plen \<or> \<not> VERIFY_LENGTH m (int (hdr + idlen + siglen)) then Inl EINVAL
                  else
                    (let payload = drop hdr m;
                         rest = take (plen - (idlen + siglen)) (drop (idlen + siglen) payload);
                         c = (empty_op auth)\<lparr>co_op := opn,
                           co_uid := (if opn \<noteq> CHECKSUM_LIST \<and> idlen = 0 \<and> flag flags ANOUBIS_CSUM_UID
                                      then word_of_int (be32 m 12) else u),
                           listflags := (if opn = CHECKSUM_LIST then flags else 0),
                           co_keyid := take idlen payload,
                           sigbuf := take siglen (drop idlen payload)\<rparr>
                     in case abuf_tostr rest 0 of
                          None \<Rightarrow> Inl EINVAL
                        | Some path \<Rightarrow>
                            (let c' = c\<lparr>co_path := path\<rparr>
                             in case sfs_validate_checksumop E c' of Some e \<Rightarrow> Inl e | None \<Rightarrow> Inr c')))))"

text \<open>The first pass over the records of a multi request, which counts them: the offsets of the records.\<close>

function csmulti_offsets :: "bytes \<Rightarrow> nat \<Rightarrow> nat list outcome" where
  "csmulti_offsets m off =
     (case abuf_open m off of
        Ok rb \<Rightarrow>
          (case abuf_check_ptr rb 0 8 of
             Ok r \<Rightarrow>
               (let len = nat (be32 r 0)
                in if len = 0 then Ok []
                   else if len > length rb then Err EFAULT
                   else and_then (csmulti_offsets m (off + len)) (\<lambda>os. Ok (off # os)))
           | Err e \<Rightarrow> Err e | Abort \<Rightarrow> Abort)
      | Err e \<Rightarrow> Err e | Abort \<Rightarrow> Abort)"
  by pat_completeness auto
termination
  by (relation "measure (\<lambda>(m, off). length m - off)")
    (auto simp: abuf_open_def abuf_check_ptr_def abuf_check_def split: if_splits)

declare csmulti_offsets.simps [simp del]

definition csmulti_record :: "bytes \<Rightarrow> csum_op \<Rightarrow> nat \<Rightarrow> sfs_csmulti_record outcome" where
  "csmulti_record m opn off =
     and_then (abuf_open m off) (\<lambda>rb0. and_then (abuf_check_ptr rb0 0 8) (\<lambda>r.
       (let len = nat (be32 r 0); rb = abuf_limit rb0 len; cslen = be16 r 6
        in if len < 8 then Err EFAULT
           else if length rb < len then Err EFAULT
           else if cslen \<noteq> 0 \<and> \<not> (opn = CHECKSUM_ADDSUM \<and> cslen = ANOUBIS_CS_LEN \<or> opn = CHECKSUM_ADDSIG \<and> cslen \<ge> ANOUBIS_CS_LEN)
           then Err EINVAL
           else if cslen = 0 \<and> (opn = CHECKSUM_ADDSUM \<or> opn = CHECKSUM_ADDSIG) then Err EINVAL
           else and_then (abuf_open rb 8) (\<lambda>pbuf.
             if length (abuf_limit pbuf cslen) \<noteq> cslen then Err EFAULT
             else case abuf_tostr rb (8 + cslen) of
               None \<Rightarrow> Err EFAULT
             | Some path \<Rightarrow> Ok \<lparr>mr_index = be16 r 4, mr_csdata = abuf_limit pbuf cslen, mr_path = path\<rparr>))))"

fun csmulti_records :: "bytes \<Rightarrow> csum_op \<Rightarrow> nat list \<Rightarrow> sfs_csmulti_record list outcome" where
  "csmulti_records m opn [] = Ok []"
| "csmulti_records m opn (off # offs) =
     and_then (csmulti_record m opn off) (\<lambda>r. and_then (csmulti_records m opn offs) (\<lambda>rs. Ok (r # rs)))"

definition csmulti_rights :: "sfs_env \<Rightarrow> sfs_checksumop \<Rightarrow> errno option" where
  "csmulti_rights E c =
     (if co_keyid c \<noteq> []
      then (case cert_get_by_keyid (certs E) (co_keyid c) of
              None \<Rightarrow> Some A_EPERM_NO_CERTIFICATE
            | Some x \<Rightarrow> if cert_uid x \<noteq> auth_uid c \<and> auth_uid c \<noteq> 0 then Some A_EPERM_UID_MISMATCH else None)
      else if co_uid c \<noteq> auth_uid c \<and> auth_uid c \<noteq> 0 then Some EPERM else None)"

definition sfs_parse_csmulti :: "sfs_env \<Rightarrow> bytes \<Rightarrow> uid \<Rightarrow> sfs_checksumop outcome" where
  "sfs_parse_csmulti E m auth =
     and_then (abuf_check_ptr m 0 16) (\<lambda>req.
       (let opn = csum_op (be32 req 4); u = word_of_int (be32 req 8) :: uid; idlen = be16 req 12
        in if be32 req 0 \<noteq> ANOUBIS_P_CSMULTIREQUEST then Err EINVAL
           else if opn = CHECKSUM_LIST \<or> opn = CHECKSUM_OTHER then Err EINVAL
           else if idlen \<noteq> 0 \<and> u \<noteq> 0 then Err EINVAL
           else and_then (abuf_open m 16) (\<lambda>kbuf.
             if idlen \<noteq> 0 \<and> length kbuf < idlen then Err EFAULT
             else
               (let c = (empty_op auth)\<lparr>co_op := opn, co_uid := u, co_keyid := abuf_limit kbuf idlen\<rparr>
                in case csmulti_rights E c of
                     Some e \<Rightarrow> Err e
                   | None \<Rightarrow>
                       and_then (csmulti_offsets m (16 + idlen)) (\<lambda>offs.
                         and_then (csmulti_records m opn offs) (\<lambda>rs. Ok (c\<lparr>csmulti := rs\<rparr>)))))))"

subsection \<open>Listing\<close>

definition check_for :: "sfs_env \<Rightarrow> string \<Rightarrow> string \<Rightarrow> string \<Rightarrow> u32 \<Rightarrow> bool \<Rightarrow> sfs_tree \<Rightarrow> bool outcome \<times> sfs_tree" where
  "check_for E sfs_pth entryname idname fl check_for_index t =
     (let upgrade_only = flag fl ANOUBIS_CSUM_UPGRADED;
          file = sfs_pth @ ''/'' @ entryname @ ''/'' @ (if check_for_index then ''.*u_'' else []) @ idname
      in if check_for_index \<and> \<not> upgrade_only then (Ok True, t)
         else if sys_error (fs E) OP_STAT file \<noteq> None \<or> \<not> is_file file t then (Ok False, t)
         else if check_for_index then (Ok True, t)
         else if upgrade_only then sfs_upgraded (fs E) file t
         else (Ok True, t))"

definition sfs_check_for_uid :: "sfs_env \<Rightarrow> string \<Rightarrow> string \<Rightarrow> uid \<Rightarrow> u32 \<Rightarrow> bool \<Rightarrow> sfs_tree \<Rightarrow> bool outcome \<times> sfs_tree" where
  "sfs_check_for_uid E sfs_pth entryname u fl idx t = check_for E sfs_pth entryname (uid_file u) fl idx t"

text \<open>An empty key makes the conversion to a string fail, which ends the master.\<close>

definition sfs_check_for_key :: "sfs_env \<Rightarrow> string \<Rightarrow> string \<Rightarrow> bytes \<Rightarrow> u32 \<Rightarrow> bool \<Rightarrow> sfs_tree \<Rightarrow> bool outcome \<times> sfs_tree" where
  "sfs_check_for_key E sfs_pth entryname k fl idx t =
     (if idx \<and> \<not> flag fl ANOUBIS_CSUM_UPGRADED then (Ok True, t)
      else if k = [] then (Abort, t)
      else check_for E sfs_pth entryname (key_file k) fl idx t)"

definition sfs_wantentry :: "sfs_env \<Rightarrow> sfs_checksumop \<Rightarrow> string \<Rightarrow> string \<Rightarrow> sfs_tree \<Rightarrow> bool outcome \<times> sfs_tree" where
  "sfs_wantentry E c sfs_pth n t =
     (let fl = listflags c
      in if n = ''.'' \<or> n = ''..'' \<or> take 2 n = ''.*'' then (Ok False, t)
         else if flag fl ANOUBIS_CSUM_WANTIDS
         then (Ok (n \<noteq> [] \<and> (is_digit (hd n) \<and> flag fl ANOUBIS_CSUM_UID \<or> hd n = CHR ''k'' \<and> flag fl ANOUBIS_CSUM_KEY)), t)
         else if flag fl ANOUBIS_CSUM_ALL then (Ok True, t)
         else
           (let idx = even (length (takeWhile (\<lambda>ch. ch = CHR ''*'') n))
            in case (if flag fl ANOUBIS_CSUM_UID then sfs_check_for_uid E sfs_pth n (co_uid c) fl idx t else (Ok False, t)) of
                 (Ok True, t1) \<Rightarrow> (Ok True, t1)
               | (Ok False, t1) \<Rightarrow>
                   (if flag fl ANOUBIS_CSUM_KEY then sfs_check_for_key E sfs_pth n (co_keyid c) fl idx t1 else (Ok False, t1))
               | (r, t1) \<Rightarrow> (r, t1)))"

definition sfs_remove_index :: "sfs_env \<Rightarrow> string \<Rightarrow> sfs_checksumop \<Rightarrow> sfs_tree \<Rightarrow> sfs_tree" where
  "sfs_remove_index E path c t =
     (let fl = listflags c
      in if \<not> flag fl ANOUBIS_CSUM_UPGRADED \<or> flag fl (ANOUBIS_CSUM_ALL OR ANOUBIS_CSUM_WANTIDS) then t
         else
           (let t1 = (if flag fl ANOUBIS_CSUM_UID
                      then snd (sfs_deletechecksum (fs E) (path @ ''/.*u_'' @ uid_file (co_uid c)) t) else t)
            in if flag fl ANOUBIS_CSUM_KEY
               then snd (sfs_deletechecksum (fs E) (path @ ''/.*u_'' @ key_file (co_keyid c)) t1) else t1))"

subsection \<open>The master\<close>

datatype csum_reply_type = ANOUBISD_MSG_CHECKSUMREPLY | ANOUBISD_MSG_CSMULTIREPLY

record csumreply =
  cr_type :: csum_reply_type
  cr_token :: u64
  cr_start :: bool
  cr_end :: bool
  cr_reply :: int
  cr_data :: bytes

record master =
  mtree :: sfs_tree
  m2p :: "sfscache_invalidate list"
  m2s :: "csumreply list"

definition send_sfscache_invalidate_uid :: "string \<Rightarrow> uid \<Rightarrow> sfscache_invalidate" where
  "send_sfscache_invalidate_uid path u =
     \<lparr>inv_uid = u, inv_keylen = 0, inv_plen = length path + 1, inv_payload = path @ [NUL]\<rparr>"

definition send_sfscache_invalidate_key :: "string \<Rightarrow> bytes \<Rightarrow> sfscache_invalidate" where
  "send_sfscache_invalidate_key path k =
     (let keyidstr = concat (map hex_byte k)
      in \<lparr>inv_uid = no_uid, inv_keylen = length keyidstr + 1, inv_plen = length path + 1,
          inv_payload = path @ [NUL] @ keyidstr @ [NUL]\<rparr>)"

definition send_sfscache_invalidate :: "sfs_checksumop \<Rightarrow> sfscache_invalidate list" where
  "send_sfscache_invalidate c =
     (if co_op c = CHECKSUM_ADDSUM \<or> co_op c = CHECKSUM_DEL then [send_sfscache_invalidate_uid (co_path c) (co_uid c)]
      else if co_op c = CHECKSUM_ADDSIG \<or> co_op c = CHECKSUM_DELSIG then [send_sfscache_invalidate_key (co_path c) (co_keyid c)]
      else [])"

text \<open>The reply to a list request; a name that is not properly escaped has no defined result.\<close>

definition LIST_CHUNK :: nat where "LIST_CHUNK = 8000"

definition entry_name :: "bool \<Rightarrow> string \<Rightarrow> string outcome" where
  "entry_name wantids n =
     (if wantids then Ok n
      else case remove_escape_seq n of
        Some cs \<Rightarrow> if None \<in> set cs then Abort else Ok (map the cs)
      | None \<Rightarrow> Abort)"

definition list_reply :: "u64 \<Rightarrow> bool \<Rightarrow> bool \<Rightarrow> int \<Rightarrow> bytes \<Rightarrow> csumreply" where
  "list_reply tok st en err d =
     \<lparr>cr_type = ANOUBISD_MSG_CHECKSUMREPLY, cr_token = tok, cr_start = st, cr_end = en, cr_reply = err, cr_data = d\<rparr>"

fun list_loop ::
  "sfs_env \<Rightarrow> sfs_checksumop \<Rightarrow> string \<Rightarrow> u64 \<Rightarrow> string list \<Rightarrow> bool \<Rightarrow> bytes \<Rightarrow> bool \<Rightarrow> sfs_tree \<Rightarrow> (csumreply list \<times> bool) outcome \<times> sfs_tree"
where
  "list_loop E c sfs_pth tok [] st buf found t = (Ok ([list_reply tok st True 0 buf], found), t)"
| "list_loop E c sfs_pth tok (n # ns) st buf found t =
     (case sfs_wantentry E c sfs_pth n t of
        (Abort, t1) \<Rightarrow> (Abort, t1)
      | (Err e, t1) \<Rightarrow> (Err e, t1)
      | (Ok False, t1) \<Rightarrow> list_loop E c sfs_pth tok ns st buf found t1
      | (Ok True, t1) \<Rightarrow>
          (case entry_name (flag (listflags c) ANOUBIS_CSUM_WANTIDS) n of
             Ok name \<Rightarrow>
               (let tmp = map char_byte name @ [0];
                    full = length buf + length tmp > LIST_CHUNK;
                    sent = (if full then [list_reply tok st False 0 buf] else []);
                    buf' = (if full then [] else buf); st' = (st \<and> \<not> full)
                in if length buf' + length tmp > LIST_CHUNK
                   then (Ok (sent @ [list_reply tok st' True (errno_code ENAMETOOLONG) []], True), t1)
                   else case list_loop E c sfs_pth tok ns st' (buf' @ tmp) True t1 of
                     (Ok (rs, f), t2) \<Rightarrow> (Ok (sent @ rs, f), t2)
                   | (r, t2) \<Rightarrow> (r, t2))
           | Err e \<Rightarrow> (Err e, t1)
           | Abort \<Rightarrow> (Abort, t1)))"

definition sfs_checksumop_list :: "sfs_env \<Rightarrow> sfs_checksumop \<Rightarrow> u64 \<Rightarrow> master \<Rightarrow> master outcome" where
  "sfs_checksumop_list E c tok m =
     (let fail = (\<lambda>e. Ok (m\<lparr>m2s := m2s m @ [list_reply tok True True e []]\<rparr>))
      in if co_op c \<noteq> CHECKSUM_LIST then fail (errno_code EINVAL)
         else case convert_user_path (SFS_CHECKSUMROOT (fs E)) (co_path c) (\<not> flag (listflags c) ANOUBIS_CSUM_WANTIDS) of
           Inl e \<Rightarrow> fail (errno_code e)
         | Inr sfs_pth \<Rightarrow>
             (case sys_error (fs E) OP_OPENDIR sfs_pth of
                Some e \<Rightarrow> fail (if e = ENOENT \<or> e = ENOTDIR then 0 else errno_code e)
              | None \<Rightarrow>
                  if \<not> is_dir sfs_pth (mtree m) then fail 0
                  else case list_loop E c sfs_pth tok (readdir sfs_pth (mtree m)) True [] False (mtree m) of
                    (Ok (rs, found), t1) \<Rightarrow>
                      Ok (m\<lparr>m2s := m2s m @ rs, mtree := (if found then t1 else sfs_remove_index E sfs_pth c t1)\<rparr>)
                  | (Err e, t1) \<Rightarrow> Err e
                  | (Abort, t1) \<Rightarrow> Abort))"

definition dispatch_checksumop :: "sfs_env \<Rightarrow> u64 \<Rightarrow> uid \<Rightarrow> bytes \<Rightarrow> master \<Rightarrow> master outcome" where
  "dispatch_checksumop E tok u msg m =
     (let reply = (\<lambda>e d m. m\<lparr>m2s := m2s m @ [list_reply tok True True e d]\<rparr>)
      in case sfs_parse_checksumop E msg u of
        Inl e \<Rightarrow> Ok (reply (errno_code e) [] m)
      | Inr c \<Rightarrow>
          if co_op c = CHECKSUM_LIST then sfs_checksumop_list E c tok m
          else if co_op c = CHECKSUM_OTHER then Ok (reply (errno_code EINVAL) [] m)
          else (case sfs_checksumop_buf E c (mtree m) of
                  (Err e, t') \<Rightarrow> Ok (reply (errno_code e) [] (m\<lparr>mtree := t'\<rparr>))
                | (Ok b, t') \<Rightarrow> Ok (reply 0 b (m\<lparr>mtree := t', m2p := m2p m @ send_sfscache_invalidate c\<rparr>))
                | (Abort, t') \<Rightarrow> Abort))"

text \<open>Multi requests: results of the records until the reply has 16000 bytes.\<close>

definition MULTI_LIMIT :: nat where "MULTI_LIMIT = 16000"

fun csmulti_loop ::
  "sfs_env \<Rightarrow> sfs_checksumop \<Rightarrow> sfs_csmulti_record list \<Rightarrow> nat \<Rightarrow> sfs_tree \<Rightarrow>
   ((nat \<times> int \<times> bytes) list \<times> sfscache_invalidate list) outcome \<times> sfs_tree"
where
  "csmulti_loop E c [] totallen t = (Ok ([], []), t)"
| "csmulti_loop E c (rec # recs) totallen t =
     (let c' = c\<lparr>co_path := mr_path rec, sigbuf := mr_csdata rec\<rparr>
      in case sfs_checksumop_buf E c' t of
        (Abort, t1) \<Rightarrow> (Abort, t1)
      | (r, t1) \<Rightarrow>
          (let (err, buf, inv) = (case r of Ok b \<Rightarrow> (0, b, send_sfscache_invalidate c') | Err e \<Rightarrow> (errno_code e, [], []) | Abort \<Rightarrow> (0, [], []));
               totallen' = totallen + 8 + length buf
           in if totallen' > MULTI_LIMIT then (Ok ([(mr_index rec, err, buf)], inv), t1)
              else case csmulti_loop E c recs totallen' t1 of
                (Ok (rs, invs), t2) \<Rightarrow> (Ok ((mr_index rec, err, buf) # rs, inv @ invs), t2)
              | (x, t2) \<Rightarrow> (x, t2)))"

definition csmulti_reply_record :: "nat \<times> int \<times> bytes \<Rightarrow> bytes" where
  "csmulti_reply_record r =
     (case r of (i, err, buf) \<Rightarrow> u16n (int (8 + length buf)) @ u16n (int i) @ u32n err @ buf)"

definition csmulti_reply :: "int \<Rightarrow> (nat \<times> int \<times> bytes) list \<Rightarrow> bytes" where
  "csmulti_reply opn rs =
     u32n 0x3111 @ u32n opn @ u32n 0 @ concat (map csmulti_reply_record rs) @ u16n 0 @ u16n 0 @ u32n 0"

definition sfs_process_csmulti :: "sfs_env \<Rightarrow> int \<Rightarrow> sfs_checksumop \<Rightarrow> u64 \<Rightarrow> master \<Rightarrow> master outcome" where
  "sfs_process_csmulti E opn c tok m =
     (case csmulti_loop E c (take 1000 (csmulti c)) 12 (mtree m) of
        (Ok (rs, invs), t') \<Rightarrow>
          Ok (m\<lparr>mtree := t', m2p := m2p m @ invs,
                m2s := m2s m @ [\<lparr>cr_type = ANOUBISD_MSG_CSMULTIREPLY, cr_token = tok, cr_start = True, cr_end = True,
                   cr_reply = 0, cr_data = csmulti_reply opn rs\<rparr>]\<rparr>)
      | (Err e, t') \<Rightarrow> Err e
      | (Abort, t') \<Rightarrow> Abort)"

definition dispatch_csmulti_request :: "sfs_env \<Rightarrow> u64 \<Rightarrow> uid \<Rightarrow> bytes \<Rightarrow> master \<Rightarrow> master outcome" where
  "dispatch_csmulti_request E tok u msg m =
     (case sfs_parse_csmulti E msg u of
        Abort \<Rightarrow> Abort
      | Err e \<Rightarrow>
          Ok (m\<lparr>m2s := m2s m @ [\<lparr>cr_type = ANOUBISD_MSG_CSMULTIREPLY, cr_token = tok, cr_start = True, cr_end = True,
             cr_reply = errno_code e, cr_data = []\<rparr>]\<rparr>)
      | Ok c \<Rightarrow> sfs_process_csmulti E (be32 msg 4) c tok m)"

text \<open>
  The session engine forwards a request of a client (\<^verbatim>\<open>dispatch_csmulti\<close>, \<^verbatim>\<open>dispatch_checksum\<close>) if the size
  function accepts the message and leaves at most eight bytes unused.
\<close>

definition session_accepts :: "bytes \<Rightarrow> bool" where
  "session_accepts m \<longleftrightarrow>
     (case amsg_sfs_checksumop_size m 0 (int (length m)) of
        None \<Rightarrow> False
      | Some reallen \<Rightarrow> 0 \<le> reallen \<and> reallen \<le> int (length m) \<and> reallen + 8 \<ge> int (length m))"

end
