(* ===== verification/Checksums.thy ===== *)
theory Checksums
  imports ChecksumOp
begin

text \<open>
  What checksum requests do: the changes that a request makes in the SFS tree, who may make them, and the
  coherence of the policy engine's cache with the tree.
\<close>

subsection \<open>The changes of an operation\<close>

definition transient :: "string \<Rightarrow> bool" where
  "transient f \<longleftrightarrow> index_file f \<or> (\<exists>g. f = g @ ''.tmp'')"

lemma scratch_transient: "scratch f g \<Longrightarrow> transient g"
  by (auto simp: scratch_def transient_def)

lemma plain_not_transient: "plain n \<Longrightarrow> n \<noteq> [] \<Longrightarrow> \<not> transient (d @ CHR ''/'' # n)"
proof
  assume n: "plain n" "n \<noteq> []" and t: "transient (d @ CHR ''/'' # n)"
  have ns: "CHR ''/'' \<notin> set n" using n by (auto simp: plain_def)
  from t consider a b where "d @ CHR ''/'' # n = a @ ''/.*u_'' @ b" "CHR ''/'' \<notin> set b" | g where "d @ CHR ''/'' # n = g @ ''.tmp''"
    by (auto simp: transient_def index_file_def)
  then show False
  proof cases
    case 1
    then have "n = ''.*u_'' @ b" using file_name_inj [of d n a "''.*u_'' @ b"] ns by simp
    with n show False by (simp add: plain_def)
  next
    case 2
    then have "(d @ ''/'') @ n = g @ ''.tmp''" by simp
    then consider us where "d @ ''/'' = g @ us" "us @ n = ''.tmp''" | us where "n = us @ ''.tmp''"
      unfolding append_eq_append_conv2 by blast
    then have "CHR ''.'' \<in> set n"
    proof cases
      case 1
      show ?thesis
      proof (cases us rule: rev_cases)
        case (snoc vs v)
        with 1 have "v = CHR ''/''" by simp
        moreover have "v \<in> set ''.tmp''" unfolding 1(2) [symmetric] by (simp add: snoc)
        ultimately show ?thesis by simp
      qed (use 1 in simp)
    qed simp
    with n show False unfolding plain_def by blast
  qed
qed

text \<open>The contents of the target file after a successful change.\<close>

definition new_contents :: "sfs_checksumop \<Rightarrow> bytes option" where
  "new_contents c =
     (if co_op c = CHECKSUM_ADDSUM then Some (concat (sfsdata_chunks (sfs_initsfsdata\<lparr>csdata := sigbuf c\<rparr>)))
      else if co_op c = CHECKSUM_ADDSIG then Some (concat (sfsdata_chunks (sfs_initsfsdata\<lparr>sigdata := sigbuf c\<rparr>)))
      else None)"

definition changes_target :: "sfs_env \<Rightarrow> sfs_checksumop \<Rightarrow> sfs_tree \<Rightarrow> sfs_tree \<Rightarrow> bool" where
  "changes_target E c t t' \<longleftrightarrow>
     (\<exists>dir name cert. convert_user_path (SFS_CHECKSUMROOT (fs E)) (co_path c) False = Inr dir \<and>
        csum_target E c = Inr (name, cert) \<and> \<not> is_get (co_op c) \<and>
        same_except (\<lambda>f. f = dir @ ''/'' @ name \<or> transient f) t t' \<and>
        map_of (files t') (dir @ ''/'' @ name) = new_contents c)"

lemma read_files: "files (snd (sfs_readsfsdata E jail f t)) = files t"
  by (simp add: sfs_readsfsdata_def split: option.splits prod.splits)

lemma run_op_effect:
  assumes "run_op E False c f dir cert t = (r, t')" "csum_target E c = Inr (n, cert)"
  shows "(\<exists>d. r = Ok d) \<and> \<not> is_get (co_op c) \<and> same_except (\<lambda>g. g = f \<or> transient g) t t' \<and> map_of (files t') f = new_contents c \<or>
    ((\<exists>d. r = Ok d) \<longrightarrow> is_get (co_op c)) \<and> same_except transient t t'"
proof -
  have w: "(case x of None \<Rightarrow> same_except (\<lambda>g. g = f \<or> transient g) t t1 \<and> map_of (files t1) f = Some (concat (sfsdata_chunks d))
      | Some e \<Rightarrow> same_except transient t t1)" if "sfs_writesfsdata (fs E) f dir d t = (x, t1)" for d x t1
    using sfs_write_written [OF that] scratch_transient
    by (auto simp: written_def same_except_def split: option.splits)
  have d: "(case x of None \<Rightarrow> same_except (\<lambda>g. g = f \<or> transient g) t t1 \<and> map_of (files t1) f = None
      | Some e \<Rightarrow> same_except transient t t1)" if "sfs_deletechecksum (fs E) f t = (x, t1)" for x t1
    using sfs_delete_same [OF that] by (auto simp: same_except_def split: option.splits if_splits)
  have rd: "same_except transient t t1" if "sfs_readsfsdata (fs E) [] f t = (x, t1)" for x t1
    using read_files [of "fs E" "[]" f t] that by (simp add: same_files)
  obtain x t1 where x: "sfs_writesfsdata (fs E) f dir (sfs_initsfsdata\<lparr>csdata := sigbuf c\<rparr>) t = (x, t1)" by fastforce
  obtain y t2 where y: "sfs_writesfsdata (fs E) f dir (sfs_initsfsdata\<lparr>sigdata := sigbuf c\<rparr>) t = (y, t2)" by fastforce
  obtain z t3 where z: "sfs_deletechecksum (fs E) f t = (z, t3)" by fastforce
  obtain q t4 where q: "sfs_readsfsdata (fs E) [] f t = (q, t4)" by fastforce
  show ?thesis
  proof (cases "co_op c")
    case CHECKSUM_ADDSUM
    with assms(1) x w [OF x] show ?thesis by (cases x) (auto simp: run_op_def is_get_def new_contents_def split: if_splits)
  next
    case CHECKSUM_ADDSIG
    with assms(1) y w [OF y] show ?thesis by (cases y) (auto simp: run_op_def is_get_def new_contents_def split: if_splits)
  next
    case CHECKSUM_DEL
    with assms(1) z d [OF z] show ?thesis by (cases z) (auto simp: run_op_def is_get_def new_contents_def)
  next
    case CHECKSUM_DELSIG
    with assms(1) z d [OF z] show ?thesis by (cases z) (auto simp: run_op_def is_get_def new_contents_def)
  next
    case CHECKSUM_GET2
    with assms(1) q rd [OF q] show ?thesis by (auto simp: run_op_def is_get_def split: outcome.splits sum.splits)
  next
    case CHECKSUM_GETSIG2
    with assms(1) q rd [OF q] show ?thesis by (auto simp: run_op_def is_get_def split: outcome.splits sum.splits)
  qed (use assms(2) in \<open>simp_all add: csum_target_def\<close>)
qed

lemma checksumop_data_effect:
  assumes "sfs_checksumop_data E False w c t = (r, t')"
  shows "(\<exists>d. r = Ok d) \<and> changes_target E c t t' \<or> ((\<exists>d. r = Ok d) \<longrightarrow> is_get (co_op c)) \<and> same_except transient t t'"
proof (cases "\<exists>dir n cert. convert_user_path (SFS_CHECKSUMROOT (fs E)) (co_path c) False = Inr dir \<and> csum_target E c = Inr (n, cert) \<and>
    run_op E False c (dir @ ''/'' @ n) dir cert t = (r, t')")
  case True
  then obtain dir n cert where a: "convert_user_path (SFS_CHECKSUMROOT (fs E)) (co_path c) False = Inr dir"
    "csum_target E c = Inr (n, cert)" "run_op E False c (dir @ ''/'' @ n) dir cert t = (r, t')" by blast
  from run_op_effect [OF a(3,2)] a(1,2) show ?thesis unfolding changes_target_def by blast
next
  case False
  with assms show ?thesis
    by (auto simp: sfs_checksumop_data_def sfs_root_def split: if_splits sum.splits)
qed

lemma checksumop_buf_effect:
  assumes "sfs_checksumop_buf E c t = (r, t')"
  shows "(\<exists>b. r = Ok b) \<and> changes_target E c t t' \<or> ((\<exists>b. r = Ok b) \<longrightarrow> is_get (co_op c)) \<and> same_except transient t t'"
proof -
  obtain x t1 where x: "sfs_checksumop_data E False (is_get (co_op c)) c t = (x, t1)" by fastforce
  have "t' = t1" "(\<exists>b. r = Ok b) \<longrightarrow> (\<exists>d. x = Ok d)" "\<not> is_get (co_op c) \<Longrightarrow> (\<exists>d. x = Ok d) \<longrightarrow> (\<exists>b. r = Ok b)"
    using assms x by (auto simp: sfs_checksumop_buf_def split: if_splits outcome.splits)
  moreover have "changes_target E c t t1 \<Longrightarrow> \<not> is_get (co_op c)" by (auto simp: changes_target_def)
  ultimately show ?thesis using checksumop_data_effect [OF x] by blast
qed

subsection \<open>Rights\<close>

text \<open>
  The user may give this file these contents: the file with the own checksums, or with the signatures of the own
  key, for root of any user or key; a signature must be valid.
\<close>

definition authorised :: "sfs_env \<Rightarrow> uid \<Rightarrow> string \<Rightarrow> bytes option \<Rightarrow> bool" where
  "authorised E u f v \<longleftrightarrow>
     (\<exists>p dir. convert_user_path (SFS_CHECKSUMROOT (fs E)) p False = Inr dir \<and>
       ((\<exists>w. f = dir @ ''/'' @ uid_file w \<and> (u = w \<or> u = 0) \<and>
          (\<forall>b. v = Some b \<longrightarrow> (\<exists>s. length s = ANOUBIS_CS_LEN \<and> b = concat (sfsdata_chunks (sfs_initsfsdata\<lparr>csdata := s\<rparr>))))) \<or>
        (\<exists>k cert. f = dir @ ''/'' @ key_file k \<and> cert_get_by_keyid (certs E) k = Some cert \<and> (u = cert_uid cert \<or> u = 0) \<and>
          (\<forall>b. v = Some b \<longrightarrow> (\<exists>s. verify_csum E (pubkey cert) (take ANOUBIS_CS_LEN s) (drop ANOUBIS_CS_LEN s) \<and>
             b = concat (sfsdata_chunks (sfs_initsfsdata\<lparr>sigdata := s\<rparr>)))))))"

definition changes_ok :: "sfs_env \<Rightarrow> uid \<Rightarrow> sfs_tree \<Rightarrow> sfs_tree \<Rightarrow> bool" where
  "changes_ok E u t t' \<longleftrightarrow>
     (\<forall>f. map_of (files t') f \<noteq> map_of (files t) f \<longrightarrow> transient f \<or> authorised E u f (map_of (files t') f))"

lemma changes_ok_trans: "changes_ok E u t t' \<Longrightarrow> changes_ok E u t' t'' \<Longrightarrow> changes_ok E u t t''"
  unfolding changes_ok_def by metis

lemma transient_changes_ok: "same_except transient t t' \<Longrightarrow> changes_ok E u t t'"
  by (auto simp: changes_ok_def same_except_def)

lemma target_authorised:
  assumes "convert_user_path (SFS_CHECKSUMROOT (fs E)) (co_path c) False = Inr dir" "csum_target E c = Inr (n, cert)"
  shows "authorised E (auth_uid c) (dir @ ''/'' @ n) (new_contents c)"
proof (cases "co_op c \<in> {CHECKSUM_ADDSUM, CHECKSUM_GET2, CHECKSUM_DEL}")
  case True
  then have t: "uid_target c = Inr n" using assms(2) by (auto simp: csum_target_def split: sum.splits)
  then have "n = uid_file (co_uid c)" "auth_uid c = co_uid c \<or> auth_uid c = 0"
    "new_contents c = Some b \<Longrightarrow> length (sigbuf c) = ANOUBIS_CS_LEN \<and> b = concat (sfsdata_chunks (sfs_initsfsdata\<lparr>csdata := sigbuf c\<rparr>))" for b
    using True by (auto simp: uid_target_def new_contents_def split: if_splits)
  with assms(1) show ?thesis unfolding authorised_def by blast
next
  case False
  then obtain x where t: "key_target E c = Inr (n, x)" and o: "co_op c \<in> {CHECKSUM_ADDSIG, CHECKSUM_GETSIG2, CHECKSUM_DELSIG}"
    using assms(2) by (auto simp: csum_target_def split: sum.splits if_splits)
  then have "n = key_file (co_keyid c)" "cert_get_by_keyid (certs E) (co_keyid c) = Some x" "auth_uid c = cert_uid x \<or> auth_uid c = 0"
    "new_contents c = Some b \<Longrightarrow> verify_csum E (pubkey x) (take ANOUBIS_CS_LEN (sigbuf c)) (drop ANOUBIS_CS_LEN (sigbuf c)) \<and>
       b = concat (sfsdata_chunks (sfs_initsfsdata\<lparr>sigdata := sigbuf c\<rparr>))" for b
    by (auto simp: key_target_def new_contents_def split: if_splits option.splits)
  with assms(1) show ?thesis unfolding authorised_def by blast
qed

lemma changes_target_ok: "changes_target E c t t' \<Longrightarrow> changes_ok E (auth_uid c) t t'"
proof -
  assume "changes_target E c t t'"
  then obtain dir n cert where a: "convert_user_path (SFS_CHECKSUMROOT (fs E)) (co_path c) False = Inr dir" "csum_target E c = Inr (n, cert)"
    "same_except (\<lambda>f. f = dir @ ''/'' @ n \<or> transient f) t t'" "map_of (files t') (dir @ ''/'' @ n) = new_contents c"
    by (auto simp: changes_target_def)
  from target_authorised [OF a(1,2)] a(3,4) show ?thesis unfolding changes_ok_def same_except_def by metis
qed

lemma buf_changes_ok: "sfs_checksumop_buf E c t = (r, t') \<Longrightarrow> changes_ok E (auth_uid c) t t'"
  using checksumop_buf_effect changes_target_ok transient_changes_ok by metis

lemma loop_changes_ok: "csmulti_loop E c recs n t = (r, t') \<Longrightarrow> changes_ok E (auth_uid c) t t'"
proof (induction recs arbitrary: n t r t')
  case Nil
  then show ?case by (auto intro: transient_changes_ok)
next
  case (Cons rec recs)
  let ?c = "c\<lparr>co_path := mr_path rec, sigbuf := mr_csdata rec\<rparr>"
  obtain x t1 where x: "sfs_checksumop_buf E ?c t = (x, t1)" by fastforce
  have s: "changes_ok E (auth_uid c) t t1" using buf_changes_ok [OF x] by simp
  have "t' = t1 \<or> (\<exists>m y. csmulti_loop E c recs m t1 = (y, t'))"
    using Cons.prems x by (cases x) (auto simp: Let_def split: if_splits prod.splits outcome.splits)
  with s changes_ok_trans Cons.IH show ?case by blast
qed

text \<open>The list request only removes index files; what it reads does not change the files.\<close>

lemma upgraded_files: "files (snd (sfs_upgraded E f t)) = files t"
  using read_files [of E "[]" f t] by (auto simp: sfs_upgraded_def split: outcome.splits prod.splits)

lemma check_for_files: "files (snd (check_for E d n i fl idx t)) = files t"
  using upgraded_files by (simp add: check_for_def Let_def)

lemma wantentry_files: "sfs_wantentry E c d n t = (r, t') \<Longrightarrow> files t' = files t"
proof -
  assume a: "sfs_wantentry E c d n t = (r, t')"
  have k: "files (snd (sfs_check_for_key E d n k fl i t1)) = files t1" for k fl i t1
    using check_for_files by (simp add: sfs_check_for_key_def)
  have u: "files (snd (sfs_check_for_uid E d n u fl i t1)) = files t1" for u fl i t1
    using check_for_files by (simp add: sfs_check_for_uid_def)
  define q where "q = (if flag (listflags c) ANOUBIS_CSUM_UID
    then sfs_check_for_uid E d n (co_uid c) (listflags c) (even (length (takeWhile (\<lambda>ch. ch = CHR ''*'') n))) t else (Ok False, t))"
  have "files (snd q) = files t" using u by (simp add: q_def)
  then show ?thesis using a k u
    by (auto simp: sfs_wantentry_def Let_def q_def [symmetric] split: if_splits outcome.splits bool.splits prod.splits) (metis snd_conv)+
qed

lemma list_loop_files: "list_loop E c d tok ns st buf found t = (r, t') \<Longrightarrow> files t' = files t"
proof (induction ns arbitrary: st buf found t r t')
  case (Cons n ns)
  obtain x t1 where x: "sfs_wantentry E c d n t = (x, t1)" by fastforce
  have "files t1 = files t" by (rule wantentry_files [OF x])
  moreover have "t' = t1 \<or> (\<exists>st' buf' f' r'. list_loop E c d tok ns st' buf' f' t1 = (r', t'))"
    using Cons.prems x by (auto simp: Let_def split: if_splits prod.splits outcome.splits bool.splits)
  ultimately show ?case using Cons.IH by metis
qed auto

lemma remove_index_same: "same_except transient t (sfs_remove_index E d c t)"
proof -
  have del: "same_except transient t1 (snd (sfs_deletechecksum (fs E) (d @ ''/.*u_'' @ n) t1))" if "plain n" for n t1
  proof -
    have "transient (d @ ''/.*u_'' @ n)" using that by (auto simp: transient_def index_file_def plain_def)
    then show ?thesis
      using sfs_delete_same [of "fs E" "d @ ''/.*u_'' @ n" t1] by (cases "sfs_deletechecksum (fs E) (d @ ''/.*u_'' @ n) t1")
        (auto simp: same_except_def split: if_splits, metis)
  qed
  then show ?thesis
    using plain_uid_file [of "co_uid c"] plain_key_file [of "co_keyid c"] same_except_trans [OF del [of "uid_file (co_uid c)" t] del]
    by (simp add: sfs_remove_index_def Let_def)
qed

lemma list_changes_ok: "sfs_checksumop_list E c tok m = Ok m' \<Longrightarrow> same_except transient (mtree m) (mtree m')"
proof -
  assume a: "sfs_checksumop_list E c tok m = Ok m'"
  have h: "same_except transient t (sfs_remove_index E d c t1)" if "files t1 = files t" for t t1 d
    using remove_index_same [of t1 E d c] that by (simp add: same_except_def)
  have l: "files t1 = files (mtree m)" if "list_loop E c d tok ns True [] False (mtree m) = (r, t1)" for d ns r t1
    using list_loop_files [OF that] .
  from a show ?thesis
    by (auto simp: sfs_checksumop_list_def Let_def split: if_splits sum.splits option.splits prod.splits outcome.splits
        dest!: l intro: h same_files)
qed

lemma parse_auth: "sfs_parse_checksumop E msg u = Inr c \<Longrightarrow> auth_uid c = u"
  by (auto simp: sfs_parse_checksumop_def empty_op_def Let_def split: if_splits option.splits)

lemma parse_multi_auth: "sfs_parse_csmulti E msg u = Ok c \<Longrightarrow> auth_uid c = u"
  by (auto simp: sfs_parse_csmulti_def and_then_Ok empty_op_def Let_def split: if_splits option.splits)

text \<open>
  C8. A checksum request of a user changes no file of the SFS tree but index files, temporary files and
  files that the user is allowed to change: own checksums and signatures of the own key, or any of them for root.
  What is stored is a checksum of the proper length or a signature that the public key of the certificate verifies.
\<close>

theorem checksum_change_authorised:
  assumes "dispatch_checksumop E tok u msg m = Ok m' \<or> dispatch_csmulti_request E tok u msg m = Ok m'"
    and "map_of (files (mtree m')) f \<noteq> map_of (files (mtree m)) f"
  shows "transient f \<or> authorised E u f (map_of (files (mtree m')) f)"
proof -
  have "changes_ok E u (mtree m) (mtree m')" if a: "dispatch_checksumop E tok u msg m = Ok m'"
  proof (cases "sfs_parse_checksumop E msg u")
    case (Inl e)
    with a show ?thesis by (auto simp: dispatch_checksumop_def intro: transient_changes_ok)
  next
    case (Inr c)
    obtain x t1 where x: "sfs_checksumop_buf E c (mtree m) = (x, t1)" by fastforce
    have "changes_ok E u (mtree m) t1" using buf_changes_ok [OF x] parse_auth [OF Inr] by simp
    then show ?thesis using a Inr x list_changes_ok [of E c tok m m', THEN transient_changes_ok]
      by (auto simp: dispatch_checksumop_def Let_def split: if_splits outcome.splits intro: transient_changes_ok)
  qed
  moreover have "changes_ok E u (mtree m) (mtree m')" if a: "dispatch_csmulti_request E tok u msg m = Ok m'"
  proof (cases "sfs_parse_csmulti E msg u")
    case (Ok c)
    obtain x t1 where x: "csmulti_loop E c (take 1000 (csmulti c)) 12 (mtree m) = (x, t1)" by fastforce
    have "changes_ok E u (mtree m) t1" using loop_changes_ok [OF x] parse_multi_auth [OF Ok] by simp
    then show ?thesis using a Ok x by (auto simp: dispatch_csmulti_request_def sfs_process_csmulti_def split: outcome.splits)
  qed (use a in \<open>auto simp: dispatch_csmulti_request_def intro: transient_changes_ok\<close>)
  ultimately show ?thesis using assms unfolding changes_ok_def by blast
qed

definition demo_env :: sfs_env where
  "demo_env = \<lparr>fs = demo_fs, certs = [], pkey_size = (\<lambda>_. 4), verify_csum = (\<lambda>_ _ _. True)\<rparr>"

definition demo_master :: master where
  "demo_master = \<lparr>mtree = demo_tree, m2p = [], m2s = []\<rparr>"

text \<open>User 1000 adds a checksum for the file \<^verbatim>\<open>/a\<close>.\<close>

definition demo_multi :: bytes where
  "demo_multi = u32n 0x3110 @ u32n 0x5 @ u32n 1000 @ u16n 0 @ u16n 0 @ u32n 43 @ u16n 7 @ u16n 32 @
     replicate 32 5 @ map char_byte ''/a'' @ [0] @ replicate 8 0 @ replicate 4 0"

definition demo_after :: master where
  "demo_after = (case dispatch_csmulti_request demo_env 3 1000 demo_multi demo_master of Ok m \<Rightarrow> m | _ \<Rightarrow> demo_master)"

lemma demo_multi_ok: "dispatch_csmulti_request demo_env 3 1000 demo_multi demo_master = Ok demo_after"
proof -
  have "(case dispatch_csmulti_request demo_env 3 1000 demo_multi demo_master of Ok m \<Rightarrow> True | _ \<Rightarrow> False)" by code_simp
  then show ?thesis unfolding demo_after_def by (auto split: outcome.splits)
qed

theorem checksum_change_authorised_witness:
  "authorised demo_env 1000 ''/p/sfs/*a/1000'' (map_of (files (mtree demo_after)) ''/p/sfs/*a/1000'')"
proof -
  have "map_of (files (mtree demo_after)) ''/p/sfs/*a/1000'' \<noteq> None" by code_simp
  moreover have "map_of (files (mtree demo_master)) ''/p/sfs/*a/1000'' = None" by code_simp
  moreover have "\<not> transient (''/p/sfs/*a'' @ CHR ''/'' # ''1000'')" by (rule plain_not_transient) (simp_all add: plain_def)
  ultimately show ?thesis using checksum_change_authorised [OF disjI2, OF demo_multi_ok, of "''/p/sfs/*a/1000''"] by simp
qed

subsection \<open>The disk of the policy engine\<close>

text \<open>
  What \<^verbatim>\<open>sfshash_readsum\<close> gets from \<^verbatim>\<open>sfs_checksumop_chroot\<close> for the tree, when nothing disturbs the reads: the
  parameter of the checksum cache for this tree.
\<close>

definition read_request :: "sfs_request \<Rightarrow> sfs_checksumop" where
  "read_request r =
     (case r of
        SFS_GET2 path u \<Rightarrow> (empty_op 0)\<lparr>co_op := CHECKSUM_GET2, co_path := path, co_uid := u\<rparr>
      | SFS_GETSIG2 path k \<Rightarrow> (empty_op 0)\<lparr>co_op := CHECKSUM_GETSIG2, co_path := path, co_keyid := k\<rparr>)"

definition disk_of :: "sfs_env \<Rightarrow> sfs_tree \<Rightarrow> sfs_disk" where
  "disk_of E t r =
     (case fst (sfs_checksumop_chroot E (read_request r) (t\<lparr>sched := []\<rparr>)) of
        Ok d \<Rightarrow> Inr (case r of SFS_GET2 _ _ \<Rightarrow> csdata d | SFS_GETSIG2 _ _ \<Rightarrow> sigdata d)
      | Err e \<Rightarrow> Inl e
      | Abort \<Rightarrow> Inl EFAULT)"

lemma convert_root: "convert_user_path (a @ b) p d = (case convert_user_path b p d of Inl e \<Rightarrow> Inl e | Inr s \<Rightarrow> Inr (a @ s))"
  unfolding convert_user_path_def Let_def by (auto simp del: strstr.simps)

lemma read_same:
  "map_of (files t') (jail @ f) = map_of (files t) (jail @ f) \<Longrightarrow>
   fst (sfs_readsfsdata E jail f (t'\<lparr>sched := s\<rparr>)) = fst (sfs_readsfsdata E jail f (t\<lparr>sched := s\<rparr>))"
  by (simp add: sfs_readsfsdata_def split: option.splits prod.splits)

text \<open>A request depends on one file only.\<close>

fun request_file :: "sfs_request \<Rightarrow> string" where
  "request_file (SFS_GET2 path u) = uid_file u"
| "request_file (SFS_GETSIG2 path k) = key_file k"

fun request_path :: "sfs_request \<Rightarrow> string" where
  "request_path (SFS_GET2 path u) = path"
| "request_path (SFS_GETSIG2 path k) = path"

lemma target_file: "csum_target E (read_request r) = Inr (n, cert) \<Longrightarrow> n = request_file r"
  by (auto simp: csum_target_def uid_target_def key_target_def read_request_def empty_op_def
      split: sfs_request.splits if_splits option.splits sum.splits)

lemma run_get: "is_get (co_op c) \<Longrightarrow> run_op E True c f dir cert t =
    (case sfs_readsfsdata (fs E) (policydir (fs E)) f t of
       (Ok d, t') \<Rightarrow> (case check_data E cert d of Inl e \<Rightarrow> (Err e, t') | Inr d' \<Rightarrow> (Ok d', t'))
     | (r, t') \<Rightarrow> (r, t'))"
  by (auto simp: run_op_def is_get_def split: outcome.splits prod.splits)

lemma disk_same:
  assumes "\<And>dir. convert_user_path (SFS_CHECKSUMROOT (fs E)) (request_path r) False = Inr dir \<Longrightarrow>
      map_of (files t') (dir @ ''/'' @ request_file r) = map_of (files t) (dir @ ''/'' @ request_file r)"
  shows "disk_of E t' r = disk_of E t r"
proof -
  let ?c = "read_request r"
  have g: "is_get (co_op ?c)" "co_path ?c = request_path r" by (auto simp: read_request_def is_get_def split: sfs_request.splits)
  have "fst (sfs_checksumop_chroot E ?c (t'\<lparr>sched := []\<rparr>)) = fst (sfs_checksumop_chroot E ?c (t\<lparr>sched := []\<rparr>))"
  proof (cases "convert_user_path SFS_CHECKSUMCHROOT (request_path r) False")
    case (Inr d)
    show ?thesis
    proof (cases "csum_target E ?c")
      case t: (Inr a)
      obtain n cert where a: "a = (n, cert)" by (cases a)
      have n: "n = request_file r" using target_file t a by simp
      have "convert_user_path (SFS_CHECKSUMROOT (fs E)) (request_path r) False = Inr (policydir (fs E) @ d)"
        using Inr by (simp add: SFS_CHECKSUMROOT_def SFS_CHECKSUMCHROOT_def convert_root)
      from assms [OF this] have m: "map_of (files t') (policydir (fs E) @ d @ ''/'' @ n) = map_of (files t) (policydir (fs E) @ d @ ''/'' @ n)"
        by (simp add: n)
      have "fst (run_op E True ?c (d @ ''/'' @ n) d cert (t'\<lparr>sched := []\<rparr>)) = fst (run_op E True ?c (d @ ''/'' @ n) d cert (t\<lparr>sched := []\<rparr>))"
        using read_same [OF m, of "fs E" "[]"] unfolding run_get [OF g(1)]
        by (cases "sfs_readsfsdata (fs E) (policydir (fs E)) (d @ ''/'' @ n) (t'\<lparr>sched := []\<rparr>)";
            cases "sfs_readsfsdata (fs E) (policydir (fs E)) (d @ ''/'' @ n) (t\<lparr>sched := []\<rparr>)")
          (auto split: outcome.splits sum.splits)
      then show ?thesis using g Inr t a by (simp add: sfs_checksumop_chroot_def sfs_checksumop_data_def sfs_root_def)
    qed (use g Inr in \<open>simp add: sfs_checksumop_chroot_def sfs_checksumop_data_def sfs_root_def\<close>)
  qed (use g in \<open>simp add: sfs_checksumop_chroot_def sfs_checksumop_data_def sfs_root_def\<close>)
  then show ?thesis by (simp add: disk_of_def)
qed

subsection \<open>Changes of the disk\<close>

text \<open>Key-IDs in any case name the same file.\<close>

lemma chartohex_lower: "chartohex c = Some x \<Longrightarrow> x < 16 \<and> tolower c = hexdigit x"
proof -
  assume a: "chartohex c = Some x"
  define n where "n = (of_char c :: nat)"
  have c: "c = char_of n" by (simp add: n_def)
  from a consider "48 \<le> n" "n \<le> 57" "x = n - 48" | "65 \<le> n" "n \<le> 70" "x = 10 + n - 65" | "97 \<le> n" "n \<le> 102" "x = 10 + n - 97"
    by (auto simp: chartohex_def n_def Let_def split: if_splits)
  then show ?thesis by cases (auto simp: tolower_def hexdigit_def Let_def n_def [symmetric] c)
qed

lemma hex_bytes_lower: "hex_bytes s = Inr k \<Longrightarrow> map tolower s = concat (map hex_byte k)"
proof (induction s arbitrary: k rule: hex_bytes.induct)
  case (3 a b cs)
  from "3.prems" obtain x y bs where h: "chartohex a = Some x" "chartohex b = Some y" "hex_bytes cs = Inr bs"
    "k = of_nat (16 * x + y) # bs"
    by (auto split: option.splits sum.splits)
  have xy: "x < 16" "y < 16" "tolower a = hexdigit x" "tolower b = hexdigit y" using chartohex_lower h by auto
  then have "unat (of_nat (16 * x + y) :: u8) = 16 * x + y"
    using xy(1,2) unat_of_nat [of "16 * x + y", where 'a = 8] by (simp add: take_bit_nat_eq_self del: of_nat_add of_nat_mult)
  with xy h "3.IH" [OF refl h(1,2) h(3)] show ?case by (simp add: hex_byte_def)
qed auto

lemma hexstr_lower: "map tolower (concat (map hex_byte k)) = concat (map hex_byte k)"
  by (rule hex_bytes_lower [OF hex_bytes_tohexstr])

lemma readsum_cases:
  obtains e where "\<And>d. sfshash_readsum d p l = Inl e"
  | r where "\<And>d d'. d r = d' r \<Longrightarrow> sfshash_readsum d p l = sfshash_readsum d' p l" "request_path r = p"
    "(\<exists>u. l = CSTYPE_UID u \<and> request_file r = uid_file u) \<or>
     (\<exists>s k. l = CSTYPE_KEY s \<and> hex_bytes s = Inr k \<and> request_file r = key_file k)"
proof (cases l)
  case (CSTYPE_UID u)
  show ?thesis by (rule that(2) [of "SFS_GET2 p u"]) (auto simp: CSTYPE_UID sfshash_readsum_def)
next
  case (CSTYPE_KEY s)
  show ?thesis
  proof (cases "s = [] \<or> (\<exists>e. hex_bytes s = Inl e)")
    case True
    then show ?thesis
      using that(1) [of ENOMEM] that(1) by (cases "s = []") (auto simp: CSTYPE_KEY sfshash_readsum_def)
  next
    case False
    then obtain k where k: "hex_bytes s = Inr k" by (cases "hex_bytes s") auto
    show ?thesis
      by (rule that(2) [of "SFS_GETSIG2 p k"]) (use False k in \<open>auto simp: CSTYPE_KEY sfshash_readsum_def\<close>)
  qed
qed

lemma uid_not_key_file: "uid_file u \<noteq> key_file k"
  using plain_uid_file [of u] by (auto simp: key_file_def)

lemma request_file_plain: "plain (request_file r) \<and> request_file r \<noteq> []"
  using plain_uid_file plain_key_file by (cases r) (auto simp: key_file_def)

lemma file_changes_disk:
  assumes c: "convert_user_path (SFS_CHECKSUMROOT (fs E)) p False = Inr dir"
    and s: "same_except (\<lambda>f. f = dir @ ''/'' @ n \<or> transient f) t t'"
    and n: "k = CSTYPE_UID u \<and> n = uid_file u \<or> k = CSTYPE_KEY (concat (map hex_byte kb)) \<and> n = key_file kb"
  shows "disk_changes_at (disk_of E t) (disk_of E t') p k"
  unfolding disk_changes_at_def
proof (intro allI impI)
  fix q l
  assume d: "q \<noteq> p \<or> \<not> same_key l k"
  show "sfshash_readsum (disk_of E t') q l = sfshash_readsum (disk_of E t) q l"
  proof (rule readsum_cases [of q l])
    fix r
    assume r: "\<And>d d'. d r = d' r \<Longrightarrow> sfshash_readsum d q l = sfshash_readsum d' q l" "request_path r = q"
      "(\<exists>u. l = CSTYPE_UID u \<and> request_file r = uid_file u) \<or> (\<exists>s k. l = CSTYPE_KEY s \<and> hex_bytes s = Inr k \<and> request_file r = key_file k)"
    have np: "CHR ''/'' \<notin> set n" using n plain_uid_file [of u] plain_key_file [of kb] by (auto simp: plain_def)
    have rp: "plain (request_file r)" "request_file r \<noteq> []" using request_file_plain by auto
    show ?thesis
    proof (rule r(1), rule disk_same)
      fix dir'
      assume c': "convert_user_path (SFS_CHECKSUMROOT (fs E)) (request_path r) False = Inr dir'"
      have "dir' @ ''/'' @ request_file r \<noteq> dir @ ''/'' @ n"
      proof
        assume "dir' @ ''/'' @ request_file r = dir @ ''/'' @ n"
        then have e: "dir' = dir" "request_file r = n"
          using file_name_inj [of dir' "request_file r" dir n] np rp(1) by (auto simp: plain_def)
        with c c' convert_inj r(2) have "q = p" by metis
        moreover have "same_key l k"
        proof (cases "\<exists>v. l = CSTYPE_UID v \<and> request_file r = uid_file v")
          case True
          then show ?thesis using n e(2) uid_file_inj uid_not_key_file by (metis same_key_refl)
        next
          case False
          then obtain s kc where l: "l = CSTYPE_KEY s" "hex_bytes s = Inr kc" "request_file r = key_file kc" using r(3) by blast
          then have "k = CSTYPE_KEY (concat (map hex_byte kb))" "kc = kb"
            using n e(2) key_file_inj uid_not_key_file by metis+
          then show ?thesis using l hex_bytes_lower [OF l(2)] hexstr_lower by (simp add: strcasecmp_eq_def)
        qed
        ultimately show False using d by blast
      qed
      moreover have "\<not> transient (dir' @ ''/'' @ request_file r)" using plain_not_transient [OF rp] by simp
      ultimately show "map_of (files t') (dir' @ ''/'' @ request_file r) = map_of (files t) (dir' @ ''/'' @ request_file r)"
        using s by (simp add: same_except_def)
    qed
  qed auto
qed

lemma transient_same_disk:
  assumes "same_except transient t t'" "coherent (disk_of E t) ch"
  shows "coherent (disk_of E t') ch"
proof -
  have "sfshash_readsum (disk_of E t') q l = sfshash_readsum (disk_of E t) q l" for q l
  proof (rule readsum_cases [of q l])
    fix r
    assume r: "\<And>d d'. d r = d' r \<Longrightarrow> sfshash_readsum d q l = sfshash_readsum d' q l"
    show ?thesis
      by (rule r, rule disk_same) (use assms(1) plain_not_transient request_file_plain [of r] in \<open>auto simp: same_except_def\<close>)
  qed auto
  with assms(2) show ?thesis by (simp add: coherent_def entry_ok_def)
qed

subsection \<open>Coherence of the cache\<close>

abbreviation pcache :: "policy \<Rightarrow> sfshash" where "pcache p \<equiv> cache (engine p)"

definition deliver_m2p :: "sfscache_invalidate list \<Rightarrow> policy \<Rightarrow> policy" where
  "deliver_m2p ms p = fold dispatch_sfscache_invalidate ms p"

lemma deliver_simps [simp]:
  "deliver_m2p [] p = p" "deliver_m2p (m # ms) p = deliver_m2p ms (dispatch_sfscache_invalidate m p)"
  "deliver_m2p (ms @ ns) p = deliver_m2p ns (deliver_m2p ms p)"
  by (simp_all add: deliver_m2p_def)

lemma c_string_NUL: "NUL \<notin> set s \<Longrightarrow> c_string (s @ NUL # r) = s"
  by (simp add: c_string_def takeWhile_append)

lemma invalidate_uid_msg:
  "NUL \<notin> set path \<Longrightarrow> pcache (dispatch_sfscache_invalidate (send_sfscache_invalidate_uid path u) p) = sfshash_invalidate_uid path u (pcache p)"
  by (simp add: dispatch_sfscache_invalidate_def send_sfscache_invalidate_uid_def Let_def list_update_append c_string_NUL)

lemma hexstr_no_nul: "NUL \<notin> set (concat (map hex_byte k))"
proof -
  have "hexdigit n \<noteq> NUL" if "n < 16" for n
    using chartohex_hexdigit [OF that] by (auto simp: chartohex_def)
  moreover have "unat b div 16 < 16" "unat b mod 16 < 16" for b :: u8
    using unsigned_less [of b, where 'a = nat] by auto
  ultimately have "hexdigit (unat b div 16) \<noteq> NUL" "hexdigit (unat b mod 16) \<noteq> NUL" for b :: u8 by blast+
  then have "NUL \<notin> set (hex_byte b)" for b by (simp add: hex_byte_def neq_commute)
  then show ?thesis by auto
qed

lemma invalidate_key_msg:
  assumes "NUL \<notin> set path"
  shows "pcache (dispatch_sfscache_invalidate (send_sfscache_invalidate_key path k) p) =
    sfshash_invalidate_key path (concat (map hex_byte k)) (pcache p)"
proof -
  let ?h = "concat (map hex_byte k)"
  let ?pl = "path @ [NUL] @ ?h @ [NUL]"
  have u: "?pl[length path := NUL, Suc (length path + length ?h) := NUL] = ?pl"
    by (simp add: list_update_append)
  have d: "c_string ?pl = path" "c_string (drop (Suc (length path)) ?pl) = ?h"
    using assms c_string_NUL [of path "?h @ [NUL]"] c_string_NUL [OF hexstr_no_nul, of k "[]"] by simp_all
  show ?thesis
    using u d by (simp add: dispatch_sfscache_invalidate_def send_sfscache_invalidate_key_def Let_def)
qed

lemma buf_coherent:
  assumes "sfs_checksumop_buf E c t = (r, t')" "NUL \<notin> set (co_path c)" "coherent (disk_of E t) (pcache p)"
  shows "coherent (disk_of E t') (pcache (deliver_m2p (case r of Ok b \<Rightarrow> send_sfscache_invalidate c | _ \<Rightarrow> []) p))"
proof (cases "(\<exists>b. r = Ok b) \<and> changes_target E c t t'")
  case True
  then obtain b dir n cert where r: "r = Ok b"
    and a: "convert_user_path (SFS_CHECKSUMROOT (fs E)) (co_path c) False = Inr dir" "csum_target E c = Inr (n, cert)" "\<not> is_get (co_op c)"
    "same_except (\<lambda>f. f = dir @ ''/'' @ n \<or> transient f) t t'"
    by (auto simp: changes_target_def)
  show ?thesis
  proof (cases "co_op c = CHECKSUM_ADDSUM \<or> co_op c = CHECKSUM_DEL")
    case True
    then have "n = uid_file (co_uid c)" using a(2) by (auto simp: csum_target_def uid_target_def split: sum.splits if_splits)
    then have "disk_changes_at (disk_of E t) (disk_of E t') (co_path c) (CSTYPE_UID (co_uid c))"
      using file_changes_disk [OF a(1,4)] by blast
    from invalidate_uid_coherent [OF assms(3) this] True r assms(2) show ?thesis
      by (simp add: send_sfscache_invalidate_def invalidate_uid_msg)
  next
    case False
    then have o: "co_op c = CHECKSUM_ADDSIG \<or> co_op c = CHECKSUM_DELSIG"
      using a(2,3) by (cases "co_op c") (auto simp: csum_target_def is_get_def)
    then have "n = key_file (co_keyid c)" using a(2) by (auto simp: csum_target_def key_target_def split: sum.splits option.splits if_splits)
    then have "disk_changes_at (disk_of E t) (disk_of E t') (co_path c) (CSTYPE_KEY (concat (map hex_byte (co_keyid c))))"
      using file_changes_disk [OF a(1,4)] by blast
    from invalidate_key_coherent [OF assms(3) this] o r assms(2) show ?thesis
      by (auto simp: send_sfscache_invalidate_def invalidate_key_msg)
  qed
next
  case False
  then have s: "(\<exists>b. r = Ok b) \<longrightarrow> is_get (co_op c)" "same_except transient t t'" using checksumop_buf_effect [OF assms(1)] by auto
  then have "(case r of Ok b \<Rightarrow> send_sfscache_invalidate c | _ \<Rightarrow> []) = []"
    by (auto simp: send_sfscache_invalidate_def is_get_def split: outcome.splits)
  with transient_same_disk [OF s(2) assms(3)] show ?thesis by simp
qed

lemma loop_coherent:
  assumes "csmulti_loop E c recs n t = (Ok (rs, invs), t')" "\<forall>r\<in>set recs. NUL \<notin> set (mr_path r)" "coherent (disk_of E t) (pcache p)"
  shows "coherent (disk_of E t') (pcache (deliver_m2p invs p))"
  using assms
proof (induction recs arbitrary: n t p rs invs)
  case (Cons rec recs)
  let ?c = "c\<lparr>co_path := mr_path rec, sigbuf := mr_csdata rec\<rparr>"
  obtain x t1 where x: "sfs_checksumop_buf E ?c t = (x, t1)" by fastforce
  define inv where "inv = (case x of Ok b \<Rightarrow> send_sfscache_invalidate ?c | _ \<Rightarrow> [])"
  have h: "coherent (disk_of E t1) (pcache (deliver_m2p inv p))"
    using buf_coherent [OF x] Cons.prems(2,3) by (simp add: inv_def)
  have "t' = t1 \<and> invs = inv \<or> (\<exists>m rs' invs'. csmulti_loop E c recs m t1 = (Ok (rs', invs'), t') \<and> invs = inv @ invs')"
    using Cons.prems(1) x by (cases x) (auto simp: Let_def inv_def split: if_splits prod.splits outcome.splits)
  then show ?case
  proof
    assume "t' = t1 \<and> invs = inv"
    with h show ?thesis by simp
  next
    assume "\<exists>m rs' invs'. csmulti_loop E c recs m t1 = (Ok (rs', invs'), t') \<and> invs = inv @ invs'"
    then obtain m rs' invs' where l: "csmulti_loop E c recs m t1 = (Ok (rs', invs'), t')" "invs = inv @ invs'" by blast
    with Cons.IH [OF l(1) _ h] Cons.prems(2) show ?thesis by simp
  qed
qed auto

text \<open>Paths of requests have no NUL.\<close>

lemma byte_char_NUL: "byte_char b = NUL \<longleftrightarrow> b = 0"
proof -
  have "unat b < 256" using unsigned_less [of b, where 'a = nat] by simp
  then have "of_char (byte_char b) = unat b" by (simp add: byte_char_def)
  moreover have "byte_char b = NUL \<longleftrightarrow> (of_char (byte_char b) :: nat) = of_char NUL" by (simp only: of_char_eq_iff)
  ultimately show ?thesis by (simp add: unsigned_eq_0_iff)
qed

lemma tostr_no_nul: "abuf_tostr b off = Some s \<Longrightarrow> NUL \<in> set s \<Longrightarrow> False"
proof -
  assume a: "abuf_tostr b off = Some s" "NUL \<in> set s"
  then have "s = map byte_char (takeWhile (\<lambda>x. x \<noteq> 0) (drop off b))" by (simp add: abuf_tostr_def chars_def split: if_splits)
  with a(2) obtain x where "x \<in> set (takeWhile (\<lambda>x. x \<noteq> 0) (drop off b))" "byte_char x = NUL" by auto
  then show False using set_takeWhileD byte_char_NUL by metis
qed

lemma parse_no_nul: "sfs_parse_checksumop E msg u = Inr c \<Longrightarrow> NUL \<notin> set (co_path c)"
  by (auto simp: sfs_parse_checksumop_def Let_def split: if_splits option.splits dest: tostr_no_nul)

lemma record_no_nul: "csmulti_record m opn off = Ok r \<Longrightarrow> NUL \<notin> set (mr_path r)"
  by (auto simp: csmulti_record_def and_then_Ok Let_def split: if_splits option.splits) (erule (1) tostr_no_nul)+

lemma records_no_nul: "csmulti_records m opn offs = Ok rs \<Longrightarrow> \<forall>r\<in>set rs. NUL \<notin> set (mr_path r)"
  by (induction offs arbitrary: rs) (auto simp: and_then_Ok dest: record_no_nul)

lemma parse_multi_no_nul: "sfs_parse_csmulti E msg u = Ok c \<Longrightarrow> \<forall>r\<in>set (csmulti c). NUL \<notin> set (mr_path r)"
  by (auto simp: sfs_parse_csmulti_def and_then_Ok empty_op_def Let_def split: if_splits option.splits dest: records_no_nul)

text \<open>
  C5. Checksum requests keep the cache of the policy engine coherent with the SFS tree. If the cache agrees
  with the tree before a request, whatever the request is and whatever fails while it is processed, and if the policy
  engine has handled the invalidation messages that the master sent for it, then the cache agrees with the new tree.
\<close>

theorem checksum_requests_coherent:
  assumes "dispatch_checksumop E tok u msg m = Ok m' \<or> dispatch_csmulti_request E tok u msg m = Ok m'"
    and "m2p m = []" and "coherent (disk_of E (mtree m)) (cache (engine p))"
  shows "coherent (disk_of E (mtree m')) (cache (engine (deliver_m2p (m2p m') p)))"
proof -
  have "coherent (disk_of E (mtree m')) (pcache (deliver_m2p (m2p m') p))" if a: "dispatch_checksumop E tok u msg m = Ok m'"
  proof (cases "sfs_parse_checksumop E msg u")
    case (Inl e)
    with a assms(2,3) show ?thesis by (auto simp: dispatch_checksumop_def)
  next
    case (Inr c)
    show ?thesis
    proof (cases "co_op c = CHECKSUM_LIST")
      case True
      then have l: "sfs_checksumop_list E c tok m = Ok m'" using a Inr by (simp add: dispatch_checksumop_def Let_def)
      have "m2p m' = []" using l assms(2)
        by (auto simp: sfs_checksumop_list_def Let_def split: if_splits sum.splits option.splits prod.splits outcome.splits)
      then show ?thesis using transient_same_disk [OF list_changes_ok [OF l] assms(3)] by simp
    next
      case False
      obtain x t1 where x: "sfs_checksumop_buf E c (mtree m) = (x, t1)" by fastforce
      have "coherent (disk_of E t1) (pcache (deliver_m2p (case x of Ok b \<Rightarrow> send_sfscache_invalidate c | _ \<Rightarrow> []) p))"
        by (rule buf_coherent [OF x parse_no_nul [OF Inr] assms(3)])
      then show ?thesis using a Inr x False assms(2,3)
        by (cases x) (auto simp: dispatch_checksumop_def Let_def split: if_splits)
    qed
  qed
  moreover have "coherent (disk_of E (mtree m')) (pcache (deliver_m2p (m2p m') p))" if a: "dispatch_csmulti_request E tok u msg m = Ok m'"
  proof (cases "sfs_parse_csmulti E msg u")
    case (Ok c)
    obtain x t1 where x: "csmulti_loop E c (take 1000 (csmulti c)) 12 (mtree m) = (x, t1)" by fastforce
    then obtain rs invs where r: "x = Ok (rs, invs)" "m' = m\<lparr>mtree := t1, m2p := m2p m @ invs, m2s := m2s m'\<rparr>"
      using a Ok by (auto simp: dispatch_csmulti_request_def sfs_process_csmulti_def split: outcome.splits prod.splits)
    have "\<forall>r\<in>set (take 1000 (csmulti c)). NUL \<notin> set (mr_path r)" using parse_multi_no_nul [OF Ok] by (meson in_set_takeD)
    from loop_coherent [OF x [unfolded r(1)] this assms(3)] show ?thesis by (subst (1 2) r(2)) (simp add: assms(2))
  qed (use a assms(2,3) in \<open>auto simp: dispatch_csmulti_request_def\<close>)
  ultimately show ?thesis using assms(1) by blast
qed

text \<open>A cache that knows that user 1000 has no checksum for \<^verbatim>\<open>/a\<close>, before the request that adds one.\<close>

definition demo_engine_policy :: policy where
  "demo_engine_policy = demo_policy\<lparr>engine := (engine demo_policy)\<lparr>cache :=
     snd (sfshash_get_uid (disk_of demo_env demo_tree) ''/a'' 1000 sfshash_init)\<rparr>\<rparr>"

theorem checksum_requests_coherent_witness:
  "coherent (disk_of demo_env (mtree demo_after)) (cache (engine (deliver_m2p (m2p demo_after) demo_engine_policy)))"
proof -
  have "coherent (disk_of demo_env (mtree demo_master)) (cache (engine demo_engine_policy))"
    by (simp add: demo_engine_policy_def demo_master_def get_uid_refines coherent_init)
  moreover have "m2p demo_master = []" by (simp add: demo_master_def)
  ultimately show ?thesis using checksum_requests_coherent [OF disjI2, OF demo_multi_ok] by blast
qed

subsection \<open>What was stored is read\<close>

definition change_request :: "sfs_checksumop \<Rightarrow> sfs_request" where
  "change_request c =
     (if co_op c = CHECKSUM_ADDSUM \<or> co_op c = CHECKSUM_DEL then SFS_GET2 (co_path c) (co_uid c)
      else SFS_GETSIG2 (co_path c) (co_keyid c))"

lemma disk_of_contents:
  assumes "convert_user_path (SFS_CHECKSUMROOT (fs E)) (request_path r) False = Inr dir" "csum_target E (read_request r) = Inr (n, cert)"
    and "\<And>f. sys_error (fs E) OP_OPEN_READ f = None"
  shows "disk_of E t r =
    (case map_of (files t) (dir @ ''/'' @ n) of
       None \<Rightarrow> Inl ENOENT
     | Some b \<Rightarrow>
         (case fst (parse_sfsdata [] b) of
            Ok d \<Rightarrow> (case check_data E cert d of Inl e \<Rightarrow> Inl e | Inr d' \<Rightarrow> Inr (case r of SFS_GET2 _ _ \<Rightarrow> csdata d' | SFS_GETSIG2 _ _ \<Rightarrow> sigdata d'))
          | Err e \<Rightarrow> Inl e | Abort \<Rightarrow> Inl EFAULT))"
proof -
  have g: "is_get (co_op (read_request r))" "co_path (read_request r) = request_path r"
    by (auto simp: read_request_def is_get_def split: sfs_request.splits)
  obtain d where d: "convert_user_path SFS_CHECKSUMCHROOT (request_path r) False = Inr d" "dir = policydir (fs E) @ d"
    using assms(1) by (auto simp: SFS_CHECKSUMROOT_def SFS_CHECKSUMCHROOT_def convert_root split: sum.splits)
  have "sfs_checksumop_chroot E (read_request r) (t\<lparr>sched := []\<rparr>) = run_op E True (read_request r) (d @ ''/'' @ n) d cert (t\<lparr>sched := []\<rparr>)"
    using g d(1) assms(2) by (simp add: sfs_checksumop_chroot_def sfs_checksumop_data_def sfs_root_def)
  then show ?thesis unfolding disk_of_def run_get [OF g(1)]
    by (auto simp: d(2) sfs_readsfsdata_def assms(3) split: option.splits outcome.splits sum.splits prod.splits)
qed

lemma one_part_ok:
  "0 < length b \<Longrightarrow> length b \<le> 4096 \<Longrightarrow> data_ok (sfs_initsfsdata\<lparr>csdata := b\<rparr>) \<and> stored (sfs_initsfsdata\<lparr>csdata := b\<rparr>) = sfs_initsfsdata\<lparr>csdata := b\<rparr>"
  "0 < length b \<Longrightarrow> length b \<le> 4096 \<Longrightarrow> data_ok (sfs_initsfsdata\<lparr>sigdata := b\<rparr>) \<and> stored (sfs_initsfsdata\<lparr>sigdata := b\<rparr>) = sfs_initsfsdata\<lparr>sigdata := b\<rparr>"
  by (auto simp: data_ok_def toc_parts_def bad_field_def sfs_initsfsdata_def stored_def sfs_need_upgrade_data_def sfsdata_consts)

text \<open>
  C20. What a request stores is what the policy engine reads: after a successful request that adds a checksum or
  a signature, a lookup of that path and user or key returns exactly the added data; after a deletion it finds
  nothing.
\<close>

theorem stored_checksum_returned:
  assumes "sfs_checksumop_buf E c t = (Ok b, t')" "\<not> is_get (co_op c)" "length (sigbuf c) \<le> SFSDATA_MAX_FIELD_LENGTH"
    and "\<And>f. sys_error (fs E) OP_OPEN_READ f = None" "\<And>k. 0 < pkey_size E k"
  shows "disk_of E t' (change_request c) =
    (if co_op c = CHECKSUM_ADDSUM \<or> co_op c = CHECKSUM_ADDSIG then Inr (sigbuf c) else Inl ENOENT)"
proof -
  have "changes_target E c t t'" using checksumop_buf_effect [OF assms(1)] assms(2) by auto
  then obtain dir n cert where a: "convert_user_path (SFS_CHECKSUMROOT (fs E)) (co_path c) False = Inr dir" "csum_target E c = Inr (n, cert)"
    "map_of (files t') (dir @ ''/'' @ n) = new_contents c" by (auto simp: changes_target_def)
  have len: "length (sigbuf c) \<le> 4096" using assms(3) by (simp add: sfsdata_consts)
  have pc: "fst (parse_sfsdata [] (concat (sfsdata_chunks d))) = Ok (stored d)" if "data_ok d" for d
    using parse_chunks [OF that, of "[]"] by (auto simp: benign_def)
  show ?thesis
  proof (cases "co_op c = CHECKSUM_ADDSUM \<or> co_op c = CHECKSUM_DEL")
    case True
    let ?r = "SFS_GET2 (co_path c) (co_uid c)"
    have n: "n = uid_file (co_uid c)" "cert = None" "co_op c = CHECKSUM_ADDSUM \<longrightarrow> length (sigbuf c) = ANOUBIS_CS_LEN"
      using a(2) True by (auto simp: csum_target_def uid_target_def split: sum.splits if_splits)
    have tg: "csum_target E (read_request ?r) = Inr (n, cert)"
      using n by (simp add: csum_target_def uid_target_def read_request_def empty_op_def)
    have pd: "fst (parse_sfsdata [] (concat (sfsdata_chunks (sfs_initsfsdata\<lparr>csdata := sigbuf c\<rparr>)))) = Ok (sfs_initsfsdata\<lparr>csdata := sigbuf c\<rparr>)"
      if "co_op c = CHECKSUM_ADDSUM"
      using that n(3) pc one_part_ok(1) [of "sigbuf c"] len by (simp add: ANOUBIS_CS_LEN_def)
    from disk_of_contents [OF _ tg assms(4), of dir t'] a(1,3) True n pd
    show ?thesis by (auto simp: change_request_def new_contents_def check_data_def ANOUBIS_CS_LEN_def sfs_initsfsdata_def)
  next
    case False
    then have o: "co_op c = CHECKSUM_ADDSIG \<or> co_op c = CHECKSUM_DELSIG"
      using a(2) assms(2) by (cases "co_op c") (auto simp: csum_target_def is_get_def)
    let ?r = "SFS_GETSIG2 (co_path c) (co_keyid c)"
    obtain x where n: "n = key_file (co_keyid c)" "cert = Some x" "cert_get_by_keyid (certs E) (co_keyid c) = Some x" "co_keyid c \<noteq> []"
      and sg: "co_op c = CHECKSUM_ADDSIG \<longrightarrow> length (sigbuf c) = ANOUBIS_CS_LEN + pkey_size E (pubkey x) \<and>
        verify_csum E (pubkey x) (take ANOUBIS_CS_LEN (sigbuf c)) (drop ANOUBIS_CS_LEN (sigbuf c))"
      using a(2) o by (auto simp: csum_target_def key_target_def split: sum.splits option.splits if_splits)
    have tg: "csum_target E (read_request ?r) = Inr (n, cert)"
      using n by (simp add: csum_target_def key_target_def read_request_def empty_op_def)
    have pd: "fst (parse_sfsdata [] (concat (sfsdata_chunks (sfs_initsfsdata\<lparr>sigdata := sigbuf c\<rparr>)))) = Ok (sfs_initsfsdata\<lparr>sigdata := sigbuf c\<rparr>)"
      "sigbuf c \<noteq> []" if "co_op c = CHECKSUM_ADDSIG"
      using that sg pc one_part_ok(2) [of "sigbuf c"] len by (auto simp: ANOUBIS_CS_LEN_def)
    from disk_of_contents [OF _ tg assms(4), of dir t'] a(1,3) o n sg assms(5) [of "pubkey x"] pd
    show ?thesis by (auto simp: change_request_def new_contents_def check_data_def sfs_initsfsdata_def)
  qed
qed

definition demo_add :: sfs_checksumop where
  "demo_add = (empty_op 1000)\<lparr>co_op := CHECKSUM_ADDSUM, co_uid := 1000, co_path := ''/a'', sigbuf := replicate 32 5\<rparr>"

theorem stored_checksum_returned_witness:
  "disk_of demo_env (snd (sfs_checksumop_buf demo_env demo_add demo_tree)) (SFS_GET2 ''/a'' 1000) = Inr (replicate 32 5)"
proof -
  have "fst (sfs_checksumop_buf demo_env demo_add demo_tree) = Ok []" by code_simp
  then have "sfs_checksumop_buf demo_env demo_add demo_tree = (Ok [], snd (sfs_checksumop_buf demo_env demo_add demo_tree))"
    by (simp add: prod_eq_iff)
  from stored_checksum_returned [OF this] show ?thesis
    by (simp add: demo_add_def demo_env_def demo_fs_def empty_op_def is_get_def sfsdata_consts change_request_def)
qed

subsection \<open>Requests that end the master\<close>

text \<open>The two functions walk over the same records if they start at the same place.\<close>

lemma record_loop_offsets:
  "record_loop d s = Val s' \<Longrightarrow> 0 \<le> vbuf s \<Longrightarrow> vbuf s + vlen s \<le> int (length d) \<Longrightarrow> length d < 2 ^ 31 \<Longrightarrow>
   \<exists>offs. csmulti_offsets d (nat (vbuf s)) = Ok offs \<and> (\<forall>x\<in>set offs. x + 8 \<le> length d)"
proof (induction d s arbitrary: s' rule: record_loop.induct)
  case (1 d s)
  have len: "8 \<le> vlen s" using "1.prems"(1) by (subst (asm) record_loop.simps) (auto split: if_splits)
  let ?off = "nat (vbuf s)"
  have off: "?off + 8 \<le> length d" using len "1.prems"(2,3) by linarith
  have rdv: "rd d (vbuf s) N_u32 = Val (be32 d ?off)" using off "1.prems"(2) by (simp add: rd_def be32_def)
  let ?v = "be32 d ?off"
  have open_ok: "abuf_open d ?off = Ok (drop ?off d)" "abuf_check_ptr (drop ?off d) 0 8 = Ok (drop ?off d)"
    using off "1.prems"(4) by (simp_all add: abuf_open_def abuf_check_ptr_def abuf_check_iff)
  have b: "be32 (drop ?off d) 0 = ?v" by (simp add: be32_def)
  have v: "0 \<le> ?v" "?v < 2 ^ 32" using be_value_bounds [of "take 4 (drop ?off d)"] off by (simp_all add: be32_def)
  have pos: "?v = as_int ?v" if "0 \<le> as_int ?v" using that v by (auto simp: as_int_def to_signed_def split: if_splits)
  show ?case
  proof (cases "as_int ?v = 0")
    case True
    then have "?v = 0" using pos by simp
    then show ?thesis using open_ok b by (subst csmulti_offsets.simps) simp
  next
    case False
    from "1.prems"(1) False rdv len obtain reallen s1
      where r: "as_int ?v \<le> vlen s" "amsg_csmulti_request_record_size d (vbuf s) (as_int ?v) = Some reallen" "0 \<le> reallen"
        "SHIFT_CNT (as_int ?v) s = Val s1" "record_loop d s1 = Val s'" "reallen \<le> as_int ?v"
      by (subst (asm) record_loop.simps)
        (auto simp: Let_def not_less simp del: record_loop.simps split: if_splits option.splits chk.splits)
    have l8: "8 \<le> as_int ?v"
      using r(2,3) by (auto simp: amsg_csmulti_request_record_size_def size_of_def CAST_def split: if_splits)
    then have eq: "?v = as_int ?v" using pos by simp
    have s1: "vbuf s1 = vbuf s + as_int ?v" "vlen s1 = vlen s - as_int ?v" using SHIFT_CNT_Val [OF r(4)] by auto
    have "\<exists>offs. csmulti_offsets d (nat (vbuf s1)) = Ok offs \<and> (\<forall>x\<in>set offs. x + 8 \<le> length d)"
      by (rule "1.IH" [OF _ rdv refl _ _ r(2) _ r(4) r(5)]) (use False len r(1,3,6) l8 s1 "1.prems"(2-4) in auto)
    moreover have "nat (vbuf s1) = ?off + nat ?v" using s1 l8 eq "1.prems"(2) by linarith
    moreover have "nat ?v \<le> length (drop ?off d)" using r(1) eq "1.prems"(2,3) by simp
    moreover have "nat ?v \<noteq> 0" using eq l8 by linarith
    ultimately show ?thesis using open_ok b off by (subst csmulti_offsets.simps) (auto simp: Let_def)
  qed
qed

lemma records_no_abort: "length m < 2 ^ 31 \<Longrightarrow> \<forall>x\<in>set offs. x + 8 \<le> length m \<Longrightarrow> csmulti_records m opn offs \<noteq> Abort"
proof (induction offs)
  case (Cons x offs)
  have "abuf_open m x = Ok (drop x m)" "abuf_check_ptr (drop x m) 0 8 = Ok (drop x m)"
    using Cons.prems by (auto simp: abuf_open_def abuf_check_ptr_def abuf_check_iff)
  then have "csmulti_record m opn x \<noteq> Abort"
    by (auto simp: csmulti_record_def Let_def abuf_open_def not_less split: option.splits)
  then show ?case using Cons by (cases "csmulti_record m opn x"; cases "csmulti_records m opn offs") auto
qed simp

lemma err_counts: "only_err (POP_CNT n)" "only_err (SHIFT_CNT n)"
  by (auto simp: only_err_def POP_CNT_def SHIFT_CNT_def ADD_SIZE_def Let_def split: if_splits)

lemma err_record_loop: "only_err (record_loop d)"
proof -
  have "record_loop d s = Ret r \<Longrightarrow> r = -1" for s r
  proof (induction d s arbitrary: r rule: record_loop.induct)
    case (1 d s)
    show ?case
    proof (cases "8 > vlen s \<or> (\<forall>v. rd d (vbuf s) N_u32 \<noteq> Val v)")
      case True
      with "1.prems" show ?thesis
        by (subst (asm) record_loop.simps) (auto simp: rd_def simp del: record_loop.simps split: if_splits)
    next
      case False
      then obtain v where v: "rd d (vbuf s) N_u32 = Val v" "\<not> 8 > vlen s" by auto
      obtain n where n: "amsg_csmulti_request_record_size d (vbuf s) (as_int v) = None \<or>
          amsg_csmulti_request_record_size d (vbuf s) (as_int v) = Some n" by (cases "amsg_csmulti_request_record_size d (vbuf s) (as_int v)") auto
      show ?thesis
      proof (cases "\<exists>s1. SHIFT_CNT (as_int v) s = Val s1 \<and> record_loop d s1 = Ret r \<and> as_int v \<noteq> 0 \<and> \<not> as_int v > vlen s \<and>
          amsg_csmulti_request_record_size d (vbuf s) (as_int v) = Some n \<and> \<not> (n < 0 \<or> n > as_int v)")
        case True
        then show ?thesis using "1.IH" [OF v(2,1) refl] by blast
      next
        case f: False
        with "1.prems" v n err_counts(2) [of "as_int v"] show ?thesis
          by (subst (asm) record_loop.simps)
            (auto simp: Let_def only_err_def simp del: record_loop.simps split: if_splits option.splits chk.splits)
      qed
    qed
  qed
  then show ?thesis by (auto simp: only_err_def)
qed

lemma err_csmulti: "only_err (steps (csmulti_steps d b))"
proof -
  have "only_err (steps [SHIFT_FIELD 16, if recoff < idlen then RETURN (-1) else SHIFT_CNT recoff])" for recoff idlen
    by (rule err_steps) (auto intro: err_basic err_counts)
  then show ?thesis unfolding csmulti_steps_def by (intro err_steps) (auto intro: err_basic err_counts err_field err_record_loop)
qed

lemma accepted_multi:
  assumes "session_accepts m" "be32 m 0 = ANOUBIS_P_CSMULTIREQUEST" "be16 m 12 = be16 m 14"
  shows "20 \<le> length m" "\<exists>s s'. record_loop m s = Val s' \<and> vbuf s = 16 + int (be16 m 12) \<and> vbuf s + vlen s \<le> int (length m)"
proof -
  let ?l = "int (length m)" and ?s0 = "\<lparr>vbuf = 0, vlen = int (length m), vsize = 0\<rparr>"
  define F where "F = field m 0 N_u32 (\<lambda>v. steps (if as_int v = ANOUBIS_P_CSMULTIREQUEST then csmulti_steps m 0 else checksum_steps m 0))"
  obtain n where n: "size_of [POP_CNT CSUM_LEN, CAST 4, F] 0 ?l = Some n" "0 \<le> n"
    using assms(1) by (auto simp: session_accepts_def amsg_sfs_checksumop_size_def F_def split: option.splits)
  have Fm: "F s = steps (csmulti_steps m 0) s" if "4 \<le> length m" for s
  proof -
    have "rd m 0 N_u32 = Val (be32 m 0)" using that by (simp add: rd_def be32_def)
    then show ?thesis using assms(2) by (simp add: F_def field_def ANOUBIS_P_CSMULTIREQUEST_def as_int_id)
  qed
  have l4: "4 \<le> length m"
  proof (rule ccontr)
    assume "\<not> 4 \<le> length m"
    then have "size_of [POP_CNT CSUM_LEN, CAST 4, F] 0 ?l = Some (-1)"
      by (simp add: size_of_def POP_CNT_def CSUM_LEN_def as_int_id Let_def)
    with n show False by simp
  qed
  have "only_err F" using err_csmulti Fm [OF l4] by (simp add: only_err_def)
  then have "only_err (steps [POP_CNT CSUM_LEN, CAST 4, F])" by (intro err_steps) (auto intro: err_basic err_counts)
  then have "steps [POP_CNT CSUM_LEN, CAST 4, F] ?s0 \<noteq> Ret n" using n(2) unfolding only_err_def by force
  then obtain s where s: "steps [POP_CNT CSUM_LEN, CAST 4, F] ?s0 = Val s" "n = vsize s" using size_of_Some [OF n(1,2)] by auto
  obtain s1 s2 where p: "POP_CNT CSUM_LEN ?s0 = Val s1" "CAST 4 s1 = Val s2" "F s2 = Val s"
    using s(1) unfolding steps_Val by auto
  have s1: "vbuf s1 = 0" "vlen s1 = ?l - 4"
    using p(1) by (auto simp: POP_CNT_def CSUM_LEN_def as_int_id ADD_SIZE_def Let_def split: if_splits)
  have s2: "s2 = s1" using p(2) by (simp add: CAST_Val)
  let ?G = "\<lambda>recoff idlen. steps [SHIFT_FIELD 16, if recoff < idlen then RETURN (-1) else SHIFT_CNT recoff]"
  have "steps (csmulti_steps m 0) s1 = Val s" using p(3) Fm [OF l4] s2 by simp
  then obtain s3 s4 recoff idlen where q: "16 \<le> vlen s1" "rd m 14 N_u16 = Val recoff" "rd m 12 N_u16 = Val idlen"
    "?G recoff idlen s1 = Val s3" "record_loop m s3 = Val s4"
    unfolding csmulti_steps_def steps_Val field_Val CAST_Val by auto
  show l: "20 \<le> length m" using q(1) s1 by linarith
  have v: "recoff = int (be16 m 12)" using q(2) l assms(3) be_value_bounds by (auto simp: rd_def be16_def)
  obtain s5 where g: "SHIFT_FIELD 16 s1 = Val s5" "SHIFT_CNT recoff s5 = Val s3"
    using q(4) unfolding steps_Val by (auto simp: RETURN_def split: if_splits)
  have "int (be16 m 12) < 65536" using be_value_bounds [of "take 2 (drop 12 m)"] l by (simp add: be16_def)
  then have "as_int recoff = recoff" using v by (simp add: as_int_id)
  with SHIFT_FIELD_Val [OF g(1)] SHIFT_CNT_Val [OF g(2)] s1 v
  have "vbuf s3 = 16 + int (be16 m 12)" "vbuf s3 + vlen s3 \<le> ?l" by auto
  with q(5) show "\<exists>s s'. record_loop m s = Val s' \<and> vbuf s = 16 + int (be16 m 12) \<and> vbuf s + vlen s \<le> ?l" by blast
qed

text \<open>
  C21. A multi request that the session engine forwards does not end the master while it is parsed, as long
  as the offset of the records that the session engine checked is the one that the master uses.
\<close>

theorem checked_request_parses:
  assumes "session_accepts m" "be32 m 0 = ANOUBIS_P_CSMULTIREQUEST" "be16 m 12 = be16 m 14"
    and "int (length m) \<le> ANOUBIS_MESSAGE_MAXLEN"
  shows "sfs_parse_csmulti E m u \<noteq> Abort"
proof -
  note a = accepted_multi [OF assms(1-3)]
  have len: "length m < 2 ^ 31" using assms(4) by (simp add: ANOUBIS_MESSAGE_MAXLEN_def)
  obtain s s' where s: "record_loop m s = Val s'" "vbuf s = 16 + int (be16 m 12)" "vbuf s + vlen s \<le> int (length m)" using a(2) by blast
  obtain offs where o: "csmulti_offsets m (16 + be16 m 12) = Ok offs" "\<forall>x\<in>set offs. x + 8 \<le> length m"
    using record_loop_offsets [OF s(1) _ s(3) len] s(2) by (auto simp: nat_add_distrib)
  have "abuf_check_ptr m 0 16 = Ok m" "abuf_open m 16 = Ok (drop 16 m)"
    using a(1) len by (simp_all add: abuf_check_ptr_def abuf_check_iff abuf_open_def)
  with o records_no_abort [OF len o(2)] show ?thesis
    by (cases "csmulti_records m (csum_op (be32 m 4)) offs") (auto simp: sfs_parse_csmulti_def Let_def split: option.splits)
qed

theorem checked_request_parses_witness:
  "session_accepts demo_multi \<and> sfs_parse_csmulti demo_env demo_multi 1000 \<noteq> Abort"
proof -
  have "session_accepts demo_multi" "be32 demo_multi 0 = ANOUBIS_P_CSMULTIREQUEST" "be16 demo_multi 12 = be16 demo_multi 14"
    "int (length demo_multi) \<le> ANOUBIS_MESSAGE_MAXLEN" by code_simp+
  from checked_request_parses [OF this] this(1) show ?thesis by simp
qed

text \<open>
  C39. The session engine checks the records of a multi request at the offset \<^verbatim>\<open>recoff\<close> of the message; the
  master parses them behind the key, at the offset \<^verbatim>\<open>idlen\<close>. With different offsets any user can send a request that
  is forwarded and fails an assertion in the master: the daemon ends.
\<close>

definition recoff_msg :: bytes where
  "recoff_msg = u32n 0x3110 @ u32n 0x2 @ u32n 1000 @ u16n 0 @ u16n 8 @ u32n 17 @ u32n 0 @ replicate 8 0 @ replicate 4 0"

theorem recoff_mismatch_aborts:
  "session_accepts recoff_msg \<and> dispatch_csmulti_request E tok 1000 recoff_msg m = Abort"
proof
  show "session_accepts recoff_msg" by code_simp
  have "abuf_check_ptr recoff_msg 0 16 = Ok recoff_msg" "abuf_open recoff_msg 16 = Ok (drop 16 recoff_msg)" "be16 recoff_msg 12 = 0"
    "csum_op (be32 recoff_msg 4) = CHECKSUM_DEL" "be32 recoff_msg 0 = ANOUBIS_P_CSMULTIREQUEST"
    "(word_of_int (be32 recoff_msg 8) :: uid) = 1000" "csmulti_offsets recoff_msg 16 = Abort"
    by code_simp+
  then show "dispatch_csmulti_request E tok 1000 recoff_msg m = Abort"
    by (simp add: dispatch_csmulti_request_def sfs_parse_csmulti_def csmulti_rights_def empty_op_def Let_def)
qed

end
