(* ===== verification/RbTree.thy ===== *)
theory RbTree
  imports Prelude "HOL-Library.Monad_Syntax"
begin

text \<open>
  The red-black trees of \<^verbatim>\<open>src/src/libanoubis/apn/rbtree.c\<close>, which hold the identifiers of rules.

  The entries are embedded in the rules and linked by pointers to children and parent, so the state is a heap of
  entries and the pointer to the root. A pointer is an address or NULL (\<open>None\<close>). Every function returns an option: it has no result
  if it follows a NULL pointer or if a loop does not end. Where the C code treats left and right by
  two copies of the same statements, the definitions have the side as a parameter (\<open>True\<close> is left).

  Shown here: on a red-black tree every operation has a result, which is a red-black tree again. Its
  entries are the old ones with the inserted entry or without the removed one, in the order of their keys.
\<close>

datatype rb_colour = ARB_RED | ARB_BLACK

type_synonym ptr = "nat option"

record rb_entry =
  rb_key :: u64
  rb_left :: ptr
  rb_right :: ptr
  rb_parent :: ptr
  rb_data :: ptr
  rb_col :: rb_colour

record rbt =
  rb_root :: ptr
  rb_ent :: "nat \<Rightarrow> rb_entry"

subsection \<open>Access to entries\<close>

definition set_ent :: "nat \<Rightarrow> (rb_entry \<Rightarrow> rb_entry) \<Rightarrow> rbt \<Rightarrow> rbt" where
  "set_ent a f s = s\<lparr>rb_ent := (rb_ent s)(a := f (rb_ent s a))\<rparr>"

abbreviation set_left :: "nat \<Rightarrow> ptr \<Rightarrow> rbt \<Rightarrow> rbt" where "set_left a x \<equiv> set_ent a (rb_left_update (\<lambda>_. x))"
abbreviation set_right :: "nat \<Rightarrow> ptr \<Rightarrow> rbt \<Rightarrow> rbt" where "set_right a x \<equiv> set_ent a (rb_right_update (\<lambda>_. x))"
abbreviation set_parent :: "nat \<Rightarrow> ptr \<Rightarrow> rbt \<Rightarrow> rbt" where "set_parent a x \<equiv> set_ent a (rb_parent_update (\<lambda>_. x))"
abbreviation set_col :: "nat \<Rightarrow> rb_colour \<Rightarrow> rbt \<Rightarrow> rbt" where "set_col a c \<equiv> set_ent a (rb_col_update (\<lambda>_. c))"

text \<open>\<^verbatim>\<open>if (x) x->parent = p;\<close>\<close>

definition link_parent :: "ptr \<Rightarrow> ptr \<Rightarrow> rbt \<Rightarrow> rbt" where
  "link_parent x p s = (case x of None \<Rightarrow> s | Some a \<Rightarrow> set_parent a p s)"

definition child :: "bool \<Rightarrow> rb_entry \<Rightarrow> ptr" where
  "child b e = (if b then rb_left e else rb_right e)"

definition set_child :: "bool \<Rightarrow> nat \<Rightarrow> ptr \<Rightarrow> rbt \<Rightarrow> rbt" where
  "set_child b a x = (if b then set_left a x else set_right a x)"

definition is_red :: "rbt \<Rightarrow> ptr \<Rightarrow> bool" where
  "is_red s x = (case x of None \<Rightarrow> False | Some a \<Rightarrow> rb_col (rb_ent s a) = ARB_RED)"

subsection \<open>Rotations\<close>

text \<open>The end of both rotations: the new top takes the place of the old one below the parent.\<close>

definition replace_top :: "ptr \<Rightarrow> nat \<Rightarrow> nat \<Rightarrow> rbt \<Rightarrow> rbt" where
  "replace_top p e r s =
     (case p of
        None \<Rightarrow> s\<lparr>rb_root := Some r\<rparr>
      | Some q \<Rightarrow> if rb_left (rb_ent s q) = Some e then set_left q (Some r) s else set_right q (Some r) s)"

definition rotate_left :: "nat \<Rightarrow> rbt \<Rightarrow> rbt option" where
  "rotate_left e s =
     (let p = rb_parent (rb_ent s e); l = rb_left (rb_ent s e) in
      case rb_right (rb_ent s e) of
        None \<Rightarrow> None
      | Some r \<Rightarrow>
          let rl = rb_left (rb_ent s r); rr = rb_right (rb_ent s r);
              s = link_parent rl (Some e) (link_parent l (Some e) (set_right e rl (set_left e l s)));
              s = link_parent rr (Some r) (set_parent e (Some r) (set_right r rr (set_left r (Some e) s)))
          in Some (replace_top p e r (set_parent r p s)))"

definition rotate_right :: "nat \<Rightarrow> rbt \<Rightarrow> rbt option" where
  "rotate_right e s =
     (let p = rb_parent (rb_ent s e); r = rb_right (rb_ent s e) in
      case rb_left (rb_ent s e) of
        None \<Rightarrow> None
      | Some l \<Rightarrow>
          let ll = rb_left (rb_ent s l); lr = rb_right (rb_ent s l);
              s = link_parent lr (Some e) (link_parent r (Some e) (set_right e r (set_left e lr s)));
              s = set_parent e (Some l) (link_parent ll (Some l) (set_right l (Some e) (set_left l ll s)))
          in Some (replace_top p e l (set_parent l p s)))"

text \<open>The rotation towards a side.\<close>

definition rotate_to :: "bool \<Rightarrow> nat \<Rightarrow> rbt \<Rightarrow> rbt option" where
  "rotate_to b = (if b then rotate_left else rotate_right)"

subsection \<open>Search and insertion\<close>

partial_function (option) find_loop :: "rbt \<Rightarrow> u64 \<Rightarrow> ptr \<Rightarrow> ptr option" where
  "find_loop s k x =
     (case x of
        None \<Rightarrow> Some None
      | Some a \<Rightarrow>
          if rb_key (rb_ent s a) = k then Some (Some a)
          else find_loop s k (child (rb_key (rb_ent s a) > k) (rb_ent s a)))"

definition rb_find :: "rbt \<Rightarrow> u64 \<Rightarrow> ptr option" where
  "rb_find s k = find_loop s k (rb_root s)"

text \<open>The variable \<^verbatim>\<open>rp\<close> points to the root pointer or to a child pointer of an entry.\<close>

datatype slot = Root_slot | Child_slot bool nat

definition get_slot :: "rbt \<Rightarrow> slot \<Rightarrow> ptr" where
  "get_slot s rp = (case rp of Root_slot \<Rightarrow> rb_root s | Child_slot b a \<Rightarrow> child b (rb_ent s a))"

definition set_slot :: "slot \<Rightarrow> ptr \<Rightarrow> rbt \<Rightarrow> rbt" where
  "set_slot rp x s = (case rp of Root_slot \<Rightarrow> s\<lparr>rb_root := x\<rparr> | Child_slot b a \<Rightarrow> set_child b a x s)"

text \<open>The descent to the free place; no place if the key is there already.\<close>

partial_function (option) place_loop :: "rbt \<Rightarrow> u64 \<Rightarrow> ptr \<Rightarrow> slot \<Rightarrow> (slot \<times> ptr) option option" where
  "place_loop s k parent rp =
     (case get_slot s rp of
        None \<Rightarrow> Some (Some (rp, parent))
      | Some a \<Rightarrow>
          if rb_key (rb_ent s a) = k then Some None
          else place_loop s k (Some a) (Child_slot (rb_key (rb_ent s a) > k) a))"

text \<open>The last step of the repair: rotate the grandparent, then colour.\<close>

definition insert_rotate :: "nat \<Rightarrow> nat \<Rightarrow> nat \<Rightarrow> rbt \<Rightarrow> rbt option" where
  "insert_rotate n parent gp s = do {
     s \<leftarrow> (if rb_left (rb_ent s gp) = Some parent \<and> rb_right (rb_ent s parent) = Some n then rotate_left parent s
          else if rb_right (rb_ent s gp) = Some parent \<and> rb_left (rb_ent s parent) = Some n then rotate_right parent s
          else Some s);
     let b = is_red s (rb_left (rb_ent s gp));
     r \<leftarrow> child b (rb_ent s gp);
     s \<leftarrow> rotate_to (\<not> b) gp s;
     let s = set_col r ARB_BLACK s;
     right \<leftarrow> rb_right (rb_ent s r);
     left \<leftarrow> rb_left (rb_ent s r);
     let s = set_col left ARB_RED (set_col right ARB_RED s);
     root \<leftarrow> rb_root s;
     Some (set_col root ARB_BLACK s)
   }"

partial_function (option) insert_fixup :: "nat \<Rightarrow> ptr \<Rightarrow> rbt \<Rightarrow> rbt option" where
  "insert_fixup n parent s =
     (case parent of
        None \<Rightarrow> Some (set_col n ARB_BLACK s)
      | Some p \<Rightarrow>
          if rb_col (rb_ent s p) = ARB_BLACK then Some s
          else do {
            gp \<leftarrow> rb_parent (rb_ent s p);
            if is_red s (rb_left (rb_ent s gp)) \<and> is_red s (rb_right (rb_ent s gp)) then do {
              let s = (if rb_root s \<noteq> Some gp then set_col gp ARB_RED s else s);
              right \<leftarrow> rb_right (rb_ent s gp);
              left \<leftarrow> rb_left (rb_ent s gp);
              let s = set_col left ARB_BLACK (set_col right ARB_BLACK s);
              insert_fixup gp (rb_parent (rb_ent s gp)) s
            } else insert_rotate n p gp s
          })"

definition rb_insert_entry :: "nat \<Rightarrow> rbt \<Rightarrow> (int \<times> rbt) option" where
  "rb_insert_entry n s = do {
     place \<leftarrow> place_loop s (rb_key (rb_ent s n)) None Root_slot;
     case place of
       None \<Rightarrow> Some (0, s)
     | Some (rp, parent) \<Rightarrow> do {
         let s = set_slot rp (Some n) s;
         let s = set_col n ARB_RED (set_parent n parent (set_left n None (set_right n None s)));
         s \<leftarrow> insert_fixup n parent s;
         Some (1, s)
       }
   }"

subsection \<open>Removal\<close>

text \<open>\<^verbatim>\<open>RBSWAP(left)\<close> and \<^verbatim>\<open>RBSWAP(right)\<close>, with the case that the second entry is the child of the first.\<close>

definition swap_child :: "bool \<Rightarrow> nat \<Rightarrow> nat \<Rightarrow> rbt \<Rightarrow> rbt" where
  "swap_child b e1 e2 s =
     (let x = child b (rb_ent s e1) in set_child b e2 x (set_child b e1 (child b (rb_ent s e2)) s))"

definition swap_adjacent :: "bool \<Rightarrow> nat \<Rightarrow> nat \<Rightarrow> rbt \<Rightarrow> rbt" where
  "swap_adjacent b e1 e2 s =
     (if child b (rb_ent s e1) = Some e2
      then set_child b e2 (Some e1) (set_child b e1 (child b (rb_ent s e2)) s)
      else swap_child b e1 e2 s)"

text \<open>\<^verbatim>\<open>if (e1root) *root = e2; else if (e1left) e2->parent->left = e2; else e2->parent->right = e2;\<close>\<close>

definition swap_above :: "bool \<Rightarrow> bool \<Rightarrow> nat \<Rightarrow> rbt \<Rightarrow> rbt option" where
  "swap_above isroot left e s =
     (if isroot then Some (s\<lparr>rb_root := Some e\<rparr>)
      else case rb_parent (rb_ent s e) of None \<Rightarrow> None | Some q \<Rightarrow> Some (set_child left q (Some e) s))"

definition is_left :: "nat \<Rightarrow> rbt \<Rightarrow> bool" where
  "is_left e s = (case rb_parent (rb_ent s e) of None \<Rightarrow> False | Some q \<Rightarrow> rb_left (rb_ent s q) = Some e)"

definition swap_entries :: "nat \<Rightarrow> nat \<Rightarrow> rbt \<Rightarrow> rbt option" where
  "swap_entries e1 e2 s = do {
     let e1root = (rb_parent (rb_ent s e1) = None);
     let e1left = is_left e1 s;
     let e2root = (rb_parent (rb_ent s e2) = None);
     let e2left = is_left e2 s;
     let tmpcol = rb_col (rb_ent s e1);
     let s = set_col e2 tmpcol (set_col e1 (rb_col (rb_ent s e2)) s);
     let p = rb_parent (rb_ent s e1);
     let s = (if rb_parent (rb_ent s e2) = Some e1
              then swap_adjacent False e1 e2 (swap_adjacent True e1 e2 (set_parent e1 (Some e2) (set_parent e2 p s)))
              else swap_child False e1 e2 (swap_child True e1 e2
                     (set_parent e2 p (set_parent e1 (rb_parent (rb_ent s e2)) s))));
     s \<leftarrow> swap_above e1root e1left e2 s;
     s \<leftarrow> swap_above e2root e2left e1 s;
     let s = link_parent (rb_left (rb_ent s e1)) (Some e1) s;
     let s = link_parent (rb_right (rb_ent s e1)) (Some e1) s;
     let s = link_parent (rb_left (rb_ent s e2)) (Some e2) s;
     Some (link_parent (rb_right (rb_ent s e2)) (Some e2) s)
   }"

definition rb_swap :: "nat \<Rightarrow> nat \<Rightarrow> rbt \<Rightarrow> rbt option" where
  "rb_swap e1 e2 s = (if rb_parent (rb_ent s e1) = Some e2 then swap_entries e2 e1 s else swap_entries e1 e2 s)"

definition children_black :: "rbt \<Rightarrow> nat \<Rightarrow> bool" where
  "children_black s a \<longleftrightarrow> \<not> is_red s (rb_left (rb_ent s a)) \<and> \<not> is_red s (rb_right (rb_ent s a))"

text \<open>The parent \<^verbatim>\<open>p\<close> lacks a black entry on the side \<^verbatim>\<open>pleft\<close>. Case 1 of the repair.\<close>

definition sibling_black :: "nat \<Rightarrow> bool \<Rightarrow> rbt \<Rightarrow> rbt option" where
  "sibling_black p pleft s = do {
     w \<leftarrow> child (\<not> pleft) (rb_ent s p);
     if rb_col (rb_ent s w) = ARB_RED then rotate_to pleft p (set_col p ARB_RED (set_col w ARB_BLACK s)) else Some s
   }"

text \<open>Case 3.\<close>

definition remove_rotate :: "nat \<Rightarrow> bool \<Rightarrow> rbt \<Rightarrow> rbt option" where
  "remove_rotate p pleft s = do {
     w \<leftarrow> child (\<not> pleft) (rb_ent s p);
     s \<leftarrow> (if \<not> is_red s (child (\<not> pleft) (rb_ent s w)) then do {
            s \<leftarrow> rotate_to (\<not> pleft) w s;
            w \<leftarrow> child (\<not> pleft) (rb_ent s p);
            let s = set_col w ARB_BLACK s;
            f \<leftarrow> child (\<not> pleft) (rb_ent s w);
            Some (set_col f ARB_RED s)
          } else Some s);
     w \<leftarrow> child (\<not> pleft) (rb_ent s p);
     f \<leftarrow> child (\<not> pleft) (rb_ent s w);
     let s = set_col f ARB_BLACK s;
     let s = set_col w (rb_col (rb_ent s p)) s;
     let s = set_col p ARB_BLACK s;
     s \<leftarrow> rotate_to pleft p s;
     Some (case rb_root s of None \<Rightarrow> s | Some r \<Rightarrow> set_col r ARB_BLACK s)
   }"

partial_function (option) remove_fixup :: "nat \<Rightarrow> bool \<Rightarrow> rbt \<Rightarrow> rbt option" where
  "remove_fixup p pleft s = do {
     s \<leftarrow> sibling_black p pleft s;
     w \<leftarrow> child (\<not> pleft) (rb_ent s p);
     if rb_col (rb_ent s w) = ARB_BLACK \<and> children_black s w then
       (let s' = set_col w ARB_RED s in
        if rb_col (rb_ent s p) = ARB_BLACK
        then (case rb_parent (rb_ent s' p) of
                None \<Rightarrow> Some s'
              | Some q \<Rightarrow> remove_fixup q (rb_left (rb_ent s' q) = Some p) s')
        else Some (set_col p ARB_BLACK s'))
     else remove_rotate p pleft s
   }"

text \<open>\<^verbatim>\<open>while (swp->right) swp = swp->right;\<close>\<close>

partial_function (option) rightmost :: "rbt \<Rightarrow> nat \<Rightarrow> nat option" where
  "rightmost s a = (case rb_right (rb_ent s a) of None \<Rightarrow> Some a | Some b \<Rightarrow> rightmost s b)"

text \<open>Unlink an entry with at most one child, then repair.\<close>

definition unlink :: "nat \<Rightarrow> rbt \<Rightarrow> rbt option" where
  "unlink e s =
     (let cld = (case rb_left (rb_ent s e) of None \<Rightarrow> rb_right (rb_ent s e) | Some l \<Rightarrow> Some l);
          p = rb_parent (rb_ent s e);
          s = link_parent cld p s;
          pleft = is_left e s;
          s = (case p of None \<Rightarrow> s\<lparr>rb_root := cld\<rparr> | Some q \<Rightarrow> set_child pleft q cld s)
      in if rb_col (rb_ent s e) = ARB_RED then Some s
         else if is_red s cld then Some (set_col (the cld) ARB_BLACK s)
         else if rb_root s = None then Some s
         else if rb_root s = cld then Some (set_col (the cld) ARB_BLACK s)
         else case p of None \<Rightarrow> None | Some q \<Rightarrow> remove_fixup q pleft s)"

definition rb_remove_entry :: "nat \<Rightarrow> rbt \<Rightarrow> rbt option" where
  "rb_remove_entry e s =
     (case rb_left (rb_ent s e) of
        None \<Rightarrow> unlink e s
      | Some l \<Rightarrow> do { swp \<leftarrow> rightmost s l; s \<leftarrow> rb_swap e swp s; unlink e s })"

definition rb_remove :: "u64 \<Rightarrow> rbt \<Rightarrow> (int \<times> rbt) option" where
  "rb_remove k s = do {
     x \<leftarrow> rb_find s k;
     case x of None \<Rightarrow> Some (0, s) | Some e \<Rightarrow> map_option (Pair 1) (rb_remove_entry e s)
   }"


subsection \<open>Trees and contexts\<close>

datatype tree = Lf | Nd rb_colour tree nat tree

fun ptr_of :: "tree \<Rightarrow> ptr" where
  "ptr_of Lf = None"
| "ptr_of (Nd c l a r) = Some a"

fun inorder :: "tree \<Rightarrow> nat list" where
  "inorder Lf = []"
| "inorder (Nd c l a r) = inorder l @ a # inorder r"

text \<open>The heap holds a tree below a parent.\<close>

fun shape :: "(nat \<Rightarrow> rb_entry) \<Rightarrow> ptr \<Rightarrow> tree \<Rightarrow> bool" where
  "shape h p Lf \<longleftrightarrow> True"
| "shape h p (Nd c l a r) \<longleftrightarrow>
     rb_parent (h a) = p \<and> rb_col (h a) = c \<and> rb_left (h a) = ptr_of l \<and> rb_right (h a) = ptr_of r \<and>
     shape h (Some a) l \<and> shape h (Some a) r"

definition rep :: "rbt \<Rightarrow> tree \<Rightarrow> bool" where
  "rep s t \<longleftrightarrow> rb_root s = ptr_of t \<and> shape (rb_ent s) None t \<and> distinct (inorder t)"

text \<open>
  An entry with a subtree on side \<open>b\<close> and another one on the other side. A context is the path from a subtree to the
  root: the side of the subtree, colour and address of the entry above it, and the sibling.
\<close>

definition nd :: "bool \<Rightarrow> rb_colour \<Rightarrow> tree \<Rightarrow> nat \<Rightarrow> tree \<Rightarrow> tree" where
  "nd b c t a u = (if b then Nd c t a u else Nd c u a t)"

type_synonym step = "bool \<times> rb_colour \<times> nat \<times> tree"

fun plug :: "step list \<Rightarrow> tree \<Rightarrow> tree" where
  "plug [] t = t"
| "plug ((b, c, a, u) # cs) t = plug cs (nd b c t a u)"

fun above :: "step list \<Rightarrow> ptr" where
  "above [] = None"
| "above ((b, c, a, u) # cs) = Some a"

fun around :: "(nat \<Rightarrow> rb_entry) \<Rightarrow> ptr \<Rightarrow> step list \<Rightarrow> ptr \<Rightarrow> bool" where
  "around h r [] x \<longleftrightarrow> r = x"
| "around h r ((b, c, a, u) # cs) x \<longleftrightarrow>
     child b (h a) = x \<and> child (\<not> b) (h a) = ptr_of u \<and> rb_parent (h a) = above cs \<and> rb_col (h a) = c \<and>
     shape h (Some a) u \<and> around h r cs (Some a)"

fun outside :: "step list \<Rightarrow> nat set" where
  "outside [] = {}"
| "outside ((b, c, a, u) # cs) = insert a (set (inorder u) \<union> outside cs)"

fun outside_distinct :: "step list \<Rightarrow> bool" where
  "outside_distinct [] \<longleftrightarrow> True"
| "outside_distinct ((b, c, a, u) # cs) \<longleftrightarrow>
     a \<notin> set (inorder u) \<and> a \<notin> outside cs \<and> set (inorder u) \<inter> outside cs = {} \<and> distinct (inorder u) \<and> outside_distinct cs"

lemma ptr_of_nd [simp]: "ptr_of (nd b c t a u) = Some a" by (simp add: nd_def)

lemma set_nd [simp]: "set (inorder (nd b c t a u)) = insert a (set (inorder t) \<union> set (inorder u))"
  by (auto simp: nd_def)

lemma distinct_nd [simp]:
  "distinct (inorder (nd b c t a u)) \<longleftrightarrow>
     a \<notin> set (inorder t) \<and> a \<notin> set (inorder u) \<and> set (inorder t) \<inter> set (inorder u) = {} \<and>
     distinct (inorder t) \<and> distinct (inorder u)"
  by (auto simp: nd_def)

lemma shape_nd [simp]:
  "shape h p (nd b c t a u) \<longleftrightarrow>
     rb_parent (h a) = p \<and> rb_col (h a) = c \<and> child b (h a) = ptr_of t \<and> child (\<not> b) (h a) = ptr_of u \<and>
     shape h (Some a) t \<and> shape h (Some a) u"
  by (auto simp: nd_def child_def)

text \<open>A tree at the end of a context, seen from the heap.\<close>

definition focus :: "rbt \<Rightarrow> step list \<Rightarrow> tree \<Rightarrow> bool" where
  "focus s cs t \<longleftrightarrow>
     shape (rb_ent s) (above cs) t \<and> around (rb_ent s) (rb_root s) cs (ptr_of t) \<and> distinct (inorder t) \<and>
     outside_distinct cs \<and> set (inorder t) \<inter> outside cs = {}"

lemma focus_step: "focus s ((b, c, a, u) # cs) t \<longleftrightarrow> focus s cs (nd b c t a u)"
  unfolding focus_def by (auto 4 3)

lemma focus_iff: "rep s (plug cs t) \<longleftrightarrow> focus s cs t"
proof (induction cs arbitrary: t)
  case Nil
  show ?case by (auto simp: rep_def focus_def)
next
  case (Cons st cs)
  obtain b c a u where st: "st = (b, c, a, u)" by (cases st)
  show ?case using Cons.IH [of "nd b c t a u"] by (simp add: st focus_step)
qed

lemma set_plug: "set (inorder (plug cs t)) = set (inorder t) \<union> outside cs"
  by (induction cs t rule: plug.induct) auto

lemma plug_append: "plug (cs @ ds) t = plug ds (plug cs t)"
  by (induction cs t rule: plug.induct) auto

lemma shape_cong: "\<forall>a\<in>set (inorder t). h' a = h a \<Longrightarrow> shape h' p t = shape h p t"
  by (induction t arbitrary: p) auto

lemma around_cong: "\<forall>a\<in>outside cs. h' a = h a \<Longrightarrow> around h' r cs x = around h r cs x"
proof (induction cs arbitrary: x)
  case (Cons st cs)
  obtain b c a u where st: "st = (b, c, a, u)" by (cases st)
  have "shape h' (Some a) u = shape h (Some a) u" using Cons.prems by (intro shape_cong) (simp add: st)
  then show ?case using Cons by (simp add: st)
qed simp

text \<open>What an operation on a set of entries leaves alone.\<close>

definition frame :: "nat set \<Rightarrow> rbt \<Rightarrow> rbt \<Rightarrow> bool" where
  "frame A s s' \<longleftrightarrow>
     (\<forall>a. rb_key (rb_ent s' a) = rb_key (rb_ent s a) \<and> rb_data (rb_ent s' a) = rb_data (rb_ent s a) \<and>
          (a \<notin> A \<longrightarrow> rb_ent s' a = rb_ent s a))"

lemma frame_refl [simp]: "frame A s s" by (simp add: frame_def)

lemma frame_trans: "frame A s s' \<Longrightarrow> frame B s' s'' \<Longrightarrow> A \<subseteq> C \<Longrightarrow> B \<subseteq> C \<Longrightarrow> frame C s s''"
  unfolding frame_def by (metis subset_iff)

lemma frame_mono: "frame A s s' \<Longrightarrow> A \<subseteq> C \<Longrightarrow> frame C s s'" by (auto simp: frame_def)

lemma set_ent_simps [simp]:
  "rb_root (set_ent a f s) = rb_root s"
  "rb_ent (set_ent a f s) x = (if x = a then f (rb_ent s a) else rb_ent s x)"
  by (simp_all add: set_ent_def)

lemma set_child_simps [simp]:
  "rb_root (set_child b a x s) = rb_root s"
  "y \<noteq> a \<Longrightarrow> rb_ent (set_child b a x s) y = rb_ent s y"
  "child b (rb_ent (set_child b a x s) a) = x"
  "child (\<not> b) (rb_ent (set_child b a x s) a) = child (\<not> b) (rb_ent s a)"
  "rb_parent (rb_ent (set_child b a x s) y) = rb_parent (rb_ent s y)"
  "rb_col (rb_ent (set_child b a x s) y) = rb_col (rb_ent s y)"
  "rb_key (rb_ent (set_child b a x s) y) = rb_key (rb_ent s y)"
  "rb_data (rb_ent (set_child b a x s) y) = rb_data (rb_ent s y)"
  by (simp_all add: set_child_def child_def)

lemma link_parent_simps [simp]:
  "rb_root (link_parent x p s) = rb_root s"
  "rb_ent (link_parent x p s) a = (if x = Some a then (rb_ent s a)\<lparr>rb_parent := p\<rparr> else rb_ent s a)"
  by (auto simp: link_parent_def split: option.splits)

text \<open>A tree but for the parent pointer of its root.\<close>

fun body :: "(nat \<Rightarrow> rb_entry) \<Rightarrow> tree \<Rightarrow> bool" where
  "body h Lf \<longleftrightarrow> True"
| "body h (Nd c l a r) \<longleftrightarrow>
     rb_col (h a) = c \<and> rb_left (h a) = ptr_of l \<and> rb_right (h a) = ptr_of r \<and> shape h (Some a) l \<and> shape h (Some a) r"

lemma shape_body: "shape h p t \<Longrightarrow> body h t" by (cases t) auto

lemma ptr_of_in: "ptr_of t = Some a \<Longrightarrow> a \<in> set (inorder t)" by (cases t) auto

lemma shape_upd [simp]:
  "a \<notin> set (inorder t) \<Longrightarrow> shape (rb_ent (set_ent a f s)) p t = shape (rb_ent s) p t"
  "a \<notin> set (inorder t) \<Longrightarrow> shape (rb_ent (set_child b a x s)) p t = shape (rb_ent s) p t"
  "set (inorder u) \<inter> set (inorder t) = {} \<Longrightarrow> shape (rb_ent (link_parent (ptr_of u) q s)) p t = shape (rb_ent s) p t"
  "shape (rb_ent (rb_root_update g s)) p t = shape (rb_ent s) p t"
  by (auto simp: set_child_def disjoint_iff intro!: shape_cong dest!: ptr_of_in)

lemma around_upd [simp]:
  "a \<notin> outside cs \<Longrightarrow> around (rb_ent (set_ent a f s)) r cs x = around (rb_ent s) r cs x"
  "a \<notin> outside cs \<Longrightarrow> around (rb_ent (set_child b a y s)) r cs x = around (rb_ent s) r cs x"
  by (auto simp: set_child_def intro!: around_cong)

lemma body_upd [simp]:
  "a \<notin> set (inorder t) \<Longrightarrow> body (rb_ent (set_ent a f s)) t = body (rb_ent s) t"
  "a \<notin> set (inorder t) \<Longrightarrow> body (rb_ent (set_child b a x s)) t = body (rb_ent s) t"
  "set (inorder u) \<inter> set (inorder t) = {} \<Longrightarrow> body (rb_ent (link_parent (ptr_of u) q s)) t = body (rb_ent s) t"
  by (cases t; auto simp: disjoint_iff dest: ptr_of_in)+

lemma shape_link_own [simp]:
  "distinct (inorder t) \<Longrightarrow> shape (rb_ent (link_parent (ptr_of t) q s)) q t = body (rb_ent s) t"
  by (cases t) (auto simp: link_parent_def)

lemma frame_upd:
  "frame A s s1 \<Longrightarrow> a \<in> A \<Longrightarrow> frame A s (set_left a x s1)"
  "frame A s s1 \<Longrightarrow> a \<in> A \<Longrightarrow> frame A s (set_right a x s1)"
  "frame A s s1 \<Longrightarrow> a \<in> A \<Longrightarrow> frame A s (set_parent a x s1)"
  "frame A s s1 \<Longrightarrow> a \<in> A \<Longrightarrow> frame A s (set_col a c s1)"
  "frame A s s1 \<Longrightarrow> a \<in> A \<Longrightarrow> frame A s (set_child b a x s1)"
  "frame A s s1 \<Longrightarrow> (\<And>a. y = Some a \<Longrightarrow> a \<in> A) \<Longrightarrow> frame A s (link_parent y x s1)"
  "frame A s s1 \<Longrightarrow> frame A s (rb_root_update g s1)"
  by (auto simp: frame_def set_child_def)

text \<open>Put another subtree at the end of a context.\<close>

fun attach :: "step list \<Rightarrow> ptr \<Rightarrow> rbt \<Rightarrow> rbt" where
  "attach [] x s = s\<lparr>rb_root := x\<rparr>"
| "attach ((b, c, a, u) # cs) x s = set_child b a x s"

lemma attach_inside: "a \<notin> outside cs \<Longrightarrow> rb_ent (attach cs x s) a = rb_ent s a"
  by (cases "(cs, x, s)" rule: attach.cases) auto

lemma attach_around:
  "around (rb_ent s) (rb_root s) cs y \<Longrightarrow> outside_distinct cs \<Longrightarrow>
     around (rb_ent (attach cs x s)) (rb_root (attach cs x s)) cs x"
  by (cases "(cs, x, s)" rule: attach.cases)
    auto

lemma attach_frame: "frame (outside cs) s (attach cs x s)"
  by (cases "(cs, x, s)" rule: attach.cases) (auto simp: frame_def)

lemma replace_top_attach:
  assumes "around (rb_ent s) (rb_root s) cs (Some e)" "outside_distinct cs" "e \<notin> outside cs"
  shows "replace_top (above cs) e r s = attach cs (Some r) s"
proof (cases cs)
  case (Cons st cs')
  obtain b c a u where st: "st = (b, c, a, u)" by (cases st)
  have "ptr_of u \<noteq> Some e" using assms by (cases u) (auto simp: Cons st)
  then show ?thesis using assms by (cases b) (auto simp: Cons st replace_top_def set_child_def child_def)
qed (simp add: replace_top_def)

text \<open>To replace a subtree and its place in the context.\<close>

lemma focus_attach:
  assumes "focus s cs t" "\<forall>a\<in>outside cs. rb_ent s1 a = rb_ent s a" "rb_root s1 = rb_root s"
    and "shape (rb_ent s1) (above cs) t'" "distinct (inorder t')" "set (inorder t') \<subseteq> set (inorder t)"
  shows "focus (attach cs (ptr_of t') s1) cs t'"
proof -
  have "around (rb_ent s1) (rb_root s1) cs (ptr_of t)"
    using assms(1-3) around_cong [of cs "rb_ent s1" "rb_ent s"] by (simp add: focus_def)
  then have "around (rb_ent (attach cs (ptr_of t') s1)) (rb_root (attach cs (ptr_of t') s1)) cs (ptr_of t')"
    using assms(1) by (intro attach_around) (auto simp: focus_def)
  moreover have "shape (rb_ent (attach cs (ptr_of t') s1)) (above cs) t' = shape (rb_ent s1) (above cs) t'"
    using assms(1,6) by (intro shape_cong) (auto simp: focus_def intro!: attach_inside)
  ultimately show ?thesis using assms by (auto simp: focus_def)
qed

text \<open>The rotations.\<close>

lemma frame_outside: "frame A s s' \<Longrightarrow> a \<notin> A \<Longrightarrow> rb_ent s' a = rb_ent s a" by (simp add: frame_def)

lemma focus_outside: "focus s cs t \<Longrightarrow> a \<in> outside cs \<Longrightarrow> a \<notin> set (inorder t)" by (auto simp: focus_def)

lemma rotate_finish:
  assumes f: "focus s cs t" and fr: "frame (set (inorder t)) s s1" and r: "rb_root s1 = rb_root s"
    and sh: "shape (rb_ent s1) (above cs) t'" and t: "inorder t' = inorder t" "ptr_of t = Some e" "ptr_of t' = Some a"
  shows "focus (replace_top (above cs) e a s1) cs t' \<and> frame (set (inorder t) \<union> outside cs) s (replace_top (above cs) e a s1)"
proof -
  have o: "\<forall>a\<in>outside cs. rb_ent s1 a = rb_ent s a" using f fr by (blast dest: frame_outside focus_outside)
  have "e \<notin> outside cs" using f t(2) focus_outside [of s cs t e] ptr_of_in [of t e] by blast
  then have 2: "replace_top (above cs) e a s1 = attach cs (ptr_of t') s1"
    using f o r t by (simp add: focus_def around_cong [of cs "rb_ent s1" "rb_ent s"] replace_top_attach)
  have "focus (attach cs (ptr_of t') s1) cs t'" using f t(1) by (intro focus_attach [OF f o r sh]) (simp_all add: focus_def)
  then show ?thesis unfolding 2 using frame_trans [OF fr attach_frame, of _ cs] by simp
qed

text \<open>What both rotations need of the three subtrees and the two entries.\<close>

lemma three_subtrees:
  assumes "focus s cs (nd b c x e (nd d c' y r z))"
  shows "set (inorder x) \<inter> set (inorder y) = {}" "set (inorder x) \<inter> set (inorder z) = {}" "set (inorder y) \<inter> set (inorder z) = {}"
    "set (inorder z) \<inter> set (inorder x) = {}" "set (inorder y) \<inter> set (inorder x) = {}" "set (inorder z) \<inter> set (inorder y) = {}"
    "e \<noteq> r" "r \<noteq> e" "e \<notin> set (inorder x)" "e \<notin> set (inorder y)" "e \<notin> set (inorder z)"
    "r \<notin> set (inorder x)" "r \<notin> set (inorder y)" "r \<notin> set (inorder z)"
    "body (rb_ent s) x" "body (rb_ent s) y" "body (rb_ent s) z" "distinct (inorder x)" "distinct (inorder y)" "distinct (inorder z)"
    "rb_col (rb_ent s e) = c" "rb_col (rb_ent s r) = c'" "rb_parent (rb_ent s e) = above cs"
    "child b (rb_ent s e) = ptr_of x" "child (\<not> b) (rb_ent s e) = Some r" "child d (rb_ent s r) = ptr_of y" "child (\<not> d) (rb_ent s r) = ptr_of z"
    "ptr_of x \<noteq> Some e" "ptr_of y \<noteq> Some e" "ptr_of z \<noteq> Some e" "ptr_of x \<noteq> Some r" "ptr_of y \<noteq> Some r" "ptr_of z \<noteq> Some r"
  using assms ptr_of_in [of x] ptr_of_in [of y] ptr_of_in [of z] unfolding focus_def by (auto simp: shape_body)

lemma rotate_left_focus:
  assumes f: "focus s cs (Nd c x e (Nd c' y r z))"
  shows "\<exists>s'. rotate_left e s = Some s' \<and> focus s' cs (Nd c' (Nd c x e y) r z) \<and>
    frame (set (inorder (Nd c x e (Nd c' y r z))) \<union> outside cs) s s'"
proof -
  define s1 where "s1 = set_parent r (above cs) (link_parent (ptr_of z) (Some r) (set_parent e (Some r)
    (set_right r (ptr_of z) (set_left r (Some e) (link_parent (ptr_of y) (Some e)
      (link_parent (ptr_of x) (Some e) (set_right e (ptr_of y) (set_left e (ptr_of x) s))))))))"
  from f have "focus s cs (nd True c x e (nd True c' y r z))" by (simp add: nd_def)
  note t = three_subtrees [OF this, simplified child_def, simplified]
  have sh: "shape (rb_ent s1) (above cs) (Nd c' (Nd c x e y) r z)" by (simp add: s1_def t)
  have fr: "frame (set (inorder (Nd c x e (Nd c' y r z)))) s s1"
    unfolding s1_def by (intro frame_upd) (auto dest: ptr_of_in)
  have "rotate_left e s = Some (replace_top (above cs) e r s1)"
    by (simp add: rotate_left_def t s1_def Let_def)
  then show ?thesis using rotate_finish [OF f fr _ sh, of e r] by (simp add: s1_def)
qed

lemma rotate_right_focus:
  assumes f: "focus s cs (Nd c (Nd c' z r y) e x)"
  shows "\<exists>s'. rotate_right e s = Some s' \<and> focus s' cs (Nd c' z r (Nd c y e x)) \<and>
    frame (set (inorder (Nd c (Nd c' z r y) e x)) \<union> outside cs) s s'"
proof -
  define s1 where "s1 = set_parent r (above cs) (set_parent e (Some r) (link_parent (ptr_of z) (Some r)
    (set_right r (Some e) (set_left r (ptr_of z) (link_parent (ptr_of y) (Some e)
      (link_parent (ptr_of x) (Some e) (set_right e (ptr_of x) (set_left e (ptr_of y) s))))))))"
  from f have "focus s cs (nd False c x e (nd False c' y r z))" by (simp add: nd_def)
  note t = three_subtrees [OF this, simplified child_def, simplified]
  have sh: "shape (rb_ent s1) (above cs) (Nd c' z r (Nd c y e x))" by (simp add: s1_def t)
  have fr: "frame (set (inorder (Nd c (Nd c' z r y) e x))) s s1"
    unfolding s1_def by (intro frame_upd) (auto dest: ptr_of_in)
  have "rotate_right e s = Some (replace_top (above cs) e r s1)"
    by (simp add: rotate_right_def t s1_def Let_def)
  then show ?thesis using rotate_finish [OF f fr _ sh, of e r] by (simp add: s1_def)
qed

lemma rotate_focus:
  assumes "focus s cs (nd b c x e (nd b c' y r z))"
  shows "\<exists>s'. rotate_to b e s = Some s' \<and> focus s' cs (nd b c' (nd b c x e y) r z) \<and>
    frame (set (inorder (plug cs (nd b c x e (nd b c' y r z))))) s s'"
  using rotate_left_focus [of s cs c x e c' y r z] rotate_right_focus [of s cs c c' z r y e x] assms
  by (cases b) (auto simp: rotate_to_def nd_def set_plug)

subsection \<open>Red-black trees\<close>

fun colour :: "tree \<Rightarrow> rb_colour" where
  "colour Lf = ARB_BLACK"
| "colour (Nd c l a r) = c"

fun bheight :: "tree \<Rightarrow> nat" where
  "bheight Lf = 0"
| "bheight (Nd c l a r) = bheight l + (if c = ARB_BLACK then 1 else 0)"

fun invc :: "tree \<Rightarrow> bool" where
  "invc Lf \<longleftrightarrow> True"
| "invc (Nd c l a r) \<longleftrightarrow> (c = ARB_RED \<longrightarrow> colour l = ARB_BLACK \<and> colour r = ARB_BLACK) \<and> invc l \<and> invc r"

fun invh :: "tree \<Rightarrow> bool" where
  "invh Lf \<longleftrightarrow> True"
| "invh (Nd c l a r) \<longleftrightarrow> bheight l = bheight r \<and> invh l \<and> invh r"

definition red_black :: "tree \<Rightarrow> bool" where
  "red_black t \<longleftrightarrow> invc t \<and> invh t \<and> colour t = ARB_BLACK"

lemma not_black [simp]: "c \<noteq> ARB_BLACK \<longleftrightarrow> c = ARB_RED" by (cases c) auto

lemma not_red [simp]: "c \<noteq> ARB_RED \<longleftrightarrow> c = ARB_BLACK" by (cases c) auto

lemma colour_nd [simp]: "colour (nd b c t a u) = c" by (simp add: nd_def)

lemma invc_nd [simp]:
  "invc (nd b c t a u) \<longleftrightarrow> (c = ARB_RED \<longrightarrow> colour t = ARB_BLACK \<and> colour u = ARB_BLACK) \<and> invc t \<and> invc u"
  by (auto simp: nd_def)

lemma invh_nd [simp]: "invh (nd b c t a u) \<longleftrightarrow> bheight t = bheight u \<and> invh t \<and> invh u"
  by (auto simp: nd_def)

lemma bheight_nd: "bheight t = bheight u \<Longrightarrow> bheight (nd b c t a u) = bheight t + (if c = ARB_BLACK then 1 else 0)"
  by (auto simp: nd_def)

lemma nd_flip: "nd (\<not> b) c t a u = nd b c u a t" by (simp add: nd_def)

text \<open>What is above the hole of a context. Nothing above the root counts as red, since the root is black.\<close>

fun hole_colour :: "step list \<Rightarrow> rb_colour" where
  "hole_colour [] = ARB_RED"
| "hole_colour ((b, c, a, u) # cs) = c"

fun ctx_inv :: "step list \<Rightarrow> nat \<Rightarrow> bool" where
  "ctx_inv [] k \<longleftrightarrow> True"
| "ctx_inv ((b, c, a, u) # cs) k \<longleftrightarrow>
     invc u \<and> invh u \<and> bheight u = k \<and> (c = ARB_RED \<longrightarrow> colour u = ARB_BLACK \<and> hole_colour cs = ARB_BLACK) \<and>
     ctx_inv cs (k + (if c = ARB_BLACK then 1 else 0))"

lemma red_black_plug:
  "red_black (plug cs t) \<longleftrightarrow>
     invc t \<and> invh t \<and> ctx_inv cs (bheight t) \<and> (colour t = ARB_RED \<longrightarrow> hole_colour cs = ARB_BLACK)"
proof (induction cs arbitrary: t)
  case Nil
  show ?case by (auto simp: red_black_def)
next
  case (Cons st cs)
  obtain b c a u where st: "st = (b, c, a, u)" by (cases st)
  show ?case using Cons.IH [of "nd b c t a u"] by (cases "bheight t = bheight u") (auto simp: st bheight_nd)
qed

lemma inorder_nd: "inorder (nd b c t a u) = (if b then inorder t @ a # inorder u else inorder u @ a # inorder t)"
  by (simp add: nd_def)

lemma inorder_plug_cong: "inorder t = inorder t' \<Longrightarrow> inorder (plug cs t) = inorder (plug cs t')"
proof (induction cs arbitrary: t t')
  case (Cons st cs)
  obtain b c a u where st: "st = (b, c, a, u)" by (cases st)
  show ?case using Cons.prems Cons.IH [of "nd b c t a u" "nd b c t' a u"] by (simp add: st inorder_nd)
qed simp

text \<open>The colour of the entry in focus can be changed; the root of a red-black tree is black already.\<close>

lemma focus_set_col: "focus s cs (nd b c t a u) \<Longrightarrow> focus (set_col a c' s) cs (nd b c' t a u)"
  by (auto simp: focus_def child_def)

lemma set_col_same: "rb_col (rb_ent s a) = c \<Longrightarrow> set_col a c s = s"
proof -
  assume "rb_col (rb_ent s a) = c"
  then have "(rb_ent s a)\<lparr>rb_col := c\<rparr> = rb_ent s a" by (cases "rb_ent s a") simp
  then show ?thesis by (simp add: set_ent_def)
qed

lemma focus_entry:
  "focus s cs (nd b c t a u) \<Longrightarrow> rb_parent (rb_ent s a) = above cs \<and> rb_col (rb_ent s a) = c \<and>
     child b (rb_ent s a) = ptr_of t \<and> child (\<not> b) (rb_ent s a) = ptr_of u"
  by (simp add: focus_def)

lemma is_red_shape: "shape (rb_ent s) p t \<Longrightarrow> is_red s (ptr_of t) \<longleftrightarrow> colour t = ARB_RED"
  by (cases t) (auto simp: is_red_def)

lemma focus_red:
  "focus s cs (nd b c t a u) \<Longrightarrow> is_red s (ptr_of t) = (colour t = ARB_RED) \<and> is_red s (ptr_of u) = (colour u = ARB_RED)"
  by (auto simp: focus_def is_red_shape)

lemma rep_root_black: "rep s t \<Longrightarrow> red_black t \<Longrightarrow> rb_root s = Some a \<Longrightarrow> set_col a ARB_BLACK s = s"
  by (rule set_col_same) (cases t; auto simp: rep_def red_black_def)

lemma around_root: "around h r cs x \<Longrightarrow> cs \<noteq> [] \<Longrightarrow> \<exists>a\<in>outside cs. r = Some a"
proof (induction cs arbitrary: x)
  case (Cons st cs)
  then show ?case by (cases st; cases cs) auto
qed simp

lemma focus_root: "focus s cs t \<Longrightarrow> ptr_of t = Some a \<Longrightarrow> rb_root s = Some a \<longleftrightarrow> cs = []"
  using around_root [of "rb_ent s" "rb_root s" cs "ptr_of t"] ptr_of_in [of t a] by (auto simp: focus_def)

text \<open>The postcondition of all operations: a red-black tree with given entries in order, and nothing else changed.\<close>

definition done_with :: "nat list \<Rightarrow> nat set \<Rightarrow> rbt \<Rightarrow> rbt \<Rightarrow> bool" where
  "done_with xs A s s' \<longleftrightarrow> (\<exists>t. rep s' t \<and> red_black t \<and> inorder t = xs) \<and> frame A s s'"

lemma done_withI:
  "focus s' cs t \<Longrightarrow> red_black (plug cs t) \<Longrightarrow> inorder (plug cs t) = xs \<Longrightarrow> frame A s s' \<Longrightarrow> done_with xs A s s'"
  unfolding done_with_def by (auto simp flip: focus_iff)

lemma done_with_trans:
  "done_with xs A s1 s2 \<Longrightarrow> frame B s s1 \<Longrightarrow> A \<subseteq> C \<Longrightarrow> B \<subseteq> C \<Longrightarrow> done_with xs C s s2"
  unfolding done_with_def by (blast intro: frame_trans)

lemma focus_set_children:
  assumes "focus s cs (nd b c (nd b1 c1 t1 a1 u1) m (nd b2 c2 t2 a2 u2))"
  shows "focus (set_col a1 k1 (set_col a2 k2 s)) cs (nd b c (nd b1 k1 t1 a1 u1) m (nd b2 k2 t2 a2 u2))"
proof -
  have "focus s ((\<not> b, c, m, nd b1 c1 t1 a1 u1) # cs) (nd b2 c2 t2 a2 u2)" using assms by (simp add: focus_step nd_flip)
  from focus_set_col [OF this, of k2]
  have "focus (set_col a2 k2 s) ((b, c, m, nd b2 k2 t2 a2 u2) # cs) (nd b1 c1 t1 a1 u1)" by (simp add: focus_step nd_flip)
  from focus_set_col [OF this, of k1] show ?thesis by (simp add: focus_step)
qed

text \<open>Recolour an entry and both of its children, as the code does it.\<close>

lemma recolour:
  assumes f: "focus s cs (nd b c (nd b1 c1 t1 a1 u1) m (nd b2 c2 t2 a2 u2))"
  shows "\<exists>l r. rb_left (rb_ent s m) = Some l \<and> rb_right (rb_ent s m) = Some r \<and>
     (\<forall>s'. focus s' cs (nd b c (nd b1 c1 t1 a1 u1) m (nd b2 c2 t2 a2 u2)) \<longrightarrow>
       focus (set_col l k (set_col r k s')) cs (nd b c (nd b1 k t1 a1 u1) m (nd b2 k t2 a2 u2)) \<and>
       frame {a1, a2} s' (set_col l k (set_col r k s')))"
proof (cases b)
  case True
  then show ?thesis using focus_entry [OF f] focus_set_children [of _ cs b c b1 c1 t1 a1 u1 m b2 c2 t2 a2 u2 k k]
    by (intro exI [of _ a1] exI [of _ a2]) (auto simp: child_def intro!: frame_upd)
next
  case False
  then show ?thesis using focus_entry [OF f] focus_set_children [of _ cs "\<not> b" c b2 c2 t2 a2 u2 m b1 c1 t1 a1 u1 k k]
    by (intro exI [of _ a2] exI [of _ a1]) (auto simp: child_def nd_def intro!: frame_upd)
qed

subsection \<open>Insertion\<close>

lemma first_rotation:
  assumes "focus s ((d, ARB_BLACK, g, v) # cs) (nd b ARB_RED t p u)" "ptr_of t = Some n"
  shows "(if rb_left (rb_ent s g) = Some p \<and> rb_right (rb_ent s p) = Some n then rotate_left p s
          else if rb_right (rb_ent s g) = Some p \<and> rb_left (rb_ent s p) = Some n then rotate_right p s
          else Some s) = (if b \<noteq> d then rotate_to d p s else Some s)"
proof -
  have "ptr_of u \<noteq> Some n" "ptr_of v \<noteq> Some p"
    using assms ptr_of_in [of t] ptr_of_in [of u] ptr_of_in [of v] by (auto simp: focus_step focus_def)
  then show ?thesis using assms by (cases b; cases d) (simp_all add: focus_def child_def rotate_to_def)
qed

text \<open>The second rotation and the colours, with the upper red entry \<open>m\<close> on the outer side.\<close>

lemma second_rotation:
  assumes f: "focus s ((d, ARB_BLACK, g, v) # cs) (nd d ARB_RED (nd e ARB_RED x a y) m z)" and v: "colour v = ARB_BLACK"
    and i: "invc x" "invc y" "invc z" "invc v" "invh x" "invh y" "invh z" "invh v"
      "colour x = ARB_BLACK" "colour y = ARB_BLACK" "colour z = ARB_BLACK"
      "bheight x = k" "bheight y = k" "bheight z = k" "bheight v = k" "ctx_inv cs (Suc k)"
  shows "\<exists>s'. (do {
       let b = is_red s (rb_left (rb_ent s g));
       r \<leftarrow> child b (rb_ent s g);
       s \<leftarrow> rotate_to (\<not> b) g s;
       let s = set_col r ARB_BLACK s;
       right \<leftarrow> rb_right (rb_ent s r);
       left \<leftarrow> rb_left (rb_ent s r);
       let s = set_col left ARB_RED (set_col right ARB_RED s);
       root \<leftarrow> rb_root s;
       Some (set_col root ARB_BLACK s) }) = Some s' \<and>
     done_with (inorder (plug ((d, ARB_BLACK, g, v) # cs) (nd d ARB_RED (nd e ARB_RED x a y) m z)))
       (set (inorder (plug ((d, ARB_BLACK, g, v) # cs) (nd d ARB_RED (nd e ARB_RED x a y) m z)))) s s'"
proof -
  let ?T = "nd d ARB_RED (nd e ARB_RED x a y) m z"
  have f1: "focus s cs (nd d ARB_BLACK ?T g v)" using f by (simp add: focus_step)
  have red: "is_red s (rb_left (rb_ent s g)) = d"
    using focus_entry [OF f1] focus_red [OF f1] v by (cases d) (auto simp: child_def)
  have m: "child d (rb_ent s g) = Some m" using focus_entry [OF f1] by simp
  have "focus s cs (nd (\<not> d) ARB_BLACK v g (nd (\<not> d) ARB_RED z m (nd e ARB_RED x a y)))"
    using f1 by (simp add: nd_flip)
  from rotate_focus [OF this] obtain s1 where s1: "rotate_to (\<not> d) g s = Some s1"
    "focus s1 cs (nd (\<not> d) ARB_RED (nd (\<not> d) ARB_BLACK v g z) m (nd e ARB_RED x a y))"
    "frame (set (inorder (plug ((d, ARB_BLACK, g, v) # cs) ?T))) s s1" by (auto simp: nd_flip)
  let ?A = "set (inorder (plug ((d, ARB_BLACK, g, v) # cs) ?T))"
  have f2: "focus (set_col m ARB_BLACK s1) cs (nd (\<not> d) ARB_BLACK (nd (\<not> d) ARB_BLACK v g z) m (nd e ARB_RED x a y))"
    by (rule focus_set_col [OF s1(2)])
  from recolour [OF this, of ARB_RED] obtain l r where lr: "rb_left (rb_ent (set_col m ARB_BLACK s1) m) = Some l"
      "rb_right (rb_ent (set_col m ARB_BLACK s1) m) = Some r"
    and f3: "focus (set_col l ARB_RED (set_col r ARB_RED (set_col m ARB_BLACK s1))) cs
        (nd (\<not> d) ARB_BLACK (nd (\<not> d) ARB_RED v g z) m (nd e ARB_RED x a y))"
      "frame {g, a} (set_col m ARB_BLACK s1) (set_col l ARB_RED (set_col r ARB_RED (set_col m ARB_BLACK s1)))"
    using f2 by blast
  let ?s3 = "set_col l ARB_RED (set_col r ARB_RED (set_col m ARB_BLACK s1))"
  let ?t3 = "nd (\<not> d) ARB_BLACK (nd (\<not> d) ARB_RED v g z) m (nd e ARB_RED x a y)"
  have rb: "red_black (plug cs ?t3)" using i v by (auto simp: red_black_plug bheight_nd)
  have o: "inorder (plug cs ?t3) = inorder (plug ((d, ARB_BLACK, g, v) # cs) ?T)"
    by (auto simp: inorder_nd intro!: inorder_plug_cong)
  have "frame ?A s (set_col m ARB_BLACK s1)" using s1(3) by (auto simp: set_plug intro!: frame_upd)
  then have "frame ?A s ?s3" by (rule frame_trans [OF _ f3(2)]) (auto simp: set_plug)
  with f3(1) rb o have d: "done_with (inorder (plug ((d, ARB_BLACK, g, v) # cs) ?T)) ?A s ?s3" by (intro done_withI)
  obtain root where root: "rb_root ?s3 = Some root" using f3(1) by (cases cs) (auto simp: focus_def dest!: around_root)
  have "set_col root ARB_BLACK ?s3 = ?s3" using f3(1) rb root by (intro rep_root_black) (simp_all flip: focus_iff)
  then show ?thesis using red m s1(1) lr root d by simp
qed

lemma red_nd: "ptr_of t = Some n \<Longrightarrow> colour t = c \<Longrightarrow> \<exists>x y. t = nd d c x n y"
  by (cases t; cases d) (auto simp: nd_def)

lemma insert_rotate_done:
  assumes f: "focus s ((b, ARB_RED, p, u) # (d, ARB_BLACK, g, v) # cs) t"
    and t: "ptr_of t = Some n" "colour t = ARB_RED" "invc t" "invh t" "colour v = ARB_BLACK"
    and c: "ctx_inv ((b, ARB_RED, p, u) # (d, ARB_BLACK, g, v) # cs) (bheight t)"
  shows "\<exists>s'. insert_rotate n p g s = Some s' \<and>
    done_with (inorder (plug ((b, ARB_RED, p, u) # (d, ARB_BLACK, g, v) # cs) t))
      (set (inorder (plug ((b, ARB_RED, p, u) # (d, ARB_BLACK, g, v) # cs) t))) s s'"
proof -
  obtain x y where xy: "t = nd d ARB_RED x n y" using red_nd [OF t(1,2)] by blast
  have f1: "focus s ((d, ARB_BLACK, g, v) # cs) (nd b ARB_RED t p u)" using f by (simp add: focus_step)
  note r1 = first_rotation [OF f1 t(1)]
  have k: "bheight t = bheight x" "bheight y = bheight x" using t(4) by (simp_all add: xy bheight_nd)
  show ?thesis
  proof (cases "b = d")
    case True
    then have "focus s ((d, ARB_BLACK, g, v) # cs) (nd d ARB_RED (nd d ARB_RED x n y) p u)" using f1 by (simp add: xy)
    from second_rotation [OF this t(5)] show ?thesis
      using c t k True by (simp add: insert_rotate_def r1 xy bheight_nd)
  next
    case False
    have "focus s ((d, ARB_BLACK, g, v) # cs) (nd d ARB_RED u p (nd d ARB_RED x n y))"
      using f1 False by (cases d) (simp_all add: xy nd_def)
    from rotate_focus [OF this] obtain s1 where s1: "rotate_to d p s = Some s1"
      "focus s1 ((d, ARB_BLACK, g, v) # cs) (nd d ARB_RED (nd d ARB_RED u p x) n y)"
      "frame (set (inorder (plug ((d, ARB_BLACK, g, v) # cs) (nd d ARB_RED u p (nd d ARB_RED x n y))))) s s1" by blast
    let ?T = "plug ((b, ARB_RED, p, u) # (d, ARB_BLACK, g, v) # cs) t"
    let ?T1 = "plug ((d, ARB_BLACK, g, v) # cs) (nd d ARB_RED (nd d ARB_RED u p x) n y)"
    have o: "inorder ?T1 = inorder ?T" using False by (auto simp: xy inorder_nd intro!: inorder_plug_cong)
    have fr: "frame (set (inorder ?T)) s s1" using s1(3) by (rule frame_mono) (auto simp: xy set_plug)
    from second_rotation [OF s1(2) t(5)] obtain s' where "insert_rotate n p g s = Some s'"
      "done_with (inorder ?T1) (set (inorder ?T1)) s1 s'"
      using c t k False s1(1) by (auto simp: insert_rotate_def r1 xy bheight_nd)
    then show ?thesis using done_with_trans [OF _ fr] unfolding o by blast
  qed
qed

text \<open>Red parent and uncle: both become black, the grandparent red unless it is the root.\<close>

lemma push_black:
  assumes f: "focus s cs (nd d ARB_BLACK (nd b ARB_RED t p u) g v)" and v: "colour v = ARB_RED" "invc v" "invh v"
  defines "s1 \<equiv> if rb_root s \<noteq> Some g then set_col g ARB_RED s else s"
    and "k \<equiv> if cs = [] then ARB_BLACK else ARB_RED"
  shows "\<exists>l r v'. rb_left (rb_ent s1 g) = Some l \<and> rb_right (rb_ent s1 g) = Some r \<and>
    colour v' = ARB_BLACK \<and> invc v' \<and> invh v' \<and> bheight v' = Suc (bheight v) \<and> inorder v' = inorder v \<and>
    focus (set_col l ARB_BLACK (set_col r ARB_BLACK s1)) cs (nd d k (nd b ARB_BLACK t p u) g v') \<and>
    frame (set (inorder (plug cs (nd d ARB_BLACK (nd b ARB_RED t p u) g v)))) s (set_col l ARB_BLACK (set_col r ARB_BLACK s1))"
proof -
  obtain w where "ptr_of v = Some w" using v(1) by (cases v) auto
  then obtain x y where xy: "v = nd True ARB_RED x w y" using red_nd v(1) by blast
  have s1: "s1 = (if cs = [] then s else set_col g ARB_RED s)" using focus_root [OF f, of g] by (simp add: s1_def)
  have f1: "focus s1 cs (nd d k (nd b ARB_RED t p u) g (nd True ARB_RED x w y))"
    using f focus_set_col [OF f, of ARB_RED] by (auto simp: s1 k_def xy)
  have fr: "frame (set (inorder (plug cs (nd d ARB_BLACK (nd b ARB_RED t p u) g v)))) s s1"
    by (auto simp: s1 set_plug intro!: frame_upd)
  from recolour [OF f1, of ARB_BLACK] f1 obtain l r where lr: "rb_left (rb_ent s1 g) = Some l" "rb_right (rb_ent s1 g) = Some r"
    and f2: "focus (set_col l ARB_BLACK (set_col r ARB_BLACK s1)) cs (nd d k (nd b ARB_BLACK t p u) g (nd True ARB_BLACK x w y))"
      "frame {p, w} s1 (set_col l ARB_BLACK (set_col r ARB_BLACK s1))" by blast
  have "frame (set (inorder (plug cs (nd d ARB_BLACK (nd b ARB_RED t p u) g v)))) s (set_col l ARB_BLACK (set_col r ARB_BLACK s1))"
    by (rule frame_trans [OF fr f2(2)]) (auto simp: set_plug xy)
  with lr f2(1) v show ?thesis
    by (intro exI [of _ l] exI [of _ r] exI [of _ "nd True ARB_BLACK x w y"]) (auto simp: xy bheight_nd inorder_nd)
qed

lemma insert_fixup_done:
  assumes "focus s cs t" "ptr_of t = Some n" "colour t = ARB_RED" "invc t" "invh t" "ctx_inv cs (bheight t)"
  shows "\<exists>s'. insert_fixup n (above cs) s = Some s' \<and> done_with (inorder (plug cs t)) (set (inorder (plug cs t))) s s'"
  using assms
proof (induction cs arbitrary: s t n rule: length_induct)
  case (1 cs)
  obtain x y where xy: "t = nd True ARB_RED x n y" using red_nd 1(3,4) by blast
  show ?case
  proof (cases cs)
    case Nil
    have "focus (set_col n ARB_BLACK s) [] (nd True ARB_BLACK x n y)" using 1(2) focus_set_col by (simp add: xy Nil)
    moreover have "red_black (nd True ARB_BLACK x n y)" using 1(5,6) by (simp add: red_black_def xy)
    ultimately show ?thesis
      by (auto simp: Nil insert_fixup.simps [of n None] xy inorder_nd intro!: done_withI [where cs = "[]"] frame_upd)
  next
    case (Cons st cs1)
    obtain b c p u where st: "st = (b, c, p, u)" by (cases st)
    have f1: "focus s cs1 (nd b c t p u)" using 1(2) by (simp add: Cons st focus_step)
    note e1 = focus_entry [OF f1]
    show ?thesis
    proof (cases c)
      case ARB_BLACK
      then have "red_black (plug cs t)" using 1(3-7) by (simp add: red_black_plug Cons st bheight_nd)
      then show ?thesis using 1(2) e1 ARB_BLACK
        by (auto simp: insert_fixup.simps [of n "Some p"] Cons st intro!: done_withI)
    next
      case ARB_RED
      then obtain d g v cs2 where cs1: "cs1 = (d, ARB_BLACK, g, v) # cs2"
        using 1(7) by (cases cs1 rule: hole_colour.cases) (auto simp: Cons st)
      have f2: "focus s cs2 (nd d ARB_BLACK (nd b ARB_RED t p u) g v)" using f1 by (simp add: cs1 focus_step ARB_RED)
      note e2 = focus_entry [OF f2] and r2 = focus_red [OF f2]
      have both: "is_red s (rb_left (rb_ent s g)) \<and> is_red s (rb_right (rb_ent s g)) \<longleftrightarrow> colour v = ARB_RED"
        using e2 r2 by (cases d) (auto simp: child_def)
      show ?thesis
      proof (cases "colour v = ARB_RED")
        case False
        then have "insert_fixup n (above cs) s = insert_rotate n p g s"
          using e1 by (simp add: insert_fixup.simps [of n "Some p"] both Cons st ARB_RED cs1)
        moreover have "colour v = ARB_BLACK" using False by simp
        ultimately show ?thesis using insert_rotate_done [of s b p u d g v cs2 t n] 1(2-7)
          by (simp add: Cons st ARB_RED cs1)
      next
        case True
        let ?s1 = "if rb_root s \<noteq> Some g then set_col g ARB_RED s else s"
        have v: "invc v" "invh v" "bheight v = bheight t" "bheight u = bheight t" "invc u" "invh u"
          using 1(7) by (simp_all add: Cons st cs1 ARB_RED)
        from push_black [OF f2 True v(1,2)] obtain l r v' where lr: "rb_left (rb_ent ?s1 g) = Some l" "rb_right (rb_ent ?s1 g) = Some r"
          and v': "colour v' = ARB_BLACK" "invc v'" "invh v'" "bheight v' = Suc (bheight v)" "inorder v' = inorder v"
          and f3: "focus (set_col l ARB_BLACK (set_col r ARB_BLACK ?s1)) cs2
              (nd d (if cs2 = [] then ARB_BLACK else ARB_RED) (nd b ARB_BLACK t p u) g v')"
            "frame (set (inorder (plug cs t))) s (set_col l ARB_BLACK (set_col r ARB_BLACK ?s1))"
          by (auto simp: Cons st cs1 ARB_RED)
        let ?s3 = "set_col l ARB_BLACK (set_col r ARB_BLACK ?s1)"
        let ?t3 = "nd d (if cs2 = [] then ARB_BLACK else ARB_RED) (nd b ARB_BLACK t p u) g v'"
        have o: "inorder (plug cs2 ?t3) = inorder (plug cs t)"
          using v'(5) by (auto simp: Cons st cs1 inorder_nd intro!: inorder_plug_cong)
        have i: "invc ?t3" "invh ?t3" "ctx_inv cs2 (bheight ?t3)" using 1 v v' by (auto simp: Cons st cs1 ARB_RED bheight_nd)
        have step: "insert_fixup n (above cs) s = insert_fixup g (above cs2) ?s3"
          using e1 True lr focus_entry [OF f3(1)]
          by (simp add: both insert_fixup.simps [of n "Some p"] Cons st ARB_RED cs1)
        show ?thesis
        proof (cases "cs2 = []")
          case True
          have "set_col g ARB_BLACK ?s3 = ?s3" by (rule set_col_same) (use True focus_entry [OF f3(1)] in simp)
          moreover have "done_with (inorder (plug cs t)) (set (inorder (plug cs t))) s ?s3"
            by (rule done_withI [OF f3(1) _ o f3(2)]) (use i True in \<open>simp add: red_black_def\<close>)
          ultimately show ?thesis by (simp add: step True insert_fixup.simps [of g None])
        next
          case False
          have "\<exists>s'. insert_fixup g (above cs2) ?s3 = Some s' \<and> done_with (inorder (plug cs2 ?t3)) (set (inorder (plug cs2 ?t3))) ?s3 s'"
            using 1(1) f3(1) i False by (auto simp: Cons cs1)
          then show ?thesis using done_with_trans [OF _ f3(2)] unfolding step o by blast
        qed
      qed
    qed
  qed
qed

subsection \<open>Keys in order\<close>

definition ordered :: "rbt \<Rightarrow> nat list \<Rightarrow> bool" where
  "ordered s xs \<longleftrightarrow> sorted_wrt (\<lambda>a b. rb_key (rb_ent s a) < rb_key (rb_ent s b)) xs"

text \<open>The tree as a set of entries.\<close>

definition rb_set :: "rbt \<Rightarrow> nat set \<Rightarrow> bool" where
  "rb_set s A \<longleftrightarrow> (\<exists>t. rep s t \<and> red_black t \<and> ordered s (inorder t) \<and> set (inorder t) = A)"

lemma ordered_frame: "frame A s s' \<Longrightarrow> ordered s' xs = ordered s xs"
  by (simp add: ordered_def frame_def)

lemma done_with_rb_set: "done_with xs A s s' \<Longrightarrow> ordered s xs \<Longrightarrow> rb_set s' (set xs)"
  unfolding done_with_def rb_set_def by (auto simp: ordered_frame)

definition found :: "rbt \<Rightarrow> u64 \<Rightarrow> nat set \<Rightarrow> ptr \<Rightarrow> bool" where
  "found s k A x \<longleftrightarrow>
     (case x of None \<Rightarrow> \<forall>a\<in>A. rb_key (rb_ent s a) \<noteq> k | Some a \<Rightarrow> a \<in> A \<and> rb_key (rb_ent s a) = k)"

lemma found_mono: "found s k A x \<Longrightarrow> A \<subseteq> B \<Longrightarrow> \<forall>a\<in>B - A. rb_key (rb_ent s a) \<noteq> k \<Longrightarrow> found s k B x"
  by (auto simp: found_def split: option.splits)

lemma ordered_nd:
  assumes "ordered s (inorder (Nd c l a r))"
  shows "ordered s (inorder l)" "ordered s (inorder r)" "\<forall>x\<in>set (inorder l). rb_key (rb_ent s x) < rb_key (rb_ent s a)"
    "\<forall>x\<in>set (inorder r). rb_key (rb_ent s a) < rb_key (rb_ent s x)"
  using assms by (auto simp: ordered_def sorted_wrt_append)

lemma find_loop_shape:
  assumes "shape (rb_ent s) p t" "ordered s (inorder t)"
  shows "\<exists>x. find_loop s k (ptr_of t) = Some x \<and> found s k (set (inorder t)) x"
  using assms
proof (induction t arbitrary: p)
  case Lf
  show ?case by (simp add: find_loop.simps found_def)
next
  case (Nd c l a r)
  let ?k = "rb_key (rb_ent s a)"
  note o = ordered_nd [OF Nd.prems(2)]
  note u = find_loop.simps [of s k "Some a"]
  consider "?k = k" | "k < ?k" "?k \<noteq> k" | "?k < k" "?k \<noteq> k" "\<not> k < ?k" by fastforce
  then show ?case
  proof cases
    case 1
    then show ?thesis by (simp add: u found_def)
  next
    case 2
    obtain x where x: "find_loop s k (ptr_of l) = Some x" "found s k (set (inorder l)) x"
      using Nd.IH(1) [of "Some a"] Nd.prems(1) o by auto
    from x(2) have "found s k (set (inorder (Nd c l a r))) x" by (rule found_mono) (use 2 o in fastforce)+
    then show ?thesis using x(1) Nd.prems 2 by (simp add: u child_def)
  next
    case 3
    obtain x where x: "find_loop s k (ptr_of r) = Some x" "found s k (set (inorder r)) x"
      using Nd.IH(2) [of "Some a"] Nd.prems(1) o by auto
    from x(2) have "found s k (set (inorder (Nd c l a r))) x" by (rule found_mono) (use 3 o in fastforce)+
    then show ?thesis using x(1) Nd.prems 3 by (simp add: u child_def)
  qed
qed

lemma rb_find_set: "rb_set s A \<Longrightarrow> \<exists>x. rb_find s k = Some x \<and> found s k A x"
  using find_loop_shape [of s None _ k] by (auto simp: rb_set_def rep_def rb_find_def)

text \<open>The entries before and after the hole of a context.\<close>

fun before :: "step list \<Rightarrow> nat list" where
  "before [] = []"
| "before ((b, c, a, u) # cs) = before cs @ (if b then [] else inorder u @ [a])"

fun after :: "step list \<Rightarrow> nat list" where
  "after [] = []"
| "after ((b, c, a, u) # cs) = (if b then a # inorder u else []) @ after cs"

lemma inorder_plug: "inorder (plug cs t) = before cs @ inorder t @ after cs"
  by (induction cs t rule: plug.induct) (auto simp: inorder_nd)

fun slot_of :: "step list \<Rightarrow> slot" where
  "slot_of [] = Root_slot"
| "slot_of ((b, c, a, u) # cs) = Child_slot b a"

lemma after_append: "after (cs @ ds) = after cs @ after ds"
  by (induction cs rule: after.induct) auto

lemma before_append: "before (cs @ ds) = before ds @ before cs"
  by (induction cs rule: before.induct) auto

lemma outside_parts: "outside cs = set (before cs) \<union> set (after cs)"
  by (induction cs rule: before.induct) auto

lemma get_slot_focus: "focus s cs t \<Longrightarrow> get_slot s (slot_of cs) = ptr_of t"
  by (cases cs rule: slot_of.cases) (auto simp: focus_def get_slot_def)

lemma set_slot_attach: "set_slot (slot_of cs) x s = attach cs x s"
  by (cases cs rule: slot_of.cases) (auto simp: set_slot_def)

text \<open>The result of the descent: the key is there, or a hole between the smaller and the larger keys.\<close>

definition hole_for :: "rbt \<Rightarrow> u64 \<Rightarrow> step list \<Rightarrow> bool" where
  "hole_for s k cs \<longleftrightarrow> (\<forall>a\<in>set (before cs). rb_key (rb_ent s a) < k) \<and> (\<forall>a\<in>set (after cs). k < rb_key (rb_ent s a))"

definition placed :: "rbt \<Rightarrow> u64 \<Rightarrow> tree \<Rightarrow> nat set \<Rightarrow> (slot \<times> ptr) option \<Rightarrow> bool" where
  "placed s k T A x \<longleftrightarrow>
     (case x of
        None \<Rightarrow> \<exists>a\<in>A. rb_key (rb_ent s a) = k
      | Some (rp, q) \<Rightarrow> (\<forall>a\<in>A. rb_key (rb_ent s a) \<noteq> k) \<and>
          (\<exists>cs. rp = slot_of cs \<and> q = above cs \<and> plug cs Lf = T \<and> hole_for s k cs))"

lemma placed_mono: "placed s k T A x \<Longrightarrow> A \<subseteq> B \<Longrightarrow> \<forall>a\<in>B - A. rb_key (rb_ent s a) \<noteq> k \<Longrightarrow> placed s k T B x"
  unfolding placed_def by (cases x) (auto split: prod.splits)

lemma place_loop_focus:
  assumes "focus s cs t" "ordered s (inorder t)" "hole_for s k cs"
  shows "\<exists>x. place_loop s k (above cs) (slot_of cs) = Some x \<and> placed s k (plug cs t) (set (inorder t)) x"
  using assms
proof (induction t arbitrary: cs)
  case Lf
  then show ?case using get_slot_focus [OF Lf(1)] by (subst place_loop.simps) (auto simp: placed_def)
next
  case (Nd c l a r)
  let ?k = "rb_key (rb_ent s a)"
  note o = ordered_nd [OF Nd.prems(2)]
  have f: "focus s ((True, c, a, r) # cs) l" "focus s ((False, c, a, l) # cs) r"
    using Nd.prems(1) by (simp_all add: focus_step nd_def)
  have u: "place_loop s k (above cs) (slot_of cs) =
      (if ?k = k then Some None else place_loop s k (Some a) (Child_slot (?k > k) a))"
    using get_slot_focus [OF Nd.prems(1)] by (subst place_loop.simps) simp
  consider "?k = k" | "k < ?k" "?k \<noteq> k" | "?k < k" "?k \<noteq> k" "\<not> k < ?k" by fastforce
  then show ?case
  proof cases
    case 1
    then show ?thesis by (simp add: u placed_def)
  next
    case 2
    have "hole_for s k ((True, c, a, r) # cs)" using Nd.prems(3) 2 o(4) by (auto simp: hole_for_def)
    from Nd.IH(1) [OF f(1) o(1) this] obtain x where x: "place_loop s k (Some a) (Child_slot True a) = Some x"
      "placed s k (plug cs (Nd c l a r)) (set (inorder l)) x" by (auto simp: nd_def)
    from x(2) have "placed s k (plug cs (Nd c l a r)) (set (inorder (Nd c l a r))) x" by (rule placed_mono) (use 2 o in fastforce)+
    then show ?thesis using x(1) 2 by (auto simp: u)
  next
    case 3
    have "hole_for s k ((False, c, a, l) # cs)" using Nd.prems(3) 3 o(3) by (auto simp: hole_for_def)
    from Nd.IH(2) [OF f(2) o(2) this] obtain x where x: "place_loop s k (Some a) (Child_slot False a) = Some x"
      "placed s k (plug cs (Nd c l a r)) (set (inorder r)) x" by (auto simp: nd_def)
    from x(2) have "placed s k (plug cs (Nd c l a r)) (set (inorder (Nd c l a r))) x" by (rule placed_mono) (use 3 o in fastforce)+
    then show ?thesis using x(1) 3 by (auto simp: u)
  qed
qed

lemma rb_insert_set:
  assumes "rb_set s A"
  shows "\<exists>r s'. rb_insert_entry n s = Some (r, s') \<and> frame (insert n A) s s' \<and>
    (if \<exists>a\<in>A. rb_key (rb_ent s a) = rb_key (rb_ent s n) then r = 0 \<and> s' = s else r = 1 \<and> rb_set s' (insert n A))"
proof -
  let ?k = "rb_key (rb_ent s n)"
  obtain t where t: "rep s t" "red_black t" "ordered s (inorder t)" "set (inorder t) = A" using assms by (auto simp: rb_set_def)
  have "focus s [] t" using t(1) focus_iff [of s "[]" t] by simp
  from place_loop_focus [OF this t(3), of ?k] obtain x where
    x: "place_loop s ?k None Root_slot = Some x" "placed s ?k t A x" by (auto simp: hole_for_def t(4))
  show ?thesis
  proof (cases x)
    case None
    then show ?thesis using x by (auto simp: rb_insert_entry_def placed_def)
  next
    case (Some y)
    then obtain cs where y: "x = Some (slot_of cs, above cs)" "plug cs Lf = t" "hole_for s ?k cs"
      and new: "\<forall>a\<in>A. rb_key (rb_ent s a) \<noteq> ?k" using x(2) by (auto simp: placed_def)
    have f: "focus s cs Lf" using t(1) y(2) by (simp flip: focus_iff)
    have A: "A = outside cs" using t(4) y(2) set_plug [of cs Lf] by simp
    have n: "n \<notin> outside cs" using new A by auto
    let ?s1 = "set_col n ARB_RED (set_parent n (above cs) (set_left n None (set_right n None (attach cs (Some n) s))))"
    have f1: "focus ?s1 cs (Nd ARB_RED Lf n Lf)" using f n attach_around [of s cs None "Some n"] by (simp add: focus_def)
    have fr: "frame (insert n A) s ?s1" using frame_mono [OF attach_frame, of cs "insert n A" s] by (auto simp: A intro!: frame_upd)
    have "ctx_inv cs 0" using t(2) y(2) red_black_plug [of cs Lf] by simp
    with insert_fixup_done [OF f1, of n] obtain s' where s': "insert_fixup n (above cs) ?s1 = Some s'"
      "done_with (before cs @ n # after cs) (insert n A) ?s1 s'" by (auto simp: inorder_plug A outside_parts)
    have o: "ordered s (before cs @ n # after cs)"
      using t(3) y(2,3) inorder_plug [of cs Lf] by (auto simp: ordered_def sorted_wrt_append hole_for_def)
    have "done_with (before cs @ n # after cs) (insert n A) s s'" by (rule done_with_trans [OF s'(2) fr]) auto
    moreover have "set (before cs @ n # after cs) = insert n A" using t(4) y(2) inorder_plug [of cs Lf] by auto
    ultimately have "rb_set s' (insert n A)" "frame (insert n A) s s'"
      using done_with_rb_set [OF _ o] by (auto simp: done_with_def)
    moreover have "rb_insert_entry n s = Some (1, s')" using x(1) y(1) s'(1) by (simp add: rb_insert_entry_def set_slot_attach)
    ultimately show ?thesis using new by auto
  qed
qed

end
