(* ===== verification/RbSwap.thy ===== *)
theory RbSwap
  imports RbTree
begin

subsection \<open>Swapping two entries\<close>

text \<open>The pointers of a tree, entry by entry.\<close>

definition linked :: "rbt \<Rightarrow> nat set \<Rightarrow> bool" where
  "linked s A \<longleftrightarrow> (\<forall>a\<in>A. \<forall>b.
     (rb_left (rb_ent s a) = Some b \<longrightarrow> b \<in> A \<and> b \<noteq> a \<and> rb_parent (rb_ent s b) = Some a \<and> rb_right (rb_ent s a) \<noteq> Some b) \<and>
     (rb_right (rb_ent s a) = Some b \<longrightarrow> b \<in> A \<and> b \<noteq> a \<and> rb_parent (rb_ent s b) = Some a) \<and>
     (rb_parent (rb_ent s a) = Some b \<longrightarrow> b \<in> A \<and> b \<noteq> a \<and> (rb_left (rb_ent s b) = Some a \<or> rb_right (rb_ent s b) = Some a)) \<and>
     (rb_parent (rb_ent s a) = None \<longleftrightarrow> rb_root s = Some a))"

lemma linkedD:
  assumes "linked s A" "a \<in> A"
  shows "rb_left (rb_ent s a) = Some b \<Longrightarrow> b \<in> A \<and> b \<noteq> a \<and> rb_parent (rb_ent s b) = Some a \<and> rb_right (rb_ent s a) \<noteq> Some b"
    "rb_right (rb_ent s a) = Some b \<Longrightarrow> b \<in> A \<and> b \<noteq> a \<and> rb_parent (rb_ent s b) = Some a"
    "rb_parent (rb_ent s a) = Some b \<Longrightarrow> b \<in> A \<and> b \<noteq> a \<and> (rb_left (rb_ent s b) = Some a \<or> rb_right (rb_ent s b) = Some a)"
    "rb_parent (rb_ent s a) = None \<longleftrightarrow> rb_root s = Some a"
  using assms unfolding linked_def by blast+

lemma at_entry: "e \<in> set (inorder t) \<Longrightarrow> \<exists>cs c l r. t = plug cs (Nd c l e r)"
proof (induction t)
  case (Nd c l a r)
  consider "e = a" | "e \<in> set (inorder l)" | "e \<in> set (inorder r)" using Nd.prems by auto
  then show ?case
  proof cases
    case 1
    then show ?thesis by (intro exI [of _ "[]"]) auto
  next
    case 2
    then obtain cs c' l' r' where l: "l = plug cs (Nd c' l' e r')" using Nd.IH(1) by blast
    show ?thesis by (intro exI [of _ "cs @ [(True, c, a, r)]"] exI [of _ c'] exI [of _ l'] exI [of _ r']) (simp add: l plug_append nd_def)
  next
    case 3
    then obtain cs c' l' r' where r: "r = plug cs (Nd c' l' e r')" using Nd.IH(2) by blast
    show ?thesis by (intro exI [of _ "cs @ [(False, c, a, l)]"] exI [of _ c'] exI [of _ l'] exI [of _ r']) (simp add: r plug_append nd_def)
  qed
qed simp

lemma rep_linked: "rep s t \<Longrightarrow> linked s (set (inorder t))"
  unfolding linked_def
proof (intro ballI allI)
  fix a b
  assume r: "rep s t" and a: "a \<in> set (inorder t)"
  obtain cs c l u where t: "t = plug cs (nd True c l a u)" using at_entry [OF a] by (auto simp: nd_def)
  have f: "focus s cs (nd True c l a u)" using r by (simp add: t focus_iff)
  have p: "set (inorder t) = insert a (set (inorder l) \<union> set (inorder u) \<union> outside cs)" by (auto simp: t set_plug)
  have l: "rb_left (rb_ent s a) = Some b \<Longrightarrow> b \<in> set (inorder l) \<and> rb_parent (rb_ent s b) = Some a"
    using f by (cases l) (auto simp: focus_def child_def)
  have u: "rb_right (rb_ent s a) = Some b \<Longrightarrow> b \<in> set (inorder u) \<and> rb_parent (rb_ent s b) = Some a"
    using f by (cases u) (auto simp: focus_def child_def)
  have d: "b \<in> set (inorder l) \<Longrightarrow> b \<notin> set (inorder u)" "a \<notin> set (inorder l)" "a \<notin> set (inorder u)" using f by (auto simp: focus_def)
  have q: "rb_parent (rb_ent s a) = Some b \<Longrightarrow> b \<in> set (inorder t) \<and> b \<noteq> a \<and> (rb_left (rb_ent s b) = Some a \<or> rb_right (rb_ent s b) = Some a)"
    using f by (cases cs rule: hole_colour.cases) (auto simp: focus_def child_def p split: if_splits)
  have n: "rb_parent (rb_ent s a) = None \<longleftrightarrow> rb_root s = Some a"
    using focus_root [OF f, of a] focus_entry [OF f] by (cases cs rule: hole_colour.cases) auto
  show "(rb_left (rb_ent s a) = Some b \<longrightarrow> b \<in> set (inorder t) \<and> b \<noteq> a \<and> rb_parent (rb_ent s b) = Some a \<and> rb_right (rb_ent s a) \<noteq> Some b) \<and>
     (rb_right (rb_ent s a) = Some b \<longrightarrow> b \<in> set (inorder t) \<and> b \<noteq> a \<and> rb_parent (rb_ent s b) = Some a) \<and>
     (rb_parent (rb_ent s a) = Some b \<longrightarrow> b \<in> set (inorder t) \<and> b \<noteq> a \<and> (rb_left (rb_ent s b) = Some a \<or> rb_right (rb_ent s b) = Some a)) \<and>
     (rb_parent (rb_ent s a) = None \<longleftrightarrow> rb_root s = Some a)"
    using l u d q n by (auto simp: p)
qed

fun map_tree :: "(nat \<Rightarrow> nat) \<Rightarrow> tree \<Rightarrow> tree" where
  "map_tree f Lf = Lf"
| "map_tree f (Nd c l a r) = Nd c (map_tree f l) (f a) (map_tree f r)"

lemma ptr_of_map [simp]: "ptr_of (map_tree f t) = map_option f (ptr_of t)" by (cases t) auto

lemma inorder_map [simp]: "inorder (map_tree f t) = map f (inorder t)" by (induction t) auto

lemma colour_map [simp]: "colour (map_tree f t) = colour t" by (cases t) auto

lemma red_black_map [simp]: "red_black (map_tree f t) = red_black t"
proof -
  have b: "bheight (map_tree f u) = bheight u" for u by (induction u) auto
  have "invh (map_tree f u) = invh u" for u by (induction u) (auto simp: b)
  moreover have "invc (map_tree f u) = invc u" for u by (induction u) auto
  ultimately show ?thesis by (simp add: red_black_def)
qed

lemma shape_map:
  assumes "shape h p t"
    and "\<forall>a\<in>set (inorder t). rb_left (h' (f a)) = map_option f (rb_left (h a)) \<and> rb_right (h' (f a)) = map_option f (rb_right (h a)) \<and>
      rb_parent (h' (f a)) = map_option f (rb_parent (h a)) \<and> rb_col (h' (f a)) = rb_col (h a)"
  shows "shape h' (map_option f p) (map_tree f t)"
  using assms
proof (induction t arbitrary: p)
  case (Nd c l a r)
  show ?case using Nd.IH(1) [of "Some a"] Nd.IH(2) [of "Some a"] Nd.prems by auto
qed simp

definition swp :: "nat \<Rightarrow> nat \<Rightarrow> nat \<Rightarrow> nat" where
  "swp e1 e2 x = (if x = e1 then e2 else if x = e2 then e1 else x)"

text \<open>The fields of the two entries are exchanged first.\<close>

definition exchanged :: "nat \<Rightarrow> nat \<Rightarrow> rbt \<Rightarrow> rbt" where
  "exchanged e1 e2 s =
     (let s = set_col e2 (rb_col (rb_ent s e1)) (set_col e1 (rb_col (rb_ent s e2)) s);
          p = rb_parent (rb_ent s e1)
      in if rb_parent (rb_ent s e2) = Some e1
         then swap_adjacent False e1 e2 (swap_adjacent True e1 e2 (set_parent e1 (Some e2) (set_parent e2 p s)))
         else swap_child False e1 e2 (swap_child True e1 e2 (set_parent e2 p (set_parent e1 (rb_parent (rb_ent s e2)) s))))"

definition swapped :: "nat \<Rightarrow> nat \<Rightarrow> rbt \<Rightarrow> nat \<Rightarrow> rb_entry \<Rightarrow> bool" where
  "swapped e1 e2 s a x \<longleftrightarrow>
     rb_left x = map_option (swp e1 e2) (rb_left (rb_ent s a)) \<and> rb_right x = map_option (swp e1 e2) (rb_right (rb_ent s a)) \<and>
     rb_parent x = map_option (swp e1 e2) (rb_parent (rb_ent s a)) \<and> rb_col x = rb_col (rb_ent s a)"

lemma exchanged_ent:
  assumes "linked s A" "e1 \<in> A" "e2 \<in> A" "e1 \<noteq> e2" "rb_parent (rb_ent s e1) \<noteq> Some e2"
  shows "rb_root (exchanged e1 e2 s) = rb_root s" "x \<noteq> e1 \<Longrightarrow> x \<noteq> e2 \<Longrightarrow> rb_ent (exchanged e1 e2 s) x = rb_ent s x"
    "swapped e1 e2 s e2 (rb_ent (exchanged e1 e2 s) e1)" "swapped e1 e2 s e1 (rb_ent (exchanged e1 e2 s) e2)"
    "frame {e1, e2} s (exchanged e1 e2 s)"
proof -
  have n: "rb_left (rb_ent s e2) \<noteq> Some e1" "rb_right (rb_ent s e2) \<noteq> Some e1" "rb_left (rb_ent s e1) \<noteq> Some e1"
    "rb_right (rb_ent s e1) \<noteq> Some e1" "rb_left (rb_ent s e2) \<noteq> Some e2" "rb_right (rb_ent s e2) \<noteq> Some e2"
    "rb_parent (rb_ent s e1) \<noteq> Some e1" "rb_parent (rb_ent s e2) \<noteq> Some e2"
    "rb_parent (rb_ent s e2) = Some e1 \<longleftrightarrow> rb_left (rb_ent s e1) = Some e2 \<or> rb_right (rb_ent s e1) = Some e2"
    using assms(5) linkedD(1-3) [OF assms(1,2), of e1] linkedD(1-3) [OF assms(1,2), of e2] linkedD(1-3) [OF assms(1,3), of e1] linkedD(1-3) [OF assms(1,3), of e2]
    by blast+
  have m: "map_option (swp e1 e2) x = x" if "x \<noteq> Some e1" "x \<noteq> Some e2" for x using that by (cases x) (auto simp: swp_def)
  note d = exchanged_def Let_def swap_adjacent_def swap_child_def set_child_def child_def
  show "rb_root (exchanged e1 e2 s) = rb_root s" by (simp add: d)
  show "x \<noteq> e1 \<Longrightarrow> x \<noteq> e2 \<Longrightarrow> rb_ent (exchanged e1 e2 s) x = rb_ent s x" by (simp add: d)
  show "frame {e1, e2} s (exchanged e1 e2 s)"
    unfolding exchanged_def Let_def swap_adjacent_def swap_child_def by (auto intro!: frame_upd)
  show "swapped e1 e2 s e2 (rb_ent (exchanged e1 e2 s) e1)" using n assms(4,5) by (simp add: d swapped_def m) (auto simp: swp_def)
  show "swapped e1 e2 s e1 (rb_ent (exchanged e1 e2 s) e2)" using n assms(4,5) by (simp add: d swapped_def m) (auto simp: swp_def)
qed

lemma parent_child:
  assumes "linked s A" "e \<in> A" "x \<in> A"
  shows "rb_left (rb_ent s x) = Some e \<longleftrightarrow> rb_parent (rb_ent s e) = Some x \<and> is_left e s"
    "rb_right (rb_ent s x) = Some e \<longleftrightarrow> rb_parent (rb_ent s e) = Some x \<and> \<not> is_left e s"
  using linkedD(1,2) [OF assms(1,3), of e] linkedD(3) [OF assms(1,2), of x] by (auto simp: is_left_def)

lemma map_swp: "map_option (swp e1 e2) y = (if y = Some e1 then Some e2 else if y = Some e2 then Some e1 else y)"
  by (cases y) (auto simp: swp_def)

text \<open>Then the root or the parents point to the other entry.\<close>

definition swap_parents :: "nat \<Rightarrow> nat \<Rightarrow> rbt \<Rightarrow> rbt option" where
  "swap_parents e1 e2 s = do {
     s1 \<leftarrow> swap_above (rb_parent (rb_ent s e1) = None) (is_left e1 s) e2 (exchanged e1 e2 s);
     swap_above (rb_parent (rb_ent s e2) = None) (is_left e2 s) e1 s1
   }"

lemma swap_parents_ent:
  assumes l: "linked s A" and A: "e1 \<in> A" "e2 \<in> A" "e1 \<noteq> e2" and p: "rb_parent (rb_ent s e1) \<noteq> Some e2"
  shows "\<exists>s2. swap_parents e1 e2 s = Some s2 \<and> rb_root s2 = map_option (swp e1 e2) (rb_root s) \<and> frame A s s2 \<and>
    (\<forall>x\<in>A. rb_left (rb_ent s2 (swp e1 e2 x)) = map_option (swp e1 e2) (rb_left (rb_ent s x)) \<and>
       rb_right (rb_ent s2 (swp e1 e2 x)) = map_option (swp e1 e2) (rb_right (rb_ent s x)) \<and>
       rb_col (rb_ent s2 (swp e1 e2 x)) = rb_col (rb_ent s x)) \<and>
    (\<forall>x. rb_parent (rb_ent s2 x) = rb_parent (rb_ent (exchanged e1 e2 s) x))"
proof -
  let ?sA = "exchanged e1 e2 s"
  note e = exchanged_ent [OF l A p]
  have p1: "rb_parent (rb_ent ?sA e2) = rb_parent (rb_ent s e1)" using e(4) p linkedD(3) [OF l A(1)] by (auto simp: swapped_def map_swp)
  have p2: "rb_parent (rb_ent ?sA e1) = map_option (swp e1 e2) (rb_parent (rb_ent s e2))" using e(3) by (simp add: swapped_def)
  define s1 where "s1 = (case rb_parent (rb_ent s e1) of None \<Rightarrow> ?sA\<lparr>rb_root := Some e2\<rparr> | Some q \<Rightarrow> set_child (is_left e1 s) q (Some e2) ?sA)"
  have b1: "swap_above (rb_parent (rb_ent s e1) = None) (is_left e1 s) e2 ?sA = Some s1"
    by (simp add: swap_above_def s1_def p1 split: option.splits)
  have pp: "rb_parent (rb_ent s1 x) = rb_parent (rb_ent ?sA x)" for x by (simp add: s1_def split: option.splits)
  define s2 where "s2 = (case rb_parent (rb_ent s e2) of None \<Rightarrow> s1\<lparr>rb_root := Some e1\<rparr> | Some q \<Rightarrow> set_child (is_left e2 s) (swp e1 e2 q) (Some e1) s1)"
  have b2: "swap_above (rb_parent (rb_ent s e2) = None) (is_left e2 s) e1 s1 = Some s2"
    by (simp add: swap_above_def s2_def pp p2 split: option.splits)
  have r: "rb_root s2 = map_option (swp e1 e2) (rb_root s)"
    using linkedD(4) [OF l A(1)] linkedD(4) [OF l A(2)] e(1) A(3) by (auto simp: s2_def s1_def map_swp split: option.splits)
  have par: "rb_parent (rb_ent s2 x) = rb_parent (rb_ent ?sA x)" for x by (simp add: s2_def pp split: option.splits)
  have q1: "rb_parent (rb_ent s e1) = Some q \<Longrightarrow> q \<in> A \<and> q \<noteq> e1 \<and> q \<noteq> e2" for q using linkedD(3) [OF l A(1), of q] p by auto
  have q2: "rb_parent (rb_ent s e2) = Some q \<Longrightarrow> q \<in> A \<and> q \<noteq> e2" for q using linkedD(3) [OF l A(2), of q] by auto
  have fr: "frame A s s2"
  proof -
    have "frame A s ?sA" by (rule frame_mono [OF e(5)]) (use A in auto)
    then have "frame A s s1" using q1 by (auto simp: s1_def intro!: frame_upd split: option.splits)
    then show ?thesis using q2 A by (auto simp: s2_def swp_def intro!: frame_upd split: option.splits)
  qed
  have "rb_left (rb_ent s2 (swp e1 e2 x)) = map_option (swp e1 e2) (rb_left (rb_ent s x)) \<and>
       rb_right (rb_ent s2 (swp e1 e2 x)) = map_option (swp e1 e2) (rb_right (rb_ent s x)) \<and>
       rb_col (rb_ent s2 (swp e1 e2 x)) = rb_col (rb_ent s x)" if x: "x \<in> A" for x
  proof -
    have s1x: "rb_ent s1 y = (if rb_parent (rb_ent s e1) = Some y then rb_ent (set_child (is_left e1 s) y (Some e2) ?sA) y else rb_ent ?sA y)" for y
      by (auto simp: s1_def split: option.splits)
    have s2x: "rb_ent s2 y = (if rb_parent (rb_ent s e2) = Some (swp e1 e2 y) then rb_ent (set_child (is_left e2 s) y (Some e1) s1) y else rb_ent s1 y)" for y
      by (auto simp: s2_def swp_def split: option.splits)
    consider "x = e1" | "x = e2" | "x \<noteq> e1" "x \<noteq> e2" by blast
    then show ?thesis
    proof cases
      case 1
      have "rb_ent s1 e2 = rb_ent ?sA e2" using s1x [of e2] p by simp
      then show ?thesis using s2x [of e2] e(4) A parent_child [OF l A(2,1)] linkedD(1) [OF l A(1), of e2]
        by (auto simp: 1 swp_def swapped_def map_swp set_child_def)
    next
      case 2
      have "rb_ent s2 e1 = rb_ent ?sA e1" using s1x [of e1] s2x [of e1] q1 q2 by (auto simp: swp_def)
      then show ?thesis using e(3) A(3) by (auto simp: 2 swp_def swapped_def)
    next
      case 3
      have y: "swp e1 e2 x = x" using 3 by (simp add: swp_def)
      note c = parent_child [OF l A(1) x] parent_child [OF l A(2) x]
      have sib: "is_left e2 s = (\<not> is_left e1 s)" if "rb_parent (rb_ent s e1) = Some x" "rb_parent (rb_ent s e2) = Some x"
        using c that A(3) by (cases "is_left e1 s"; cases "is_left e2 s") auto
      have s1y: "rb_left (rb_ent s1 x) = (if rb_parent (rb_ent s e1) = Some x \<and> is_left e1 s then Some e2 else rb_left (rb_ent s x))"
        "rb_right (rb_ent s1 x) = (if rb_parent (rb_ent s e1) = Some x \<and> \<not> is_left e1 s then Some e2 else rb_right (rb_ent s x))"
        "rb_col (rb_ent s1 x) = rb_col (rb_ent s x)"
        using e(2) [OF 3] by (auto simp: s1x [of x] set_child_def)
      show ?thesis using sib A(3) unfolding y s2x map_swp c by (auto simp: set_child_def s1y y)
    qed
  qed
  then show ?thesis using b1 b2 r fr par by (auto simp: swap_parents_def)
qed

lemma swap_entries_eq:
  "swap_entries e1 e2 s = map_option (\<lambda>s.
     let s = link_parent (rb_left (rb_ent s e1)) (Some e1) s;
         s = link_parent (rb_right (rb_ent s e1)) (Some e1) s;
         s = link_parent (rb_left (rb_ent s e2)) (Some e2) s
     in link_parent (rb_right (rb_ent s e2)) (Some e2) s) (swap_parents e1 e2 s)"
  by (simp add: swap_entries_def swap_parents_def exchanged_def Let_def map_option_case split: bind_splits)

text \<open>Last, the children point to the other entry.\<close>

lemma parent_of:
  assumes "linked s A" "e \<in> A" "x \<in> A"
  shows "rb_parent (rb_ent s x) = Some e \<longleftrightarrow> rb_left (rb_ent s e) = Some x \<or> rb_right (rb_ent s e) = Some x"
  using linkedD(1,2) [OF assms(1,2), of x] linkedD(3) [OF assms(1,3), of e] by auto

lemma swap_entries_rep:
  assumes r: "rep s t" and e: "e1 \<in> set (inorder t)" "e2 \<in> set (inorder t)" "e1 \<noteq> e2" and p: "rb_parent (rb_ent s e1) \<noteq> Some e2"
  shows "\<exists>s'. swap_entries e1 e2 s = Some s' \<and> rep s' (map_tree (swp e1 e2) t) \<and> frame (set (inorder t)) s s'"
proof -
  let ?A = "set (inorder t)"
  note l = rep_linked [OF r]
  from swap_parents_ent [OF l e p] obtain s2 where s2: "swap_parents e1 e2 s = Some s2" "rb_root s2 = map_option (swp e1 e2) (rb_root s)"
    "frame ?A s s2" "\<And>x. x \<in> ?A \<Longrightarrow> rb_left (rb_ent s2 (swp e1 e2 x)) = map_option (swp e1 e2) (rb_left (rb_ent s x)) \<and>
       rb_right (rb_ent s2 (swp e1 e2 x)) = map_option (swp e1 e2) (rb_right (rb_ent s x)) \<and> rb_col (rb_ent s2 (swp e1 e2 x)) = rb_col (rb_ent s x)"
    "\<And>x. rb_parent (rb_ent s2 x) = rb_parent (rb_ent (exchanged e1 e2 s) x)" by blast
  define s3 where "s3 = link_parent (rb_right (rb_ent s2 e2)) (Some e2) (link_parent (rb_left (rb_ent s2 e2)) (Some e2)
    (link_parent (rb_right (rb_ent s2 e1)) (Some e1) (link_parent (rb_left (rb_ent s2 e1)) (Some e1) s2)))"
  have s3: "swap_entries e1 e2 s = Some s3" unfolding swap_entries_eq s2(1) by (simp add: Let_def s3_def)
  have c: "rb_left (rb_ent s2 e1) = map_option (swp e1 e2) (rb_left (rb_ent s e2))" "rb_right (rb_ent s2 e1) = map_option (swp e1 e2) (rb_right (rb_ent s e2))"
    "rb_left (rb_ent s2 e2) = map_option (swp e1 e2) (rb_left (rb_ent s e1))" "rb_right (rb_ent s2 e2) = map_option (swp e1 e2) (rb_right (rb_ent s e1))"
    using s2(4) [OF e(1)] s2(4) [OF e(2)] e(3) by (auto simp: swp_def)
  have same: "rb_left (rb_ent s3 y) = rb_left (rb_ent s2 y)" "rb_right (rb_ent s3 y) = rb_right (rb_ent s2 y)"
    "rb_col (rb_ent s3 y) = rb_col (rb_ent s2 y)" "rb_root s3 = rb_root s2" for y by (simp_all add: s3_def)
  have inA: "swp e1 e2 y \<in> ?A" if "y \<in> ?A" for y using that e by (auto simp: swp_def)
  have fr: "frame ?A s s3" unfolding s3_def c using linkedD(1,2) [OF l e(1)] linkedD(1,2) [OF l e(2)]
    by (intro frame_upd s2(3)) (auto intro!: inA)
  note x = exchanged_ent [OF l e p]
  have P: "rb_parent (rb_ent s3 y) =
      (if rb_right (rb_ent s2 e2) = Some y \<or> rb_left (rb_ent s2 e2) = Some y then Some e2
       else if rb_right (rb_ent s2 e1) = Some y \<or> rb_left (rb_ent s2 e1) = Some y then Some e1
       else rb_parent (rb_ent (exchanged e1 e2 s) y))" for y
    using s2(5) by (simp add: s3_def)
  have par: "rb_parent (rb_ent s3 (swp e1 e2 y)) = map_option (swp e1 e2) (rb_parent (rb_ent s y))" if y: "y \<in> ?A" for y
  proof -
    have m: "map_option (swp e1 e2) z = Some (swp e1 e2 y) \<longleftrightarrow> z = Some y" for z by (cases z) (auto simp: swp_def)
    have ex: "rb_parent (rb_ent (exchanged e1 e2 s) (swp e1 e2 y)) =
        (if y = e1 \<or> y = e2 then map_option (swp e1 e2) (rb_parent (rb_ent s y)) else rb_parent (rb_ent s y))"
      using x(2) [of y] x(3,4) e(3) by (auto simp: swp_def swapped_def)
    note q = parent_of [OF l e(1) y] parent_of [OF l e(2) y]
    show ?thesis unfolding P c m ex using q e(3) by (auto simp: map_swp)
  qed
  have "shape (rb_ent s3) (map_option (swp e1 e2) None) (map_tree (swp e1 e2) t)"
    using r s2(4) same par by (intro shape_map [of "rb_ent s"]) (auto simp: rep_def)
  moreover have "inj (swp e1 e2)" by (auto simp: inj_def swp_def)
  ultimately have "rep s3 (map_tree (swp e1 e2) t)"
    using r same s2(2) by (auto simp: rep_def distinct_map intro: inj_on_subset)
  then show ?thesis using s3 fr by blast
qed

end
