(* ===== verification/RbRemove.thy ===== *)
theory RbRemove
  imports RbSwap
begin

text \<open>
  Removal from the red-black trees of \<^verbatim>\<open>src/src/libanoubis/apn/rbtree.c\<close>: the swap with the predecessor, the removal
  of an entry with at most one child, and the repair of the black heights from there to the root.
\<close>

subsection \<open>Repair\<close>

lemma focus_set_sibling:
  assumes "focus s cs (nd b c t p (nd d k x w z))"
  shows "focus (set_col w k' s) cs (nd b c t p (nd d k' x w z))"
proof -
  have "focus s ((\<not> b, c, p, t) # cs) (nd d k x w z)" using assms by (simp add: focus_step nd_flip)
  from focus_set_col [OF this, of k'] show ?thesis by (simp add: focus_step nd_flip)
qed

lemma sibling_entry:
  assumes "focus s cs (nd b c t p (nd d k x w z))"
  shows "child (\<not> b) (rb_ent s p) = Some w" "rb_col (rb_ent s w) = k" "rb_col (rb_ent s p) = c" "rb_parent (rb_ent s p) = above cs"
    "child d (rb_ent s w) = ptr_of x" "child (\<not> d) (rb_ent s w) = ptr_of z"
    "is_red s (ptr_of x) = (colour x = ARB_RED)" "is_red s (ptr_of z) = (colour z = ARB_RED)" "p \<noteq> w"
  using assms by (auto simp: focus_def is_red_shape)

text \<open>Case 1: after the first step the sibling is black, with the parent red if there was a rotation.\<close>

lemma sibling_black_focus:
  assumes f: "focus s ((b, c, p, u) # cs) t" and t: "colour t = ARB_BLACK" "invc t" "invh t"
    and c: "ctx_inv ((b, c, p, u) # cs) (Suc (bheight t))"
  defines "T \<equiv> plug ((b, c, p, u) # cs) t"
  shows "\<exists>s' c' y cs'. sibling_black p b s = Some s' \<and> focus s' ((b, c', p, y) # cs') t \<and>
    colour y = ARB_BLACK \<and> ctx_inv ((b, c', p, y) # cs') (Suc (bheight t)) \<and>
    (c' = ARB_BLACK \<longrightarrow> cs' = cs) \<and> inorder (plug ((b, c', p, y) # cs') t) = inorder T \<and> frame (set (inorder T)) s s'"
proof -
  have f1: "focus s cs (nd b c t p u)" using f by (simp add: focus_step)
  note e = focus_entry [OF f1]
  obtain w where w: "ptr_of u = Some w" using c by (cases u) auto
  obtain y z where u: "u = nd b (colour u) y w z" using red_nd [OF w refl] by blast
  have col: "rb_col (rb_ent s w) = colour u" using f1 w by (cases u) (auto simp: focus_def)
  show ?thesis
  proof (cases "colour u = ARB_RED")
    case False
    then have "sibling_black p b s = Some s" using e w col by (simp add: sibling_black_def)
    then show ?thesis using f c False unfolding T_def by (intro exI [of _ s] exI [of _ c] exI [of _ u] exI [of _ cs]) auto
  next
    case True
    with u have u: "u = nd b ARB_RED y w z" by simp
    have cb: "c = ARB_BLACK" and i: "invc y" "invc z" "invh y" "invh z" "colour y = ARB_BLACK" "colour z = ARB_BLACK"
      "bheight y = Suc (bheight t)" "bheight z = Suc (bheight t)" "ctx_inv cs (Suc (Suc (bheight t)))"
      using c by (auto simp: u bheight_nd)
    have "focus (set_col p ARB_RED (set_col w ARB_BLACK s)) cs (nd b ARB_RED t p (nd b ARB_BLACK y w z))"
      using f1 focus_set_col [OF focus_set_sibling] by (simp add: u)
    from rotate_focus [OF this] obtain s' where s': "rotate_to b p (set_col p ARB_RED (set_col w ARB_BLACK s)) = Some s'"
      "focus s' cs (nd b ARB_BLACK (nd b ARB_RED t p y) w z)"
      "frame (set (inorder (plug cs (nd b ARB_RED t p (nd b ARB_BLACK y w z))))) (set_col p ARB_RED (set_col w ARB_BLACK s)) s'" by blast
    have "frame (set (inorder T)) s (set_col p ARB_RED (set_col w ARB_BLACK s))"
      by (auto simp: T_def u set_plug intro!: frame_upd)
    then have "frame (set (inorder T)) s s'" by (rule frame_trans [OF _ s'(3)]) (auto simp: T_def u set_plug)
    moreover have "sibling_black p b s = Some s'" using e w col s'(1) True by (simp add: sibling_black_def)
    moreover have "inorder (plug ((b, ARB_RED, p, y) # (b, ARB_BLACK, w, z) # cs) t) = inorder T"
      by (auto simp: T_def u inorder_nd intro!: inorder_plug_cong)
    ultimately show ?thesis using s'(2) i
      by (intro exI [of _ s'] exI [of _ ARB_RED] exI [of _ y] exI [of _ "(b, ARB_BLACK, w, z) # cs"]) (simp add: focus_step)
  qed
qed

text \<open>Case 3: the sibling is black with a red child.\<close>

lemma outer_red:
  assumes f: "focus s cs (nd b c t p (nd b ARB_BLACK x w z))" and xz: "colour x = ARB_RED \<or> colour z = ARB_RED"
    and i: "invc x" "invh x" "invc z" "invh z" "bheight x = k" "bheight z = k"
  defines "T \<equiv> plug cs (nd b c t p (nd b ARB_BLACK x w z))"
  shows "\<exists>s' x' w' y f z'.
    (if \<not> is_red s (child (\<not> b) (rb_ent s w)) then do {
            s \<leftarrow> rotate_to (\<not> b) w s;
            w \<leftarrow> child (\<not> b) (rb_ent s p);
            let s = set_col w ARB_BLACK s;
            f \<leftarrow> child (\<not> b) (rb_ent s w);
            Some (set_col f ARB_RED s)
          } else Some s) = Some s' \<and>
    focus s' cs (nd b c t p (nd b ARB_BLACK x' w' (nd b ARB_RED y f z'))) \<and>
    inorder (plug cs (nd b c t p (nd b ARB_BLACK x' w' (nd b ARB_RED y f z')))) = inorder T \<and> frame (set (inorder T)) s s' \<and>
    invc x' \<and> invh x' \<and> bheight x' = k \<and> invc y \<and> invh y \<and> bheight y = k \<and> invc z' \<and> invh z' \<and> bheight z' = k"
proof (cases "colour z = ARB_RED")
  case True
  obtain g where "ptr_of z = Some g" using True by (cases z) auto
  then obtain y z' where z: "z = nd b ARB_RED y g z'" using red_nd [OF _ True] by blast
  show ?thesis using f sibling_entry [OF f] i unfolding T_def z
    by (intro exI [of _ s] exI [of _ x] exI [of _ w] exI [of _ y] exI [of _ g] exI [of _ z']) (auto simp: bheight_nd)
next
  case False
  then have "colour x = ARB_RED" using xz by simp
  moreover then obtain v where "ptr_of x = Some v" by (cases x) auto
  ultimately obtain x1 x2 where x: "x = nd b ARB_RED x1 v x2" using red_nd by blast
  have "focus s ((\<not> b, c, p, t) # cs) (nd (\<not> b) ARB_BLACK z w (nd (\<not> b) ARB_RED x2 v x1))"
    using f by (simp add: focus_step nd_flip x)
  from rotate_focus [OF this] obtain s1 where s1: "rotate_to (\<not> b) w s = Some s1"
    "focus s1 cs (nd b c t p (nd b ARB_RED x1 v (nd b ARB_BLACK x2 w z)))" "frame (set (inorder T)) s s1"
    by (auto simp: focus_step nd_flip x T_def)
  let ?s2 = "set_col v ARB_BLACK s1"
  have f2: "focus ?s2 cs (nd b c t p (nd b ARB_BLACK x1 v (nd b ARB_BLACK x2 w z)))" by (rule focus_set_sibling [OF s1(2)])
  then have "focus ?s2 ((\<not> b, c, p, t) # cs) (nd b ARB_BLACK x1 v (nd b ARB_BLACK x2 w z))" by (simp add: focus_step nd_flip)
  from focus_set_sibling [OF this, of ARB_RED]
  have f3: "focus (set_col w ARB_RED ?s2) cs (nd b c t p (nd b ARB_BLACK x1 v (nd b ARB_RED x2 w z)))" by (simp add: focus_step nd_flip)
  have "frame (set (inorder T)) s (set_col w ARB_RED ?s2)" using s1(3) by (auto simp: T_def x set_plug intro!: frame_upd)
  moreover have "inorder (plug cs (nd b c t p (nd b ARB_BLACK x1 v (nd b ARB_RED x2 w z)))) = inorder T"
    by (auto simp: T_def x inorder_nd intro!: inorder_plug_cong)
  ultimately show ?thesis using f3 s1(1) sibling_entry [OF f] sibling_entry [OF s1(2)] sibling_entry [OF f2] i False
    by (intro exI [of _ "set_col w ARB_RED ?s2"] exI [of _ x1] exI [of _ v] exI [of _ x2] exI [of _ w] exI [of _ z])
      (simp add: x bheight_nd)
qed

lemma remove_rotate_done:
  assumes f: "focus s ((b, c, p, nd b ARB_BLACK x w z) # cs) t" and xz: "colour x = ARB_RED \<or> colour z = ARB_RED"
    and t: "colour t = ARB_BLACK" "invc t" "invh t" and c: "ctx_inv ((b, c, p, nd b ARB_BLACK x w z) # cs) (Suc (bheight t))"
  defines "T \<equiv> plug ((b, c, p, nd b ARB_BLACK x w z) # cs) t"
  shows "\<exists>s'. remove_rotate p b s = Some s' \<and> done_with (inorder T) (set (inorder T)) s s'"
proof -
  have f1: "focus s cs (nd b c t p (nd b ARB_BLACK x w z))" using f by (simp add: focus_step)
  have i: "invc x" "invh x" "invc z" "invh z" "bheight x = bheight t" "bheight z = bheight t" using c by (auto simp: bheight_nd)
  from outer_red [OF f1 xz i] obtain s1 x' w' y g z' where s1:
    "(if \<not> is_red s (child (\<not> b) (rb_ent s w)) then do {
            s \<leftarrow> rotate_to (\<not> b) w s;
            w \<leftarrow> child (\<not> b) (rb_ent s p);
            let s = set_col w ARB_BLACK s;
            f \<leftarrow> child (\<not> b) (rb_ent s w);
            Some (set_col f ARB_RED s)
          } else Some s) = Some s1"
    and f2: "focus s1 cs (nd b c t p (nd b ARB_BLACK x' w' (nd b ARB_RED y g z')))"
    and o: "inorder (plug cs (nd b c t p (nd b ARB_BLACK x' w' (nd b ARB_RED y g z')))) = inorder T"
    and fr: "frame (set (inorder T)) s s1"
    and j: "invc x'" "invh x'" "bheight x' = bheight t" "invc y" "invh y" "bheight y = bheight t" "invc z'" "invh z'" "bheight z' = bheight t"
    unfolding T_def by auto
  let ?s2 = "set_col g ARB_BLACK s1"
  let ?s4 = "set_col p ARB_BLACK (set_col w' c ?s2)"
  have "focus s1 ((\<not> b, c, p, t) # cs) (nd b ARB_BLACK x' w' (nd b ARB_RED y g z'))" using f2 by (simp add: focus_step nd_flip)
  from focus_set_sibling [OF this, of ARB_BLACK]
  have f3: "focus ?s2 cs (nd b c t p (nd b ARB_BLACK x' w' (nd b ARB_BLACK y g z')))" by (simp add: focus_step nd_flip)
  then have "focus ?s4 cs (nd b ARB_BLACK t p (nd b c x' w' (nd b ARB_BLACK y g z')))" by (intro focus_set_col focus_set_sibling)
  from rotate_focus [OF this] obtain s' where s': "rotate_to b p ?s4 = Some s'"
    "focus s' cs (nd b c (nd b ARB_BLACK t p x') w' (nd b ARB_BLACK y g z'))"
    "frame (set (inorder (plug cs (nd b ARB_BLACK t p (nd b c x' w' (nd b ARB_BLACK y g z')))))) ?s4 s'" by blast
  let ?T = "plug cs (nd b c (nd b ARB_BLACK t p x') w' (nd b ARB_BLACK y g z'))"
  have A: "set (inorder T) = set (inorder (plug cs (nd b c t p (nd b ARB_BLACK x' w' (nd b ARB_RED y g z')))))" by (simp only: o)
  have "frame (set (inorder T)) s ?s4" using fr by (intro frame_upd) (auto simp: A set_plug)
  then have fr': "frame (set (inorder T)) s s'" by (rule frame_trans [OF _ s'(3)]) (auto simp: A set_plug)
  have rb: "red_black ?T" using c j t by (auto simp: red_black_plug bheight_nd)
  have o': "inorder ?T = inorder T" unfolding o [symmetric] by (auto simp: inorder_nd intro!: inorder_plug_cong)
  have "(case rb_root s' of None \<Rightarrow> s' | Some r \<Rightarrow> set_col r ARB_BLACK s') = s'"
    using rep_root_black [OF _ rb, of s'] s'(2) by (simp add: focus_iff split: option.splits)
  then have "remove_rotate p b s = Some s'"
    using sibling_entry [OF f1] s1 sibling_entry [OF f2] sibling_entry [OF f3] s'(1) by (simp add: remove_rotate_def)
  then show ?thesis using done_withI [OF s'(2) rb o' fr'] by blast
qed

text \<open>Cases 2 and 3 repeat up to the root.\<close>

lemma remove_fixup_done:
  assumes "focus s ((b, c, p, u) # cs) t" "colour t = ARB_BLACK" "invc t" "invh t"
    and "ctx_inv ((b, c, p, u) # cs) (Suc (bheight t))"
  shows "\<exists>s'. remove_fixup p b s = Some s' \<and>
    done_with (inorder (plug ((b, c, p, u) # cs) t)) (set (inorder (plug ((b, c, p, u) # cs) t))) s s'"
  using assms
proof (induction "length cs" arbitrary: s b c p u cs t rule: less_induct)
  case less
  let ?T = "plug ((b, c, p, u) # cs) t" and ?A = "set (inorder (plug ((b, c, p, u) # cs) t))"
  from sibling_black_focus [OF less.prems] obtain s1 c' y cs' where s1: "sibling_black p b s = Some s1"
    "focus s1 ((b, c', p, y) # cs') t" "colour y = ARB_BLACK" "ctx_inv ((b, c', p, y) # cs') (Suc (bheight t))"
    "c' = ARB_BLACK \<longrightarrow> cs' = cs" "inorder (plug ((b, c', p, y) # cs') t) = inorder ?T" "frame ?A s s1" by blast
  obtain w where "ptr_of y = Some w" using s1(4) by (cases y) auto
  then obtain x z where y: "y = nd b ARB_BLACK x w z" using red_nd s1(3) by blast
  have f1: "focus s1 cs' (nd b c' t p (nd b ARB_BLACK x w z))" using s1(2) by (simp add: focus_step y)
  note e1 = sibling_entry [OF f1]
  have cb: "children_black s1 w \<longleftrightarrow> colour x = ARB_BLACK \<and> colour z = ARB_BLACK"
    using e1 by (cases b) (auto simp: children_black_def child_def)
  have step: "remove_fixup p b s =
     (if children_black s1 w then
        (let s' = set_col w ARB_RED s1 in
         if c' = ARB_BLACK
         then (case above cs' of
                 None \<Rightarrow> Some s'
               | Some q \<Rightarrow> remove_fixup q (rb_left (rb_ent s' q) = Some p) s')
         else Some (set_col p ARB_BLACK s'))
      else remove_rotate p b s1)"
    using s1(1) e1 by (subst remove_fixup.simps) (simp add: Let_def)
  show ?case
  proof (cases "children_black s1 w")
    case False
    then obtain s' where "remove_rotate p b s1 = Some s'" "done_with (inorder ?T) ?A s1 s'"
      using remove_rotate_done [of s1 b c' p x w z cs' t] s1 less.prems cb unfolding y by auto
    then show ?thesis using False done_with_trans [OF _ s1(7)] unfolding step by auto
  next
    case True
    let ?s2 = "set_col w ARB_RED s1"
    have f2: "focus ?s2 cs' (nd b c' t p (nd b ARB_RED x w z))" by (rule focus_set_sibling [OF f1])
    have A: "?A = set (inorder (plug ((b, c', p, y) # cs') t))" by (simp only: s1(6))
    have wp: "w \<in> ?A" "p \<in> ?A" unfolding A by (simp_all add: y set_plug)
    have fr: "frame ?A s ?s2" "frame ?A s (set_col p ARB_BLACK ?s2)" by (intro frame_upd s1(7) wp)+
    have o: "inorder (plug cs' (nd b k t p (nd b k' x w z))) = inorder ?T" for k k'
      unfolding s1(6) [symmetric] y by (auto simp: inorder_nd intro!: inorder_plug_cong)
    have i: "invc x" "invh x" "bheight x = bheight t" "invc z" "invh z" "bheight z = bheight t"
      "ctx_inv cs' (Suc (bheight t) + (if c' = ARB_BLACK then 1 else 0))" "c' = ARB_RED \<longrightarrow> hole_colour cs' = ARB_BLACK"
      using s1(4) by (auto simp: y bheight_nd)
    show ?thesis
    proof (cases c')
      case ARB_RED
      have "focus (set_col p ARB_BLACK ?s2) cs' (nd b ARB_BLACK t p (nd b ARB_RED x w z))" by (rule focus_set_col [OF f2])
      moreover have "red_black (plug cs' (nd b ARB_BLACK t p (nd b ARB_RED x w z)))"
        using i less.prems True cb ARB_RED by (simp add: red_black_plug bheight_nd)
      ultimately show ?thesis using True ARB_RED done_withI [OF _ _ o fr(2)] by (simp add: step)
    next
      case ARB_BLACK
      then have cs: "cs' = cs" using s1(5) by simp
      let ?t2 = "nd b ARB_BLACK t p (nd b ARB_RED x w z)"
      have t2: "colour ?t2 = ARB_BLACK" "invc ?t2" "invh ?t2" "bheight ?t2 = Suc (bheight t)"
        using i less.prems True cb by (simp_all add: bheight_nd)
      show ?thesis
      proof (cases cs rule: hole_colour.cases)
        case 1
        then show ?thesis using True ARB_BLACK cs t2 f2 done_withI [OF _ _ o [of ARB_BLACK ARB_RED] fr(1)]
          by (simp add: step red_black_def)
      next
        case (2 d k q v cs2)
        have f3: "focus ?s2 ((d, k, q, v) # cs2) ?t2" using f2 by (simp add: cs 2 ARB_BLACK)
        have "ptr_of v \<noteq> Some p" using f3 ptr_of_in [of v p] by (auto simp: focus_def)
        moreover have "child d (rb_ent ?s2 q) = Some p" "child (\<not> d) (rb_ent ?s2 q) = ptr_of v" using f3 by (auto simp: focus_def)
        ultimately have l: "(rb_left (rb_ent ?s2 q) = Some p) = d" by (cases d) (auto simp: child_def)
        have ih: "\<exists>s'. remove_fixup q d ?s2 = Some s' \<and>
            done_with (inorder (plug ((d, k, q, v) # cs2) ?t2)) (set (inorder (plug ((d, k, q, v) # cs2) ?t2))) ?s2 s'"
          by (rule less.hyps) (use f3 t2 i 2 cs ARB_BLACK in simp_all)
        have o2: "inorder (plug ((d, k, q, v) # cs2) ?t2) = inorder ?T" using o [of ARB_BLACK ARB_RED] by (simp only: cs 2)
        have "remove_fixup p b s = remove_fixup q d ?s2" using True ARB_BLACK by (simp add: step Let_def cs 2 l del: set_ent_simps)
        then show ?thesis using ih done_with_trans [OF _ fr(1)] unfolding o2 by auto
      qed
    qed
  qed
qed

subsection \<open>Unlinking\<close>

lemma attach_unlink:
  assumes f: "focus s cs (nd b c x e Lf)"
  defines "s1 \<equiv> link_parent (ptr_of x) (above cs) s"
  shows "(case above cs of None \<Rightarrow> s1\<lparr>rb_root := y\<rparr> | Some q \<Rightarrow> set_child (is_left e s1) q y s1) = attach cs y s1"
    and "focus (attach cs (ptr_of x) s1) cs x" "frame (set (inorder x) \<union> outside cs) s (attach cs (ptr_of x) s1)"
    "rb_col (rb_ent (attach cs (ptr_of x) s1) e) = c" "cs = (d, c', q, u) # cs' \<Longrightarrow> is_left e s1 = d"
proof -
  have fr: "frame (set (inorder x)) s s1" unfolding s1_def by (intro frame_upd frame_refl) (auto dest: ptr_of_in)
  have o: "\<forall>a\<in>outside cs. rb_ent s1 a = rb_ent s a" "rb_root s1 = rb_root s"
    using f fr by (auto simp: focus_def frame_def s1_def)
  have sh: "shape (rb_ent s1) (above cs) x" using f unfolding s1_def by (subst shape_link_own) (auto simp: focus_def shape_body)
  show "focus (attach cs (ptr_of x) s1) cs x" by (rule focus_attach [OF f o sh]) (use f in \<open>auto simp: focus_def\<close>)
  show "frame (set (inorder x) \<union> outside cs) s (attach cs (ptr_of x) s1)" by (rule frame_trans [OF fr attach_frame]) auto
  have e: "rb_ent s1 e = rb_ent s e" "e \<notin> outside cs" using f ptr_of_in [of x e] by (auto simp: s1_def focus_def)
  then show "rb_col (rb_ent (attach cs (ptr_of x) s1) e) = c" using f by (simp add: attach_inside focus_def)
  show l: "is_left e s1 = d" if cs: "cs = (d, c', q, u) # cs'" for d c' q u cs'
  proof -
    have "ptr_of u \<noteq> Some e" using f ptr_of_in [of u e] by (auto simp: cs focus_def)
    moreover have "child d (rb_ent s1 q) = Some e" "child (\<not> d) (rb_ent s1 q) = ptr_of u" "rb_parent (rb_ent s e) = Some q"
      using f o by (auto simp: cs focus_def)
    ultimately show ?thesis using e by (cases d) (auto simp: is_left_def child_def)
  qed
  show "(case above cs of None \<Rightarrow> s1\<lparr>rb_root := y\<rparr> | Some q \<Rightarrow> set_child (is_left e s1) q y s1) = attach cs y s1"
    by (cases cs rule: hole_colour.cases) (auto simp: l)
qed

lemma black_zero: "invh t \<Longrightarrow> colour t = ARB_BLACK \<Longrightarrow> bheight t = 0 \<Longrightarrow> t = Lf" by (cases t) auto

lemma unlink_done:
  assumes f: "focus s cs (nd b c x e Lf)" and rb: "red_black (plug cs (nd b c x e Lf))"
  shows "\<exists>s'. unlink e s = Some s' \<and> done_with (before cs @ inorder x @ after cs) (set (inorder (plug cs (nd b c x e Lf)))) s s'"
proof -
  let ?s1 = "attach cs (ptr_of x) (link_parent (ptr_of x) (above cs) s)"
  note a = attach_unlink [OF f]
  have i: "invc x" "invh x" "bheight x = 0" "c = ARB_RED \<longrightarrow> colour x = ARB_BLACK"
    "ctx_inv cs (if c = ARB_BLACK then 1 else 0)" "c = ARB_RED \<longrightarrow> hole_colour cs = ARB_BLACK"
    using rb by (auto simp: red_black_plug bheight_nd)
  have fr: "frame (set (inorder (plug cs (nd b c x e Lf)))) s ?s1" by (rule frame_mono [OF a(3)]) (auto simp: set_plug)
  have cld: "(case rb_left (rb_ent s e) of None \<Rightarrow> rb_right (rb_ent s e) | Some l \<Rightarrow> Some l) = ptr_of x"
    using focus_entry [OF f] by (cases b; cases x) (auto simp: child_def)
  have p: "rb_parent (rb_ent s e) = above cs" using focus_entry [OF f] by simp
  have u: "unlink e s = (if c = ARB_RED then Some ?s1
      else if is_red ?s1 (ptr_of x) then Some (set_col (the (ptr_of x)) ARB_BLACK ?s1)
      else if rb_root ?s1 = None then Some ?s1
      else if rb_root ?s1 = ptr_of x then Some (set_col (the (ptr_of x)) ARB_BLACK ?s1)
      else case above cs of None \<Rightarrow> None | Some q \<Rightarrow> remove_fixup q (is_left e (link_parent (ptr_of x) (above cs) s)) ?s1)"
    using a(4) unfolding unlink_def Let_def cld p a(1) by simp
  consider "c = ARB_RED" | "c = ARB_BLACK" "colour x = ARB_RED" | "c = ARB_BLACK" "colour x = ARB_BLACK" by (cases c; cases "colour x") auto
  then show ?thesis
  proof cases
    case 1
    then have "red_black (plug cs x)" using i by (simp add: red_black_plug)
    then show ?thesis using 1 done_withI [OF a(2) _ inorder_plug fr] by (simp add: u)
  next
    case 2
    then obtain v where v: "ptr_of x = Some v" by (cases x) auto
    then obtain y z where x: "x = nd True ARB_RED y v z" using red_nd 2(2) by blast
    have f2: "focus (set_col v ARB_BLACK ?s1) cs (nd True ARB_BLACK y v z)" using focus_set_col a(2) unfolding x by blast
    have rb: "red_black (plug cs (nd True ARB_BLACK y v z))" using i 2 by (auto simp: red_black_plug x bheight_nd)
    have "is_red ?s1 (ptr_of x)" using a(2) 2(2) is_red_shape [of ?s1 "above cs" x] by (simp add: focus_def)
    moreover have "frame (set (inorder (plug cs (nd b c x e Lf)))) s (set_col v ARB_BLACK ?s1)"
      using fr by (rule frame_upd) (simp add: set_plug x)
    ultimately show ?thesis using 2(1) v done_withI [OF f2 rb inorder_plug] by (auto simp: u x inorder_nd)
  next
    case 3
    then have x: "x = Lf" using black_zero i by blast
    then have nr: "\<not> is_red ?s1 (ptr_of x)" by (simp add: is_red_def)
    show ?thesis
    proof (cases cs rule: hole_colour.cases)
      case 1
      have "red_black (plug cs x)" by (simp add: 1 x red_black_def)
      then show ?thesis using 3(1) nr done_withI [OF a(2) _ inorder_plug fr] by (simp add: u 1 x)
    next
      case (2 d c' q v cs')
      have "rb_root ?s1 \<noteq> None" using around_root [of "rb_ent ?s1" "rb_root ?s1" cs "ptr_of x"] a(2) by (auto simp: focus_def 2)
      then have "unlink e s = remove_fixup q d ?s1" using 3(1) nr a(5) [OF 2] unfolding u by (auto simp: x 2)
      moreover have "\<exists>s'. remove_fixup q d ?s1 = Some s' \<and> done_with (inorder (plug cs x)) (set (inorder (plug cs x))) ?s1 s'"
        unfolding 2 by (rule remove_fixup_done) (use a(2) i 3 in \<open>simp_all add: x 2\<close>)
      moreover have "set (inorder (plug cs x)) \<subseteq> set (inorder (plug cs (nd b c x e Lf)))" by (auto simp: set_plug)
      ultimately show ?thesis using done_with_trans [OF _ fr _ subset_refl] unfolding inorder_plug by fastforce
    qed
  qed
qed

subsection \<open>Removal of an entry\<close>

lemma rightmost_spine:
  assumes "shape (rb_ent s) p t" "ptr_of t = Some a"
  shows "\<exists>m ds c x. rightmost s a = Some m \<and> t = plug ds (Nd c x m Lf) \<and> after ds = []"
  using assms
proof (induction t arbitrary: a p)
  case (Nd c l e r)
  show ?case
  proof (cases r)
    case Lf
    then show ?thesis using Nd.prems by (subst rightmost.simps) (auto intro!: exI [of _ "[]"])
  next
    case (Nd c' l' b r')
    then obtain m ds k x where m: "rightmost s b = Some m" "r = plug ds (Nd k x m Lf)" "after ds = []"
      using Nd.IH(2) [of "Some e" b] Nd.prems by auto
    have "rightmost s a = Some m" using Nd.prems Nd m(1) by (subst rightmost.simps) auto
    then show ?thesis using m
      by (intro exI [of _ m] exI [of _ "ds @ [(False, c, e, l)]"] exI [of _ k] exI [of _ x]) (simp add: plug_append nd_def after_append)
  qed
qed simp

lemma map_tree_id: "\<forall>a\<in>set (inorder t). f a = a \<Longrightarrow> map_tree f t = t"
  by (induction t) auto

lemma map_plug: "\<forall>a\<in>outside cs. f a = a \<Longrightarrow> map_tree f (plug cs t) = plug cs (map_tree f t)"
  by (induction cs t rule: plug.induct) (auto simp: nd_def map_tree_id)

lemma rb_set_keys: "rb_set s A \<Longrightarrow> inj_on (\<lambda>a. rb_key (rb_ent s a)) A"
proof -
  have "ordered s xs \<Longrightarrow> distinct (map (\<lambda>a. rb_key (rb_ent s a)) xs)" for xs by (induction xs) (auto simp: ordered_def)
  then show "rb_set s A \<Longrightarrow> ?thesis" by (auto simp: rb_set_def distinct_map)
qed

lemma rb_remove_set:
  assumes "rb_set s A" "e \<in> A"
  shows "\<exists>s'. rb_remove_entry e s = Some s' \<and> rb_set s' (A - {e}) \<and> frame A s s'"
proof -
  obtain t where t: "rep s t" "red_black t" "ordered s (inorder t)" "set (inorder t) = A" using assms(1) by (auto simp: rb_set_def)
  obtain cs c l r where T: "t = plug cs (Nd c l e r)" using at_entry assms(2) t(4) by blast
  have f: "focus s cs (Nd c l e r)" using t(1) by (simp add: T focus_iff)
  have d: "distinct (inorder t)" using t(1) by (simp add: rep_def)
  have fin: "rb_set s' (A - {e}) \<and> frame A s s'" if "done_with (remove1 e (inorder t)) A s s'" for s'
  proof -
    have "ordered s (remove1 e (inorder t))" using t(3) d by (simp add: ordered_def distinct_remove1_removeAll removeAll_filter_not_eq sorted_wrt_filter)
    from done_with_rb_set [OF that this] show ?thesis using that d t(4) by (simp add: done_with_def)
  qed
  show ?thesis
  proof (cases l)
    case Lf
    then have f': "focus s cs (nd False c r e Lf)" "red_black (plug cs (nd False c r e Lf))" using f t(2) by (simp_all add: nd_def T)
    have o: "before cs @ inorder r @ after cs = remove1 e (inorder t)" using d by (simp add: T inorder_plug Lf remove1_append)
    have "set (inorder (plug cs (nd False c r e Lf))) = A" using t(4) by (simp add: T Lf nd_def)
    with unlink_done [OF f'] o obtain s' where "unlink e s = Some s'" "done_with (remove1 e (inorder t)) A s s'" by auto
    moreover have "rb_left (rb_ent s e) = None" using f by (simp add: focus_def Lf)
    ultimately show ?thesis using fin by (simp add: rb_remove_entry_def)
  next
    case (Nd k ll b lr)
    then have p: "ptr_of l = Some b" "shape (rb_ent s) (Some e) l" "rb_left (rb_ent s e) = Some b" using f by (auto simp: focus_def)
    from rightmost_spine [OF p(2,1)] obtain m ds c2 x where m: "rightmost s b = Some m" "l = plug ds (Nd c2 x m Lf)" "after ds = []" by blast
    let ?cs = "ds @ (True, c, m, r) # cs"
    have o: "inorder t = before cs @ before ds @ inorder x @ m # e # inorder r @ after cs"
      by (simp add: T m(2,3) inorder_plug)
    have out: "outside cs = set (before cs) \<union> set (after cs)" "outside ds = set (before ds)" using m(3) by (simp_all add: outside_parts)
    have "\<forall>a\<in>outside cs. swp e m a = a" "\<forall>a\<in>outside ds. swp e m a = a" "\<forall>a\<in>set (inorder x). swp e m a = a"
      "\<forall>a\<in>set (inorder r). swp e m a = a"
      using d unfolding o out by (auto simp: swp_def)
    note fixd = this(1,2) [THEN map_plug] this(3,4) [THEN map_tree_id]
    have "map_tree (swp e m) t = plug cs (nd True c (plug ds (Nd c2 x e Lf)) m r)"
      unfolding T m(2) by (simp add: fixd nd_def) (simp add: swp_def)
    then have T1: "map_tree (swp e m) t = plug ?cs (nd True c2 x e Lf)" by (simp add: plug_append nd_def)
    have np: "rb_parent (rb_ent s e) \<noteq> Some m" using f d o by (cases cs rule: hole_colour.cases) (auto simp: focus_def)
    have "e \<in> set (inorder t)" "m \<in> set (inorder t)" "e \<noteq> m" using d o by auto
    from swap_entries_rep [OF t(1) this np] obtain s1 where s1: "rb_swap e m s = Some s1" "focus s1 ?cs (nd True c2 x e Lf)" "frame A s s1"
      using np unfolding T1 focus_iff by (auto simp: rb_swap_def t(4))
    have rb: "red_black (plug ?cs (nd True c2 x e Lf))" unfolding T1 [symmetric] using t(2) by simp
    have "before ?cs @ inorder x @ after ?cs = remove1 e (inorder t)"
      using d unfolding o by (simp add: before_append after_append m(3) remove1_append)
    moreover have "set (inorder (plug ?cs (nd True c2 x e Lf))) = A"
      unfolding t(4) [symmetric] o by (auto simp: set_plug outside_parts before_append after_append m(3))
    ultimately obtain s' where s': "unlink e s1 = Some s'" "done_with (remove1 e (inorder t)) A s1 s'"
      using unlink_done [OF s1(2) rb] by auto
    have "rb_remove_entry e s = Some s'" using p(3) m(1) s1(1) s'(1) by (simp add: rb_remove_entry_def)
    then show ?thesis using fin [OF done_with_trans [OF s'(2) s1(3)]] by auto
  qed
qed

lemma rb_remove_key:
  assumes "rb_set s A"
  shows "\<exists>r s'. rb_remove k s = Some (r, s') \<and> frame A s s' \<and> rb_set s' {a \<in> A. rb_key (rb_ent s a) \<noteq> k} \<and>
    r = (if \<exists>a\<in>A. rb_key (rb_ent s a) = k then 1 else 0)"
proof -
  obtain x where x: "rb_find s k = Some x" "found s k A x" using rb_find_set [OF assms] by blast
  show ?thesis
  proof (cases x)
    case None
    then have "{a \<in> A. rb_key (rb_ent s a) \<noteq> k} = A" using x(2) by (auto simp: found_def)
    then show ?thesis using None x assms by (auto simp: rb_remove_def found_def)
  next
    case (Some e)
    then have e: "e \<in> A" "rb_key (rb_ent s e) = k" using x(2) by (auto simp: found_def)
    obtain s' where s': "rb_remove_entry e s = Some s'" "rb_set s' (A - {e})" "frame A s s'" using rb_remove_set [OF assms e(1)] by blast
    have "{a \<in> A. rb_key (rb_ent s a) \<noteq> k} = A - {e}" using rb_set_keys [OF assms] e by (auto simp: inj_on_def)
    then show ?thesis using Some x(1) s' e by (auto simp: rb_remove_def)
  qed
qed

end
