(* ===== verification/RbMap.thy ===== *)
theory RbMap
  imports RbRemove
begin

text \<open>
  The interface of the red-black trees of \<^verbatim>\<open>src/src/libanoubis/apn/rbtree.c\<close>: an index of entries by their keys. The locale
  \<open>entry_index\<close> states what the users of the tree rely on and derives the lookups after a change. It is interpreted on
  the operations of the tree. The theorem follows the tree through any sequence of operations.
\<close>

locale entry_index =
  fixes holds :: "'s \<Rightarrow> nat set \<Rightarrow> bool"
    and key :: "'s \<Rightarrow> nat \<Rightarrow> u64"
    and find :: "'s \<Rightarrow> u64 \<Rightarrow> ptr option"
    and insert_entry :: "nat \<Rightarrow> 's \<Rightarrow> (int \<times> 's) option"
    and remove_entry :: "nat \<Rightarrow> 's \<Rightarrow> 's option"
  assumes keys_inj: "holds s A \<Longrightarrow> inj_on (key s) A"
    and find_holds: "holds s A \<Longrightarrow> \<exists>x. find s k = Some x \<and> (case x of None \<Rightarrow> k \<notin> key s ` A | Some a \<Rightarrow> a \<in> A \<and> key s a = k)"
    and insert_holds: "holds s A \<Longrightarrow> \<exists>r s'. insert_entry n s = Some (r, s') \<and> key s' = key s \<and>
      (if key s n \<in> key s ` A then r = 0 \<and> s' = s else r = 1 \<and> holds s' (insert n A))"
    and remove_holds: "holds s A \<Longrightarrow> e \<in> A \<Longrightarrow> \<exists>s'. remove_entry e s = Some s' \<and> key s' = key s \<and> holds s' (A - {e})"
begin

text \<open>The index as a finite map from keys to entries.\<close>

definition maps :: "'s \<Rightarrow> (u64 \<rightharpoonup> nat) \<Rightarrow> bool" where
  "maps s m \<longleftrightarrow> holds s (ran m) \<and> (\<forall>k a. m k = Some a \<longrightarrow> key s a = k)"

lemma maps_find: "maps s m \<Longrightarrow> find s k = Some (m k)"
proof -
  assume m: "maps s m"
  then obtain x where x: "find s k = Some x" "case x of None \<Rightarrow> k \<notin> key s ` ran m | Some a \<Rightarrow> a \<in> ran m \<and> key s a = k"
    using find_holds maps_def by blast
  have "x = m k" using x(2) m by (cases x; cases "m k") (auto simp: maps_def ran_def image_def)
  then show ?thesis using x(1) by simp
qed

lemma maps_insert:
  "maps s m \<Longrightarrow> \<exists>r s'. insert_entry n s = Some (r, s') \<and> key s' = key s \<and>
     (if m (key s n) = None then r = 1 \<and> maps s' (m(key s n \<mapsto> n)) else r = 0 \<and> s' = s)"
proof -
  assume m: "maps s m"
  then obtain r s' where i: "insert_entry n s = Some (r, s')" "key s' = key s"
    "if key s n \<in> key s ` ran m then r = 0 \<and> s' = s else r = 1 \<and> holds s' (insert n (ran m))"
    using insert_holds maps_def by blast
  have "key s n \<in> key s ` ran m \<longleftrightarrow> m (key s n) \<noteq> None" using m by (auto simp: maps_def ran_def image_def)
  then show ?thesis using i m by (auto simp: maps_def split: if_splits)
qed

lemma maps_remove:
  "maps s m \<Longrightarrow> m k = Some e \<Longrightarrow> \<exists>s'. remove_entry e s = Some s' \<and> key s' = key s \<and> maps s' (m(k := None))"
proof -
  assume m: "maps s m" and e: "m k = Some e"
  then have "holds s (ran m)" "e \<in> ran m" by (auto simp: maps_def ran_def)
  from remove_holds [OF this] obtain s' where s': "remove_entry e s = Some s'" "key s' = key s" "holds s' (ran m - {e})" by blast
  have "k' = k" if "m k' = Some e" for k' using that m e unfolding maps_def by metis
  then have "a \<in> ran (m(k := None)) \<longleftrightarrow> a \<in> ran m - {e}" for a
    unfolding ran_def fun_upd_apply mem_Collect_eq Diff_iff singleton_iff using e by (metis option.distinct(1) option.inject)
  then have "ran (m(k := None)) = ran m - {e}" by blast
  then show ?thesis using s' m by (auto simp: maps_def)
qed

end

lemma frame_key: "frame A s s' \<Longrightarrow> (\<lambda>a. rb_key (rb_ent s' a)) = (\<lambda>a. rb_key (rb_ent s a))"
  by (simp add: frame_def)

interpretation rb: entry_index rb_set "\<lambda>s a. rb_key (rb_ent s a)" rb_find rb_insert_entry rb_remove_entry
proof
  fix s A k n e
  assume a: "rb_set s A"
  show "inj_on (\<lambda>a. rb_key (rb_ent s a)) A" by (rule rb_set_keys [OF a])
  show "\<exists>x. rb_find s k = Some x \<and> (case x of None \<Rightarrow> k \<notin> (\<lambda>a. rb_key (rb_ent s a)) ` A | Some a \<Rightarrow> a \<in> A \<and> rb_key (rb_ent s a) = k)"
    using rb_find_set [OF a, of k] by (auto simp: found_def split: option.splits)
  show "\<exists>r s'. rb_insert_entry n s = Some (r, s') \<and> (\<lambda>a. rb_key (rb_ent s' a)) = (\<lambda>a. rb_key (rb_ent s a)) \<and>
      (if rb_key (rb_ent s n) \<in> (\<lambda>a. rb_key (rb_ent s a)) ` A then r = 0 \<and> s' = s else r = 1 \<and> rb_set s' (insert n A))"
    using rb_insert_set [OF a, of n] frame_key by (auto simp: image_def eq_commute split: if_splits) 
  show "e \<in> A \<Longrightarrow> \<exists>s'. rb_remove_entry e s = Some s' \<and> (\<lambda>a. rb_key (rb_ent s' a)) = (\<lambda>a. rb_key (rb_ent s a)) \<and> rb_set s' (A - {e})"
    using rb_remove_set [OF a, of e] frame_key by blast
qed

subsection \<open>Height\<close>

fun height :: "tree \<Rightarrow> nat" where
  "height Lf = 0"
| "height (Nd c l a r) = Suc (max (height l) (height r))"

lemma height_bheight: "invc t \<Longrightarrow> invh t \<Longrightarrow> height t \<le> 2 * bheight t + (if colour t = ARB_RED then 1 else 0)"
  by (induction t) (auto split: if_splits)

lemma bheight_size: "invh t \<Longrightarrow> 2 ^ bheight t \<le> length (inorder t) + 1"
  by (induction t) auto

lemma red_black_height: "red_black t \<Longrightarrow> 2 ^ height t \<le> (length (inorder t) + 1) ^ 2"
proof -
  assume "red_black t"
  then have "height t \<le> 2 * bheight t" "invh t" using height_bheight [of t] by (auto simp: red_black_def)
  then have "(2::nat) ^ height t \<le> 2 ^ (bheight t * 2)" by (intro power_increasing) auto
  also have "\<dots> = (2 ^ bheight t) ^ 2" by (rule power_mult)
  also have "\<dots> \<le> (length (inorder t) + 1) ^ 2" using bheight_size [OF \<open>invh t\<close>] by (intro power_mono) auto
  finally show ?thesis .
qed

subsection \<open>Sequences of operations\<close>

datatype rb_op = Rb_insert nat | Rb_remove u64 | Rb_find u64

datatype rb_result = Rb_int int | Rb_ptr ptr

fun rb_step :: "rb_op \<Rightarrow> rbt \<Rightarrow> (rb_result \<times> rbt) option" where
  "rb_step (Rb_insert n) s = map_option (\<lambda>(r, s). (Rb_int r, s)) (rb_insert_entry n s)"
| "rb_step (Rb_remove k) s = map_option (\<lambda>(r, s). (Rb_int r, s)) (rb_remove k s)"
| "rb_step (Rb_find k) s = map_option (\<lambda>x. (Rb_ptr x, s)) (rb_find s k)"

fun rb_exec :: "rb_op list \<Rightarrow> rbt \<Rightarrow> (rb_result list \<times> rbt) option" where
  "rb_exec [] s = Some ([], s)"
| "rb_exec (x # xs) s = do { (r, s) \<leftarrow> rb_step x s; (rs, s) \<leftarrow> rb_exec xs s; Some (r # rs, s) }"

text \<open>The same operations on a map from keys to entries.\<close>

fun map_step :: "(nat \<Rightarrow> u64) \<Rightarrow> rb_op \<Rightarrow> (u64 \<rightharpoonup> nat) \<Rightarrow> rb_result \<times> (u64 \<rightharpoonup> nat)" where
  "map_step key (Rb_insert n) m = (if m (key n) = None then (Rb_int 1, m(key n \<mapsto> n)) else (Rb_int 0, m))"
| "map_step key (Rb_remove k) m = (if m k = None then (Rb_int 0, m) else (Rb_int 1, m(k := None)))"
| "map_step key (Rb_find k) m = (Rb_ptr (m k), m)"

fun map_exec :: "(nat \<Rightarrow> u64) \<Rightarrow> rb_op list \<Rightarrow> (u64 \<rightharpoonup> nat) \<Rightarrow> rb_result list \<times> (u64 \<rightharpoonup> nat)" where
  "map_exec key [] m = ([], m)"
| "map_exec key (x # xs) m = (let (r, m) = map_step key x m; (rs, m) = map_exec key xs m in (r # rs, m))"

lemma rb_step_maps:
  assumes "rb.maps s m"
  shows "\<exists>s'. rb_step x s = Some (fst (map_step (\<lambda>a. rb_key (rb_ent s a)) x m), s') \<and>
    (\<lambda>a. rb_key (rb_ent s' a)) = (\<lambda>a. rb_key (rb_ent s a)) \<and> rb.maps s' (snd (map_step (\<lambda>a. rb_key (rb_ent s a)) x m))"
proof (cases x)
  case (Rb_insert n)
  show ?thesis using rb.maps_insert [OF assms, of n] assms by (auto simp: Rb_insert)
next
  case (Rb_remove k)
  show ?thesis
  proof (cases "m k")
    case None
    then show ?thesis using rb.maps_find [OF assms, of k] assms by (simp add: Rb_remove rb_remove_def)
  next
    case (Some e)
    then show ?thesis using rb.maps_find [OF assms, of k] rb.maps_remove [OF assms Some] by (auto simp: Rb_remove rb_remove_def)
  qed
next
  case (Rb_find k)
  show ?thesis using rb.maps_find [OF assms, of k] assms by (simp add: Rb_find)
qed

lemma rb_exec_maps:
  assumes "rb.maps s m"
  shows "\<exists>s'. rb_exec xs s = Some (fst (map_exec (\<lambda>a. rb_key (rb_ent s a)) xs m), s') \<and>
    (\<lambda>a. rb_key (rb_ent s' a)) = (\<lambda>a. rb_key (rb_ent s a)) \<and> rb.maps s' (snd (map_exec (\<lambda>a. rb_key (rb_ent s a)) xs m))"
  using assms
proof (induction xs arbitrary: s m)
  case (Cons x xs)
  let ?key = "\<lambda>a. rb_key (rb_ent s a)"
  obtain r m1 where m1: "map_step ?key x m = (r, m1)" by fastforce
  with rb_step_maps [OF Cons.prems, of x] obtain s1 where s1: "rb_step x s = Some (r, s1)"
    "(\<lambda>a. rb_key (rb_ent s1 a)) = ?key" "rb.maps s1 m1" by auto
  obtain rs m2 where m2: "map_exec ?key xs m1 = (rs, m2)" by fastforce
  with Cons.IH [OF s1(3)] obtain s2 where "rb_exec xs s1 = Some (rs, s2)" "(\<lambda>a. rb_key (rb_ent s2 a)) = ?key" "rb.maps s2 m2"
    by (auto simp: s1(2))
  then show ?case using s1(1) m1 m2 by auto
qed simp

text \<open>
  C9. The red-black tree is a correct and balanced index, for any sequence of insertions, removals and searches on an
  empty tree, whatever the links of the unused entries contain. No operation follows a NULL pointer or
  loops; each returns what the same operation on a finite map returns; in the end the tree holds exactly the entries of
  the map in the order of their keys, and its height is at most twice the binary logarithm of the number of entries plus one.
\<close>

theorem rb_tree_is_map:
  "let key = \<lambda>a. rb_key (h a); (rs, m) = map_exec key ops Map.empty in
   \<exists>s t. rb_exec ops \<lparr>rb_root = None, rb_ent = h\<rparr> = Some (rs, s) \<and> rep s t \<and> red_black t \<and>
     sorted_wrt (<) (map key (inorder t)) \<and> set (inorder t) = ran m \<and> 2 ^ height t \<le> (card (ran m) + 1) ^ 2"
proof -
  let ?s = "\<lparr>rb_root = None, rb_ent = h\<rparr>" and ?key = "\<lambda>a. rb_key (h a)"
  have "rb_set ?s {}" by (simp add: rb_set_def rep_def exI [of _ Lf] red_black_def ordered_def)
  then have "rb.maps ?s Map.empty" by (simp add: rb.maps_def)
  obtain rs m where m: "map_exec ?key ops Map.empty = (rs, m)" by fastforce
  with rb_exec_maps [OF \<open>rb.maps ?s Map.empty\<close>, of ops] obtain s where s: "rb_exec ops ?s = Some (rs, s)"
    "(\<lambda>a. rb_key (rb_ent s a)) = ?key" "rb.maps s m" by auto
  then obtain t where t: "rep s t" "red_black t" "ordered s (inorder t)" "set (inorder t) = ran m" by (auto simp: rb.maps_def rb_set_def)
  have "length (inorder t) = card (ran m)" using t(1,4) distinct_card [of "inorder t"] by (simp add: rep_def)
  then have "2 ^ height t \<le> (card (ran m) + 1) ^ 2" using red_black_height [OF t(2)] by simp
  moreover have "sorted_wrt (<) (map ?key (inorder t))" using t(3) s(2) by (simp add: ordered_def sorted_wrt_map fun_eq_iff)
  ultimately show ?thesis using s(1) t m by auto
qed

end
