(* ===== verification/ApnRuleset.thy ===== *)
theory ApnRuleset
  imports RbMap Rules
begin

text \<open>
  Rulesets as linked structures and the operations of their editors, \<^verbatim>\<open>src/src/libanoubis/apn/apnparser.c\<close>: adding, inserting,
  copying, moving and removing blocks and rules, the removal of expired rules, and the identifiers of rules.

  Rules live in a store. A \<^verbatim>\<open>TAILQ\<close> is the list of the addresses of its members, the pointer \<^verbatim>\<open>pchain\<close> names one of the four queues
  or the chain of a block. The embedded \<^verbatim>\<open>rb_entry\<close> of a rule, whose key is the identifier of the rule, is the entry with
  the same address in the red-black tree. Freed rules have no node. An operation has no result (\<open>None\<close>) if it uses a freed rule, follows a
  NULL pointer, divides by zero or does not end. The results of \<^verbatim>\<open>rand\<close> are a sequence in the state. Allocation succeeds and takes unused addresses.
\<close>

datatype block_type = APN_ALF | APN_SFS | APN_SB | APN_CTX

datatype chain_ref = Queue block_type | Chain_of nat

datatype rule_part = Chain block_type "nat list" | Body apn_body

record apn_node =
  n_scope :: "apn_scope option"
  n_app :: "apn_app list"
  n_pchain :: "chain_ref option"
  n_flags :: u32
  n_rule :: rule_part

record ruleset =
  rs_maxid :: u32
  rs_ids :: rbt
  rs_queue :: "block_type \<Rightarrow> nat list"
  rs_node :: "nat \<rightharpoonup> apn_node"
  rs_next :: nat
  rs_rand :: "nat \<Rightarrow> u32"
  rs_rpos :: nat

abbreviation UINT_MAX :: u32 where "UINT_MAX \<equiv> -1"

text \<open>\<^verbatim>\<open>rule->apn_id\<close>\<close>

definition rule_id :: "ruleset \<Rightarrow> nat \<Rightarrow> u64" where
  "rule_id rs a = rb_key (rb_ent (rs_ids rs) a)"

definition set_id :: "nat \<Rightarrow> u64 \<Rightarrow> ruleset \<Rightarrow> ruleset" where
  "set_id a k rs = rs\<lparr>rs_ids := set_ent a (rb_key_update (\<lambda>_. k)) (rs_ids rs)\<rparr>"

definition set_node :: "nat \<Rightarrow> (apn_node \<Rightarrow> apn_node) \<Rightarrow> ruleset \<Rightarrow> ruleset" where
  "set_node a f rs = rs\<lparr>rs_node := (rs_node rs)(a := map_option f (rs_node rs a))\<rparr>"

definition is_block :: "block_type \<Rightarrow> rule_part \<Rightarrow> bool" where
  "is_block t r = (case r of Chain t' xs \<Rightarrow> t' = t | Body b \<Rightarrow> False)"

fun apn_verify_types :: "block_type \<Rightarrow> rule_part \<Rightarrow> bool" where
  "apn_verify_types parent (Chain t xs) = False"
| "apn_verify_types parent (Body b) =
     (case parent of
        APN_ALF \<Rightarrow> (case b of APN_DEFAULT _ \<Rightarrow> True | APN_ALF_FILTER _ \<Rightarrow> True | APN_ALF_CAPABILITY _ \<Rightarrow> True | _ \<Rightarrow> False)
      | APN_SB \<Rightarrow> (case b of APN_DEFAULT _ \<Rightarrow> True | APN_SB_ACCESS _ \<Rightarrow> True | _ \<Rightarrow> False)
      | APN_SFS \<Rightarrow> (case b of APN_SFS_ACCESS _ \<Rightarrow> True | APN_SFS_DEFAULT _ \<Rightarrow> True | _ \<Rightarrow> False)
      | APN_CTX \<Rightarrow> (case b of APN_CTX_RULE _ \<Rightarrow> True | _ \<Rightarrow> False))"

subsection \<open>Chains\<close>

definition get_chain :: "ruleset \<Rightarrow> chain_ref \<Rightarrow> nat list option" where
  "get_chain rs c =
     (case c of
        Queue t \<Rightarrow> Some (rs_queue rs t)
      | Chain_of a \<Rightarrow> (case rs_node rs a of
            None \<Rightarrow> None
          | Some n \<Rightarrow> (case n_rule n of Chain t xs \<Rightarrow> Some xs | Body b \<Rightarrow> None)))"

definition map_chain :: "(nat list \<Rightarrow> nat list) \<Rightarrow> rule_part \<Rightarrow> rule_part" where
  "map_chain f r = (case r of Chain t xs \<Rightarrow> Chain t (f xs) | Body b \<Rightarrow> Body b)"

definition set_chain :: "chain_ref \<Rightarrow> (nat list \<Rightarrow> nat list) \<Rightarrow> ruleset \<Rightarrow> ruleset" where
  "set_chain c f rs =
     (case c of
        Queue t \<Rightarrow> rs\<lparr>rs_queue := (rs_queue rs)(t := f (rs_queue rs t))\<rparr>
      | Chain_of a \<Rightarrow> set_node a (n_rule_update (map_chain f)) rs)"

fun list_before :: "nat \<Rightarrow> nat \<Rightarrow> nat list \<Rightarrow> nat list" where
  "list_before x y [] = []"
| "list_before x y (z # zs) = (if z = x then y # z # zs else z # list_before x y zs)"

fun list_after :: "nat \<Rightarrow> nat \<Rightarrow> nat list \<Rightarrow> nat list" where
  "list_after x y [] = []"
| "list_after x y (z # zs) = (if z = x then z # y # zs else z # list_after x y zs)"

fun list_next :: "nat \<Rightarrow> nat list \<Rightarrow> ptr" where
  "list_next x [] = None"
| "list_next x (z # zs) = (if z = x then (case zs of [] \<Rightarrow> None | w # ws \<Rightarrow> Some w) else list_next x zs)"

text \<open>\<^verbatim>\<open>TAILQ_INSERT_BEFORE(anchor, rule, entry); rule->pchain = anchor->pchain;\<close>\<close>

definition insert_before :: "nat \<Rightarrow> nat \<Rightarrow> ruleset \<Rightarrow> ruleset option" where
  "insert_before anchor rule rs = do {
     n \<leftarrow> rs_node rs anchor;
     c \<leftarrow> n_pchain n;
     Some (set_node rule (n_pchain_update (\<lambda>_. Some c)) (set_chain c (list_before anchor rule) rs))
   }"

text \<open>\<^verbatim>\<open>TAILQ_INSERT_HEAD(chain, rule, entry); rule->pchain = chain;\<close>\<close>

definition insert_head :: "chain_ref \<Rightarrow> nat \<Rightarrow> ruleset \<Rightarrow> ruleset" where
  "insert_head c rule rs = set_node rule (n_pchain_update (\<lambda>_. Some c)) (set_chain c (\<lambda>xs. rule # xs) rs)"

definition insert_tail :: "chain_ref \<Rightarrow> nat \<Rightarrow> ruleset \<Rightarrow> ruleset" where
  "insert_tail c rule rs = set_node rule (n_pchain_update (\<lambda>_. Some c)) (set_chain c (\<lambda>xs. xs @ [rule]) rs)"

subsection \<open>Identifiers\<close>

text \<open>The parameter has the type \<^verbatim>\<open>unsigned int\<close>.\<close>

definition apn_valid_id :: "ruleset \<Rightarrow> u32 \<Rightarrow> bool option" where
  "apn_valid_id rs rid = map_option (\<lambda>x. x = None) (rb_find (rs_ids rs) (ucast rid))"

definition apn_find_rule :: "ruleset \<Rightarrow> u32 \<Rightarrow> ptr option" where
  "apn_find_rule rs rid =
     map_option (\<lambda>x. case x of None \<Rightarrow> None | Some e \<Rightarrow> rb_data (rb_ent (rs_ids rs) e)) (rb_find (rs_ids rs) (ucast rid))"

text \<open>\<^verbatim>\<open>e->data = data; rb_insert_entry(&rs->idtree, e);\<close>\<close>

definition index_rule :: "nat \<Rightarrow> ruleset \<Rightarrow> ruleset option" where
  "index_rule a rs =
     map_option (\<lambda>(r, s). rs\<lparr>rs_ids := s\<rparr>) (rb_insert_entry a (set_ent a (rb_data_update (\<lambda>_. Some a)) (rs_ids rs)))"

definition apn_insert_id :: "nat \<Rightarrow> ruleset \<Rightarrow> ruleset option" where
  "apn_insert_id a rs = do {
     let rs = (if rs_maxid rs < 10 then rs\<lparr>rs_maxid := 10\<rparr> else rs);
     rs \<leftarrow> index_rule a rs;
     Some (if rule_id rs a > ucast (rs_maxid rs) then rs\<lparr>rs_maxid := ucast (rule_id rs a)\<rparr> else rs)
   }"

text \<open>Up to 20 random identifiers: the first unused one.\<close>

fun try_ids :: "nat \<Rightarrow> ruleset \<Rightarrow> (u64 option \<times> ruleset) option" where
  "try_ids 0 rs = Some (None, rs)"
| "try_ids (Suc i) rs =
     (if rs_maxid rs = 0 then None
      else let nid = ucast (1 + rs_rand rs (rs_rpos rs) mod rs_maxid rs); rs = rs\<lparr>rs_rpos := rs_rpos rs + 1\<rparr> in
        case rb_find (rs_ids rs) nid of
          None \<Rightarrow> None
        | Some None \<Rightarrow> Some (Some nid, rs)
        | Some (Some e) \<Rightarrow> try_ids i rs)"

partial_function (option) linear_search :: "ruleset \<Rightarrow> u64 \<Rightarrow> u64 option" where
  "linear_search rs nid = do {
     x \<leftarrow> rb_find (rs_ids rs) nid;
     if x = None then Some nid else linear_search rs ((nid + 1) mod ucast (rs_maxid rs))
   }"

partial_function (option) assign_loop :: "nat \<Rightarrow> ruleset \<Rightarrow> (u64 \<times> ruleset) option" where
  "assign_loop a rs = do {
     (nid, rs) \<leftarrow> try_ids 20 rs;
     case nid of
       Some k \<Rightarrow> Some (k, rs)
     | None \<Rightarrow>
         if 2 * rs_maxid rs > rs_maxid rs then assign_loop a (rs\<lparr>rs_maxid := 2 * rs_maxid rs\<rparr>)
         else do { k \<leftarrow> linear_search rs (of_nat a mod ucast (rs_maxid rs)); Some (k, rs) }
   }"

definition apn_assign_id :: "nat \<Rightarrow> ruleset \<Rightarrow> ruleset option" where
  "apn_assign_id a rs = do {
     (k, rs) \<leftarrow> assign_loop a rs;
     index_rule a (set_id a k rs)
   }"

fun assign_each :: "nat list \<Rightarrow> ruleset \<Rightarrow> ruleset option" where
  "assign_each [] rs = Some rs"
| "assign_each (a # as) rs = do { rs \<leftarrow> apn_assign_id a rs; assign_each as rs }"

text \<open>The code assigns identifiers to the rules of a block, then to the block itself.\<close>

definition apn_update_ids :: "nat \<Rightarrow> ruleset \<Rightarrow> (bool \<times> ruleset) option" where
  "apn_update_ids rule rs = do {
     n \<leftarrow> rs_node rs rule;
     case n_rule n of
       Body b \<Rightarrow> Some (False, rs)
     | Chain t xs \<Rightarrow> do {
         rs \<leftarrow> assign_each xs rs;
         rs \<leftarrow> apn_assign_id rule rs;
         Some (True, rs)
       }
   }"

text \<open>After parsing: identifiers for all rules without one.\<close>

fun assign_missing :: "nat list \<Rightarrow> ruleset \<Rightarrow> ruleset option" where
  "assign_missing [] rs = Some rs"
| "assign_missing (a # as) rs = do {
     rs \<leftarrow> (if rule_id rs a = 0 then apn_assign_id a rs else Some rs);
     assign_missing as rs
   }"

fun apn_assign_ids_chain :: "nat list \<Rightarrow> ruleset \<Rightarrow> ruleset option" where
  "apn_assign_ids_chain [] rs = Some rs"
| "apn_assign_ids_chain (a # as) rs = do {
     n \<leftarrow> rs_node rs a;
     rs \<leftarrow> assign_missing ((case n_rule n of Chain t xs \<Rightarrow> xs | Body b \<Rightarrow> []) @ [a]) rs;
     apn_assign_ids_chain as rs
   }"

definition apn_assign_ids :: "ruleset \<Rightarrow> ruleset option" where
  "apn_assign_ids rs = do {
     rs \<leftarrow> apn_assign_ids_chain (rs_queue rs APN_ALF) rs;
     rs \<leftarrow> apn_assign_ids_chain (rs_queue rs APN_SFS) rs;
     rs \<leftarrow> apn_assign_ids_chain (rs_queue rs APN_SB) rs;
     apn_assign_ids_chain (rs_queue rs APN_CTX) rs
   }"

subsection \<open>Blocks of the parser\<close>

text \<open>A local tree of the identifiers of a block; the entries are the ones of the rules.\<close>

fun duplicate_loop :: "nat list \<Rightarrow> rbt \<Rightarrow> (bool \<times> rbt) option" where
  "duplicate_loop [] s = Some (False, s)"
| "duplicate_loop (a # as) s =
     (if rb_key (rb_ent s a) = 0 then duplicate_loop as s
      else do {
        x \<leftarrow> rb_find s (rb_key (rb_ent s a));
        if x \<noteq> None then Some (True, s)
        else do { (r, s) \<leftarrow> rb_insert_entry a s; duplicate_loop as s }
      })"

definition apn_duplicate_ids :: "nat \<Rightarrow> ruleset \<Rightarrow> (bool \<times> ruleset) option" where
  "apn_duplicate_ids rule rs = do {
     n \<leftarrow> rs_node rs rule;
     s \<leftarrow> (if rule_id rs rule \<noteq> 0 then map_option snd (rb_insert_entry rule ((rs_ids rs)\<lparr>rb_root := None\<rparr>))
           else Some ((rs_ids rs)\<lparr>rb_root := None\<rparr>));
     (dup, s) \<leftarrow> duplicate_loop (case n_rule n of Chain t xs \<Rightarrow> xs | Body b \<Rightarrow> []) s;
     Some (dup, rs\<lparr>rs_ids := s\<lparr>rb_root := rb_root (rs_ids rs)\<rparr>\<rparr>)
   }"

fun all_valid :: "nat list \<Rightarrow> ruleset \<Rightarrow> bool option" where
  "all_valid [] rs = Some True"
| "all_valid (a # as) rs =
     (if rule_id rs a = 0 then all_valid as rs
      else do { v \<leftarrow> apn_valid_id rs (ucast (rule_id rs a)); if v then all_valid as rs else Some False })"

fun insert_ids :: "nat list \<Rightarrow> ruleset \<Rightarrow> ruleset option" where
  "insert_ids [] rs = Some rs"
| "insert_ids (a # as) rs = do { rs \<leftarrow> (if rule_id rs a \<noteq> 0 then apn_insert_id a rs else Some rs); insert_ids as rs }"

text \<open>The ruleset is not verbose, so that the block is not printed.\<close>

definition apn_add_block_common :: "block_type \<Rightarrow> ptr \<Rightarrow> ruleset \<Rightarrow> (int \<times> ruleset) option" where
  "apn_add_block_common q block rs =
     (case block of
        None \<Rightarrow> Some (1, rs)
      | Some b \<Rightarrow> do {
          (dup, rs) \<leftarrow> apn_duplicate_ids b rs;
          n \<leftarrow> rs_node rs b;
          case n_rule n of
            Body x \<Rightarrow> None
          | Chain t xs \<Rightarrow>
              if dup then Some (1, rs)
              else do {
                v \<leftarrow> all_valid (b # xs) rs;
                if \<not> v then Some (1, rs)
                else do { rs \<leftarrow> insert_ids (b # xs) rs; Some (0, insert_tail (Queue q) b rs) }
              }
        })"

abbreviation apn_add_alfblock :: "ptr \<Rightarrow> ruleset \<Rightarrow> (int \<times> ruleset) option" where "apn_add_alfblock \<equiv> apn_add_block_common APN_ALF"
abbreviation apn_add_sbblock :: "ptr \<Rightarrow> ruleset \<Rightarrow> (int \<times> ruleset) option" where "apn_add_sbblock \<equiv> apn_add_block_common APN_SB"
abbreviation apn_add_ctxblock :: "ptr \<Rightarrow> ruleset \<Rightarrow> (int \<times> ruleset) option" where "apn_add_ctxblock \<equiv> apn_add_block_common APN_CTX"

definition apn_add_sfsblock :: "ptr \<Rightarrow> ruleset \<Rightarrow> (int \<times> ruleset) option" where
  "apn_add_sfsblock block rs =
     (case block of
        None \<Rightarrow> Some (1, rs)
      | Some b \<Rightarrow> do { n \<leftarrow> rs_node rs b; if n_app n \<noteq> [] then Some (1, rs) else apn_add_block_common APN_SFS block rs })"

subsection \<open>Adding and inserting\<close>

definition apn_add :: "ptr \<Rightarrow> ruleset \<Rightarrow> (int \<times> ruleset) option" where
  "apn_add rule rs =
     (case rule of
        None \<Rightarrow> Some (1, rs)
      | Some a \<Rightarrow>
          if rs_maxid rs = UINT_MAX then Some (1, rs)
          else do {
            n \<leftarrow> rs_node rs a;
            case n_rule n of
              Body b \<Rightarrow> Some (1, rs)
            | Chain t xs \<Rightarrow> do {
                (ok, rs) \<leftarrow> apn_update_ids a rs;
                Some (if ok then (0, insert_head (Queue t) a rs) else (1, rs))
              }
          })"

definition apn_search_rule :: "ruleset \<Rightarrow> chain_ref \<Rightarrow> u32 \<Rightarrow> ptr option" where
  "apn_search_rule rs q rid = do {
     p \<leftarrow> apn_find_rule rs rid;
     case p of
       None \<Rightarrow> Some None
     | Some a \<Rightarrow> do { n \<leftarrow> rs_node rs a; Some (if n_pchain n = Some q then Some a else None) }
   }"

definition apn_search_rule_deep :: "ruleset \<Rightarrow> block_type \<Rightarrow> u32 \<Rightarrow> ptr option" where
  "apn_search_rule_deep rs q rid = do {
     p \<leftarrow> apn_find_rule rs rid;
     case p of
       None \<Rightarrow> Some None
     | Some a \<Rightarrow> do { n \<leftarrow> rs_node rs a; Some (List.find (\<lambda>b. n_pchain n = Some (Chain_of b)) (rs_queue rs q)) }
   }"

definition apn_insert :: "ptr \<Rightarrow> u32 \<Rightarrow> ruleset \<Rightarrow> (int \<times> ruleset) option" where
  "apn_insert rule rid rs =
     (case rule of
        None \<Rightarrow> Some (1, rs)
      | Some a \<Rightarrow>
          if rs_maxid rs = UINT_MAX then Some (1, rs)
          else do {
            n \<leftarrow> rs_node rs a;
            case n_rule n of
              Body b \<Rightarrow> Some (1, rs)
            | Chain t xs \<Rightarrow>
                if t = APN_SFS \<and> rs_queue rs t \<noteq> [] then Some (1, rs)
                else if rid = 0 \<and> rs_queue rs t \<noteq> [] then Some (1, rs)
                else do {
                  p \<leftarrow> (if rid = 0 then Some None else apn_search_rule rs (Queue t) rid);
                  if rid \<noteq> 0 \<and> p = None then Some (1, rs)
                  else do {
                    (ok, rs) \<leftarrow> apn_update_ids a rs;
                    if \<not> ok then Some (1, rs)
                    else case p of
                      Some anchor \<Rightarrow> map_option (Pair 0) (insert_before anchor a rs)
                    | None \<Rightarrow> Some (0, insert_head (Queue t) a rs)
                  }
                }
          })"

definition apn_insert_rule_common :: "block_type \<Rightarrow> nat \<Rightarrow> u32 \<Rightarrow> ruleset \<Rightarrow> (int \<times> ruleset) option" where
  "apn_insert_rule_common q rule rid rs =
     (if rs_maxid rs = UINT_MAX \<or> rid < 1 then Some (1, rs)
      else do {
        valid \<leftarrow> (if rule_id rs rule = 0 then Some True else apn_valid_id rs (ucast (rule_id rs rule)));
        if \<not> valid then Some (1, rs)
        else do {
          block \<leftarrow> apn_search_rule_deep rs q rid;
          anchor \<leftarrow> (if block \<noteq> None then apn_find_rule rs rid else apn_search_rule rs (Queue q) rid);
          case anchor of
            None \<Rightarrow> Some (1, rs)
          | Some an \<Rightarrow> do {
              rs \<leftarrow> (if block \<noteq> None then insert_before an rule rs else Some (insert_head (Chain_of an) rule rs));
              rs \<leftarrow> (if rule_id rs rule = 0 then apn_assign_id rule rs else apn_insert_id rule rs);
              Some (0, rs)
            }
        }
      })"

text \<open>The wrappers for ALF, sandbox and context rules. For SFS rules the identifier 0 stands for the SFS block.\<close>

definition apn_insert_rule :: "block_type \<Rightarrow> nat \<Rightarrow> u32 \<Rightarrow> ruleset \<Rightarrow> (int \<times> ruleset) option" where
  "apn_insert_rule q rule rid rs = do {
     n \<leftarrow> rs_node rs rule;
     if \<not> apn_verify_types q (n_rule n) then Some (1, rs)
     else apn_insert_rule_common q rule rid rs
   }"

definition apn_insert_sfsrule :: "nat \<Rightarrow> u32 \<Rightarrow> ruleset \<Rightarrow> (int \<times> ruleset) option" where
  "apn_insert_sfsrule rule rid rs = do {
     n \<leftarrow> rs_node rs rule;
     if \<not> apn_verify_types APN_SFS (n_rule n) then Some (1, rs)
     else if rid = 0 then
       (case rs_queue rs APN_SFS of
          [] \<Rightarrow> Some (1, rs)
        | b # bs \<Rightarrow> apn_insert_rule_common APN_SFS rule (ucast (rule_id rs b)) rs)
     else apn_insert_rule_common APN_SFS rule rid rs
   }"

abbreviation apn_insert_alfrule :: "nat \<Rightarrow> u32 \<Rightarrow> ruleset \<Rightarrow> (int \<times> ruleset) option" where "apn_insert_alfrule \<equiv> apn_insert_rule APN_ALF"
abbreviation apn_insert_sbrule :: "nat \<Rightarrow> u32 \<Rightarrow> ruleset \<Rightarrow> (int \<times> ruleset) option" where "apn_insert_sbrule \<equiv> apn_insert_rule APN_SB"
abbreviation apn_insert_ctxrule :: "nat \<Rightarrow> u32 \<Rightarrow> ruleset \<Rightarrow> (int \<times> ruleset) option" where "apn_insert_ctxrule \<equiv> apn_insert_rule APN_CTX"

subsection \<open>Freeing and removing\<close>

definition release :: "bool \<Rightarrow> nat \<Rightarrow> ruleset \<Rightarrow> ruleset option" where
  "release with_rs a rs = do {
     s \<leftarrow> (if with_rs \<and> rb_root (rs_ids rs) \<noteq> None then rb_remove_entry a (rs_ids rs) else Some (rs_ids rs));
     Some (rs\<lparr>rs_ids := s, rs_node := (rs_node rs)(a := None)\<rparr>)
   }"

text \<open>
  \<^verbatim>\<open>apn_free_one_rule\<close> and \<^verbatim>\<open>apn_free_chain\<close> call each other: the rules that are being freed are a stack. The head of the
  chain of a block is removed from the chain and freed before the block.
\<close>

partial_function (option) free_rules :: "bool \<Rightarrow> nat list \<Rightarrow> ruleset \<Rightarrow> ruleset option" where
  "free_rules with_rs stack rs =
     (case stack of
        [] \<Rightarrow> Some rs
      | a # as \<Rightarrow> do {
          n \<leftarrow> rs_node rs a;
          case n_rule n of
            Chain t (x # xs) \<Rightarrow> free_rules with_rs (x # a # as) (set_node a (\<lambda>n. n\<lparr>n_rule := Chain t xs\<rparr>) rs)
          | Chain t [] \<Rightarrow> do { rs \<leftarrow> release with_rs a rs; free_rules with_rs as rs }
          | Body b \<Rightarrow> do { rs \<leftarrow> release with_rs a rs; free_rules with_rs as rs }
        })"

definition apn_free_one_rule :: "bool \<Rightarrow> nat \<Rightarrow> ruleset \<Rightarrow> ruleset option" where
  "apn_free_one_rule with_rs a rs = free_rules with_rs [a] rs"

definition apn_remove :: "u32 \<Rightarrow> ruleset \<Rightarrow> (int \<times> ruleset) option" where
  "apn_remove rid rs =
     (if rid < 1 \<or> rs_maxid rs = UINT_MAX then Some (1, rs)
      else do {
        x \<leftarrow> apn_find_rule rs rid;
        case x of
          None \<Rightarrow> Some (2, rs)
        | Some a \<Rightarrow> do {
            n \<leftarrow> rs_node rs a;
            case n_pchain n of
              None \<Rightarrow> Some (-1, rs)
            | Some c \<Rightarrow>
                if c = Queue APN_SFS then Some (-1, rs)
                else do { rs \<leftarrow> apn_free_one_rule True a (set_chain c (remove1 a) rs); Some (0, rs) }
          }
      })"

fun clean_loop :: "(apn_scope \<Rightarrow> bool) \<Rightarrow> nat \<Rightarrow> nat list \<Rightarrow> ruleset \<Rightarrow> (nat \<times> ruleset) option" where
  "clean_loop check b [] rs = Some (0, rs)"
| "clean_loop check b (a # as) rs = do {
     n \<leftarrow> rs_node rs a;
     if (case n_scope n of None \<Rightarrow> False | Some sc \<Rightarrow> check sc)
     then do {
       rs \<leftarrow> apn_free_one_rule True a (set_chain (Chain_of b) (remove1 a) rs);
       (r, rs) \<leftarrow> clean_loop check b as rs;
       Some (r + 1, rs)
     }
     else clean_loop check b as rs
   }"

definition apn_clean_rule :: "(apn_scope \<Rightarrow> bool) \<Rightarrow> nat \<Rightarrow> ruleset \<Rightarrow> (nat \<times> ruleset) option" where
  "apn_clean_rule check b rs = do {
     n \<leftarrow> rs_node rs b;
     case n_rule n of Body x \<Rightarrow> Some (0, rs) | Chain t xs \<Rightarrow> clean_loop check b xs rs
   }"

fun apn_clean_ruleq :: "(apn_scope \<Rightarrow> bool) \<Rightarrow> nat list \<Rightarrow> ruleset \<Rightarrow> (nat \<times> ruleset) option" where
  "apn_clean_ruleq check [] rs = Some (0, rs)"
| "apn_clean_ruleq check (b # bs) rs = do {
     (r, rs) \<leftarrow> apn_clean_rule check b rs;
     (r', rs) \<leftarrow> apn_clean_ruleq check bs rs;
     Some (r + r', rs)
   }"

definition apn_clean_ruleset :: "(apn_scope \<Rightarrow> bool) \<Rightarrow> ruleset \<Rightarrow> (nat \<times> ruleset) option" where
  "apn_clean_ruleset check rs = do {
     (r1, rs) \<leftarrow> apn_clean_ruleq check (rs_queue rs APN_ALF) rs;
     (r2, rs) \<leftarrow> apn_clean_ruleq check (rs_queue rs APN_SFS) rs;
     (r3, rs) \<leftarrow> apn_clean_ruleq check (rs_queue rs APN_SB) rs;
     (r4, rs) \<leftarrow> apn_clean_ruleq check (rs_queue rs APN_CTX) rs;
     Some (r1 + r2 + r3 + r4, rs)
   }"

subsection \<open>Moving\<close>

definition pinned :: "apn_node \<Rightarrow> bool" where
  "pinned n \<longleftrightarrow> (case n_rule n of Chain t xs \<Rightarrow> n_app n = [] | Body b \<Rightarrow> False)"

definition apn_can_move_up :: "nat \<Rightarrow> ruleset \<Rightarrow> bool option" where
  "apn_can_move_up a rs = do {
     n \<leftarrow> rs_node rs a;
     case n_pchain n of
       None \<Rightarrow> Some False
     | Some c \<Rightarrow> do { xs \<leftarrow> get_chain rs c; Some (list_next a (rev xs) \<noteq> None \<and> \<not> pinned n) }
   }"

definition apn_can_move_down :: "nat \<Rightarrow> ruleset \<Rightarrow> bool option" where
  "apn_can_move_down a rs = do {
     n \<leftarrow> rs_node rs a;
     case n_pchain n of
       None \<Rightarrow> Some False
     | Some c \<Rightarrow> do {
         xs \<leftarrow> get_chain rs c;
         case list_next a xs of
           None \<Rightarrow> Some False
         | Some b \<Rightarrow> do { m \<leftarrow> rs_node rs b; Some (\<not> pinned m) }
       }
   }"

definition apn_move_up :: "nat \<Rightarrow> ruleset \<Rightarrow> (int \<times> ruleset) option" where
  "apn_move_up a rs = do {
     n \<leftarrow> rs_node rs a;
     case n_pchain n of
       None \<Rightarrow> Some (-1, rs)
     | Some c \<Rightarrow> do {
         can \<leftarrow> apn_can_move_up a rs;
         xs \<leftarrow> get_chain rs c;
         case list_next a (rev xs) of
           Some b \<Rightarrow> Some (if can then (0, set_chain c (\<lambda>xs. list_before b a (remove1 a xs)) rs) else (-1, rs))
         | None \<Rightarrow> Some (-1, rs)
       }
   }"

definition apn_move_down :: "nat \<Rightarrow> ruleset \<Rightarrow> (int \<times> ruleset) option" where
  "apn_move_down a rs = do {
     n \<leftarrow> rs_node rs a;
     case n_pchain n of
       None \<Rightarrow> Some (-1, rs)
     | Some c \<Rightarrow> do {
         can \<leftarrow> apn_can_move_down a rs;
         xs \<leftarrow> get_chain rs c;
         case list_next a xs of
           Some b \<Rightarrow> Some (if can then (0, set_chain c (\<lambda>xs. list_after b a (remove1 a xs)) rs) else (-1, rs))
         | None \<Rightarrow> Some (-1, rs)
       }
   }"

subsection \<open>Copying\<close>

text \<open>Copies of values: hosts, ports and subjects.\<close>

fun apn_copy_hosts :: "apn_host list \<Rightarrow> apn_host list" where
  "apn_copy_hosts [] = []"
| "apn_copy_hosts (hp # hs) = hp # apn_copy_hosts hs"

fun apn_copy_ports :: "apn_port list \<Rightarrow> apn_port list" where
  "apn_copy_ports [] = []"
| "apn_copy_ports (hp # hs) = hp # apn_copy_ports hs"

fun apn_copy_subject :: "apn_subject \<Rightarrow> apn_subject" where
  "apn_copy_subject APN_CS_NONE = APN_CS_NONE"
| "apn_copy_subject APN_CS_UID_SELF = APN_CS_UID_SELF"
| "apn_copy_subject APN_CS_KEY_SELF = APN_CS_KEY_SELF"
| "apn_copy_subject (APN_CS_UID u) = APN_CS_UID u"
| "apn_copy_subject (APN_CS_KEY k) = APN_CS_KEY k"

text \<open>The loop copies the subject of the first application of the list (\<^verbatim>\<open>app\<close>), not the one of the current (\<^verbatim>\<open>hp\<close>).\<close>

fun copy_apps :: "apn_app \<Rightarrow> apn_app list \<Rightarrow> apn_app list" where
  "copy_apps ap [] = []"
| "copy_apps ap (hp # hs) = \<lparr>app_name = app_name hp, app_subject = apn_copy_subject (app_subject ap)\<rparr> # copy_apps ap hs"

definition apn_copy_app :: "apn_app list \<Rightarrow> apn_app list" where
  "apn_copy_app ap = (case ap of [] \<Rightarrow> [] | a # as \<Rightarrow> copy_apps a ap)"

definition apn_copy_afilt :: "apn_afiltrule \<Rightarrow> apn_afiltrule" where
  "apn_copy_afilt f = f\<lparr>filtspec := (filtspec f)\<lparr>
     fromhost := apn_copy_hosts (fromhost (filtspec f)), tohost := apn_copy_hosts (tohost (filtspec f)),
     fromport := apn_copy_ports (fromport (filtspec f)), toport := apn_copy_ports (toport (filtspec f))\<rparr>\<rparr>"

definition apn_copy_sbaccess :: "apn_sbaccess \<Rightarrow> apn_sbaccess" where
  "apn_copy_sbaccess a = \<lparr>sb_path = sb_path a, sb_cs = apn_copy_subject (sb_cs a), sb_amask = sb_amask a, sb_log = sb_log a, sb_action = sb_action a\<rparr>"

fun copy_body :: "apn_body \<Rightarrow> apn_body" where
  "copy_body (APN_ALF_FILTER f) = APN_ALF_FILTER (apn_copy_afilt f)"
| "copy_body (APN_ALF_CAPABILITY c) = APN_ALF_CAPABILITY c"
| "copy_body (APN_DEFAULT d) = APN_DEFAULT d"
| "copy_body (APN_CTX_RULE c) = APN_CTX_RULE \<lparr>application = apn_copy_app (application c), ctx_type = ctx_type c\<rparr>"
| "copy_body (APN_SFS_DEFAULT d) = APN_SFS_DEFAULT d"
| "copy_body (APN_SFS_ACCESS a) = APN_SFS_ACCESS \<lparr>sfs_path = sfs_path a, sfs_subject = apn_copy_subject (sfs_subject a),
     valid = valid a, invalid = invalid a, unknown = unknown a\<rparr>"
| "copy_body (APN_SB_ACCESS a) = APN_SB_ACCESS (apn_copy_sbaccess a)"

text \<open>A new rule with the identifier of the old one, an empty chain and no links. The colour of its entry is unspecified.\<close>

definition copy_node :: "apn_node \<Rightarrow> ptr \<Rightarrow> apn_node" where
  "copy_node n parent = \<lparr>n_scope = n_scope n, n_app = apn_copy_app (n_app n), n_pchain = map_option Chain_of parent, n_flags = 0,
     n_rule = (case n_rule n of Chain t xs \<Rightarrow> Chain t [] | Body b \<Rightarrow> Body (copy_body b))\<rparr>"

definition alloc :: "apn_node \<Rightarrow> u64 \<Rightarrow> ruleset \<Rightarrow> ruleset" where
  "alloc n k rs = rs\<lparr>rs_node := (rs_node rs)(rs_next rs \<mapsto> n), rs_next := rs_next rs + 1,
     rs_ids := set_ent (rs_next rs) (\<lambda>e. e\<lparr>rb_key := k, rb_left := None, rb_right := None, rb_parent := None, rb_data := None\<rparr>) (rs_ids rs)\<rparr>"

text \<open>
  \<^verbatim>\<open>apn_copy_one_rule\<close> and \<^verbatim>\<open>apn_copy_chain\<close> call each other: the rules still to be copied, each with the copied block
  that it is appended to.
\<close>

partial_function (option) copy_rules :: "(nat \<times> ptr) list \<Rightarrow> ruleset \<Rightarrow> ruleset option" where
  "copy_rules work rs =
     (case work of
        [] \<Rightarrow> Some rs
      | w # ws \<Rightarrow> do {
          n \<leftarrow> rs_node rs (fst w);
          let a = rs_next rs;
          let rs = alloc (copy_node n (snd w)) (rule_id rs (fst w)) rs;
          let rs = (case snd w of None \<Rightarrow> rs | Some p \<Rightarrow> set_chain (Chain_of p) (\<lambda>xs. xs @ [a]) rs);
          copy_rules ((case n_rule n of Chain t xs \<Rightarrow> map (\<lambda>x. (x, Some a)) xs | Body b \<Rightarrow> []) @ ws) rs
        })"

definition apn_copy_one_rule :: "nat \<Rightarrow> ruleset \<Rightarrow> (nat \<times> ruleset) option" where
  "apn_copy_one_rule old rs = map_option (Pair (rs_next rs)) (copy_rules [(old, None)] rs)"

definition apn_set_application :: "nat \<Rightarrow> string \<Rightarrow> apn_subject \<Rightarrow> ruleset \<Rightarrow> (int \<times> ruleset) option" where
  "apn_set_application rule filename subject rs = do {
     n \<leftarrow> rs_node rs rule;
     Some (if n_app n \<noteq> [] then (1, rs)
           else (0, set_node rule (\<lambda>n. n\<lparr>n_app := [\<lparr>app_name = Some filename, app_subject = apn_copy_subject subject\<rparr>]\<rparr>) rs))
   }"

definition apn_add_app :: "nat \<Rightarrow> string \<Rightarrow> apn_subject \<Rightarrow> ruleset \<Rightarrow> ruleset" where
  "apn_add_app rule name subject rs =
     set_node rule (\<lambda>n. n\<lparr>n_app := \<lparr>app_name = Some name, app_subject = apn_copy_subject subject\<rparr> # n_app n\<rparr>) rs"

text \<open>The first block of a queue for an application.\<close>

fun apn_match_appname :: "nat list \<Rightarrow> string option \<Rightarrow> bool \<Rightarrow> ruleset \<Rightarrow> ptr option" where
  "apn_match_appname [] name ispg rs = Some None"
| "apn_match_appname (b # bs) name ispg rs = do {
     n \<leftarrow> rs_node rs b;
     if has_flag (n_flags n) APN_RULE_PGONLY \<and> \<not> ispg then apn_match_appname bs name ispg rs
     else if n_app n = [] then Some (Some b)
     else if name \<noteq> None \<and> (\<exists>ap\<in>set (n_app n). app_name ap = name) then Some (Some b)
     else apn_match_appname bs name ispg rs
   }"

text \<open>An empty SFS block, if there is none.\<close>

definition init_sfs_rule :: "ruleset \<Rightarrow> (int \<times> ruleset) option" where
  "init_sfs_rule rs =
     (if rs_queue rs APN_SFS \<noteq> [] then Some (0, rs)
      else apn_insert (Some (rs_next rs)) 0
        (alloc \<lparr>n_scope = None, n_app = [], n_pchain = None, n_flags = 0, n_rule = Chain APN_SFS []\<rparr> 0 rs))"

text \<open>
  A copy of the block around a rule, for another application, with a new rule before the copy of that rule. The new block is
  inserted before the old one. On an error the copy is freed, but not the new rule.
\<close>

definition insert_copy :: "nat \<Rightarrow> nat \<Rightarrow> u64 \<Rightarrow> nat \<Rightarrow> ruleset \<Rightarrow> (int \<times> ruleset) option" where
  "insert_copy newrule nrule rid rule rs = do {
     xs \<leftarrow> get_chain rs (Chain_of newrule);
     case List.find (\<lambda>hp. rule_id rs hp = rid) xs of
       None \<Rightarrow> map_option (Pair 1) (apn_free_one_rule False newrule rs)
     | Some hp \<Rightarrow> do {
         rs \<leftarrow> insert_before hp nrule rs;
         (r, rs) \<leftarrow> apn_insert (Some newrule) (ucast (rule_id rs rule)) rs;
         if r = 0 then Some (0, rs)
         else map_option (Pair 1) (apn_free_one_rule False newrule (set_chain (Chain_of newrule) (remove1 nrule) rs))
       }
   }"

definition apn_copyinsert_common :: "block_type \<Rightarrow> ptr \<Rightarrow> u32 \<Rightarrow> string \<Rightarrow> apn_subject \<Rightarrow> ruleset \<Rightarrow> (int \<times> ruleset) option" where
  "apn_copyinsert_common q nrule rid filename subject rs =
     (case nrule of
        None \<Rightarrow> Some (1, rs)
      | Some nr \<Rightarrow>
          if rid < 1 \<or> rs_maxid rs = UINT_MAX then Some (1, rs)
          else do {
            n \<leftarrow> rs_node rs nr;
            if \<not> apn_verify_types q (n_rule n) \<or> q = APN_SFS then Some (1, rs)
            else do {
              block \<leftarrow> apn_search_rule_deep rs q rid;
              case block of
                None \<Rightarrow> Some (1, rs)
              | Some rule \<Rightarrow> do {
                  (newrule, rs) \<leftarrow> apn_copy_one_rule rule rs;
                  let rs = set_node newrule (\<lambda>n. n\<lparr>n_app := []\<rparr>) rs;
                  (r, rs) \<leftarrow> apn_set_application newrule filename subject rs;
                  insert_copy newrule nr (ucast rid) rule rs
                }
            }
          })"

text \<open>A copied list of applications is the list only if all applications have the same subject.\<close>

lemma copy_subject: "apn_copy_subject s = s" by (cases s) auto

lemma copy_apps_id: "copy_apps ap xs = xs \<longleftrightarrow> (\<forall>x\<in>set xs. app_subject x = app_subject ap)"
proof (induction xs)
  case (Cons x xs)
  have "\<lparr>app_name = app_name x, app_subject = app_subject ap\<rparr> = x \<longleftrightarrow> app_subject x = app_subject ap" by (cases x) auto
  then show ?case using Cons by (simp add: copy_subject)
qed simp

lemma copy_app_faithful_iff: "apn_copy_app xs = xs \<longleftrightarrow> (\<forall>x\<in>set xs. app_subject x = app_subject (hd xs))"
  by (cases xs) (simp_all add: apn_copy_app_def copy_apps_id del: copy_apps.simps)

end
