(* ===== verification/ApnIds.thy ===== *)
theory ApnIds
  imports ApnRuleset
begin

text \<open>
  The identifiers of rules: \<^verbatim>\<open>apn_assign_id\<close> always finds an unused identifier, and the index of a ruleset stays a
  red-black tree with the rules as its entries.
\<close>

subsection \<open>Changes outside of the tree\<close>

lemma rep_outside:
  "rep s t \<Longrightarrow> rb_root s' = rb_root s \<Longrightarrow> \<forall>a\<in>set (inorder t). rb_ent s' a = rb_ent s a \<Longrightarrow> rep s' t"
  by (simp add: rep_def shape_cong [of t "rb_ent s'" "rb_ent s"])

lemma rb_set_outside:
  assumes "rb_set s A" "rb_root s' = rb_root s" "\<forall>a\<in>A. rb_ent s' a = rb_ent s a"
  shows "rb_set s' A"
proof -
  obtain t where t: "rep s t" "red_black t" "ordered s (inorder t)" "set (inorder t) = A" using assms(1) by (auto simp: rb_set_def)
  have "ordered s' (inorder t)"
    using t(3) unfolding ordered_def by (rule sorted_wrt_mono_rel [rotated]) (use assms(3) t(4) in simp)
  then show ?thesis using rep_outside [OF t(1) assms(2)] t assms(3) by (auto simp: rb_set_def)
qed

lemma rb_set_finite: "rb_set s A \<Longrightarrow> finite A" by (auto simp: rb_set_def)

lemma rb_set_root: "rb_set s A \<Longrightarrow> rb_root s = None \<longleftrightarrow> A = {}"
proof -
  assume "rb_set s A"
  then obtain t where "rb_root s = ptr_of t" "set (inorder t) = A" by (auto simp: rb_set_def rep_def)
  then show ?thesis by (cases t) auto
qed

text \<open>The key and the owner of an entry.\<close>

definition used :: "rbt \<Rightarrow> nat set \<Rightarrow> u64 set" where
  "used s A = (\<lambda>a. rb_key (rb_ent s a)) ` A"

lemma find_used: "rb_set s A \<Longrightarrow> \<exists>x. rb_find s k = Some x \<and> (x = None \<longleftrightarrow> k \<notin> used s A)"
proof -
  assume "rb_set s A"
  then obtain x where x: "rb_find s k = Some x" "found s k A x" using rb_find_set by blast
  then show ?thesis by (cases x) (auto simp: used_def found_def)
qed

lemma unat32: "unat (m :: u32) < 2 ^ 32"
  using unsigned_less [of m, where 'a = nat] by simp

lemma mod_small: "0 < m \<Longrightarrow> m < 2 ^ 32 \<Longrightarrow> (x :: nat) mod m < 2 ^ 64"
proof -
  assume "0 < m" "m < 2 ^ 32"
  then have "x mod m < 2 ^ 32" using less_trans [OF mod_less_divisor [of m x], of "2 ^ 32"] by simp
  then show ?thesis by simp
qed

lemma random_id:
  fixes r m :: u32
  assumes "m \<noteq> 0"
  shows "(ucast (1 + r mod m) :: u64) < 2 ^ 32" "(ucast (1 + r mod m) :: u64) \<noteq> 0"
proof -
  have "0 < unat m" using assms by (simp add: unat_gt_0)
  then have "unat (r mod m) < unat m" by (simp add: unat_mod)
  moreover have "unat m < 2 ^ 32" by (rule unat32)
  ultimately have "unat (1 + r mod m) = 1 + unat (r mod m)" by (simp add: unat_word_ariths(1))
  then have "unat (ucast (1 + r mod m) :: u64) = 1 + unat (r mod m)" 
    using \<open>unat (r mod m) < unat m\<close> \<open>unat m < 2 ^ 32\<close> by (simp add: unsigned_ucast_eq take_bit_nat_eq_self)
  then show "(ucast (1 + r mod m) :: u64) < 2 ^ 32" "(ucast (1 + r mod m) :: u64) \<noteq> 0"
    using \<open>unat (r mod m) < unat m\<close> \<open>unat m < 2 ^ 32\<close> by (auto simp: word_less_nat_alt)
qed

subsection \<open>Search for an unused identifier\<close>

lemma try_ids_unused:
  assumes "rb_set (rs_ids rs) A" "rs_maxid rs \<noteq> 0"
  shows "\<exists>x p. try_ids i rs = Some (x, rs\<lparr>rs_rpos := p\<rparr>) \<and>
    (\<forall>k. x = Some k \<longrightarrow> k \<notin> used (rs_ids rs) A \<and> k < 2 ^ 32 \<and> k \<noteq> 0)"
  using assms
proof (induction i arbitrary: rs)
  case (Suc i)
  let ?r = "rs_rand rs (rs_rpos rs) mod rs_maxid rs"
  let ?k = "ucast (1 + ?r) :: u64"
  let ?rs = "rs\<lparr>rs_rpos := rs_rpos rs + 1\<rparr>"
  obtain x where x: "rb_find (rs_ids rs) ?k = Some x" "x = None \<longleftrightarrow> ?k \<notin> used (rs_ids rs) A" using find_used [OF Suc.prems(1)] by blast
  note k2 = random_id [OF Suc.prems(2), of "rs_rand rs (rs_rpos rs)"]
  show ?case
  proof (cases x)
    case None
    then show ?thesis using x k2 Suc.prems(2) by (auto simp: Let_def intro!: exI [of _ "Some ?k"])
  next
    case (Some e)
    obtain y p where "try_ids i ?rs = Some (y, ?rs\<lparr>rs_rpos := p\<rparr>)" "\<forall>k. y = Some k \<longrightarrow> k \<notin> used (rs_ids rs) A \<and> k < 2 ^ 32 \<and> k \<noteq> 0"
      using Suc.IH [of ?rs] Suc.prems by auto
    then show ?thesis using x Some Suc.prems(2) by (auto simp: Let_def)
  qed
next
  case 0
  show ?case by (rule exI [of _ None], rule exI [of _ "rs_rpos rs"]) simp
qed

text \<open>The identifiers that the linear search looks at, starting at the address of the rule.\<close>

definition probe :: "nat \<Rightarrow> nat \<Rightarrow> nat \<Rightarrow> u64" where
  "probe m a i = of_nat ((a + i) mod m)"

lemma probe_Suc:
  assumes "0 < m" "m < 2 ^ 32"
  shows "(probe m a i + 1) mod of_nat m = probe m a (Suc i)"
proof -
  have l: "(a + i) mod m < 2 ^ 32" using assms mod_less_divisor [of m "a + i"] by linarith
  have "unat ((probe m a i + 1) mod of_nat m) = ((a + i) mod m + 1) mod m"
    using l assms by (simp add: probe_def unat_mod unat_word_ariths(1) unat_of_nat)
  also have "\<dots> = (a + Suc i) mod m" by (simp add: mod_Suc_eq)
  also have "\<dots> = unat (probe m a (Suc i))"
  proof -
    have "(a + Suc i) mod m < 2 ^ 64" using assms by (rule mod_small)
    then show ?thesis by (simp add: probe_def unat_of_nat)
  qed
  finally show ?thesis by (simp add: unat_arith_simps(3))
qed

lemma probes_cover: "0 < m \<Longrightarrow> x < m \<Longrightarrow> \<exists>i<m. (a + i) mod m = (x::nat)"
proof -
  assume m: "0 < m" "x < m"
  let ?i = "(x + m - a mod m) mod m"
  have "(a + ?i) mod m = (a mod m + (x + m - a mod m)) mod m" by (simp add: mod_add_left_eq mod_add_right_eq)
  also have "\<dots> = (x + m) mod m" using mod_less_divisor [of m a] m by (simp add: less_imp_le_nat trans_le_add2)
  finally have "(a + ?i) mod m = x" using m by simp
  then show ?thesis using m by (intro exI [of _ ?i]) simp
qed

lemma linear_search_unused:
  assumes r: "rb_set (rs_ids rs) A" and m: "unat (rs_maxid rs) = m" "0 < m" and c: "card A < m"
  shows "\<exists>k. linear_search rs (of_nat a mod ucast (rs_maxid rs)) = Some k \<and> k \<notin> used (rs_ids rs) A \<and> k < 2 ^ 32"
proof -
  have m2: "m < 2 ^ 32" using m(1) unat32 [of "rs_maxid rs"] by simp
  have mw: "(ucast (rs_maxid rs) :: u64) = of_nat m"
    using m(1) m2 by (simp add: word_unat_eq_iff unsigned_ucast_eq take_bit_nat_eq_self unat_of_nat)
  let ?a = "unat (of_nat a :: u64)" and ?s = "rs_ids rs"
  have start: "of_nat a mod ucast (rs_maxid rs) = probe m ?a 0"
    using m2 mod_small [OF m(2) m2, of "a mod 2 ^ 64"] by (simp add: mw probe_def word_unat_eq_iff unat_mod unat_of_nat)
  have small: "unat (probe m b i) = (b + i) mod m" for b i
  proof -
    have "(b + i) mod m < 2 ^ 64" using m(2) m2 by (rule mod_small)
    then show ?thesis by (simp add: probe_def unat_of_nat)
  qed
  have free: "\<exists>i. probe m ?a i \<notin> used ?s A"
  proof (rule ccontr)
    assume "\<not> ?thesis"
    then have all: "probe m ?a i \<in> used ?s A" for i by simp
    have "{..<m} \<subseteq> unat ` used ?s A"
    proof
      fix x assume "x \<in> {..<m}"
      then obtain i where "(?a + i) mod m = x" using probes_cover [OF m(2), of x ?a] by auto
      then show "x \<in> unat ` used ?s A" using all [of i] small [of ?a i] by force
    qed
    moreover have "finite A" by (rule rb_set_finite [OF r])
    ultimately have "m \<le> card (unat ` used ?s A)" using card_mono [of "unat ` used ?s A" "{..<m}"] by (simp add: used_def)
    also have "\<dots> \<le> card A" using \<open>finite A\<close> unfolding used_def by (meson card_image_le finite_imageI le_trans)
    finally show False using c by simp
  qed
  define j where "j = (LEAST i. probe m ?a i \<notin> used ?s A)"
  have j: "probe m ?a j \<notin> used ?s A" unfolding j_def by (rule LeastI_ex [OF free])
  have before: "probe m ?a i \<in> used ?s A" if "i < j" for i using not_less_Least that unfolding j_def by blast
  have "linear_search rs (probe m ?a 0) = Some (probe m ?a j)"
  proof (rule inc_induct [of 0 j])
    show "linear_search rs (probe m ?a j) = Some (probe m ?a j)"
      using find_used [OF r, of "probe m ?a j"] j by (subst linear_search.simps) auto
    fix i assume "i < j" "linear_search rs (probe m ?a (Suc i)) = Some (probe m ?a j)"
    then show "linear_search rs (probe m ?a i) = Some (probe m ?a j)"
      using find_used [OF r, of "probe m ?a i"] before [of i] probe_Suc [OF m(2) m2, of ?a i]
      by (subst linear_search.simps) (auto simp: mw)
  qed simp
  moreover have "probe m ?a j < 2 ^ 32" using small [of ?a j] mod_less_divisor [OF m(2), of "?a + j"] m2 by (simp add: word_less_nat_alt)
  ultimately show ?thesis using j start by auto
qed

subsection \<open>Assignment of identifiers\<close>

lemma double_word:
  fixes m :: u32
  assumes "m \<noteq> 0"
  shows "2 * m > m \<Longrightarrow> unat (2 * m) = 2 * unat m" "\<not> 2 * m > m \<Longrightarrow> 2 ^ 31 \<le> unat m"
proof -
  have u: "unat m < 2 ^ 32" "0 < unat m" using unat32 [of m] assms by (simp_all add: unat_gt_0)
  have d: "unat (2 * m) = (2 * unat m) mod 2 ^ 32" by (simp add: unat_word_ariths(2))
  show "2 * m > m \<Longrightarrow> unat (2 * m) = 2 * unat m" using d u by (auto simp: word_less_nat_alt mod_if split: if_splits)
  show "\<not> 2 * m > m \<Longrightarrow> 2 ^ 31 \<le> unat m" using d u by (auto simp: word_less_nat_alt mod_if split: if_splits)
qed

lemma assign_loop_unused:
  assumes "rb_set (rs_ids rs) A" "rs_maxid rs \<noteq> 0" "card A < 2 ^ 31"
  shows "\<exists>k p m. assign_loop a rs = Some (k, rs\<lparr>rs_rpos := p, rs_maxid := m\<rparr>) \<and> k \<notin> used (rs_ids rs) A \<and> k < 2 ^ 32 \<and> m \<noteq> 0"
  using assms
proof (induction "2 ^ 32 - unat (rs_maxid rs)" arbitrary: rs rule: less_induct)
  case less
  let ?m = "rs_maxid rs"
  obtain x p where x: "try_ids 20 rs = Some (x, rs\<lparr>rs_rpos := p\<rparr>)" "\<forall>k. x = Some k \<longrightarrow> k \<notin> used (rs_ids rs) A \<and> k < 2 ^ 32 \<and> k \<noteq> 0"
    using try_ids_unused [OF less.prems(1,2)] by blast
  show ?case
  proof (cases x)
    case (Some k)
    then show ?thesis using x less.prems
      by (subst assign_loop.simps) (auto intro!: exI [of _ p] exI [of _ ?m])
  next
    case None
    show ?thesis
    proof (cases "2 * ?m > ?m")
      case True
      let ?rs = "rs\<lparr>rs_rpos := p, rs_maxid := 2 * ?m\<rparr>"
      have "unat (2 * ?m) = 2 * unat ?m" "0 < unat ?m" using double_word(1) [OF less.prems(2) True] less.prems(2) by (simp_all add: unat_gt_0)
      moreover have "unat (2 * ?m) < 2 ^ 32" by (rule unat32)
      ultimately have "2 ^ 32 - unat (rs_maxid ?rs) < 2 ^ 32 - unat ?m" "rs_maxid ?rs \<noteq> 0" using True by (auto simp: word_less_nat_alt)
      from less.hyps [OF this(1) _ this(2)] obtain k p' m where
        "assign_loop a ?rs = Some (k, ?rs\<lparr>rs_rpos := p', rs_maxid := m\<rparr>)" "k \<notin> used (rs_ids rs) A" "k < 2 ^ 32" "m \<noteq> 0"
        using less.prems by auto
      then show ?thesis using x None True by (subst assign_loop.simps) (auto simp: ac_simps)
    next
      case False
      have "card A < unat ?m" using double_word(2) [OF less.prems(2) False] less.prems(3) by linarith
      from linear_search_unused [of "rs\<lparr>rs_rpos := p\<rparr>" A "unat ?m" a] this less.prems
      obtain k where "linear_search (rs\<lparr>rs_rpos := p\<rparr>) (of_nat a mod ucast ?m) = Some k" "k \<notin> used (rs_ids rs) A" "k < 2 ^ 32" by auto
      then show ?thesis using x None False less.prems by (subst assign_loop.simps) (auto intro!: exI [of _ p] exI [of _ ?m])
    qed
  qed
qed

text \<open>The index holds exactly the given rules. An operation on identifiers keeps rules, queues and the other identifiers.\<close>

definition indexed :: "ruleset \<Rightarrow> nat set \<Rightarrow> bool" where
  "indexed rs A \<longleftrightarrow> rb_set (rs_ids rs) A \<and> rs_maxid rs \<noteq> 0 \<and>
     (\<forall>a\<in>A. rb_data (rb_ent (rs_ids rs) a) = Some a \<and> rule_id rs a < 2 ^ 32)"

definition same_rules :: "nat set \<Rightarrow> ruleset \<Rightarrow> ruleset \<Rightarrow> bool" where
  "same_rules X rs rs' \<longleftrightarrow> rs_queue rs' = rs_queue rs \<and> rs_node rs' = rs_node rs \<and> rs_next rs' = rs_next rs \<and>
     (\<forall>x. x \<notin> X \<longrightarrow> rule_id rs' x = rule_id rs x)"

lemma same_rules_refl [simp]: "same_rules X rs rs" by (simp add: same_rules_def)

lemma same_rules_trans: "same_rules X r1 r2 \<Longrightarrow> same_rules Y r2 r3 \<Longrightarrow> X \<subseteq> Z \<Longrightarrow> Y \<subseteq> Z \<Longrightarrow> same_rules Z r1 r3"
  unfolding same_rules_def by (metis subsetD)

lemma index_rule_ok:
  assumes i: "indexed rs A" and a: "a \<notin> A" "rule_id rs a \<notin> used (rs_ids rs) A" "rule_id rs a < 2 ^ 32"
  shows "\<exists>rs'. index_rule a rs = Some rs' \<and> indexed rs' (insert a A) \<and> same_rules {} rs rs' \<and> rs_maxid rs' = rs_maxid rs"
proof -
  let ?s = "set_ent a (rb_data_update (\<lambda>_. Some a)) (rs_ids rs)"
  have r: "rb_set ?s A" using i a(1) by (auto simp: indexed_def intro!: rb_set_outside [of "rs_ids rs"])
  have k: "rb_key (rb_ent ?s x) = rule_id rs x" for x by (simp add: rule_id_def)
  have new: "\<not> (\<exists>x\<in>A. rb_key (rb_ent ?s x) = rb_key (rb_ent ?s a))" using a(2) unfolding k used_def rule_id_def by (metis image_eqI)
  from rb_insert_set [OF r, of a] obtain q s where s: "rb_insert_entry a ?s = Some (q, s)" "frame (insert a A) ?s s" "rb_set s (insert a A)"
    using new by auto
  let ?rs = "rs\<lparr>rs_ids := s\<rparr>"
  have k': "rule_id ?rs x = rule_id rs x" "rb_data (rb_ent s x) = (if x = a then Some a else rb_data (rb_ent (rs_ids rs) x))" for x
    using s(2) k [of x] by (auto simp: rule_id_def frame_def)
  have "indexed ?rs (insert a A)" using s(3) i a(3) k' by (simp add: indexed_def)
  then show ?thesis using s(1) k' by (simp add: index_rule_def same_rules_def)
qed

lemma indexed_set_id: "indexed rs A \<Longrightarrow> a \<notin> A \<Longrightarrow> indexed (set_id a k rs) A \<and> used (rs_ids (set_id a k rs)) A = used (rs_ids rs) A"
  by (auto simp: indexed_def set_id_def rule_id_def used_def intro!: rb_set_outside [of "rs_ids rs"])

lemma assign_id_ok:
  assumes i: "indexed rs A" and a: "a \<notin> A" and c: "card A < 2 ^ 31"
  shows "\<exists>rs'. apn_assign_id a rs = Some rs' \<and> indexed rs' (insert a A) \<and> same_rules {a} rs rs'"
proof -
  obtain k p m where k: "assign_loop a rs = Some (k, rs\<lparr>rs_rpos := p, rs_maxid := m\<rparr>)" "k \<notin> used (rs_ids rs) A" "k < 2 ^ 32" "m \<noteq> 0"
    using assign_loop_unused [of rs A a] i c by (auto simp: indexed_def)
  let ?rs = "rs\<lparr>rs_rpos := p, rs_maxid := m\<rparr>"
  have "indexed ?rs A" using i k(4) by (simp add: indexed_def rule_id_def)
  note j = indexed_set_id [OF this a, of k]
  have id: "rule_id (set_id a k ?rs) a = k" by (simp add: set_id_def rule_id_def)
  from index_rule_ok [OF _ a, of "set_id a k ?rs"] obtain rs' where rs': "index_rule a (set_id a k ?rs) = Some rs'"
    "indexed rs' (insert a A)" "same_rules {} (set_id a k ?rs) rs'" using j k(2,3) id by auto
  have "same_rules {a} rs (set_id a k ?rs)" by (simp add: same_rules_def set_id_def rule_id_def)
  then have "same_rules {a} rs rs'" using rs'(3) by (rule same_rules_trans) auto
  then show ?thesis using k(1) rs' by (simp add: apn_assign_id_def)
qed

lemma insert_id_ok:
  assumes i: "indexed rs A" and a: "a \<notin> A" "rule_id rs a \<notin> used (rs_ids rs) A" "rule_id rs a < 2 ^ 32"
  shows "\<exists>rs'. apn_insert_id a rs = Some rs' \<and> indexed rs' (insert a A) \<and> same_rules {} rs rs'"
proof -
  let ?rs = "if rs_maxid rs < 10 then rs\<lparr>rs_maxid := 10\<rparr> else rs"
  have j: "indexed ?rs A" "rule_id ?rs a = rule_id rs a" "rs_ids ?rs = rs_ids rs" using i by (auto simp: indexed_def rule_id_def)
  from index_rule_ok [OF j(1) a(1)] obtain r1 where r1: "index_rule a ?rs = Some r1" "indexed r1 (insert a A)" "same_rules {} ?rs r1"
    using a j(2,3) by auto
  have id1: "rule_id r1 a = rule_id rs a" using r1(3) j(2) by (simp add: same_rules_def)
  have "(ucast (rule_id r1 a) :: u32) \<noteq> 0" if "rule_id r1 a > ucast (rs_maxid r1)"
  proof -
    have "unat (rule_id rs a) < 2 ^ 32" using a(3) by (simp add: word_less_nat_alt)
    then have "unat (ucast (rule_id rs a) :: u32) = unat (rule_id rs a)" by (simp add: unsigned_ucast_eq take_bit_nat_eq_self)
    moreover have "0 < unat (rule_id rs a)" using that id1 by (simp add: word_less_nat_alt)
    ultimately show ?thesis using id1 by (metis unat_0 less_numeral_extra(3))
  qed
  then show ?thesis using r1 by (auto simp: apn_insert_id_def indexed_def same_rules_def rule_id_def)
qed

lemma assign_each_ok:
  assumes "indexed rs A" "set xs \<inter> A = {}" "distinct xs" "card A + length xs \<le> 2 ^ 31"
  shows "\<exists>rs'. assign_each xs rs = Some rs' \<and> indexed rs' (set xs \<union> A) \<and> same_rules (set xs) rs rs'"
  using assms
proof (induction xs arbitrary: rs A)
  case (Cons a xs)
  obtain r1 where r1: "apn_assign_id a rs = Some r1" "indexed r1 (insert a A)" "same_rules {a} rs r1"
    using assign_id_ok [OF Cons.prems(1), of a] Cons.prems by auto
  have "finite A" using Cons.prems(1) rb_set_finite [of "rs_ids rs" A] by (simp add: indexed_def)
  then have "card (insert a A) = Suc (card A)" using Cons.prems(2) by simp
  then obtain r2 where r2: "assign_each xs r1 = Some r2" "indexed r2 (set xs \<union> insert a A)" "same_rules (set xs) r1 r2"
    using Cons.IH [OF r1(2)] Cons.prems by auto
  have "same_rules (set (a # xs)) rs r2" by (rule same_rules_trans [OF r1(3) r2(3)]) auto
  then show ?case using r1 r2 by simp
qed simp

end
