(* ===== verification/ApnEdit.thy ===== *)
theory ApnEdit
  imports ApnIds
begin

text \<open>
  The editing operations of rulesets. The invariant \<open>ruleset_inv\<close> relates queues, chains, back pointers and the index
  of identifiers. Each operation is shown to keep it and to have the intended effect on the layout of the ruleset: the
  list of blocks with their rules, for every queue.
\<close>

subsection \<open>Layout and invariant\<close>

definition kids :: "ruleset \<Rightarrow> nat \<Rightarrow> nat list" where
  "kids rs b = (case get_chain rs (Chain_of b) of None \<Rightarrow> [] | Some xs \<Rightarrow> xs)"

definition chain_ok :: "ruleset \<Rightarrow> nat \<Rightarrow> bool" where
  "chain_ok rs b \<longleftrightarrow> distinct (kids rs b) \<and>
     (\<forall>x\<in>set (kids rs b). \<exists>n y. rs_node rs x = Some n \<and> n_rule n = Body y \<and> n_pchain n = Some (Chain_of b))"

definition block_ok :: "ruleset \<Rightarrow> block_type \<Rightarrow> nat \<Rightarrow> bool" where
  "block_ok rs t b \<longleftrightarrow>
     (\<exists>n xs. rs_node rs b = Some n \<and> n_rule n = Chain t xs \<and> n_pchain n = Some (Queue t)) \<and> chain_ok rs b"

definition blocks :: "ruleset \<Rightarrow> nat set" where
  "blocks rs = (\<Union>t. set (rs_queue rs t))"

definition members :: "ruleset \<Rightarrow> nat set" where
  "members rs = (\<Union>b\<in>blocks rs. insert b (set (kids rs b)))"

definition ruleset_inv :: "ruleset \<Rightarrow> bool" where
  "ruleset_inv rs \<longleftrightarrow> (\<forall>t. distinct (rs_queue rs t) \<and> (\<forall>b\<in>set (rs_queue rs t). block_ok rs t b)) \<and>
     indexed rs (members rs) \<and> (\<forall>a. rs_node rs a \<noteq> None \<longrightarrow> a < rs_next rs)"

definition layout :: "ruleset \<Rightarrow> block_type \<Rightarrow> (nat \<times> nat list) list" where
  "layout rs t = map (\<lambda>b. (b, kids rs b)) (rs_queue rs t)"

text \<open>A block or a rule that is not yet part of the ruleset.\<close>

definition spare_block :: "ruleset \<Rightarrow> nat \<Rightarrow> block_type \<Rightarrow> bool" where
  "spare_block rs a t \<longleftrightarrow> a \<notin> members rs \<and> (\<exists>n xs. rs_node rs a = Some n \<and> n_rule n = Chain t xs) \<and> chain_ok rs a"

definition spare_rule :: "ruleset \<Rightarrow> nat \<Rightarrow> bool" where
  "spare_rule rs a \<longleftrightarrow> a \<notin> members rs \<and> (\<exists>n y. rs_node rs a = Some n \<and> n_rule n = Body y)"

lemma kids_node: "rs_node rs b = Some n \<Longrightarrow> n_rule n = Chain t xs \<Longrightarrow> kids rs b = xs"
  by (simp add: kids_def get_chain_def)

lemma kids_cong: "rs_node rs' b = rs_node rs b \<Longrightarrow> kids rs' b = kids rs b"
  by (simp add: kids_def get_chain_def)

lemma set_node_simps [simp]:
  "rs_queue (set_node a f rs) = rs_queue rs" "rs_ids (set_node a f rs) = rs_ids rs" "rs_maxid (set_node a f rs) = rs_maxid rs"
  "rs_next (set_node a f rs) = rs_next rs" "rule_id (set_node a f rs) = rule_id rs"
  "rs_node (set_node a f rs) x = (if x = a then map_option f (rs_node rs a) else rs_node rs x)"
  by (auto simp: set_node_def rule_id_def fun_eq_iff)

lemma set_chain_simps [simp]:
  "rs_ids (set_chain c f rs) = rs_ids rs" "rs_maxid (set_chain c f rs) = rs_maxid rs"
  "rs_next (set_chain c f rs) = rs_next rs" "rule_id (set_chain c f rs) = rule_id rs"
  "rs_queue (set_chain (Chain_of b) f rs) = rs_queue rs" "rs_queue (set_chain (Queue t) f rs) = (rs_queue rs)(t := f (rs_queue rs t))"
  "rs_node (set_chain (Queue t) f rs) = rs_node rs"
  by (auto simp: set_chain_def rule_id_def fun_eq_iff split: chain_ref.splits)

lemma indexed_cong: "rs_ids rs' = rs_ids rs \<Longrightarrow> rs_maxid rs' = rs_maxid rs \<Longrightarrow> indexed rs' A = indexed rs A"
  by (simp add: indexed_def rule_id_def)

lemma kids_set_pchain [simp]: "kids (set_node a (n_pchain_update g) rs) b = kids rs b"
  by (auto simp: kids_def get_chain_def split: option.splits)

lemma kids_set_queue [simp]: "kids (set_chain (Queue t) f rs) b = kids rs b"
  by (rule kids_cong) simp

lemma inv_block: "ruleset_inv rs \<Longrightarrow> b \<in> set (rs_queue rs t) \<Longrightarrow> block_ok rs t b" by (simp add: ruleset_inv_def)
lemma inv_distinct: "ruleset_inv rs \<Longrightarrow> distinct (rs_queue rs t)" by (simp add: ruleset_inv_def)
lemma inv_indexed: "ruleset_inv rs \<Longrightarrow> indexed rs (members rs)" by (simp add: ruleset_inv_def)
lemma inv_alloc: "ruleset_inv rs \<Longrightarrow> rs_node rs a = Some n \<Longrightarrow> a < rs_next rs" by (simp add: ruleset_inv_def)

lemma ruleset_invI:
  "(\<And>t. distinct (rs_queue rs t)) \<Longrightarrow> (\<And>t b. b \<in> set (rs_queue rs t) \<Longrightarrow> block_ok rs t b) \<Longrightarrow> indexed rs (members rs) \<Longrightarrow>
   (\<And>a n. rs_node rs a = Some n \<Longrightarrow> a < rs_next rs) \<Longrightarrow> ruleset_inv rs"
  by (auto simp: ruleset_inv_def)

lemma in_members: "b \<in> set (rs_queue rs t) \<Longrightarrow> b \<in> members rs"
  "b \<in> set (rs_queue rs t) \<Longrightarrow> x \<in> set (kids rs b) \<Longrightarrow> x \<in> members rs"
  by (auto simp: members_def blocks_def)

text \<open>Each member has one place: its back pointer.\<close>

lemma block_node: "ruleset_inv rs \<Longrightarrow> b \<in> set (rs_queue rs t) \<Longrightarrow>
    \<exists>n. rs_node rs b = Some n \<and> n_rule n = Chain t (kids rs b) \<and> n_pchain n = Some (Queue t)"
proof -
  assume "ruleset_inv rs" "b \<in> set (rs_queue rs t)"
  then have "block_ok rs t b" by (rule inv_block)
  then obtain n xs where "rs_node rs b = Some n" "n_rule n = Chain t xs" "n_pchain n = Some (Queue t)" by (auto simp: block_ok_def)
  then show ?thesis using kids_node [of rs b n t xs] by simp
qed

lemma kid_node: "ruleset_inv rs \<Longrightarrow> b \<in> set (rs_queue rs t) \<Longrightarrow> x \<in> set (kids rs b) \<Longrightarrow>
    \<exists>n y. rs_node rs x = Some n \<and> n_rule n = Body y \<and> n_pchain n = Some (Chain_of b)"
  using inv_block by (fastforce simp: block_ok_def chain_ok_def)

lemma membersE:
  assumes "x \<in> members rs"
  obtains (block) t where "x \<in> set (rs_queue rs t)" | (kid) t b where "b \<in> set (rs_queue rs t)" "x \<in> set (kids rs b)"
  using assms by (auto simp: members_def blocks_def)

lemma member_pchain:
  assumes "ruleset_inv rs" "x \<in> members rs" "rs_node rs x = Some n"
  shows "(\<exists>t. n_pchain n = Some (Queue t) \<and> x \<in> set (rs_queue rs t)) \<or>
    (\<exists>t b. n_pchain n = Some (Chain_of b) \<and> b \<in> set (rs_queue rs t) \<and> x \<in> set (kids rs b))"
  using assms(2)
proof (cases rule: membersE)
  case (block t)
  then show ?thesis using block_node [OF assms(1) block] assms(3) by auto
next
  case (kid t b)
  then show ?thesis using kid_node [OF assms(1) kid] assms(3) by auto
qed

lemma member_node: "ruleset_inv rs \<Longrightarrow> x \<in> members rs \<Longrightarrow> \<exists>n. rs_node rs x = Some n"
  by (erule membersE) (blast dest: block_node kid_node)+

lemma member_queue:
  assumes "ruleset_inv rs" "x \<in> members rs" "rs_node rs x = Some n"
  shows "n_pchain n = Some (Queue t) \<longleftrightarrow> x \<in> set (rs_queue rs t)"
proof
  assume "n_pchain n = Some (Queue t)"
  then show "x \<in> set (rs_queue rs t)" using member_pchain [OF assms] by simp
next
  assume "x \<in> set (rs_queue rs t)"
  from block_node [OF assms(1) this] show "n_pchain n = Some (Queue t)" using assms(3) by simp
qed

lemma member_kid:
  assumes "ruleset_inv rs" "x \<in> members rs" "rs_node rs x = Some n" "b \<in> set (rs_queue rs t)"
  shows "n_pchain n = Some (Chain_of b) \<longleftrightarrow> x \<in> set (kids rs b)"
proof
  assume "n_pchain n = Some (Chain_of b)"
  then show "x \<in> set (kids rs b)" using member_pchain [OF assms(1-3)] by auto
next
  assume "x \<in> set (kids rs b)"
  from kid_node [OF assms(1,4) this] show "n_pchain n = Some (Chain_of b)" using assms(3) by auto
qed

lemma spare_kids:
  assumes "ruleset_inv rs" "spare_block rs a t"
  shows "a \<notin> set (kids rs a)" "set (kids rs a) \<inter> members rs = {}" "distinct (a # kids rs a)"
proof -
  from assms(2) obtain n xs where n: "rs_node rs a = Some n" "n_rule n = Chain t xs" by (auto simp: spare_block_def)
  have k: "\<exists>m y. rs_node rs x = Some m \<and> n_rule m = Body y \<and> n_pchain m = Some (Chain_of a)" if "x \<in> set (kids rs a)" for x
    using assms(2) that by (auto simp: spare_block_def chain_ok_def)
  show 1: "a \<notin> set (kids rs a)" using k [of a] n by auto
  show "set (kids rs a) \<inter> members rs = {}"
  proof (rule ccontr)
    assume "set (kids rs a) \<inter> members rs \<noteq> {}"
    then obtain x where x: "x \<in> set (kids rs a)" "x \<in> members rs" by auto
    from member_pchain [OF assms(1) x(2)] k [OF x(1)] obtain t where "a \<in> set (rs_queue rs t)" by auto
    then show False using assms(2) by (auto simp: spare_block_def dest: in_members)
  qed
  show "distinct (a # kids rs a)" using 1 assms(2) by (simp add: spare_block_def chain_ok_def)
qed

lemma finite_members: "ruleset_inv rs \<Longrightarrow> finite (members rs)"
  by (auto simp: ruleset_inv_def indexed_def dest: rb_set_finite)

subsection \<open>Blocks\<close>

text \<open>To put a block into a queue, after its identifiers are in the index.\<close>

lemma link_block:
  assumes inv: "ruleset_inv rs" and sp: "spare_block rs a t"
    and i: "indexed r1 (insert a (set (kids rs a)) \<union> members rs)" and s: "same_rules (insert a (set (kids rs a))) rs r1"
    and q: "distinct ys" "set ys = insert a (set (rs_queue rs t))"
  defines "r2 \<equiv> set_node a (n_pchain_update (\<lambda>_. Some (Queue t))) (set_chain (Queue t) (\<lambda>_. ys) r1)"
  shows "ruleset_inv r2" "members r2 = insert a (set (kids rs a)) \<union> members rs"
    "layout r2 = (layout rs)(t := map (\<lambda>b. (b, kids rs b)) ys)" "\<forall>x\<in>members rs. rule_id r2 x = rule_id rs x"
proof -
  have n: "rs_node r1 = rs_node rs" "rs_queue r1 = rs_queue rs" "rs_next r1 = rs_next rs" using s by (simp_all add: same_rules_def)
  have k: "kids r2 b = kids rs b" for b using n kids_cong [of r1 b rs] by (simp add: r2_def)
  have qu: "rs_queue r2 = (rs_queue rs)(t := ys)" using n by (simp add: r2_def)
  have nd: "rs_node r2 x = (if x = a then map_option (n_pchain_update (\<lambda>_. Some (Queue t))) (rs_node rs a) else rs_node rs x)" for x
    using n by (simp add: r2_def)
  note sk = spare_kids [OF inv sp]
  show m: "members r2 = insert a (set (kids rs a)) \<union> members rs" 
  proof -
    have "blocks r2 = insert a (blocks rs)" using q(2) by (force simp: blocks_def qu split: if_splits)
    then show ?thesis by (auto simp: members_def k)
  qed
  show "layout r2 = (layout rs)(t := map (\<lambda>b. (b, kids rs b)) ys)" by (auto simp: layout_def qu k fun_eq_iff)
  show "\<forall>x\<in>members rs. rule_id r2 x = rule_id rs x" using s sk sp by (auto simp: r2_def same_rules_def spare_block_def disjoint_iff)
  have na: "a \<notin> members rs" using sp by (simp add: spare_block_def)
  have c: "chain_ok r2 b" if "chain_ok rs b" "a \<notin> set (kids rs b)" for b using that by (auto simp: chain_ok_def k nd)
  have old: "block_ok r2 u b" if b: "b \<in> set (rs_queue rs u)" for u b
  proof -
    have ab: "a \<noteq> b" "a \<notin> set (kids rs b)" using na in_members [OF b] by auto
    from inv_block [OF inv b] have "chain_ok r2 b" using c ab(2) by (simp add: block_ok_def)
    then show ?thesis using inv_block [OF inv b] ab(1) by (simp add: block_ok_def nd)
  qed
  have new: "block_ok r2 t a"
  proof -
    obtain n xs where "rs_node rs a = Some n" "n_rule n = Chain t xs" "chain_ok rs a" using sp by (auto simp: spare_block_def)
    then show ?thesis using c [OF _ sk(1)] by (simp add: block_ok_def nd)
  qed
  show "ruleset_inv r2"
  proof (rule ruleset_invI)
    show "distinct (rs_queue r2 u)" for u using inv_distinct [OF inv] q(1) by (simp add: qu)
    show "block_ok r2 u b" if "b \<in> set (rs_queue r2 u)" for u b using that old [of b u] new q(2) by (cases "b = a"; cases "u = t") (auto simp: qu)
    show "indexed r2 (members r2)" using i indexed_cong [of r2 r1] unfolding m by (simp add: r2_def)
    show "x < rs_next r2" if "rs_node r2 x = Some n" for x n
      using that inv_alloc [OF inv] n by (auto simp: nd r2_def split: if_splits)
  qed
qed

lemma update_ids_ok:
  assumes inv: "ruleset_inv rs" and sp: "spare_block rs a t" and c: "card (members rs) + length (kids rs a) < 2 ^ 31"
  shows "\<exists>r1. apn_update_ids a rs = Some (True, r1) \<and> indexed r1 (insert a (set (kids rs a)) \<union> members rs) \<and>
    same_rules (insert a (set (kids rs a))) rs r1"
proof -
  note sk = spare_kids [OF inv sp]
  from sp obtain n where n: "rs_node rs a = Some n" "n_rule n = Chain t (kids rs a)" using kids_node [of rs a] by (auto simp: spare_block_def)
  have "indexed rs (members rs)" using inv by (simp add: ruleset_inv_def)
  from assign_each_ok [OF this sk(2)] sk(3) c obtain r1 where r1: "assign_each (kids rs a) rs = Some r1"
    "indexed r1 (set (kids rs a) \<union> members rs)" "same_rules (set (kids rs a)) rs r1" by auto
  have "a \<notin> set (kids rs a) \<union> members rs" using sk(1) sp by (simp add: spare_block_def)
  moreover have "card (set (kids rs a) \<union> members rs) < 2 ^ 31"
    using c card_Un_le [of "set (kids rs a)" "members rs"] card_length [of "kids rs a"] by linarith
  ultimately obtain r2 where r2: "apn_assign_id a r1 = Some r2" "indexed r2 (insert a (set (kids rs a) \<union> members rs))" "same_rules {a} r1 r2"
    using assign_id_ok [OF r1(2), of a] by auto
  have "same_rules (insert a (set (kids rs a))) rs r2" by (rule same_rules_trans [OF r1(3) r2(3)]) auto
  then show ?thesis using n r1 r2 by (simp add: apn_update_ids_def)
qed

lemma add_ok:
  assumes inv: "ruleset_inv rs" and sp: "spare_block rs a t" and c: "card (members rs) + length (kids rs a) < 2 ^ 31" and m: "rs_maxid rs \<noteq> UINT_MAX"
  shows "\<exists>r2. apn_add (Some a) rs = Some (0, r2) \<and> ruleset_inv r2 \<and> members r2 = insert a (set (kids rs a)) \<union> members rs \<and>
    layout r2 = (layout rs)(t := (a, kids rs a) # layout rs t) \<and> (\<forall>x\<in>members rs. rule_id r2 x = rule_id rs x)"
proof -
  from sp obtain n where n: "rs_node rs a = Some n" "n_rule n = Chain t (kids rs a)" using kids_node [of rs a] by (auto simp: spare_block_def)
  from update_ids_ok [OF inv sp c] obtain r1 where r1: "apn_update_ids a rs = Some (True, r1)"
    "indexed r1 (insert a (set (kids rs a)) \<union> members rs)" "same_rules (insert a (set (kids rs a))) rs r1" by blast
  have q: "distinct (a # rs_queue rs t)" "set (a # rs_queue rs t) = insert a (set (rs_queue rs t))" "rs_queue r1 = rs_queue rs"
    using inv sp r1(3) by (auto simp: ruleset_inv_def spare_block_def same_rules_def dest: in_members)
  have h: "insert_head (Queue t) a r1 = set_node a (n_pchain_update (\<lambda>_. Some (Queue t))) (set_chain (Queue t) (\<lambda>_. a # rs_queue rs t) r1)"
    by (simp add: insert_head_def set_chain_def q(3))
  show ?thesis using link_block [OF inv sp r1(2,3) q(1,2)] n r1(1) m unfolding h [symmetric]
    by (simp add: apn_add_def) (simp add: layout_def)
qed

subsection \<open>Finding rules\<close>

definition owner :: "ruleset \<Rightarrow> u32 \<Rightarrow> ptr \<Rightarrow> bool" where
  "owner rs i x \<longleftrightarrow>
     (case x of None \<Rightarrow> \<forall>a\<in>members rs. rule_id rs a \<noteq> ucast i | Some a \<Rightarrow> a \<in> members rs \<and> rule_id rs a = ucast i)"

lemma find_rule_ok:
  assumes "ruleset_inv rs"
  shows "\<exists>x. apn_find_rule rs i = Some x \<and> owner rs i x"
proof -
  note i = inv_indexed [OF assms]
  then obtain x where "rb_find (rs_ids rs) (ucast i) = Some x" "found (rs_ids rs) (ucast i) (members rs) x"
    using rb_find_set [of "rs_ids rs" "members rs" "ucast i"] by (auto simp: indexed_def)
  then show ?thesis using i by (cases x) (auto simp: apn_find_rule_def owner_def found_def rule_id_def indexed_def)
qed

lemma ids_inj: "ruleset_inv rs \<Longrightarrow> inj_on (rule_id rs) (members rs)"
  using rb_set_keys [of "rs_ids rs" "members rs"] inv_indexed [of rs] by (simp add: indexed_def rule_id_def [abs_def])

lemma owner_unique: "ruleset_inv rs \<Longrightarrow> owner rs i (Some a) \<Longrightarrow> b \<in> members rs \<Longrightarrow> rule_id rs b = ucast i \<longleftrightarrow> b = a"
  using ids_inj [of rs] by (auto simp: owner_def inj_on_def)

lemma search_rule_ok:
  assumes inv: "ruleset_inv rs"
  shows "\<exists>x. apn_search_rule rs (Queue t) i = Some x \<and>
    (case x of None \<Rightarrow> \<forall>b\<in>set (rs_queue rs t). rule_id rs b \<noteq> ucast i | Some b \<Rightarrow> b \<in> set (rs_queue rs t) \<and> owner rs i (Some b))"
proof -
  obtain x where x: "apn_find_rule rs i = Some x" "owner rs i x" using find_rule_ok [OF inv] by blast
  show ?thesis
  proof (cases x)
    case None
    then show ?thesis using x by (auto simp: apn_search_rule_def owner_def dest: in_members)
  next
    case (Some a)
    then have m: "a \<in> members rs" using x(2) by (simp add: owner_def)
    then obtain n where n: "rs_node rs a = Some n" using member_node [OF inv] by blast
    note q = member_queue [OF inv m n, of t]
    have "rule_id rs b \<noteq> ucast i" if "b \<in> set (rs_queue rs t)" "a \<notin> set (rs_queue rs t)" for b
      using owner_unique [OF inv, of i a b] x(2) Some that in_members(1) [OF that(1)] by auto
    then show ?thesis using x Some n q by (simp add: apn_search_rule_def)
  qed
qed

lemma search_rule_deep_ok:
  assumes inv: "ruleset_inv rs"
  shows "\<exists>x. apn_search_rule_deep rs t i = Some x \<and>
    (case x of None \<Rightarrow> \<forall>b\<in>set (rs_queue rs t). \<forall>y\<in>set (kids rs b). rule_id rs y \<noteq> ucast i
     | Some b \<Rightarrow> b \<in> set (rs_queue rs t) \<and> (\<exists>y\<in>set (kids rs b). owner rs i (Some y)))"
proof -
  obtain x where x: "apn_find_rule rs i = Some x" "owner rs i x" using find_rule_ok [OF inv] by blast
  show ?thesis
  proof (cases x)
    case None
    then show ?thesis using x by (auto simp: apn_search_rule_deep_def owner_def dest: in_members)
  next
    case (Some a)
    then have m: "a \<in> members rs" using x(2) by (simp add: owner_def)
    then obtain n where n: "rs_node rs a = Some n" using member_node [OF inv] by blast
    have p: "n_pchain n = Some (Chain_of b) \<longleftrightarrow> a \<in> set (kids rs b)" if "b \<in> set (rs_queue rs t)" for b
      by (rule member_kid [OF inv m n that])
    let ?f = "List.find (\<lambda>b. n_pchain n = Some (Chain_of b)) (rs_queue rs t)"
    have d: "apn_search_rule_deep rs t i = Some ?f" using x(1) Some n by (simp add: apn_search_rule_deep_def)
    show ?thesis
    proof (cases ?f)
      case None
      have "rule_id rs y \<noteq> ucast i" if "b \<in> set (rs_queue rs t)" "y \<in> set (kids rs b)" for b y
        using None p [OF that(1)] that owner_unique [OF inv, of i a y] x(2) Some in_members(2) [OF that] by (auto simp: find_None_iff)
      then show ?thesis using d None by simp
    next
      case (Some b)
      then have b: "b \<in> set (rs_queue rs t)" "n_pchain n = Some (Chain_of b)" by (auto simp: find_Some_iff)
      then show ?thesis using d Some p [OF b(1)] x(2) \<open>x = Some a\<close> by auto
    qed
  qed
qed

subsection \<open>Inserting blocks\<close>

fun put_before :: "('a \<Rightarrow> bool) \<Rightarrow> 'a \<Rightarrow> 'a list \<Rightarrow> 'a list option" where
  "put_before P y [] = None"
| "put_before P y (z # zs) = (if P z then Some (y # z # zs) else map_option (Cons z) (put_before P y zs))"

lemma put_before_None: "put_before P y zs = None \<longleftrightarrow> (\<forall>z\<in>set zs. \<not> P z)"
  by (induction zs) auto

lemma put_before_list: "\<lbrakk>p \<in> set zs; \<And>z. z \<in> set zs \<Longrightarrow> P z \<longleftrightarrow> z = p\<rbrakk> \<Longrightarrow> put_before P y zs = Some (list_before p y zs)"
  by (induction zs) auto

lemma put_before_map: "put_before P (f y) (map f zs) = map_option (map f) (put_before (P \<circ> f) y zs)"
  by (induction zs) (auto simp: option.map_comp comp_def)

lemma list_before_set: "p \<in> set zs \<Longrightarrow> set (list_before p y zs) = insert y (set zs)"
  by (induction zs) auto

lemma list_before_distinct: "distinct zs \<Longrightarrow> y \<notin> set zs \<Longrightarrow> distinct (list_before p y zs)"
proof (induction zs)
  case (Cons z zs)
  have "set (list_before p y zs) \<subseteq> insert y (set zs)" by (induction zs) auto
  then show ?case using Cons by auto
qed simp

definition insert_layout :: "(nat \<Rightarrow> u64) \<Rightarrow> block_type \<Rightarrow> nat \<times> nat list \<Rightarrow> u32 \<Rightarrow> (block_type \<Rightarrow> (nat \<times> nat list) list) \<Rightarrow> (block_type \<Rightarrow> (nat \<times> nat list) list) option" where
  "insert_layout ids t blk i L =
     (if t = APN_SFS \<and> L t \<noteq> [] then None
      else if i = 0 then (if L t = [] then Some (L(t := [blk])) else None)
      else map_option (\<lambda>l. L(t := l)) (put_before (\<lambda>b. ids (fst b) = ucast i) blk (L t)))"

lemma insert_ok:
  assumes inv: "ruleset_inv rs" and sp: "spare_block rs a t" and c: "card (members rs) + length (kids rs a) < 2 ^ 31" and m: "rs_maxid rs \<noteq> UINT_MAX"
  shows "\<exists>r r2. apn_insert (Some a) i rs = Some (r, r2) \<and> ruleset_inv r2 \<and> (\<forall>x\<in>members rs. rule_id r2 x = rule_id rs x) \<and>
    (case insert_layout (rule_id rs) t (a, kids rs a) i (layout rs) of
       None \<Rightarrow> r = 1 \<and> r2 = rs
     | Some L \<Rightarrow> r = 0 \<and> layout r2 = L \<and> members r2 = insert a (set (kids rs a)) \<union> members rs)"
proof -
  from sp obtain n where n: "rs_node rs a = Some n" "n_rule n = Chain t (kids rs a)" using kids_node [of rs a] by (auto simp: spare_block_def)
  from update_ids_ok [OF inv sp c] obtain r1 where r1: "apn_update_ids a rs = Some (True, r1)"
    "indexed r1 (insert a (set (kids rs a)) \<union> members rs)" "same_rules (insert a (set (kids rs a))) rs r1" by blast
  have L: "layout rs t = [] \<longleftrightarrow> rs_queue rs t = []" by (simp add: layout_def)
  have q: "distinct (rs_queue rs t)" "a \<notin> set (rs_queue rs t)" "rs_queue r1 = rs_queue rs" "rs_node r1 = rs_node rs"
    using inv_distinct [OF inv] sp r1(3) by (auto simp: spare_block_def same_rules_def dest: in_members)
  consider (bad) "t = APN_SFS \<and> rs_queue rs t \<noteq> [] \<or> i = 0 \<and> rs_queue rs t \<noteq> []" | (empty) "i = 0" "rs_queue rs t = []"
    | (search) "i \<noteq> 0" "\<not> (t = APN_SFS \<and> rs_queue rs t \<noteq> [])" by blast
  then show ?thesis
  proof cases
    case bad
    then have "apn_insert (Some a) i rs = Some (1, rs)" "insert_layout (rule_id rs) t (a, kids rs a) i (layout rs) = None"
      using n m by (auto simp: apn_insert_def insert_layout_def L)
    then show ?thesis using inv by simp
  next
    case empty
    have h: "insert_head (Queue t) a r1 = set_node a (n_pchain_update (\<lambda>_. Some (Queue t))) (set_chain (Queue t) (\<lambda>_. [a]) r1)"
      using q(3) empty by (simp add: insert_head_def set_chain_def)
    have "apn_insert (Some a) i rs = Some (0, insert_head (Queue t) a r1)" using n m r1(1) empty by (simp add: apn_insert_def)
    moreover have "insert_layout (rule_id rs) t (a, kids rs a) i (layout rs) = Some ((layout rs)(t := [(a, kids rs a)]))"
      using empty by (simp add: insert_layout_def L)
    ultimately show ?thesis using link_block [OF inv sp r1(2,3), of "[a]"] empty unfolding h [symmetric] by simp
  next
    case search
    obtain p where p: "apn_search_rule rs (Queue t) i = Some p" "case p of None \<Rightarrow> \<forall>b\<in>set (rs_queue rs t). rule_id rs b \<noteq> ucast i
        | Some b \<Rightarrow> b \<in> set (rs_queue rs t) \<and> owner rs i (Some b)" using search_rule_ok [OF inv] by blast
    have il: "insert_layout (rule_id rs) t (a, kids rs a) i (layout rs) =
        map_option (\<lambda>l. (layout rs)(t := map (\<lambda>b. (b, kids rs b)) l)) (put_before (\<lambda>b. rule_id rs b = ucast i) a (rs_queue rs t))"
      using search put_before_map [of "\<lambda>b. rule_id rs (fst b) = ucast i" "\<lambda>b. (b, kids rs b)" a "rs_queue rs t"]
      by (simp add: insert_layout_def L) (simp add: layout_def option.map_comp comp_def)
    show ?thesis
    proof (cases p)
      case None
      then have "put_before (\<lambda>b. rule_id rs b = ucast i) a (rs_queue rs t) = None" using p(2) by (simp add: put_before_None)
      moreover have "apn_insert (Some a) i rs = Some (1, rs)" using n m search p(1) None by (auto simp: apn_insert_def)
      ultimately show ?thesis using inv by (simp add: il)
    next
      case (Some b)
      then have b: "b \<in> set (rs_queue rs t)" "owner rs i (Some b)" using p(2) by auto
      let ?ys = "list_before b a (rs_queue rs t)"
      have pb: "put_before (\<lambda>b. rule_id rs b = ucast i) a (rs_queue rs t) = Some ?ys"
        by (rule put_before_list [OF b(1)]) (use owner_unique [OF inv b(2)] in \<open>auto dest: in_members\<close>)
      have h: "insert_before b a r1 = Some (set_node a (n_pchain_update (\<lambda>_. Some (Queue t))) (set_chain (Queue t) (\<lambda>_. ?ys) r1))"
        using block_node [OF inv b(1)] q(3,4) by (auto simp: insert_before_def set_chain_def)
      have "apn_insert (Some a) i rs = map_option (Pair 0) (insert_before b a r1)"
        using n m search p(1) Some r1(1) by (auto simp: apn_insert_def)
      then show ?thesis using link_block [OF inv sp r1(2,3), of ?ys] list_before_distinct [OF q(1,2)] list_before_set [OF b(1)]
        unfolding h il pb by simp
    qed
  qed
qed

subsection \<open>Inserting rules\<close>

lemma kids_set_chain: "kids (set_chain (Chain_of b) f rs) c = (if c = b \<and> get_chain rs (Chain_of b) \<noteq> None then f (kids rs b) else kids rs c)"
  by (auto simp: kids_def get_chain_def set_chain_def map_chain_def split: option.splits rule_part.splits)

lemma node_set_chain: "rs_node (set_chain (Chain_of b) f rs) x = (if x = b then map_option (n_rule_update (map_chain f)) (rs_node rs b) else rs_node rs x)"
  by (simp add: set_chain_def)

lemma block_chain: "ruleset_inv rs \<Longrightarrow> b \<in> set (rs_queue rs t) \<Longrightarrow> get_chain rs (Chain_of b) \<noteq> None"
  using block_node [of rs b t] by (auto simp: get_chain_def)

text \<open>A block whose chain is changed; rules outside of it and other blocks stay.\<close>

lemma change_chain:
  assumes inv: "ruleset_inv rs" and b: "b \<in> set (rs_queue rs t)"
    and q: "rs_queue r2 = rs_queue rs" and nb: "\<exists>n. rs_node r2 b = Some n \<and> n_rule n = Chain t ys \<and> n_pchain n = Some (Queue t)"
    and ys: "distinct ys" "\<And>x. x \<in> set ys \<Longrightarrow> \<exists>n y. rs_node r2 x = Some n \<and> n_rule n = Body y \<and> n_pchain n = Some (Chain_of b)"
    and same: "\<And>x. x \<in> members rs \<Longrightarrow> x \<noteq> b \<Longrightarrow> x \<notin> set (kids rs b) \<Longrightarrow> rs_node r2 x = rs_node rs x"
    and i: "indexed r2 (members rs - set (kids rs b) \<union> set ys)" and al: "\<And>x n. rs_node r2 x = Some n \<Longrightarrow> x < rs_next r2"
  shows "ruleset_inv r2" "members r2 = members rs - set (kids rs b) \<union> set ys"
    "layout r2 = (\<lambda>u. map (\<lambda>(c, xs). (c, if c = b then ys else xs)) (layout rs u))"
proof -
  have kb: "kids r2 b = ys" using nb kids_node by blast
  have dis: "x \<notin> set (kids rs b)" if "c \<in> set (rs_queue rs u)" "x = c \<or> x \<in> set (kids rs c) \<and> c \<noteq> b" for c u x
    using that block_node [OF inv that(1)] kid_node [OF inv b, of x] kid_node [OF inv that(1), of x] by auto
  have old: "rs_node r2 x = rs_node rs x" if "c \<in> set (rs_queue rs u)" "c \<noteq> b" "x = c \<or> x \<in> set (kids rs c)" for c u x
  proof (rule same)
    show "x \<in> members rs" using that in_members by blast
    show "x \<noteq> b" using that block_node [OF inv b] kid_node [OF inv that(1), of b] by auto
    show "x \<notin> set (kids rs b)" using dis [OF that(1)] that(2,3) by blast
  qed
  have k: "kids r2 c = (if c = b then ys else kids rs c)" if "c \<in> set (rs_queue rs u)" for c u
    using kb kids_cong [of r2 c rs] old [OF that] by simp
  show "layout r2 = (\<lambda>u. map (\<lambda>(c, xs). (c, if c = b then ys else xs)) (layout rs u))"
    using k by (auto simp: layout_def q fun_eq_iff)
  have bl: "blocks r2 = blocks rs" by (simp add: blocks_def q)
  have kb2: "set (kids r2 c) = (if c = b then set ys else set (kids rs c))" if "c \<in> blocks rs" for c using that k by (auto simp: blocks_def)
  show m: "members r2 = members rs - set (kids rs b) \<union> set ys" (is "?l = ?r")
  proof
    show "?l \<subseteq> ?r"
    proof
      fix x assume "x \<in> ?l"
      then obtain c where c: "c \<in> blocks rs" "x = c \<or> x \<in> set (kids r2 c)" by (auto simp: members_def bl)
      then obtain u where u: "c \<in> set (rs_queue rs u)" by (auto simp: blocks_def)
      show "x \<in> ?r" using c(2) k [OF u] dis [OF u, of x] in_members [OF u] by (auto split: if_splits)
    qed
    show "?r \<subseteq> ?l"
    proof
      fix x assume x: "x \<in> ?r"
      then consider "x \<in> set ys" | "x \<in> members rs" "x \<notin> set (kids rs b)" by blast
      then show "x \<in> ?l"
      proof cases
        case 1
        moreover have "b \<in> blocks rs" using b by (auto simp: blocks_def)
        ultimately show ?thesis using kb by (auto simp: members_def bl)
      next
        case 2
        from 2(1) obtain c where "c \<in> blocks rs" "x = c \<or> x \<in> set (kids rs c)" by (auto simp: members_def)
        moreover then have "x = c \<or> x \<in> set (kids r2 c)" using kb2 [of c] 2(2) by auto
        ultimately show ?thesis by (auto simp: members_def bl)
      qed
    qed
  qed
  show "ruleset_inv r2"
  proof (rule ruleset_invI)
    show "distinct (rs_queue r2 u)" for u using inv_distinct [OF inv] by (simp add: q)
    show "indexed r2 (members r2)" using i by (simp add: m)
    show "block_ok r2 u c" if "c \<in> set (rs_queue r2 u)" for u c
    proof (cases "c = b")
      case True
      have "u = t" using block_node [OF inv b] block_node [OF inv, of c u] that True by (auto simp: q)
      then show ?thesis using nb ys kb True by (auto simp: block_ok_def chain_ok_def)
    next
      case False
      note c = that [unfolded q]
      have "block_ok rs u c" by (rule inv_block [OF inv c])
      moreover have "kids r2 c = kids rs c" using k [OF c] False by simp
      ultimately show ?thesis using old [OF c False] by (simp add: block_ok_def chain_ok_def)
    qed
  qed (rule al)
qed

lemma link_rule:
  assumes inv: "ruleset_inv rs" and sp: "spare_rule rs x" and b: "b \<in> set (rs_queue rs t)"
    and ys: "distinct ys" "set ys = insert x (set (kids rs b))"
    and r2: "indexed r2 (insert x (members rs))"
      "same_rules {x} (set_node x (n_pchain_update (\<lambda>_. Some (Chain_of b))) (set_chain (Chain_of b) (\<lambda>_. ys) rs)) r2"
  shows "ruleset_inv r2" "members r2 = insert x (members rs)" "\<forall>a\<in>members rs. rule_id r2 a = rule_id rs a"
    "layout r2 = (\<lambda>u. map (\<lambda>(c, xs). (c, if c = b then ys else xs)) (layout rs u))"
proof -
  let ?r1 = "set_node x (n_pchain_update (\<lambda>_. Some (Chain_of b))) (set_chain (Chain_of b) (\<lambda>_. ys) rs)"
  from sp obtain m y where x: "x \<notin> members rs" "rs_node rs x = Some m" "n_rule m = Body y" by (auto simp: spare_rule_def)
  from block_node [OF inv b] obtain n where n: "rs_node rs b = Some n" "n_rule n = Chain t (kids rs b)" "n_pchain n = Some (Queue t)" by blast
  have xb: "x \<noteq> b" using x(3) n x(2) by auto
  have kb: "set (kids rs b) \<subseteq> members rs" "b \<in> members rs" using in_members [OF b] by auto
  have nb: "b \<notin> set (kids rs b)" using kid_node [OF inv b, of b] n by auto
  have nd: "rs_node r2 a = (if a = x then Some (m\<lparr>n_pchain := Some (Chain_of b)\<rparr>) else if a = b then Some (n\<lparr>n_rule := Chain t ys\<rparr>) else rs_node rs a)" for a
    using r2(2) x n xb by (auto simp: same_rules_def set_chain_def map_chain_def)
  have q: "rs_queue r2 = rs_queue rs" "rs_next r2 = rs_next rs" using r2(2) by (simp_all add: same_rules_def)
  have m: "members rs - set (kids rs b) \<union> set ys = insert x (members rs)" using ys(2) kb by auto
  have e: "\<exists>n. rs_node r2 b = Some n \<and> n_rule n = Chain t ys \<and> n_pchain n = Some (Queue t)" using xb n by (simp add: nd)
  have k: "\<exists>n y. rs_node r2 a = Some n \<and> n_rule n = Body y \<and> n_pchain n = Some (Chain_of b)" if "a \<in> set ys" for a
    using that ys(2) kid_node [OF inv b, of a] x xb nb by (auto simp: nd)
  have s: "rs_node r2 a = rs_node rs a" if "a \<in> members rs" "a \<noteq> b" "a \<notin> set (kids rs b)" for a using that x(1) by (auto simp: nd)
  have i: "indexed r2 (members rs - set (kids rs b) \<union> set ys)" using r2(1) by (simp add: m)
  have al: "a < rs_next r2" if "rs_node r2 a = Some l" for a l
    using that inv_alloc [OF inv] x(2) n(1) by (auto simp: nd q split: if_splits)
  note cc = change_chain [OF inv b q(1) e ys(1) k s i al]
  show "ruleset_inv r2" "members r2 = insert x (members rs)" "layout r2 = (\<lambda>u. map (\<lambda>(c, xs). (c, if c = b then ys else xs)) (layout rs u))"
    using cc by (simp_all add: m)
  show "\<forall>a\<in>members rs. rule_id r2 a = rule_id rs a" using r2(2) x(1) by (auto simp: same_rules_def)
qed

text \<open>The new rule before the rule with the identifier, or as the first rule of the block with the identifier.\<close>

fun put_rule :: "(nat \<Rightarrow> bool) \<Rightarrow> nat \<Rightarrow> (nat \<times> nat list) list \<Rightarrow> (nat \<times> nat list) list option" where
  "put_rule P x [] = None"
| "put_rule P x ((b, xs) # L) =
     (case put_before P x xs of
        Some ys \<Rightarrow> Some ((b, ys) # L)
      | None \<Rightarrow> if P b then Some ((b, x # xs) # L) else map_option (Cons (b, xs)) (put_rule P x L))"

lemma put_rule_None: "put_rule P x L = None \<longleftrightarrow> (\<forall>(b, xs)\<in>set L. \<not> P b \<and> (\<forall>y\<in>set xs. \<not> P y))"
proof (induction P x L rule: put_rule.induct)
  case (2 P x b xs L)
  then show ?case using put_before_None [of P x xs] by (cases "put_before P x xs") auto
qed simp

lemma put_rule_at:
  assumes "(b, xs) \<in> set L" "distinct (map fst L)" "put_before P x xs = (if P b then None else Some ys)" "P b \<longrightarrow> ys = x # xs"
    and "\<And>c zs. (c, zs) \<in> set L \<Longrightarrow> c \<noteq> b \<Longrightarrow> \<not> P c \<and> (\<forall>y\<in>set zs. \<not> P y)"
  shows "put_rule P x L = Some (map (\<lambda>(c, zs). (c, if c = b then ys else zs)) L)"
  using assms
proof (induction L)
  case (Cons d L)
  obtain c zs where d: "d = (c, zs)" by (cases d)
  show ?case
  proof (cases "c = b")
    case True
    then have "zs = xs" "\<forall>e\<in>set L. fst e \<noteq> b" using Cons.prems(1,2) by (force simp: d)+
    moreover then have "map (\<lambda>(c, zs). (c, if c = b then ys else zs)) L = L" by (auto intro!: map_idI)
    ultimately show ?thesis using True Cons.prems(3,4) by (simp add: d)
  next
    case False
    then have "put_before P x zs = None" "\<not> P c" using Cons.prems(5) [of c zs] by (auto simp: d put_before_None)
    moreover have "put_rule P x L = Some (map (\<lambda>(c, zs). (c, if c = b then ys else zs)) L)"
      using Cons False by (auto simp: d)
    ultimately show ?thesis using False by (simp add: d)
  qed
qed simp

lemma set_chain_const: "ruleset_inv rs \<Longrightarrow> b \<in> set (rs_queue rs t) \<Longrightarrow> set_chain (Chain_of b) f rs = set_chain (Chain_of b) (\<lambda>_. f (kids rs b)) rs"
  using block_node [of rs b t] by (auto simp: set_chain_def set_node_def map_chain_def fun_eq_iff)

lemma layout_fst: "map fst (layout rs t) = rs_queue rs t" by (simp add: layout_def comp_def)

lemma in_layout: "(b, xs) \<in> set (layout rs t) \<longleftrightarrow> b \<in> set (rs_queue rs t) \<and> xs = kids rs b" by (auto simp: layout_def)

lemma queue_unique: "ruleset_inv rs \<Longrightarrow> b \<in> set (rs_queue rs t) \<Longrightarrow> b \<in> set (rs_queue rs u) \<Longrightarrow> u = t"
  using block_node [of rs b t] block_node [of rs b u] by auto

lemma kid_unique:
  assumes "ruleset_inv rs" "b \<in> set (rs_queue rs t)" "c \<in> set (rs_queue rs u)" "x \<in> set (kids rs b)"
  shows "x \<in> set (kids rs c) \<longleftrightarrow> c = b" "x \<notin> set (rs_queue rs v)"
  using kid_node [OF assms(1,2,4)] kid_node [OF assms(1,3), of x] block_node [OF assms(1), of x v] assms(4) by auto

lemma layout_one_queue:
  assumes "ruleset_inv rs" "b \<in> set (rs_queue rs t)"
  shows "(\<lambda>u. map (\<lambda>(c, xs). (c, if c = b then ys else xs)) (layout rs u)) =
    (layout rs)(t := map (\<lambda>(c, xs). (c, if c = b then ys else xs)) (layout rs t))"
proof
  fix u
  show "map (\<lambda>(c, xs). (c, if c = b then ys else xs)) (layout rs u) = ((layout rs)(t := map (\<lambda>(c, xs). (c, if c = b then ys else xs)) (layout rs t))) u"
    using queue_unique [OF assms, of u] by (auto simp: in_layout intro!: map_idI)
qed

lemma new_id_ok:
  assumes i: "indexed rs A" and x: "x \<notin> A" and c: "card A < 2 ^ 31" and v: "rule_id rs x \<noteq> 0 \<longrightarrow> rule_id rs x \<notin> rule_id rs ` A" "rule_id rs x < 2 ^ 32"
  shows "\<exists>r2. (if rule_id rs x = 0 then apn_assign_id x rs else apn_insert_id x rs) = Some r2 \<and> indexed r2 (insert x A) \<and> same_rules {x} rs r2"
proof (cases "rule_id rs x = 0")
  case True
  then show ?thesis using assign_id_ok [OF i x c] by simp
next
  case False
  moreover have "rule_id rs x \<notin> used (rs_ids rs) A" using v(1) False by (simp add: used_def rule_id_def)
  ultimately show ?thesis using insert_id_ok [OF i x _ v(2)] same_rules_trans [of "{}" rs _ "{}" _ "{x}"] by (auto simp: same_rules_def)
qed

lemma place_rule:
  assumes inv: "ruleset_inv rs" and sp: "spare_rule rs x" and c: "card (members rs) < 2 ^ 31" and b: "b \<in> set (rs_queue rs t)"
    and v: "rule_id rs x \<noteq> 0 \<longrightarrow> rule_id rs x \<notin> rule_id rs ` members rs" "rule_id rs x < 2 ^ 32"
    and ys: "distinct ys" "set ys = insert x (set (kids rs b))" and f: "f (kids rs b) = ys"
  defines "r1 \<equiv> set_node x (n_pchain_update (\<lambda>_. Some (Chain_of b))) (set_chain (Chain_of b) f rs)"
  shows "\<exists>r2. (if rule_id r1 x = 0 then apn_assign_id x r1 else apn_insert_id x r1) = Some r2 \<and> ruleset_inv r2 \<and>
    members r2 = insert x (members rs) \<and> (\<forall>a\<in>members rs. rule_id r2 a = rule_id rs a) \<and>
    layout r2 = (layout rs)(t := map (\<lambda>(c, xs). (c, if c = b then ys else xs)) (layout rs t))"
proof -
  have r1: "r1 = set_node x (n_pchain_update (\<lambda>_. Some (Chain_of b))) (set_chain (Chain_of b) (\<lambda>_. ys) rs)"
    using set_chain_const [OF inv b, of f] by (simp add: r1_def f)
  have "indexed r1 (members rs)" using inv_indexed [OF inv] indexed_cong [of r1 rs] by (simp add: r1)
  moreover have "rule_id r1 = rule_id rs" by (simp add: r1)
  moreover have "x \<notin> members rs" using sp by (simp add: spare_rule_def)
  ultimately obtain r2 where r2: "(if rule_id r1 x = 0 then apn_assign_id x r1 else apn_insert_id x r1) = Some r2"
    "indexed r2 (insert x (members rs))" "same_rules {x} r1 r2"
    using new_id_ok [of r1 "members rs" x] c v by auto
  show ?thesis using r2(1) link_rule [OF inv sp b ys r2(2) r2(3) [unfolded r1]] layout_one_queue [OF inv b] by simp
qed

definition rule_layout :: "ruleset \<Rightarrow> block_type \<Rightarrow> nat \<Rightarrow> u32 \<Rightarrow> (nat \<times> nat list) list option" where
  "rule_layout rs q x i =
     (if i = 0 \<or> rule_id rs x \<noteq> 0 \<and> rule_id rs x \<in> rule_id rs ` members rs then None
      else put_rule (\<lambda>a. rule_id rs a = ucast i) x (layout rs q))"

lemma valid_id_ok:
  assumes "ruleset_inv rs" "k < 2 ^ 32"
  shows "apn_valid_id rs (ucast k) = Some (k \<notin> rule_id rs ` members rs)"
proof -
  have "(ucast (ucast k :: u32) :: u64) = k"
    using assms(2) by (simp add: word_unat_eq_iff unsigned_ucast_eq unsigned_take_bit_eq word_less_nat_alt take_bit_nat_eq_self)
  then show ?thesis using find_used [of "rs_ids rs" "members rs" k] inv_indexed [OF assms(1)]
    by (auto simp: apn_valid_id_def indexed_def used_def rule_id_def [abs_def])
qed

lemma insert_rule_common_ok:
  assumes inv: "ruleset_inv rs" and sp: "spare_rule rs x" and c: "card (members rs) < 2 ^ 31" and m: "rs_maxid rs \<noteq> UINT_MAX" and k: "rule_id rs x < 2 ^ 32"
  shows "\<exists>r r2. apn_insert_rule_common q x i rs = Some (r, r2) \<and> ruleset_inv r2 \<and> (\<forall>a\<in>members rs. rule_id r2 a = rule_id rs a) \<and>
    (case rule_layout rs q x i of
       None \<Rightarrow> r = 1 \<and> r2 = rs
     | Some l \<Rightarrow> r = 0 \<and> layout r2 = (layout rs)(q := l) \<and> members r2 = insert x (members rs))"
proof -
  let ?P = "\<lambda>a. rule_id rs a = ucast i"
  have xm: "x \<notin> members rs" using sp by (simp add: spare_rule_def)
  have val: "(if rule_id rs x = 0 then Some True else apn_valid_id rs (ucast (rule_id rs x))) =
      Some (rule_id rs x \<noteq> 0 \<longrightarrow> rule_id rs x \<notin> rule_id rs ` members rs)"
    using valid_id_ok [OF inv k] by simp
  show ?thesis
  proof (cases "i = 0 \<or> rule_id rs x \<noteq> 0 \<and> rule_id rs x \<in> rule_id rs ` members rs")
    case True
    have i: "i < 1 \<longleftrightarrow> i = 0" by (metis word_gt_0 word_less_1 less_irrefl)
    have "apn_insert_rule_common q x i rs = Some (1, rs)" using True val m by (auto simp: apn_insert_rule_common_def i)
    then show ?thesis using True inv by (simp add: rule_layout_def)
  next
    case False
    then have i: "\<not> i < 1" and v: "rule_id rs x \<noteq> 0 \<longrightarrow> rule_id rs x \<notin> rule_id rs ` members rs" by auto
    have rl: "rule_layout rs q x i = put_rule ?P x (layout rs q)" using False by (auto simp: rule_layout_def)
    obtain bl where bl: "apn_search_rule_deep rs q i = Some bl"
      "case bl of None \<Rightarrow> \<forall>b\<in>set (rs_queue rs q). \<forall>y\<in>set (kids rs b). \<not> ?P y
       | Some b \<Rightarrow> b \<in> set (rs_queue rs q) \<and> (\<exists>y\<in>set (kids rs b). owner rs i (Some y))" using search_rule_deep_ok [OF inv] by blast
    obtain an where an: "apn_search_rule rs (Queue q) i = Some an" "case an of None \<Rightarrow> \<forall>b\<in>set (rs_queue rs q). \<not> ?P b
        | Some b \<Rightarrow> b \<in> set (rs_queue rs q) \<and> owner rs i (Some b)" using search_rule_ok [OF inv] by blast
    consider (rule) b y where "bl = Some b" "b \<in> set (rs_queue rs q)" "y \<in> set (kids rs b)" "owner rs i (Some y)"
      | (block) b where "bl = None" "an = Some b" "b \<in> set (rs_queue rs q)" "owner rs i (Some b)"
      | (none) "bl = None" "an = None" using bl(2) an(2) by (cases bl; cases an) auto
    then show ?thesis
    proof cases
      case rule
      let ?ys = "list_before y x (kids rs b)"
      obtain w where w: "apn_find_rule rs i = Some w" "owner rs i w" using find_rule_ok [OF inv] by blast
      have P: "?P a \<longleftrightarrow> a = y" if "a \<in> members rs" for a using owner_unique [OF inv rule(4)] that by blast
      have w': "w = Some y" using w(2) rule(4) P by (cases w) (auto simp: owner_def)
      have nd: "insert_before y x rs = Some (set_node x (n_pchain_update (\<lambda>_. Some (Chain_of b))) (set_chain (Chain_of b) (list_before y x) rs))"
        using kid_node [OF inv rule(2,3)] by (auto simp: insert_before_def)
      have d: "distinct (kids rs b)" using inv_block [OF inv rule(2)] by (simp add: block_ok_def chain_ok_def)
      have ys: "distinct ?ys" "set ?ys = insert x (set (kids rs b))"
        by (rule list_before_distinct [OF d]) (use xm in_members(2) [OF rule(2)] in blast, rule list_before_set [OF rule(3)])
      from place_rule [OF inv sp c rule(2) v k ys, of "list_before y x"] obtain r2 where r2:
        "apn_insert_rule_common q x i rs = Some (0, r2)" "ruleset_inv r2" "members r2 = insert x (members rs)"
        "\<forall>a\<in>members rs. rule_id r2 a = rule_id rs a" "layout r2 = (layout rs)(q := map (\<lambda>(c, xs). (c, if c = b then ?ys else xs)) (layout rs q))"
        using i m val v bl(1) rule(1) w(1) w' nd by (auto simp: apn_insert_rule_common_def)
      have nb: "\<not> ?P b" using P in_members(1) [OF rule(2)] kid_unique(2) [OF inv rule(2,2,3), of q] rule(2) by auto
      have "put_rule ?P x (layout rs q) = Some (map (\<lambda>(c, zs). (c, if c = b then ?ys else zs)) (layout rs q))"
      proof (rule put_rule_at)
        show "(b, kids rs b) \<in> set (layout rs q)" using rule(2) by (simp add: in_layout)
        show "distinct (map fst (layout rs q))" using inv_distinct [OF inv] by (simp add: layout_fst)
        show "put_before ?P x (kids rs b) = (if ?P b then None else Some ?ys)"
          using put_before_list [OF rule(3), of ?P x] P in_members(2) [OF rule(2)] nb by simp
        show "\<not> ?P c \<and> (\<forall>z\<in>set zs. \<not> ?P z)" if "(c, zs) \<in> set (layout rs q)" "c \<noteq> b" for c zs
          using that P kid_unique [OF inv rule(2) _ rule(3), of c q] in_members [of c rs q] by (auto simp: in_layout)
      qed (use nb in simp)
      then show ?thesis using r2 rl by simp
    next
      case block
      have P: "?P a \<longleftrightarrow> a = b" if "a \<in> members rs" for a using owner_unique [OF inv block(4)] that by blast
      have d: "distinct (kids rs b)" using inv_block [OF inv block(3)] by (simp add: block_ok_def chain_ok_def)
      have ys: "distinct (x # kids rs b)" "set (x # kids rs b) = insert x (set (kids rs b))"
        using d xm in_members(2) [OF block(3)] by auto
      from place_rule [OF inv sp c block(3) v k ys, of "\<lambda>xs. x # xs"] obtain r2 where r2:
        "apn_insert_rule_common q x i rs = Some (0, r2)" "ruleset_inv r2" "members r2 = insert x (members rs)"
        "\<forall>a\<in>members rs. rule_id r2 a = rule_id rs a" "layout r2 = (layout rs)(q := map (\<lambda>(c, xs). (c, if c = b then x # kids rs b else xs)) (layout rs q))"
        using i m val v bl(1) an(1) block(1,2) by (auto simp: apn_insert_rule_common_def insert_head_def)
      have nk: "put_before ?P x (kids rs c) = None" if "c \<in> set (rs_queue rs q)" for c
        using that bl(2) block(1) by (simp add: put_before_None)
      have "put_rule ?P x (layout rs q) = Some (map (\<lambda>(c, zs). (c, if c = b then x # kids rs b else zs)) (layout rs q))"
      proof (rule put_rule_at)
        show "(b, kids rs b) \<in> set (layout rs q)" using block(3) by (simp add: in_layout)
        show "distinct (map fst (layout rs q))" using inv_distinct [OF inv] by (simp add: layout_fst)
        show "put_before ?P x (kids rs b) = (if ?P b then None else Some (x # kids rs b))"
          using nk [OF block(3)] P in_members(1) [OF block(3)] by simp
        show "\<not> ?P c \<and> (\<forall>z\<in>set zs. \<not> ?P z)" if "(c, zs) \<in> set (layout rs q)" "c \<noteq> b" for c zs
          using that P nk [of c] in_members(1) [of c rs q] by (auto simp: in_layout put_before_None)
      qed simp
      then show ?thesis using r2 rl by simp
    next
      case none
      have "apn_insert_rule_common q x i rs = Some (1, rs)"
        using i m val v bl(1) an(1) none by (simp add: apn_insert_rule_common_def)
      moreover have "put_rule ?P x (layout rs q) = None" using bl(2) an(2) none by (auto simp: put_rule_None in_layout)
      ultimately show ?thesis using rl inv by simp
    qed
  qed
qed

end
