(* ===== verification/ApnRemove.thy ===== *)
theory ApnRemove
  imports ApnEdit
begin

text \<open>
  Removing rules and blocks, the removal of expired rules and the moves up and down.
\<close>

subsection \<open>Freeing\<close>

text \<open>The rules of the set are gone, everything else is as before.\<close>

definition freed :: "nat set \<Rightarrow> ruleset \<Rightarrow> ruleset \<Rightarrow> bool" where
  "freed X rs rs' \<longleftrightarrow> rs_queue rs' = rs_queue rs \<and> rs_node rs' = (\<lambda>a. if a \<in> X then None else rs_node rs a) \<and>
     rs_next rs' = rs_next rs \<and> rule_id rs' = rule_id rs \<and> rs_maxid rs' = rs_maxid rs"

lemma release_ok:
  assumes i: "indexed rs A" and a: "a \<in> A"
  shows "\<exists>rs'. release True a rs = Some rs' \<and> indexed rs' (A - {a}) \<and> freed {a} rs rs'"
proof -
  have s: "rb_set (rs_ids rs) A" using i by (simp add: indexed_def)
  have "rb_root (rs_ids rs) \<noteq> None" using rb_set_root [OF s] a by auto
  moreover obtain s' where "rb_remove_entry a (rs_ids rs) = Some s'" "rb_set s' (A - {a})" "frame A (rs_ids rs) s'" using rb_remove_set [OF s a] by blast
  ultimately show ?thesis using i by (auto simp: release_def indexed_def freed_def frame_def rule_id_def fun_eq_iff)
qed

lemma free_leaf: "rs_node rs a = Some n \<Longrightarrow> n_rule n = Body y \<Longrightarrow> free_rules True (a # as) rs = release True a rs \<bind> free_rules True as"
  by (subst free_rules.simps) simp

lemma free_empty: "rs_node rs a = Some n \<Longrightarrow> n_rule n = Chain t [] \<Longrightarrow> free_rules True (a # as) rs = release True a rs \<bind> free_rules True as"
  by (subst free_rules.simps) simp

lemma free_head: "rs_node rs a = Some n \<Longrightarrow> n_rule n = Chain t (x # xs) \<Longrightarrow>
    free_rules True (a # as) rs = free_rules True (x # a # as) (set_node a (\<lambda>n. n\<lparr>n_rule := Chain t xs\<rparr>) rs)"
  by (subst free_rules.simps) simp

lemma free_done: "free_rules w [] rs = Some rs" by (subst free_rules.simps) simp

lemma free_rule_ok:
  assumes "indexed rs A" "a \<in> A" "rs_node rs a = Some n" "n_rule n = Body y"
  shows "\<exists>rs'. apn_free_one_rule True a rs = Some rs' \<and> indexed rs' (A - {a}) \<and> freed {a} rs rs'"
  using release_ok [OF assms(1,2)] assms(3,4) by (auto simp: apn_free_one_rule_def free_leaf free_done)

lemma free_block_ok:
  assumes "indexed rs A" "b \<in> A" "set xs \<subseteq> A" "distinct (b # xs)" "rs_node rs b = Some n" "n_rule n = Chain t xs"
    "\<forall>x\<in>set xs. \<exists>m y. rs_node rs x = Some m \<and> n_rule m = Body y"
  shows "\<exists>rs'. apn_free_one_rule True b rs = Some rs' \<and> indexed rs' (A - insert b (set xs)) \<and> freed (insert b (set xs)) rs rs'"
  using assms
proof (induction xs arbitrary: rs A n)
  case Nil
  then show ?case using release_ok [of rs A b] by (auto simp: apn_free_one_rule_def free_empty free_done)
next
  case (Cons x xs)
  let ?r = "set_node b (\<lambda>n. n\<lparr>n_rule := Chain t xs\<rparr>) rs"
  have i: "indexed ?r A" using Cons.prems(1) indexed_cong [of ?r rs] by simp
  obtain m y where x: "rs_node rs x = Some m" "n_rule m = Body y" "x \<noteq> b" using Cons.prems(4,7) by auto
  obtain r1 where r1: "release True x ?r = Some r1" "indexed r1 (A - {x})" "freed {x} ?r r1" using release_ok [OF i] Cons.prems(3) by auto
  have nd: "rs_node r1 b = Some (n\<lparr>n_rule := Chain t xs\<rparr>)" "\<And>z. z \<noteq> x \<Longrightarrow> z \<noteq> b \<Longrightarrow> rs_node r1 z = rs_node rs z"
    using r1(3) Cons.prems(5) x(3) by (auto simp: freed_def)
  have ks: "\<forall>z\<in>set xs. \<exists>m y. rs_node r1 z = Some m \<and> n_rule m = Body y" 
  proof
    fix z assume z: "z \<in> set xs"
    then have "rs_node r1 z = rs_node rs z" using Cons.prems(4) by (intro nd(2)) auto
    then show "\<exists>m y. rs_node r1 z = Some m \<and> n_rule m = Body y" using Cons.prems(7) z by simp
  qed
  have "\<exists>r2. apn_free_one_rule True b r1 = Some r2 \<and> indexed r2 (A - {x} - insert b (set xs)) \<and> freed (insert b (set xs)) r1 r2"
    by (rule Cons.IH [OF r1(2) _ _ _ nd(1) _ ks]) (use Cons.prems(2,3,4) x(3) in auto)
  then obtain r2 where r2: "apn_free_one_rule True b r1 = Some r2" "indexed r2 (A - {x} - insert b (set xs))" "freed (insert b (set xs)) r1 r2" by blast
  have "apn_free_one_rule True b rs = Some r2" using r1(1) r2(1) x Cons.prems(5,6) by (simp add: apn_free_one_rule_def free_head free_leaf)
  moreover have "A - {x} - insert b (set xs) = A - insert b (set (x # xs))" by auto
  moreover have "freed (insert b (set (x # xs))) rs r2" using r1(3) r2(3) by (auto simp: freed_def fun_eq_iff)
  ultimately show ?case using r2(2) by metis
qed

subsection \<open>Removing\<close>

text \<open>The layout without the rules and blocks that have the property.\<close>

definition drop_rules :: "(nat \<Rightarrow> bool) \<Rightarrow> (nat \<times> nat list) list \<Rightarrow> (nat \<times> nat list) list" where
  "drop_rules P L = map (\<lambda>(b, xs). (b, filter (\<lambda>x. \<not> P x) xs)) (filter (\<lambda>(b, xs). \<not> P b) L)"

lemma drop_rules_none: "(\<And>b xs. (b, xs) \<in> set L \<Longrightarrow> \<not> P b \<and> (\<forall>x\<in>set xs. \<not> P x)) \<Longrightarrow> drop_rules P L = L"
  by (induction L) (force simp: drop_rules_def)+

definition scope_of :: "ruleset \<Rightarrow> nat \<Rightarrow> apn_scope option" where
  "scope_of rs a = Option.bind (rs_node rs a) n_scope"

lemma remove_kid:
  assumes inv: "ruleset_inv rs" and b: "b \<in> set (rs_queue rs t)" and x: "x \<in> set (kids rs b)"
  shows "\<exists>r2. apn_free_one_rule True x (set_chain (Chain_of b) (remove1 x) rs) = Some r2 \<and> ruleset_inv r2 \<and>
    members r2 = members rs - {x} \<and> rule_id r2 = rule_id rs \<and> rs_maxid r2 = rs_maxid rs \<and> rs_queue r2 = rs_queue rs \<and>
    (\<forall>a. a \<noteq> x \<longrightarrow> scope_of r2 a = scope_of rs a) \<and>
    layout r2 = (\<lambda>u. map (\<lambda>(c, xs). (c, if c = b then remove1 x (kids rs b) else xs)) (layout rs u))"
proof -
  let ?ys = "remove1 x (kids rs b)" and ?r1 = "set_chain (Chain_of b) (remove1 x) rs"
  obtain n where n: "rs_node rs b = Some n" "n_rule n = Chain t (kids rs b)" "n_pchain n = Some (Queue t)" using block_node [OF inv b] by blast
  obtain m y where m: "rs_node rs x = Some m" "n_rule m = Body y" "n_pchain m = Some (Chain_of b)" using kid_node [OF inv b x] by blast
  have xb: "x \<noteq> b" using m n by auto
  have xm: "x \<in> members rs" using in_members(2) [OF b x] .
  have i: "indexed ?r1 (members rs)" using inv_indexed [OF inv] indexed_cong [of ?r1 rs] by simp
  have m1: "rs_node ?r1 x = Some m" using m xb by (simp add: node_set_chain)
  obtain r2 where r2: "apn_free_one_rule True x ?r1 = Some r2" "indexed r2 (members rs - {x})" "freed {x} ?r1 r2"
    using free_rule_ok [OF i xm m1 m(2)] by blast
  have q: "rs_queue r2 = rs_queue rs" using r2(3) by (simp add: freed_def)
  have nd: "rs_node r2 a = (if a = x then None else if a = b then Some (n\<lparr>n_rule := Chain t ?ys\<rparr>) else rs_node rs a)" for a
    using r2(3) n by (auto simp: freed_def node_set_chain map_chain_def)
  have d: "distinct (kids rs b)" using inv_block [OF inv b] by (simp add: block_ok_def chain_ok_def)
  have e: "\<exists>n. rs_node r2 b = Some n \<and> n_rule n = Chain t ?ys \<and> n_pchain n = Some (Queue t)" using xb n by (simp add: nd)
  have nb: "b \<notin> set (kids rs b)" using kid_node [OF inv b, of b] n by auto
  have k: "\<exists>n y. rs_node r2 a = Some n \<and> n_rule n = Body y \<and> n_pchain n = Some (Chain_of b)" if "a \<in> set ?ys" for a
    using that d kid_node [OF inv b, of a] nb by (auto simp: nd)
  have s: "rs_node r2 a = rs_node rs a" if "a \<in> members rs" "a \<noteq> b" "a \<notin> set (kids rs b)" for a using that x by (auto simp: nd)
  have me: "members rs - set (kids rs b) \<union> set ?ys = members rs - {x}" using d x in_members(2) [OF b] by auto
  have al: "a < rs_next r2" if "rs_node r2 a = Some l" for a l
    using that inv_alloc [OF inv] n r2(3) by (auto simp: nd freed_def split: if_splits)
  have id: "indexed r2 (members rs - set (kids rs b) \<union> set ?ys)" using r2(2) by (simp add: me)
  have "distinct ?ys" using d by simp
  note cc = change_chain [OF inv b q e this k s id al]
  show ?thesis using r2(1) cc unfolding me by (intro exI [of _ r2] conjI) (use r2(3) nd n q in \<open>auto simp: freed_def scope_of_def\<close>)
qed

lemma remove_block:
  assumes inv: "ruleset_inv rs" and b: "b \<in> set (rs_queue rs t)"
  shows "\<exists>r2. apn_free_one_rule True b (set_chain (Queue t) (remove1 b) rs) = Some r2 \<and> ruleset_inv r2 \<and>
    members r2 = members rs - insert b (set (kids rs b)) \<and> rule_id r2 = rule_id rs \<and> rs_maxid r2 = rs_maxid rs \<and>
    layout r2 = (layout rs)(t := filter (\<lambda>(c, xs). c \<noteq> b) (layout rs t))"
proof -
  let ?r1 = "set_chain (Queue t) (remove1 b) rs" and ?X = "insert b (set (kids rs b))"
  obtain n where n: "rs_node rs b = Some n" "n_rule n = Chain t (kids rs b)" "n_pchain n = Some (Queue t)" using block_node [OF inv b] by blast
  have i: "indexed ?r1 (members rs)" using inv_indexed [OF inv] indexed_cong [of ?r1 rs] by simp
  have nb: "b \<notin> set (kids rs b)" using kid_node [OF inv b, of b] n by auto
  have d: "distinct (b # kids rs b)" using inv_block [OF inv b] nb by (simp add: block_ok_def chain_ok_def)
  have n1: "rs_node ?r1 b = Some n" using n by simp
  have ks: "\<forall>x\<in>set (kids rs b). \<exists>m y. rs_node ?r1 x = Some m \<and> n_rule m = Body y" using kid_node [OF inv b] by fastforce
  obtain r2 where r2: "apn_free_one_rule True b ?r1 = Some r2" "indexed r2 (members rs - ?X)" "freed ?X ?r1 r2"
    using free_block_ok [OF i in_members(1) [OF b] _ d n1 n(2) ks] in_members(2) [OF b] by blast
  have q: "rs_queue r2 = (rs_queue rs)(t := filter (\<lambda>c. c \<noteq> b) (rs_queue rs t))"
    using r2(3) distinct_remove1_removeAll [OF inv_distinct [OF inv, of t], of b] by (simp add: freed_def removeAll_filter_not_eq eq_commute)
  have qs: "c \<in> set (rs_queue r2 u) \<longleftrightarrow> c \<in> set (rs_queue rs u) \<and> c \<noteq> b" for c u using queue_unique [OF inv b, of u] by (auto simp: q)
  have old: "rs_node r2 x = rs_node rs x" if "c \<in> set (rs_queue rs u)" "c \<noteq> b" "x = c \<or> x \<in> set (kids rs c)" for c u x
  proof -
    have "x \<notin> ?X" using that kid_unique [OF inv b that(1), of x] block_node [OF inv b] kid_node [OF inv that(1), of x] kid_unique(2) [OF inv b that(1), of x u] by auto
    then show ?thesis using r2(3) by (simp add: freed_def)
  qed
  have k: "kids r2 c = kids rs c" if "c \<in> set (rs_queue rs u)" "c \<noteq> b" for c u
    by (rule kids_cong) (rule old [OF that], simp)
  have "x \<notin> ?X" if "c \<in> set (rs_queue rs u)" "c \<noteq> b" "x = c \<or> x \<in> set (kids rs c)" for c u x
    using that kid_unique [OF inv b that(1), of x] block_node [OF inv b] kid_node [OF inv that(1), of x] kid_unique(2) [OF inv b that(1), of x u] by auto
  then have m: "members r2 = members rs - ?X" using k by (fastforce simp: members_def blocks_def qs)
  have L: "layout r2 = (layout rs)(t := filter (\<lambda>(c, xs). c \<noteq> b) (layout rs t))"
  proof
    fix u
    show "layout r2 u = ((layout rs)(t := filter (\<lambda>(c, xs). c \<noteq> b) (layout rs t))) u"
      using k [of _ u] queue_unique [OF inv b, of u] by (auto simp: layout_def q filter_map comp_def)
  qed
  have "ruleset_inv r2"
  proof (rule ruleset_invI)
    show "distinct (rs_queue r2 u)" for u using inv_distinct [OF inv] by (simp add: q)
    show "indexed r2 (members r2)" using r2(2) by (simp add: m)
    show "x < rs_next r2" if "rs_node r2 x = Some l" for x l using that inv_alloc [OF inv] r2(3) by (auto simp: freed_def split: if_splits)
    show "block_ok r2 u c" if "c \<in> set (rs_queue r2 u)" for u c
    proof -
      from that have c: "c \<in> set (rs_queue rs u)" "c \<noteq> b" by (auto simp: qs)
      then show ?thesis using inv_block [OF inv c(1)] old [OF c] k [OF c] by (simp add: block_ok_def chain_ok_def)
    qed
  qed
  then show ?thesis using r2(1,3) m L by (simp add: freed_def)
qed

lemma drop_kid:
  assumes inv: "ruleset_inv rs" and b: "b \<in> set (rs_queue rs t)" and x: "x \<in> set (kids rs b)" and P: "\<And>a. a \<in> members rs \<Longrightarrow> P a \<longleftrightarrow> a = x"
  shows "map (\<lambda>(c, xs). (c, if c = b then remove1 x (kids rs b) else xs)) (layout rs u) = drop_rules P (layout rs u)"
proof -
  have d: "distinct (kids rs b)" using inv_block [OF inv b] by (simp add: block_ok_def chain_ok_def)
  have f: "filter (\<lambda>(c, xs). \<not> P c) (layout rs u) = layout rs u"
    using P in_members(1) kid_unique(2) [OF inv b b x, of u] by (intro filter_True) (auto simp: in_layout)
  have r: "remove1 x (kids rs b) = filter (\<lambda>y. \<not> P y) (kids rs b)"
    using P in_members(2) [OF b] distinct_remove1_removeAll [OF d, of x] by (auto simp: removeAll_filter_not_eq eq_commute intro: filter_cong)
  have o: "filter (\<lambda>y. \<not> P y) (kids rs c) = kids rs c" if "c \<in> set (rs_queue rs u)" "c \<noteq> b" for c
    using P in_members(2) [OF that(1)] kid_unique(1) [OF inv b that(1) x] that(2) by (intro filter_True) auto
  show ?thesis using o r by (auto simp: drop_rules_def f in_layout)
qed

lemma drop_block:
  assumes inv: "ruleset_inv rs" and b: "b \<in> set (rs_queue rs t)" and P: "\<And>a. a \<in> members rs \<Longrightarrow> P a \<longleftrightarrow> a = b"
  shows "((layout rs)(t := filter (\<lambda>(c, xs). c \<noteq> b) (layout rs t))) u = drop_rules P (layout rs u)"
proof -
  have o: "filter (\<lambda>y. \<not> P y) (kids rs c) = kids rs c" if "c \<in> set (rs_queue rs u)" for c
    using P in_members(2) [OF that] kid_unique(2) [OF inv that that, of b t] b by (intro filter_True) auto
  have f: "filter (\<lambda>(c, xs). \<not> P c) (layout rs u) = filter (\<lambda>(c, xs). c \<noteq> b) (layout rs u)"
    using P in_members(1) by (intro filter_cong) (auto simp: in_layout)
  have "u \<noteq> t \<Longrightarrow> filter (\<lambda>(c, xs). c \<noteq> b) (layout rs u) = layout rs u"
    using queue_unique [OF inv b, of u] by (intro filter_True) (auto simp: in_layout)
  moreover have "drop_rules P (layout rs u) = filter (\<lambda>(c, xs). c \<noteq> b) (layout rs u)"
    unfolding drop_rules_def f using o by (intro map_idI) (auto simp: in_layout)
  ultimately show ?thesis by auto
qed

lemma remove_ok:
  assumes inv: "ruleset_inv rs"
  shows "\<exists>r r2. apn_remove i rs = Some (r, r2) \<and> ruleset_inv r2 \<and> rule_id r2 = rule_id rs \<and>
    (if i = 0 \<or> rs_maxid rs = UINT_MAX then r = 1 \<and> r2 = rs
     else if \<forall>a\<in>members rs. rule_id rs a \<noteq> ucast i then r = 2 \<and> r2 = rs
     else if \<exists>b\<in>set (rs_queue rs APN_SFS). rule_id rs b = ucast i then r = -1 \<and> r2 = rs
     else r = 0 \<and> layout r2 = (\<lambda>t. drop_rules (\<lambda>a. rule_id rs a = ucast i) (layout rs t)))"
proof (cases "i = 0 \<or> rs_maxid rs = UINT_MAX")
  case True
  have "i < 1 \<longleftrightarrow> i = 0" by (metis word_gt_0 word_less_1 less_irrefl)
  then show ?thesis using True inv by (auto simp: apn_remove_def)
next
  case False
  have i: "\<not> (i < 1 \<or> rs_maxid rs = UINT_MAX)" using False by auto
  obtain x where x: "apn_find_rule rs i = Some x" "owner rs i x" using find_rule_ok [OF inv] by blast
  show ?thesis
  proof (cases x)
    case None
    then show ?thesis using x False i inv by (auto simp: apn_remove_def owner_def)
  next
    case (Some a)
    have m: "a \<in> members rs" "rule_id rs a = ucast i" using x(2) Some by (auto simp: owner_def)
    have P: "rule_id rs c = ucast i \<longleftrightarrow> c = a" if "c \<in> members rs" for c using owner_unique [OF inv, of i a c] x(2) Some that by simp
    from member_node [OF inv m(1)] obtain n where n: "rs_node rs a = Some n" by blast
    have ex: "\<not> (\<forall>a\<in>members rs. rule_id rs a \<noteq> ucast i)" using m by auto
    have sfs: "(\<exists>b\<in>set (rs_queue rs APN_SFS). rule_id rs b = ucast i) \<longleftrightarrow> n_pchain n = Some (Queue APN_SFS)"
      using member_queue [OF inv m(1) n, of APN_SFS] P in_members(1) [of _ rs APN_SFS] m(2) by auto
    from member_pchain [OF inv m(1) n] show ?thesis
    proof (elim disjE exE conjE)
      fix t assume t: "n_pchain n = Some (Queue t)" "a \<in> set (rs_queue rs t)"
      obtain r2 where r2: "apn_free_one_rule True a (set_chain (Queue t) (remove1 a) rs) = Some r2" "ruleset_inv r2" "rule_id r2 = rule_id rs"
        "layout r2 = (layout rs)(t := filter (\<lambda>(c, xs). c \<noteq> a) (layout rs t))" using remove_block [OF inv t(2)] by blast
      have "layout r2 = (\<lambda>t. drop_rules (\<lambda>a. rule_id rs a = ucast i) (layout rs t))"
        unfolding r2(4) using drop_block [OF inv t(2) P] by blast
      moreover have "apn_remove i rs = (if t = APN_SFS then Some (-1, rs) else Some (0, r2))"
        using i x(1) Some n t(1) r2(1) by (simp add: apn_remove_def)
      ultimately show ?thesis using False ex sfs t(1) r2 inv by auto
    next
      fix t b assume t: "n_pchain n = Some (Chain_of b)" "b \<in> set (rs_queue rs t)" "a \<in> set (kids rs b)"
      obtain r2 where r2: "apn_free_one_rule True a (set_chain (Chain_of b) (remove1 a) rs) = Some r2" "ruleset_inv r2" "rule_id r2 = rule_id rs"
        "layout r2 = (\<lambda>u. map (\<lambda>(c, xs). (c, if c = b then remove1 a (kids rs b) else xs)) (layout rs u))" using remove_kid [OF inv t(2,3)] by blast
      have "layout r2 = (\<lambda>t. drop_rules (\<lambda>a. rule_id rs a = ucast i) (layout rs t))"
        unfolding r2(4) using drop_kid [OF inv t(2,3) P] by blast
      moreover have "apn_remove i rs = Some (0, r2)" using i x(1) Some n t(1) r2(1) by (simp add: apn_remove_def)
      ultimately show ?thesis using False ex sfs t(1) r2 inv by auto
    qed
  qed
qed

end
