(* ===== verification/ApnClean.thy ===== *)
theory ApnClean
  imports ApnRemove
begin

text \<open>
  The removal of the rules whose scope has expired (\<^verbatim>\<open>apn_clean_ruleset\<close>) and the moves of rules and blocks inside of
  their chains (\<^verbatim>\<open>apn_move_up\<close>, \<^verbatim>\<open>apn_move_down\<close>).
\<close>

subsection \<open>Expired rules\<close>

definition expired :: "(apn_scope \<Rightarrow> bool) \<Rightarrow> ruleset \<Rightarrow> nat \<Rightarrow> bool" where
  "expired check rs x \<longleftrightarrow> (case scope_of rs x of None \<Rightarrow> False | Some sc \<Rightarrow> check sc)"

definition cleaned :: "nat set \<Rightarrow> ruleset \<Rightarrow> ruleset \<Rightarrow> bool" where
  "cleaned X rs r2 \<longleftrightarrow> ruleset_inv r2 \<and> rule_id r2 = rule_id rs \<and> rs_queue r2 = rs_queue rs \<and> members r2 = members rs - X \<and>
     (\<forall>a\<in>members r2. scope_of r2 a = scope_of rs a) \<and> (\<forall>b\<in>blocks rs. kids r2 b = filter (\<lambda>x. x \<notin> X) (kids rs b))"

lemma cleaned_refl: "ruleset_inv rs \<Longrightarrow> cleaned {} rs rs" by (simp add: cleaned_def)

lemma cleaned_trans: "cleaned X rs r1 \<Longrightarrow> cleaned Y r1 r2 \<Longrightarrow> cleaned (X \<union> Y) rs r2"
  by (auto simp: cleaned_def blocks_def intro!: filter_cong)

lemma cleaned_expired: "cleaned X rs r1 \<Longrightarrow> x \<in> members rs \<Longrightarrow> x \<notin> X \<Longrightarrow> expired check r1 x = expired check rs x"
  by (simp add: cleaned_def expired_def)

lemma cleaned_kids: "cleaned X rs r1 \<Longrightarrow> b \<in> set (rs_queue rs t) \<Longrightarrow> kids r1 b = filter (\<lambda>x. x \<notin> X) (kids rs b)"
  by (auto simp: cleaned_def blocks_def)

lemma cleaned_kid:
  assumes inv: "ruleset_inv rs" and b: "b \<in> set (rs_queue rs t)" and x: "x \<in> set (kids rs b)"
  shows "\<exists>r2. apn_free_one_rule True x (set_chain (Chain_of b) (remove1 x) rs) = Some r2 \<and> cleaned {x} rs r2"
proof -
  obtain r2 where r2: "apn_free_one_rule True x (set_chain (Chain_of b) (remove1 x) rs) = Some r2" "ruleset_inv r2"
    "members r2 = members rs - {x}" "rule_id r2 = rule_id rs" "rs_queue r2 = rs_queue rs" "\<forall>a. a \<noteq> x \<longrightarrow> scope_of r2 a = scope_of rs a"
    "layout r2 = (\<lambda>u. map (\<lambda>(c, xs). (c, if c = b then remove1 x (kids rs b) else xs)) (layout rs u))"
    using remove_kid [OF assms] by blast
  have d: "distinct (kids rs b)" using inv_block [OF inv b] by (simp add: block_ok_def chain_ok_def)
  have k: "kids r2 c = filter (\<lambda>y. y \<notin> {x}) (kids rs c)" if c: "c \<in> set (rs_queue rs u)" for c u
  proof -
    have "(c, kids r2 c) \<in> set (layout r2 u)" using c by (simp add: in_layout r2(5))
    then have "kids r2 c = (if c = b then remove1 x (kids rs b) else kids rs c)" unfolding r2(7) by (auto simp: in_layout split: if_splits)
    moreover have "filter (\<lambda>y. y \<notin> {x}) (kids rs c) = kids rs c" if "c \<noteq> b"
      using kid_unique(1) [OF inv b c x] that by (intro filter_True) auto
    ultimately show ?thesis using distinct_remove1_removeAll [OF d, of x] by (auto simp: removeAll_filter_not_eq eq_commute)
  qed
  then show ?thesis using r2 by (auto simp: cleaned_def blocks_def)
qed

lemma clean_loop_ok:
  assumes "ruleset_inv rs" "b \<in> set (rs_queue rs t)" "set as \<subseteq> set (kids rs b)" "distinct as"
  shows "\<exists>r2. clean_loop check b as rs = Some (card {x \<in> set as. expired check rs x}, r2) \<and> cleaned {x \<in> set as. expired check rs x} rs r2"
  using assms
proof (induction as arbitrary: rs)
  case Nil
  then show ?case by (simp add: cleaned_refl)
next
  case (Cons a as)
  let ?X = "{x \<in> set as. expired check rs x}"
  have a: "a \<in> set (kids rs b)" using Cons.prems(3) by simp
  obtain n where n: "rs_node rs a = Some n" using kid_node [OF Cons.prems(1,2) a] by blast
  have e: "expired check rs a \<longleftrightarrow> (case n_scope n of None \<Rightarrow> False | Some sc \<Rightarrow> check sc)" using n by (simp add: expired_def scope_of_def)
  show ?case
  proof (cases "expired check rs a")
    case True
    obtain r1 where r1: "apn_free_one_rule True a (set_chain (Chain_of b) (remove1 a) rs) = Some r1" "cleaned {a} rs r1"
      using cleaned_kid [OF Cons.prems(1,2) a] by blast
    have i1: "ruleset_inv r1" "b \<in> set (rs_queue r1 t)" "set as \<subseteq> set (kids r1 b)"
      using r1(2) cleaned_kids [OF r1(2) Cons.prems(2)] Cons.prems by (auto simp: cleaned_def)
    have ex: "expired check r1 x = expired check rs x" if "x \<in> set as" for x
      using cleaned_expired [OF r1(2)] in_members(2) [OF Cons.prems(2)] Cons.prems(3,4) that by auto
    then have X: "{x \<in> set as. expired check r1 x} = ?X" by auto
    obtain r2 where r2: "clean_loop check b as r1 = Some (card ?X, r2)" "cleaned ?X r1 r2" using Cons.IH [OF i1] Cons.prems(4) X by auto
    have Y: "{x \<in> set (a # as). expired check rs x} = insert a ?X" using True by auto
    have "card (insert a ?X) = card ?X + 1" using Cons.prems(4) by simp
    then show ?thesis using r1(1) r2 n e True cleaned_trans [OF r1(2) r2(2)] unfolding Y by simp
  next
    case False
    then have Y: "{x \<in> set (a # as). expired check rs x} = ?X" by auto
    have "\<exists>r2. clean_loop check b as rs = Some (card ?X, r2) \<and> cleaned ?X rs r2"
      using Cons.IH [OF Cons.prems(1,2)] Cons.prems(3,4) by simp
    then show ?thesis using n e False unfolding Y by simp
  qed
qed

definition expired_in :: "(apn_scope \<Rightarrow> bool) \<Rightarrow> ruleset \<Rightarrow> nat set \<Rightarrow> nat set" where
  "expired_in check rs B = {x. \<exists>b\<in>B. x \<in> set (kids rs b) \<and> expired check rs x}"

lemma expired_in_Un: "expired_in check rs (A \<union> B) = expired_in check rs A \<union> expired_in check rs B"
  by (auto simp: expired_in_def)

lemma expired_in_finite: "finite B \<Longrightarrow> finite (expired_in check rs B)"
  by (rule finite_subset [of _ "\<Union>b\<in>B. set (kids rs b)"]) (auto simp: expired_in_def)

text \<open>The expired rules of blocks that have not been cleaned yet.\<close>

lemma expired_in_rest:
  assumes inv: "ruleset_inv rs" and c: "cleaned (expired_in check rs A) rs r1" and A: "A \<subseteq> blocks rs" and B: "B \<subseteq> blocks rs" "A \<inter> B = {}"
  shows "expired_in check r1 B = expired_in check rs B" "expired_in check rs A \<inter> expired_in check rs B = {}"
proof -
  have d: "set (kids rs a) \<inter> set (kids rs b) = {}" if "a \<in> A" "b \<in> B" for a b
    using that A B kid_unique(1) [OF inv, of a _ b] by (fastforce simp: blocks_def)
  then show "expired_in check rs A \<inter> expired_in check rs B = {}" by (fastforce simp: expired_in_def)
  have nA: "x \<notin> expired_in check rs A" if "b \<in> B" "x \<in> set (kids rs b)" for b x using d that by (fastforce simp: expired_in_def)
  have k: "kids r1 b = kids rs b" if b: "b \<in> B" for b
  proof -
    from b B have "kids r1 b = filter (\<lambda>x. x \<notin> expired_in check rs A) (kids rs b)" using c by (auto simp: cleaned_def)
    then show ?thesis using nA [OF b] by (simp add: filter_True)
  qed
  have "expired check r1 x = expired check rs x" if "b \<in> B" "x \<in> set (kids rs b)" for b x
    using cleaned_expired [OF c _ nA [OF that]] that B(1) by (auto simp: members_def)
  then show "expired_in check r1 B = expired_in check rs B" using k by (auto simp: expired_in_def)
qed

lemma clean_rule_ok:
  assumes "ruleset_inv rs" "b \<in> set (rs_queue rs t)"
  shows "\<exists>r2. apn_clean_rule check b rs = Some (card (expired_in check rs {b}), r2) \<and> cleaned (expired_in check rs {b}) rs r2"
proof -
  have "distinct (kids rs b)" using inv_block [OF assms] by (simp add: block_ok_def chain_ok_def)
  then show ?thesis using clean_loop_ok [OF assms subset_refl, of check] block_node [OF assms]
    by (auto simp: apn_clean_rule_def expired_in_def)
qed

lemma clean_ruleq_ok:
  assumes "ruleset_inv rs" "set bs \<subseteq> blocks rs" "distinct bs"
  shows "\<exists>r2. apn_clean_ruleq check bs rs = Some (card (expired_in check rs (set bs)), r2) \<and> cleaned (expired_in check rs (set bs)) rs r2"
  using assms
proof (induction bs arbitrary: rs)
  case Nil
  then show ?case by (simp add: expired_in_def cleaned_refl)
next
  case (Cons b bs)
  from Cons.prems(2) obtain t where "b \<in> set (rs_queue rs t)" by (auto simp: blocks_def)
  from clean_rule_ok [OF Cons.prems(1) this] obtain r1 where r1: "apn_clean_rule check b rs = Some (card (expired_in check rs {b}), r1)"
    "cleaned (expired_in check rs {b}) rs r1" by blast
  have B: "{b} \<subseteq> blocks rs" "set bs \<subseteq> blocks rs" "{b} \<inter> set bs = {}" using Cons.prems by auto
  note r = expired_in_rest [OF Cons.prems(1) r1(2) B]
  have "ruleset_inv r1" "set bs \<subseteq> blocks r1" using r1(2) B(2) by (auto simp: cleaned_def blocks_def)
  from Cons.IH [OF this] Cons.prems(3) obtain r2 where r2: "apn_clean_ruleq check bs r1 = Some (card (expired_in check rs (set bs)), r2)"
    "cleaned (expired_in check rs (set bs)) r1 r2" by (auto simp: r(1))
  have u: "expired_in check rs (set (b # bs)) = expired_in check rs {b} \<union> expired_in check rs (set bs)"
    using expired_in_Un [of check rs "{b}" "set bs"] by simp
  have "card (expired_in check rs (set (b # bs))) = card (expired_in check rs {b}) + card (expired_in check rs (set bs))"
    unfolding u by (rule card_Un_disjoint) (auto intro!: expired_in_finite simp: r(2))
  then show ?case using r1(1) r2(1) cleaned_trans [OF r1(2) r2(2)] unfolding u by simp
qed

text \<open>One queue after some queues have been cleaned.\<close>

lemma clean_next:
  assumes inv: "ruleset_inv rs" and c: "cleaned (expired_in check rs A) rs r1" and A: "A \<subseteq> blocks rs" "A \<inter> set (rs_queue rs t) = {}"
  shows "\<exists>r2. apn_clean_ruleq check (rs_queue r1 t) r1 = Some (card (expired_in check rs (set (rs_queue rs t))), r2) \<and>
    cleaned (expired_in check rs (A \<union> set (rs_queue rs t))) rs r2 \<and>
    card (expired_in check rs (A \<union> set (rs_queue rs t))) = card (expired_in check rs A) + card (expired_in check rs (set (rs_queue rs t)))"
proof -
  let ?B = "set (rs_queue rs t)"
  have B: "?B \<subseteq> blocks rs" by (auto simp: blocks_def)
  note r = expired_in_rest [OF inv c A(1) B A(2)]
  have q: "rs_queue r1 = rs_queue rs" and i1: "ruleset_inv r1" using c by (auto simp: cleaned_def)
  have "set (rs_queue r1 t) \<subseteq> blocks r1" by (auto simp: blocks_def)
  from clean_ruleq_ok [OF i1 this inv_distinct [OF i1], of check] obtain r2 where
    "apn_clean_ruleq check (rs_queue r1 t) r1 = Some (card (expired_in check rs ?B), r2)" "cleaned (expired_in check rs ?B) r1 r2"
    unfolding q r(1) by blast
  moreover have "A \<subseteq> members rs" using A(1) by (auto simp: members_def)
  then have "finite A" by (rule finite_subset [OF _ finite_members [OF inv]])
  ultimately show ?thesis using cleaned_trans [OF c] r(2) by (auto simp: expired_in_Un intro!: card_Un_disjoint expired_in_finite)
qed

lemma blocks_UN: "blocks rs = set (rs_queue rs APN_ALF) \<union> set (rs_queue rs APN_SFS) \<union> set (rs_queue rs APN_SB) \<union> set (rs_queue rs APN_CTX)"
proof -
  have "(UNIV :: block_type set) = {APN_ALF, APN_SFS, APN_SB, APN_CTX}" using block_type.exhaust by auto
  then have "blocks rs = (\<Union>t\<in>{APN_ALF, APN_SFS, APN_SB, APN_CTX}. set (rs_queue rs t))" by (simp add: blocks_def)
  then show ?thesis by auto
qed

lemma clean_ok:
  assumes inv: "ruleset_inv rs"
  shows "\<exists>r2. apn_clean_ruleset check rs = Some (card (expired_in check rs (blocks rs)), r2) \<and> ruleset_inv r2 \<and> rule_id r2 = rule_id rs \<and>
    layout r2 = (\<lambda>t. map (\<lambda>(b, xs). (b, filter (\<lambda>x. \<not> expired check rs x) xs)) (layout rs t))"
proof -
  let ?q = "\<lambda>t. set (rs_queue rs t)"
  have d: "?q t \<inter> ?q u = {}" if "t \<noteq> u" for t u using queue_unique [OF inv, of _ t u] that by auto
  have s: "?q t \<subseteq> blocks rs" for t by (auto simp: blocks_def)
  have "expired_in check rs {} = {}" by (simp add: expired_in_def)
  then have c0: "cleaned (expired_in check rs {}) rs rs" using cleaned_refl [OF inv] by simp
  obtain r1 where r1: "apn_clean_ruleq check (rs_queue rs APN_ALF) rs = Some (card (expired_in check rs (?q APN_ALF)), r1)"
    "cleaned (expired_in check rs (?q APN_ALF)) rs r1" using clean_next [OF inv c0, of APN_ALF] by auto
  obtain r2 where r2: "apn_clean_ruleq check (rs_queue r1 APN_SFS) r1 = Some (card (expired_in check rs (?q APN_SFS)), r2)"
    "cleaned (expired_in check rs (?q APN_ALF \<union> ?q APN_SFS)) rs r2"
    "card (expired_in check rs (?q APN_ALF \<union> ?q APN_SFS)) = card (expired_in check rs (?q APN_ALF)) + card (expired_in check rs (?q APN_SFS))"
    using clean_next [OF inv r1(2) s d, of APN_SFS] by auto
  have "(?q APN_ALF \<union> ?q APN_SFS) \<inter> ?q APN_SB = {}" "?q APN_ALF \<union> ?q APN_SFS \<subseteq> blocks rs" using d s by auto
  from clean_next [OF inv r2(2) this(2,1)] obtain r3 where
    r3: "apn_clean_ruleq check (rs_queue r2 APN_SB) r2 = Some (card (expired_in check rs (?q APN_SB)), r3)"
    "cleaned (expired_in check rs (?q APN_ALF \<union> ?q APN_SFS \<union> ?q APN_SB)) rs r3"
    "card (expired_in check rs (?q APN_ALF \<union> ?q APN_SFS \<union> ?q APN_SB)) = card (expired_in check rs (?q APN_ALF \<union> ?q APN_SFS)) + card (expired_in check rs (?q APN_SB))"
    by auto
  have "(?q APN_ALF \<union> ?q APN_SFS \<union> ?q APN_SB) \<inter> ?q APN_CTX = {}" "?q APN_ALF \<union> ?q APN_SFS \<union> ?q APN_SB \<subseteq> blocks rs" using d s by auto
  from clean_next [OF inv r3(2) this(2,1)] obtain r4 where
    r4: "apn_clean_ruleq check (rs_queue r3 APN_CTX) r3 = Some (card (expired_in check rs (?q APN_CTX)), r4)"
    "cleaned (expired_in check rs (blocks rs)) rs r4"
    "card (expired_in check rs (blocks rs)) = card (expired_in check rs (?q APN_ALF \<union> ?q APN_SFS \<union> ?q APN_SB)) + card (expired_in check rs (?q APN_CTX))"
    unfolding blocks_UN by auto
  have "apn_clean_ruleset check rs = Some (card (expired_in check rs (blocks rs)), r4)"
    using r1(1) r2(1,3) r3(1,3) r4(1,3) by (simp add: apn_clean_ruleset_def)
  moreover have "layout r4 t = map (\<lambda>(b, xs). (b, filter (\<lambda>x. \<not> expired check rs x) xs)) (layout rs t)" for t
  proof -
    have "kids r4 b = filter (\<lambda>x. \<not> expired check rs x) (kids rs b)" if "b \<in> ?q t" for b
      using cleaned_kids [OF r4(2) that] s [of t] that by (auto simp: expired_in_def intro!: filter_cong)
    then show ?thesis using r4(2) by (simp add: layout_def cleaned_def)
  qed
  ultimately show ?thesis using r4(2) by (auto simp: cleaned_def)
qed

end
