(* ===== verification/ApnMove.thy ===== *)
theory ApnMove
  imports ApnClean
begin

text \<open>
  The moves of rules and blocks inside of their chains, \<^verbatim>\<open>apn_move_up\<close> and \<^verbatim>\<open>apn_move_down\<close>, and the refinement theorem of
  all editing operations.
\<close>

subsection \<open>Neighbours in a list\<close>

fun swap_up :: "nat \<Rightarrow> nat list \<Rightarrow> nat list" where
  "swap_up a (x # y # zs) = (if y = a then y # x # zs else x # swap_up a (y # zs))"
| "swap_up a xs = xs"

fun swap_down :: "nat \<Rightarrow> nat list \<Rightarrow> nat list" where
  "swap_down a (x # y # zs) = (if x = a then y # x # zs else x # swap_down a (y # zs))"
| "swap_down a xs = xs"

lemma mset_swap_up [simp]: "mset (swap_up a xs) = mset xs" by (induction a xs rule: swap_up.induct) auto

lemma mset_swap_down [simp]: "mset (swap_down a xs) = mset xs" by (induction a xs rule: swap_down.induct) auto

lemma swap_perm [simp]: "set (swap_up a xs) = set xs" "distinct (swap_up a xs) = distinct xs"
  "set (swap_down a xs) = set xs" "distinct (swap_down a xs) = distinct xs"
  using mset_eq_setD [OF mset_swap_up] mset_eq_imp_distinct_iff [OF mset_swap_up]
    mset_eq_setD [OF mset_swap_down] mset_eq_imp_distinct_iff [OF mset_swap_down] by simp_all

lemma swap_up_absent: "a \<notin> set xs \<Longrightarrow> swap_up a xs = xs" by (induction a xs rule: swap_up.induct) auto

lemma swap_down_absent: "a \<notin> set xs \<Longrightarrow> swap_down a xs = xs" by (induction a xs rule: swap_down.induct) auto

lemma next_split: "distinct xs \<Longrightarrow> list_next a xs = Some b \<longleftrightarrow> (\<exists>us vs. xs = us @ a # b # vs)"
proof (induction a xs rule: list_next.induct)
  case (2 x z zs)
  show ?case
  proof (cases "z = x")
    case True
    then have "list_next x (z # zs) = Some b \<longleftrightarrow> (\<exists>vs. zs = b # vs)" by (cases zs) auto
    also have "\<dots> \<longleftrightarrow> (\<exists>us vs. z # zs = us @ x # b # vs)" (is "?l = ?r")
    proof
      assume ?r
      then obtain us vs where u: "z # zs = us @ x # b # vs" by blast
      then have "us = []" using 2(2) True by (cases us) auto
      then show ?l using u by simp
    qed (use True in fastforce)
    finally show ?thesis .
  next
    case False
    then have "list_next x (z # zs) = Some b \<longleftrightarrow> (\<exists>us vs. zs = us @ x # b # vs)" using 2 by simp
    also have "\<dots> \<longleftrightarrow> (\<exists>us vs. z # zs = us @ x # b # vs)" using False by (auto simp: Cons_eq_append_conv)
    finally show ?thesis .
  qed
qed simp

lemma prev_split: "distinct xs \<Longrightarrow> list_next a (rev xs) = Some b \<longleftrightarrow> (\<exists>us vs. xs = us @ b # a # vs)"
proof -
  assume "distinct xs"
  then have "list_next a (rev xs) = Some b \<longleftrightarrow> (\<exists>us vs. rev xs = us @ a # b # vs)" by (simp add: next_split)
  also have "\<dots> \<longleftrightarrow> (\<exists>us vs. xs = us @ b # a # vs)"
    by (metis append.assoc append_Cons append_Nil rev.simps(2) rev_append rev_rev_ident)
  finally show ?thesis .
qed

lemma before_split: "b \<notin> set us \<Longrightarrow> list_before b a (us @ b # vs) = us @ a # b # vs" by (induction us) auto

lemma after_split: "b \<notin> set us \<Longrightarrow> list_after b a (us @ b # vs) = us @ b # a # vs" by (induction us) auto

lemma swap_up_split: "a \<notin> set us \<Longrightarrow> a \<noteq> b \<Longrightarrow> swap_up a (us @ b # a # vs) = us @ a # b # vs"
proof (induction us)
  case (Cons x us)
  then show ?case by (cases us) auto
qed simp

lemma swap_down_split: "a \<notin> set us \<Longrightarrow> swap_down a (us @ a # b # vs) = us @ b # a # vs"
proof (induction us)
  case (Cons x us)
  then show ?case by (cases us) auto
qed simp

lemma move_up_list: "distinct xs \<Longrightarrow> list_next a (rev xs) = Some b \<Longrightarrow> list_before b a (remove1 a xs) = swap_up a xs"
  by (auto simp: prev_split swap_up_split before_split remove1_append)

lemma move_down_list: "distinct xs \<Longrightarrow> list_next a xs = Some b \<Longrightarrow> list_after b a (remove1 a xs) = swap_down a xs"
  by (auto simp: next_split swap_down_split after_split remove1_append)

subsection \<open>A chain in a new order\<close>

lemma permute_queue:
  assumes inv: "ruleset_inv rs" and f: "distinct (f (rs_queue rs t))" "set (f (rs_queue rs t)) = set (rs_queue rs t)"
  shows "ruleset_inv (set_chain (Queue t) f rs)" "layout (set_chain (Queue t) f rs) = (layout rs)(t := map (\<lambda>b. (b, kids rs b)) (f (rs_queue rs t)))"
proof -
  let ?r = "set_chain (Queue t) f rs"
  have b: "blocks ?r = blocks rs" using f(2) by (force simp: blocks_def split: if_splits)
  then have m: "members ?r = members rs" by (simp add: members_def)
  have "block_ok ?r = block_ok rs" by (simp add: block_ok_def chain_ok_def fun_eq_iff)
  moreover have "indexed ?r = indexed rs" using indexed_cong [of ?r rs] by (simp add: fun_eq_iff)
  ultimately show "ruleset_inv ?r" using inv f m by (auto simp: ruleset_inv_def)
  show "layout ?r = (layout rs)(t := map (\<lambda>b. (b, kids rs b)) (f (rs_queue rs t)))" by (auto simp: layout_def fun_eq_iff)
qed

lemma permute_kids:
  assumes inv: "ruleset_inv rs" and b: "b \<in> set (rs_queue rs t)" and f: "distinct (f (kids rs b))" "set (f (kids rs b)) = set (kids rs b)"
  shows "ruleset_inv (set_chain (Chain_of b) f rs)"
    "layout (set_chain (Chain_of b) f rs) = (\<lambda>u. map (\<lambda>(c, xs). (c, if c = b then f (kids rs b) else xs)) (layout rs u))"
proof -
  let ?r = "set_chain (Chain_of b) f rs"
  obtain n where n: "rs_node rs b = Some n" "n_rule n = Chain t (kids rs b)" "n_pchain n = Some (Queue t)" using block_node [OF inv b] by blast
  have nd: "rs_node ?r a = (if a = b then Some (n\<lparr>n_rule := Chain t (f (kids rs b))\<rparr>) else rs_node rs a)" for a
    using n by (simp add: node_set_chain map_chain_def)
  have e: "\<exists>n. rs_node ?r b = Some n \<and> n_rule n = Chain t (f (kids rs b)) \<and> n_pchain n = Some (Queue t)" using n by (simp add: nd)
  have nb: "b \<notin> set (kids rs b)" using kid_node [OF inv b, of b] n by auto
  have k: "\<exists>n y. rs_node ?r a = Some n \<and> n_rule n = Body y \<and> n_pchain n = Some (Chain_of b)" if "a \<in> set (f (kids rs b))" for a
    using that f(2) kid_node [OF inv b, of a] nb by (auto simp: nd)
  have s: "rs_node ?r a = rs_node rs a" if "a \<in> members rs" "a \<noteq> b" "a \<notin> set (kids rs b)" for a using that by (simp add: nd)
  have me: "members rs - set (kids rs b) \<union> set (f (kids rs b)) = members rs" using f(2) in_members(2) [OF b] by auto
  have i: "indexed ?r (members rs - set (kids rs b) \<union> set (f (kids rs b)))" unfolding me using inv_indexed [OF inv] indexed_cong [of ?r rs] by simp
  have al: "a < rs_next ?r" if "rs_node ?r a = Some l" for a l using that inv_alloc [OF inv] n by (auto simp: nd split: if_splits)
  have q: "rs_queue ?r = rs_queue rs" by simp
  note cc = change_chain [OF inv b q e f(1) k s i al]
  show "ruleset_inv ?r" "layout ?r = (\<lambda>u. map (\<lambda>(c, xs). (c, if c = b then f (kids rs b) else xs)) (layout rs u))"
    using cc(1,3) by simp_all
qed

text \<open>The function is applied to every chain. It changes only the chain that the rule is in.\<close>

definition move_layout :: "(nat list \<Rightarrow> nat list) \<Rightarrow> ruleset \<Rightarrow> block_type \<Rightarrow> (nat \<times> nat list) list" where
  "move_layout f rs t = map (\<lambda>b. (b, f (kids rs b))) (f (rs_queue rs t))"

lemma permute_chain:
  assumes inv: "ruleset_inv rs" and a: "a \<in> members rs" and n: "rs_node rs a = Some n" "n_pchain n = Some c"
    and f: "\<And>xs. distinct xs \<Longrightarrow> distinct (f xs)" "\<And>xs. set (f xs) = set xs" and id: "\<And>xs. a \<notin> set xs \<Longrightarrow> f xs = xs"
  shows "ruleset_inv (set_chain c f rs)" "layout (set_chain c f rs) = move_layout f rs"
proof -
  have "ruleset_inv (set_chain c f rs) \<and> layout (set_chain c f rs) = move_layout f rs"
    using member_pchain [OF inv a n(1)]
  proof (elim disjE exE conjE)
    fix t assume t: "n_pchain n = Some (Queue t)" "a \<in> set (rs_queue rs t)"
    have k: "f (kids rs b) = kids rs b" if "b \<in> set (rs_queue rs u)" for b u
      using kid_unique(2) [OF inv that that, of a t] t(2) by (intro id) auto
    have q: "f (rs_queue rs u) = rs_queue rs u" if "u \<noteq> t" for u using queue_unique [OF inv t(2), of u] that by (intro id) auto
    have "layout (set_chain (Queue t) f rs) u = move_layout f rs u" for u
      using permute_queue(2) [OF inv, of f t] f inv_distinct [OF inv] k [of _ u] q [of u] by (auto simp: move_layout_def layout_def)
    then show ?thesis using permute_queue(1) [OF inv, of f t] f inv_distinct [OF inv] n(2) t(1) by auto
  next
    fix t b assume t: "n_pchain n = Some (Chain_of b)" "b \<in> set (rs_queue rs t)" "a \<in> set (kids rs b)"
    have d: "distinct (kids rs b)" using inv_block [OF inv t(2)] by (simp add: block_ok_def chain_ok_def)
    have q: "f (rs_queue rs u) = rs_queue rs u" for u using kid_unique(2) [OF inv t(2,2,3)] by (intro id) auto
    have k: "f (kids rs c) = kids rs c" if "c \<in> set (rs_queue rs u)" "c \<noteq> b" for c u
      using kid_unique(1) [OF inv t(2) that(1) t(3)] that(2) by (intro id) auto
    have "layout (set_chain (Chain_of b) f rs) u = move_layout f rs u" for u
      using permute_kids(2) [OF inv t(2), of f] f d q k [of _ u] by (auto simp: move_layout_def layout_def)
    then show ?thesis using permute_kids(1) [OF inv t(2), of f] f d n(2) t(1) by auto
  qed
  then show "ruleset_inv (set_chain c f rs)" "layout (set_chain c f rs) = move_layout f rs" by auto
qed

lemma member_chain:
  assumes inv: "ruleset_inv rs" and a: "a \<in> members rs"
  obtains n c xs where "rs_node rs a = Some n" "n_pchain n = Some c" "get_chain rs c = Some xs" "a \<in> set xs" "distinct xs" "set xs \<subseteq> members rs"
proof -
  obtain n where n: "rs_node rs a = Some n" using member_node [OF assms] by blast
  have "\<exists>c xs. n_pchain n = Some c \<and> get_chain rs c = Some xs \<and> a \<in> set xs \<and> distinct xs \<and> set xs \<subseteq> members rs"
    using member_pchain [OF assms n]
  proof (elim disjE exE conjE)
    fix t assume t: "n_pchain n = Some (Queue t)" "a \<in> set (rs_queue rs t)"
    then show ?thesis using inv_distinct [OF inv, of t] in_members(1) [of _ rs t] by (auto simp: get_chain_def)
  next
    fix t b assume t: "n_pchain n = Some (Chain_of b)" "b \<in> set (rs_queue rs t)" "a \<in> set (kids rs b)"
    have d: "distinct (kids rs b)" using inv_block [OF inv t(2)] by (simp add: block_ok_def chain_ok_def)
    then show ?thesis using t block_chain [OF inv t(2)] in_members(2) [OF t(2)] by (auto simp: kids_def)
  qed
  then show ?thesis using that n by blast
qed

text \<open>The neighbour that a rule would be exchanged with.\<close>

definition chain_prev :: "ruleset \<Rightarrow> nat \<Rightarrow> ptr" where
  "chain_prev rs a = do { n \<leftarrow> rs_node rs a; c \<leftarrow> n_pchain n; xs \<leftarrow> get_chain rs c; list_next a (rev xs) }"

definition chain_next :: "ruleset \<Rightarrow> nat \<Rightarrow> ptr" where
  "chain_next rs a = do { n \<leftarrow> rs_node rs a; c \<leftarrow> n_pchain n; xs \<leftarrow> get_chain rs c; list_next a xs }"

definition default_block :: "ruleset \<Rightarrow> nat \<Rightarrow> bool" where
  "default_block rs a \<longleftrightarrow> a \<in> blocks rs \<and> map_option n_app (rs_node rs a) = Some []"

lemma pinned_block: "ruleset_inv rs \<Longrightarrow> a \<in> members rs \<Longrightarrow> rs_node rs a = Some n \<Longrightarrow> pinned n \<longleftrightarrow> default_block rs a"
proof -
  assume inv: "ruleset_inv rs" and a: "a \<in> members rs" and n: "rs_node rs a = Some n"
  have "(\<exists>t xs. n_rule n = Chain t xs) \<longleftrightarrow> a \<in> blocks rs"
    using a
  proof (cases rule: membersE)
    case (block t)
    then show ?thesis using block_node [OF inv block] n by (auto simp: blocks_def)
  next
    case (kid t b)
    then show ?thesis using kid_node [OF inv kid] kid_unique(2) [OF inv kid(1,1,2)] n by (auto simp: blocks_def)
  qed
  then show ?thesis using n by (auto simp: pinned_def default_block_def split: rule_part.splits)
qed

lemma set_chain_cong: "get_chain rs c = Some xs \<Longrightarrow> f xs = g xs \<Longrightarrow> set_chain c f rs = set_chain c g rs"
  by (auto simp: get_chain_def set_chain_def set_node_def map_chain_def fun_eq_iff split: chain_ref.splits option.splits rule_part.splits)

lemma move_up_ok:
  assumes inv: "ruleset_inv rs" and a: "a \<in> members rs"
  shows "\<exists>r r2. apn_move_up a rs = Some (r, r2) \<and> ruleset_inv r2 \<and> rule_id r2 = rule_id rs \<and>
    (if chain_prev rs a = None \<or> default_block rs a then r = -1 \<and> r2 = rs else r = 0 \<and> layout r2 = move_layout (swap_up a) rs)"
proof -
  obtain n c xs where n: "rs_node rs a = Some n" "n_pchain n = Some c" "get_chain rs c = Some xs" "a \<in> set xs" "distinct xs" "set xs \<subseteq> members rs"
    by (rule member_chain [OF assms])
  have p: "chain_prev rs a = list_next a (rev xs)" using n by (simp add: chain_prev_def)
  have can: "apn_can_move_up a rs = Some (list_next a (rev xs) \<noteq> None \<and> \<not> default_block rs a)"
    using n pinned_block [OF inv a n(1)] by (simp add: apn_can_move_up_def)
  show ?thesis
  proof (cases "list_next a (rev xs)")
    case None
    then have "apn_move_up a rs = Some (-1, rs)" using n(1-3) can by (simp add: apn_move_up_def)
    then show ?thesis using None p inv by simp
  next
    case (Some b)
    have e: "set_chain c (\<lambda>xs. list_before b a (remove1 a xs)) rs = set_chain c (swap_up a) rs"
      by (rule set_chain_cong [OF n(3)]) (rule move_up_list [OF n(5) Some])
    have "apn_move_up a rs = Some (if \<not> default_block rs a then (0, set_chain c (swap_up a) rs) else (-1, rs))"
      using n(1-3) can Some e by (simp add: apn_move_up_def)
    moreover have "ruleset_inv (set_chain c (swap_up a) rs)" "layout (set_chain c (swap_up a) rs) = move_layout (swap_up a) rs"
      using permute_chain [OF inv a n(1,2), of "swap_up a"] swap_up_absent by simp_all
    ultimately show ?thesis using p Some inv by (cases "default_block rs a") simp_all
  qed
qed

lemma move_down_ok:
  assumes inv: "ruleset_inv rs" and a: "a \<in> members rs"
  shows "\<exists>r r2. apn_move_down a rs = Some (r, r2) \<and> ruleset_inv r2 \<and> rule_id r2 = rule_id rs \<and>
    (case chain_next rs a of
       None \<Rightarrow> r = -1 \<and> r2 = rs
     | Some b \<Rightarrow> if default_block rs b then r = -1 \<and> r2 = rs else r = 0 \<and> layout r2 = move_layout (swap_down a) rs)"
proof -
  obtain n c xs where n: "rs_node rs a = Some n" "n_pchain n = Some c" "get_chain rs c = Some xs" "a \<in> set xs" "distinct xs" "set xs \<subseteq> members rs"
    by (rule member_chain [OF assms])
  have p: "chain_next rs a = list_next a xs" using n by (simp add: chain_next_def)
  show ?thesis
  proof (cases "list_next a xs")
    case None
    then have "apn_move_down a rs = Some (-1, rs)" using n(1-3) by (simp add: apn_move_down_def apn_can_move_down_def)
    then show ?thesis using None p inv by simp
  next
    case (Some b)
    then have b: "b \<in> members rs" using n(6) next_split [OF n(5), of a b] by auto
    obtain m where m: "rs_node rs b = Some m" using member_node [OF inv b] by blast
    have e: "set_chain c (\<lambda>xs. list_after b a (remove1 a xs)) rs = set_chain c (swap_down a) rs"
      by (rule set_chain_cong [OF n(3)]) (rule move_down_list [OF n(5) Some])
    have "apn_move_down a rs = Some (if \<not> default_block rs b then (0, set_chain c (swap_down a) rs) else (-1, rs))"
      using n(1-3) m pinned_block [OF inv b m] Some e by (simp add: apn_move_down_def apn_can_move_down_def)
    moreover have "ruleset_inv (set_chain c (swap_down a) rs)" "layout (set_chain c (swap_down a) rs) = move_layout (swap_down a) rs"
      using permute_chain [OF inv a n(1,2), of "swap_down a"] swap_down_absent by simp_all
    ultimately show ?thesis using p Some inv by (cases "default_block rs b") simp_all
  qed
qed

end
