(* ===== verification/ApnEdits.thy ===== *)
theory ApnEdits
  imports ApnMove
begin

text \<open>
  The operations of the editors of rulesets against their specification: what each of them does to the layout of the
  ruleset, the lists of blocks and of the rules inside of them.
\<close>

datatype edit = Add block_type nat | Insert block_type nat u32 | Insert_rule block_type nat u32 | Insert_sfsrule nat u32
  | Remove u32 | Clean "apn_scope \<Rightarrow> bool" | Move_up nat | Move_down nat

fun run_edit :: "edit \<Rightarrow> ruleset \<Rightarrow> (int \<times> ruleset) option" where
  "run_edit (Add t a) rs = apn_add (Some a) rs"
| "run_edit (Insert t a i) rs = apn_insert (Some a) i rs"
| "run_edit (Insert_rule q x i) rs = apn_insert_rule q x i rs"
| "run_edit (Insert_sfsrule x i) rs = apn_insert_sfsrule x i rs"
| "run_edit (Remove i) rs = apn_remove i rs"
| "run_edit (Clean check) rs = map_option (\<lambda>(r, rs). (int r, rs)) (apn_clean_ruleset check rs)"
| "run_edit (Move_up a) rs = apn_move_up a rs"
| "run_edit (Move_down a) rs = apn_move_down a rs"

text \<open>What the callers guarantee: a new block or rule is not yet part of the ruleset, a moved one is.\<close>

fun edit_ok :: "edit \<Rightarrow> ruleset \<Rightarrow> bool" where
  "edit_ok (Add t a) rs \<longleftrightarrow> spare_block rs a t \<and> card (members rs) + length (kids rs a) < 2 ^ 31"
| "edit_ok (Insert t a i) rs \<longleftrightarrow> spare_block rs a t \<and> card (members rs) + length (kids rs a) < 2 ^ 31"
| "edit_ok (Insert_rule q x i) rs \<longleftrightarrow> spare_rule rs x \<and> card (members rs) < 2 ^ 31 \<and> rule_id rs x < 2 ^ 32"
| "edit_ok (Insert_sfsrule x i) rs \<longleftrightarrow> spare_rule rs x \<and> card (members rs) < 2 ^ 31 \<and> rule_id rs x < 2 ^ 32"
| "edit_ok (Remove i) rs \<longleftrightarrow> True"
| "edit_ok (Clean check) rs \<longleftrightarrow> True"
| "edit_ok (Move_up a) rs \<longleftrightarrow> a \<in> members rs"
| "edit_ok (Move_down a) rs \<longleftrightarrow> a \<in> members rs"

text \<open>The specification: the result and the layout afterwards.\<close>

definition rule_edit :: "ruleset \<Rightarrow> block_type \<Rightarrow> nat \<Rightarrow> u32 \<Rightarrow> int \<times> (block_type \<Rightarrow> (nat \<times> nat list) list)" where
  "rule_edit rs q x i =
     (if rs_maxid rs = UINT_MAX \<or> \<not> (case rs_node rs x of None \<Rightarrow> False | Some n \<Rightarrow> apn_verify_types q (n_rule n)) then (1, layout rs)
      else case rule_layout rs q x i of None \<Rightarrow> (1, layout rs) | Some l \<Rightarrow> (0, (layout rs)(q := l)))"

fun spec_edit :: "edit \<Rightarrow> ruleset \<Rightarrow> int \<times> (block_type \<Rightarrow> (nat \<times> nat list) list)" where
  "spec_edit (Add t a) rs =
     (if rs_maxid rs = UINT_MAX then (1, layout rs) else (0, (layout rs)(t := (a, kids rs a) # layout rs t)))"
| "spec_edit (Insert t a i) rs =
     (if rs_maxid rs = UINT_MAX then (1, layout rs)
      else case insert_layout (rule_id rs) t (a, kids rs a) i (layout rs) of None \<Rightarrow> (1, layout rs) | Some L \<Rightarrow> (0, L))"
| "spec_edit (Insert_rule q x i) rs = rule_edit rs q x i"
| "spec_edit (Insert_sfsrule x i) rs =
     (if i \<noteq> 0 then rule_edit rs APN_SFS x i
      else case layout rs APN_SFS of [] \<Rightarrow> (1, layout rs) | (b, xs) # bs \<Rightarrow> rule_edit rs APN_SFS x (ucast (rule_id rs b)))"
| "spec_edit (Remove i) rs =
     (if i = 0 \<or> rs_maxid rs = UINT_MAX then (1, layout rs)
      else if \<forall>a\<in>members rs. rule_id rs a \<noteq> ucast i then (2, layout rs)
      else if \<exists>b\<in>set (rs_queue rs APN_SFS). rule_id rs b = ucast i then (-1, layout rs)
      else (0, \<lambda>t. drop_rules (\<lambda>a. rule_id rs a = ucast i) (layout rs t)))"
| "spec_edit (Clean check) rs =
     (int (card (expired_in check rs (blocks rs))), \<lambda>t. map (\<lambda>(b, xs). (b, filter (\<lambda>x. \<not> expired check rs x) xs)) (layout rs t))"
| "spec_edit (Move_up a) rs =
     (if chain_prev rs a = None \<or> default_block rs a then (-1, layout rs) else (0, move_layout (swap_up a) rs))"
| "spec_edit (Move_down a) rs =
     (case chain_next rs a of
        None \<Rightarrow> (-1, layout rs)
      | Some b \<Rightarrow> if default_block rs b then (-1, layout rs) else (0, move_layout (swap_down a) rs))"

text \<open>The result of an edit: the invariant, the identifiers and the layout.\<close>

definition edited :: "ruleset \<Rightarrow> int \<times> (block_type \<Rightarrow> (nat \<times> nat list) list) \<Rightarrow> (int \<times> ruleset) option \<Rightarrow> bool" where
  "edited rs S x \<longleftrightarrow> (\<exists>r rs'. x = Some (r, rs') \<and> ruleset_inv rs' \<and> (r, layout rs') = S \<and> (\<forall>a\<in>members rs. rule_id rs' a = rule_id rs a))"

lemma edited_same: "ruleset_inv rs \<Longrightarrow> edited rs (r, layout rs) (Some (r, rs))" by (simp add: edited_def)

lemma insert_rule_edited:
  assumes "ruleset_inv rs" "spare_rule rs x" "card (members rs) < 2 ^ 31" "rule_id rs x < 2 ^ 32"
  shows "edited rs (rule_edit rs q x i) (apn_insert_rule q x i rs)"
proof -
  obtain n where n: "rs_node rs x = Some n" using assms(2) by (auto simp: spare_rule_def)
  consider (max) "rs_maxid rs = UINT_MAX" | (type) "\<not> apn_verify_types q (n_rule n)" | (ok) "rs_maxid rs \<noteq> UINT_MAX" "apn_verify_types q (n_rule n)" by blast
  then show ?thesis
  proof cases
    case ok
    then show ?thesis using insert_rule_common_ok [OF assms(1-3) ok(1) assms(4), of q i] n
      by (auto simp: apn_insert_rule_def rule_edit_def edited_def split: option.splits)
  qed (use assms(1) n in \<open>auto simp: apn_insert_rule_def apn_insert_rule_common_def rule_edit_def intro: edited_same\<close>)
qed

lemma insert_sfsrule_edited:
  assumes "ruleset_inv rs" "spare_rule rs x" "card (members rs) < 2 ^ 31" "rule_id rs x < 2 ^ 32"
  shows "edited rs (spec_edit (Insert_sfsrule x i) rs) (apn_insert_sfsrule x i rs)"
proof -
  obtain n where n: "rs_node rs x = Some n" using assms(2) by (auto simp: spare_rule_def)
  have L: "layout rs APN_SFS = [] \<longleftrightarrow> rs_queue rs APN_SFS = []" by (simp add: layout_def)
  have e: "edited rs (rule_edit rs APN_SFS x j) (apn_insert_rule APN_SFS x j rs)" for j by (rule insert_rule_edited [OF assms])
  show ?thesis
  proof (cases "i = 0")
    case True
    show ?thesis
    proof (cases "rs_queue rs APN_SFS")
      case Nil
      then have "apn_insert_sfsrule x i rs = Some (1, rs)" using n True by (auto simp: apn_insert_sfsrule_def)
      then show ?thesis using assms(1) True Nil L by (auto intro: edited_same)
    next
      case (Cons b bs)
      then have "apn_insert_sfsrule x i rs = apn_insert_rule APN_SFS x (ucast (rule_id rs b)) rs"
        using n True by (simp add: apn_insert_sfsrule_def apn_insert_rule_def)
      then show ?thesis using e [of "ucast (rule_id rs b)"] True Cons by (simp add: layout_def)
    qed
  next
    case False
    then have "apn_insert_sfsrule x i rs = apn_insert_rule APN_SFS x i rs" by (simp add: apn_insert_sfsrule_def apn_insert_rule_def)
    then show ?thesis using e [of i] False by simp
  qed
qed

lemma edit_edited: "ruleset_inv rs \<Longrightarrow> edit_ok e rs \<Longrightarrow> edited rs (spec_edit e rs) (run_edit e rs)"
proof (induction e)
  case (Add t a)
  show ?case
  proof (cases "rs_maxid rs = UINT_MAX")
    case True
    then show ?thesis using Add edited_same by (auto simp: apn_add_def)
  next
    case False
    then show ?thesis using add_ok [of rs a t] Add by (auto simp: edited_def)
  qed
next
  case (Insert t a i)
  show ?case
  proof (cases "rs_maxid rs = UINT_MAX")
    case True
    then show ?thesis using Insert edited_same by (auto simp: apn_insert_def)
  next
    case False
    then show ?thesis using insert_ok [of rs a t i] Insert by (auto simp: edited_def split: option.splits)
  qed
next
  case (Insert_rule q x i)
  then show ?case using insert_rule_edited by simp
next
  case (Insert_sfsrule x i)
  then show ?case using insert_sfsrule_edited [of rs x i] by simp
next
  case (Remove i)
  then obtain r r2 where r: "apn_remove i rs = Some (r, r2)" "ruleset_inv r2" "rule_id r2 = rule_id rs"
    "if i = 0 \<or> rs_maxid rs = UINT_MAX then r = 1 \<and> r2 = rs
     else if \<forall>a\<in>members rs. rule_id rs a \<noteq> ucast i then r = 2 \<and> r2 = rs
     else if \<exists>b\<in>set (rs_queue rs APN_SFS). rule_id rs b = ucast i then r = -1 \<and> r2 = rs
     else r = 0 \<and> layout r2 = (\<lambda>t. drop_rules (\<lambda>a. rule_id rs a = ucast i) (layout rs t))" using remove_ok [of rs i] by blast
  then have "(r, layout r2) = spec_edit (Remove i) rs" by (simp only: spec_edit.simps) (simp split: if_splits)
  then show ?case using r(1-3) by (simp add: edited_def)
next
  case (Clean check)
  then show ?case using clean_ok [of rs check] by (auto simp: edited_def)
next
  case (Move_up a)
  then show ?case using move_up_ok [of rs a] by (auto simp: edited_def split: if_splits)
next
  case (Move_down a)
  then show ?case using move_down_ok [of rs a] by (auto simp: edited_def split: if_splits option.splits)
qed


lemma empty_inv:
  assumes "rs_queue rs = (\<lambda>t. [])" "rb_root (rs_ids rs) = None" "rs_maxid rs \<noteq> 0" "\<And>a n. rs_node rs a = Some n \<Longrightarrow> a < rs_next rs"
  shows "ruleset_inv rs" "members rs = {}"
proof -
  show "members rs = {}" using assms(1) by (simp add: members_def blocks_def)
  moreover have "rb_set (rs_ids rs) {}" using assms(2) by (simp add: rb_set_def rep_def exI [of _ Lf] red_black_def ordered_def)
  ultimately show "ruleset_inv rs" using assms by (intro ruleset_invI) (auto simp: indexed_def)
qed

text \<open>An empty ruleset and a block with one rule that is not yet part of it.\<close>

definition sample_block :: "u64 \<Rightarrow> ruleset" where
  "sample_block k = \<lparr>rs_maxid = 1,
     rs_ids = \<lparr>rb_root = None, rb_ent = \<lambda>a. \<lparr>rb_key = if a = 0 then k else 0, rb_left = None, rb_right = None, rb_parent = None, rb_data = None, rb_col = ARB_BLACK\<rparr>\<rparr>,
     rs_queue = \<lambda>t. [],
     rs_node = [0 \<mapsto> \<lparr>n_scope = None, n_app = [], n_pchain = None, n_flags = 0, n_rule = Chain APN_ALF [1]\<rparr>,
                1 \<mapsto> \<lparr>n_scope = None, n_app = [], n_pchain = Some (Chain_of 0), n_flags = 0,
                     n_rule = Body (APN_DEFAULT \<lparr>d_action = APN_ACTION_ALLOW, d_log = APN_LOG_NONE\<rparr>)\<rparr>],
     rs_next = 2, rs_rand = \<lambda>i. 0, rs_rpos = 0\<rparr>"

lemma sample_inv: "ruleset_inv (sample_block k)" "members (sample_block k) = {}"
  by (rule empty_inv; auto simp: sample_block_def split: if_splits)+

lemma sample_spare: "spare_block (sample_block k) 0 APN_ALF" "kids (sample_block k) 0 = [1]"
proof -
  show "kids (sample_block k) 0 = [1]" by (simp add: kids_def get_chain_def sample_block_def)
  then show "spare_block (sample_block k) 0 APN_ALF"
    using sample_inv(2) [of k] by (simp add: spare_block_def chain_ok_def) (simp add: sample_block_def)
qed


end
