(* ===== verification/ApnParse.thy ===== *)
theory ApnParse
  imports ApnEdits
begin

text \<open>
  Blocks from the parser: the checks and the index entries of explicit identifiers (\<^verbatim>\<open>__apn_add_block_common\<close>), then the
  identifiers of all other rules (\<^verbatim>\<open>apn_assign_ids\<close>). Until then the index holds the rules with an explicit identifier only.
\<close>

subsection \<open>Structure without identifiers\<close>

definition structured :: "ruleset \<Rightarrow> bool" where
  "structured rs \<longleftrightarrow> (\<forall>t. distinct (rs_queue rs t) \<and> (\<forall>b\<in>set (rs_queue rs t). block_ok rs t b)) \<and> (\<forall>a. rs_node rs a \<noteq> None \<longrightarrow> a < rs_next rs)"

lemma inv_structured: "ruleset_inv rs \<longleftrightarrow> structured rs \<and> indexed rs (members rs)"
  by (auto simp: ruleset_inv_def structured_def)

definition same_shape :: "ruleset \<Rightarrow> ruleset \<Rightarrow> bool" where
  "same_shape rs rs' \<longleftrightarrow> rs_queue rs' = rs_queue rs \<and> rs_node rs' = rs_node rs \<and> rs_next rs' = rs_next rs"

lemma same_shape_kids: "same_shape rs rs' \<Longrightarrow> kids rs' = kids rs"
  by (rule ext, rule kids_cong) (simp add: same_shape_def)

lemma same_shape_members: "same_shape rs rs' \<Longrightarrow> members rs' = members rs"
  using same_shape_kids [of rs rs'] by (simp add: members_def blocks_def same_shape_def)

lemma same_shape_layout: "same_shape rs rs' \<Longrightarrow> layout rs' = layout rs"
  using same_shape_kids [of rs rs'] by (simp add: layout_def same_shape_def fun_eq_iff)

lemma same_shape_structured: "same_shape rs rs' \<Longrightarrow> structured rs' = structured rs"
  using same_shape_kids [of rs rs'] by (simp add: structured_def block_ok_def chain_ok_def same_shape_def)

lemma same_shape_spare: "same_shape rs rs' \<Longrightarrow> spare_block rs' = spare_block rs"
  using same_shape_kids [of rs rs'] same_shape_members [of rs rs'] by (simp add: spare_block_def chain_ok_def same_shape_def fun_eq_iff)

lemma same_rules_shape: "same_rules X rs rs' \<Longrightarrow> same_shape rs rs'" by (simp add: same_rules_def same_shape_def)

text \<open>A structure has an index: some identifiers for all of its rules. So the facts about consistent rulesets apply.\<close>

lemma structured_index:
  assumes "structured rs" "finite (members rs)" "card (members rs) \<le> 2 ^ 31"
  shows "\<exists>r1. ruleset_inv r1 \<and> same_shape rs r1"
proof -
  let ?r = "rs\<lparr>rs_ids := (rs_ids rs)\<lparr>rb_root := None\<rparr>, rs_maxid := 1\<rparr>"
  have "rb_set (rs_ids ?r) {}" by (simp add: rb_set_def rep_def exI [of _ Lf] red_black_def ordered_def)
  then have i: "indexed ?r {}" by (simp add: indexed_def)
  obtain xs where xs: "set xs = members rs" "distinct xs" using finite_distinct_list [OF assms(2)] by blast
  then have "card {} + length xs \<le> 2 ^ 31" using assms(3) distinct_card [of xs] by simp
  from assign_each_ok [OF i _ xs(2) this] obtain r1 where r1: "indexed r1 (members rs)" "same_rules (set xs) ?r r1" using xs(1) by auto
  have s: "same_shape rs r1" using same_rules_shape [OF r1(2)] by (simp add: same_shape_def)
  then show ?thesis using r1(1) same_shape_structured [OF s] same_shape_members [OF s] assms(1) by (auto simp: inv_structured)
qed

lemma structured_tail:
  assumes st: "structured rs" and f: "finite (members rs)" and sp: "spare_block rs a t" and c: "card (members rs) + length (kids rs a) < 2 ^ 31"
  shows "structured (insert_tail (Queue t) a rs)" "members (insert_tail (Queue t) a rs) = insert a (set (kids rs a)) \<union> members rs"
    "layout (insert_tail (Queue t) a rs) = (layout rs)(t := layout rs t @ [(a, kids rs a)])"
proof -
  obtain r1 where r1: "ruleset_inv r1" "same_shape rs r1" using structured_index [OF st f] c by auto
  note k = same_shape_kids [OF r1(2)] and m = same_shape_members [OF r1(2)] and l = same_shape_layout [OF r1(2)]
  have sp1: "spare_block r1 a t" using sp by (simp add: same_shape_spare [OF r1(2)])
  obtain r2 where r2: "indexed r2 (insert a (set (kids r1 a)) \<union> members r1)" "same_rules (insert a (set (kids r1 a))) r1 r2"
    using update_ids_ok [OF r1(1) sp1] c by (auto simp: k m)
  have q: "rs_queue r1 = rs_queue rs" using r1(2) by (simp add: same_shape_def)
  have d: "distinct (rs_queue rs t @ [a])" "set (rs_queue rs t @ [a]) = insert a (set (rs_queue r1 t))"
    using inv_distinct [OF r1(1), of t] sp by (auto simp: q spare_block_def dest: in_members)
  let ?r = "set_node a (n_pchain_update (\<lambda>_. Some (Queue t))) (set_chain (Queue t) (\<lambda>_. rs_queue rs t @ [a]) r2)"
  note lb = link_block [OF r1(1) sp1 r2 d]
  have s: "same_shape ?r (insert_tail (Queue t) a rs)"
    using r1(2) r2(2) by (auto simp: same_shape_def same_rules_def insert_tail_def fun_eq_iff)
  show "structured (insert_tail (Queue t) a rs)" using lb(1) by (simp add: same_shape_structured [OF s] inv_structured)
  show "members (insert_tail (Queue t) a rs) = insert a (set (kids rs a)) \<union> members rs" using lb(2) by (simp add: same_shape_members [OF s] k m)
  show "layout (insert_tail (Queue t) a rs) = (layout rs)(t := layout rs t @ [(a, kids rs a)])"
    using lb(3) by (simp add: same_shape_layout [OF s] k l) (simp add: layout_def)
qed

subsection \<open>Explicit identifiers\<close>

definition ids_of :: "rbt \<Rightarrow> nat list \<Rightarrow> u64 list" where
  "ids_of s xs = filter (\<lambda>k. k \<noteq> 0) (map (\<lambda>a. rb_key (rb_ent s a)) xs)"

lemma ids_of_frame: "frame A s s' \<Longrightarrow> ids_of s' xs = ids_of s xs" by (simp add: ids_of_def frame_def)

lemma used_frame: "frame A s s' \<Longrightarrow> used s' B = used s B" by (simp add: used_def frame_def)

lemma frame_Un: "frame A s s' \<Longrightarrow> frame B s' s'' \<Longrightarrow> frame (A \<union> B) s s''" by (simp add: frame_def)

lemma frame_subset: "frame A s s' \<Longrightarrow> A \<subseteq> B \<Longrightarrow> frame B s s'" by (auto simp: frame_def)

lemma duplicate_loop_ok:
  assumes "rb_set s A"
  shows "\<exists>d s'. duplicate_loop xs s = Some (d, s') \<and> frame (A \<union> set xs) s s' \<and>
    (d \<longleftrightarrow> \<not> (distinct (ids_of s xs) \<and> set (ids_of s xs) \<inter> used s A = {}))"
  using assms
proof (induction xs arbitrary: s A)
  case Nil
  then show ?case by (auto simp: ids_of_def frame_def intro: exI [of _ False])
next
  case (Cons a xs)
  let ?k = "rb_key (rb_ent s a)"
  show ?case
  proof (cases "?k = 0")
    case True
    then show ?thesis using Cons.IH [OF Cons.prems] by (auto simp: ids_of_def intro: frame_subset)
  next
    case False
    obtain x where x: "rb_find s ?k = Some x" "x = None \<longleftrightarrow> ?k \<notin> used s A" using find_used [OF Cons.prems] by blast
    show ?thesis
    proof (cases x)
      case None
      then have new: "\<not> (\<exists>x\<in>A. rb_key (rb_ent s x) = ?k)" using x(2) unfolding used_def by (metis image_eqI)
      obtain q s1 where s1: "rb_insert_entry a s = Some (q, s1)" "frame (insert a A) s s1" "rb_set s1 (insert a A)"
        using rb_insert_set [OF Cons.prems, of a] new by auto
      obtain d s2 where s2: "duplicate_loop xs s1 = Some (d, s2)" "frame (insert a A \<union> set xs) s1 s2"
        "d \<longleftrightarrow> \<not> (distinct (ids_of s xs) \<and> set (ids_of s xs) \<inter> used s (insert a A) = {})"
        using Cons.IH [OF s1(3)] by (auto simp: ids_of_frame [OF s1(2)] used_frame [OF s1(2)])
      have "frame (A \<union> set (a # xs)) s s2" using frame_Un [OF s1(2) s2(2)] by (rule frame_subset) auto
      moreover have "d \<longleftrightarrow> \<not> (distinct (ids_of s (a # xs)) \<and> set (ids_of s (a # xs)) \<inter> used s A = {})"
        using s2(3) False x(2) None by (auto simp: ids_of_def used_def)
      ultimately show ?thesis using x(1) None False s1(1) s2(1) by simp
    next
      case (Some e)
      then show ?thesis using x False by (auto simp: ids_of_def frame_def)
    qed
  qed
qed

lemma duplicate_ids_ok:
  assumes n: "rs_node rs b = Some n" "n_rule n = Chain t xs"
  shows "\<exists>d r1. apn_duplicate_ids b rs = Some (d, r1) \<and> same_shape rs r1 \<and> rs_maxid r1 = rs_maxid rs \<and>
    rb_root (rs_ids r1) = rb_root (rs_ids rs) \<and> frame (set (b # xs)) (rs_ids rs) (rs_ids r1) \<and> (d \<longleftrightarrow> \<not> distinct (ids_of (rs_ids rs) (b # xs)))"
proof -
  let ?s = "(rs_ids rs)\<lparr>rb_root := None\<rparr>"
  have e: "rb_set ?s {}" by (simp add: rb_set_def rep_def exI [of _ Lf] red_black_def ordered_def)
  have "\<exists>s A. (if rule_id rs b \<noteq> 0 then map_option snd (rb_insert_entry b ?s) else Some ?s) = Some s \<and> rb_set s A \<and> frame {b} ?s s \<and>
      A = (if rule_id rs b \<noteq> 0 then {b} else {})"
  proof (cases "rule_id rs b = 0")
    case True
    then show ?thesis using e by (auto simp: frame_def)
  next
    case False
    then show ?thesis using rb_insert_set [OF e, of b] by auto
  qed
  then obtain s A where s: "(if rule_id rs b \<noteq> 0 then map_option snd (rb_insert_entry b ?s) else Some ?s) = Some s" "rb_set s A" "frame {b} ?s s"
    "A = (if rule_id rs b \<noteq> 0 then {b} else {})" by blast
  obtain d s1 where s1: "duplicate_loop xs s = Some (d, s1)" "frame (A \<union> set xs) s s1"
    "d \<longleftrightarrow> \<not> (distinct (ids_of s xs) \<and> set (ids_of s xs) \<inter> used s A = {})" using duplicate_loop_ok [OF s(2)] by blast
  let ?r = "rs\<lparr>rs_ids := s1\<lparr>rb_root := rb_root (rs_ids rs)\<rparr>\<rparr>"
  have "apn_duplicate_ids b rs = Some (d, ?r)" using n s(1) s1(1) by (simp add: apn_duplicate_ids_def)
  moreover have "frame (set (b # xs)) ?s s1" using frame_Un [OF s(3) s1(2)] by (rule frame_subset) (auto simp: s(4))
  moreover have "ids_of s = ids_of (rs_ids rs)" "used s A = (\<lambda>a. rb_key (rb_ent (rs_ids rs) a)) ` A"
    using ids_of_frame [OF s(3)] used_frame [OF s(3)] by (auto simp: ids_of_def used_def fun_eq_iff)
  then have "d \<longleftrightarrow> \<not> distinct (ids_of (rs_ids rs) (b # xs))" using s1(3) s(4) by (auto simp: ids_of_def rule_id_def)
  ultimately show ?thesis by (simp add: same_shape_def frame_def)
qed

lemma finite_all: "finite (members rs)" by (simp add: members_def blocks_UN)

lemma structured_spare:
  assumes "structured rs" "spare_block rs b t" "card (members rs) \<le> 2 ^ 31"
  shows "distinct (b # kids rs b)" "set (b # kids rs b) \<inter> members rs = {}"
proof -
  obtain r1 where r1: "ruleset_inv r1" "same_shape rs r1" using structured_index [OF assms(1) finite_all assms(3)] by blast
  note k = same_shape_kids [OF r1(2)] and m = same_shape_members [OF r1(2)]
  have "spare_block r1 b t" using assms(2) by (simp add: same_shape_spare [OF r1(2)])
  then show "distinct (b # kids rs b)" "set (b # kids rs b) \<inter> members rs = {}"
    using spare_kids [OF r1(1), of b t] assms(2) by (auto simp: k m spare_block_def)
qed

lemma all_valid_ok:
  assumes "indexed rs A" "\<forall>a\<in>set xs. rule_id rs a < 2 ^ 32"
  shows "all_valid xs rs = Some (\<forall>a\<in>set xs. rule_id rs a = 0 \<or> rule_id rs a \<notin> rule_id rs ` A)"
  using assms(2)
proof (induction xs)
  case (Cons a xs)
  have "(ucast (ucast (rule_id rs a) :: u32) :: u64) = rule_id rs a"
    using Cons.prems by (simp add: word_unat_eq_iff unsigned_ucast_eq unsigned_take_bit_eq word_less_nat_alt take_bit_nat_eq_self)
  then have "apn_valid_id rs (ucast (rule_id rs a)) = Some (rule_id rs a \<notin> rule_id rs ` A)"
    using find_used [of "rs_ids rs" A "rule_id rs a"] assms(1) by (auto simp: apn_valid_id_def indexed_def used_def rule_id_def [abs_def])
  then show ?case using Cons by simp
qed simp

lemma insert_ids_ok:
  assumes "indexed rs A" "distinct xs" "set xs \<inter> A = {}" "distinct (ids_of (rs_ids rs) xs)" "set (ids_of (rs_ids rs) xs) \<inter> rule_id rs ` A = {}"
    "\<forall>a\<in>set xs. rule_id rs a < 2 ^ 32"
  shows "\<exists>r1. insert_ids xs rs = Some r1 \<and> indexed r1 (A \<union> {a \<in> set xs. rule_id rs a \<noteq> 0}) \<and> same_rules {} rs r1"
  using assms
proof (induction xs arbitrary: rs A)
  case (Cons a xs)
  show ?case
  proof (cases "rule_id rs a = 0")
    case True
    then have "{x \<in> set (a # xs). rule_id rs x \<noteq> 0} = {x \<in> set xs. rule_id rs x \<noteq> 0}" by auto
    moreover have "ids_of (rs_ids rs) (a # xs) = ids_of (rs_ids rs) xs" using True by (simp add: ids_of_def rule_id_def)
    ultimately show ?thesis using Cons.IH [OF Cons.prems(1)] Cons.prems True by simp
  next
    case False
    then have ids: "ids_of (rs_ids rs) (a # xs) = rule_id rs a # ids_of (rs_ids rs) xs" by (simp add: ids_of_def rule_id_def)
    have "rule_id rs a \<notin> used (rs_ids rs) A" using Cons.prems(5) unfolding ids by (auto simp: used_def rule_id_def)
    then obtain r1 where r1: "apn_insert_id a rs = Some r1" "indexed r1 (insert a A)" "same_rules {} rs r1"
      using insert_id_ok [OF Cons.prems(1), of a] Cons.prems(3,6) by auto
    have id: "rule_id r1 = rule_id rs" using r1(3) by (simp add: same_rules_def fun_eq_iff)
    then have io: "ids_of (rs_ids r1) xs = ids_of (rs_ids rs) xs" by (simp add: ids_of_def rule_id_def fun_eq_iff)
    have "set (ids_of (rs_ids r1) xs) \<inter> rule_id r1 ` insert a A = {}" using Cons.prems(4,5) unfolding ids io id by auto
    then have "\<exists>r2. insert_ids xs r1 = Some r2 \<and> indexed r2 (insert a A \<union> {x \<in> set xs. rule_id r1 x \<noteq> 0}) \<and> same_rules {} r1 r2"
      using Cons.prems ids io id by (intro Cons.IH [OF r1(2)]) auto
    then obtain r2 where r2: "insert_ids xs r1 = Some r2" "indexed r2 (insert a A \<union> {x \<in> set xs. rule_id rs x \<noteq> 0})" "same_rules {} r1 r2" unfolding id by blast
    have "insert a A \<union> {x \<in> set xs. rule_id rs x \<noteq> 0} = A \<union> {x \<in> set (a # xs). rule_id rs x \<noteq> 0}" using False by auto
    then show ?thesis using False r1(1) r2 same_rules_trans [OF r1(3) r2(3)] by auto
  qed
qed simp

definition parse_inv :: "ruleset \<Rightarrow> bool" where
  "parse_inv rs \<longleftrightarrow> structured rs \<and> indexed rs {a \<in> members rs. rule_id rs a \<noteq> 0}"

text \<open>The explicit identifiers of a new block are different from each other and from the ones of the ruleset.\<close>

definition fresh_ids :: "ruleset \<Rightarrow> nat \<Rightarrow> bool" where
  "fresh_ids rs b \<longleftrightarrow> distinct (ids_of (rs_ids rs) (b # kids rs b)) \<and> set (ids_of (rs_ids rs) (b # kids rs b)) \<inter> rule_id rs ` members rs = {}"

lemma fresh_valid:
  "(\<forall>a\<in>set xs. rule_id rs a = 0 \<or> rule_id rs a \<notin> rule_id rs ` {a \<in> M. rule_id rs a \<noteq> 0}) \<longleftrightarrow> set (ids_of (rs_ids rs) xs) \<inter> rule_id rs ` M = {}"
  unfolding ids_of_def rule_id_def [symmetric] by (auto simp: image_iff disjoint_iff) metis+

lemma add_block_ok:
  assumes p: "parse_inv rs" and sp: "spare_block rs b t" and c: "card (members rs) + length (kids rs b) < 2 ^ 31"
    and small: "\<forall>a\<in>set (b # kids rs b). rule_id rs a < 2 ^ 32"
  shows "\<exists>r r2. apn_add_block_common t (Some b) rs = Some (r, r2) \<and> parse_inv r2 \<and> rule_id r2 = rule_id rs \<and> (\<forall>a. a \<noteq> b \<longrightarrow> rs_node r2 a = rs_node rs a) \<and> rs_next r2 = rs_next rs \<and>
    (if fresh_ids rs b then r = 0 \<and> layout r2 = (layout rs)(t := layout rs t @ [(b, kids rs b)]) else r = 1 \<and> layout r2 = layout rs)"
proof -
  let ?xs = "b # kids rs b" and ?A = "{a \<in> members rs. rule_id rs a \<noteq> 0}"
  have st: "structured rs" and i: "indexed rs ?A" using p by (auto simp: parse_inv_def)
  have d: "distinct ?xs" "set ?xs \<inter> members rs = {}" using structured_spare [OF st sp] c by auto
  obtain n where n: "rs_node rs b = Some n" "n_rule n = Chain t (kids rs b)" using sp kids_node [of rs b] by (auto simp: spare_block_def)
  obtain du r1 where r1: "apn_duplicate_ids b rs = Some (du, r1)" "same_shape rs r1" "rs_maxid r1 = rs_maxid rs"
    "rb_root (rs_ids r1) = rb_root (rs_ids rs)" "frame (set ?xs) (rs_ids rs) (rs_ids r1)" "du \<longleftrightarrow> \<not> distinct (ids_of (rs_ids rs) ?xs)"
    using duplicate_ids_ok [OF n] by blast
  note k1 = same_shape_kids [OF r1(2)] and m1 = same_shape_members [OF r1(2)]
  have id1: "rule_id r1 = rule_id rs" "ids_of (rs_ids r1) = ids_of (rs_ids rs)"
    using r1(5) ids_of_frame [OF r1(5)] by (auto simp: rule_id_def frame_def fun_eq_iff)
  have "\<forall>a\<in>?A. rb_ent (rs_ids r1) a = rb_ent (rs_ids rs) a" using r1(5) d(2) by (auto simp: frame_def)
  then have i1: "indexed r1 ?A" using i r1(3,4) rb_set_outside [of "rs_ids rs" ?A "rs_ids r1"] id1(1) by (simp add: indexed_def)
  have p1: "parse_inv r1" using st i1 same_shape_structured [OF r1(2)] by (simp add: parse_inv_def m1 id1)
  have v: "all_valid ?xs r1 = Some (set (ids_of (rs_ids rs) ?xs) \<inter> rule_id rs ` members rs = {})"
    using all_valid_ok [OF i1, of ?xs] small fresh_valid [of ?xs r1 "members rs"] unfolding id1 by simp
  have n1: "rs_node r1 b = Some n" using n(1) r1(2) by (simp add: same_shape_def)
  show ?thesis
  proof (cases "fresh_ids rs b")
    case False
    have "apn_add_block_common t (Some b) rs = Some (1, r1)"
      using False r1(1,6) n1 n(2) v by (auto simp: apn_add_block_common_def fresh_ids_def)
    then show ?thesis using False p1 id1(1) same_shape_layout [OF r1(2)] r1(2) by (simp add: same_shape_def)
  next
    case True
    then have f: "distinct (ids_of (rs_ids rs) ?xs)" "set (ids_of (rs_ids rs) ?xs) \<inter> rule_id rs ` members rs = {}" by (auto simp: fresh_ids_def)
    obtain r2 where r2: "insert_ids ?xs r1 = Some r2" "indexed r2 (?A \<union> {a \<in> set ?xs. rule_id rs a \<noteq> 0})" "same_rules {} r1 r2"
      using insert_ids_ok [OF i1 d(1)] d(2) f small unfolding id1 by blast
    let ?r = "insert_tail (Queue t) b r2"
    have s2: "same_shape rs r2" using r1(2) same_rules_shape [OF r2(3)] by (simp add: same_shape_def)
    note k2 = same_shape_kids [OF s2] and m2 = same_shape_members [OF s2]
    have tl: "structured ?r" "members ?r = insert b (set (kids rs b)) \<union> members rs" "layout ?r = (layout rs)(t := layout rs t @ [(b, kids rs b)])"
      using structured_tail [of r2 b t] same_shape_structured [OF s2] st sp c same_shape_layout [OF s2] by (simp_all add: same_shape_spare [OF s2] finite_all k2 m2)
    have id: "rule_id ?r = rule_id rs" "rs_ids ?r = rs_ids r2" "rs_maxid ?r = rs_maxid r2"
      using r2(3) id1(1) by (auto simp: insert_tail_def same_rules_def fun_eq_iff)
    have M: "{a \<in> members ?r. rule_id ?r a \<noteq> 0} = ?A \<union> {a \<in> set ?xs. rule_id rs a \<noteq> 0}" unfolding tl(2) id(1) by auto
    have "parse_inv ?r" unfolding parse_inv_def M using tl(1) r2(2) indexed_cong [OF id(2,3)] by simp
    moreover have "apn_add_block_common t (Some b) rs = Some (0, ?r)"
      using True f r1(1,6) n1 n(2) v r2(1) by (simp add: apn_add_block_common_def)
    moreover have "\<forall>a. a \<noteq> b \<longrightarrow> rs_node ?r a = rs_node rs a" "rs_next ?r = rs_next rs" using s2 by (auto simp: insert_tail_def same_shape_def)
    ultimately show ?thesis using True id(1) tl(3) by simp
  qed
qed

subsection \<open>Identifiers for all other rules\<close>

text \<open>Rules that are not in the index get an identifier, the others keep theirs.\<close>

definition completed :: "nat set \<Rightarrow> nat set \<Rightarrow> ruleset \<Rightarrow> ruleset \<Rightarrow> bool" where
  "completed A X rs r1 \<longleftrightarrow> indexed r1 (A \<union> X) \<and> same_rules (X - A) rs r1"

lemma completed_trans: "completed A X rs r1 \<Longrightarrow> completed (A \<union> X) Y r1 r2 \<Longrightarrow> completed A (X \<union> Y) rs r2"
  unfolding completed_def by (auto simp: Un_assoc elim: same_rules_trans)

text \<open>Exactly the rules of the list without an entry in the index have no identifier.\<close>

definition pending :: "nat set \<Rightarrow> nat set \<Rightarrow> ruleset \<Rightarrow> bool" where
  "pending A X rs \<longleftrightarrow> (\<forall>a\<in>X. rule_id rs a = 0 \<longleftrightarrow> a \<notin> A)"

lemma pending_completed: "pending A X rs \<Longrightarrow> completed A Y rs r1 \<Longrightarrow> Z \<subseteq> X \<Longrightarrow> Z \<inter> Y = {} \<Longrightarrow> pending (A \<union> Y) Z r1"
  by (auto simp: pending_def completed_def same_rules_def disjoint_iff subset_iff)

lemma assign_missing_ok:
  assumes "indexed rs A" "pending A (set xs) rs" "distinct xs" "finite A" "card (A \<union> set xs) \<le> 2 ^ 31"
  shows "\<exists>r1. assign_missing xs rs = Some r1 \<and> completed A (set xs) rs r1"
  using assms
proof (induction xs arbitrary: rs A)
  case Nil
  then show ?case by (simp add: completed_def)
next
  case (Cons a xs)
  have step: "\<exists>r1. (if rule_id rs a = 0 then apn_assign_id a rs else Some rs) = Some r1 \<and> completed A {a} rs r1"
  proof (cases "rule_id rs a = 0")
    case True
    then have a: "a \<notin> A" using Cons.prems(2) by (simp add: pending_def)
    have "insert a A \<subseteq> A \<union> set (a # xs)" by auto
    then have "card (insert a A) \<le> card (A \<union> set (a # xs))" using Cons.prems(4) by (intro card_mono) auto
    then have "card A < 2 ^ 31" using Cons.prems(4,5) a by simp
    moreover have "{a} - A = {a}" using a by auto
    ultimately show ?thesis using True assign_id_ok [OF Cons.prems(1) a] by (auto simp: completed_def)
  next
    case False
    then have "a \<in> A" using Cons.prems(2) by (simp add: pending_def)
    then show ?thesis using False Cons.prems(1) by (auto simp: completed_def insert_absorb)
  qed
  then obtain r1 where r1: "(if rule_id rs a = 0 then apn_assign_id a rs else Some rs) = Some r1" "completed A {a} rs r1" by blast
  have "pending (A \<union> {a}) (set xs) r1" by (rule pending_completed [OF Cons.prems(2) r1(2)]) (use Cons.prems(3) in auto)
  moreover have "A \<union> {a} \<union> set xs = A \<union> set (a # xs)" by auto
  ultimately obtain r2 where r2: "assign_missing xs r1 = Some r2" "completed (A \<union> {a}) (set xs) r1 r2"
    using Cons.IH [of r1 "A \<union> {a}"] r1(2) Cons.prems(3,4,5) by (auto simp: completed_def)
  then show ?case using r1(1) completed_trans [OF r1(2) r2(2)] by auto
qed

definition block_rules :: "ruleset \<Rightarrow> nat list \<Rightarrow> nat list" where
  "block_rules rs bs = concat (map (\<lambda>b. kids rs b @ [b]) bs)"

lemma assign_chain_ok:
  assumes "structured rs" "set bs \<subseteq> blocks rs" "indexed rs A" "pending A (set (block_rules rs bs)) rs" "distinct (block_rules rs bs)" "finite A"
    "card (A \<union> set (block_rules rs bs)) \<le> 2 ^ 31"
  shows "\<exists>r1. apn_assign_ids_chain bs rs = Some r1 \<and> completed A (set (block_rules rs bs)) rs r1"
  using assms
proof (induction bs arbitrary: rs A)
  case Nil
  then show ?case by (simp add: completed_def block_rules_def)
next
  case (Cons b bs)
  let ?b = "kids rs b @ [b]"
  have br: "block_rules rs (b # bs) = ?b @ block_rules rs bs" by (simp add: block_rules_def)
  from Cons.prems(2) obtain t where "b \<in> set (rs_queue rs t)" by (auto simp: blocks_def)
  then have "block_ok rs t b" using Cons.prems(1) by (simp add: structured_def)
  then obtain n where n: "rs_node rs b = Some n" "n_rule n = Chain t (kids rs b)" using kids_node [of rs b] by (auto simp: block_ok_def)
  have "card (A \<union> set ?b) \<le> card (A \<union> set (block_rules rs (b # bs)))" using Cons.prems(6) by (intro card_mono) (auto simp: br)
  then obtain r1 where r1: "assign_missing ?b rs = Some r1" "completed A (set ?b) rs r1"
    using assign_missing_ok [OF Cons.prems(3), of ?b] Cons.prems(4,5,6,7) by (auto simp: br pending_def)
  have s: "same_shape rs r1" using r1(2) same_rules_shape by (auto simp: completed_def)
  then have k: "block_rules r1 bs = block_rules rs bs" "blocks r1 = blocks rs" using same_shape_kids [OF s]
    by (simp_all add: block_rules_def blocks_def same_shape_def)
  have "pending (A \<union> set ?b) (set (block_rules rs bs)) r1"
    by (rule pending_completed [OF Cons.prems(4) r1(2)]) (use Cons.prems(5) in \<open>auto simp: br\<close>)
  moreover have "A \<union> set ?b \<union> set (block_rules rs bs) = A \<union> set (block_rules rs (b # bs))" by (auto simp: br)
  ultimately have "\<exists>r2. apn_assign_ids_chain bs r1 = Some r2 \<and> completed (A \<union> set ?b) (set (block_rules r1 bs)) r1 r2"
    using Cons.prems(1,2,5,6,7) r1(2) same_shape_structured [OF s] by (intro Cons.IH) (auto simp: completed_def k br)
  then obtain r2 where r2: "apn_assign_ids_chain bs r1 = Some r2" "completed (A \<union> set ?b) (set (block_rules rs bs)) r1 r2" unfolding k by blast
  have "completed A (set (block_rules rs (b # bs))) rs r2" using completed_trans [OF r1(2) r2(2)] by (simp add: br)
  then show ?case using n r1(1) r2(1) by simp
qed

text \<open>The rules of a structure, each in one place.\<close>

lemma block_rules_distinct:
  assumes "structured rs" "card (members rs) \<le> 2 ^ 31"
  shows "distinct (block_rules rs (rs_queue rs APN_ALF @ rs_queue rs APN_SFS @ rs_queue rs APN_SB @ rs_queue rs APN_CTX))" (is "distinct (block_rules rs ?q)")
proof -
  obtain r1 where r1: "ruleset_inv r1" "same_shape rs r1" using structured_index [OF assms(1) finite_all assms(2)] by blast
  have q: "rs_queue r1 = rs_queue rs" and k: "kids r1 = kids rs" using r1(2) same_shape_kids [OF r1(2)] by (auto simp: same_shape_def)
  have dq: "set (rs_queue rs t) \<inter> set (rs_queue rs u) = {}" if "t \<noteq> u" for t u using queue_unique [OF r1(1), of _ t u] that unfolding q by blast
  have d: "distinct ?q" using inv_distinct [OF r1(1)] dq unfolding q by (simp add: Int_Un_distrib)
  have s: "set ?q \<subseteq> blocks rs" by (auto simp: blocks_def)
  have dk: "distinct (kids rs b @ [b])" if b: "b \<in> blocks rs" for b
  proof -
    from b obtain t where t: "b \<in> set (rs_queue r1 t)" by (auto simp: blocks_def q)
    then show ?thesis using inv_block [OF r1(1) t] kid_unique(2) [OF r1(1) t t] by (auto simp: block_ok_def chain_ok_def k)
  qed
  have dd: "set (kids rs b @ [b]) \<inter> set (kids rs c @ [c]) = {}" if bc: "b \<in> blocks rs" "c \<in> blocks rs" "b \<noteq> c" for b c
  proof -
    from bc obtain t u where tu: "b \<in> set (rs_queue r1 t)" "c \<in> set (rs_queue r1 u)" by (auto simp: blocks_def q)
    have "x \<noteq> c \<and> x \<notin> set (kids r1 c)" if "x \<in> set (kids r1 b)" for x using kid_unique [OF r1(1) tu(1,2) that] bc(3) tu(2) by blast
    moreover have "b \<notin> set (kids r1 c)" using kid_unique(2) [OF r1(1) tu(2,2)] tu(1) by blast
    ultimately show ?thesis using bc(3) by (auto simp: k)
  qed
  have "distinct (block_rules rs xs)" if "distinct xs" "set xs \<subseteq> blocks rs" for xs
    using that
  proof (induction xs)
    case (Cons b xs)
    have "set (kids rs b @ [b]) \<inter> set (block_rules rs xs) = {}" using Cons.prems dd [of b] by (fastforce simp: block_rules_def)
    then show ?case using Cons dk [of b] by (simp add: block_rules_def)
  qed (simp add: block_rules_def)
  then show ?thesis using d s by blast
qed

lemma block_rules_append: "block_rules rs (xs @ ys) = block_rules rs xs @ block_rules rs ys" by (simp add: block_rules_def)

lemma block_rules_members:
  "set (block_rules rs (rs_queue rs APN_ALF @ rs_queue rs APN_SFS @ rs_queue rs APN_SB @ rs_queue rs APN_CTX)) = members rs"
  by (auto simp: block_rules_def members_def blocks_UN)

lemma assign_chain_next:
  assumes st: "structured rs" and c: "completed A X rs r1" "pending A (X \<union> Y) rs" "finite A" "finite X" "card (A \<union> (X \<union> Y)) \<le> 2 ^ 31"
    and Y: "Y = set (block_rules rs (rs_queue rs t))" "distinct (block_rules rs (rs_queue rs t))" "X \<inter> Y = {}"
  shows "\<exists>r2. apn_assign_ids_chain (rs_queue r1 t) r1 = Some r2 \<and> completed A (X \<union> Y) rs r2"
proof -
  have s: "same_shape rs r1" using c(1) same_rules_shape by (auto simp: completed_def)
  have k: "block_rules r1 = block_rules rs" "rs_queue r1 = rs_queue rs" using same_shape_kids [OF s] s
    by (auto simp: block_rules_def same_shape_def fun_eq_iff)
  have "pending (A \<union> X) Y r1" by (rule pending_completed [OF c(2,1)]) (use Y(3) in auto)
  then have "\<exists>r2. apn_assign_ids_chain (rs_queue r1 t) r1 = Some r2 \<and> completed (A \<union> X) (set (block_rules r1 (rs_queue r1 t))) r1 r2"
    using c Y st same_shape_structured [OF s] by (intro assign_chain_ok) (auto simp: k completed_def blocks_def Un_assoc)
  then show ?thesis using completed_trans [OF c(1)] Y(1) unfolding k by blast
qed

lemma assign_ids_ok:
  assumes p: "parse_inv rs" and c: "card (members rs) \<le> 2 ^ 31"
  shows "\<exists>r2. apn_assign_ids rs = Some r2 \<and> ruleset_inv r2 \<and> layout r2 = layout rs \<and>
    (\<forall>a. rule_id rs a \<noteq> 0 \<or> a \<notin> members rs \<longrightarrow> rule_id r2 a = rule_id rs a)"
proof -
  let ?A = "{a \<in> members rs. rule_id rs a \<noteq> 0}" and ?R = "\<lambda>t. block_rules rs (rs_queue rs t)"
  have st: "structured rs" and i: "indexed rs ?A" using p by (auto simp: parse_inv_def)
  have f: "finite ?A" using finite_all [of rs] by simp
  have d: "distinct (?R APN_ALF @ ?R APN_SFS @ ?R APN_SB @ ?R APN_CTX)" using block_rules_distinct [OF st c] by (simp add: block_rules_append)
  have m: "members rs = set (?R APN_ALF) \<union> set (?R APN_SFS) \<union> set (?R APN_SB) \<union> set (?R APN_CTX)"
    using block_rules_members [of rs] by (simp add: block_rules_append Un_assoc)
  have pe: "pending ?A X rs" if "X \<subseteq> members rs" for X using that by (auto simp: pending_def)
  have ca: "card (?A \<union> X) \<le> 2 ^ 31" if "X \<subseteq> members rs" for X
  proof -
    have "card (?A \<union> X) \<le> card (members rs)" using that finite_all by (intro card_mono) auto
    then show ?thesis using c by simp
  qed
  have dR: "distinct (?R t)" for t using d by (cases t) auto
  have sR: "set (?R t) \<subseteq> members rs" for t unfolding m by (cases t) auto
  have step: "\<exists>r2. apn_assign_ids_chain (rs_queue r1 t) r1 = Some r2 \<and> completed ?A (X \<union> set (?R t)) rs r2"
    if "completed ?A X rs r1" "X \<subseteq> members rs" "X \<inter> set (?R t) = {}" for X r1 t
  proof (rule assign_chain_next [OF st that(1) pe f _ ca refl dR that(3)])
    show "finite X" using that(2) finite_all by (rule finite_subset)
  qed (use that(2) sR [of t] in auto)
  have dis: "set (?R APN_ALF) \<inter> set (?R APN_SFS) = {}" "(set (?R APN_ALF) \<union> set (?R APN_SFS)) \<inter> set (?R APN_SB) = {}"
    "(set (?R APN_ALF) \<union> set (?R APN_SFS) \<union> set (?R APN_SB)) \<inter> set (?R APN_CTX) = {}" using d by auto
  have "completed ?A {} rs rs" using i by (simp add: completed_def)
  from step [OF this, of APN_ALF] obtain r1 where r1: "apn_assign_ids_chain (rs_queue rs APN_ALF) rs = Some r1" "completed ?A (set (?R APN_ALF)) rs r1" by auto
  from step [OF r1(2) sR dis(1)] obtain r2 where r2: "apn_assign_ids_chain (rs_queue r1 APN_SFS) r1 = Some r2"
    "completed ?A (set (?R APN_ALF) \<union> set (?R APN_SFS)) rs r2" by blast
  from step [OF r2(2) _ dis(2)] obtain r3 where r3: "apn_assign_ids_chain (rs_queue r2 APN_SB) r2 = Some r3"
    "completed ?A (set (?R APN_ALF) \<union> set (?R APN_SFS) \<union> set (?R APN_SB)) rs r3" using sR by blast
  from step [OF r3(2) _ dis(3)] obtain r4 where r4: "apn_assign_ids_chain (rs_queue r3 APN_CTX) r3 = Some r4" "completed ?A (members rs) rs r4"
    using sR unfolding m [symmetric] by blast
  have s: "same_shape rs r4" using r4(2) same_rules_shape by (auto simp: completed_def)
  have "?A \<union> members rs = members rs" by auto
  then have "ruleset_inv r4" using r4(2) same_shape_structured [OF s] same_shape_members [OF s] st by (simp add: inv_structured completed_def)
  moreover have "apn_assign_ids rs = Some r4" using r1(1) r2(1) r3(1) r4(1) by (simp add: apn_assign_ids_def)
  ultimately show ?thesis using r4(2) same_shape_layout [OF s] by (auto simp: completed_def same_rules_def)
qed

subsection \<open>A parsed policy\<close>

text \<open>
  The actions of the grammar for the blocks of a policy, in the order of the policy, then the identifiers of the rules without one
  (\<^verbatim>\<open>__parse_rules_common\<close>). A block that cannot be added is an error of the policy.
\<close>

definition add_block :: "block_type \<Rightarrow> nat \<Rightarrow> ruleset \<Rightarrow> (int \<times> ruleset) option" where
  "add_block t b rs = (if t = APN_SFS then apn_add_sfsblock (Some b) rs else apn_add_block_common t (Some b) rs)"

fun load_blocks :: "(block_type \<times> nat) list \<Rightarrow> ruleset \<Rightarrow> (int \<times> ruleset) option" where
  "load_blocks [] rs = map_option (Pair 0) (apn_assign_ids rs)"
| "load_blocks ((t, b) # bs) rs = do {
     (r, rs) \<leftarrow> add_block t b rs;
     if r \<noteq> 0 then Some (r, rs) else load_blocks bs rs
   }"

definition policy_rules :: "ruleset \<Rightarrow> (block_type \<times> nat) list \<Rightarrow> nat list" where
  "policy_rules rs bs = concat (map (\<lambda>(t, b). b # kids rs b) bs)"

text \<open>New blocks of the parser.\<close>

definition parsed :: "ruleset \<Rightarrow> (block_type \<times> nat) list \<Rightarrow> bool" where
  "parsed rs bs \<longleftrightarrow> distinct (map snd bs) \<and> (\<forall>(t, b)\<in>set bs. spare_block rs b t) \<and> (\<forall>a\<in>set (policy_rules rs bs). rule_id rs a < 2 ^ 32)"

text \<open>No explicit identifier is used twice, and no SFS block is for an application.\<close>

definition acceptable :: "ruleset \<Rightarrow> (block_type \<times> nat) list \<Rightarrow> bool" where
  "acceptable rs bs \<longleftrightarrow> distinct (ids_of (rs_ids rs) (policy_rules rs bs)) \<and> set (ids_of (rs_ids rs) (policy_rules rs bs)) \<inter> rule_id rs ` members rs = {} \<and>
     (\<forall>(t, b)\<in>set bs. t = APN_SFS \<longrightarrow> map_option n_app (rs_node rs b) = Some [])"

lemma members_layout: "members rs = (\<Union>t. \<Union>(b, xs)\<in>set (layout rs t). insert b (set xs))"
  by (auto simp: members_def blocks_def layout_def)

lemma add_block_result:
  assumes p: "parse_inv rs" and sp: "spare_block rs b t" and c: "card (members rs) + length (kids rs b) < 2 ^ 31"
    and small: "\<forall>a\<in>set (b # kids rs b). rule_id rs a < 2 ^ 32"
  shows "\<exists>r r2. add_block t b rs = Some (r, r2) \<and> (r = 0 \<longleftrightarrow> fresh_ids rs b \<and> (t = APN_SFS \<longrightarrow> map_option n_app (rs_node rs b) = Some [])) \<and>
    (r = 0 \<longrightarrow> parse_inv r2 \<and> rule_id r2 = rule_id rs \<and> (\<forall>a. a \<noteq> b \<longrightarrow> rs_node r2 a = rs_node rs a) \<and> rs_next r2 = rs_next rs \<and>
      layout r2 = (layout rs)(t := layout rs t @ [(b, kids rs b)]))"
proof -
  obtain n where n: "rs_node rs b = Some n" using sp by (auto simp: spare_block_def)
  have "add_block t b rs = (if t = APN_SFS \<and> n_app n \<noteq> [] then Some (1, rs) else apn_add_block_common t (Some b) rs)"
    using n by (simp add: add_block_def apn_add_sfsblock_def)
  then show ?thesis using add_block_ok [OF assms] n by (cases "fresh_ids rs b") auto
qed

lemma spare_kept:
  assumes b: "spare_block rs b t" and c: "spare_block rs c u" "c \<noteq> b" and n: "\<forall>a. a \<noteq> b \<longrightarrow> rs_node r2 a = rs_node rs a"
    and m: "members r2 = insert b (set (kids rs b)) \<union> members rs"
  shows "spare_block r2 c u" "kids r2 c = kids rs c"
proof -
  show k: "kids r2 c = kids rs c" by (rule kids_cong) (use n c(2) in simp)
  have "c \<notin> set (kids rs b)" using b c(1) by (auto simp: spare_block_def chain_ok_def)
  moreover have "b \<notin> set (kids rs c)" using b c(1) by (auto simp: spare_block_def chain_ok_def)
  ultimately show "spare_block r2 c u" using c n unfolding spare_block_def chain_ok_def k m by (auto simp: Ball_def)
qed

lemma load_blocks_ok:
  assumes "parse_inv rs" "parsed rs bs" "card (members rs) + length (policy_rules rs bs) < 2 ^ 31"
  shows "\<exists>r rs'. load_blocks bs rs = Some (r, rs') \<and> (r = 0 \<longleftrightarrow> acceptable rs bs) \<and>
    (r = 0 \<longrightarrow> ruleset_inv rs' \<and> layout rs' = (\<lambda>t. layout rs t @ map (\<lambda>(u, b). (b, kids rs b)) (filter (\<lambda>(u, b). u = t) bs)) \<and>
      (\<forall>a. rule_id rs a \<noteq> 0 \<longrightarrow> rule_id rs' a = rule_id rs a))"
  using assms
proof (induction bs arbitrary: rs)
  case Nil
  then have "card (members rs) \<le> 2 ^ 31" by simp
  from assign_ids_ok [OF Nil.prems(1) this] show ?case by (auto simp: acceptable_def policy_rules_def ids_of_def)
next
  case (Cons x bs)
  obtain t b where x: "x = (t, b)" by (cases x)
  have pr: "policy_rules rs ((t, b) # bs) = (b # kids rs b) @ policy_rules rs bs" by (simp add: policy_rules_def)
  have ids: "ids_of s (xs @ ys) = ids_of s xs @ ids_of s ys" for s xs ys by (simp add: ids_of_def)
  have sp: "spare_block rs b t" and small: "\<forall>a\<in>set (b # kids rs b). rule_id rs a < 2 ^ 32" using Cons.prems(2) by (auto simp: parsed_def x pr)
  have cb: "card (members rs) + length (kids rs b) < 2 ^ 31" using Cons.prems(3) by (simp add: pr x)
  obtain r r2 where r2: "add_block t b rs = Some (r, r2)" "r = 0 \<longleftrightarrow> fresh_ids rs b \<and> (t = APN_SFS \<longrightarrow> map_option n_app (rs_node rs b) = Some [])"
    "r = 0 \<longrightarrow> parse_inv r2 \<and> rule_id r2 = rule_id rs \<and> (\<forall>a. a \<noteq> b \<longrightarrow> rs_node r2 a = rs_node rs a) \<and> rs_next r2 = rs_next rs \<and>
      layout r2 = (layout rs)(t := layout rs t @ [(b, kids rs b)])" using add_block_result [OF Cons.prems(1) sp cb small] by blast
  show ?case
  proof (cases "r = 0")
    case False
    then have "\<not> acceptable rs (x # bs)" using r2(2) unfolding acceptable_def fresh_ids_def x pr ids by auto
    then show ?thesis using False r2(1) by (simp add: x)
  next
    case True
    then have p2: "parse_inv r2" and id: "rule_id r2 = rule_id rs" and n2: "\<forall>a. a \<noteq> b \<longrightarrow> rs_node r2 a = rs_node rs a"
      and l2: "layout r2 = (layout rs)(t := layout rs t @ [(b, kids rs b)])" using r2(3) by auto
    have m2: "members r2 = insert b (set (kids rs b)) \<union> members rs"
    proof -
      have "(\<Union>(c, xs)\<in>set (layout r2 u). insert c (set xs)) =
          (if u = t then insert b (set (kids rs b)) else {}) \<union> (\<Union>(c, xs)\<in>set (layout rs u). insert c (set xs))" for u by (simp add: l2)
      then show ?thesis unfolding members_layout by (auto split: if_splits)
    qed
    have sk: "spare_block r2 c u" "kids r2 c = kids rs c" "c \<noteq> b" if "(u, c) \<in> set bs" for u c
    proof -
      show "c \<noteq> b" using that Cons.prems(2) by (force simp: parsed_def x)
      then show "spare_block r2 c u" "kids r2 c = kids rs c"
        using that Cons.prems(2) spare_kept [OF sp _ _ n2 m2, of c u] by (auto simp: parsed_def x)
    qed
    have pr2: "policy_rules r2 bs = policy_rules rs bs" using sk(2) by (auto simp: policy_rules_def intro!: arg_cong [of _ _ concat])
    have io: "ids_of (rs_ids r2) = ids_of (rs_ids rs)" using id by (auto simp: ids_of_def rule_id_def fun_eq_iff)
    have "parsed r2 bs" using Cons.prems(2) sk(1) by (auto simp: parsed_def pr2 id pr x)
    moreover have "card (members r2) + length (policy_rules r2 bs) < 2 ^ 31"
    proof -
      have "card (members r2) \<le> card (set (b # kids rs b)) + card (members rs)" unfolding m2 using card_Un_le [of "set (b # kids rs b)" "members rs"] by simp
      then show ?thesis using Cons.prems(3) card_length [of "b # kids rs b"] by (simp add: pr pr2 x)
    qed
    ultimately obtain q rs' where q: "load_blocks bs r2 = Some (q, rs')" "q = 0 \<longleftrightarrow> acceptable r2 bs"
      "q = 0 \<longrightarrow> ruleset_inv rs' \<and> layout rs' = (\<lambda>t. layout r2 t @ map (\<lambda>(u, b). (b, kids r2 b)) (filter (\<lambda>(u, b). u = t) bs)) \<and>
      (\<forall>a. rule_id r2 a \<noteq> 0 \<longrightarrow> rule_id rs' a = rule_id r2 a)" using Cons.IH [OF p2] by blast
    have nz: "set (ids_of (rs_ids rs) xs) \<inter> rule_id rs ` set ys = {} \<longleftrightarrow> set (ids_of (rs_ids rs) xs) \<inter> set (ids_of (rs_ids rs) ys) = {}" for xs ys
      by (auto simp: ids_of_def rule_id_def)
    have fr: "fresh_ids rs b" "t = APN_SFS \<longrightarrow> map_option n_app (rs_node rs b) = Some []" using True r2(2) by auto
    have "set (ids_of (rs_ids rs) (policy_rules rs bs)) \<inter> rule_id rs ` members r2 = {} \<longleftrightarrow>
        set (ids_of (rs_ids rs) (policy_rules rs bs)) \<inter> set (ids_of (rs_ids rs) (b # kids rs b)) = {} \<and>
        set (ids_of (rs_ids rs) (policy_rules rs bs)) \<inter> rule_id rs ` members rs = {}"
      using nz [of "policy_rules rs bs" "b # kids rs b"] unfolding m2 image_Un by auto
    moreover have "(\<forall>(t, c)\<in>set bs. t = APN_SFS \<longrightarrow> map_option n_app (rs_node r2 c) = Some []) \<longleftrightarrow>
        (\<forall>(t, c)\<in>set bs. t = APN_SFS \<longrightarrow> map_option n_app (rs_node rs c) = Some [])" using n2 sk(3) by (intro ball_cong) auto
    ultimately have ac: "acceptable r2 bs \<longleftrightarrow> acceptable rs (x # bs)"
      using fr unfolding acceptable_def fresh_ids_def x pr ids io id pr2 distinct_append set_append Int_Un_distrib2 by auto
    have "map (\<lambda>(u, b). (b, kids r2 b)) (filter (\<lambda>(u, b). u = s) bs) = map (\<lambda>(u, b). (b, kids rs b)) (filter (\<lambda>(u, b). u = s) bs)" for s
      using sk(2) by auto
    then show ?thesis using q ac r2(1) True by (auto simp: x id l2)
  qed
qed

lemma alloc_ok:
  fixes k :: u64
  assumes inv: "ruleset_inv rs" and n: "n_rule n = Chain t []"
  defines "r1 \<equiv> alloc n k rs"
  shows "ruleset_inv r1" "members r1 = members rs" "layout r1 = layout rs" "spare_block r1 (rs_next rs) t" "kids r1 (rs_next rs) = []"
    "rs_maxid r1 = rs_maxid rs" "rs_queue r1 = rs_queue rs" "\<forall>a\<in>members rs. rule_id r1 a = rule_id rs a"
proof -
  have new: "rs_node rs (rs_next rs) = None" using inv by (cases "rs_node rs (rs_next rs)") (auto dest: inv_alloc)
  have nm: "rs_next rs \<notin> members rs" using member_node [OF inv, of "rs_next rs"] new by auto
  have nd: "rs_node r1 a = (if a = rs_next rs then Some n else rs_node rs a)" for a by (simp add: r1_def alloc_def)
  have k: "kids r1 b = kids rs b" for b using new n by (cases "b = rs_next rs") (simp_all add: kids_def get_chain_def nd)
  show q: "rs_queue r1 = rs_queue rs" and m: "rs_maxid r1 = rs_maxid rs" by (simp_all add: r1_def alloc_def)
  show mem: "members r1 = members rs" by (simp add: members_def blocks_def q k)
  show l: "layout r1 = layout rs" by (simp add: layout_def q k fun_eq_iff)
  have e: "rb_ent (rs_ids r1) a = rb_ent (rs_ids rs) a" if "a \<noteq> rs_next rs" for a using that by (simp add: r1_def alloc_def)
  have r: "rb_root (rs_ids r1) = rb_root (rs_ids rs)" by (simp add: r1_def alloc_def)
  show id: "\<forall>a\<in>members rs. rule_id r1 a = rule_id rs a"
  proof
    fix a assume "a \<in> members rs"
    then have "a \<noteq> rs_next rs" using nm by auto
    then show "rule_id r1 a = rule_id rs a" by (simp add: rule_id_def e)
  qed
  show k0: "kids r1 (rs_next rs) = []" using n by (simp add: kids_def get_chain_def nd)
  show "spare_block r1 (rs_next rs) t" using n nm by (simp add: spare_block_def chain_ok_def k0 mem nd)
  have old: "rs_node r1 x = rs_node rs x" if "x \<in> members rs" for x using that nm by (auto simp: nd)
  show "ruleset_inv r1"
  proof (rule ruleset_invI)
    show "distinct (rs_queue r1 u)" for u using inv_distinct [OF inv] by (simp add: q)
    show "a < rs_next r1" if "rs_node r1 a = Some l" for a l using that inv_alloc [OF inv, of a l] by (auto simp: nd r1_def alloc_def split: if_splits)
    have "\<forall>a\<in>members rs. rb_ent (rs_ids r1) a = rb_ent (rs_ids rs) a" using nm by (auto intro!: e)
    then show "indexed r1 (members r1)" using inv_indexed [OF inv] rb_set_outside [OF _ r, of "members rs"] m id unfolding mem by (simp add: indexed_def)
    show "block_ok r1 u b" if b: "b \<in> set (rs_queue r1 u)" for u b
      using inv_block [OF inv b [unfolded q]] old [of b] in_members [OF b [unfolded q]] old by (simp add: block_ok_def chain_ok_def k)
  qed
qed

lemma init_sfs_ok:
  assumes inv: "ruleset_inv rs" and m: "rs_maxid rs \<noteq> UINT_MAX" and c: "card (members rs) < 2 ^ 31"
  shows "\<exists>rs2. init_sfs_rule rs = Some (0, rs2) \<and> ruleset_inv rs2 \<and> (\<forall>a\<in>members rs. rule_id rs2 a = rule_id rs a) \<and>
    layout rs2 = (if layout rs APN_SFS = [] then (layout rs)(APN_SFS := [(rs_next rs, [])]) else layout rs)"
proof (cases "rs_queue rs APN_SFS = []")
  case False
  then show ?thesis using inv by (simp add: init_sfs_rule_def layout_def)
next
  case True
  let ?n = "\<lparr>n_scope = None, n_app = [], n_pchain = None, n_flags = 0, n_rule = Chain APN_SFS []\<rparr>"
  let ?r = "alloc ?n 0 rs"
  note al = alloc_ok [OF inv, of ?n APN_SFS 0, simplified]
  have "insert_layout (rule_id ?r) APN_SFS (rs_next rs, kids ?r (rs_next rs)) 0 (layout ?r) = Some ((layout rs)(APN_SFS := [(rs_next rs, [])]))"
    using True al by (simp add: insert_layout_def layout_def)
  then show ?thesis using insert_ok [OF al(1,4), of 0] al m c True by (auto simp: init_sfs_rule_def layout_def)
qed


lemma sample_empty: "rs_queue (sample_block k) = (\<lambda>t. [])" "rb_root (rs_ids (sample_block k)) = None" "rs_maxid (sample_block k) = 1"
  "\<forall>a. rs_node (sample_block k) a \<noteq> None \<longrightarrow> a < rs_next (sample_block k)" "rule_id (sample_block k) 0 = k" "rule_id (sample_block k) 1 = 0"
  by (simp_all add: sample_block_def rule_id_def)


lemma zero_ids: "\<forall>x\<in>set xs. rule_id rs x = 0 \<Longrightarrow> all_valid xs rs = Some True" "\<forall>x\<in>set xs. rule_id rs x = 0 \<Longrightarrow> insert_ids xs rs = Some rs"
  by (induction xs) auto

lemma no_ids_below_zero: "rs_maxid rs = 0 \<Longrightarrow> apn_assign_id a rs = None"
  unfolding apn_assign_id_def by (subst assign_loop.simps) (simp add: numeral_eq_Suc)

lemma empty_tree: "rb_root s = None \<Longrightarrow> rb_set s {}" by (simp add: rb_set_def rep_def exI [of _ Lf] red_black_def ordered_def)

lemma big_id: "(k :: u64) \<noteq> 0 \<Longrightarrow> ucast k = (0 :: u32) \<Longrightarrow> 10 < k"
proof (rule ccontr)
  assume k: "k \<noteq> 0" "ucast k = (0 :: u32)" "\<not> 10 < k"
  then have "unat k \<le> 10" by (simp add: word_le_nat_alt not_less)
  then have "unat (ucast k :: u32) = unat k" by (simp add: unsigned_ucast_eq take_bit_nat_eq_self)
  then show False using k(1,2) by (simp add: unat_eq_0)
qed

lemma insert_big_id:
  assumes "rb_root (rs_ids rs) = None" "rs_maxid rs < 10" "rule_id rs b \<noteq> 0" "ucast (rule_id rs b) = (0 :: u32)"
  shows "\<exists>r1. apn_insert_id b rs = Some r1 \<and> same_rules {} rs r1 \<and> rs_maxid r1 = 0"
proof -
  let ?s = "set_ent b (rb_data_update (\<lambda>_. Some b)) (rs_ids rs)"
  obtain q s where s: "rb_insert_entry b ?s = Some (q, s)" "frame {b} ?s s" using rb_insert_set [of ?s "{}" b] empty_tree [of ?s] assms(1) by auto
  then have id: "rb_key (rb_ent s a) = rb_key (rb_ent (rs_ids rs) a)" for a by (simp add: frame_def)
  then have "(10 :: u64) < rb_key (rb_ent s b)" "ucast (rb_key (rb_ent s b)) = (0 :: u32)" using big_id [of "rule_id rs b"] assms(3,4) by (simp_all add: rule_id_def)
  then show ?thesis using s(1) assms(2) by (simp add: apn_insert_id_def index_rule_def rule_id_def same_rules_def id)
qed

lemma add_big_id:
  assumes e: "rb_root (rs_ids rs) = None" "rs_maxid rs < 10" and sp: "spare_block rs b t" "\<forall>x\<in>set (kids rs b). rule_id rs x = 0"
    and big: "rule_id rs b \<noteq> 0" "ucast (rule_id rs b) = (0 :: u32)"
  shows "\<exists>r2. apn_add_block_common t (Some b) rs = Some (0, insert_tail (Queue t) b r2) \<and> same_rules {} rs r2 \<and> rs_maxid r2 = 0"
proof -
  obtain n where n: "rs_node rs b = Some n" "n_rule n = Chain t (kids rs b)" using sp(1) kids_node [of rs b] by (auto simp: spare_block_def)
  have "ids_of (rs_ids rs) (b # kids rs b) = [rule_id rs b]" using big(1) sp(2) by (auto simp: ids_of_def rule_id_def filter_empty_conv)
  then obtain r1 where r1: "apn_duplicate_ids b rs = Some (False, r1)" "same_shape rs r1" "rs_maxid r1 = rs_maxid rs"
    "rb_root (rs_ids r1) = rb_root (rs_ids rs)" "frame (set (b # kids rs b)) (rs_ids rs) (rs_ids r1)" using duplicate_ids_ok [OF n] by auto
  have id: "rule_id r1 = rule_id rs" using r1(5) by (auto simp: rule_id_def frame_def)
  have "rb_find (rs_ids r1) 0 = Some None" using find_used [OF empty_tree, of "rs_ids r1" 0] r1(4) e(1) by (auto simp: used_def)
  then have v: "all_valid (b # kids rs b) r1 = Some True" using zero_ids(1) [of "kids rs b" r1] sp(2) big by (simp add: id apn_valid_id_def)
  obtain r2 where r2: "apn_insert_id b r1 = Some r2" "same_rules {} r1 r2" "rs_maxid r2 = 0"
    using insert_big_id [of r1 b] r1(3,4) e big by (auto simp: id)
  have "rule_id r2 = rule_id rs" using r2(2) id by (simp add: same_rules_def fun_eq_iff)
  then have "insert_ids (b # kids rs b) r1 = Some r2" using r2(1) zero_ids(2) [of "kids rs b" r2] sp(2) big(1) by (simp add: id)
  moreover have "rs_node r1 b = Some n" using n(1) r1(2) by (simp add: same_shape_def)
  moreover have "same_rules {} rs r2" using r1(2) r2(2) id by (auto simp: same_rules_def same_shape_def)
  ultimately show ?thesis using r1(1) n(2) v r2(3) by (intro exI [of _ r2]) (simp add: apn_add_block_common_def)
qed

text \<open>
  C40. A rule identifier of more than 32 bits stops the parser. If a policy has a block with an identifier that is a multiple of
  4294967296 and rules without identifiers, the block is accepted, but the bound for new identifiers becomes 0, and the assignment of
  identifiers divides by zero.
\<close>

theorem big_rule_id_crashes:
  assumes "rs_queue rs = (\<lambda>t. [])" "rb_root (rs_ids rs) = None" "rs_maxid rs = 1" "\<forall>a. rs_node rs a \<noteq> None \<longrightarrow> a < rs_next rs"
    and sp: "spare_block rs b t" "t \<noteq> APN_SFS" "kids rs b \<noteq> []" "\<forall>x\<in>set (kids rs b). rule_id rs x = 0"
    and big: "rule_id rs b \<noteq> 0" "ucast (rule_id rs b) = (0 :: u32)"
  shows "load_blocks [(t, b)] rs = None \<and> (\<exists>rs1. apn_add_block_common t (Some b) rs = Some (0, rs1) \<and> rs_maxid rs1 = 0)"
proof -
  obtain r2 where r2: "apn_add_block_common t (Some b) rs = Some (0, insert_tail (Queue t) b r2)" "same_rules {} rs r2" "rs_maxid r2 = 0"
    using add_big_id [of rs b t] assms by auto
  let ?r = "insert_tail (Queue t) b r2"
  obtain n where n: "rs_node rs b = Some n" "n_rule n = Chain t (kids rs b)" using sp(1) kids_node [of rs b] by (auto simp: spare_block_def)
  have q: "rs_queue ?r = (\<lambda>t. [])(t := [b])" "rs_maxid ?r = 0" "rule_id ?r = rule_id rs"
    using r2(2,3) assms(1) by (auto simp: insert_tail_def same_rules_def fun_eq_iff)
  obtain x xs where x: "kids rs b = x # xs" "rule_id rs x = 0" using sp(3,4) by (cases "kids rs b") auto
  have "rs_node ?r b = Some (n\<lparr>n_pchain := Some (Queue t)\<rparr>)" using n(1) r2(2) by (simp add: insert_tail_def same_rules_def)
  then have "apn_assign_ids_chain [b] ?r = None" using n(2) x q(2,3) no_ids_below_zero [of ?r x] by simp
  then have "apn_assign_ids ?r = None" using q(1) sp(2) by (cases t) (simp_all add: apn_assign_ids_def)
  then show ?thesis using r2 q(2) sp(2) by (simp add: add_block_def)
qed

lemma big_rule_id_crashes_witness: "spare_block (sample_block 4294967296) 0 APN_ALF \<and> load_blocks [(APN_ALF, 0)] (sample_block 4294967296) = None"
proof -
  have "ucast (rule_id (sample_block 4294967296) 0) = (0 :: u32)" by (simp add: sample_empty)
  then show ?thesis using big_rule_id_crashes [OF sample_empty(1-4) sample_spare(1)] sample_spare [of 4294967296] sample_empty(5,6) [of 4294967296] by auto
qed

end
