(* ===== verification/Spec2Isabelle.thy ===== *)
theory Spec2Isabelle
  imports Mediation PolicyReq Checksums ApnParse
begin

text \<open>
  \<^bold>\<open>The anoubis daemon.\<close>

  Anoubis is an application level firewall and file system guard. A kernel module asks a daemon about network
  connections, file accesses, program execution and directory changes; the daemon decides with rules of an
  administrator and of the user, asks the user where a rule says so, and tracks processes, rule
  contexts, playgrounds (sandboxed sessions) and system upgrades. The daemon under \<^verbatim>\<open>src/src/anoubisd\<close> consists of a master
  process that talks to the kernel, the policy process with the policy engine (files \<^verbatim>\<open>pe*.c\<close>, event loop \<^verbatim>\<open>policy.c\<close>), the
  session process for clients and an upgrade process. They exchange messages over pipes.

  \<^bold>\<open>Theories.\<close>
  \<^item> \<^verbatim>\<open>Prelude\<close>: machine integers, hashes and the comparison of path prefixes that several files share.
  \<^item> \<^verbatim>\<open>PrefixHash\<close> (\<^verbatim>\<open>pe_prefixhash.c\<close>): the hash table of rules by path prefix. A lookup returns every rule whose prefix can
    apply, once and in rule order.
  \<^item> \<^verbatim>\<open>Rules\<close> (\<^verbatim>\<open>apn.h\<close>, \<^verbatim>\<open>pe_build_prefixhash\<close>): rules, blocks, rulesets. The locale \<^verbatim>\<open>rule_index\<close> states what
    the decision procedures expect of an index and is interpreted on the hash table.
  \<^item> \<^verbatim>\<open>SfsCache\<close> (\<^verbatim>\<open>pe_sfscache.c\<close>): the cache of checksums with LRU list and hash chains. The locale \<^verbatim>\<open>checksum_source\<close> is
    interpreted on it: lookups return what the disk holds as long as invalidations arrive.
  \<^item> \<^verbatim>\<open>Alf\<close>, \<^verbatim>\<open>AlfDecide\<close> (\<^verbatim>\<open>pe_alf.c\<close>), \<^verbatim>\<open>Sfs\<close> (\<^verbatim>\<open>pe_sfs.c\<close>), \<^verbatim>\<open>Sandbox\<close> (\<^verbatim>\<open>pe_sandbox.c\<close>): the decision procedures, each proved equal to a
    reference semantics over the complete rule lists and the stored checksums.
  \<^item> \<^verbatim>\<open>State\<close>, \<^verbatim>\<open>ProcStore\<close>, \<^verbatim>\<open>RefCount\<close>, \<^verbatim>\<open>Context\<close>, \<^verbatim>\<open>Process\<close> (\<^verbatim>\<open>pe_proc.c\<close>, \<^verbatim>\<open>pe_context.c\<close>, \<^verbatim>\<open>pe_ipc.c\<close>, \<^verbatim>\<open>pe_user.c\<close>, the upgrade part of \<^verbatim>\<open>pe.c\<close>): processes
    and rule contexts in an explicit store with reference counts. The invariant \<^verbatim>\<open>pe_inv\<close> says that
    every count is the number of references; each operation keeps it.
  \<^item> \<^verbatim>\<open>Playground\<close> (\<^verbatim>\<open>pe_playground.c\<close>): playgrounds, their counters and their files on disk.
  \<^item> \<^verbatim>\<open>FileTree\<close> (\<^verbatim>\<open>pe_filetree.c\<close>): the tree of upgraded files, a finite map by the locale \<^verbatim>\<open>file_set\<close>.
  \<^item> \<^verbatim>\<open>Engine\<close>, \<^verbatim>\<open>Compare\<close>, \<^verbatim>\<open>Coherence\<close>, \<^verbatim>\<open>Runs\<close>, \<^verbatim>\<open>Mediation\<close> (\<^verbatim>\<open>pe.c\<close>): the event handlers and the dispatcher, and what holds in every run of
    the engine: memory safety, coherence of the cache, exact mediation of file events and renames.
  \<^item> \<^verbatim>\<open>Messages\<close>, \<^verbatim>\<open>Policy\<close> (\<^verbatim>\<open>policy.c\<close>, parts of \<^verbatim>\<open>session.c\<close>): the event loop of the policy process with escalations to
    users, timeouts, held replies and termination, and the layout of messages with variable length.
  \<^item> \<^verbatim>\<open>PolicyReq\<close> (\<^verbatim>\<open>pe_dispatch_policy\<close> of \<^verbatim>\<open>pe_user.c\<close>): requests of users that read or replace policies.
  \<^item> \<^verbatim>\<open>Verify\<close> (\<^verbatim>\<open>amsg_verify.c\<close>): the checks of every message that a process receives, as steps with a safety rule for each macro.
  \<^item> \<^verbatim>\<open>Transport\<close> (\<^verbatim>\<open>amsg.c\<close>, \<^verbatim>\<open>aqueue.c\<close>): buffers, framing and queues between the processes.
  \<^item> \<^verbatim>\<open>Abuf\<close> (\<^verbatim>\<open>anoubis_alloc.c\<close>): buffers with checked bounds, which the master process reads requests through.
  \<^item> \<^verbatim>\<open>SfsPath\<close>, \<^verbatim>\<open>SfsTree\<close>, \<^verbatim>\<open>Cert\<close> (\<^verbatim>\<open>sfs.c\<close>, \<^verbatim>\<open>cert.c\<close>): the names of the files with checksums and signatures under the
    SFS root, their format, reading, atomic replacement and removal, and the certificates of users.
  \<^item> \<^verbatim>\<open>ChecksumOp\<close> (\<^verbatim>\<open>sfs.c\<close>, the checksum part of \<^verbatim>\<open>main.c\<close>): parsing, permission checks and execution of the requests of clients on this tree,
    the replies, and the messages that invalidate the cache of the policy process. \<^verbatim>\<open>Checksums\<close> holds the theorems on them.
  \<^item> \<^verbatim>\<open>RbTree\<close>, \<^verbatim>\<open>RbSwap\<close>, \<^verbatim>\<open>RbRemove\<close>, \<^verbatim>\<open>RbMap\<close> (\<^verbatim>\<open>rbtree.c\<close> of the rule library \<^verbatim>\<open>src/src/libanoubis/apn\<close>): red-black trees with parent pointers
    on an explicit heap: rotations, insertion, removal by the exchange of two entries. The locale \<^verbatim>\<open>entry_index\<close> states an index of entries by
    keys and is interpreted on the tree.
  \<^item> \<^verbatim>\<open>ApnRuleset\<close> (\<^verbatim>\<open>apnparser.c\<close>): rulesets as linked queues of blocks with chains of rules and an index of identifiers, and the operations on them.
    \<^verbatim>\<open>ApnIds\<close>: the search for unused identifiers. \<^verbatim>\<open>ApnEdit\<close>, \<^verbatim>\<open>ApnRemove\<close>, \<^verbatim>\<open>ApnClean\<close>, \<^verbatim>\<open>ApnMove\<close>: the consistency of rulesets (\<^verbatim>\<open>ruleset_inv\<close>) and
    the effect of insertion, removal, the removal of expired rules and moves. \<^verbatim>\<open>ApnEdits\<close>: all of them against one specification. \<^verbatim>\<open>ApnParse\<close>:
    the blocks of a policy from the parser to a consistent ruleset.

  \<^bold>\<open>Modelling.\<close> A C function is an Isabelle function that takes and returns the state it changes, a \<^verbatim>\<open>pe\<close> record for the engine.
  Pointers to processes, contexts, rules and tree entries are addresses in stores of the state; in the engine a use after free sets the flag \<^verbatim>\<open>fault\<close>, a
  failed assertion \<^verbatim>\<open>panicked\<close>. NULL dereferences and out of bounds reads elsewhere are results \<^verbatim>\<open>None\<close> or \<^verbatim>\<open>Fault\<close>. Integers have the width
  of the source where it matters (hashes, masks, flags, offsets of 16 bits, conversions to \<^verbatim>\<open>int\<close>). Loops are recursive functions with
  termination proofs, so there is no fuel. The loops on the pointers of trees and rulesets, which end only in consistent structures, are partial functions
  with results \<^verbatim>\<open>Some\<close> that are shown to exist. Time, configuration, the disk, signatures and parser are arguments. The layout of kernel
  structures is not part of the sources and is a record of offsets with the law that fields lie inside of their structure.
  In the master process a failed assertion or a checked buffer access out of bounds is the result \<^verbatim>\<open>Abort\<close>, an error code \<^verbatim>\<open>Err\<close>. The disk
  below the SFS root is a list of files with contents and a list of directories; the errors of system calls and the number
  of bytes each \<^verbatim>\<open>write\<close> transfers are arguments, so that the theorems hold for failures and short transfers too. The cryptographic verification of signatures is
  a parameter. Out of memory ends the daemon in most places and is not modelled.

  \<^bold>\<open>What is shown.\<close> Mediation: an open or exec event passes iff the SFS and sandbox rules allow it, a rename is refused iff a
  rule separates the paths, a network event passes only if no priority denies it. Safety of the engine: reference counts
  are exact in all reachable states and shutdown frees everything. The policy process: every event is answered once, escalations
  time out, policies change only with authorisation and valid signatures, uploads are installed byte for byte. Communication: verification of
  arbitrary bytes stays in bounds, the pipes are FIFO channels, messages keep their parts. Refinement: cache, file tree, rule index and red-black trees
  implement maps, and the trees stay balanced. Rulesets: an accepted policy gives a consistent ruleset with its blocks in order; every operation of the editors ends,
  keeps the ruleset consistent and changes exactly the intended places. The SFS tree: file names are injective and stay
  below the root, a written file reads back without loss, a failed write leaves the old contents. Checksum requests: users change only
  their own checksums and signatures of their own certificates, a stored checksum is the one that is read, the cache of the policy process agrees with
  the disk after every request, and a request that passed the verification cannot abort the parser. Playgrounds: counters agree with processes and files, state survives a restart.

  Some theorems state defects of the code: port ranges in network byte order, log levels of capability rules, lost names in
  directory renames, NULL paths, held events at termination, split signatures, oversized messages of clients,
  rule identifiers of more than 32 bits, which end the parser, and a request whose record lengths disagree, which ends the master process.

  \<^bold>\<open>Not modelled.\<close> Process start, signals, authentication and the forwarding of upgrades in \<^verbatim>\<open>main.c\<close>, connections of clients in \<^verbatim>\<open>session.c\<close>, the
  upgrade process, scanners, configuration, logging and the compatibility layer of kernel versions are mostly calls of the operating system and of OpenSSL.
  The parser of rules is generated from a grammar; the printer of rules in \<^verbatim>\<open>apnparser.c\<close> is formatted output. The protocol and user interface libraries, command line tools
  and the graphical interface are outside of the daemon's trusted core.
\<close>

end
